(* ===== verification/Xv6_Prelude.thy ===== *)
theory Xv6_Prelude
  imports Main "HOL-Library.Word"
begin

text \<open>
  The shared base of the development.

  \<^item> The kernel computation type: an operation takes the machine state and either returns a value
    and a new state (\<open>Ok\<close>), calls \<open>panic\<close> (\<open>Panic\<close>, with the code's message), spins for ever on a
    spinlock that another hart holds (\<open>Spin\<close>), or gives the processor up inside \<open>sched\<close>
    (\<open>Switch\<close>, with the state at the \<open>swtch\<close>).
  \<^item> Sequencing of operations and its rules.
  \<^item> Bytes, little-endian words in a byte store, and their round trips.
  \<^item> The collection \<open>kop\<close> holds the equations that unfold the sequencing combinators.
\<close>

unbundle bit_operations_syntax

named_theorems kop "equations that run kernel operations"

section \<open>Machine types\<close>

type_synonym byte = "8 word"
type_synonym u32 = "32 word"
type_synonym u64 = "64 word"
type_synonym store = "u64 \<Rightarrow> byte"

section \<open>Kernel operations\<close>

datatype ('a, 's) res = Ok 'a 's | Panic string | Spin | Switch 's

type_synonym ('a, 's) kop = "'s \<Rightarrow> ('a, 's) res"

definition ret :: "'a \<Rightarrow> ('a, 's) kop" where
  "ret a = (\<lambda>s. Ok a s)"

definition bind :: "('a, 's) kop \<Rightarrow> ('a \<Rightarrow> ('b, 's) kop) \<Rightarrow> ('b, 's) kop" where
  "bind m f = (\<lambda>s. case m s of Ok a t \<Rightarrow> f a t | Panic e \<Rightarrow> Panic e | Spin \<Rightarrow> Spin | Switch t \<Rightarrow> Switch t)"

definition andthen :: "('a, 's) kop \<Rightarrow> ('b, 's) kop \<Rightarrow> ('b, 's) kop" where
  "andthen m n = bind m (\<lambda>_. n)"

definition panic :: "string \<Rightarrow> ('a, 's) kop" where
  "panic msg = (\<lambda>s. Panic msg)"

definition panic_if :: "bool \<Rightarrow> string \<Rightarrow> (unit, 's) kop" where
  "panic_if b msg = (\<lambda>s. if b then Panic msg else Ok () s)"

definition gets :: "('s \<Rightarrow> 'a) \<Rightarrow> ('a, 's) kop" where
  "gets f = (\<lambda>s. Ok (f s) s)"

definition modify :: "('s \<Rightarrow> 's) \<Rightarrow> (unit, 's) kop" where
  "modify f = (\<lambda>s. Ok () (f s))"

text \<open>A C \<open>for\<close> loop over a fixed range, with no early exit.\<close>

fun for_each :: "'x list \<Rightarrow> ('x \<Rightarrow> (unit, 's) kop) \<Rightarrow> (unit, 's) kop" where
  "for_each [] f = ret ()"
| "for_each (x # xs) f = andthen (f x) (for_each xs f)"

lemma ret_apply [simp, kop]: "ret a s = Ok a s"
  by (simp add: ret_def)

lemma bind_apply [kop]:
  "bind m f s = (case m s of Ok a t \<Rightarrow> f a t | Panic e \<Rightarrow> Panic e | Spin \<Rightarrow> Spin | Switch t \<Rightarrow> Switch t)"
  by (simp add: bind_def)

lemma andthen_apply [kop]:
  "andthen m n s = (case m s of Ok a t \<Rightarrow> n t | Panic e \<Rightarrow> Panic e | Spin \<Rightarrow> Spin | Switch t \<Rightarrow> Switch t)"
  by (simp add: andthen_def bind_def)

lemma panic_apply [simp, kop]: "panic msg s = Panic msg"
  by (simp add: panic_def)

lemma panic_if_apply [simp, kop]: "panic_if b msg s = (if b then Panic msg else Ok () s)"
  by (simp add: panic_if_def)

lemma gets_apply [simp, kop]: "gets f s = Ok (f s) s"
  by (simp add: gets_def)

lemma modify_apply [simp, kop]: "modify f s = Ok () (f s)"
  by (simp add: modify_def)

lemma bind_Ok [simp]: "m s = Ok a t \<Longrightarrow> bind m f s = f a t"
  by (simp add: bind_def)

lemma andthen_Ok [simp]: "m s = Ok a t \<Longrightarrow> andthen m n s = n t"
  by (simp add: andthen_apply)

lemma bind_Panic [simp]: "m s = Panic e \<Longrightarrow> bind m f s = Panic e"
  by (simp add: bind_def)

lemma andthen_Panic [simp]: "m s = Panic e \<Longrightarrow> andthen m n s = Panic e"
  by (simp add: andthen_apply)

lemma bind_eq_Ok:
  "bind m f s = Ok b u \<longleftrightarrow> (\<exists>a t. m s = Ok a t \<and> f a t = Ok b u)"
  by (auto simp: bind_def split: res.splits)

lemma andthen_eq_Ok:
  "andthen m n s = Ok b u \<longleftrightarrow> (\<exists>a t. m s = Ok a t \<and> n t = Ok b u)"
  by (auto simp: andthen_apply split: res.splits)

lemma bind_assoc: "bind (bind m f) g = bind m (\<lambda>a. bind (f a) g)"
  by (auto simp: bind_def fun_eq_iff split: res.splits)

lemma bind_cong [fundef_cong]:
  assumes "m = m'" and "s = s'" and "\<And>a t. m' s' = Ok a t \<Longrightarrow> f a t = f' a t"
  shows "bind m f s = bind m' f' s'"
  using assms by (auto simp: bind_def split: res.splits)

lemma andthen_cong [fundef_cong]:
  assumes "m = m'" and "s = s'" and "\<And>a t. m' s' = Ok a t \<Longrightarrow> n t = n' t"
  shows "andthen m n s = andthen m' n' s'"
  using assms by (auto simp: andthen_apply split: res.splits)

lemma if_apply_cong [fundef_cong]:
  assumes "b = b'" and "s = s'" and "b' \<Longrightarrow> m s' = m' s'" and "\<not> b' \<Longrightarrow> n s' = n' s'"
  shows "(if b then m else n) s = (if b' then m' else n') s'"
  using assms by simp

lemma let_apply_cong [fundef_cong]:
  assumes "x = x'" and "s = s'" and "\<And>y. y = x' \<Longrightarrow> f y s' = f' y s'"
  shows "(let y = x in f y) s = (let y = x' in f' y) s'"
  using assms by simp

text \<open>
  A loop whose body succeeds on every state of an invariant, updating it by a pure function, is the
  fold of that function.
\<close>

lemma for_each_fold:
  assumes "\<And>x t. x \<in> set xs \<Longrightarrow> P t \<Longrightarrow> f x t = Ok () (g x t) \<and> P (g x t)"
    and "P s"
  shows "for_each xs f s = Ok () (fold g xs s)"
  using assms
proof (induction xs arbitrary: s)
  case Nil
  then show ?case by simp
next
  case (Cons x xs)
  from Cons.prems have "f x s = Ok () (g x s)" and "P (g x s)"
    by auto
  moreover have "for_each xs f (g x s) = Ok () (fold g xs (g x s))"
    using Cons.prems \<open>P (g x s)\<close> by (intro Cons.IH) auto
  ultimately show ?case by simp
qed

section \<open>Words and bytes\<close>

definition byte_of :: "'a::len word \<Rightarrow> nat \<Rightarrow> byte" where
  "byte_of w i = ucast (drop_bit (8 * i) w)"

definition of_bytes :: "byte list \<Rightarrow> 'a::len word" where
  "of_bytes bs = foldr (\<lambda>b acc. push_bit 8 acc OR ucast b) bs 0"

definition le_bytes :: "nat \<Rightarrow> 'a::len word \<Rightarrow> byte list" where
  "le_bytes n w = map (byte_of w) [0..<n]"

definition read64 :: "store \<Rightarrow> u64 \<Rightarrow> u64" where
  "read64 m a = of_bytes (map (\<lambda>i. m (a + of_nat i)) [0..<8])"

definition write64 :: "store \<Rightarrow> u64 \<Rightarrow> u64 \<Rightarrow> store" where
  "write64 m a v = (\<lambda>x. if x - a < 8 then byte_of v (unat (x - a)) else m x)"

lemma bit_byte_of: "bit (byte_of w i) n \<longleftrightarrow> n < 8 \<and> bit w (8 * i + n)"
  by (auto simp: byte_of_def bit_simps dest: bit_imp_le_length)

lemma bit_of_bytes:
  "bit (of_bytes bs :: 'a::len word) n \<longleftrightarrow>
     n < LENGTH('a) \<and> n div 8 < length bs \<and> bit (bs ! (n div 8)) (n mod 8)"
proof (induction bs arbitrary: n)
  case Nil
  then show ?case by (simp add: of_bytes_def)
next
  case (Cons b bs)
  have eq: "(of_bytes (b # bs) :: 'a word) = push_bit 8 (of_bytes bs) OR ucast b"
    by (simp add: of_bytes_def)
  show ?case
  proof (cases "n < 8")
    case True
    then have n8: "n div 8 = 0" "n mod 8 = n" by simp_all
    show ?thesis
      using True by (simp add: eq bit_simps n8)
  next
    case False
    then have n8: "n div 8 = Suc ((n - 8) div 8)" "n mod 8 = (n - 8) mod 8"
      by (simp_all add: le_div_geq le_mod_geq not_less)
    have "\<not> bit b n" using False by (auto dest: bit_imp_le_length)
    with False show ?thesis
      by (auto simp: eq bit_simps Cons.IH n8)
  qed
qed

lemma length_le_bytes [simp]: "length (le_bytes n w) = n"
  by (simp add: le_bytes_def)

lemma of_bytes_le_bytes:
  assumes "LENGTH('a) \<le> 8 * n"
  shows "of_bytes (le_bytes n (w :: 'a::len word)) = w"
proof (rule bit_word_eqI)
  fix k assume "k < LENGTH('a)"
  with assms have "k div 8 < n" by linarith
  then show "bit (of_bytes (le_bytes n w) :: 'a word) k \<longleftrightarrow> bit w k"
    using \<open>k < LENGTH('a)\<close> by (simp add: bit_of_bytes le_bytes_def bit_byte_of)
qed

lemma of_bytes_inject_bytes:
  assumes "length bs = n" and "8 * n \<le> LENGTH('a)"
  shows "le_bytes n (of_bytes bs :: 'a::len word) = bs"
proof (rule nth_equalityI)
  show "length (le_bytes n (of_bytes bs :: 'a word)) = length bs"
    by (simp add: assms)
next
  fix i assume "i < length (le_bytes n (of_bytes bs :: 'a word))"
  then have i: "i < n" by simp
  show "le_bytes n (of_bytes bs :: 'a word) ! i = bs ! i"
  proof (rule bit_word_eqI)
    fix k assume "k < LENGTH(8)"
    then have k: "k < 8" by simp
    then have "8 * i + k < LENGTH('a)" and "(8 * i + k) div 8 = i" and "(8 * i + k) mod 8 = k"
      using i assms(2) by simp_all
    then show "bit (le_bytes n (of_bytes bs :: 'a word) ! i) k \<longleftrightarrow> bit (bs ! i) k"
      using i k assms(1) by (simp add: le_bytes_def bit_byte_of bit_of_bytes)
  qed
qed

subsection \<open>64-bit cells of a byte store\<close>

lemma sint_small:
  assumes "unat (n :: u32) < 2 ^ 31"
  shows "sint n = int (unat n)"
proof -
  have "int (unat n) < int (2 ^ 31)" using assms by (simp only: of_nat_less_iff)
  then have "signed_take_bit 31 (uint n) = uint n" using unsigned_greater_eq [of n]
    by (intro signed_take_bit_int_eq_self) (simp_all add: order.trans [of _ 0])
  then show ?thesis by (simp add: sint_uint)
qed

lemma unat_of_nat_small: "i < 2 ^ LENGTH('a) \<Longrightarrow> unat (of_nat i :: 'a::len word) = i"
  by (simp add: unat_of_nat)

lemma read64_write64_same [simp]: "read64 (write64 m a v) a = v"
proof -
  have "map (\<lambda>i. write64 m a v (a + of_nat i)) [0..<8] = le_bytes 8 v"
    unfolding le_bytes_def
  proof (rule map_cong)
    fix i :: nat assume "i \<in> set [0..<8]"
    then have "i < 8" by simp
    then have u: "unat (of_nat i :: u64) = i" by (simp add: unat_of_nat)
    then have "(of_nat i :: u64) < 8" using \<open>i < 8\<close> by (simp add: word_less_nat_alt)
    then show "write64 m a v (a + of_nat i) = byte_of v i"
      by (simp add: write64_def u)
  qed simp
  then show ?thesis by (simp add: read64_def of_bytes_le_bytes)
qed

lemma read64_cong:
  assumes "\<And>x. x - a < 8 \<Longrightarrow> m x = m' x"
  shows "read64 m a = read64 m' a"
proof -
  have "map (\<lambda>i. m (a + of_nat i)) [0..<8] = map (\<lambda>i. m' (a + of_nat i)) [0..<8]"
  proof (rule map_cong)
    fix i :: nat assume "i \<in> set [0..<8]"
    then have "i < 8" by simp
    then have "(of_nat i :: u64) < 8" by (simp add: word_less_nat_alt unat_of_nat)
    then show "m (a + of_nat i) = m' (a + of_nat i)" by (intro assms) simp
  qed simp
  then show ?thesis by (simp only: read64_def)
qed

text \<open>Two cells at different multiples of eight do not overlap.\<close>

definition aligned :: "nat \<Rightarrow> u64 \<Rightarrow> bool" where
  "aligned n a \<longleftrightarrow> unat a mod n = 0"

lemma multiple_add_less:
  fixes A N d n :: nat
  assumes "n dvd N" and "A mod n = 0" and "A < N" and "d < n"
  shows "A + d < N"
proof -
  from assms(1) obtain l where N: "N = n * l" by (rule dvdE)
  have A: "A = n * (A div n)" using assms(2) by (metis add_0_right mult_div_mod_eq)
  with N assms(3) have "n * (A div n) < n * l" by simp
  then have "Suc (A div n) \<le> l" by simp
  then have "n * Suc (A div n) \<le> n * l" by (rule mult_le_mono2)
  then show ?thesis using A N assms(4) by simp
qed

lemma unat_less_2p64: "unat (a :: u64) < 2 ^ 64"
  using unsigned_less [of a] by simp

lemma unat_aligned_add:
  assumes "aligned n a" and "n dvd 2 ^ 64" and "d < n"
  shows "unat (a + of_nat d) = unat a + d"
proof -
  have "unat a + d < 2 ^ 64"
    using assms unat_less_2p64 by (intro multiple_add_less [of n]) (simp_all add: aligned_def)
  moreover have "d < 2 ^ 64"
    using assms(3) dvd_imp_le [OF assms(2)] by simp
  ultimately show ?thesis
    by (simp add: unat_word_ariths unat_of_nat)
qed

text \<open>An offset inside an aligned block of \<open>n\<close> bytes does not leave the block.\<close>

lemma aligned_cell_div:
  assumes "aligned n a" and "n dvd 2 ^ 64" and "unat (x - a) < n"
  shows "unat x div n = unat a div n"
proof -
  define d where "d = unat (x - a)"
  have "unat x = unat (a + of_nat d)" by (simp add: d_def)
  also have "\<dots> = unat a + d"
    using assms by (intro unat_aligned_add) (simp_all add: d_def)
  finally have x: "unat x = unat a + d" .
  have a: "unat a = n * (unat a div n)"
    using assms(1) by (metis add_0_right aligned_def mult_div_mod_eq)
  have "unat x div n = (n * (unat a div n) + d) div n"
    using x a by simp
  also have "\<dots> = unat a div n"
    using assms(3) by (simp add: d_def)
  finally show ?thesis .
qed

lemma aligned_blocks_disjoint:
  assumes "aligned n a" and "aligned n b" and "a \<noteq> b" and "n dvd 2 ^ 64"
    and "unat (x - a) < n"
  shows "\<not> unat (x - b) < n"
proof
  assume "unat (x - b) < n"
  then have "unat x div n = unat b div n"
    by (rule aligned_cell_div [OF assms(2,4)])
  then have d: "unat a div n = unat b div n"
    by (simp only: aligned_cell_div [OF assms(1,4,5)])
  have m: "unat a mod n = unat b mod n"
    using assms(1,2) by (simp only: aligned_def)
  have "unat a = unat a div n * n + unat a mod n"
    by (simp only: div_mult_mod_eq)
  also have "\<dots> = unat b"
    by (simp only: d m div_mult_mod_eq)
  finally have "a = b" by (rule unsigned_word_eqI)
  then show False using assms(3) by simp
qed

lemma read64_write64_other [simp]:
  assumes "aligned 8 a" and "aligned 8 b" and "a \<noteq> b"
  shows "read64 (write64 m b v) a = read64 m a"
proof (rule read64_cong)
  fix x assume "x - a < (8 :: u64)"
  then have "unat (x - a) < 8" by (simp add: word_less_nat_alt)
  then have "\<not> unat (x - b) < 8" using assms by (intro aligned_blocks_disjoint [of 8 a b]) simp_all
  then show "write64 m b v x = m x"
    by (simp add: write64_def word_less_nat_alt)
qed

section \<open>Fields of a block of bytes\<close>

definition blk_get :: "byte list \<Rightarrow> nat \<Rightarrow> nat \<Rightarrow> byte list" where
  "blk_get d off n = take n (drop off d)"

definition blk_put :: "byte list \<Rightarrow> nat \<Rightarrow> byte list \<Rightarrow> byte list" where
  "blk_put d off bs = take off d @ bs @ drop (off + length bs) d"

definition rd16 :: "byte list \<Rightarrow> nat \<Rightarrow> 16 word" where
  "rd16 d off = of_bytes (blk_get d off 2)"

definition rd32 :: "byte list \<Rightarrow> nat \<Rightarrow> u32" where
  "rd32 d off = of_bytes (blk_get d off 4)"

definition rd64 :: "byte list \<Rightarrow> nat \<Rightarrow> u64" where
  "rd64 d off = of_bytes (blk_get d off 8)"

definition wr16 :: "byte list \<Rightarrow> nat \<Rightarrow> 16 word \<Rightarrow> byte list" where
  "wr16 d off v = blk_put d off (le_bytes 2 v)"

definition wr32 :: "byte list \<Rightarrow> nat \<Rightarrow> u32 \<Rightarrow> byte list" where
  "wr32 d off v = blk_put d off (le_bytes 4 v)"

lemma length_blk_put [simp]: "off + length bs \<le> length d \<Longrightarrow> length (blk_put d off bs) = length d"
  by (simp add: blk_put_def)

lemma length_blk_get [simp]: "length (blk_get d off n) = min n (length d - off)"
  by (simp add: blk_get_def)

lemma nth_blk_put:
  assumes "off + length bs \<le> length d" and "i < length d"
  shows "blk_put d off bs ! i = (if off \<le> i \<and> i < off + length bs then bs ! (i - off) else d ! i)"
  using assms by (auto simp: blk_put_def nth_append)

lemma nth_blk_get: "i < n \<Longrightarrow> off + i < length d \<Longrightarrow> blk_get d off n ! i = d ! (off + i)"
  by (simp add: blk_get_def)

lemma blk_get_put_same: "off + length bs \<le> length d \<Longrightarrow> blk_get (blk_put d off bs) off (length bs) = bs"
  by (simp add: blk_get_def blk_put_def)

lemma blk_get_put_other:
  assumes "off' + length bs \<le> length d" and "off + n \<le> length d" and "off + n \<le> off' \<or> off' + length bs \<le> off"
  shows "blk_get (blk_put d off' bs) off n = blk_get d off n"
  using assms by (intro nth_equalityI) (auto simp: nth_blk_get nth_blk_put)

lemma rd32_wr32_same [simp]: "off + 4 \<le> length d \<Longrightarrow> rd32 (wr32 d off v) off = v"
  using blk_get_put_same [of off "le_bytes 4 v" d] by (simp add: rd32_def wr32_def of_bytes_le_bytes)

lemma rd32_wr32_other [simp]:
  "off' + 4 \<le> length d \<Longrightarrow> off + 4 \<le> length d \<Longrightarrow> off + 4 \<le> off' \<or> off' + 4 \<le> off \<Longrightarrow> rd32 (wr32 d off' v) off = rd32 d off"
  using blk_get_put_other [of off' "le_bytes 4 v" d off 4] by (simp add: rd32_def wr32_def)

lemma length_wr32 [simp]: "off + 4 \<le> length d \<Longrightarrow> length (wr32 d off v) = length d"
  by (simp add: wr32_def)

lemma length_wr16 [simp]: "off + 2 \<le> length d \<Longrightarrow> length (wr16 d off v) = length d"
  by (simp add: wr16_def)

end
