(* ===== verification/Riscv.thy ===== *)
theory Riscv
  imports Xv6_Prelude
begin

text \<open>
  Constants and address arithmetic of \<open>kernel/param.h\<close>, \<open>kernel/memlayout.h\<close> and \<open>kernel/riscv.h\<close>:
  page rounding, Sv39 page-table entries and indices, the memory layout, and the supervisor control
  registers with the interrupt-enable bit of \<open>sstatus\<close>. All addresses are 64-bit words, so the
  macros wrap around exactly where the C code does.
\<close>

section \<open>Parameters\<close>

abbreviation (input) NPROC :: nat where "NPROC \<equiv> 64"
abbreviation (input) NCPU :: nat where "NCPU \<equiv> 8"
abbreviation (input) NOFILE :: nat where "NOFILE \<equiv> 16"
abbreviation (input) NFILE :: nat where "NFILE \<equiv> 100"
abbreviation (input) NINODE :: nat where "NINODE \<equiv> 50"
abbreviation (input) NDEV :: nat where "NDEV \<equiv> 10"
abbreviation (input) ROOTDEV :: u32 where "ROOTDEV \<equiv> 1"
abbreviation (input) MAXARG :: nat where "MAXARG \<equiv> 32"
abbreviation (input) MAXOPBLOCKS :: nat where "MAXOPBLOCKS \<equiv> 10"
abbreviation (input) LOGSIZE :: nat where "LOGSIZE \<equiv> 30"
abbreviation (input) NBUF :: nat where "NBUF \<equiv> 30"
abbreviation (input) MAXPATH :: nat where "MAXPATH \<equiv> 128"

abbreviation (input) PGSIZE :: u64 where "PGSIZE \<equiv> 4096"
abbreviation (input) MAXVA :: u64 where "MAXVA \<equiv> 0x4000000000"
abbreviation (input) KERNBASE :: u64 where "KERNBASE \<equiv> 0x80000000"
abbreviation (input) PHYSTOP :: u64 where "PHYSTOP \<equiv> 0x88000000"
abbreviation (input) UART0 :: u64 where "UART0 \<equiv> 0x10000000"
abbreviation (input) VIRTIO0 :: u64 where "VIRTIO0 \<equiv> 0x10001000"
abbreviation (input) CLINT :: u64 where "CLINT \<equiv> 0x2000000"
abbreviation (input) PLIC :: u64 where "PLIC \<equiv> 0x0c000000"
abbreviation (input) TRAMPOLINE :: u64 where "TRAMPOLINE \<equiv> MAXVA - PGSIZE"
abbreviation (input) TRAPFRAME :: u64 where "TRAPFRAME \<equiv> TRAMPOLINE - PGSIZE"

definition KSTACK :: "nat \<Rightarrow> u64" where
  "KSTACK p = TRAMPOLINE - (of_nat p + 1) * 2 * PGSIZE"

section \<open>Pages and page-table entries\<close>

definition PGROUNDUP :: "u64 \<Rightarrow> u64" where
  "PGROUNDUP sz = (sz + PGSIZE - 1) AND NOT (PGSIZE - 1)"

definition PGROUNDDOWN :: "u64 \<Rightarrow> u64" where
  "PGROUNDDOWN a = a AND NOT (PGSIZE - 1)"

abbreviation (input) PTE_V :: u64 where "PTE_V \<equiv> 1"
abbreviation (input) PTE_R :: u64 where "PTE_R \<equiv> 2"
abbreviation (input) PTE_W :: u64 where "PTE_W \<equiv> 4"
abbreviation (input) PTE_X :: u64 where "PTE_X \<equiv> 8"
abbreviation (input) PTE_U :: u64 where "PTE_U \<equiv> 16"

definition PA2PTE :: "u64 \<Rightarrow> u64" where
  "PA2PTE pa = push_bit 10 (drop_bit 12 pa)"

definition PTE2PA :: "u64 \<Rightarrow> u64" where
  "PTE2PA pte = push_bit 12 (drop_bit 10 pte)"

definition PTE_FLAGS :: "u64 \<Rightarrow> u64" where
  "PTE_FLAGS pte = pte AND 0x3FF"

definition PX :: "nat \<Rightarrow> u64 \<Rightarrow> u64" where
  "PX level va = drop_bit (12 + 9 * level) va AND 0x1FF"

section \<open>Control registers\<close>

abbreviation (input) SSTATUS_SPP :: u64 where "SSTATUS_SPP \<equiv> 0x100"
abbreviation (input) SSTATUS_SPIE :: u64 where "SSTATUS_SPIE \<equiv> 0x20"
abbreviation (input) SSTATUS_SIE :: u64 where "SSTATUS_SIE \<equiv> 2"

definition MAKE_SATP :: "u64 \<Rightarrow> u64" where
  "MAKE_SATP pagetable = 0x8000000000000000 OR drop_bit 12 pagetable"

record csrs =
  sstatus :: u64
  sip :: u64
  sepc :: u64
  scause :: u64
  stval :: u64
  stvec :: u64
  satp :: u64

definition csr_intr_on :: "csrs \<Rightarrow> csrs" where
  "csr_intr_on c = c\<lparr>sstatus := sstatus c OR SSTATUS_SIE\<rparr>"

definition csr_intr_off :: "csrs \<Rightarrow> csrs" where
  "csr_intr_off c = c\<lparr>sstatus := sstatus c AND NOT SSTATUS_SIE\<rparr>"

definition csr_intr_get :: "csrs \<Rightarrow> bool" where
  "csr_intr_get c \<longleftrightarrow> sstatus c AND SSTATUS_SIE \<noteq> 0"

section \<open>Facts about the arithmetic\<close>

lemma bit_2_iff: "bit (2 :: u64) n \<longleftrightarrow> n = 1"
  using bit_exp_iff [where 'a = u64, of 1 n] by auto

lemmas sie_bit = bit_and_iff bit_or_iff bit_not_iff bit_2_iff

lemma csr_intr_get_bit: "csr_intr_get c \<longleftrightarrow> bit (sstatus c) 1"
proof
  assume "csr_intr_get c"
  show "bit (sstatus c) 1"
  proof (rule ccontr)
    assume "\<not> bit (sstatus c) 1"
    then have "sstatus c AND 2 = 0"
      by (intro bit_word_eqI) (unfold sie_bit, auto)
    with \<open>csr_intr_get c\<close> show False by (simp add: csr_intr_get_def)
  qed
next
  assume "bit (sstatus c) 1"
  then have "bit (sstatus c AND 2) 1" by (unfold sie_bit) simp
  then show "csr_intr_get c" by (auto simp: csr_intr_get_def)
qed

lemma csr_intr_get_on [simp]: "csr_intr_get (csr_intr_on c)"
  by (simp add: csr_intr_get_bit csr_intr_on_def bit_or_iff bit_2_iff)

lemma csr_intr_get_off [simp]: "\<not> csr_intr_get (csr_intr_off c)"
  by (unfold csr_intr_get_bit csr_intr_off_def) (simp add: bit_and_iff bit_not_iff)

lemma csr_intr_off_idle [simp]: "\<not> csr_intr_get c \<Longrightarrow> csr_intr_off c = c"
proof -
  assume "\<not> csr_intr_get c"
  then have "sstatus c AND NOT 2 = sstatus c"
    by (intro bit_word_eqI) (unfold csr_intr_get_bit sie_bit, auto)
  then show ?thesis by (simp add: csr_intr_off_def)
qed

lemma csr_intr_on_off [simp]: "csr_intr_get c \<Longrightarrow> csr_intr_on (csr_intr_off c) = c"
proof -
  assume "csr_intr_get c"
  then have "(sstatus c AND NOT 2) OR 2 = sstatus c"
    by (intro bit_word_eqI) (unfold csr_intr_get_bit sie_bit, auto)
  then show ?thesis by (simp add: csr_intr_on_def csr_intr_off_def)
qed

lemma mask_4095: "(4095 :: u64) = mask 12"
  by (simp add: mask_eq_exp_minus_1)

lemma PGROUNDDOWN_shift: "PGROUNDDOWN a = push_bit 12 (drop_bit 12 a)"
proof -
  have "PGROUNDDOWN a = a AND NOT (mask 12)"
    by (simp add: PGROUNDDOWN_def mask_4095)
  also have "\<dots> = push_bit 12 (drop_bit 12 a)"
    by (intro bit_word_eqI) (auto simp: bit_simps)
  finally show ?thesis .
qed

lemma unat_push12_drop12: "unat (push_bit 12 (drop_bit 12 (a :: u64))) = unat a div 4096 * 4096"
proof -
  have "unat (drop_bit 12 a) = unat a div 4096"
    unfolding unat_drop_bit_eq by (simp add: drop_bit_eq_div)
  moreover have "unat a div 4096 * 4096 < 2 ^ 64"
    using unat_less_2p64 [of a] by (metis div_times_less_eq_dividend le_less_trans)
  ultimately show ?thesis
    by (simp add: push_bit_eq_mult unat_word_ariths)
qed

lemma unat_PGROUNDDOWN: "unat (PGROUNDDOWN a) = unat a div 4096 * 4096"
  by (simp add: PGROUNDDOWN_shift unat_push12_drop12)

lemma PGROUNDUP_down: "PGROUNDUP sz = PGROUNDDOWN (sz + 4095)"
  by (simp add: PGROUNDUP_def PGROUNDDOWN_def add.commute)

lemma unat_PGROUNDUP:
  assumes "unat sz + 4095 < 2 ^ 64"
  shows "unat (PGROUNDUP sz) = (unat sz + 4095) div 4096 * 4096"
  using assms by (simp add: PGROUNDUP_down unat_PGROUNDDOWN unat_word_ariths)

lemma aligned_PGROUNDDOWN [simp]: "aligned 4096 (PGROUNDDOWN a)"
  by (simp add: aligned_def unat_PGROUNDDOWN)

lemma PGROUNDDOWN_aligned [simp]: "aligned 4096 a \<Longrightarrow> PGROUNDDOWN a = a"
proof -
  assume "aligned 4096 a"
  then have "unat a div 4096 * 4096 = unat a"
    by (metis aligned_def add_0_right div_mult_mod_eq)
  then have "unat (PGROUNDDOWN a) = unat a" by (simp only: unat_PGROUNDDOWN)
  then show ?thesis by (rule unsigned_word_eqI)
qed

lemma PTE2PA_PA2PTE: "PTE2PA (PA2PTE pa) = PGROUNDDOWN pa"
  by (intro bit_word_eqI) (auto simp: PGROUNDDOWN_shift PTE2PA_def PA2PTE_def bit_simps)

lemma PTE2PA_flags:
  assumes "aligned 4096 pa" and "flags < 1024"
  shows "PTE2PA (PA2PTE pa OR flags) = pa"
proof -
  have "drop_bit 10 flags = (0 :: u64)"
    using assms(2) by (simp add: drop_bit_eq_div word_arith_nat_div unat_of_nat word_less_nat_alt)
  then have "PTE2PA (PA2PTE pa OR flags) = PTE2PA (PA2PTE pa)"
    by (simp add: PTE2PA_def drop_bit_or)
  then show ?thesis using assms(1) by (simp add: PTE2PA_PA2PTE)
qed

lemma aligned_PTE2PA [simp]: "aligned 4096 (PTE2PA pte)"
proof -
  have "PTE2PA pte = PGROUNDDOWN (PTE2PA pte)"
    by (intro bit_word_eqI) (auto simp: PGROUNDDOWN_shift PTE2PA_def bit_simps)
  then show ?thesis by (metis aligned_PGROUNDDOWN)
qed

lemma unat_PX_less: "unat (PX level va) < 512"
proof -
  have "unat (PX level va) \<le> unat (0x1FF :: u64)"
    unfolding PX_def by (rule word_and_le1 [THEN word_le_nat_alt [THEN iffD1]])
  then show ?thesis by simp
qed

lemma PA2PTE_low_bits: "PA2PTE pa AND mask 10 = 0"
  by (intro bit_word_eqI) (auto simp: PA2PTE_def bit_simps)

end
