(* ===== verification/Spinlock.thy ===== *)
theory Spinlock
  imports Riscv
begin

text \<open>
  \<open>kernel/spinlock.c\<close>: the per-CPU interrupt nesting (\<open>push_off\<close>, \<open>pop_off\<close>) and the spinlocks
  (\<open>initlock\<close>, \<open>acquire\<close>, \<open>release\<close>, \<open>holding\<close>), with \<open>cpuid\<close>, \<open>mycpu\<close> and \<open>myproc\<close> of
  \<open>kernel/proc.c\<close>, which they use.

  A lock is named by the C object it is a field of (\<open>lockid\<close>), so two locks are the same object
  exactly when their names are equal. The record \<open>hw\<close> is what the code sees of the hardware and of
  the \<open>cpus\<close> array: the hart it runs on (\<open>tp\<close>), that hart's control registers, every hart's
  \<open>struct cpu\<close>, and every spinlock.

  An operation of the sequential model runs on one hart. \<open>acquire\<close> of a lock that another hart holds
  is \<open>Spin\<close>. The interleaving of several harts is the step relation \<open>lock_step\<close>, which splits
  \<open>acquire\<close> and \<open>release\<close> at their atomic memory operations.
\<close>

section \<open>State\<close>

datatype slid = Sl_buf nat | Sl_inode nat

datatype lockid =
    Lk_kmem | Lk_pid | Lk_proc nat | Lk_bcache | Lk_log | Lk_icache | Lk_ftable | Lk_ticks
  | Lk_pipe u64 | Lk_sleep slid | Lk_cons | Lk_uart | Lk_disk | Lk_pr

record spinlock =
  locked :: bool
  lk_name :: string
  lk_cpu :: "nat option"

record cpu =
  cpu_proc :: "nat option"
  noff :: nat
  intena :: bool

record hw =
  tp :: nat
  csr :: csrs
  cpus :: "nat \<Rightarrow> cpu"
  locks :: "lockid \<Rightarrow> spinlock"

record kstate =
  hw :: hw

section \<open>Operations on the hardware state\<close>

definition cpuid :: "hw \<Rightarrow> nat" where
  "cpuid h = tp h"

definition mycpu :: "hw \<Rightarrow> cpu" where
  "mycpu h = cpus h (cpuid h)"

definition set_mycpu :: "cpu \<Rightarrow> hw \<Rightarrow> hw" where
  "set_mycpu c h = h\<lparr>cpus := (cpus h)(cpuid h := c)\<rparr>"

definition intr_on :: "hw \<Rightarrow> hw" where
  "intr_on h = h\<lparr>csr := csr_intr_on (csr h)\<rparr>"

definition intr_off :: "hw \<Rightarrow> hw" where
  "intr_off h = h\<lparr>csr := csr_intr_off (csr h)\<rparr>"

definition intr_get :: "hw \<Rightarrow> bool" where
  "intr_get h = csr_intr_get (csr h)"

definition push_off :: "hw \<Rightarrow> hw" where
  "push_off h =
     (let old = intr_get h;
          h = intr_off h;
          c = mycpu h;
          c = (if noff c = 0 then c\<lparr>intena := old\<rparr> else c)
      in set_mycpu (c\<lparr>noff := noff c + 1\<rparr>) h)"

definition pop_off :: "(unit, hw) kop" where
  "pop_off h =
     (let c = mycpu h
      in if intr_get h then Panic ''pop_off - interruptible''
         else if noff c < 1 then Panic ''pop_off''
         else let c = c\<lparr>noff := noff c - 1\<rparr>;
                  h = set_mycpu c h
              in Ok () (if noff c = 0 \<and> intena c then intr_on h else h))"

definition holding :: "lockid \<Rightarrow> hw \<Rightarrow> bool" where
  "holding lk h \<longleftrightarrow> locked (locks h lk) \<and> lk_cpu (locks h lk) = Some (cpuid h)"

definition hw_initlock :: "lockid \<Rightarrow> string \<Rightarrow> hw \<Rightarrow> hw" where
  "hw_initlock lk name h =
     h\<lparr>locks := (locks h)(lk := \<lparr>locked = False, lk_name = name, lk_cpu = None\<rparr>)\<rparr>"

definition hw_acquire :: "lockid \<Rightarrow> (unit, hw) kop" where
  "hw_acquire lk h =
     (let h = push_off h
      in if holding lk h then Panic ''acquire''
         else if locked (locks h lk) then Spin
         else Ok () (h\<lparr>locks := (locks h)(lk := (locks h lk)\<lparr>locked := True, lk_cpu := Some (cpuid h)\<rparr>)\<rparr>))"

definition hw_release :: "lockid \<Rightarrow> (unit, hw) kop" where
  "hw_release lk h =
     (if \<not> holding lk h then Panic ''release''
      else pop_off (h\<lparr>locks := (locks h)(lk := (locks h lk)\<lparr>lk_cpu := None, locked := False\<rparr>)\<rparr>))"

definition hw_myproc :: "(nat option, hw) kop" where
  "hw_myproc h =
     (let h = push_off h;
          p = cpu_proc (mycpu h)
      in andthen pop_off (ret p) h)"

section \<open>The same operations on any kernel state\<close>

definition on_hw :: "('a, hw) kop \<Rightarrow> ('a, 'x kstate_scheme) kop" where
  "on_hw f s = (case f (hw s) of
      Ok a h \<Rightarrow> Ok a (s\<lparr>hw := h\<rparr>)
    | Panic e \<Rightarrow> Panic e
    | Spin \<Rightarrow> Spin
    | Switch h \<Rightarrow> Switch (s\<lparr>hw := h\<rparr>))"

definition initlock :: "lockid \<Rightarrow> string \<Rightarrow> (unit, 'x kstate_scheme) kop" where
  "initlock lk name = modify (\<lambda>s. s\<lparr>hw := hw_initlock lk name (hw s)\<rparr>)"

definition acquire :: "lockid \<Rightarrow> (unit, 'x kstate_scheme) kop" where
  "acquire lk = on_hw (hw_acquire lk)"

definition release :: "lockid \<Rightarrow> (unit, 'x kstate_scheme) kop" where
  "release lk = on_hw (hw_release lk)"

definition myproc :: "(nat option, 'x kstate_scheme) kop" where
  "myproc = on_hw hw_myproc"

section \<open>Laws of the sequential operations\<close>

definition lk_free :: "lockid \<Rightarrow> hw \<Rightarrow> bool" where
  "lk_free lk h \<longleftrightarrow> \<not> locked (locks h lk) \<and> lk_cpu (locks h lk) = None"

text \<open>
  The state after \<open>acquire\<close> of a free lock, and what a balanced acquire/release leaves behind: when
  no lock was held, \<open>intena\<close> of this CPU becomes the interrupt state at entry; nothing else changes.
\<close>

definition held :: "lockid \<Rightarrow> hw \<Rightarrow> hw" where
  "held lk h = (let h' = push_off h in
     h'\<lparr>locks := (locks h)(lk := (locks h lk)\<lparr>locked := True, lk_cpu := Some (cpuid h)\<rparr>)\<rparr>)"

definition lock_cycle :: "hw \<Rightarrow> hw" where
  "lock_cycle h = (if noff (mycpu h) = 0 then set_mycpu ((mycpu h)\<lparr>intena := intr_get h\<rparr>) h else h)"

text \<open>Interrupts are off whenever this CPU holds a lock.\<close>

definition intr_ok :: "hw \<Rightarrow> bool" where
  "intr_ok h \<longleftrightarrow> (noff (mycpu h) > 0 \<longrightarrow> \<not> intr_get h)"

lemmas hw_defs = cpuid_def mycpu_def set_mycpu_def intr_on_def intr_off_def intr_get_def

lemma push_off_locks [simp]: "locks (push_off h) = locks h"
  by (simp add: push_off_def Let_def hw_defs)

lemma push_off_tp [simp]: "tp (push_off h) = tp h"
  by (simp add: push_off_def Let_def hw_defs)

lemma cpuid_push_off [simp]: "cpuid (push_off h) = cpuid h"
  by (simp add: cpuid_def)

lemma pop_off_push_off:
  assumes "intr_ok h"
  shows "pop_off ((push_off h)\<lparr>locks := L\<rparr>) = Ok () ((lock_cycle h)\<lparr>locks := L\<rparr>)"
  using assms
  by (auto simp: pop_off_def push_off_def lock_cycle_def intr_ok_def Let_def hw_defs
      fun_upd_idem split: if_splits)

lemma lock_cycle_locks [simp]: "locks (lock_cycle h) = locks h"
  by (simp add: lock_cycle_def hw_defs)

lemma lock_cycle_tp [simp]: "tp (lock_cycle h) = tp h"
  by (simp add: lock_cycle_def hw_defs)

lemma lock_cycle_csr [simp]: "csr (lock_cycle h) = csr h"
  by (simp add: lock_cycle_def hw_defs)

lemma lock_cycle_cpuid [simp]: "cpuid (lock_cycle h) = cpuid h"
  by (simp add: cpuid_def)

lemma lock_cycle_idem [simp]: "lock_cycle (lock_cycle h) = lock_cycle h"
  by (simp add: lock_cycle_def hw_defs)

lemma lock_cycle_proc [simp]: "cpu_proc (mycpu (lock_cycle h)) = cpu_proc (mycpu h)"
  by (simp add: lock_cycle_def hw_defs)

lemma lock_cycle_noff [simp]: "noff (mycpu (lock_cycle h)) = noff (mycpu h)"
  by (simp add: lock_cycle_def hw_defs)

lemma lk_free_cycle [simp]: "lk_free lk (lock_cycle h) = lk_free lk h"
  by (simp add: lk_free_def)

lemma intr_ok_cycle [simp]: "intr_ok (lock_cycle h) = intr_ok h"
  by (auto simp: intr_ok_def lock_cycle_def hw_defs)

lemma held_proc [simp]: "cpu_proc (mycpu (held lk h)) = cpu_proc (mycpu h)"
  by (simp add: held_def push_off_def Let_def hw_defs)

lemma held_tp [simp]: "tp (held lk h) = tp h"
  by (simp add: held_def Let_def)

lemma held_cpuid [simp]: "cpuid (held lk h) = cpuid h"
  by (simp add: cpuid_def)

lemma held_noff [simp]: "noff (mycpu (held lk h)) = Suc (noff (mycpu h))"
  by (simp add: held_def push_off_def Let_def hw_defs)

lemma held_intr_off [simp]: "\<not> intr_get (held lk h)"
  by (simp add: held_def push_off_def Let_def hw_defs)

lemma held_intr_ok [simp]: "intr_ok (held lk h)"
  by (simp add: intr_ok_def)

lemma holding_held [simp]: "holding lk (held lk h)"
  by (simp add: holding_def held_def Let_def hw_defs)

lemma holding_held_other [simp]: "lk \<noteq> lk' \<Longrightarrow> holding lk (held lk' h) = holding lk h"
  by (simp add: holding_def held_def Let_def cpuid_def)

lemma lk_free_held [simp]: "lk_free lk' (held lk h) \<longleftrightarrow> lk' \<noteq> lk \<and> lk_free lk' h"
  by (auto simp: lk_free_def held_def Let_def)

lemma lock_cycle_held [simp]: "lock_cycle (held lk h) = held lk h"
  by (simp add: lock_cycle_def)

lemma held_lock_cycle [simp]: "held lk (lock_cycle h) = held lk h"
  by (simp add: held_def lock_cycle_def push_off_def Let_def hw_defs)

lemma lk_free_not_holding [simp]: "lk_free lk h \<Longrightarrow> \<not> holding lk h"
  by (simp add: lk_free_def holding_def)

lemma hw_acquire_free: "lk_free lk h \<Longrightarrow> hw_acquire lk h = Ok () (held lk h)"
  by (simp add: hw_acquire_def held_def lk_free_def holding_def Let_def)

lemma hw_acquire_mine: "holding lk h \<Longrightarrow> hw_acquire lk h = Panic ''acquire''"
  by (simp add: hw_acquire_def holding_def Let_def)

lemma hw_acquire_busy:
  "locked (locks h lk) \<Longrightarrow> lk_cpu (locks h lk) \<noteq> Some (cpuid h) \<Longrightarrow> hw_acquire lk h = Spin"
  by (simp add: hw_acquire_def holding_def Let_def)

lemma hw_release_not_held: "\<not> holding lk h \<Longrightarrow> hw_release lk h = Panic ''release''"
  by (simp add: hw_release_def)

lemma unlock_held:
  "lk_free lk h \<Longrightarrow>
    (held lk h)\<lparr>locks := (locks (held lk h))(lk := (locks (held lk h) lk)\<lparr>lk_cpu := None, locked := False\<rparr>)\<rparr> =
      (push_off h)\<lparr>locks := locks h\<rparr>"
  by (auto simp: held_def Let_def lk_free_def fun_eq_iff intro!: hw.equality)

lemma hw_release_held:
  assumes "lk_free lk h" and "intr_ok h"
  shows "hw_release lk (held lk h) = Ok () (lock_cycle h)"
proof -
  have "hw_release lk (held lk h) = pop_off ((push_off h)\<lparr>locks := locks h\<rparr>)"
    by (simp add: hw_release_def unlock_held [OF assms(1)])
  also have "\<dots> = Ok () ((lock_cycle h)\<lparr>locks := locks h\<rparr>)"
    by (rule pop_off_push_off [OF assms(2)])
  also have "(lock_cycle h)\<lparr>locks := locks h\<rparr> = lock_cycle h"
    by (simp add: lock_cycle_def hw_defs)
  finally show ?thesis .
qed

text \<open>Releasing the outer of two locks first, as \<open>sleep\<close> and \<open>exit\<close> do.\<close>

lemma hw_release_outer:
  assumes "lk_free lk h" and "lk_free lk' h" and "lk \<noteq> lk'"
  shows "hw_release lk (held lk' (held lk h)) = Ok () (held lk' h)"
proof -
  have "(locks h)(lk := (locks h lk)\<lparr>locked := False, lk_cpu := None\<rparr>) = locks h"
    using assms(1) by (auto simp: lk_free_def fun_eq_iff)
  then show ?thesis
    using assms
    by (auto simp: hw_release_def holding_def held_def Let_def push_off_def pop_off_def lk_free_def
        hw_defs fun_upd_twist fun_upd_idem intro!: hw.equality ext)
qed

lemma hw_myproc_ok:
  assumes "intr_ok h"
  shows "hw_myproc h = Ok (cpu_proc (mycpu h)) (lock_cycle h)"
proof -
  have "(push_off h)\<lparr>locks := locks h\<rparr> = push_off h" and "(lock_cycle h)\<lparr>locks := locks h\<rparr> = lock_cycle h"
    by (simp_all add: push_off_def lock_cycle_def Let_def hw_defs)
  then have "pop_off (push_off h) = Ok () (lock_cycle h)"
    using pop_off_push_off [OF assms, of "locks h"] by (simp only:)
  moreover have "cpu_proc (mycpu (push_off h)) = cpu_proc (mycpu h)"
    by (simp add: push_off_def Let_def hw_defs)
  ultimately show ?thesis by (simp add: hw_myproc_def Let_def)
qed

subsection \<open>Lifted to kernel states\<close>

lemma acquire_free [simp]:
  "lk_free lk (hw s) \<Longrightarrow> acquire lk s = Ok () (s\<lparr>hw := held lk (hw s)\<rparr>)"
  by (simp add: acquire_def on_hw_def hw_acquire_free)

lemma acquire_mine [simp]: "holding lk (hw s) \<Longrightarrow> acquire lk s = Panic ''acquire''"
  by (simp add: acquire_def on_hw_def hw_acquire_mine)

lemma release_held [simp]:
  "hw s = held lk h \<Longrightarrow> lk_free lk h \<Longrightarrow> intr_ok h \<Longrightarrow> release lk s = Ok () (s\<lparr>hw := lock_cycle h\<rparr>)"
  by (simp add: release_def on_hw_def hw_release_held)

lemma release_outer [simp]:
  "hw s = held lk' (held lk h) \<Longrightarrow> lk_free lk h \<Longrightarrow> lk_free lk' h \<Longrightarrow> lk \<noteq> lk' \<Longrightarrow>
    release lk s = Ok () (s\<lparr>hw := held lk' h\<rparr>)"
  by (simp add: release_def on_hw_def hw_release_outer)

lemma release_not_held [simp]: "\<not> holding lk (hw s) \<Longrightarrow> release lk s = Panic ''release''"
  by (simp add: release_def on_hw_def hw_release_not_held)

lemma myproc_ok [simp]:
  "intr_ok (hw s) \<Longrightarrow> myproc s = Ok (cpu_proc (mycpu (hw s))) (s\<lparr>hw := lock_cycle (hw s)\<rparr>)"
  by (simp add: myproc_def on_hw_def hw_myproc_ok)

lemma initlock_apply [simp]: "initlock lk name s = Ok () (s\<lparr>hw := hw_initlock lk name (hw s)\<rparr>)"
  by (simp add: initlock_def)

lemma hw_initlock_free [simp]: "lk_free lk (hw_initlock lk' name h) \<longleftrightarrow> lk = lk' \<or> lk_free lk h"
  by (auto simp: hw_initlock_def lk_free_def)

lemma hw_initlock_intr_ok [simp]: "intr_ok (hw_initlock lk name h) = intr_ok h"
  by (simp add: hw_initlock_def intr_ok_def hw_defs)

section \<open>Several harts\<close>

text \<open>
  Each hart has a set of locks it owns and a place in \<open>acquire\<close> or \<open>release\<close>. The two calls are
  split where another hart can run in between: the \<open>holding\<close> check, the atomic swap of
  \<open>locked\<close>, the store to \<open>lk->cpu\<close>, and in \<open>release\<close> the store of 0 to \<open>lk->cpu\<close> and the atomic
  store to \<open>locked\<close>.
\<close>

datatype place = Running | Spinning lockid | Won lockid | Unmarked lockid

record harts =
  ltab :: "lockid \<Rightarrow> spinlock"
  owns :: "nat \<Rightarrow> lockid set"
  at :: "nat \<Rightarrow> place"

inductive lock_step :: "harts \<Rightarrow> harts \<Rightarrow> bool" where
  acquire_check:
    "at s h = Running \<Longrightarrow> \<not> (locked (ltab s lk) \<and> lk_cpu (ltab s lk) = Some h) \<Longrightarrow>
      lock_step s (s\<lparr>at := (at s)(h := Spinning lk)\<rparr>)"
| swap_lost:
    "at s h = Spinning lk \<Longrightarrow> locked (ltab s lk) \<Longrightarrow> lock_step s s"
| swap_won:
    "at s h = Spinning lk \<Longrightarrow> \<not> locked (ltab s lk) \<Longrightarrow>
      lock_step s (s\<lparr>ltab := (ltab s)(lk := (ltab s lk)\<lparr>locked := True\<rparr>), at := (at s)(h := Won lk)\<rparr>)"
| mark:
    "at s h = Won lk \<Longrightarrow>
      lock_step s (s\<lparr>ltab := (ltab s)(lk := (ltab s lk)\<lparr>lk_cpu := Some h\<rparr>),
                    owns := (owns s)(h := insert lk (owns s h)), at := (at s)(h := Running)\<rparr>)"
| unmark:
    "at s h = Running \<Longrightarrow> locked (ltab s lk) \<Longrightarrow> lk_cpu (ltab s lk) = Some h \<Longrightarrow>
      lock_step s (s\<lparr>ltab := (ltab s)(lk := (ltab s lk)\<lparr>lk_cpu := None\<rparr>),
                    owns := (owns s)(h := owns s h - {lk}), at := (at s)(h := Unmarked lk)\<rparr>)"
| clear:
    "at s h = Unmarked lk \<Longrightarrow>
      lock_step s (s\<lparr>ltab := (ltab s)(lk := (ltab s lk)\<lparr>locked := False\<rparr>), at := (at s)(h := Running)\<rparr>)"

definition harts_init :: "(lockid \<Rightarrow> string) \<Rightarrow> harts" where
  "harts_init names =
     \<lparr>ltab = (\<lambda>lk. \<lparr>locked = False, lk_name = names lk, lk_cpu = None\<rparr>), owns = (\<lambda>_. {}), at = (\<lambda>_. Running)\<rparr>"

inductive lock_reach :: "harts \<Rightarrow> bool" where
  boot: "lock_reach (harts_init names)"
| run: "lock_reach s \<Longrightarrow> lock_step s t \<Longrightarrow> lock_reach t"

text \<open>
  A hart is \<open>inside\<close> a lock from the swap it won to the store that clears the lock word.
\<close>

definition inside :: "harts \<Rightarrow> lockid \<Rightarrow> nat \<Rightarrow> bool" where
  "inside s lk h \<longleftrightarrow> lk \<in> owns s h \<or> at s h = Won lk \<or> at s h = Unmarked lk"

definition lock_inv :: "harts \<Rightarrow> bool" where
  "lock_inv s \<longleftrightarrow>
     (\<forall>lk h. inside s lk h \<longrightarrow> locked (ltab s lk)) \<and>
     (\<forall>lk h h'. inside s lk h \<longrightarrow> inside s lk h' \<longrightarrow> h = h') \<and>
     (\<forall>lk h. lk_cpu (ltab s lk) = Some h \<longleftrightarrow> lk \<in> owns s h) \<and>
     (\<forall>lk h. lk \<in> owns s h \<longrightarrow> at s h \<noteq> Won lk \<and> at s h \<noteq> Unmarked lk)"

lemma lock_inv_init: "lock_inv (harts_init names)"
  by (simp add: lock_inv_def harts_init_def inside_def)

lemma lock_step_inv: "lock_step s t \<Longrightarrow> lock_inv s \<Longrightarrow> lock_inv t"
proof (induction rule: lock_step.induct)
  case (acquire_check s h lk)
  then show ?case by (auto simp: lock_inv_def inside_def split: if_splits)
next
  case (swap_lost s h lk)
  then show ?case by simp
next
  case (swap_won s h lk)
  then have "\<And>h'. \<not> inside s lk h'" by (auto simp: lock_inv_def)
  with swap_won show ?case by (auto simp: lock_inv_def inside_def split: if_splits)
next
  case (mark s h lk)
  then have "inside s lk h" by (simp add: inside_def)
  with mark have "\<And>h'. inside s lk h' \<Longrightarrow> h' = h" by (auto simp: lock_inv_def)
  with mark show ?case by (auto simp: lock_inv_def inside_def split: if_splits)
next
  case (unmark s h lk)
  then have "inside s lk h" by (simp add: inside_def lock_inv_def)
  with unmark have "\<And>h'. inside s lk h' \<Longrightarrow> h' = h" by (auto simp: lock_inv_def)
  with unmark show ?case by (auto simp: lock_inv_def inside_def split: if_splits)
next
  case (clear s h lk)
  then have "inside s lk h" by (simp add: inside_def)
  with clear have "\<And>h'. inside s lk h' \<Longrightarrow> h' = h" by (auto simp: lock_inv_def)
  with clear show ?case by (auto simp: lock_inv_def inside_def split: if_splits)
qed

lemma lock_reach_inv: "lock_reach s \<Longrightarrow> lock_inv s"
  by (induction rule: lock_reach.induct) (auto intro: lock_inv_init lock_step_inv)

text \<open>C7: at any moment, however the harts interleave, at most one of them is between winning the swap
  of a lock and clearing it, and \<open>lk->cpu\<close> names the owner exactly while it owns the lock (so the test
  in \<open>holding\<close> never mistakes another hart's lock for this hart's).\<close>

theorem spinlock_mutual_exclusion:
  assumes "lock_reach s" and "inside s lk h"
  shows "{h'. inside s lk h'} = {h} \<and> locked (ltab s lk) \<and>
    {h'. locked (ltab s lk) \<and> lk_cpu (ltab s lk) = Some h'} = {h'. lk \<in> owns s h'}"
proof -
  from lock_reach_inv [OF assms(1)] have inv: "lock_inv s" .
  with assms(2) have "{h'. inside s lk h'} = {h}" and "locked (ltab s lk)"
    by (auto simp: lock_inv_def)
  with inv show ?thesis by (auto simp: lock_inv_def)
qed

lemma harts_one_acquired:
  "lock_reach (\<lparr>ltab = (\<lambda>lk. \<lparr>locked = False, lk_name = [], lk_cpu = None\<rparr>)(Lk_kmem := \<lparr>locked = True, lk_name = [], lk_cpu = Some 1\<rparr>),
     owns = (\<lambda>_. {})(1 := {Lk_kmem}), at = (\<lambda>_. Running)\<rparr>)" (is "lock_reach ?t")
proof -
  let ?i = "harts_init (\<lambda>_. [])"
  let ?a = "?i\<lparr>at := (at ?i)(1 := Spinning Lk_kmem)\<rparr>"
  let ?b = "?a\<lparr>ltab := (ltab ?a)(Lk_kmem := (ltab ?a Lk_kmem)\<lparr>locked := True\<rparr>), at := (at ?a)(1 := Won Lk_kmem)\<rparr>"
  let ?c = "?b\<lparr>ltab := (ltab ?b)(Lk_kmem := (ltab ?b Lk_kmem)\<lparr>lk_cpu := Some 1\<rparr>),
                    owns := (owns ?b)(1 := insert Lk_kmem (owns ?b 1)), at := (at ?b)(1 := Running)\<rparr>"
  have ab: "lock_step ?i ?a" by (rule acquire_check) (simp_all add: harts_init_def)
  have bc: "lock_step ?a ?b" by (rule swap_won) (simp_all add: harts_init_def)
  have "lock_step ?b ?c" by (rule mark) (simp_all add: harts_init_def)
  then have "lock_reach ?c" by (rule run [OF run [OF run [OF boot ab] bc]])
  moreover have "?c = ?t" by (simp add: harts_init_def fun_eq_iff)
  ultimately show ?thesis by (simp only:)
qed

theorem spinlock_mutual_exclusion_witness:
  "{h'. inside (\<lparr>ltab = (\<lambda>lk. \<lparr>locked = False, lk_name = [], lk_cpu = None\<rparr>)(Lk_kmem := \<lparr>locked = True, lk_name = [], lk_cpu = Some 1\<rparr>),
     owns = (\<lambda>_. {})(1 := {Lk_kmem}), at = (\<lambda>_. Running)\<rparr>) Lk_kmem h'} = {1}"
proof (rule spinlock_mutual_exclusion [OF harts_one_acquired, THEN conjunct1])
  show "inside (\<lparr>ltab = (\<lambda>lk. \<lparr>locked = False, lk_name = [], lk_cpu = None\<rparr>)(Lk_kmem := \<lparr>locked = True, lk_name = [], lk_cpu = Some 1\<rparr>),
     owns = (\<lambda>_. {})(1 := {Lk_kmem}), at = (\<lambda>_. Running)\<rparr>) Lk_kmem 1"
    by (simp add: inside_def)
qed

text \<open>C35: taking a free lock and releasing it succeeds and leaves the machine as it was: the lock is free
  again, the nesting depth and the interrupt-enable bit are those at entry, and only \<open>intena\<close> of the
  running CPU may have been rewritten (to the interrupt state at entry, when the depth was 0). A second
  \<open>acquire\<close> by the same CPU panics.\<close>

theorem acquire_release_balanced:
  assumes "lk_free lk (hw s)" and "intr_ok (hw s)"
  shows "andthen (acquire lk) (release lk) s = Ok () (s\<lparr>hw := lock_cycle (hw s)\<rparr>) \<and>
    andthen (acquire lk) (acquire lk) s = Panic ''acquire'' \<and>
    csr (lock_cycle (hw s)) = csr (hw s) \<and> noff (mycpu (lock_cycle (hw s))) = noff (mycpu (hw s)) \<and>
    lk_free lk (lock_cycle (hw s))"
  using assms by simp

definition csr0 :: csrs where
  "csr0 = \<lparr>sstatus = 2, sip = 0, sepc = 0, scause = 0, stval = 0, stvec = 0, satp = 0\<rparr>"

definition hw0 :: hw where
  "hw0 = \<lparr>tp = 0, csr = csr0, cpus = (\<lambda>_. \<lparr>cpu_proc = None, noff = 0, intena = False\<rparr>),
          locks = (\<lambda>_. \<lparr>locked = False, lk_name = [], lk_cpu = None\<rparr>)\<rparr>"

lemma hw0_free [simp]: "lk_free lk hw0"
  by (simp add: lk_free_def hw0_def)

lemma hw0_intr_ok [simp]: "intr_ok hw0"
  by (simp add: intr_ok_def hw0_def hw_defs)

theorem acquire_release_balanced_witness:
  "andthen (acquire Lk_log) (release Lk_log) \<lparr>hw = hw0\<rparr> = Ok () \<lparr>hw = lock_cycle hw0\<rparr>"
  using acquire_release_balanced [of Lk_log "\<lparr>hw = hw0\<rparr>"] by simp

text \<open>C34: the sequential \<open>acquire\<close> is a run of the interleaved model: whenever it returns, the hart
  reaches the same lock table through the check, the won swap and the mark, and then owns the lock.\<close>

theorem acquire_is_lock_steps:
  assumes "hw_acquire lk h = Ok () h'" and "ltab s = locks h" and "at s (cpuid h) = Running"
  shows "\<exists>t. lock_step\<^sup>*\<^sup>* s t \<and> ltab t = locks h' \<and> at t = at s \<and>
    owns t = (owns s)(cpuid h := insert lk (owns s (cpuid h)))"
proof -
  let ?h = "cpuid h"
  let ?a = "s\<lparr>at := (at s)(?h := Spinning lk)\<rparr>"
  let ?b = "?a\<lparr>ltab := (ltab ?a)(lk := (ltab ?a lk)\<lparr>locked := True\<rparr>), at := (at ?a)(?h := Won lk)\<rparr>"
  let ?c = "?b\<lparr>ltab := (ltab ?b)(lk := (ltab ?b lk)\<lparr>lk_cpu := Some ?h\<rparr>),
                    owns := (owns ?b)(?h := insert lk (owns ?b ?h)), at := (at ?b)(?h := Running)\<rparr>"
  from assms(1) have free: "\<not> locked (locks h lk)"
    and h': "locks h' = (locks h)(lk := (locks h lk)\<lparr>locked := True, lk_cpu := Some ?h\<rparr>)"
    by (auto simp: hw_acquire_def holding_def Let_def split: if_splits)
  have "lock_step s ?a" by (rule acquire_check) (simp_all add: assms free)
  moreover have "lock_step ?a ?b" by (rule swap_won) (simp_all add: assms free)
  moreover have "lock_step ?b ?c" by (rule mark) simp
  ultimately have "lock_step\<^sup>*\<^sup>* s ?c" by (meson r_into_rtranclp rtranclp_trans)
  moreover have "ltab ?c = locks h'" by (simp add: h' assms(2))
  moreover have "at ?c = at s" by (auto simp: fun_eq_iff assms(3))
  ultimately show ?thesis by (intro exI [of _ ?c]) simp
qed

theorem acquire_is_lock_steps_witness:
  "\<exists>t. lock_step\<^sup>*\<^sup>* (harts_init (\<lambda>_. [])) t \<and> ltab t = locks (held Lk_kmem hw0) \<and>
     at t = at (harts_init (\<lambda>_. [])) \<and>
     owns t = (owns (harts_init (\<lambda>_. [])))(0 := insert Lk_kmem (owns (harts_init (\<lambda>_. [])) 0))"
proof -
  have c: "cpuid hw0 = 0" by (simp add: hw0_def cpuid_def)
  have l: "ltab (harts_init (\<lambda>_. [])) = locks hw0" by (simp add: harts_init_def hw0_def)
  have r: "at (harts_init (\<lambda>_. [])) (cpuid hw0) = Running" by (simp add: harts_init_def)
  show ?thesis using acquire_is_lock_steps [OF hw_acquire_free [OF hw0_free] l r] by (simp only: c)
qed

end
