(* ===== verification/Kstring.thy ===== *)
theory Kstring
  imports Xv6_Prelude
begin

text \<open>
  \<open>kernel/string.c\<close>. The block operations \<open>memset\<close>, \<open>memcmp\<close> and \<open>memmove\<close> work on the byte store
  by 64-bit addresses, since overlap matters for \<open>memmove\<close>. The string operations take a \<open>char *\<close> as
  the bytes it points to, a function from the index to the byte (\<open>cptr\<close>); an operation that writes
  through its pointer returns the new bytes.

  Each loop is a recursion with the loop's own test and step. \<open>strlen\<close> has no bound in the code, so it
  is a partial function, and its theorem says that it returns on every terminated string.
\<close>

section \<open>Block operations\<close>

function memset_loop :: "store \<Rightarrow> u64 \<Rightarrow> byte \<Rightarrow> nat \<Rightarrow> nat \<Rightarrow> store" where
  "memset_loop m dst c i n = (if i < n then memset_loop (m(dst + of_nat i := c)) dst c (i + 1) n else m)"
  by pat_completeness auto
termination
  by (relation "measure (\<lambda>(m, dst, c, i, n). n - i)") auto

declare memset_loop.simps [simp del]

definition memset :: "store \<Rightarrow> u64 \<Rightarrow> byte \<Rightarrow> nat \<Rightarrow> store" where
  "memset m dst c n = memset_loop m dst c 0 n"

fun memcmp :: "store \<Rightarrow> u64 \<Rightarrow> u64 \<Rightarrow> nat \<Rightarrow> int" where
  "memcmp m s1 s2 0 = 0"
| "memcmp m s1 s2 (Suc n) =
     (if m s1 \<noteq> m s2 then uint (m s1) - uint (m s2) else memcmp m (s1 + 1) (s2 + 1) n)"

fun copy_fwd :: "store \<Rightarrow> u64 \<Rightarrow> u64 \<Rightarrow> nat \<Rightarrow> store" where
  "copy_fwd m d s 0 = m"
| "copy_fwd m d s (Suc n) = copy_fwd (m(d := m s)) (d + 1) (s + 1) n"

fun copy_bwd :: "store \<Rightarrow> u64 \<Rightarrow> u64 \<Rightarrow> nat \<Rightarrow> store" where
  "copy_bwd m d s 0 = m"
| "copy_bwd m d s (Suc n) = copy_bwd (m(d - 1 := m (s - 1))) (d - 1) (s - 1) n"

definition memmove :: "store \<Rightarrow> u64 \<Rightarrow> u64 \<Rightarrow> nat \<Rightarrow> store" where
  "memmove m dst src n =
     (if src < dst \<and> src + of_nat n > dst
      then copy_bwd m (dst + of_nat n) (src + of_nat n) n
      else copy_fwd m dst src n)"

section \<open>String operations\<close>

type_synonym cptr = "nat \<Rightarrow> byte"

fun strncmp :: "cptr \<Rightarrow> cptr \<Rightarrow> nat \<Rightarrow> int" where
  "strncmp p q 0 = 0"
| "strncmp p q (Suc n) =
     (if p 0 \<noteq> 0 \<and> p 0 = q 0 then strncmp (\<lambda>i. p (Suc i)) (\<lambda>i. q (Suc i)) n
      else uint (p 0) - uint (q 0))"

fun strncpy_pad :: "cptr \<Rightarrow> nat \<Rightarrow> nat \<Rightarrow> cptr" where
  "strncpy_pad s i 0 = s"
| "strncpy_pad s i (Suc n) = strncpy_pad (s(i := 0)) (Suc i) n"

fun strncpy_copy :: "cptr \<Rightarrow> cptr \<Rightarrow> nat \<Rightarrow> nat \<Rightarrow> cptr" where
  "strncpy_copy s t i 0 = s"
| "strncpy_copy s t i (Suc n) =
     (if t i \<noteq> 0 then strncpy_copy (s(i := t i)) t (Suc i) n
      else strncpy_pad (s(i := t i)) (Suc i) n)"

definition strncpy :: "cptr \<Rightarrow> cptr \<Rightarrow> nat \<Rightarrow> cptr" where
  "strncpy s t n = strncpy_copy s t 0 n"

fun safestrcpy_loop :: "cptr \<Rightarrow> cptr \<Rightarrow> nat \<Rightarrow> nat \<Rightarrow> cptr" where
  "safestrcpy_loop s t i 0 = s(i := 0)"
| "safestrcpy_loop s t i (Suc n) =
     (if t i \<noteq> 0 then safestrcpy_loop (s(i := t i)) t (Suc i) n
      else s(i := t i, Suc i := 0))"

definition safestrcpy :: "cptr \<Rightarrow> cptr \<Rightarrow> nat \<Rightarrow> cptr" where
  "safestrcpy s t n = (if n = 0 then s else safestrcpy_loop s t 0 (n - 1))"

partial_function (option) strlen_from :: "cptr \<Rightarrow> nat \<Rightarrow> nat option" where
  "strlen_from s n = (if s n = 0 then Some n else strlen_from s (Suc n))"

definition strlen :: "cptr \<Rightarrow> nat option" where
  "strlen s = strlen_from s 0"

section \<open>What the block operations compute\<close>

text \<open>Offsets from a base address: the address is base plus offset exactly for its own offset.\<close>

lemma u64_base_offset: "(x :: u64) = a + of_nat i \<longleftrightarrow> unat (x - a) = i" if "i < 2 ^ 64"
proof
  assume "x = a + of_nat i"
  then show "unat (x - a) = i" using that by (simp add: unat_of_nat)
next
  assume "unat (x - a) = i"
  then show "x = a + of_nat i" by auto
qed

lemma memset_loop_apply:
  "n \<le> 2 ^ 64 \<Longrightarrow> memset_loop m dst c i n x = (if i \<le> unat (x - dst) \<and> unat (x - dst) < n then c else m x)"
proof (induction m dst c i n rule: memset_loop.induct)
  case (1 m dst c i n)
  show ?case
  proof (cases "i < n")
    case True
    then have i: "i < 2 ^ 64" using "1.prems" by simp
    have "memset_loop m dst c i n x = memset_loop (m(dst + of_nat i := c)) dst c (i + 1) n x"
      using True by (simp add: memset_loop.simps [of m dst c i n])
    also have "\<dots> = (if i + 1 \<le> unat (x - dst) \<and> unat (x - dst) < n then c else (m(dst + of_nat i := c)) x)"
      using True "1.prems" by (intro "1.IH")
    finally show ?thesis
      using True u64_base_offset [OF i, of x dst] by (auto simp: le_Suc_eq)
  next
    case False
    then show ?thesis by (auto simp: memset_loop.simps [of m dst c i n])
  qed
qed

lemma memset_apply:
  "n \<le> 2 ^ 64 \<Longrightarrow> memset m dst c n x = (if unat (x - dst) < n then c else m x)"
  by (simp add: memset_def memset_loop_apply)

lemma uint_diff_zero_iff: "uint (a :: 'a::len word) - uint b = 0 \<longleftrightarrow> a = b"
  by (simp add: word_uint_eq_iff)

lemma memcmp_zero_iff:
  "memcmp m s1 s2 n = 0 \<longleftrightarrow> (\<forall>i<n. m (s1 + of_nat i) = m (s2 + of_nat i))"
proof (induction n arbitrary: s1 s2)
  case 0
  then show ?case by simp
next
  case (Suc n)
  have split: "(\<forall>i<Suc n. P i) \<longleftrightarrow> P 0 \<and> (\<forall>i<n. P (Suc i))" for P
    by (metis less_Suc_eq_0_disj)
  show ?case
    by (simp add: Suc.IH split add.assoc uint_diff_zero_iff del: right_minus_eq)
qed

text \<open>
  The bytes \<open>[dst, dst + n)\<close> after a copy of \<open>n\<close> bytes from \<open>src\<close>: the source bytes of the store
  before the copy.
\<close>

definition block_copy :: "store \<Rightarrow> u64 \<Rightarrow> u64 \<Rightarrow> nat \<Rightarrow> store" where
  "block_copy m dst src n = (\<lambda>x. if unat (x - dst) < n then m (src + (x - dst)) else m x)"

lemma unat_plus1: "unat (x :: u64) + Suc n < 2 ^ 64 \<Longrightarrow> unat (x + 1) = unat x + 1"
  by (simp add: unat_word_ariths)

lemma block_copy_step_fwd:
  assumes "n < 2 ^ 64" and "\<And>i. i < n \<Longrightarrow> s + of_nat (Suc i) \<noteq> d"
  shows "block_copy (m(d := m s)) (d + 1) (s + 1) n = block_copy m d s (Suc n)"
proof
  fix x
  define i where "i = unat (x - d)"
  have x: "x = d + of_nat i" by (simp add: i_def)
  show "block_copy (m(d := m s)) (d + 1) (s + 1) n x = block_copy m d s (Suc n) x"
  proof (cases i)
    case 0
    then have "x = d" using x by simp
    moreover have "unat (- 1 :: u64) = 2 ^ 64 - 1" by (simp add: unsigned_minus_1_eq_mask mask_eq_exp_minus_1)
    ultimately show ?thesis using assms(1) by (simp add: block_copy_def)
  next
    case (Suc j)
    have "i < 2 ^ 64" using unat_less_2p64 by (simp add: i_def)
    with Suc have uj: "unat (of_nat j :: u64) = j" by (simp add: unat_of_nat)
    have e1: "x - (d + 1) = of_nat j" and e2: "x - d = of_nat i" using x Suc by simp_all
    have "x \<noteq> d" using Suc by (auto simp: i_def)
    have ui: "unat (1 + of_nat j :: u64) = Suc j"
      using \<open>i < 2 ^ 64\<close> Suc uj by (simp add: unat_word_ariths)
    show ?thesis
      using assms(2) [of j] \<open>x \<noteq> d\<close> uj Suc ui
      by (auto simp: block_copy_def e1 e2 add.assoc)
  qed
qed

lemma copy_fwd_block:
  assumes "n \<le> 2 ^ 64 - 1" and "\<And>i j. i < j \<Longrightarrow> j < n \<Longrightarrow> s + of_nat j \<noteq> d + of_nat i"
  shows "copy_fwd m d s n = block_copy m d s n"
  using assms
proof (induction n arbitrary: m d s)
  case 0
  then show ?case by (simp add: block_copy_def)
next
  case (Suc n)
  have "copy_fwd m d s (Suc n) = block_copy (m(d := m s)) (d + 1) (s + 1) n"
  proof (simp, rule Suc.IH)
    show "n \<le> 2 ^ 64 - 1" using Suc.prems(1) by simp
  next
    fix i j assume "i < j" and "j < n"
    then show "s + 1 + of_nat j \<noteq> d + 1 + of_nat i"
      using Suc.prems(2) [of "Suc i" "Suc j"] by (simp add: add.assoc)
  qed
  also have "\<dots> = block_copy m d s (Suc n)"
  proof (rule block_copy_step_fwd)
    show "n < 2 ^ 64" using Suc.prems(1) by simp
  next
    fix i assume "i < n"
    then show "s + of_nat (Suc i) \<noteq> d" using Suc.prems(2) [of 0 "Suc i"] by simp
  qed
  finally show ?case .
qed

lemma block_copy_step_bwd:
  assumes "n < 2 ^ 64 - 1" and "\<And>i. i < n \<Longrightarrow> s + of_nat i \<noteq> d + of_nat n"
  shows "block_copy (m(d + of_nat n := m (s + of_nat n))) d s n = block_copy m d s (Suc n)"
proof
  fix x
  have n: "unat (of_nat n :: u64) = n" using assms(1) by (simp add: unat_of_nat)
  define i where "i = unat (x - d)"
  have x: "x - d = of_nat i" by (simp add: i_def)
  have ui: "unat (of_nat i :: u64) = i" by (simp add: i_def)
  have last: "x = d + of_nat n \<longleftrightarrow> i = n"
    using u64_base_offset [of n x d] assms(1) by (simp add: i_def)
  show "block_copy (m(d + of_nat n := m (s + of_nat n))) d s n x = block_copy m d s (Suc n) x"
    using assms(2) [of i] last
    by (auto simp: block_copy_def x n ui less_Suc_eq)
qed

lemma copy_bwd_block:
  assumes "n \<le> 2 ^ 64 - 1" and "\<And>i j. i < j \<Longrightarrow> j < n \<Longrightarrow> s + of_nat i \<noteq> d + of_nat j"
  shows "copy_bwd m (d + of_nat n) (s + of_nat n) n = block_copy m d s n"
  using assms
proof (induction n arbitrary: m)
  case 0
  then show ?case by (simp add: block_copy_def)
next
  case (Suc n)
  let ?m = "m(d + of_nat n := m (s + of_nat n))"
  have "copy_bwd m (d + of_nat (Suc n)) (s + of_nat (Suc n)) (Suc n) = copy_bwd ?m (d + of_nat n) (s + of_nat n) n"
    by (simp add: add.commute [of 1])
  also have "\<dots> = block_copy ?m d s n"
    using Suc.prems by (intro Suc.IH) simp_all
  also have "\<dots> = block_copy m d s (Suc n)"
    using Suc.prems by (intro block_copy_step_bwd) simp_all
  finally show ?case .
qed

lemma nonwrapping_offsets:
  assumes "unat (a :: u64) + n < 2 ^ 64" and "i \<le> n"
  shows "unat (a + of_nat i) = unat a + i"
  using assms by (simp add: unat_word_ariths unat_of_nat)

lemma memmove_block:
  assumes src: "unat src + n < 2 ^ 64" and dst: "unat dst + n < 2 ^ 64"
  shows "memmove m dst src n = block_copy m dst src n"
proof (cases "src < dst \<and> src + of_nat n > dst")
  case True
  then have lt: "unat src < unat dst" by (simp add: word_less_nat_alt)
  have "copy_bwd m (dst + of_nat n) (src + of_nat n) n = block_copy m dst src n"
  proof (rule copy_bwd_block)
    show "n \<le> 2 ^ 64 - 1" using src by simp
  next
    fix i j assume "i < j" and "j < n"
    then have "unat (src + of_nat i) \<noteq> unat (dst + of_nat j)"
      using nonwrapping_offsets [OF src, of i] nonwrapping_offsets [OF dst, of j] lt by simp
    then show "src + of_nat i \<noteq> dst + of_nat j" by metis
  qed
  with True show ?thesis by (simp add: memmove_def)
next
  case False
  have ord: "unat dst \<le> unat src \<or> unat src + n \<le> unat dst"
    using False nonwrapping_offsets [OF src, of n] by (auto simp: word_less_nat_alt)
  have "copy_fwd m dst src n = block_copy m dst src n"
  proof (rule copy_fwd_block)
    show "n \<le> 2 ^ 64 - 1" using src by simp
  next
    fix i j assume ij: "i < j" "j < n"
    then have "unat (src + of_nat j) \<noteq> unat (dst + of_nat i)"
      using nonwrapping_offsets [OF src, of j] nonwrapping_offsets [OF dst, of i] ord by auto
    then show "src + of_nat j \<noteq> dst + of_nat i" by metis
  qed
  with False show ?thesis by (auto simp: memmove_def)
qed

section \<open>What the string operations compute\<close>

text \<open>The C string in the first \<open>n\<close> bytes of a buffer: the bytes before the first NUL.\<close>

definition cstring :: "cptr \<Rightarrow> nat \<Rightarrow> byte list" where
  "cstring p n = takeWhile (\<lambda>c. c \<noteq> 0) (map p [0..<n])"

lemma cstring_0 [simp]: "cstring p 0 = []"
  by (simp add: cstring_def)

lemma map_upt_shift: "map p [0..<Suc n] = p 0 # map (\<lambda>i. p (Suc i)) [0..<n]"
  by (simp add: map_upt_Suc del: upt_Suc)

lemma cstring_Suc: "cstring p (Suc n) = (if p 0 = 0 then [] else p 0 # cstring (\<lambda>i. p (Suc i)) n)"
  unfolding cstring_def map_upt_shift by simp

lemma length_cstring: "length (cstring p n) \<le> n"
  unfolding cstring_def by (metis length_takeWhile_le length_map length_upt minus_nat.diff_0)

lemma strncmp_zero_iff: "strncmp p q n = 0 \<longleftrightarrow> cstring p n = cstring q n"
proof (induction n arbitrary: p q)
  case 0
  then show ?case by simp
next
  case (Suc n)
  have z: "uint (p 0) - uint (q 0) = 0 \<longleftrightarrow> p 0 = q 0" by (rule uint_diff_zero_iff)
  show ?case
    using Suc.IH z by (auto simp: cstring_Suc)
qed

lemma strncpy_pad_apply: "strncpy_pad s i n j = (if i \<le> j \<and> j < i + n then 0 else s j)"
proof (induction n arbitrary: s i)
  case 0
  then show ?case by auto
next
  case (Suc n)
  have "strncpy_pad s i (Suc n) j = (if Suc i \<le> j \<and> j < Suc i + n then 0 else (s(i := 0)) j)"
    by (simp only: strncpy_pad.simps Suc.IH)
  then show ?case by auto
qed

lemma strncpy_copy_apply:
  "strncpy_copy s t i n j =
     (if i \<le> j \<and> j < i + n then (if \<exists>k. i \<le> k \<and> k \<le> j \<and> t k = 0 then 0 else t j) else s j)"
proof (induction n arbitrary: s i)
  case 0
  then show ?case by auto
next
  case (Suc n)
  show ?case
  proof (cases "t i = 0")
    case True
    then show ?thesis by (auto simp: strncpy_pad_apply)
  next
    case False
    have ex: "(\<exists>k. i \<le> k \<and> k \<le> j \<and> t k = 0) \<longleftrightarrow> (\<exists>k. Suc i \<le> k \<and> k \<le> j \<and> t k = 0)"
      using False by (metis Suc_leD le_neq_implies_less Suc_leI)
    have "strncpy_copy s t i (Suc n) j = strncpy_copy (s(i := t i)) t (Suc i) n j"
      using False by (simp del: fun_upd_apply)
    also have "\<dots> = (if Suc i \<le> j \<and> j < Suc i + n
        then (if \<exists>k. Suc i \<le> k \<and> k \<le> j \<and> t k = 0 then 0 else t j) else (s(i := t i)) j)"
      by (rule Suc.IH)
    finally show ?thesis
      using False by (auto simp: ex not_less_eq_eq le_antisym)
  qed
qed

lemma strncpy_apply:
  "strncpy s t n j = (if j < n then (if \<exists>k\<le>j. t k = 0 then 0 else t j) else s j)"
  by (simp add: strncpy_def strncpy_copy_apply)

lemma cstring_cong:
  assumes "\<And>j. j < n \<Longrightarrow> p j = (if \<exists>k\<le>j. t k = 0 then 0 else t j)"
  shows "cstring p n = cstring t n"
  using assms
proof (induction n arbitrary: p t)
  case 0
  then show ?case by simp
next
  case (Suc n)
  have p0: "p 0 = t 0" using Suc.prems [of 0] by auto
  show ?case
  proof (cases "t 0 = 0")
    case True
    then show ?thesis using p0 by (simp add: cstring_Suc)
  next
    case False
    have "cstring (\<lambda>i. p (Suc i)) n = cstring (\<lambda>i. t (Suc i)) n"
    proof (rule Suc.IH)
      fix j assume "j < n"
      have "(\<exists>k\<le>Suc j. t k = 0) \<longleftrightarrow> (\<exists>k\<le>j. t (Suc k) = 0)"
        using False by (metis Suc_le_mono not0_implies_Suc)
      then show "p (Suc j) = (if \<exists>k\<le>j. t (Suc k) = 0 then 0 else t (Suc j))"
        using Suc.prems [of "Suc j"] \<open>j < n\<close> by simp
    qed
    then show ?thesis using p0 by (simp add: cstring_Suc)
  qed
qed

lemma safestrcpy_loop_before: "j < i \<Longrightarrow> safestrcpy_loop s t i n j = s j"
  by (induction n arbitrary: s i) (auto simp del: fun_upd_apply simp: fun_upd_other)

lemma safestrcpy_loop_beyond: "i + n < j \<Longrightarrow> safestrcpy_loop s t i n j = s j"
  by (induction n arbitrary: s i) (auto simp del: fun_upd_apply simp: fun_upd_other)

lemma safestrcpy_loop_terminated: "\<exists>j. i \<le> j \<and> j \<le> i + n \<and> safestrcpy_loop s t i n j = 0"
proof (induction n arbitrary: s i)
  case 0
  then show ?case by auto
next
  case (Suc n)
  show ?case
  proof (cases "t i = 0")
    case True
    then show ?thesis by auto
  next
    case False
    from Suc.IH [of "Suc i" "s(i := t i)"] obtain j
      where "Suc i \<le> j" "j \<le> Suc i + n" "safestrcpy_loop (s(i := t i)) t (Suc i) n j = 0" by blast
    with False show ?thesis by (intro exI [of _ j]) (simp del: fun_upd_apply)
  qed
qed

lemma safestrcpy_loop_cstring:
  "cstring (\<lambda>k. safestrcpy_loop s t i n (i + k)) (Suc n) = cstring (\<lambda>k. t (i + k)) n"
proof (induction n arbitrary: s i)
  case 0
  then show ?case by (simp add: cstring_Suc)
next
  case (Suc n)
  show ?case
  proof (cases "t i = 0")
    case True
    then show ?thesis by (simp add: cstring_Suc)
  next
    case False
    let ?s = "s(i := t i)"
    have first: "safestrcpy_loop ?s t (Suc i) n i = t i"
      using safestrcpy_loop_before [of i "Suc i" ?s t n] by simp
    have "cstring (\<lambda>k. safestrcpy_loop ?s t (Suc i) n (Suc i + k)) (Suc n) = cstring (\<lambda>k. t (Suc i + k)) n"
      by (rule Suc.IH)
    then show ?thesis
      using False first by (simp add: cstring_Suc [of _ "Suc n"] cstring_Suc [of _ n] del: fun_upd_apply)
  qed
qed

lemma strlen_from_terminated:
  assumes "\<forall>k<n. s (i + k) \<noteq> 0" and "s (i + n) = 0"
  shows "strlen_from s i = Some (i + n)"
  using assms
proof (induction n arbitrary: i)
  case 0
  then show ?case by (simp add: strlen_from.simps)
next
  case (Suc n)
  from Suc.prems(1) have "s i \<noteq> 0" by (metis add_0_right zero_less_Suc)
  moreover have "strlen_from s (Suc i) = Some (Suc i + n)"
  proof (rule Suc.IH)
    show "\<forall>k<n. s (Suc i + k) \<noteq> 0" using Suc.prems(1) by (metis Suc_less_eq add_Suc_shift)
    show "s (Suc i + n) = 0" using Suc.prems(2) by simp
  qed
  ultimately show ?case by (simp add: strlen_from.simps)
qed

section \<open>Properties\<close>

text \<open>C36: \<open>memmove\<close> is correct on overlapping regions: for any two regions that do not run past the top of
  the address space, afterwards the destination holds the bytes the source held before the call and
  every other byte is unchanged, whichever direction the copy loop took.\<close>

theorem memmove_correct:
  assumes "unat src + n < 2 ^ 64" and "unat dst + n < 2 ^ 64"
  shows "memmove m dst src n = (\<lambda>x. if unat (x - dst) < n then m (src + (x - dst)) else m x)"
  using memmove_block [OF assms] by (simp add: block_copy_def)

theorem memmove_correct_witness:
  "memmove (\<lambda>x. ucast x) 0x1003 0x1000 8 0x1007 = 4 \<and> memmove (\<lambda>x. ucast x) 0x1003 0x1000 8 0x100b = 0xb"
  using memmove_correct [of "0x1000" 8 "0x1003" "\<lambda>x. ucast x"] by simp

text \<open>C39: \<open>strncpy\<close> then \<open>strncmp\<close> round-trips: the copy compares equal to its source up to \<open>n\<close>, the rest of
  the field is zero-filled after the NUL, and nothing beyond the field is written; \<open>strncmp\<close> is zero
  exactly for equal strings.\<close>

theorem strncpy_strncmp_roundtrip:
  "strncmp (strncpy s t n) t n = 0 \<and>
   (strncmp p q n = 0 \<longleftrightarrow> cstring p n = cstring q n) \<and>
   (\<forall>j. strncpy s t n j = (if n \<le> j then s j else if \<exists>k\<le>j. t k = 0 then 0 else t j))"
  by (auto simp: strncmp_zero_iff strncpy_apply intro!: cstring_cong)

theorem strncpy_strncmp_roundtrip_witness:
  "strncmp (strncpy (\<lambda>_. 9) ((\<lambda>_. 0)(0 := 0x61)) 14) ((\<lambda>_. 0)(0 := 0x61)) 14 = 0"
  using strncpy_strncmp_roundtrip by blast

text \<open>C38: \<open>safestrcpy\<close> never writes outside its \<open>n\<close> bytes, always leaves a terminated string there, and that
  string is the source truncated to \<open>n - 1\<close> bytes; \<open>strlen\<close> of it returns.\<close>

theorem safestrcpy_bounded:
  assumes "0 < n"
  shows "cstring (safestrcpy s t n) n = cstring t (n - 1) \<and>
    (\<exists>j<n. safestrcpy s t n j = 0) \<and> (\<exists>l<n. strlen (safestrcpy s t n) = Some l) \<and>
    (\<forall>j\<ge>n. safestrcpy s t n j = s j)"
proof -
  obtain k where n: "n = Suc k" using assms by (cases n) auto
  have eq: "safestrcpy s t n = safestrcpy_loop s t 0 k" by (simp add: safestrcpy_def n)
  have "cstring (safestrcpy s t n) n = cstring t (n - 1)"
    unfolding eq using safestrcpy_loop_cstring [of s t 0 k] by (simp add: n)
  moreover have nul: "\<exists>j<n. safestrcpy s t n j = 0"
    unfolding eq using safestrcpy_loop_terminated [of 0 k s t] by (auto simp: n less_Suc_eq_le)
  moreover have "\<exists>l<n. strlen (safestrcpy s t n) = Some l"
  proof -
    define e where "e = (LEAST j. safestrcpy s t n j = 0)"
    from nul obtain j where j: "j < n" "safestrcpy s t n j = 0" by blast
    have z: "safestrcpy s t n e = 0" unfolding e_def by (rule LeastI [of "\<lambda>j. safestrcpy s t n j = 0", OF j(2)])
    have l: "e < n" unfolding e_def by (rule le_less_trans [OF Least_le [of "\<lambda>j. safestrcpy s t n j = 0", OF j(2)] j(1)])
    have "safestrcpy s t n (0 + i) \<noteq> 0" if "i < e" for i
      using not_less_Least [OF that [unfolded e_def]] by simp
    then have "strlen_from (safestrcpy s t n) 0 = Some (0 + e)"
      using z by (intro strlen_from_terminated) simp_all
    with l show ?thesis by (intro exI [of _ e]) (simp add: strlen_def)
  qed
  moreover have "\<forall>j\<ge>n. safestrcpy s t n j = s j"
    unfolding eq by (auto simp: n intro!: safestrcpy_loop_beyond)
  ultimately show ?thesis by blast
qed

theorem safestrcpy_bounded_witness:
  "cstring (safestrcpy (\<lambda>_. 7) ((\<lambda>_. 0x62)(3 := 0)) 16) 16 = cstring ((\<lambda>_. 0x62)(3 := 0)) 15"
  using safestrcpy_bounded [of 16 "\<lambda>_. 7" "(\<lambda>_. 0x62)(3 := 0)"] by simp

end
