(* ===== verification/Kalloc.thy ===== *)
theory Kalloc
  imports Spinlock Kstring
begin

text \<open>
  \<open>kernel/kalloc.c\<close>: the physical page allocator. The free list is the linked list the code keeps:
  \<open>kmem.freelist\<close> is the address of the first free page and the first eight bytes of each free page
  hold the address of the next one (\<open>struct run\<close>). \<open>kend\<close> is the linker's symbol \<open>end\<close>, the first
  address after the kernel.

  The abstract view is the list of free pages (\<open>kmem_pages\<close>). The locale \<open>page_allocator\<close> is the
  contract the page-table and process code relies on; it is interpreted on \<open>kalloc\<close> and \<open>kfree\<close>.
\<close>

section \<open>Code\<close>

record kmem_state = kstate +
  kend :: u64
  mem :: store
  freelist :: u64

definition kfree :: "u64 \<Rightarrow> (unit, 'x kmem_state_scheme) kop" where
  "kfree pa =
     bind (gets kend) (\<lambda>end.
     andthen (panic_if (pa mod PGSIZE \<noteq> 0 \<or> pa < end \<or> pa \<ge> PHYSTOP) ''kfree'') (
     andthen (modify (\<lambda>s. s\<lparr>mem := memset (mem s) pa 1 4096\<rparr>)) (
     andthen (acquire Lk_kmem) (
     andthen (modify (\<lambda>s. s\<lparr>mem := write64 (mem s) pa (freelist s)\<rparr>)) (
     andthen (modify (\<lambda>s. s\<lparr>freelist := pa\<rparr>)) (
     release Lk_kmem))))))"

definition kalloc :: "(u64, 'x kmem_state_scheme) kop" where
  "kalloc =
     andthen (acquire Lk_kmem) (
     bind (gets freelist) (\<lambda>r.
     andthen (if r \<noteq> 0 then modify (\<lambda>s. s\<lparr>freelist := read64 (mem s) r\<rparr>) else ret ()) (
     andthen (release Lk_kmem) (
     andthen (if r \<noteq> 0 then modify (\<lambda>s. s\<lparr>mem := memset (mem s) r 5 4096\<rparr>) else ret ()) (
     ret r)))))"

lemma kfree_Ok_below: "kfree pa s = Ok a t \<Longrightarrow> pa < PHYSTOP"
  by (auto simp: kfree_def bind_apply andthen_apply not_le split: if_splits)

function freerange_loop :: "u64 \<Rightarrow> u64 \<Rightarrow> (unit, 'x kmem_state_scheme) kop" where
  "freerange_loop p pa_end s =
     (if p + PGSIZE \<le> pa_end then andthen (kfree p) (freerange_loop (p + PGSIZE) pa_end) s else ret () s)"
  by pat_completeness auto
termination
proof (relation "measure (\<lambda>(p, e, s). 2 ^ 64 - unat p)", simp)
  fix p e :: u64 and s t :: "'a kmem_state_scheme" and a
  assume "kfree p s = Ok a t"
  then have "unat p < 2281701376" using kfree_Ok_below by (force simp: word_less_nat_alt)
  then show "((p + 4096, e, t), p, e, s) \<in> measure (\<lambda>(p, e, s). 2 ^ 64 - unat p)"
    by (simp add: unat_word_ariths)
qed

declare freerange_loop.simps [simp del]

definition freerange :: "u64 \<Rightarrow> u64 \<Rightarrow> (unit, 'x kmem_state_scheme) kop" where
  "freerange pa_start pa_end = freerange_loop (PGROUNDUP pa_start) pa_end"

definition kinit :: "(unit, 'x kmem_state_scheme) kop" where
  "kinit = andthen (initlock Lk_kmem ''kmem'') (bind (gets kend) (\<lambda>end. freerange end PHYSTOP))"

section \<open>Pages of the store\<close>

definition in_page :: "u64 \<Rightarrow> u64 \<Rightarrow> bool" where
  "in_page p x \<longleftrightarrow> unat (x - p) < 4096"

lemma in_page_disjoint:
  "aligned 4096 p \<Longrightarrow> aligned 4096 q \<Longrightarrow> p \<noteq> q \<Longrightarrow> in_page p x \<Longrightarrow> \<not> in_page q x"
  unfolding in_page_def by (rule aligned_blocks_disjoint [where n = 4096 and a = p]) simp_all

lemma memset_page_apply: "memset m p c 4096 x = (if in_page p x then c else m x)"
  by (simp add: memset_apply in_page_def)

lemma in_page_cell:
  assumes "aligned 4096 p" and "unat (a - p) + 8 \<le> 4096" and "x - a < (8 :: u64)"
  shows "in_page p x"
proof -
  define u v where "u = x - a" and "v = a - p"
  have u: "unat u < 8" and v: "unat v + 8 \<le> 4096"
    using assms(2,3) by (simp_all add: u_def v_def word_less_nat_alt)
  then have "unat (u + v) = unat u + unat v" by (simp add: unat_word_ariths)
  moreover have "x - p = u + v" by (simp add: u_def v_def)
  ultimately show ?thesis using u v by (simp add: in_page_def)
qed

lemma read64_same_page:
  assumes "aligned 4096 p" and "unat (a - p) + 8 \<le> 4096" and "\<And>x. in_page p x \<Longrightarrow> m x = m' x"
  shows "read64 m a = read64 m' a"
  using assms by (intro read64_cong) (blast intro: in_page_cell)

lemma read64_memset_page_other:
  assumes "aligned 4096 p" and "aligned 4096 q" and "p \<noteq> q" and "unat (a - p) + 8 \<le> 4096"
  shows "read64 (memset m q c 4096) a = read64 m a"
  using assms
  by (intro read64_same_page [of p]) (auto simp: memset_page_apply dest: in_page_disjoint)

lemma write64_in_page:
  assumes "aligned 4096 q" and "unat (b - q) + 8 \<le> 4096" and "\<not> in_page q x"
  shows "write64 m b v x = m x"
  using assms in_page_cell [of q b x] by (auto simp: write64_def)

lemma read64_write64_page_other:
  assumes "aligned 4096 p" and "aligned 4096 q" and "p \<noteq> q"
    and "unat (a - p) + 8 \<le> 4096" and "unat (b - q) + 8 \<le> 4096"
  shows "read64 (write64 m b v) a = read64 m a"
  using assms
  by (intro read64_same_page [of p]) (auto intro!: write64_in_page [of q] dest: in_page_disjoint)

section \<open>The abstract free list\<close>

text \<open>A page the allocator may hand out.\<close>

definition page_ok :: "u64 \<Rightarrow> u64 \<Rightarrow> bool" where
  "page_ok e p \<longleftrightarrow> aligned 4096 p \<and> p \<noteq> 0 \<and> e \<le> p \<and> p < PHYSTOP"

primrec chain :: "store \<Rightarrow> u64 \<Rightarrow> u64 list \<Rightarrow> bool" where
  "chain m x [] \<longleftrightarrow> x = 0"
| "chain m x (p # ps) \<longleftrightarrow> x = p \<and> p \<noteq> 0 \<and> chain m (read64 m p) ps"

definition kmem_pages :: "'x kmem_state_scheme \<Rightarrow> u64 list \<Rightarrow> bool" where
  "kmem_pages s ps \<longleftrightarrow> chain (mem s) (freelist s) ps \<and> distinct ps \<and> (\<forall>p\<in>set ps. page_ok (kend s) p) \<and>
     lk_free Lk_kmem (hw s) \<and> intr_ok (hw s)"

lemma chain_cong:
  "(\<And>p. p \<in> set ps \<Longrightarrow> read64 m p = read64 m' p) \<Longrightarrow> chain m x ps \<Longrightarrow> chain m' x ps"
  by (induction ps arbitrary: x) auto

lemma chain_unique: "chain m x ps \<Longrightarrow> chain m x qs \<Longrightarrow> ps = qs"
proof (induction ps arbitrary: x qs)
  case Nil
  then show ?case by (cases qs) auto
next
  case (Cons p ps)
  then show ?case by (cases qs) auto
qed

lemma aligned_mod_iff: "aligned 4096 p \<longleftrightarrow> p mod PGSIZE = 0"
proof -
  have "unat (p mod 4096) = unat p mod 4096" by (simp add: unat_mod)
  then show ?thesis unfolding aligned_def by (metis unat_0 unsigned_word_eqI)
qed

lemma page_ok_self_cell: "unat (p - p) + 8 \<le> 4096"
  by simp

lemma kalloc_empty:
  assumes "lk_free Lk_kmem (hw s)" and "intr_ok (hw s)" and "freelist s = 0"
  shows "kalloc s = Ok 0 (s\<lparr>hw := lock_cycle (hw s)\<rparr>)"
  using assms by (simp add: kalloc_def)

lemma kalloc_nonempty:
  assumes "lk_free Lk_kmem (hw s)" and "intr_ok (hw s)" and "freelist s \<noteq> 0"
  shows "kalloc s = Ok (freelist s)
    (s\<lparr>hw := lock_cycle (hw s), mem := memset (mem s) (freelist s) 5 4096,
       freelist := read64 (mem s) (freelist s)\<rparr>)"
  using assms by (simp add: kalloc_def)

lemma kfree_run:
  assumes "lk_free Lk_kmem (hw s)" and "intr_ok (hw s)" and "page_ok (kend s) p"
  shows "kfree p s = Ok ()
    (s\<lparr>hw := lock_cycle (hw s), mem := write64 (memset (mem s) p 1 4096) p (freelist s), freelist := p\<rparr>)"
  using assms by (auto simp: kfree_def page_ok_def aligned_mod_iff not_less not_le)

lemma kfree_bad:
  assumes "\<not> (aligned 4096 p \<and> kend s \<le> p \<and> p < PHYSTOP)"
  shows "kfree p s = Panic ''kfree''"
  using assms by (auto simp: kfree_def aligned_mod_iff not_less not_le)

section \<open>The allocator's contract\<close>

locale page_allocator =
  fixes alloc :: "('s \<Rightarrow> (u64, 's) res)"
    and free :: "u64 \<Rightarrow> 's \<Rightarrow> (unit, 's) res"
    and pages :: "'s \<Rightarrow> u64 list \<Rightarrow> bool"
    and usable :: "'s \<Rightarrow> u64 \<Rightarrow> bool"
  assumes alloc_first: "pages s (p # ps) \<Longrightarrow> \<exists>t. alloc s = Ok p t \<and> pages t ps \<and> usable t = usable s"
    and alloc_out: "pages s [] \<Longrightarrow> \<exists>t. alloc s = Ok 0 t \<and> pages t [] \<and> usable t = usable s"
    and free_adds: "pages s ps \<Longrightarrow> usable s p \<Longrightarrow> p \<notin> set ps \<Longrightarrow>
      \<exists>t. free p s = Ok () t \<and> pages t (p # ps) \<and> usable t = usable s"
    and pages_distinct: "pages s ps \<Longrightarrow> distinct ps"
    and pages_usable: "pages s ps \<Longrightarrow> p \<in> set ps \<Longrightarrow> usable s p"
    and usable_nonzero: "usable s p \<Longrightarrow> p \<noteq> 0"
begin

text \<open>Clients that allocate \<open>n\<close> times, and free a list of pages.\<close>

primrec allocs :: "nat \<Rightarrow> 's \<Rightarrow> (u64 list, 's) res" where
  "allocs 0 s = Ok [] s"
| "allocs (Suc n) s = bind alloc (\<lambda>p. bind (allocs n) (\<lambda>ps. ret (p # ps))) s"

primrec frees :: "u64 list \<Rightarrow> 's \<Rightarrow> (unit, 's) res" where
  "frees [] s = Ok () s"
| "frees (p # ps) s = andthen (free p) (frees ps) s"

lemma allocs_take:
  "pages s ps \<Longrightarrow> n \<le> length ps \<Longrightarrow>
    \<exists>t. allocs n s = Ok (take n ps) t \<and> pages t (drop n ps) \<and> usable t = usable s"
proof (induction n arbitrary: s ps)
  case 0
  then show ?case by simp
next
  case (Suc n)
  then obtain p qs where ps: "ps = p # qs" by (cases ps) auto
  with Suc.prems(1) obtain t where t: "alloc s = Ok p t" "pages t qs" "usable t = usable s"
    using alloc_first by blast
  moreover from Suc.IH [OF t(2)] Suc.prems(2) ps obtain u
    where "allocs n t = Ok (take n qs) u" "pages u (drop n qs)" "usable u = usable t" by auto
  ultimately show ?case by (auto simp: ps)
qed

lemma frees_push:
  "pages s ps \<Longrightarrow> distinct qs \<Longrightarrow> set qs \<inter> set ps = {} \<Longrightarrow> (\<And>q. q \<in> set qs \<Longrightarrow> usable s q) \<Longrightarrow>
    \<exists>t. frees qs s = Ok () t \<and> pages t (rev qs @ ps) \<and> usable t = usable s"
proof (induction qs arbitrary: s ps)
  case Nil
  then show ?case by simp
next
  case (Cons q qs)
  from Cons.prems obtain t where t: "free q s = Ok () t" "pages t (q # ps)" "usable t = usable s"
    using free_adds [of s ps q] by auto
  moreover from Cons.IH [OF t(2)] Cons.prems t(3) obtain u
    where "frees qs t = Ok () u" "pages u (rev qs @ q # ps)" "usable u = usable t" by auto
  ultimately show ?case by auto
qed

text \<open>
  No page is ever handed out twice, no allocation returns null while pages are left, and giving the
  pages back makes exactly them available again.
\<close>

lemma alloc_free_cycle:
  assumes "pages s ps" and "n \<le> length ps"
  shows "\<exists>t u qs. allocs n s = Ok qs t \<and> length qs = n \<and> distinct qs \<and> 0 \<notin> set qs \<and> pages t (drop n ps) \<and>
    set qs \<inter> set (drop n ps) = {} \<and> frees (rev qs) t = Ok () u \<and> pages u ps"
proof -
  from allocs_take [OF assms] obtain t
    where t: "allocs n s = Ok (take n ps) t" "pages t (drop n ps)" "usable t = usable s" by blast
  have d: "distinct (take n ps)" "set (take n ps) \<inter> set (drop n ps) = {}"
    using pages_distinct [OF assms(1)] by (auto simp: set_take_disj_set_drop_if_distinct)
  have us: "\<And>q. q \<in> set (take n ps) \<Longrightarrow> usable s q"
    using pages_usable [OF assms(1)] by (auto dest: in_set_takeD)
  from frees_push [OF t(2), of "rev (take n ps)"] d us t(3) obtain u
    where "frees (rev (take n ps)) t = Ok () u" "pages u (take n ps @ drop n ps)" by auto
  then show ?thesis
    using t d us usable_nonzero assms(2) by (intro exI [of _ t] exI [of _ u] exI [of _ "take n ps"]) auto
qed

end

lemma kmem_alloc_first:
  assumes "kmem_pages s (p # ps)"
  shows "kalloc s = Ok p (s\<lparr>hw := lock_cycle (hw s), mem := memset (mem s) p 5 4096, freelist := read64 (mem s) p\<rparr>) \<and>
    kmem_pages (s\<lparr>hw := lock_cycle (hw s), mem := memset (mem s) p 5 4096, freelist := read64 (mem s) p\<rparr>) ps"
proof -
  from assms have p: "freelist s = p" "p \<noteq> 0" "p \<notin> set ps" "page_ok (kend s) p"
    and ch: "chain (mem s) (read64 (mem s) p) ps"
    and ok: "\<forall>q\<in>set ps. page_ok (kend s) q"
    by (auto simp: kmem_pages_def)
  have "chain (memset (mem s) p 5 4096) (read64 (mem s) p) ps"
    using ch
  proof (rule chain_cong [rotated])
    fix q assume "q \<in> set ps"
    then show "read64 (mem s) q = read64 (memset (mem s) p 5 4096) q"
      using p ok by (intro read64_memset_page_other [symmetric, of q p]) (auto simp: page_ok_def)
  qed
  then show ?thesis
    using assms p by (simp add: kmem_pages_def kalloc_nonempty)
qed

lemma kmem_free_adds:
  assumes "kmem_pages s ps" and "page_ok (kend s) p" and "p \<notin> set ps"
  shows "kfree p s = Ok () (s\<lparr>hw := lock_cycle (hw s), mem := write64 (memset (mem s) p 1 4096) p (freelist s), freelist := p\<rparr>) \<and>
    kmem_pages (s\<lparr>hw := lock_cycle (hw s), mem := write64 (memset (mem s) p 1 4096) p (freelist s), freelist := p\<rparr>) (p # ps)"
proof -
  let ?m = "write64 (memset (mem s) p 1 4096) p (freelist s)"
  from assms(1) have ch: "chain (mem s) (freelist s) ps" and ok: "\<forall>q\<in>set ps. page_ok (kend s) q"
    by (auto simp: kmem_pages_def)
  have "chain ?m (freelist s) ps"
    using ch
  proof (rule chain_cong [rotated])
    fix q assume q: "q \<in> set ps"
    with ok assms have qp: "aligned 4096 q" "aligned 4096 p" "q \<noteq> p" by (auto simp: page_ok_def)
    then have "read64 ?m q = read64 (memset (mem s) p 1 4096) q"
      by (intro read64_write64_page_other [of q p]) simp_all
    also have "\<dots> = read64 (mem s) q"
      using qp by (intro read64_memset_page_other [of q p]) simp_all
    finally show "read64 (mem s) q = read64 ?m q" by simp
  qed
  then show ?thesis
    using assms by (auto simp: kmem_pages_def kfree_run page_ok_def)
qed

interpretation km: page_allocator kalloc kfree kmem_pages "\<lambda>s. page_ok (kend s)"
proof
  fix s :: "'a kmem_state_scheme" and p ps
  show "kmem_pages s (p # ps) \<Longrightarrow> \<exists>t. kalloc s = Ok p t \<and> kmem_pages t ps \<and> page_ok (kend t) = page_ok (kend s)"
    using kmem_alloc_first [of s p ps] by auto
  show "kmem_pages s [] \<Longrightarrow> \<exists>t. kalloc s = Ok 0 t \<and> kmem_pages t [] \<and> page_ok (kend t) = page_ok (kend s)"
    by (auto simp: kmem_pages_def kalloc_empty)
  show "kmem_pages s ps \<Longrightarrow> page_ok (kend s) p \<Longrightarrow> p \<notin> set ps \<Longrightarrow>
      \<exists>t. kfree p s = Ok () t \<and> kmem_pages t (p # ps) \<and> page_ok (kend t) = page_ok (kend s)"
    using kmem_free_adds [of s ps p] by auto
qed (auto simp: kmem_pages_def page_ok_def)

section \<open>Building the free list\<close>

lemma freerange_loop_pages:
  assumes "kmem_pages s ps" and "aligned 4096 p" and "p \<noteq> 0" and "kend s \<le> p"
    and "\<forall>q\<in>set ps. q < p" and "unat e = unat p + 4096 * n + r" and "r < 4096" and "e \<le> PHYSTOP"
  shows "\<exists>t. freerange_loop p e s = Ok () t \<and> kend t = kend s \<and>
    kmem_pages t (rev (map (\<lambda>i. p + of_nat (4096 * i)) [0..<n]) @ ps)"
  using assms
proof (induction n arbitrary: s p ps)
  case 0
  have ue: "unat e < 2281701377" using 0(8) by (simp add: word_le_nat_alt)
  have "\<not> p + 4096 \<le> e"
    using 0(6,7) ue by (simp add: word_le_nat_alt unat_word_ariths)
  then show ?case using 0 by (simp add: freerange_loop.simps [of p])
next
  case (Suc n)
  have ue: "unat e < 2281701377" using Suc.prems(8) by (simp add: word_le_nat_alt)
  have up: "unat (p + 4096) = unat p + 4096"
    using Suc.prems(6) ue by (simp add: unat_word_ariths)
  have le: "p + 4096 \<le> e" using Suc.prems(6) up by (simp add: word_le_nat_alt)
  have ok: "page_ok (kend s) p"
    using Suc.prems ue by (simp add: page_ok_def word_less_nat_alt)
  have "p \<notin> set ps" using Suc.prems(5) by auto
  with km.free_adds [OF Suc.prems(1) ok] obtain t
    where t: "kfree p s = Ok () t" "kmem_pages t (p # ps)"
      using kmem_free_adds [OF Suc.prems(1) ok] by blast
  have kt: "kend t = kend s"
    using t(1) kmem_free_adds [OF Suc.prems(1) ok \<open>p \<notin> set ps\<close>] by auto
  have "\<exists>u. freerange_loop (p + 4096) e t = Ok () u \<and> kend u = kend t \<and>
    kmem_pages u (rev (map (\<lambda>i. p + 4096 + of_nat (4096 * i)) [0..<n]) @ p # ps)"
  proof (rule Suc.IH [OF t(2)])
    show "aligned 4096 (p + 4096)" using Suc.prems(2) by (simp add: aligned_def up)
    show "p + 4096 \<noteq> 0" using up by auto
    show "kend t \<le> p + 4096" using Suc.prems(4) up kt by (simp add: word_le_nat_alt)
    show "\<forall>q\<in>set (p # ps). q < p + 4096" using Suc.prems(5) up by (auto simp: word_less_nat_alt)
    show "unat e = unat (p + 4096) + 4096 * n + r" using Suc.prems(6) up by simp
  qed (use Suc.prems in auto)
  then obtain u where u: "freerange_loop (p + 4096) e t = Ok () u" "kend u = kend t"
    "kmem_pages u (rev (map (\<lambda>i. p + 4096 + of_nat (4096 * i)) [0..<n]) @ p # ps)" by blast
  have "map (\<lambda>i. p + of_nat (4096 * i)) [0..<Suc n] = p # map (\<lambda>i. p + 4096 + of_nat (4096 * i)) [0..<n]"
    by (simp add: map_upt_Suc add.assoc del: upt_Suc)
  then have "rev (map (\<lambda>i. p + of_nat (4096 * i)) [0..<Suc n]) @ ps =
    rev (map (\<lambda>i. p + 4096 + of_nat (4096 * i)) [0..<n]) @ p # ps" by simp
  then show ?case using t u le kt by (simp add: freerange_loop.simps [of p] del: upt_Suc)
qed

lemma round_up_page:
  fixes k :: nat
  shows "k \<le> (k + 4095) div 4096 * 4096" and "(k + 4095) div 4096 * 4096 < k + 4096"
    and "k \<le> 2281701376 \<Longrightarrow> (k + 4095) div 4096 * 4096 \<le> 2281701376"
proof -
  have eq: "(k + 4095) div 4096 * 4096 + (k + 4095) mod 4096 = k + 4095" by (rule div_mult_mod_eq)
  have "(k + 4095) mod 4096 < 4096" by simp
  with eq show "k \<le> (k + 4095) div 4096 * 4096" and "(k + 4095) div 4096 * 4096 < k + 4096"
    by linarith+
  assume "k \<le> 2281701376"
  then have "(k + 4095) div 4096 \<le> (2281701376 + 4095) div 4096" by (intro div_le_mono) simp
  then show "(k + 4095) div 4096 * 4096 \<le> 2281701376" by simp
qed

lemma multiples_diff:
  fixes a b :: nat
  assumes "a mod 4096 = 0" and "b mod 4096 = 0"
  shows "a < b + 4096 \<Longrightarrow> a \<le> b" and "a \<le> b \<Longrightarrow> \<exists>i. b = a + 4096 * i"
proof -
  from assms obtain i j where a: "a = 4096 * i" and b: "b = 4096 * j" by (meson dvdE mod_0_imp_dvd)
  show "a < b + 4096 \<Longrightarrow> a \<le> b" by (simp add: a b)
  assume "a \<le> b"
  then have "b = a + 4096 * (j - i)" by (simp add: a b diff_mult_distrib2)
  then show "\<exists>i. b = a + 4096 * i" by blast
qed

lemma usable_pages_range:
  assumes "aligned 4096 b" and "e \<le> b" and "unat b < unat e + 4096" and "b \<noteq> 0"
    and "unat PHYSTOP = unat b + 4096 * n"
  shows "set (map (\<lambda>i. b + of_nat (4096 * i)) [0..<n]) = {p. page_ok e p}" (is "?L = ?R")
proof
  have ub: "unat b + 4096 * n = 2281701376" using assms(5) by simp
  have off: "unat (b + of_nat (4096 * i)) = unat b + 4096 * i" if "i < n" for i
    using that ub by (simp add: unat_word_ariths unat_of_nat)
  have b0: "unat b \<noteq> 0" using assms(4) by (simp add: unat_eq_0)
  show "?L \<subseteq> ?R"
  proof
    fix p assume "p \<in> ?L"
    then obtain i where i: "i < n" "p = b + of_nat (4096 * i)" by auto
    then have up: "unat p = unat b + 4096 * i" using off by simp
    have "aligned 4096 p" using assms(1) up by (simp add: aligned_def)
    moreover have "p \<noteq> 0" using up b0 by auto
    moreover have "e \<le> p" using assms(2) up by (simp add: word_le_nat_alt)
    moreover have "p < PHYSTOP" using up i ub by (simp add: word_less_nat_alt)
    ultimately show "p \<in> ?R" by (simp add: page_ok_def)
  qed
  show "?R \<subseteq> ?L"
  proof
    fix p assume "p \<in> ?R"
    then have a: "unat p mod 4096 = 0" and "unat e \<le> unat p" and lt: "unat p < 2281701376"
      by (simp_all add: page_ok_def aligned_def word_le_nat_alt word_less_nat_alt)
    moreover have bm: "unat b mod 4096 = 0" using assms(1) by (simp add: aligned_def)
    ultimately have "unat b \<le> unat p" using assms(3) by (intro multiples_diff(1) [OF bm a]) simp
    then obtain i where i: "unat p = unat b + 4096 * i" using multiples_diff(2) [OF bm a] by blast
    with lt ub have "i < n" by simp
    moreover have "unat p = unat (b + of_nat (4096 * i))" using off [OF \<open>i < n\<close>] i by simp
    then have "p = b + of_nat (4096 * i)" by (rule unsigned_word_eqI)
    ultimately show "p \<in> ?L" by auto
  qed
qed

section \<open>Properties\<close>

text \<open>C24: the allocator hands out pages like a list: while \<open>n\<close> pages are free, \<open>n\<close> calls of \<open>kalloc\<close> return \<open>n\<close>
  different non-null pages, none of which is still on the free list, and freeing them in reverse order
  with \<open>kfree\<close> restores the free list exactly.\<close>

theorem kalloc_kfree_cycle:
  assumes "kmem_pages s ps" and "n \<le> length ps"
  shows "\<exists>t u qs. km.allocs n s = Ok qs t \<and> length qs = n \<and> distinct qs \<and> 0 \<notin> set qs \<and> kmem_pages t (drop n ps) \<and>
    set qs \<inter> set (drop n ps) = {} \<and> km.frees (rev qs) t = Ok () u \<and> kmem_pages u ps"
  by (rule km.alloc_free_cycle [OF assms])

text \<open>C25: \<open>kinit\<close> returns, and afterwards the free list holds every page between the end of the kernel and
  \<open>PHYSTOP\<close>, each exactly once, and nothing else.\<close>

theorem kinit_frees_all_pages:
  assumes "freelist s = 0" and "intr_ok (hw s)" and "0 < kend s" and "kend s \<le> PHYSTOP"
  shows "\<exists>t ps. kinit s = Ok () t \<and> kmem_pages t ps \<and> distinct ps \<and> set ps = {p. page_ok (kend s) p}"
proof -
  let ?b = "PGROUNDUP (kend s)"
  let ?s = "s\<lparr>hw := hw_initlock Lk_kmem ''kmem'' (hw s)\<rparr>"
  have ke: "unat (kend s) \<le> 2281701376" "unat (kend s) \<noteq> 0"
    using assms(3,4) by (auto simp: word_le_nat_alt word_less_nat_alt)
  have b: "unat ?b = (unat (kend s) + 4095) div 4096 * 4096"
    using ke by (intro unat_PGROUNDUP) simp
  have ub: "unat (kend s) \<le> unat ?b" "unat ?b < unat (kend s) + 4096" "unat ?b \<le> 2281701376" "unat ?b mod 4096 = 0"
    using round_up_page [of "unat (kend s)"] ke unfolding b by simp_all
  obtain n where n: "2281701376 = unat ?b + 4096 * n"
    using multiples_diff(2) [OF ub(4), of 2281701376] ub(3) by auto
  have b1: "aligned 4096 ?b" "?b \<noteq> 0" "kend s \<le> ?b"
    using ub ke by (auto simp: aligned_def word_le_nat_alt)
  have start: "kmem_pages ?s []" using assms(1,2) by (simp add: kmem_pages_def)
  from freerange_loop_pages [OF start, of ?b PHYSTOP n 0] b1 n obtain t
    where t: "freerange_loop ?b PHYSTOP ?s = Ok () t"
      "kmem_pages t (rev (map (\<lambda>i. ?b + of_nat (4096 * i)) [0..<n]))" by auto
  have "set (map (\<lambda>i. ?b + of_nat (4096 * i)) [0..<n]) = {p. page_ok (kend s) p}"
    using b1 ub n by (intro usable_pages_range) simp_all
  then have "set (rev (map (\<lambda>i. ?b + of_nat (4096 * i)) [0..<n])) = {p. page_ok (kend s) p}"
    by (simp only: set_rev)
  moreover have "kinit s = Ok () t" using t(1) by (simp add: kinit_def freerange_def)
  ultimately show ?thesis using t(2) km.pages_distinct [OF t(2)] by blast
qed

text \<open>A small machine: the kernel ends three pages below \<open>PHYSTOP\<close>.\<close>

definition kmem0 :: kmem_state where
  "kmem0 = \<lparr>hw = hw0, kend = PHYSTOP - 3 * PGSIZE, mem = (\<lambda>_. 0), freelist = 0\<rparr>"

theorem kinit_frees_all_pages_witness:
  "\<exists>t ps. kinit kmem0 = Ok () t \<and> kmem_pages t ps \<and> distinct ps \<and> set ps = {p. page_ok 0x87ffd000 p}"
  using kinit_frees_all_pages [of kmem0] by (simp add: kmem0_def)

definition kmem1 :: kmem_state where
  "kmem1 = \<lparr>hw = hw0, kend = 0x87ffd000, mem = write64 (\<lambda>_. 0) 0x87ffd000 0x87ffe000, freelist = 0x87ffd000\<rparr>"

lemma read64_zero: "read64 (\<lambda>_. 0) a = 0"
  by (rule bit_word_eqI) (simp add: read64_def bit_of_bytes)

lemma kmem1_pages: "kmem_pages kmem1 [0x87ffd000, 0x87ffe000]"
  by (simp add: kmem_pages_def kmem1_def page_ok_def aligned_def read64_zero)

theorem kalloc_kfree_cycle_witness:
  "\<exists>t u qs. km.allocs 2 kmem1 = Ok qs t \<and> length qs = 2 \<and> distinct qs \<and> 0 \<notin> set qs \<and> kmem_pages t (drop 2 [0x87ffd000, 0x87ffe000]) \<and>
    set qs \<inter> set (drop 2 [0x87ffd000, 0x87ffe000]) = {} \<and> km.frees (rev qs) t = Ok () u \<and> kmem_pages u [0x87ffd000, 0x87ffe000]"
  by (rule kalloc_kfree_cycle [OF kmem1_pages]) simp

end
