(* ===== verification/Vm.thy ===== *)
theory Vm
  imports Kalloc
begin

text \<open>
  \<open>kernel/vm.c\<close>: Sv39 page tables in physical memory. A page table is the address of a page whose 512
  eight-byte entries are read and written in the byte store, as the code does; \<open>walk\<close> returns the
  address of an entry, 0 for null. \<open>etext\<close> and \<open>trampoline\<close> are linker symbols.

  A kernel buffer passed to \<open>copyout\<close>, \<open>copyin\<close> and \<open>copyinstr\<close> is the list of its bytes:
  \<open>copyout\<close> takes the bytes of \<open>src\<close>, and \<open>copyin\<close> and \<open>copyinstr\<close> return the bytes they stored
  through \<open>dst\<close>, also when they fail part of the way.

  \<open>freewalk\<close> recurses as deep as the table goes, so it takes fuel; out of fuel is \<open>Spin\<close>.
\<close>

section \<open>Code\<close>

record vm_state = kmem_state +
  etext :: u64
  trampoline :: u64
  kernel_pagetable :: u64

abbreviation mem_read64 :: "u64 \<Rightarrow> (u64, 'x kmem_state_scheme) kop" where
  "mem_read64 a \<equiv> gets (\<lambda>s. read64 (mem s) a)"

abbreviation mem_write64 :: "u64 \<Rightarrow> u64 \<Rightarrow> (unit, 'x kmem_state_scheme) kop" where
  "mem_write64 a v \<equiv> modify (\<lambda>s. s\<lparr>mem := write64 (mem s) a v\<rparr>)"

abbreviation mem_memset :: "u64 \<Rightarrow> byte \<Rightarrow> nat \<Rightarrow> (unit, 'x kmem_state_scheme) kop" where
  "mem_memset a c n \<equiv> modify (\<lambda>s. s\<lparr>mem := memset (mem s) a c n\<rparr>)"

primrec walk_level :: "nat \<Rightarrow> u64 \<Rightarrow> u64 \<Rightarrow> bool \<Rightarrow> (u64, 'x kmem_state_scheme) kop" where
  "walk_level 0 pagetable va alloc = ret (pagetable + 8 * PX 0 va)"
| "walk_level (Suc l) pagetable va alloc =
     bind (mem_read64 (pagetable + 8 * PX (Suc l) va)) (\<lambda>pte.
     if pte AND PTE_V \<noteq> 0 then walk_level l (PTE2PA pte) va alloc
     else if \<not> alloc then ret 0
     else bind kalloc (\<lambda>pt.
       if pt = 0 then ret 0
       else andthen (mem_memset pt 0 4096) (
            andthen (mem_write64 (pagetable + 8 * PX (Suc l) va) (PA2PTE pt OR PTE_V)) (
            walk_level l pt va alloc))))"

definition walk :: "u64 \<Rightarrow> u64 \<Rightarrow> bool \<Rightarrow> (u64, 'x kmem_state_scheme) kop" where
  "walk pagetable va alloc = andthen (panic_if (va \<ge> MAXVA) ''walk'') (walk_level 2 pagetable va alloc)"

definition walkaddr :: "u64 \<Rightarrow> u64 \<Rightarrow> (u64, 'x kmem_state_scheme) kop" where
  "walkaddr pagetable va =
     (if va \<ge> MAXVA then ret 0
      else bind (walk pagetable va False) (\<lambda>pte.
        if pte = 0 then ret 0
        else bind (mem_read64 pte) (\<lambda>v.
          if v AND PTE_V = 0 then ret 0
          else if v AND PTE_U = 0 then ret 0
          else ret (PTE2PA v))))"

lemma walk_Ok_below: "walk pt va alloc s = Ok a t \<Longrightarrow> unat va < 274877906944"
  by (auto simp: walk_def andthen_apply not_le word_less_nat_alt split: if_splits)

function mappages_loop :: "u64 \<Rightarrow> u64 \<Rightarrow> u64 \<Rightarrow> u64 \<Rightarrow> u64 \<Rightarrow> (int, 'x kmem_state_scheme) kop" where
  "mappages_loop pagetable a last_pg pa perm s =
     bind (walk pagetable a True) (\<lambda>pte.
       if pte = 0 then ret (- 1)
       else bind (mem_read64 pte) (\<lambda>v.
            andthen (panic_if (v AND PTE_V \<noteq> 0) ''remap'') (
            andthen (mem_write64 pte (PA2PTE pa OR perm OR PTE_V)) (
            if a = last_pg then ret 0
            else mappages_loop pagetable (a + PGSIZE) last_pg (pa + PGSIZE) perm)))) s"
  by pat_completeness auto
termination
proof (relation "measure (\<lambda>(pt, a, last_pg, pa, perm, s). 2 ^ 64 - unat a)", simp)
  fix pt a last_pg pa perm :: u64 and s u v w x :: "'a kmem_state_scheme" and r
  assume "walk pt a True s = Ok r u"
  then have "unat a < 274877906944" by (rule walk_Ok_below)
  then show "((pt, a + 4096, last_pg, pa + 4096, perm, x), pt, a, last_pg, pa, perm, s)
      \<in> measure (\<lambda>(pt, a, last_pg, pa, perm, s). 2 ^ 64 - unat a)"
    by (simp add: unat_word_ariths)
qed

declare mappages_loop.simps [simp del]

definition mappages :: "u64 \<Rightarrow> u64 \<Rightarrow> u64 \<Rightarrow> u64 \<Rightarrow> u64 \<Rightarrow> (int, 'x kmem_state_scheme) kop" where
  "mappages pagetable va sz pa perm =
     mappages_loop pagetable (PGROUNDDOWN va) (PGROUNDDOWN (va + sz - 1)) pa perm"

definition kvmmap :: "u64 \<Rightarrow> u64 \<Rightarrow> u64 \<Rightarrow> u64 \<Rightarrow> (unit, 'x vm_state_scheme) kop" where
  "kvmmap va pa sz perm =
     bind (gets kernel_pagetable) (\<lambda>kpt.
     bind (mappages kpt va sz pa perm) (\<lambda>r. panic_if (r \<noteq> 0) ''kvmmap''))"

definition kvminit :: "(unit, 'x vm_state_scheme) kop" where
  "kvminit =
     bind kalloc (\<lambda>kpt.
     andthen (modify (\<lambda>s. s\<lparr>kernel_pagetable := kpt\<rparr>)) (
     andthen (mem_memset kpt 0 4096) (
     andthen (kvmmap UART0 UART0 PGSIZE (PTE_R OR PTE_W)) (
     andthen (kvmmap VIRTIO0 VIRTIO0 PGSIZE (PTE_R OR PTE_W)) (
     andthen (kvmmap CLINT CLINT 0x10000 (PTE_R OR PTE_W)) (
     andthen (kvmmap PLIC PLIC 0x400000 (PTE_R OR PTE_W)) (
     bind (gets etext) (\<lambda>et.
     andthen (kvmmap KERNBASE KERNBASE (et - KERNBASE) (PTE_R OR PTE_X)) (
     andthen (kvmmap et et (PHYSTOP - et) (PTE_R OR PTE_W)) (
     bind (gets trampoline) (\<lambda>tr.
     kvmmap TRAMPOLINE tr PGSIZE (PTE_R OR PTE_X))))))))))))"

definition kvminithart :: "(unit, 'x vm_state_scheme) kop" where
  "kvminithart = modify (\<lambda>s. s\<lparr>hw := (hw s)\<lparr>csr := (csr (hw s))\<lparr>satp := MAKE_SATP (kernel_pagetable s)\<rparr>\<rparr>\<rparr>)"

definition kvmpa :: "u64 \<Rightarrow> (u64, 'x vm_state_scheme) kop" where
  "kvmpa va =
     bind (gets kernel_pagetable) (\<lambda>kpt.
     bind (walk kpt va False) (\<lambda>pte.
     andthen (panic_if (pte = 0) ''kvmpa'') (
     bind (mem_read64 pte) (\<lambda>v.
     andthen (panic_if (v AND PTE_V = 0) ''kvmpa'') (
     ret (PTE2PA v + va mod PGSIZE))))))"

function uvmunmap_loop :: "u64 \<Rightarrow> u64 \<Rightarrow> u64 \<Rightarrow> bool \<Rightarrow> (unit, 'x kmem_state_scheme) kop" where
  "uvmunmap_loop pagetable a top_a do_free s =
     (if a < top_a then
        bind (walk pagetable a False) (\<lambda>pte.
        andthen (panic_if (pte = 0) ''uvmunmap: walk'') (
        bind (mem_read64 pte) (\<lambda>v.
        andthen (panic_if (v AND PTE_V = 0) ''uvmunmap: not mapped'') (
        andthen (panic_if (PTE_FLAGS v = PTE_V) ''uvmunmap: not a leaf'') (
        andthen (if do_free then kfree (PTE2PA v) else ret ()) (
        andthen (mem_write64 pte 0) (
        uvmunmap_loop pagetable (a + PGSIZE) top_a do_free))))))) s
      else ret () s)"
  by pat_completeness auto
termination
proof (relation "measure (\<lambda>(pt, a, top_a, f, s). 2 ^ 64 - unat a)", simp)
  fix pt a top_a :: u64 and f :: bool and s u x :: "'a kmem_state_scheme" and r
  assume "walk pt a False s = Ok r u"
  then have "unat a < 274877906944" by (rule walk_Ok_below)
  then show "((pt, a + 4096, top_a, f, x), pt, a, top_a, f, s) \<in> measure (\<lambda>(pt, a, top_a, f, s). 2 ^ 64 - unat a)"
    by (simp add: unat_word_ariths)
qed

declare uvmunmap_loop.simps [simp del]

definition uvmunmap :: "u64 \<Rightarrow> u64 \<Rightarrow> u64 \<Rightarrow> bool \<Rightarrow> (unit, 'x kmem_state_scheme) kop" where
  "uvmunmap pagetable va npages do_free =
     andthen (panic_if (va mod PGSIZE \<noteq> 0) ''uvmunmap: not aligned'') (
     uvmunmap_loop pagetable va (va + npages * PGSIZE) do_free)"

definition uvmcreate :: "(u64, 'x kmem_state_scheme) kop" where
  "uvmcreate = bind kalloc (\<lambda>pt. if pt = 0 then ret 0 else andthen (mem_memset pt 0 4096) (ret pt))"

definition write_bytes :: "store \<Rightarrow> u64 \<Rightarrow> byte list \<Rightarrow> store" where
  "write_bytes m a bs = (\<lambda>x. if unat (x - a) < length bs then bs ! unat (x - a) else m x)"

definition uvminit :: "u64 \<Rightarrow> byte list \<Rightarrow> (unit, 'x kmem_state_scheme) kop" where
  "uvminit pagetable src =
     andthen (panic_if (length src \<ge> 4096) ''inituvm: more than a page'') (
     bind kalloc (\<lambda>m.
     andthen (mem_memset m 0 4096) (
     bind (mappages pagetable 0 PGSIZE m (PTE_W OR PTE_R OR PTE_X OR PTE_U)) (\<lambda>_.
     modify (\<lambda>s. s\<lparr>mem := write_bytes (mem s) m src\<rparr>)))))"

definition uvmdealloc :: "u64 \<Rightarrow> u64 \<Rightarrow> u64 \<Rightarrow> (u64, 'x kmem_state_scheme) kop" where
  "uvmdealloc pagetable oldsz newsz =
     (if newsz \<ge> oldsz then ret oldsz
      else andthen
        (if PGROUNDUP newsz < PGROUNDUP oldsz
         then uvmunmap pagetable (PGROUNDUP newsz)
                (scast (ucast ((PGROUNDUP oldsz - PGROUNDUP newsz) div PGSIZE) :: 32 word)) True
         else ret ())
        (ret newsz))"

lemma mappages_Ok_below: "mappages pt va sz pa perm s = Ok a t \<Longrightarrow> unat va < 274877906944 + 4096"
proof -
  assume "mappages pt va sz pa perm s = Ok a t"
  then obtain b u where "walk pt (PGROUNDDOWN va) True s = Ok b u"
    by (auto simp: mappages_def mappages_loop.simps [of pt "PGROUNDDOWN va"] bind_eq_Ok)
  then have "unat va div 4096 * 4096 < 274877906944"
    using walk_Ok_below unat_PGROUNDDOWN by metis
  then show ?thesis by linarith
qed

function uvmalloc_loop :: "u64 \<Rightarrow> u64 \<Rightarrow> u64 \<Rightarrow> u64 \<Rightarrow> (u64, 'x kmem_state_scheme) kop" where
  "uvmalloc_loop pagetable a oldsz newsz s =
     (if a < newsz then
        bind kalloc (\<lambda>m.
        if m = 0 then bind (uvmdealloc pagetable a oldsz) (\<lambda>_. ret 0)
        else andthen (mem_memset m 0 4096) (
             bind (mappages pagetable a PGSIZE m (PTE_W OR PTE_X OR PTE_R OR PTE_U)) (\<lambda>r.
             if r \<noteq> 0 then andthen (kfree m) (bind (uvmdealloc pagetable a oldsz) (\<lambda>_. ret 0))
             else uvmalloc_loop pagetable (a + PGSIZE) oldsz newsz))) s
      else ret newsz s)"
  by pat_completeness auto
termination
  by (relation "measure (\<lambda>(pt, a, oldsz, newsz, s). 2 ^ 64 - unat a)")
    (auto dest!: mappages_Ok_below simp: unat_word_ariths)

declare uvmalloc_loop.simps [simp del]

definition uvmalloc :: "u64 \<Rightarrow> u64 \<Rightarrow> u64 \<Rightarrow> (u64, 'x kmem_state_scheme) kop" where
  "uvmalloc pagetable oldsz newsz =
     (if newsz < oldsz then ret oldsz
      else uvmalloc_loop pagetable (PGROUNDUP oldsz) (PGROUNDUP oldsz) newsz)"

fun freewalk :: "nat \<Rightarrow> u64 \<Rightarrow> (unit, 'x kmem_state_scheme) kop"
  and freewalk_entries :: "nat \<Rightarrow> u64 \<Rightarrow> nat list \<Rightarrow> (unit, 'x kmem_state_scheme) kop" where
  "freewalk 0 pagetable = (\<lambda>s. Spin)"
| "freewalk (Suc fuel) pagetable =
     andthen (freewalk_entries fuel pagetable [0..<512]) (kfree pagetable)"
| "freewalk_entries fuel pagetable [] = ret ()"
| "freewalk_entries fuel pagetable (i # is) =
     bind (mem_read64 (pagetable + 8 * of_nat i)) (\<lambda>pte.
     andthen
       (if pte AND PTE_V \<noteq> 0 \<and> pte AND (PTE_R OR PTE_W OR PTE_X) = 0
        then andthen (freewalk fuel (PTE2PA pte)) (mem_write64 (pagetable + 8 * of_nat i) 0)
        else panic_if (pte AND PTE_V \<noteq> 0) ''freewalk: leaf'')
       (freewalk_entries fuel pagetable is))"

definition uvmfree :: "nat \<Rightarrow> u64 \<Rightarrow> u64 \<Rightarrow> (unit, 'x kmem_state_scheme) kop" where
  "uvmfree fuel pagetable sz =
     andthen (if sz > 0 then uvmunmap pagetable 0 (PGROUNDUP sz div PGSIZE) True else ret ())
       (freewalk fuel pagetable)"

function uvmcopy_loop :: "u64 \<Rightarrow> u64 \<Rightarrow> u64 \<Rightarrow> u64 \<Rightarrow> (int, 'x kmem_state_scheme) kop" where
  "uvmcopy_loop old new i sz s =
     (if i < sz then
        bind (walk old i False) (\<lambda>pte.
        andthen (panic_if (pte = 0) ''uvmcopy: pte should exist'') (
        bind (mem_read64 pte) (\<lambda>v.
        andthen (panic_if (v AND PTE_V = 0) ''uvmcopy: page not present'') (
        bind kalloc (\<lambda>m.
        if m = 0 then andthen (uvmunmap new 0 (i div PGSIZE) True) (ret (- 1))
        else andthen (modify (\<lambda>s. s\<lparr>mem := memmove (mem s) m (PTE2PA v) 4096\<rparr>)) (
             bind (mappages new i PGSIZE m (PTE_FLAGS v)) (\<lambda>r.
             if r \<noteq> 0 then andthen (kfree m) (andthen (uvmunmap new 0 (i div PGSIZE) True) (ret (- 1)))
             else uvmcopy_loop old new (i + PGSIZE) sz))))))) s
      else ret 0 s)"
  by pat_completeness auto
termination
  by (relation "measure (\<lambda>(old, new, i, sz, s). 2 ^ 64 - unat i)")
    (auto dest!: walk_Ok_below simp: unat_word_ariths)

declare uvmcopy_loop.simps [simp del]

definition uvmcopy :: "u64 \<Rightarrow> u64 \<Rightarrow> u64 \<Rightarrow> (int, 'x kmem_state_scheme) kop" where
  "uvmcopy old new sz = uvmcopy_loop old new 0 sz"

definition uvmclear :: "u64 \<Rightarrow> u64 \<Rightarrow> (unit, 'x kmem_state_scheme) kop" where
  "uvmclear pagetable va =
     bind (walk pagetable va False) (\<lambda>pte.
     andthen (panic_if (pte = 0) ''uvmclear'') (
     bind (mem_read64 pte) (\<lambda>v. mem_write64 pte (v AND NOT PTE_U))))"

lemma page_offset_less: "unat (va - PGROUNDDOWN va) < 4096"
proof -
  have "unat (PGROUNDDOWN va) \<le> unat va" by (simp add: unat_PGROUNDDOWN)
  then have "unat (va - PGROUNDDOWN va) = unat va - unat va div 4096 * 4096"
    by (simp add: unat_sub word_le_nat_alt unat_PGROUNDDOWN)
  also have "\<dots> = unat va mod 4096" by (simp add: minus_div_mult_eq_mod)
  finally show ?thesis by simp
qed

function copyout :: "u64 \<Rightarrow> u64 \<Rightarrow> byte list \<Rightarrow> (int, 'x kmem_state_scheme) kop" where
  "copyout pagetable dstva src s =
     (if src \<noteq> [] then
        (let va0 = PGROUNDDOWN dstva in
         bind (walkaddr pagetable va0) (\<lambda>pa0.
         if pa0 = 0 then ret (- 1)
         else (let n = min (4096 - unat (dstva - va0)) (length src) in
           andthen (modify (\<lambda>s. s\<lparr>mem := write_bytes (mem s) (pa0 + (dstva - va0)) (take n src)\<rparr>))
             (copyout pagetable (va0 + PGSIZE) (drop n src))))) s
      else ret 0 s)"
  by pat_completeness auto
termination
  by (relation "measure (\<lambda>(pt, va, src, s). length src)") (auto simp: page_offset_less)

declare copyout.simps [simp del]

definition read_bytes :: "store \<Rightarrow> u64 \<Rightarrow> nat \<Rightarrow> byte list" where
  "read_bytes m a n = map (\<lambda>i. m (a + of_nat i)) [0..<n]"

function copyin :: "u64 \<Rightarrow> u64 \<Rightarrow> nat \<Rightarrow> (int \<times> byte list, 'x kmem_state_scheme) kop" where
  "copyin pagetable srcva len s =
     (if len > 0 then
        (let va0 = PGROUNDDOWN srcva in
         bind (walkaddr pagetable va0) (\<lambda>pa0.
         if pa0 = 0 then ret (- 1, [])
         else (let n = min (4096 - unat (srcva - va0)) len in
           bind (gets (\<lambda>s. read_bytes (mem s) (pa0 + (srcva - va0)) n)) (\<lambda>bs.
           bind (copyin pagetable (va0 + PGSIZE) (len - n)) (\<lambda>r. ret (fst r, bs @ snd r)))))) s
      else ret (0, []) s)"
  by pat_completeness auto
termination
  by (relation "measure (\<lambda>(pt, va, len, s). len)") (auto simp: page_offset_less)

declare copyin.simps [simp del]

fun copy_until_nul :: "store \<Rightarrow> u64 \<Rightarrow> nat \<Rightarrow> byte list \<times> bool" where
  "copy_until_nul m p 0 = ([], False)"
| "copy_until_nul m p (Suc n) =
     (if m p = 0 then ([0], True)
      else (let r = copy_until_nul m (p + 1) n in (m p # fst r, snd r)))"

function copyinstr :: "u64 \<Rightarrow> u64 \<Rightarrow> nat \<Rightarrow> (int \<times> byte list, 'x kmem_state_scheme) kop" where
  "copyinstr pagetable srcva maxlen s =
     (if maxlen > 0 then
        (let va0 = PGROUNDDOWN srcva in
         bind (walkaddr pagetable va0) (\<lambda>pa0.
         if pa0 = 0 then ret (- 1, [])
         else (let n = min (4096 - unat (srcva - va0)) maxlen in
           bind (gets (\<lambda>s. copy_until_nul (mem s) (pa0 + (srcva - va0)) n)) (\<lambda>c.
           if snd c then ret (0, fst c)
           else bind (copyinstr pagetable (va0 + PGSIZE) (maxlen - n)) (\<lambda>r. ret (fst r, fst c @ snd r)))))) s
      else ret (- 1, []) s)"
  by pat_completeness auto
termination
  by (relation "measure (\<lambda>(pt, va, len, s). len)") (auto simp: page_offset_less)

declare copyinstr.simps [simp del]

end
