(* ===== verification/Vm_Tree.thy ===== *)
theory Vm_Tree
  imports Vm "HOL-Library.Sublist"
begin

text \<open>
  The page-table tree behind \<open>kernel/vm.c\<close>: the pages of a table named by the index path that leads to
  them, the leaf entry of a virtual address, and what \<open>walk\<close>, \<open>mappages\<close> and \<open>uvmunmap\<close> do to them.
\<close>

section \<open>Indices\<close>

lemma cell_in_page: "unat i < 512 \<Longrightarrow> unat (p + 8 * i - p :: u64) + 8 \<le> 4096"
  by (simp add: unat_word_ariths)

lemma unat_cell:
  assumes "aligned 4096 p" and "unat i < 512"
  shows "unat (p + 8 * i :: u64) = unat p + 8 * unat i"
proof -
  have "8 * i = of_nat (8 * unat i)" by simp
  then show ?thesis using assms unat_aligned_add [of 4096 p "8 * unat i"] by simp
qed

lemma read64_cell_other:
  assumes "aligned 4096 p" and "unat i < 512" and "unat j < 512" and "i \<noteq> j"
  shows "read64 (write64 m (p + 8 * i) v) (p + 8 * j) = read64 m (p + 8 * j :: u64)"
proof (rule read64_write64_other)
  have p: "8 dvd unat p"
    using assms(1) unfolding aligned_def by (elim mod_0_imp_dvd [THEN dvd_trans [of 8 4096, rotated]]) simp
  show "aligned 8 (p + 8 * j)" "aligned 8 (p + 8 * i)"
    using assms p by (simp_all add: aligned_def unat_cell mod_0_imp_dvd)
  have "unat p + 8 * unat i \<noteq> unat p + 8 * unat j"
    using assms(4) unsigned_word_eqI [of i j] by auto
  then show "p + 8 * j \<noteq> p + 8 * i"
    using assms by (metis unat_cell)
qed

section \<open>The tree\<close>

definition entry :: "store \<Rightarrow> u64 \<Rightarrow> u64 \<Rightarrow> u64 option" where
  "entry m p i = (if read64 m (p + 8 * i) AND PTE_V \<noteq> 0 then Some (PTE2PA (read64 m (p + 8 * i))) else None)"

primrec node :: "store \<Rightarrow> u64 \<Rightarrow> u64 list \<Rightarrow> u64 option" where
  "node m pt [] = Some pt"
| "node m pt (i # is) = Option.bind (entry m pt i) (\<lambda>p. node m p is)"

definition pte_slot :: "store \<Rightarrow> u64 \<Rightarrow> u64 \<Rightarrow> u64 option" where
  "pte_slot m pt va = map_option (\<lambda>p. p + 8 * PX 0 va) (node m pt [PX 2 va, PX 1 va])"

definition pte_of :: "store \<Rightarrow> u64 \<Rightarrow> u64 \<Rightarrow> u64" where
  "pte_of m pt va = (case pte_slot m pt va of None \<Rightarrow> 0 | Some a \<Rightarrow> read64 m a)"

definition pt_path :: "u64 list \<Rightarrow> bool" where
  "pt_path is \<longleftrightarrow> length is \<le> 2 \<and> (\<forall>i\<in>set is. unat i < 512)"

definition pt_pages :: "store \<Rightarrow> u64 \<Rightarrow> u64 set" where
  "pt_pages m root = {p. \<exists>is. pt_path is \<and> node m root is = Some p}"

definition pt_wf :: "store \<Rightarrow> u64 \<Rightarrow> u64 \<Rightarrow> bool" where
  "pt_wf m e root \<longleftrightarrow>
     (\<forall>is p. pt_path is \<longrightarrow> node m root is = Some p \<longrightarrow> page_ok e p) \<and>
     (\<forall>is js p. pt_path is \<longrightarrow> pt_path js \<longrightarrow> node m root is = Some p \<longrightarrow> node m root js = Some p \<longrightarrow> is = js)"

lemma node_snoc: "node m pt (is @ [i]) = Option.bind (node m pt is) (\<lambda>p. entry m p i)"
  by (induction "is" arbitrary: pt) (auto split: Option.bind_splits)

lemma node_same:
  "(\<And>ks k p. prefix (ks @ [k]) is \<Longrightarrow> node m pt ks = Some p \<Longrightarrow> entry m' p k = entry m p k) \<Longrightarrow>
    node m' pt is = node m pt is"
proof (induction "is" rule: rev_induct)
  case (snoc i "is")
  have "node m' pt is = node m pt is"
    by (rule snoc.IH) (meson prefix_order.trans prefixI snoc.prems)
  moreover have "entry m' p i = entry m p i" if "node m pt is = Some p" for p
    using snoc.prems [OF _ that] by simp
  ultimately show ?case by (auto simp: node_snoc split: Option.bind_splits)
qed simp

lemma pt_path_prefix: "prefix ks is \<Longrightarrow> pt_path is \<Longrightarrow> pt_path ks"
  by (auto simp: pt_path_def prefix_def)

lemma walk_nonalloc:
  assumes "va < MAXVA"
  shows "walk pt va False s = Ok (case pte_slot (mem s) pt va of None \<Rightarrow> 0 | Some a \<Rightarrow> a) s"
  using assms
  by (simp add: walk_def eval_nat_numeral pte_slot_def entry_def kop not_le split: option.splits)

section \<open>Updating the tree\<close>

lemma pt_wf_page: "pt_wf m e root \<Longrightarrow> pt_path is \<Longrightarrow> node m root is = Some p \<Longrightarrow> page_ok e p"
  by (simp add: pt_wf_def)

lemma pt_wf_inj:
  "pt_wf m e root \<Longrightarrow> pt_path is \<Longrightarrow> pt_path js \<Longrightarrow> node m root is = Some p \<Longrightarrow> node m root js = Some p \<Longrightarrow> is = js"
  unfolding pt_wf_def by blast

lemma page_ok_aligned: "page_ok e p \<Longrightarrow> aligned 4096 p"
  by (simp add: page_ok_def)

lemma pt_path_snoc: "pt_path (is @ [i]) \<longleftrightarrow> length is \<le> 1 \<and> pt_path is \<and> unat i < 512"
  by (auto simp: pt_path_def)

lemma va_path: "pt_path [PX 2 va, PX 1 va]"
  by (simp add: pt_path_def unat_PX_less)

lemma pte_of_node:
  "pte_of m root va = (case node m root [PX 2 va, PX 1 va] of None \<Rightarrow> 0 | Some p \<Rightarrow> read64 m (p + 8 * PX 0 va))"
  by (simp add: pte_of_def pte_slot_def split: option.splits del: node.simps)

lemma pt_pagesI: "pt_path is \<Longrightarrow> node m root is = Some p \<Longrightarrow> p \<in> pt_pages m root"
  by (auto simp: pt_pages_def)

text \<open>Memory that agrees on the pages of a table has the same table.\<close>

lemma entry_same_page:
  assumes "aligned 4096 p" and "unat i < 512" and "\<And>x. in_page p x \<Longrightarrow> m' x = m x"
  shows "entry m' p i = entry m p i"
proof -
  have "read64 m' (p + 8 * i) = read64 m (p + 8 * i)"
    by (rule read64_same_page [OF assms(1) cell_in_page [OF assms(2)] assms(3)])
  then show ?thesis by (simp add: entry_def)
qed

lemma node_frame:
  assumes "pt_wf m e root" and "\<And>p x. p \<in> pt_pages m root \<Longrightarrow> in_page p x \<Longrightarrow> m' x = m x" and "pt_path is"
  shows "node m' root is = node m root is"
proof (rule node_same)
  fix ks k p assume ks: "prefix (ks @ [k]) is" and p: "node m root ks = Some p"
  from pt_path_prefix [OF ks assms(3)] have path: "pt_path ks" "unat k < 512" by (auto simp: pt_path_snoc)
  with p have "p \<in> pt_pages m root" by (auto simp: pt_pages_def)
  then show "entry m' p k = entry m p k"
    using path p pt_wf_page [OF assms(1)] assms(2)
    by (intro entry_same_page) (auto simp: page_ok_def)
qed

lemma pt_pages_frame:
  assumes "pt_wf m e root" and "\<And>p x. p \<in> pt_pages m root \<Longrightarrow> in_page p x \<Longrightarrow> m' x = m x"
  shows "pt_pages m' root = pt_pages m root" and "pt_wf m' e root"
  using node_frame [OF assms] assms(1) by (auto simp: pt_pages_def pt_wf_def)

lemma pte_of_frame:
  assumes "pt_wf m e root" and "\<And>p x. p \<in> pt_pages m root \<Longrightarrow> in_page p x \<Longrightarrow> m' x = m x"
  shows "pte_of m' root va = pte_of m root va"
proof (cases "node m root [PX 2 va, PX 1 va]")
  case None
  then show ?thesis
    using node_frame [OF assms va_path [of va]] by (simp add: pte_of_def pte_slot_def del: node.simps)
next
  case (Some p)
  then have "p \<in> pt_pages m root" using va_path by (auto simp: pt_pages_def simp del: node.simps)
  then have "read64 m' (p + 8 * PX 0 va) = read64 m (p + 8 * PX 0 va)"
    using Some pt_wf_page [OF assms(1) va_path Some] assms(2) unat_PX_less
    by (intro read64_same_page [of p] cell_in_page) (auto simp: page_ok_def)
  then show ?thesis
    using node_frame [OF assms va_path [of va]] Some by (simp add: pte_of_def pte_slot_def del: node.simps)
qed

text \<open>A write to a leaf entry keeps every table page.\<close>

lemma node_leaf_write:
  assumes "pt_wf m e root" and "pt_path is" and "length is = 2" and "node m root is = Some p" and "unat i < 512"
    and "pt_path js"
  shows "node (write64 m (p + 8 * i) v) root js = node m root js"
proof (rule node_same)
  fix ks k q assume ks: "prefix (ks @ [k]) js" and q: "node m root ks = Some q"
  from pt_path_prefix [OF ks assms(6)] have path: "pt_path ks" "unat k < 512" "length ks \<le> 1" by (auto simp: pt_path_snoc)
  then have "q \<noteq> p" using pt_wf_inj [OF assms(1,2) path(1) assms(4)] q assms(3) by auto
  then have "read64 (write64 m (p + 8 * i) v) (q + 8 * k) = read64 m (q + 8 * k)"
    using path q assms pt_wf_page [OF assms(1)]
    by (intro read64_write64_page_other [of q p] cell_in_page) (auto simp: page_ok_def)
  then show "entry (write64 m (p + 8 * i) v) q k = entry m q k" by (simp add: entry_def)
qed

lemma pte_of_leaf_write:
  assumes "pt_wf m e root" and "node m root [PX 2 va, PX 1 va] = Some p"
  shows "pte_of (write64 m (p + 8 * PX 0 va) v) root vb =
    (if PX 2 vb = PX 2 va \<and> PX 1 vb = PX 1 va \<and> PX 0 vb = PX 0 va then v else pte_of m root vb)"
proof (cases "node m root [PX 2 vb, PX 1 vb]")
  case None
  have "node (write64 m (p + 8 * PX 0 va) v) root [PX 2 vb, PX 1 vb] = node m root [PX 2 vb, PX 1 vb]"
    by (rule node_leaf_write [OF assms(1) va_path _ assms(2) unat_PX_less va_path]) simp
  then show ?thesis using None assms(2) by (auto simp: pte_of_def pte_slot_def simp del: node.simps)
next
  case (Some q)
  have nd: "node (write64 m (p + 8 * PX 0 va) v) root [PX 2 vb, PX 1 vb] = Some q"
    using node_leaf_write [OF assms(1) va_path _ assms(2) unat_PX_less va_path] Some by simp
  have al: "aligned 4096 p" "aligned 4096 q"
    using pt_wf_page [OF assms(1) va_path] assms(2) Some by (auto simp: page_ok_def)
  consider "q \<noteq> p" | "q = p" "PX 0 vb \<noteq> PX 0 va" | "q = p" "PX 0 vb = PX 0 va" by blast
  then show ?thesis
  proof cases
    case 1
    then have "read64 (write64 m (p + 8 * PX 0 va) v) (q + 8 * PX 0 vb) = read64 m (q + 8 * PX 0 vb)"
      using al by (intro read64_write64_page_other [of q p] cell_in_page unat_PX_less)
    then show ?thesis using nd 1 Some assms(2) by (auto simp: pte_of_def pte_slot_def simp del: node.simps)
  next
    case 2
    then have "read64 (write64 m (p + 8 * PX 0 va) v) (q + 8 * PX 0 vb) = read64 m (q + 8 * PX 0 vb)"
      using al by (simp add: read64_cell_other unat_PX_less)
    then show ?thesis using nd 2 Some by (auto simp: pte_of_def pte_slot_def simp del: node.simps)
  next
    case 3
    then have "[PX 2 vb, PX 1 vb] = [PX 2 va, PX 1 va]"
      using pt_wf_inj [OF assms(1) va_path va_path] Some assms(2) by blast
    then show ?thesis using nd 3 by (simp add: pte_of_def pte_slot_def del: node.simps)
  qed
qed

text \<open>Linking a zeroed page into a free entry of an interior page adds that page and changes no leaf entry.\<close>

definition link_page :: "store \<Rightarrow> u64 \<Rightarrow> u64 \<Rightarrow> u64 \<Rightarrow> store" where
  "link_page m p i q = write64 (memset m q 0 4096) (p + 8 * i) (PA2PTE q OR PTE_V)"

lemma PTE2PA_link: "aligned 4096 q \<Longrightarrow> PTE2PA (PA2PTE q OR PTE_V) = q"
  by (rule PTE2PA_flags) simp_all

lemma link_valid: "(v OR PTE_V) AND PTE_V \<noteq> 0"
proof
  assume "(v OR PTE_V) AND PTE_V = 0"
  then have "bit ((v OR PTE_V) AND PTE_V) 0 = bit (0 :: u64) 0" by (simp only:)
  then show False by (simp add: bit_and_iff bit_or_iff bit_1_iff del: bit_0)
qed

lemma zero_page_read:
  assumes "aligned 4096 q" and "\<And>x. in_page q x \<Longrightarrow> m x = 0" and "unat i < 512"
  shows "read64 m (q + 8 * i) = 0"
proof -
  have "read64 m (q + 8 * i) = read64 (\<lambda>_. 0) (q + 8 * i)"
    by (rule read64_same_page [OF assms(1) cell_in_page [OF assms(3)]]) (simp add: assms(2))
  also have "\<dots> = 0" by (simp add: read64_def of_bytes_def upt_rec)
  finally show ?thesis .
qed

lemma link_page_other:
  assumes "aligned 4096 p" and "aligned 4096 q" and "aligned 4096 r" and "r \<noteq> q" and "unat i < 512" and "unat k < 512"
    and "r \<noteq> p \<or> k \<noteq> i"
  shows "read64 (link_page m p i q) (r + 8 * k) = read64 m (r + 8 * k)"
proof -
  have "read64 (link_page m p i q) (r + 8 * k) = read64 (memset m q 0 4096) (r + 8 * k)"
  proof (cases "r = p")
    case True
    with assms show ?thesis by (auto simp: link_page_def intro: read64_cell_other)
  next
    case False
    then show ?thesis unfolding link_page_def
      by (rule read64_write64_page_other [OF assms(3,1) _ cell_in_page [OF assms(6)] cell_in_page [OF assms(5)]])
  qed
  also have "\<dots> = read64 m (r + 8 * k)"
    by (rule read64_memset_page_other [OF assms(3,2,4) cell_in_page [OF assms(6)]])
  finally show ?thesis .
qed

lemma link_page_new:
  assumes "aligned 4096 p" and "aligned 4096 q" and "p \<noteq> q" and "unat i < 512" and "in_page q x"
  shows "link_page m p i q x = 0"
proof -
  have "\<not> in_page p x" using in_page_disjoint [of q p x] assms by blast
  then have "link_page m p i q x = memset m q 0 4096 x"
    unfolding link_page_def by (rule write64_in_page [OF assms(1) cell_in_page [OF assms(4)]])
  then show ?thesis using assms(5) by (simp add: memset_page_apply)
qed

lemma link_page_frame:
  assumes "aligned 4096 p" and "unat i < 512" and "\<not> in_page p x" and "\<not> in_page q x"
  shows "link_page m p i q x = m x"
  using write64_in_page [OF assms(1) cell_in_page [OF assms(2)] assms(3)] assms(4)
  by (simp add: link_page_def memset_page_apply)

lemma prefix_snoc_cases:
  assumes "prefix (is @ [i]) js" and "length js \<le> 2"
  shows "js = is @ [i] \<or> (is = [] \<and> (\<exists>j. js = [i, j]))"
proof -
  from assms(1) obtain zs where js: "js = is @ i # zs" by (auto simp: prefix_def)
  show ?thesis
  proof (cases zs)
    case (Cons z zs')
    then show ?thesis using js assms(2) by simp
  qed (simp add: js)
qed

lemma node_link_page:
  assumes wf: "pt_wf m e root" and "is": "pt_path (is @ [i])" and nd: "node m root is = Some p"
    and free: "entry m p i = None" and q: "page_ok e q" "q \<notin> pt_pages m root" and js: "pt_path js"
  shows "node (link_page m p i q) root js = (if js = is @ [i] then Some q else node m root js)"
proof -
  let ?m = "link_page m p i q"
  have path: "pt_path is" and i: "unat i < 512" using "is" by (auto simp: pt_path_snoc)
  have al: "aligned 4096 p" "aligned 4096 q" using pt_wf_page [OF wf path nd] q by (auto simp: page_ok_def)
  have pq: "p \<noteq> q" using q(2) path nd by (auto simp: pt_pages_def)
  have keep: "node ?m root ks = node m root ks" if "\<not> prefix (is @ [i]) ks" "pt_path ks" for ks
  proof (rule node_same)
    fix ls l r assume ls: "prefix (ls @ [l]) ks" and r: "node m root ls = Some r"
    from pt_path_prefix [OF ls that(2)] have pl: "pt_path ls" "unat l < 512" by (auto simp: pt_path_snoc)
    have "r \<noteq> q" using q(2) pl r by (auto simp: pt_pages_def)
    moreover have "r \<noteq> p \<or> l \<noteq> i" using pt_wf_inj [OF wf path pl(1) nd] r ls that(1) by auto
    ultimately have "read64 ?m (r + 8 * l) = read64 m (r + 8 * l)"
      using link_page_other [OF al] pt_wf_page [OF wf pl(1) r] i pl(2) by (auto simp: page_ok_def)
    then show "entry ?m r l = entry m r l" by (simp add: entry_def)
  qed
  have nd': "node ?m root is = Some p" using keep [of "is"] path nd by simp
  have "read64 ?m (p + 8 * i) = PA2PTE q OR PTE_V" by (simp add: link_page_def)
  then have e: "entry ?m p i = Some q" by (simp add: entry_def link_valid PTE2PA_link al)
  have z: "entry ?m q j = None" if "unat j < 512" for j
    using zero_page_read [OF al(2) _ that, of ?m] link_page_new [OF al pq i] by (simp add: entry_def)
  consider "\<not> prefix (is @ [i]) js" | "js = is @ [i]" | j where "is = []" "js = [i, j]"
    using prefix_snoc_cases js by (metis pt_path_def)
  then show ?thesis
  proof cases
    case 1
    then show ?thesis using keep js by auto
  next
    case 2
    then show ?thesis using nd' e by (simp add: node_snoc)
  next
    case 3
    moreover have "unat j < 512" using js 3 by (simp add: pt_path_def)
    ultimately show ?thesis using nd' e z free nd by simp
  qed
qed

lemma link_page_tree:
  assumes wf: "pt_wf m e root" and "is": "pt_path (is @ [i])" and nd: "node m root is = Some p"
    and free: "entry m p i = None" and q: "page_ok e q" "q \<notin> pt_pages m root"
  shows "pt_pages (link_page m p i q) root = insert q (pt_pages m root)"
    and "pt_wf (link_page m p i q) e root"
    and "pte_of (link_page m p i q) root va = pte_of m root va"
proof -
  let ?m = "link_page m p i q"
  note N = node_link_page [OF assms]
  have path: "pt_path is" "length is \<le> 1" and i: "unat i < 512" using "is" by (auto simp: pt_path_snoc)
  have al: "aligned 4096 p" "aligned 4096 q" using pt_wf_page [OF wf path(1) nd] q by (auto simp: page_ok_def)
  have pq: "p \<noteq> q" using q(2) path nd by (auto simp: pt_pages_def)
  have old: "node m root (is @ [i]) = None" using nd free by (simp add: node_snoc)
  show "pt_pages ?m root = insert q (pt_pages m root)"
    unfolding pt_pages_def using N "is" old by (auto split: if_splits) (metis option.distinct(1))
  show "pt_wf ?m e root"
    unfolding pt_wf_def
  proof (intro conjI allI impI)
    fix js r assume "pt_path js" "node ?m root js = Some r"
    then show "page_ok e r" using N q(1) pt_wf_page [OF wf] by (auto split: if_splits)
  next
    fix js ks r assume "pt_path js" "pt_path ks" "node ?m root js = Some r" "node ?m root ks = Some r"
    then show "js = ks" using N q(2) pt_wf_inj [OF wf] by (auto split: if_splits simp: pt_pages_def)
  qed
  let ?js = "[PX 2 va, PX 1 va]"
  show "pte_of ?m root va = pte_of m root va"
  proof (cases "?js = is @ [i]")
    case True
    have "read64 ?m (q + 8 * PX 0 va) = 0"
      by (rule zero_page_read [OF al(2) _ unat_PX_less]) (rule link_page_new [OF al pq i])
    moreover have "node m root ?js = None" by (simp only: True old)
    moreover have "node ?m root ?js = Some q" using N [OF va_path [of va]] True by (simp only: if_True simp_thms)
    ultimately show ?thesis by (simp only: pte_of_node option.simps)
  next
    case False
    then have nj: "node ?m root ?js = node m root ?js" using N [OF va_path [of va]] by (simp only: if_False)
    show ?thesis
    proof (cases "node m root ?js")
      case None
      then show ?thesis using nj by (simp only: pte_of_node option.simps)
    next
      case (Some r)
      have "r \<noteq> q" using q(2) pt_pagesI [OF va_path Some] by blast
      moreover have "r \<noteq> p"
      proof
        assume "r = p"
        with Some have "node m root ?js = Some p" by (simp only:)
        then have "is = ?js" by (rule pt_wf_inj [OF wf path(1) va_path nd])
        then show False using path(2) by simp
      qed
      ultimately have "read64 ?m (r + 8 * PX 0 va) = read64 m (r + 8 * PX 0 va)"
        using link_page_other [OF al _ _ i unat_PX_less] pt_wf_page [OF wf va_path Some] by (simp add: page_ok_def)
      then show ?thesis using nj Some by (simp only: pte_of_node option.simps)
    qed
  qed
qed

lemma freelist_mem_update: "s\<lparr>freelist := f, mem := m\<rparr> = s\<lparr>mem := m, freelist := f\<rparr>"
  by simp

section \<open>Address spaces and \<open>walk\<close>\<close>

text \<open>A page table and the free list, with no page in both.\<close>

definition addr_space :: "'x kmem_state_scheme \<Rightarrow> u64 \<Rightarrow> u64 list \<Rightarrow> bool" where
  "addr_space s root fs \<longleftrightarrow> kmem_pages s fs \<and> pt_wf (mem s) (kend s) root \<and> pt_pages (mem s) root \<inter> set fs = {}"

definition hw_quiet :: "hw \<Rightarrow> hw \<Rightarrow> bool" where
  "hw_quiet h h' \<longleftrightarrow> h' = h \<or> h' = lock_cycle h"

text \<open>
  A step that only moves the first pages of the free list into the table: nothing outside the table's
  pages and the free pages changes.
\<close>

definition vm_step :: "u64 \<Rightarrow> 'x kmem_state_scheme \<Rightarrow> u64 list \<Rightarrow> 'x kmem_state_scheme \<Rightarrow> u64 list \<Rightarrow> bool" where
  "vm_step root s fs t gs \<longleftrightarrow> addr_space t root gs \<and>
     (\<exists>h m f. hw_quiet (hw s) h \<and> t = s\<lparr>hw := h, mem := m, freelist := f\<rparr>) \<and>
     (\<exists>k. gs = drop k fs) \<and> pt_pages (mem t) root = pt_pages (mem s) root \<union> (set fs - set gs) \<and>
     (\<forall>x. (\<forall>p\<in>pt_pages (mem s) root \<union> set fs. \<not> in_page p x) \<longrightarrow> mem t x = mem s x)"

lemma hw_quiet_refl [simp]: "hw_quiet h h"
  by (simp add: hw_quiet_def)

lemma hw_quiet_cycle [simp]: "hw_quiet h (lock_cycle h)"
  by (simp add: hw_quiet_def)

lemma hw_quiet_trans: "hw_quiet h i \<Longrightarrow> hw_quiet i j \<Longrightarrow> hw_quiet h j"
  by (auto simp: hw_quiet_def)

lemma vm_step_kend: "vm_step root s fs t gs \<Longrightarrow> kend t = kend s"
  by (auto simp: vm_step_def)

lemma vm_step_refl: "addr_space s root fs \<Longrightarrow> vm_step root s fs s fs"
  unfolding vm_step_def by (auto intro!: exI [of _ "hw s"] exI [of _ "mem s"] exI [of _ "freelist s"] exI [of _ "0 :: nat"])

lemma vm_step_trans:
  assumes "vm_step root s fs t gs" and "vm_step root t gs u hs"
  shows "vm_step root s fs u hs"
proof -
  from assms obtain h m f h' m' f' k k' where
    t: "t = s\<lparr>hw := h, mem := m, freelist := f\<rparr>" "hw_quiet (hw s) h" "gs = drop k fs" and
    u: "u = t\<lparr>hw := h', mem := m', freelist := f'\<rparr>" "hw_quiet (hw t) h'" "hs = drop k' gs"
    by (auto simp: vm_step_def)
  have sub: "set gs \<subseteq> set fs" "set hs \<subseteq> set gs" unfolding t(3) u(3) by (rule set_drop_subset)+
  show ?thesis
    unfolding vm_step_def
  proof (intro conjI)
    show "addr_space u root hs" using assms(2) by (simp add: vm_step_def)
    show "\<exists>h m f. hw_quiet (hw s) h \<and> u = s\<lparr>hw := h, mem := m, freelist := f\<rparr>"
      using t u hw_quiet_trans [of "hw s" h h'] by (intro exI [of _ h'] exI [of _ m'] exI [of _ f']) simp
    show "\<exists>k. hs = drop k fs" using t(3) u(3) by auto
    show "pt_pages (mem u) root = pt_pages (mem s) root \<union> (set fs - set hs)"
      using assms sub unfolding vm_step_def by blast
    show "\<forall>x. (\<forall>p\<in>pt_pages (mem s) root \<union> set fs. \<not> in_page p x) \<longrightarrow> mem u x = mem s x"
    proof (intro allI impI)
      fix x assume x: "\<forall>p\<in>pt_pages (mem s) root \<union> set fs. \<not> in_page p x"
      then have "mem t x = mem s x" using assms(1) by (simp add: vm_step_def)
      moreover have "\<forall>p\<in>pt_pages (mem t) root \<union> set gs. \<not> in_page p x"
        using x assms(1) sub unfolding vm_step_def by blast
      then have "mem u x = mem t x" using assms(2) by (simp add: vm_step_def)
      ultimately show "mem u x = mem s x" by simp
    qed
  qed
qed

lemma addr_space_link:
  assumes as: "addr_space s root (q # fs)" and "is": "pt_path (is @ [i])" and nd: "node (mem s) root is = Some p"
    and free: "entry (mem s) p i = None"
  defines "t \<equiv> s\<lparr>hw := lock_cycle (hw s), mem := link_page (memset (mem s) q 5 4096) p i q, freelist := read64 (mem s) q\<rparr>"
  shows "vm_step root s (q # fs) t fs" and "node (mem t) root (is @ [i]) = Some q"
    and "pte_of (mem t) root va = pte_of (mem s) root va"
proof -
  let ?m = "memset (mem s) q 5 4096"
  have path: "pt_path is" and i: "unat i < 512" using "is" by (auto simp: pt_path_snoc)
  have wf: "pt_wf (mem s) (kend s) root" and km: "kmem_pages s (q # fs)" and dis: "q \<notin> pt_pages (mem s) root"
    "pt_pages (mem s) root \<inter> set fs = {}" using as by (auto simp: addr_space_def)
  have q: "page_ok (kend s) q" "aligned 4096 q" and fs: "\<And>r. r \<in> set fs \<Longrightarrow> aligned 4096 r \<and> r \<noteq> q"
    using km by (auto simp: kmem_pages_def page_ok_def)
  have al: "aligned 4096 r" if "r \<in> pt_pages (mem s) root" for r
    using that pt_wf_page [OF wf] by (auto simp: pt_pages_def page_ok_def)
  have p: "p \<in> pt_pages (mem s) root" using path nd by (rule pt_pagesI)
  have fr: "?m x = mem s x" if "r \<in> pt_pages (mem s) root" "in_page r x" for r x
    using in_page_disjoint [OF al [OF that(1)] q(2) _ that(2)] that dis by (auto simp: memset_page_apply)
  have m: "pt_pages ?m root = pt_pages (mem s) root" "pt_wf ?m (kend s) root"
    using pt_pages_frame [OF wf, of ?m] fr by blast+
  have nm: "node ?m root is = Some p" using node_frame [OF wf _ path, of ?m] fr nd by simp
  have em: "entry ?m p i = None" using entry_same_page [OF al [OF p] i, of ?m "mem s"] fr [OF p] free by simp
  note L = link_page_tree [OF m(2) "is" nm em q(1)] node_link_page [OF m(2) "is" nm em q(1) _ "is"]
  have ch: "chain (link_page ?m p i q) (read64 (mem s) q) fs"
    using kmem_alloc_first [OF km]
  proof (elim conjE)
    assume "kmem_pages (s\<lparr>hw := lock_cycle (hw s), mem := ?m, freelist := read64 (mem s) q\<rparr>) fs"
    then have "chain ?m (read64 (mem s) q) fs" by (simp add: kmem_pages_def)
    then show ?thesis
    proof (rule chain_cong [rotated])
      fix r assume r: "r \<in> set fs"
      then have "r \<noteq> p" using dis p by blast
      then show "read64 ?m r = read64 (link_page ?m p i q) r"
        using link_page_other [OF al [OF p] q(2), of r i 0 ?m] fs [OF r] i by simp
    qed
  qed
  show "vm_step root s (q # fs) t fs"
    unfolding vm_step_def
  proof (intro conjI)
    show "addr_space t root fs"
      using L(1,2) m dis km ch fs by (auto simp: addr_space_def kmem_pages_def t_def)
    show "\<exists>h m f. hw_quiet (hw s) h \<and> t = s\<lparr>hw := h, mem := m, freelist := f\<rparr>"
      unfolding t_def using hw_quiet_cycle by blast
    show "\<exists>k. fs = drop k (q # fs)" by (rule exI [of _ 1]) simp
    show "pt_pages (mem t) root = pt_pages (mem s) root \<union> (set (q # fs) - set fs)"
      using L(1) m(1) dis fs by (auto simp: t_def)
    show "\<forall>x. (\<forall>p\<in>pt_pages (mem s) root \<union> set (q # fs). \<not> in_page p x) \<longrightarrow> mem t x = mem s x"
      using link_page_frame [OF al [OF p] i, of _ q ?m] p by (auto simp: t_def memset_page_apply)
  qed
  show "node (mem t) root (is @ [i]) = Some q" using L(4) m(1) dis by (simp add: t_def)
  show "pte_of (mem t) root va = pte_of (mem s) root va"
    using L(3) m(1) dis pte_of_frame [OF wf, of ?m] fr by (simp add: t_def)
qed

lemma walk_level_child:
  assumes as: "addr_space s root fs" and "is": "pt_path (is @ [PX (Suc l) va])" and nd: "node (mem s) root is = Some p"
  obtains (down) q t gs where "walk_level (Suc l) p va True s = walk_level l q va True t"
      and "node (mem t) root (is @ [PX (Suc l) va]) = Some q" and "vm_step root s fs t gs" and "length fs \<le> length gs + 1"
      and "\<And>vb. pte_of (mem t) root vb = pte_of (mem s) root vb"
  | (full) t where "walk_level (Suc l) p va True s = Ok 0 t" and "fs = []" and "vm_step root s fs t []"
      and "\<And>vb. pte_of (mem t) root vb = pte_of (mem s) root vb"
proof (cases "entry (mem s) p (PX (Suc l) va)")
  case (Some q)
  then have "walk_level (Suc l) p va True s = walk_level l q va True s"
    by (auto simp: entry_def kop split: if_splits)
  then show ?thesis using Some nd vm_step_refl [OF as] by (intro down [of q s fs]) (simp_all add: node_snoc)
next
  case None
  then have inv: "read64 (mem s) (p + 8 * PX (Suc l) va) AND PTE_V = 0" by (auto simp: entry_def split: if_splits)
  show ?thesis
  proof (cases fs)
    case Nil
    have ff: "freelist s = 0" "lk_free Lk_kmem (hw s)" "intr_ok (hw s)" using as Nil by (auto simp: addr_space_def kmem_pages_def)
    let ?t = "s\<lparr>hw := lock_cycle (hw s)\<rparr>"
    have w: "walk_level (Suc l) p va True s = Ok 0 ?t" using inv ff by (simp add: kop kalloc_empty)
    have st: "vm_step root s fs ?t []"
      using as Nil unfolding vm_step_def addr_space_def kmem_pages_def
      by (auto intro!: exI [of _ "lock_cycle (hw s)"] exI [of _ "mem s"] exI [of _ "freelist s"])
    show ?thesis by (rule full [OF w Nil st]) simp
  next
    case (Cons q gs)
    let ?t = "s\<lparr>hw := lock_cycle (hw s), mem := link_page (memset (mem s) q 5 4096) p (PX (Suc l) va) q,
      freelist := read64 (mem s) q\<rparr>"
    have km: "kmem_pages s (q # gs)" using as Cons by (simp add: addr_space_def)
    then have "q \<noteq> 0" by (simp add: kmem_pages_def)
    then have w: "walk_level (Suc l) p va True s = walk_level l q va True ?t"
      using inv kmem_alloc_first [OF km] by (simp add: kop link_page_def freelist_mem_update)
    note L = addr_space_link [OF as [unfolded Cons] "is" nd None]
    show ?thesis by (rule down [OF w L(2) L(1) [folded Cons] _ L(3)]) (simp add: Cons)
  qed
qed

lemma walk_alloc:
  assumes as: "addr_space s root fs" and va: "va < MAXVA"
  obtains a t gs where "walk root va True s = Ok a t" and "vm_step root s fs t gs"
    and "\<And>vb. pte_of (mem t) root vb = pte_of (mem s) root vb"
    and "length fs \<le> length gs + 2" and "a = 0 \<and> gs = [] \<or> a \<noteq> 0 \<and> pte_slot (mem t) root va = Some a"
proof -
  have w: "walk root va True s = walk_level (Suc 1) root va True s"
    using va by (simp add: walk_def andthen_apply not_le numeral_2_eq_2)
  have p2: "pt_path ([] @ [PX (Suc 1) va])" and nd: "node (mem s) root [] = Some root"
    by (simp_all add: pt_path_def unat_PX_less)
  from as p2 nd show ?thesis
  proof (cases rule: walk_level_child)
    case (full t)
    then show ?thesis using w by (intro that [of 0 t "[]"]) simp_all
  next
    case (down q t gs)
    have as': "addr_space t root gs" using down(3) by (simp add: vm_step_def)
    have p1: "pt_path (([] @ [PX (Suc 1) va]) @ [PX (Suc 0) va])" by (simp add: pt_path_def unat_PX_less)
    from as' p1 down(2) show ?thesis
    proof (cases rule: walk_level_child)
      case (full u)
      then show ?thesis using w down vm_step_trans [OF down(3) full(3)]
        by (intro that [of 0 u "[]"]) simp_all
    next
      case (down r u hs)
      note d2 = down
      have st: "vm_step root s fs u hs" by (rule vm_step_trans [OF \<open>vm_step root s fs t gs\<close> d2(3)])
      have nr: "node (mem u) root [PX 2 va, PX 1 va] = Some r" using d2(2) by (simp add: eval_nat_numeral)
      then have ok: "page_ok (kend u) r"
        using st pt_wf_page [OF _ va_path] by (auto simp: vm_step_def addr_space_def simp del: node.simps)
      have "r \<noteq> 0" using ok by (simp add: page_ok_def)
      then have "0 < unat r" by (simp add: unat_gt_0)
      then have "r + 8 * PX 0 va \<noteq> 0"
        using unat_cell [OF page_ok_aligned [OF ok] unat_PX_less [of 0 va]] by force
      then show ?thesis
        using w d2 \<open>walk_level (Suc 1) root va True s = walk_level 1 q va True t\<close> st nr
          \<open>length fs \<le> length gs + 1\<close> \<open>\<And>vb. pte_of (mem t) root vb = pte_of (mem s) root vb\<close>
        by (intro that [of "r + 8 * PX 0 va" u hs]) (simp_all add: pte_slot_def del: node.simps)
    qed
  qed
qed

section \<open>Mapping and unmapping pages\<close>

lemma unat_PX: "unat (PX l va) = unat va div 2 ^ (12 + 9 * l) mod 512"
proof -
  have "(0x1FF :: u64) = mask 9" by (simp add: mask_eq_exp_minus_1)
  then have "PX l va = take_bit 9 (drop_bit (12 + 9 * l) va)" unfolding PX_def by (simp only: take_bit_eq_mask)
  then have "unat (PX l va) = take_bit 9 (unat (drop_bit (12 + 9 * l) va))"
    by (simp only: unsigned_take_bit_eq)
  then show ?thesis unfolding unat_drop_bit_eq by (simp add: drop_bit_eq_div take_bit_eq_mod)
qed

lemma unat_PX_page: "unat (PX l va) = unat va div 4096 div 512 ^ l mod 512"
proof -
  have "(2 :: nat) ^ (12 + 9 * l) = 4096 * 512 ^ l" by (simp add: power_add power_mult)
  then show ?thesis unfolding unat_PX by (simp only: div_mult2_eq)
qed

lemma PX_PGROUNDDOWN [simp]: "PX l (PGROUNDDOWN va) = PX l va"
proof -
  have "unat (PX l (PGROUNDDOWN va)) = unat (PX l va)" by (simp add: unat_PX_page unat_PGROUNDDOWN)
  then show ?thesis by (rule unsigned_word_eqI)
qed

lemma digits3_inj:
  fixes x y :: nat
  assumes "x < 134217728" and "y < 134217728" and "x mod 512 = y mod 512" and "x div 512 mod 512 = y div 512 mod 512"
    and "x div 262144 mod 512 = y div 262144 mod 512"
  shows "x = y"
proof -
  have h: "z div 262144 mod 512 = z div 512 div 512" if "z < 134217728" for z :: nat
  proof -
    have "z div 262144 < 512" using that by (simp add: less_mult_imp_div_less)
    then show ?thesis by (simp flip: div_mult2_eq)
  qed
  have "x div 512 div 512 = y div 512 div 512" using assms(5) unfolding h [OF assms(1)] h [OF assms(2)] .
  then have "x div 512 = y div 512" using assms(4) by (metis div_mult_mod_eq)
  then show ?thesis using assms(3) by (metis div_mult_mod_eq)
qed

lemma PX_eq_page:
  assumes "va < MAXVA" and "vb < MAXVA" and "PX 2 va = PX 2 vb" and "PX 1 va = PX 1 vb" and "PX 0 va = PX 0 vb"
  shows "PGROUNDDOWN va = PGROUNDDOWN vb"
proof -
  have "unat va div 4096 = unat vb div 4096"
  proof (rule digits3_inj)
    show "unat va div 4096 < 134217728" "unat vb div 4096 < 134217728"
      using assms(1,2) by (simp_all add: less_mult_imp_div_less word_less_nat_alt)
    show "unat va div 4096 mod 512 = unat vb div 4096 mod 512"
      using unat_PX_page [of 0 va] unat_PX_page [of 0 vb] assms(5) by simp
    show "unat va div 4096 div 512 mod 512 = unat vb div 4096 div 512 mod 512"
      using unat_PX_page [of 1 va] unat_PX_page [of 1 vb] assms(4) by simp
    show "unat va div 4096 div 262144 mod 512 = unat vb div 4096 div 262144 mod 512"
      using unat_PX_page [of 2 va] unat_PX_page [of 2 vb] assms(3) by simp
  qed
  then have "unat (PGROUNDDOWN va) = unat (PGROUNDDOWN vb)" by (simp only: unat_PGROUNDDOWN)
  then show ?thesis by (rule unsigned_word_eqI)
qed

lemma pte_of_page: "pte_of m root (PGROUNDDOWN va) = pte_of m root va"
  by (simp add: pte_of_def pte_slot_def)

lemma pte_slot_Some:
  assumes "pte_slot m root va = Some a"
  obtains p where "node m root [PX 2 va, PX 1 va] = Some p" and "a = p + 8 * PX 0 va"
  using assms by (auto simp: pte_slot_def simp del: node.simps)

lemma addr_space_leaf:
  assumes as: "addr_space s root fs" and slot: "pte_slot (mem s) root va = Some a" and va: "va < MAXVA"
  shows "vm_step root s fs (s\<lparr>mem := write64 (mem s) a v\<rparr>) fs"
    and "vb < MAXVA \<Longrightarrow> pte_of (write64 (mem s) a v) root vb =
      (if PGROUNDDOWN vb = PGROUNDDOWN va then v else pte_of (mem s) root vb)"
proof -
  let ?m = "write64 (mem s) a v"
  from slot obtain p where nd: "node (mem s) root [PX 2 va, PX 1 va] = Some p" and a: "a = p + 8 * PX 0 va"
    by (rule pte_slot_Some)
  have wf: "pt_wf (mem s) (kend s) root" and km: "kmem_pages s fs" and dis: "pt_pages (mem s) root \<inter> set fs = {}"
    using as by (auto simp: addr_space_def)
  have al: "aligned 4096 p" using pt_wf_page [OF wf va_path nd] by (simp add: page_ok_def)
  have p: "p \<in> pt_pages (mem s) root" by (rule pt_pagesI [OF va_path nd])
  have N: "node ?m root js = node (mem s) root js" if "pt_path js" for js
    unfolding a by (rule node_leaf_write [OF wf va_path _ nd unat_PX_less that]) simp
  have pp: "pt_pages ?m root = pt_pages (mem s) root" using N by (auto simp: pt_pages_def)
  have wf': "pt_wf ?m (kend s) root" using wf N by (auto simp: pt_wf_def)
  have ch: "chain ?m (freelist s) fs"
  proof (rule chain_cong)
    show "chain (mem s) (freelist s) fs" using km by (simp add: kmem_pages_def)
    fix q assume q: "q \<in> set fs"
    then have "q \<noteq> p" "aligned 4096 q" using dis p km by (auto simp: kmem_pages_def page_ok_def)
    then show "read64 (mem s) q = read64 ?m q"
      unfolding a using read64_write64_page_other [OF _ al _ _ cell_in_page [OF unat_PX_less], of q q] by simp
  qed
  have "mem s x = ?m x" if "\<not> in_page p x" for x
    unfolding a using write64_in_page [OF al cell_in_page [OF unat_PX_less] that] by simp
  then show "vm_step root s fs (s\<lparr>mem := ?m\<rparr>) fs"
    using km wf' pp dis ch p unfolding vm_step_def addr_space_def kmem_pages_def
    by (auto intro!: exI [of _ "hw s"] exI [of _ ?m] exI [of _ "freelist s"] exI [of _ "0 :: nat"])
  show "pte_of ?m root vb = (if PGROUNDDOWN vb = PGROUNDDOWN va then v else pte_of (mem s) root vb)" if "vb < MAXVA"
  proof (cases "PGROUNDDOWN vb = PGROUNDDOWN va")
    case True
    then have "\<And>l. PX l vb = PX l va" by (metis PX_PGROUNDDOWN)
    then show ?thesis using pte_of_leaf_write [OF wf nd, of v vb] True unfolding a by simp
  next
    case False
    then have "\<not> (PX 2 vb = PX 2 va \<and> PX 1 vb = PX 1 va \<and> PX 0 vb = PX 0 va)"
      using PX_eq_page [OF that va] by blast
    then show ?thesis using pte_of_leaf_write [OF wf nd, of v vb] False unfolding a by (simp only: if_False)
  qed
qed

text \<open>\<open>mappages\<close> maps exactly the pages asked for, or runs out of memory having mapped the first of them.\<close>

definition vpage :: "u64 \<Rightarrow> nat \<Rightarrow> u64" where
  "vpage a j = a + of_nat (4096 * j)"

definition mapped_range :: "store \<Rightarrow> store \<Rightarrow> u64 \<Rightarrow> u64 \<Rightarrow> nat \<Rightarrow> (nat \<Rightarrow> u64) \<Rightarrow> bool" where
  "mapped_range m m' root a n f \<longleftrightarrow>
     (\<forall>j<n. pte_of m' root (vpage a j) = f j) \<and>
     (\<forall>vb<MAXVA. (\<forall>j<n. PGROUNDDOWN vb \<noteq> vpage a j) \<longrightarrow> pte_of m' root vb = pte_of m root vb)"

lemma unat_vpage:
  assumes "unat a + 4096 * n \<le> 274877906944" and "j \<le> n"
  shows "unat (vpage a j) = unat a + 4096 * j"
proof -
  have "4096 * j < 2 ^ 64" using assms by simp
  moreover have "unat a + 4096 * j < 2 ^ 64" using assms by simp
  ultimately show ?thesis by (simp add: vpage_def unat_word_ariths unat_of_nat)
qed

lemma vpage_Suc: "vpage a (Suc j) = vpage (a + 4096) j"
  by (simp add: vpage_def algebra_simps)

lemma vpage_aligned:
  assumes "aligned 4096 a" and "unat a + 4096 * n \<le> 274877906944" and "j \<le> n"
  shows "aligned 4096 (vpage a j)"
  using assms by (simp add: aligned_def unat_vpage)

lemma map_one:
  assumes as: "addr_space s root fs" and a: "aligned 4096 a" "a < MAXVA" and free: "pte_of (mem s) root a AND PTE_V = 0"
  obtains (cont) t gs where "mappages_loop root a l pa perm s =
        (if a = l then Ok 0 t else mappages_loop root (a + PGSIZE) l (pa + PGSIZE) perm t)"
      and "vm_step root s fs t gs" and "length fs \<le> length gs + 2"
      and "\<And>vb. vb < MAXVA \<Longrightarrow> pte_of (mem t) root vb =
        (if PGROUNDDOWN vb = a then PA2PTE pa OR perm OR PTE_V else pte_of (mem s) root vb)"
  | (full) t where "mappages_loop root a l pa perm s = Ok (- 1) t" and "vm_step root s fs t []" and "length fs \<le> 2"
      and "\<And>vb. pte_of (mem t) root vb = pte_of (mem s) root vb"
proof -
  obtain b t gs where w: "walk root a True s = Ok b t" "vm_step root s fs t gs" "length fs \<le> length gs + 2"
    and same: "\<And>vb. pte_of (mem t) root vb = pte_of (mem s) root vb"
    and b: "b = 0 \<and> gs = [] \<or> b \<noteq> 0 \<and> pte_slot (mem t) root a = Some b"
    by (rule walk_alloc [OF as a(2)]) metis
  show ?thesis
  proof (cases "b = 0")
    case True
    then have "mappages_loop root a l pa perm s = Ok (- 1) t"
      using w(1) by (simp add: mappages_loop.simps [of root a] bind_apply)
    then show ?thesis using True b w same by (intro full [of t]) auto
  next
    case False
    then have slot: "pte_slot (mem t) root a = Some b" using b by simp
    have as': "addr_space t root gs" using w(2) by (simp add: vm_step_def)
    have "read64 (mem t) b = pte_of (mem t) root a" using slot by (simp add: pte_of_def)
    then have "read64 (mem t) b AND PTE_V = 0" using free same by simp
    moreover define u where "u = t\<lparr>mem := write64 (mem t) b (PA2PTE pa OR perm OR PTE_V)\<rparr>"
    ultimately have run: "mappages_loop root a l pa perm s =
        (if a = l then Ok 0 u else mappages_loop root (a + PGSIZE) l (pa + PGSIZE) perm u)"
      using w(1) False by (simp add: mappages_loop.simps [of root a] bind_apply andthen_apply)
    note L = addr_space_leaf [OF as' slot a(2), where v = "PA2PTE pa OR perm OR PTE_V"]
    have st: "vm_step root s fs u gs" using vm_step_trans [OF w(2) L(1)] by (simp add: u_def)
    have "mem u = write64 (mem t) b (PA2PTE pa OR perm OR PTE_V)" by (simp add: u_def)
    then show ?thesis using run st w(3) L(2) a(1) same by (intro cont [of u gs]) simp_all
  qed
qed

lemma mapped_range_0: "(\<And>vb. pte_of m' root vb = pte_of m root vb) \<Longrightarrow> mapped_range m m' root a 0 f"
  by (simp add: mapped_range_def)

lemma mapped_range_Suc:
  assumes first: "\<And>vb. vb < MAXVA \<Longrightarrow> pte_of m' root vb = (if PGROUNDDOWN vb = a then f 0 else pte_of m root vb)"
    and rest: "mapped_range m' m'' root (a + 4096) n (\<lambda>j. f (Suc j))"
    and a: "aligned 4096 a" "unat a + 4096 * Suc n \<le> 274877906944"
  shows "mapped_range m m'' root a (Suc n) f"
  unfolding mapped_range_def
proof (intro conjI allI impI)
  fix j assume j: "j < Suc n"
  show "pte_of m'' root (vpage a j) = f j"
  proof (cases j)
    case 0
    have am: "a < MAXVA" using a(2) by (simp add: word_less_nat_alt)
    have "PGROUNDDOWN a \<noteq> vpage (a + 4096) i" if "i < n" for i
    proof -
      have "unat (vpage (a + 4096) i) = unat a + 4096 * Suc i"
        using unat_vpage [OF a(2), of "Suc i"] that by (simp add: vpage_Suc)
      then show ?thesis using a(1) by auto
    qed
    then have "pte_of m'' root a = pte_of m' root a" using rest am by (simp add: mapped_range_def)
    then show ?thesis using first [OF am] a(1) 0 by (simp add: vpage_def)
  next
    case (Suc i)
    then show ?thesis using rest j by (simp add: mapped_range_def vpage_Suc)
  qed
next
  fix vb assume vb: "vb < MAXVA" and out: "\<forall>j<Suc n. PGROUNDDOWN vb \<noteq> vpage a j"
  have "PGROUNDDOWN vb \<noteq> a" using out [rule_format, of 0] by (simp add: vpage_def)
  moreover have "\<forall>j<n. PGROUNDDOWN vb \<noteq> vpage (a + 4096) j" using out by (auto simp flip: vpage_Suc)
  ultimately show "pte_of m'' root vb = pte_of m root vb" using rest first vb by (simp add: mapped_range_def)
qed

lemma mappages_loop_spec:
  assumes "addr_space s root fs" and "aligned 4096 a" and "unat a + 4096 * Suc n \<le> 274877906944"
    and "\<forall>j\<le>n. pte_of (mem s) root (vpage a j) AND PTE_V = 0"
  shows "\<exists>r t gs k. mappages_loop root a (vpage a n) pa perm s = Ok r t \<and> vm_step root s fs t gs \<and>
    (r = 0 \<and> k = Suc n \<or> r = - 1 \<and> gs = [] \<and> k \<le> n) \<and> length fs \<le> length gs + 2 * Suc n \<and>
    mapped_range (mem s) (mem t) root a k (\<lambda>j. PA2PTE (vpage pa j) OR perm OR PTE_V)"
  using assms
proof (induction n arbitrary: s fs a pa)
  case 0
  have a: "a < MAXVA" using "0.prems"(3) by (simp add: word_less_nat_alt)
  have v: "pte_of (mem s) root a AND PTE_V = 0" using "0.prems"(4) by (simp add: vpage_def)
  from "0.prems"(1,2) a v show ?case
  proof (cases rule: map_one [where l = "vpage a 0" and pa = pa and perm = perm])
    case (cont t gs)
    have "mapped_range (mem s) (mem t) root a (Suc 0) (\<lambda>j. PA2PTE (vpage pa j) OR perm OR PTE_V)"
      using cont(4) "0.prems"(2,3) by (intro mapped_range_Suc [where m' = "mem t"] mapped_range_0) (simp_all add: vpage_def)
    then show ?thesis using cont by (intro exI [of _ 0] exI [of _ t] exI [of _ gs] exI [of _ "Suc 0"]) (simp add: vpage_def)
  next
    case (full t)
    then show ?thesis
      by (intro exI [of _ "- 1"] exI [of _ t] exI [of _ "[]"] exI [of _ "0 :: nat"]) (simp add: mapped_range_0)
  qed
next
  case (Suc n)
  have a: "a < MAXVA" using Suc.prems(3) by (simp add: word_less_nat_alt)
  have v: "pte_of (mem s) root a AND PTE_V = 0" using Suc.prems(4) by (auto simp: vpage_def dest: spec [of _ 0])
  have un: "unat (vpage a (Suc j)) = unat a + 4096 * Suc j" if "j \<le> Suc n" for j
    using unat_vpage [OF Suc.prems(3), of "Suc j"] that by simp
  have a1: "unat (a + 4096) = unat a + 4096" using un [of 0] by (simp add: vpage_def)
  from Suc.prems(1,2) a v show ?case
  proof (cases rule: map_one [where l = "vpage a (Suc n)" and pa = pa and perm = perm])
    case (cont t gs)
    have ne: "a \<noteq> vpage a (Suc n)" using un [of n] by auto
    have al: "aligned 4096 (a + 4096)" using Suc.prems(2) a1 by (simp add: aligned_def)
    have lim: "unat (a + 4096) + 4096 * Suc n \<le> 274877906944" using Suc.prems(3) a1 by simp
    have fr: "\<forall>j\<le>n. pte_of (mem t) root (vpage (a + 4096) j) AND PTE_V = 0"
    proof (intro allI impI)
      fix j assume j: "j \<le> n"
      have al': "aligned 4096 (vpage a (Suc j))" using vpage_aligned [OF Suc.prems(2,3)] j by simp
      have "vpage a (Suc j) < MAXVA" using un [of j] j Suc.prems(3) by (simp add: word_less_nat_alt)
      moreover have "vpage a (Suc j) \<noteq> a" using un [of j] j by auto
      ultimately have "pte_of (mem t) root (vpage a (Suc j)) = pte_of (mem s) root (vpage a (Suc j))"
        using cont(4) al' by simp
      then show "pte_of (mem t) root (vpage (a + 4096) j) AND PTE_V = 0" using Suc.prems(4) [rule_format, of "Suc j"] j by (simp add: vpage_Suc)
    qed
    have as: "addr_space t root gs" using cont(2) by (simp add: vm_step_def)
    from Suc.IH [OF as al lim fr, of "pa + 4096"] obtain r u hs k where
      u: "mappages_loop root (a + 4096) (vpage (a + 4096) n) (pa + 4096) perm t = Ok r u" "vm_step root t gs u hs"
      "r = 0 \<and> k = Suc n \<or> r = - 1 \<and> hs = [] \<and> k \<le> n" "length gs \<le> length hs + 2 * Suc n"
      "mapped_range (mem t) (mem u) root (a + 4096) k (\<lambda>j. PA2PTE (vpage (pa + 4096) j) OR perm OR PTE_V)" by blast
    have "mapped_range (mem s) (mem u) root a (Suc k) (\<lambda>j. PA2PTE (vpage pa j) OR perm OR PTE_V)"
      using cont(4) u(5) Suc.prems(2,3) u(3)
      by (intro mapped_range_Suc [where m' = "mem t"]) (auto simp: vpage_Suc vpage_def [of _ 0])
    then show ?thesis
      using cont u ne vm_step_trans [OF cont(2) u(2)]
      by (intro exI [of _ r] exI [of _ u] exI [of _ hs] exI [of _ "Suc k"]) (auto simp: vpage_Suc)
  next
    case (full t)
    then show ?thesis
      by (intro exI [of _ "- 1"] exI [of _ t] exI [of _ "[]"] exI [of _ "0 :: nat"]) (simp add: mapped_range_0)
  qed
qed

end
