(* ===== verification/Vm_Spec.thy ===== *)
theory Vm_Spec
  imports Vm_Tree
begin

text \<open>
  The abstract user memory behind \<open>kernel/vm.c\<close>: a partial map from page numbers to permission flags
  and contents. A user address space owns its table pages and its user pages; \<open>mappages\<close>, \<open>uvmunmap\<close>,
  \<open>uvmalloc\<close>, \<open>uvmdealloc\<close>, \<open>uvmcopy\<close>, \<open>copyout\<close> and \<open>copyin\<close> are proved against that map.
\<close>

section \<open>User memory as a map\<close>

definition upte :: "store \<Rightarrow> u64 \<Rightarrow> nat \<Rightarrow> u64" where
  "upte m root i = pte_of m root (vpage 0 i)"

definition uown :: "store \<Rightarrow> u64 \<Rightarrow> nat set \<Rightarrow> u64 set" where
  "uown m root I = (\<lambda>i. PTE2PA (upte m root i)) ` I"

definition umem :: "store \<Rightarrow> u64 \<Rightarrow> nat set \<Rightarrow> nat \<rightharpoonup> u64 \<times> byte list" where
  "umem m root I i = (if i \<in> I then Some (PTE_FLAGS (upte m root i), read_bytes m (PTE2PA (upte m root i)) 4096) else None)"

definition user_space :: "'x kmem_state_scheme \<Rightarrow> u64 \<Rightarrow> nat set \<Rightarrow> u64 list \<Rightarrow> bool" where
  "user_space s root I fs \<longleftrightarrow> addr_space s root fs \<and>
     (\<forall>i\<in>I. i < 67108864 \<and> upte (mem s) root i AND PTE_V \<noteq> 0 \<and> PTE_FLAGS (upte (mem s) root i) \<noteq> PTE_V) \<and>
     (\<forall>p\<in>uown (mem s) root I. page_ok (kend s) p \<and> p \<notin> pt_pages (mem s) root \<and> p \<notin> set fs) \<and>
     inj_on (\<lambda>i. PTE2PA (upte (mem s) root i)) I"

text \<open>A page in nobody's hands: just taken from the free list.\<close>

definition loose :: "'x kmem_state_scheme \<Rightarrow> u64 \<Rightarrow> nat set \<Rightarrow> u64 list \<Rightarrow> u64 \<Rightarrow> bool" where
  "loose s root I fs q \<longleftrightarrow> page_ok (kend s) q \<and> q \<notin> pt_pages (mem s) root \<and> q \<notin> uown (mem s) root I \<and> q \<notin> set fs"

text \<open>The memory outside a set of pages is the same.\<close>

definition same_outside :: "u64 set \<Rightarrow> store \<Rightarrow> store \<Rightarrow> bool" where
  "same_outside P m m' \<longleftrightarrow> (\<forall>x. (\<forall>p\<in>P. \<not> in_page p x) \<longrightarrow> m' x = m x)"

definition same_on :: "u64 set \<Rightarrow> store \<Rightarrow> store \<Rightarrow> bool" where
  "same_on P m m' \<longleftrightarrow> (\<forall>p\<in>P. \<forall>x. in_page p x \<longrightarrow> m' x = m x)"

text \<open>Only the allocator's and the hart's state and memory change.\<close>

definition kmem_only :: "'x kmem_state_scheme \<Rightarrow> 'x kmem_state_scheme \<Rightarrow> bool" where
  "kmem_only s t \<longleftrightarrow> (\<exists>h m f. hw_quiet (hw s) h \<and> t = s\<lparr>hw := h, mem := m, freelist := f\<rparr>)"

lemma kmem_only_refl [simp]: "kmem_only s s"
  unfolding kmem_only_def by (auto intro!: exI [of _ "hw s"] exI [of _ "mem s"] exI [of _ "freelist s"])

lemma kmem_only_trans: "kmem_only s t \<Longrightarrow> kmem_only t u \<Longrightarrow> kmem_only s u"
proof -
  assume "kmem_only s t" and "kmem_only t u"
  then obtain h m f h' m' f' where "hw_quiet (hw s) h" "t = s\<lparr>hw := h, mem := m, freelist := f\<rparr>"
    "hw_quiet (hw t) h'" "u = t\<lparr>hw := h', mem := m', freelist := f'\<rparr>" by (auto simp: kmem_only_def)
  then have "hw_quiet (hw s) h' \<and> u = s\<lparr>hw := h', mem := m', freelist := f'\<rparr>"
    using hw_quiet_trans [of "hw s" h h'] by simp
  then show ?thesis unfolding kmem_only_def by blast
qed

lemma kmem_only_kend: "kmem_only s t \<Longrightarrow> kend t = kend s"
  by (auto simp: kmem_only_def)

lemma same_outside_refl [simp]: "same_outside P m m"
  by (simp add: same_outside_def)

lemma same_outside_trans:
  "same_outside P m m' \<Longrightarrow> same_outside Q m' m'' \<Longrightarrow> P \<subseteq> R \<Longrightarrow> Q \<subseteq> R \<Longrightarrow> same_outside R m m''"
  unfolding same_outside_def by (metis subsetD)

lemma same_outside_page:
  assumes "same_outside P m m'" and "\<And>p. p \<in> P \<Longrightarrow> aligned 4096 p" and "aligned 4096 q" and "q \<notin> P" and "in_page q x"
  shows "m' x = m x"
  using assms in_page_disjoint unfolding same_outside_def by metis

lemma page_numbers:
  assumes "i < 67108864"
  shows "unat (vpage 0 i) = 4096 * i" and "vpage 0 i < MAXVA" and "aligned 4096 (vpage 0 i)"
proof -
  show u: "unat (vpage 0 i) = 4096 * i" using assms unat_vpage [of 0 i i] by simp
  then show "vpage 0 i < MAXVA" using assms by (simp add: word_less_nat_alt)
  show "aligned 4096 (vpage 0 i)" by (simp add: aligned_def u)
qed

lemma vpage_eq_iff: "i < 67108864 \<Longrightarrow> j < 67108864 \<Longrightarrow> vpage 0 i = vpage 0 j \<longleftrightarrow> i = j"
  by (metis page_numbers(1) mult_cancel_left numeral_eq_iff zero_neq_numeral)

lemma read_bytes_cong:
  assumes "\<And>x. in_page p x \<Longrightarrow> m' x = m x"
  shows "read_bytes m' p 4096 = read_bytes m p 4096"
proof -
  have "in_page p (p + of_nat i)" if "i < 4096" for i
    using that by (simp add: in_page_def unat_of_nat)
  then show ?thesis using assms by (simp add: read_bytes_def)
qed

lemma umem_cong:
  assumes "\<And>i. i \<in> I \<Longrightarrow> upte m' root i = upte m root i"
    and "\<And>p x. p \<in> uown m root I \<Longrightarrow> in_page p x \<Longrightarrow> m' x = m x"
  shows "umem m' root I = umem m root I"
  using assms by (auto simp: umem_def uown_def fun_eq_iff intro!: read_bytes_cong)

lemma uown_cong: "(\<And>i. i \<in> I \<Longrightarrow> upte m' root i = upte m root i) \<Longrightarrow> uown m' root I = uown m root I"
  by (simp add: uown_def)

lemmas user_spaceD = user_space_def [THEN iffD1]

lemma user_space_pages_aligned:
  assumes "user_space s root I fs" and "p \<in> pt_pages (mem s) root \<union> set fs \<union> uown (mem s) root I"
  shows "aligned 4096 p"
  using assms pt_wf_page [of "mem s" "kend s" root]
  by (auto simp: user_space_def addr_space_def kmem_pages_def pt_pages_def page_ok_def)

lemma addr_space_frame:
  assumes "addr_space s root fs" and "kmem_pages t fs'" and "kend t = kend s"
    and "\<And>p x. p \<in> pt_pages (mem s) root \<Longrightarrow> in_page p x \<Longrightarrow> mem t x = mem s x"
    and "pt_pages (mem s) root \<inter> set fs' = {}"
  shows "addr_space t root fs'"
  using assms pt_pages_frame [of "mem s" "kend s" root "mem t"] by (simp add: addr_space_def)

text \<open>An address space does not notice changes elsewhere.\<close>

lemma user_space_frame:
  assumes us: "user_space s root I fs" and km: "kmem_pages t fs'" and e: "kend t = kend s"
    and fr: "same_on (pt_pages (mem s) root \<union> uown (mem s) root I) (mem s) (mem t)"
    and dis: "(pt_pages (mem s) root \<union> uown (mem s) root I) \<inter> set fs' = {}"
  shows "user_space t root I fs'" and "umem (mem t) root I = umem (mem s) root I"
    and "pt_pages (mem t) root = pt_pages (mem s) root" and "uown (mem t) root I = uown (mem s) root I"
    and "pte_of (mem t) root va = pte_of (mem s) root va" and "pte_slot (mem t) root va = pte_slot (mem s) root va"
proof -
  have as: "addr_space s root fs" and wf: "pt_wf (mem s) (kend s) root" using us by (auto simp: user_space_def addr_space_def)
  have pf: "\<And>p x. p \<in> pt_pages (mem s) root \<Longrightarrow> in_page p x \<Longrightarrow> mem t x = mem s x" using fr by (auto simp: same_on_def)
  have pe: "pte_of (mem t) root vb = pte_of (mem s) root vb" for vb by (rule pte_of_frame [OF wf pf])
  have u: "upte (mem t) root i = upte (mem s) root i" for i by (simp add: upte_def pe)
  show pp: "pt_pages (mem t) root = pt_pages (mem s) root" by (rule pt_pages_frame(1) [OF wf pf])
  show uo: "uown (mem t) root I = uown (mem s) root I" by (rule uown_cong [OF u])
  show "umem (mem t) root I = umem (mem s) root I" using u fr by (intro umem_cong) (auto simp: same_on_def)
  show "pte_of (mem t) root va = pte_of (mem s) root va" by (rule pe)
  show "pte_slot (mem t) root va = pte_slot (mem s) root va"
    using node_frame [OF wf pf va_path [of va]] by (simp add: pte_slot_def del: node.simps)
  have "pt_pages (mem s) root \<inter> set fs' = {}" using dis by auto
  with as km e pf have "addr_space t root fs'" by (rule addr_space_frame)
  then show "user_space t root I fs'" using us dis pp uo u e unfolding user_space_def by auto
qed

section \<open>One page at a time\<close>

text \<open>What a step keeps of an address space that owns the pages \<open>I\<close>.\<close>

definition keeps :: "u64 \<Rightarrow> nat set \<Rightarrow> 'x kmem_state_scheme \<Rightarrow> 'x kmem_state_scheme \<Rightarrow> bool" where
  "keeps root I s t \<longleftrightarrow> umem (mem t) root I = umem (mem s) root I \<and> pt_pages (mem t) root = pt_pages (mem s) root \<and>
     uown (mem t) root I = uown (mem s) root I \<and> (\<forall>va. pte_of (mem t) root va = pte_of (mem s) root va) \<and>
     (\<forall>va. pte_slot (mem t) root va = pte_slot (mem s) root va) \<and> kmem_only s t"

lemma user_space_touch:
  assumes us: "user_space s root I fs" and q: "q \<notin> pt_pages (mem s) root" "q \<notin> uown (mem s) root I" "aligned 4096 q"
    and km: "kmem_pages t fs'" and sub: "set fs' \<subseteq> insert q (set fs)" and only: "kmem_only s t"
    and out: "same_outside {q} (mem s) (mem t)"
  shows "user_space t root I fs'" and "keeps root I s t"
proof -
  have fr: "same_on (pt_pages (mem s) root \<union> uown (mem s) root I) (mem s) (mem t)"
    unfolding same_on_def
  proof (intro ballI allI impI)
    fix p x assume p: "p \<in> pt_pages (mem s) root \<union> uown (mem s) root I" and x: "in_page p x"
    have "aligned 4096 p" "p \<notin> {q}" using user_space_pages_aligned [OF us] p q by blast+
    then show "mem t x = mem s x" using same_outside_page [OF out _ _ _ x] q(3) by blast
  qed
  have dis: "(pt_pages (mem s) root \<union> uown (mem s) root I) \<inter> set fs' = {}"
    using us q sub by (auto simp: user_space_def addr_space_def)
  note F = user_space_frame [OF us km kmem_only_kend [OF only] fr dis]
  show "user_space t root I fs'" by (rule F(1))
  show "keeps root I s t" unfolding keeps_def using F(2,3,4,5,6) only by blast
qed

lemma kalloc_user:
  assumes us: "user_space s root I (q # fs)"
  obtains t where "kalloc s = Ok q t" and "user_space t root I fs" and "loose t root I fs q" and "keeps root I s t"
    and "same_outside {q} (mem s) (mem t)"
proof -
  have km: "kmem_pages s (q # fs)" using us by (simp add: user_space_def addr_space_def)
  define t where "t = s\<lparr>hw := lock_cycle (hw s), mem := memset (mem s) q 5 4096, freelist := read64 (mem s) q\<rparr>"
  have t: "kalloc s = Ok q t" "kmem_pages t fs" using kmem_alloc_first [OF km] by (simp_all add: t_def)
  have q: "page_ok (kend s) q" "q \<notin> set fs" "q \<notin> pt_pages (mem s) root" "q \<notin> uown (mem s) root I"
    using us km by (auto simp: user_space_def addr_space_def kmem_pages_def)
  have only: "kmem_only s t" unfolding kmem_only_def t_def using hw_quiet_cycle by blast
  have out: "same_outside {q} (mem s) (mem t)" by (simp add: same_outside_def t_def memset_page_apply)
  note T = user_space_touch [OF us q(3,4) page_ok_aligned [OF q(1)] t(2) _ only out]
  have us': "user_space t root I fs" "keeps root I s t" using T by auto
  have "loose t root I fs q" using q us'(2) kmem_only_kend [OF only] by (simp add: loose_def keeps_def)
  then show ?thesis using that t(1) us' out by blast
qed

lemma kfree_user:
  assumes us: "user_space s root I fs" and q: "loose s root I fs q"
  obtains t where "kfree q s = Ok () t" and "user_space t root I (q # fs)" and "keeps root I s t"
    and "same_outside {q} (mem s) (mem t)"
proof -
  have km: "kmem_pages s fs" using us by (simp add: user_space_def addr_space_def)
  have ok: "page_ok (kend s) q" "q \<notin> set fs" "q \<notin> pt_pages (mem s) root" "q \<notin> uown (mem s) root I"
    using q by (simp_all add: loose_def)
  define t where "t = s\<lparr>hw := lock_cycle (hw s), mem := write64 (memset (mem s) q 1 4096) q (freelist s), freelist := q\<rparr>"
  have t: "kfree q s = Ok () t" "kmem_pages t (q # fs)" using kmem_free_adds [OF km ok(1,2)] by (simp_all add: t_def)
  have only: "kmem_only s t" unfolding kmem_only_def t_def using hw_quiet_cycle by blast
  have out: "same_outside {q} (mem s) (mem t)"
    using write64_in_page [OF page_ok_aligned [OF ok(1)], of q] by (simp add: same_outside_def t_def memset_page_apply)
  note T = user_space_touch [OF us ok(3,4) page_ok_aligned [OF ok(1)] t(2) _ only out]
  show ?thesis using that t(1) T out by (metis list.set(2) order_refl)
qed

lemma store_user:
  assumes us: "user_space s root I fs" and q: "loose s root I fs q" and out: "same_outside {q} (mem s) m"
  shows "user_space (s\<lparr>mem := m\<rparr>) root I fs" and "keeps root I s (s\<lparr>mem := m\<rparr>)" and "loose (s\<lparr>mem := m\<rparr>) root I fs q"
proof -
  let ?t = "s\<lparr>mem := m\<rparr>"
  have ok: "page_ok (kend s) q" "q \<notin> set fs" "q \<notin> pt_pages (mem s) root" "q \<notin> uown (mem s) root I"
    using q by (simp_all add: loose_def)
  have km: "kmem_pages s fs" using us by (simp add: user_space_def addr_space_def)
  have "chain m (freelist s) fs"
  proof (rule chain_cong)
    show "chain (mem s) (freelist s) fs" using km by (simp add: kmem_pages_def)
    fix p assume p: "p \<in> set fs"
    then have al: "aligned 4096 p" using km by (auto simp: kmem_pages_def page_ok_def)
    show "read64 (mem s) p = read64 m p"
    proof (rule read64_same_page [OF al])
      fix x assume "in_page p x"
      then show "mem s x = m x"
        using same_outside_page [OF out _ al, of x] page_ok_aligned [OF ok(1)] ok(2) p by fastforce
    qed simp
  qed
  then have km': "kmem_pages ?t fs" using km by (simp add: kmem_pages_def)
  have only: "kmem_only s ?t" unfolding kmem_only_def
    by (intro exI [of _ "hw s"] exI [of _ m] exI [of _ "freelist s"]) simp
  note T = user_space_touch [OF us ok(3,4) page_ok_aligned [OF ok(1)] km' _ only]
  show us': "user_space ?t root I fs" "keeps root I s ?t" using T out by auto
  then show "loose ?t root I fs q" using ok by (simp add: loose_def keeps_def)
qed

lemma less_1024_iff: "x < 1024 \<longleftrightarrow> take_bit 10 x = (x :: u64)"
proof -
  have "x < 1024 \<longleftrightarrow> take_bit 10 (unat x) = unat x" by (simp add: take_bit_nat_eq_self_iff word_less_nat_alt)
  also have "\<dots> \<longleftrightarrow> unat (take_bit 10 x) = unat x" by (simp only: unsigned_take_bit_eq)
  also have "\<dots> \<longleftrightarrow> take_bit 10 x = x" using unsigned_word_eqI [of "take_bit 10 x" x] by auto
  finally show ?thesis .
qed

lemma perm_valid_less: "perm < 1024 \<Longrightarrow> perm OR PTE_V < 1024"
  by (simp add: less_1024_iff)

lemma PTE_FLAGS_PA2PTE:
  assumes "perm < 1024"
  shows "PTE_FLAGS (PA2PTE q OR perm) = perm"
proof -
  have m: "(0x3FF :: u64) = mask 10" by (simp add: mask_eq_exp_minus_1)
  have "PTE_FLAGS (PA2PTE q OR perm) = take_bit 10 (PA2PTE q) OR take_bit 10 perm"
    unfolding PTE_FLAGS_def m by (simp only: take_bit_or flip: take_bit_eq_mask)
  moreover have "take_bit 10 (PA2PTE q) = 0" using PA2PTE_low_bits [of q] by (simp add: take_bit_eq_mask)
  ultimately show ?thesis using assms by (simp add: less_1024_iff)
qed

lemma PGROUNDDOWN_last:
  assumes "aligned 4096 a" and "a < MAXVA"
  shows "PGROUNDDOWN (a + PGSIZE - 1) = a"
proof -
  have "unat (a + 4096 - 1) = unat (a + 4095)" by (simp add: algebra_simps)
  also have "\<dots> = unat a + 4095" using assms unat_aligned_add [of 4096 a 4095] by simp
  finally have "unat (PGROUNDDOWN (a + PGSIZE - 1)) = (unat a + 4095) div 4096 * 4096" by (simp only: unat_PGROUNDDOWN)
  also have "\<dots> = unat a" using assms(1) unfolding aligned_def by auto
  finally show ?thesis by (rule unsigned_word_eqI)
qed

lemma map_user:
  assumes us: "user_space s root I fs" and q: "loose s root I fs q" and i: "i \<notin> I" "i < 67108864"
    and free: "upte (mem s) root i AND PTE_V = 0" and perm: "perm < 1024" "perm OR PTE_V \<noteq> PTE_V"
  obtains (mapped) t gs where "mappages root (vpage 0 i) PGSIZE q perm s = Ok 0 t" and "user_space t root (insert i I) gs"
      and "umem (mem t) root (insert i I) = (umem (mem s) root I)(i \<mapsto> (perm OR PTE_V, read_bytes (mem s) q 4096))"
      and "uown (mem t) root (insert i I) = insert q (uown (mem s) root I)"
      and "\<And>j. j < 67108864 \<Longrightarrow> j \<noteq> i \<Longrightarrow> upte (mem t) root j = upte (mem s) root j" and "vm_step root s fs t gs"
      and "length fs \<le> length gs + 2"
  | (full) t where "mappages root (vpage 0 i) PGSIZE q perm s = Ok (- 1) t" and "user_space t root I []"
      and "umem (mem t) root I = umem (mem s) root I" and "uown (mem t) root I = uown (mem s) root I"
      and "\<And>j. j < 67108864 \<Longrightarrow> upte (mem t) root j = upte (mem s) root j" and "loose t root I [] q" and "vm_step root s fs t []"
      and "length fs \<le> 2"
proof -
  let ?a = "vpage 0 i" and ?v = "PA2PTE q OR (perm OR PTE_V)"
  note a = page_numbers [OF i(2)]
  have as: "addr_space s root fs" and own: "\<And>j. j \<in> I \<Longrightarrow> j < 67108864" using us by (auto simp: user_space_def)
  have lim: "unat ?a + 4096 * Suc 0 \<le> 274877906944" using a(1) i(2) by simp
  have a0: "vpage ?a 0 = ?a" by (simp add: vpage_def)
  have "mappages root ?a PGSIZE q perm s = mappages_loop root ?a (vpage ?a 0) q perm s"
    using a PGROUNDDOWN_last [OF a(3,2)] by (simp add: mappages_def a0)
  moreover have "\<forall>j\<le>0. pte_of (mem s) root (vpage ?a j) AND PTE_V = 0" using free by (simp add: a0 upte_def)
  ultimately obtain r t gs k where run: "mappages root ?a PGSIZE q perm s = Ok r t" and st: "vm_step root s fs t gs"
    and r: "r = 0 \<and> k = Suc 0 \<or> r = - 1 \<and> gs = [] \<and> k = 0" and len: "length fs \<le> length gs + 2"
    and mr: "mapped_range (mem s) (mem t) root ?a k (\<lambda>j. PA2PTE (vpage q j) OR perm OR PTE_V)"
    using mappages_loop_spec [OF as a(3) lim, of q perm] by fastforce
  have ast: "addr_space t root gs" and e: "kend t = kend s" and gs: "set gs \<subseteq> set fs"
    and pp: "pt_pages (mem t) root = pt_pages (mem s) root \<union> (set fs - set gs)"
    and out: "same_outside (pt_pages (mem s) root \<union> set fs) (mem s) (mem t)"
    using st by (auto simp: vm_step_def same_outside_def dest: in_set_dropD)
  have keep: "upte (mem t) root j = upte (mem s) root j" if "j < 67108864" "j \<noteq> i \<or> k = 0" for j
  proof -
    have "\<forall>l<k. PGROUNDDOWN (vpage 0 j) \<noteq> vpage ?a l"
      using r that page_numbers [OF that(1)] vpage_eq_iff [OF that(1) i(2)] by (auto simp: a0)
    then show ?thesis using mr page_numbers [OF that(1)] by (simp add: mapped_range_def upte_def)
  qed
  have page: "mem t x = mem s x" if "p \<in> insert q (uown (mem s) root I)" "in_page p x" for p x
  proof (rule same_outside_page [OF out _ _ _ that(2)])
    show "aligned 4096 p" "p \<notin> pt_pages (mem s) root \<union> set fs"
      using that(1) us q by (auto simp: user_space_def loose_def page_ok_def)
  qed (use user_space_pages_aligned [OF us] in blast)
  have uI: "upte (mem t) root j = upte (mem s) root j" if "j \<in> I" for j using keep [OF own [OF that]] i(1) that by auto
  have oI: "uown (mem t) root I = uown (mem s) root I" by (rule uown_cong [OF uI])
  have mI: "umem (mem t) root I = umem (mem s) root I" using uI page by (intro umem_cong) auto
  show ?thesis
  proof (cases "r = 0")
    case False
    then have g: "gs = []" "k = 0" "r = - 1" using r by auto
    have "user_space t root I []"
      unfolding user_space_def using us ast uI oI pp g e by (auto simp: user_space_def cong: inj_on_cong)
    moreover have "loose t root I [] q" using q e oI pp g by (auto simp: loose_def)
    ultimately show ?thesis using run mI oI keep st g len by (intro full [of t]) auto
  next
    case True
    then have k: "k = Suc 0" using r by auto
    have pa: "PTE2PA ?v = q" using perm q perm_valid_less by (intro PTE2PA_flags) (auto simp: loose_def page_ok_def)
    have fl: "PTE_FLAGS ?v = perm OR PTE_V" using perm_valid_less [OF perm(1)] by (rule PTE_FLAGS_PA2PTE)
    have v: "upte (mem t) root i = ?v" using mr k by (simp add: mapped_range_def upte_def a0 or.assoc vpage_def)
    have vv: "?v AND PTE_V \<noteq> 0" using link_valid [of "PA2PTE q OR perm"] by (simp add: or.assoc)
    have oi: "uown (mem t) root (insert i I) = insert q (uown (mem s) root I)"
      using oI v pa by (simp add: uown_def)
    have "user_space t root (insert i I) gs"
      unfolding user_space_def oi
    proof (intro conjI ballI)
      show "addr_space t root gs" by (rule ast)
      fix j assume "j \<in> insert i I"
      then show "j < 67108864" "upte (mem t) root j AND PTE_V \<noteq> 0" "PTE_FLAGS (upte (mem t) root j) \<noteq> PTE_V"
        using i own uI us v vv fl perm(2) by (auto simp: user_space_def)
    next
      fix p assume "p \<in> insert q (uown (mem s) root I)"
      then show "page_ok (kend t) p" "p \<notin> pt_pages (mem t) root" "p \<notin> set gs"
        using us q pp gs e by (auto simp: user_space_def loose_def)
    next
      show "inj_on (\<lambda>i. PTE2PA (upte (mem t) root i)) (insert i I)"
        using us uI q v pa i(1) by (auto simp: user_space_def inj_on_def loose_def uown_def)
    qed
    moreover have "umem (mem t) root (insert i I) = (umem (mem s) root I)(i \<mapsto> (perm OR PTE_V, read_bytes (mem s) q 4096))"
    proof
      fix j
      have "read_bytes (mem t) q 4096 = read_bytes (mem s) q 4096" using page by (intro read_bytes_cong) auto
      then show "umem (mem t) root (insert i I) j = ((umem (mem s) root I)(i \<mapsto> (perm OR PTE_V, read_bytes (mem s) q 4096))) j"
        using mI [THEN fun_cong, of j] v pa fl i(1) by (auto simp: umem_def)
    qed
    ultimately show ?thesis using run True oi keep st len by (intro mapped [of t gs]) auto
  qed
qed

lemma keeps_upte: "keeps root I s t \<Longrightarrow> upte (mem t) root i = upte (mem s) root i"
  by (simp add: keeps_def upte_def)

lemma user_space_subset:
  assumes "user_space s root I fs" and "J \<subseteq> I"
  shows "user_space s root J fs"
  using assms unfolding user_space_def uown_def by (auto intro: inj_on_subset)

lemma user_space_loose:
  assumes us: "user_space s root I fs" and i: "i \<in> I"
  shows "loose s root (I - {i}) fs (PTE2PA (upte (mem s) root i))"
  using assms by (auto simp: user_space_def loose_def uown_def inj_on_def)

lemma pte_valid_slot:
  assumes "pte_of m root va AND PTE_V \<noteq> 0"
  obtains a where "pte_slot m root va = Some a" and "read64 m a = pte_of m root va"
  using assms by (auto simp: pte_of_def split: option.splits)

lemma leaf_user:
  fixes v :: u64
  assumes us: "user_space s root I fs" and slot: "pte_slot (mem s) root (vpage 0 i) = Some a" and i: "i < 67108864" "i \<notin> I"
  defines "t \<equiv> s\<lparr>mem := write64 (mem s) a v\<rparr>"
  shows "user_space t root I fs" and "umem (mem t) root I = umem (mem s) root I" and "uown (mem t) root I = uown (mem s) root I"
    and "vm_step root s fs t fs" and "upte (mem t) root i = v"
    and "j < 67108864 \<Longrightarrow> j \<noteq> i \<Longrightarrow> upte (mem t) root j = upte (mem s) root j"
    and "pt_pages (mem t) root = pt_pages (mem s) root"
proof -
  have as: "addr_space s root fs" and own: "\<And>j. j \<in> I \<Longrightarrow> j < 67108864" using us by (auto simp: user_space_def)
  note p = page_numbers [OF i(1)]
  note L = addr_space_leaf [OF as slot p(2)]
  have mt: "mem t = write64 (mem s) a v" by (simp add: t_def)
  show st: "vm_step root s fs t fs" using L(1) [of v] by (simp add: t_def)
  then have ast: "addr_space t root fs" and pp: "pt_pages (mem t) root = pt_pages (mem s) root"
    and out: "same_outside (pt_pages (mem s) root \<union> set fs) (mem s) (mem t)"
    by (auto simp: vm_step_def same_outside_def)
  show "pt_pages (mem t) root = pt_pages (mem s) root" by (rule pp)
  show "upte (mem t) root i = v" using L(2) [OF p(2)] by (simp add: upte_def mt)
  show keep: "upte (mem t) root j = upte (mem s) root j" if "j < 67108864" "j \<noteq> i" for j
    using L(2) [OF page_numbers(2) [OF that(1)]] page_numbers(3) [OF that(1)] p(3) vpage_eq_iff [OF that(1) i(1)] that(2)
    by (simp add: upte_def mt)
  have uI: "upte (mem t) root j = upte (mem s) root j" if "j \<in> I" for j using keep own that i(2) by metis
  show oI: "uown (mem t) root I = uown (mem s) root I" by (rule uown_cong [OF uI])
  have page: "mem t x = mem s x" if "q \<in> uown (mem s) root I" "in_page q x" for q x
  proof (rule same_outside_page [OF out _ _ _ that(2)])
    show "aligned 4096 q" "q \<notin> pt_pages (mem s) root \<union> set fs"
      using that(1) us by (auto simp: user_space_def page_ok_def)
  qed (use user_space_pages_aligned [OF us] in blast)
  show "umem (mem t) root I = umem (mem s) root I" using uI page by (intro umem_cong) auto
  have "kend t = kend s" by (simp add: t_def)
  then show "user_space t root I fs"
    using us ast uI oI pp by (auto simp: user_space_def cong: inj_on_cong)
qed

lemma unmap_user:
  assumes us: "user_space s root I fs" and i: "i \<in> I" and top: "vpage 0 i < e"
  obtains t where "uvmunmap_loop root (vpage 0 i) e True s = uvmunmap_loop root (vpage 0 i + PGSIZE) e True t"
    and "user_space t root (I - {i}) (PTE2PA (upte (mem s) root i) # fs)"
    and "umem (mem t) root (I - {i}) = umem (mem s) root (I - {i})"
    and "uown (mem t) root (I - {i}) = uown (mem s) root (I - {i})"
    and "\<And>j. j < 67108864 \<Longrightarrow> upte (mem t) root j = (if j = i then 0 else upte (mem s) root j)"
    and "pt_pages (mem t) root = pt_pages (mem s) root" and "kmem_only s t"
    and "same_outside (pt_pages (mem s) root \<union> set fs \<union> uown (mem s) root I) (mem s) (mem t)"
proof -
  let ?pa = "PTE2PA (upte (mem s) root i)"
  have i26: "i < 67108864" and v: "upte (mem s) root i AND PTE_V \<noteq> 0" "PTE_FLAGS (upte (mem s) root i) \<noteq> PTE_V"
    and al: "aligned 4096 ?pa" using us i by (auto simp: user_space_def uown_def page_ok_def)
  obtain a where slot: "pte_slot (mem s) root (vpage 0 i) = Some a" and ra: "read64 (mem s) a = upte (mem s) root i"
    using pte_valid_slot v(1) unfolding upte_def by blast
  have "a \<noteq> 0"
  proof -
    obtain p where p: "node (mem s) root [PX 2 (vpage 0 i), PX 1 (vpage 0 i)] = Some p" "a = p + 8 * PX 0 (vpage 0 i)"
      using slot by (rule pte_slot_Some)
    have "page_ok (kend s) p" using us p pt_wf_page [OF _ va_path] by (auto simp: user_space_def addr_space_def simp del: node.simps)
    then have "unat a = unat p + 8 * unat (PX 0 (vpage 0 i))" "0 < unat p"
      unfolding p(2) by (auto intro!: unat_cell unat_PX_less simp: page_ok_def unat_gt_0)
    then show ?thesis by force
  qed
  note w = walk_nonalloc [OF page_numbers(2) [OF i26], of root s, unfolded slot option.simps]
  obtain t where kf: "kfree ?pa s = Ok () t" and ut: "user_space t root (I - {i}) (?pa # fs)" and kt: "keeps root (I - {i}) s t"
    and out: "same_outside {?pa} (mem s) (mem t)"
    using kfree_user [OF user_space_subset [OF us] user_space_loose [OF us i]] by blast
  have slot': "pte_slot (mem t) root (vpage 0 i) = Some a" using kt slot by (simp add: keeps_def)
  have ni: "i \<notin> I - {i}" by simp
  define u where "u = t\<lparr>mem := write64 (mem t) a 0\<rparr>"
  note L = leaf_user [OF ut slot' i26 ni, where v = 0, folded u_def]
  have run: "uvmunmap_loop root (vpage 0 i) e True s = uvmunmap_loop root (vpage 0 i + PGSIZE) e True u"
    using top w \<open>a \<noteq> 0\<close> v ra kf by (simp add: uvmunmap_loop.simps [of root "vpage 0 i"] bind_apply andthen_apply u_def)
  have kst: "kmem_only s t" and pp: "pt_pages (mem t) root = pt_pages (mem s) root" using kt by (auto simp: keeps_def)
  have ktu: "kmem_only t u" unfolding kmem_only_def u_def
    by (intro exI [of _ "hw t"] exI [of _ "write64 (mem t) a 0"] exI [of _ "freelist t"]) simp
  have own: "?pa \<in> uown (mem s) root I" using i by (simp add: uown_def)
  have out2: "same_outside (pt_pages (mem s) root \<union> set (?pa # fs)) (mem t) (mem u)"
    using L(4) pp by (auto simp: vm_step_def same_outside_def)
  show ?thesis
  proof (rule that [OF run L(1)])
    show "umem (mem u) root (I - {i}) = umem (mem s) root (I - {i})" using L(2) kt by (simp add: keeps_def)
    show "uown (mem u) root (I - {i}) = uown (mem s) root (I - {i})" using L(3) kt by (simp add: keeps_def)
    show "upte (mem u) root j = (if j = i then 0 else upte (mem s) root j)" if "j < 67108864" for j
      using L(5) L(6) [OF that] keeps_upte [OF kt] by simp
    show "pt_pages (mem u) root = pt_pages (mem s) root" using L(7) pp by simp
    show "kmem_only s u" by (rule kmem_only_trans [OF kst ktu])
    show "same_outside (pt_pages (mem s) root \<union> set fs \<union> uown (mem s) root I) (mem s) (mem u)"
      by (rule same_outside_trans [OF out out2]) (use own in auto)
  qed
qed

section \<open>Removing a range of pages\<close>

text \<open>What unmapping the pages \<open>J\<close> does: they are gone, their frames are free, all else stays.\<close>

definition unmapped :: "u64 \<Rightarrow> nat set \<Rightarrow> nat set \<Rightarrow> 'x kmem_state_scheme \<Rightarrow> 'x kmem_state_scheme \<Rightarrow> bool" where
  "unmapped root I J s t \<longleftrightarrow>
     umem (mem t) root (I - J) = umem (mem s) root (I - J) \<and> uown (mem t) root (I - J) = uown (mem s) root (I - J) \<and>
     (\<forall>j<67108864. upte (mem t) root j = (if j \<in> J then 0 else upte (mem s) root j)) \<and>
     pt_pages (mem t) root = pt_pages (mem s) root \<and> kmem_only s t"

lemma umem_subset: "umem m' root A = umem m root A \<Longrightarrow> B \<subseteq> A \<Longrightarrow> umem m' root B = umem m root B"
proof
  fix i assume eq: "umem m' root A = umem m root A" and sub: "B \<subseteq> A"
  show "umem m' root B i = umem m root B i"
    using fun_cong [OF eq, of i] subsetD [OF sub, of i] by (auto simp: umem_def split: if_splits)
qed

lemma unat_vpage0: "i \<le> 67108864 \<Longrightarrow> unat (vpage 0 i) = 4096 * i"
  using unat_vpage [of 0 i i] by simp

lemma vpage0_Suc: "vpage 0 i + PGSIZE = vpage 0 (Suc i)"
  by (simp add: vpage_def algebra_simps)

lemma vpage0_less: "i \<le> 67108864 \<Longrightarrow> j \<le> 67108864 \<Longrightarrow> vpage 0 i < vpage 0 j \<longleftrightarrow> i < j"
  by (simp add: word_less_nat_alt unat_vpage0)

lemma uvmunmap_loop_pages:
  assumes "user_space s root I fs" and "{k..<n} \<subseteq> I" and "k \<le> n" and "n \<le> 67108864"
  shows "\<exists>t. uvmunmap_loop root (vpage 0 k) (vpage 0 n) True s = Ok () t \<and>
    user_space t root (I - {k..<n}) (map (\<lambda>i. PTE2PA (upte (mem s) root i)) (rev [k..<n]) @ fs) \<and>
    unmapped root I {k..<n} s t \<and>
    same_outside (pt_pages (mem s) root \<union> set fs \<union> uown (mem s) root I) (mem s) (mem t)"
  using assms
proof (induction "n - k" arbitrary: k s I fs)
  case 0
  then have "uvmunmap_loop root (vpage 0 k) (vpage 0 n) True s = Ok () s"
    by (simp add: uvmunmap_loop.simps [of root "vpage 0 k"] vpage0_less)
  with 0 show ?case by (auto simp: unmapped_def)
next
  case (Suc d)
  then have k: "k < n" "k \<in> I" by auto
  have less: "vpage 0 k < vpage 0 n" using k Suc.prems by (simp add: vpage0_less)
  obtain t where t: "uvmunmap_loop root (vpage 0 k) (vpage 0 n) True s = uvmunmap_loop root (vpage 0 (Suc k)) (vpage 0 n) True t"
    and us: "user_space t root (I - {k}) (PTE2PA (upte (mem s) root k) # fs)"
    and um: "umem (mem t) root (I - {k}) = umem (mem s) root (I - {k})"
      "uown (mem t) root (I - {k}) = uown (mem s) root (I - {k})"
    and pte: "\<And>j. j < 67108864 \<Longrightarrow> upte (mem t) root j = (if j = k then 0 else upte (mem s) root j)"
    and pp: "pt_pages (mem t) root = pt_pages (mem s) root" "kmem_only s t"
    and out: "same_outside (pt_pages (mem s) root \<union> set fs \<union> uown (mem s) root I) (mem s) (mem t)"
    using unmap_user [OF Suc.prems(1) k(2) less] unfolding vpage0_Suc by blast
  have "{Suc k..<n} \<subseteq> I - {k}" using Suc.prems(2) by auto
  then obtain u where u: "uvmunmap_loop root (vpage 0 (Suc k)) (vpage 0 n) True t = Ok () u"
    and usu: "user_space u root (I - {k} - {Suc k..<n})
      (map (\<lambda>i. PTE2PA (upte (mem t) root i)) (rev [Suc k..<n]) @ PTE2PA (upte (mem s) root k) # fs)"
    and un: "unmapped root (I - {k}) {Suc k..<n} t u"
    and out': "same_outside (pt_pages (mem t) root \<union> set (PTE2PA (upte (mem s) root k) # fs) \<union> uown (mem t) root (I - {k})) (mem t) (mem u)"
    using Suc.hyps(1) [OF _ us, of "Suc k"] Suc.hyps(2) k Suc.prems by force
  have eq: "I - {k} - {Suc k..<n} = I - {k..<n}" using k by auto
  have fl: "map (\<lambda>i. PTE2PA (upte (mem t) root i)) (rev [Suc k..<n]) @ PTE2PA (upte (mem s) root k) # fs =
      map (\<lambda>i. PTE2PA (upte (mem s) root i)) (rev [k..<n]) @ fs"
    using k pte Suc.prems(4) by (simp add: upt_conv_Cons)
  have "umem (mem t) root (I - {k..<n}) = umem (mem s) root (I - {k..<n})"
    by (rule umem_subset [OF um(1)]) (use k in auto)
  moreover have "uown (mem t) root (I - {k..<n}) = uown (mem s) root (I - {k..<n})"
    using pte k Suc.prems by (intro uown_cong) (auto simp: user_space_def)
  ultimately have "unmapped root I {k..<n} s u"
    using un pte pp k kmem_only_trans [OF pp(2)] by (auto simp: unmapped_def eq)
  moreover have "same_outside (pt_pages (mem s) root \<union> set fs \<union> uown (mem s) root I) (mem s) (mem u)"
    by (rule same_outside_trans [OF out out']) (use pp um k in \<open>auto simp: uown_def\<close>)
  ultimately show ?case using t u usu unfolding eq fl by auto
qed

lemma vpage0_mod: "vpage 0 k mod PGSIZE = 0"
proof -
  have "vpage 0 k = of_nat (4096 * k)" by (simp add: vpage_def)
  then have "unat (vpage 0 k) = (4096 * k) mod 2 ^ 64" by (simp only: unat_of_nat) simp
  also have "\<dots> mod 4096 = 0" by (simp add: mod_mod_cancel)
  finally have "aligned 4096 (vpage 0 k)" by (simp add: aligned_def)
  then show ?thesis by (simp add: aligned_mod_iff)
qed

lemma vpage0_add: "vpage 0 k + of_nat d * PGSIZE = vpage 0 (k + d)"
  by (simp add: vpage_def algebra_simps)

lemma uvmunmap_pages:
  assumes "user_space s root I fs" and "{k..<n} \<subseteq> I" and "k \<le> n" and "n \<le> 67108864"
  shows "\<exists>t. uvmunmap root (vpage 0 k) (of_nat (n - k)) True s = Ok () t \<and>
    user_space t root (I - {k..<n}) (map (\<lambda>i. PTE2PA (upte (mem s) root i)) (rev [k..<n]) @ fs) \<and>
    unmapped root I {k..<n} s t \<and>
    same_outside (pt_pages (mem s) root \<union> set fs \<union> uown (mem s) root I) (mem s) (mem t)"
proof -
  have "vpage 0 k + of_nat (n - k) * PGSIZE = vpage 0 n" using assms(3) by (simp only: vpage0_add) simp
  then show ?thesis using uvmunmap_loop_pages [OF assms] by (simp add: uvmunmap_def vpage0_mod andthen_apply)
qed

section \<open>Growing and shrinking\<close>

text \<open>The number of pages that hold \<open>sz\<close> bytes.\<close>

definition pgs :: "u64 \<Rightarrow> nat" where
  "pgs sz = (unat sz + 4095) div 4096"

lemma pgs_bound: "sz \<le> MAXVA \<Longrightarrow> pgs sz \<le> 67108864"
proof -
  assume "sz \<le> MAXVA"
  then have "unat sz + 4095 < 4096 * 67108865" by (simp add: word_le_nat_alt)
  then have "(unat sz + 4095) div 4096 < 67108865" by (simp add: less_mult_imp_div_less)
  then show ?thesis by (simp add: pgs_def)
qed

lemma PGROUNDUP_pgs: "sz \<le> MAXVA \<Longrightarrow> PGROUNDUP sz = vpage 0 (pgs sz)"
proof -
  assume sz: "sz \<le> MAXVA"
  then have "unat sz + 4095 < 2 ^ 64" by (simp add: word_le_nat_alt)
  then have "unat (PGROUNDUP sz) = unat (vpage 0 (pgs sz))"
    using unat_PGROUNDUP unat_vpage0 [OF pgs_bound [OF sz]] by (simp add: pgs_def)
  then show ?thesis by (rule unsigned_word_eqI)
qed

lemma vpage_less_pgs:
  assumes "k \<le> 67108864"
  shows "vpage 0 k < sz \<longleftrightarrow> k < pgs sz"
proof -
  have "k < (unat sz + 4095) div 4096 \<longleftrightarrow> Suc k * 4096 \<le> unat sz + 4095"
    unfolding less_eq_Suc_le by (simp only: less_eq_div_iff_mult_less_eq zero_less_numeral)
  then show ?thesis using assms by (auto simp: word_less_nat_alt unat_vpage0 pgs_def)
qed

lemma pgs_vpage: "k \<le> 67108864 \<Longrightarrow> pgs (vpage 0 k) = k"
  by (simp add: pgs_def unat_vpage0)

lemma pgs_mono: "a \<le> b \<Longrightarrow> pgs a \<le> pgs b"
  by (auto simp: pgs_def word_le_nat_alt intro: div_le_mono)

lemma small_int_cast:
  assumes "unat x < 2 ^ 31"
  shows "scast (ucast (x :: u64) :: 32 word) = x"
proof -
  have "uint x < 2 ^ 31" using assms by (metis of_nat_less_iff of_nat_numeral of_nat_power uint_nat)
  then have "sint (ucast x :: 32 word) = uint x"
    by (simp add: sint_uint signed_take_bit_eq_if_positive unsigned_ucast_eq take_bit_int_eq_self bit_take_bit_iff bit_iff_odd)
  then show ?thesis by (metis of_int_sint scast_eq word_of_int_uint)
qed

lemma uvmdealloc_pages:
  assumes us: "user_space s root {..<pgs oldsz} fs" and sz: "oldsz \<le> MAXVA" "newsz < oldsz"
  shows "\<exists>t gs. uvmdealloc root oldsz newsz s = Ok newsz t \<and> user_space t root {..<pgs newsz} gs \<and>
    set gs = set fs \<union> uown (mem s) root {pgs newsz..<pgs oldsz} \<and>
    unmapped root {..<pgs oldsz} {pgs newsz..<pgs oldsz} s t \<and>
    same_outside (pt_pages (mem s) root \<union> set fs \<union> uown (mem s) root {..<pgs oldsz}) (mem s) (mem t)"
proof -
  let ?k = "pgs newsz" and ?n = "pgs oldsz"
  have le: "?k \<le> ?n" using sz pgs_mono by (simp add: order_less_imp_le)
  have n: "?n \<le> 67108864" by (rule pgs_bound [OF sz(1)])
  have rd: "PGROUNDUP oldsz = vpage 0 ?n" "PGROUNDUP newsz = vpage 0 ?k" using sz by (auto intro: PGROUNDUP_pgs)
  have I: "{..<?n} - {?k..<?n} = {..<?k}" using le by auto
  have nle: "\<not> oldsz \<le> newsz" using sz(2) by simp
  show ?thesis
  proof (cases "?k < ?n")
    case True
    have "unat (vpage 0 ?n - vpage 0 ?k) = 4096 * (?n - ?k)"
      using le n by (simp add: unat_sub word_le_nat_alt unat_vpage0)
    then have d: "unat ((vpage 0 ?n - vpage 0 ?k) div 4096) = ?n - ?k" by (simp add: unat_div)
    moreover have "?n - ?k < 2 ^ 31" using n by simp
    ultimately have "scast (ucast ((vpage 0 ?n - vpage 0 ?k) div 4096) :: 32 word) = (vpage 0 ?n - vpage 0 ?k) div 4096"
      by (intro small_int_cast) simp
    also have "\<dots> = of_nat (?n - ?k)"
    proof -
      have "unat ((vpage 0 ?n - vpage 0 ?k) div 4096) = unat (of_nat (?n - ?k) :: u64)"
        using d n unat_of_nat_small [where i = "?n - ?k" and 'a = 64] by simp
      then show ?thesis by (rule unsigned_word_eqI)
    qed
    finally have np: "scast (ucast ((vpage 0 ?n - vpage 0 ?k) div 4096) :: 32 word) = (of_nat (?n - ?k) :: u64)" .
    have sub: "{?k..<?n} \<subseteq> {..<?n}" by auto
    from uvmunmap_pages [OF us sub le n] obtain t where
      t: "uvmunmap root (vpage 0 ?k) (of_nat (?n - ?k)) True s = Ok () t"
      "user_space t root ({..<?n} - {?k..<?n}) (map (\<lambda>i. PTE2PA (upte (mem s) root i)) (rev [?k..<?n]) @ fs)"
      "unmapped root {..<?n} {?k..<?n} s t"
      "same_outside (pt_pages (mem s) root \<union> set fs \<union> uown (mem s) root {..<?n}) (mem s) (mem t)" by blast
    have "uvmdealloc root oldsz newsz s = Ok newsz t"
      using nle True rd np t(1) le n by (simp add: uvmdealloc_def andthen_apply vpage0_less)
    then show ?thesis using t unfolding I by (intro exI) (auto simp: uown_def)
  next
    case False
    then have eq: "?k = ?n" using le by simp
    have "uvmdealloc root oldsz newsz s = Ok newsz s"
      using nle rd eq by (simp add: uvmdealloc_def andthen_apply)
    then show ?thesis using us eq by (intro exI) (auto simp: unmapped_def uown_def)
  qed
qed

abbreviation span :: "'x kmem_state_scheme \<Rightarrow> u64 \<Rightarrow> nat set \<Rightarrow> u64 list \<Rightarrow> u64 set" where
  "span s root I fs \<equiv> pt_pages (mem s) root \<union> set fs \<union> uown (mem s) root I"

abbreviation URWX :: u64 where
  "URWX \<equiv> PTE_W OR PTE_X OR PTE_R OR PTE_U"

text \<open>One turn of the loop of \<open>uvmalloc\<close>.\<close>

lemma uvmalloc_turn:
  assumes us: "user_space s root I fs" and i: "i \<notin> I" "i < 67108864" and free: "upte (mem s) root i AND PTE_V = 0"
    and less: "vpage 0 i < newsz"
  obtains (grown) t gs where "uvmalloc_loop root (vpage 0 i) old newsz s = uvmalloc_loop root (vpage 0 (Suc i)) old newsz t"
      and "user_space t root (insert i I) gs" and "umem (mem t) root (insert i I) = (umem (mem s) root I)(i \<mapsto> (URWX OR PTE_V, replicate 4096 0))"
      and "\<And>j. j < 67108864 \<Longrightarrow> j \<noteq> i \<Longrightarrow> upte (mem t) root j = upte (mem s) root j" and "length fs \<le> length gs + 3"
      and "span t root (insert i I) gs \<subseteq> span s root I fs" and "same_outside (span s root I fs) (mem s) (mem t)" and "kmem_only s t"
  | (full) t gs where "uvmalloc_loop root (vpage 0 i) old newsz s = bind (uvmdealloc root (vpage 0 i) old) (\<lambda>_. ret 0) t"
      and "user_space t root I gs" and "umem (mem t) root I = umem (mem s) root I"
      and "\<And>j. j < 67108864 \<Longrightarrow> upte (mem t) root j = upte (mem s) root j" and "length fs \<le> 3"
      and "span t root I gs \<subseteq> span s root I fs" and "same_outside (span s root I fs) (mem s) (mem t)" and "kmem_only s t"
proof (cases fs)
  case Nil
  have ff: "freelist s = 0" "lk_free Lk_kmem (hw s)" "intr_ok (hw s)" using us Nil by (auto simp: user_space_def addr_space_def kmem_pages_def)
  let ?t = "s\<lparr>hw := lock_cycle (hw s)\<rparr>"
  have km: "kmem_pages ?t []" using us Nil by (auto simp: user_space_def addr_space_def kmem_pages_def)
  have "uvmalloc_loop root (vpage 0 i) old newsz s = bind (uvmdealloc root (vpage 0 i) old) (\<lambda>_. ret 0) ?t"
    using less by (simp add: uvmalloc_loop.simps [of root "vpage 0 i"] bind_apply kalloc_empty [OF ff(2,3,1)])
  moreover have "user_space ?t root I []"
    using user_space_frame(1) [OF us km] by (auto simp: same_on_def)
  moreover have "kmem_only s ?t" unfolding kmem_only_def
    by (intro exI [of _ "lock_cycle (hw s)"] exI [of _ "mem s"] exI [of _ "freelist s"]) simp
  ultimately show ?thesis using Nil by (intro full [of ?t "[]"]) auto
next
  case (Cons q hs)
  obtain t where t: "kalloc s = Ok q t" "user_space t root I hs" "loose t root I hs q" "keeps root I s t"
    "same_outside {q} (mem s) (mem t)" by (rule kalloc_user [OF us [unfolded Cons]])
  define u where "u = t\<lparr>mem := memset (mem t) q 0 4096\<rparr>"
  have out0: "same_outside {q} (mem t) (memset (mem t) q 0 4096)" by (simp add: same_outside_def memset_page_apply)
  note U = store_user [OF t(2,3) out0, folded u_def]
  have q0: "q \<noteq> 0" using t(3) by (auto simp: loose_def page_ok_def)
  have mu: "mem u = memset (mem t) q 0 4096" by (simp add: u_def)
  have zero: "read_bytes (mem u) q 4096 = replicate 4096 0"
  proof (rule nth_equalityI)
    fix j assume "j < length (read_bytes (mem u) q 4096)"
    then have j: "j < 4096" by (simp add: read_bytes_def)
    then have "in_page q (q + of_nat j)" by (simp add: in_page_def unat_of_nat)
    then show "read_bytes (mem u) q 4096 ! j = replicate 4096 0 ! j" using j by (simp add: read_bytes_def mu memset_page_apply)
  qed (simp add: read_bytes_def)
  have freeu: "upte (mem u) root i AND PTE_V = 0" using free keeps_upte [OF t(4)] keeps_upte [OF U(2)] by simp
  have ks: "umem (mem u) root I = umem (mem s) root I" "pt_pages (mem u) root = pt_pages (mem s) root" "uown (mem u) root I = uown (mem s) root I"
    "\<And>j. upte (mem u) root j = upte (mem s) root j" "kmem_only s u"
    using t(4) U(2) keeps_upte [OF t(4)] keeps_upte [OF U(2)] kmem_only_trans by (auto simp: keeps_def)
  have out: "same_outside {q} (mem s) (mem u)" using same_outside_trans [OF t(5) out0] by (simp add: mu)
  have run: "uvmalloc_loop root (vpage 0 i) old newsz s =
      bind (mappages root (vpage 0 i) PGSIZE q URWX) (\<lambda>r.
        if r \<noteq> 0 then andthen (kfree q) (bind (uvmdealloc root (vpage 0 i) old) (\<lambda>_. ret 0))
        else uvmalloc_loop root (vpage 0 (Suc i)) old newsz) u"
    unfolding vpage0_Suc [symmetric]
    using less q0 t(1) by (simp add: uvmalloc_loop.simps [of root "vpage 0 i"] bind_apply andthen_apply u_def)
  have pm: "URWX < 1024" "URWX OR PTE_V \<noteq> PTE_V" by simp_all
  from U(1,3) i freeu pm show ?thesis
  proof (cases rule: map_user)
    case (mapped v gs)
    have sp: "pt_pages (mem v) root = pt_pages (mem u) root \<union> (set hs - set gs)" "set gs \<subseteq> set hs" "kmem_only u v"
      "same_outside (pt_pages (mem u) root \<union> set hs) (mem u) (mem v)"
      using mapped(6) by (auto simp: vm_step_def kmem_only_def same_outside_def dest: in_set_dropD)
    show ?thesis
    proof (rule grown)
      show "uvmalloc_loop root (vpage 0 i) old newsz s = uvmalloc_loop root (vpage 0 (Suc i)) old newsz v"
        using run mapped(1) by (simp add: bind_apply)
      show "user_space v root (insert i I) gs" by (rule mapped(2))
      show "umem (mem v) root (insert i I) = (umem (mem s) root I)(i \<mapsto> (URWX OR PTE_V, replicate 4096 0))"
        using mapped(3) zero ks(1) by (simp add: or.assoc)
      show "upte (mem v) root j = upte (mem s) root j" if "j < 67108864" "j \<noteq> i" for j using mapped(5) [OF that] ks(4) by simp
      show "length fs \<le> length gs + 3" using mapped(7) Cons by simp
      show "span v root (insert i I) gs \<subseteq> span s root I fs" using mapped(4) sp ks Cons by auto
      show "same_outside (span s root I fs) (mem s) (mem v)"
        by (rule same_outside_trans [OF out sp(4)]) (use ks Cons in auto)
      show "kmem_only s v" by (rule kmem_only_trans [OF ks(5) sp(3)])
    qed
  next
    case (full v)
    have sp: "pt_pages (mem v) root = pt_pages (mem u) root \<union> set hs" "kmem_only u v"
      "same_outside (pt_pages (mem u) root \<union> set hs) (mem u) (mem v)"
      using full(7) by (auto simp: vm_step_def kmem_only_def same_outside_def)
    obtain w where w: "kfree q v = Ok () w" "user_space w root I [q]" "keeps root I v w" "same_outside {q} (mem v) (mem w)"
      using kfree_user [OF full(2,6)] by blast
    show ?thesis
    proof (rule that(2))
      show "uvmalloc_loop root (vpage 0 i) old newsz s = bind (uvmdealloc root (vpage 0 i) old) (\<lambda>_. ret 0) w"
        using run full(1) w(1) by (simp add: bind_apply andthen_apply)
      show "user_space w root I [q]" by (rule w(2))
      show "umem (mem w) root I = umem (mem s) root I" using w(3) full(3) ks(1) by (simp add: keeps_def)
      show "upte (mem w) root j = upte (mem s) root j" if "j < 67108864" for j
        using full(5) [OF that] ks(4) keeps_upte [OF w(3)] by simp
      show "length fs \<le> 3" using full(8) Cons by simp
      show "span w root I [q] \<subseteq> span s root I fs" using w(3) full(4) sp ks Cons by (auto simp: keeps_def)
      have "same_outside (span s root I fs) (mem s) (mem v)"
        by (rule same_outside_trans [OF out sp(3)]) (use ks Cons in auto)
      then show "same_outside (span s root I fs) (mem s) (mem w)"
        by (rule same_outside_trans [OF _ w(4)]) (use Cons in auto)
      show "kmem_only s w" using w(3) kmem_only_trans [OF kmem_only_trans [OF ks(5) sp(2)]] by (simp add: keeps_def)
    qed
  qed
qed

text \<open>The state after a successful growth from \<open>k\<close> to \<open>n\<close> pages, and after a failed one.\<close>

definition grown_by :: "u64 \<Rightarrow> nat \<Rightarrow> nat \<Rightarrow> 'x kmem_state_scheme \<Rightarrow> 'x kmem_state_scheme \<Rightarrow> bool" where
  "grown_by root k n s t \<longleftrightarrow>
     umem (mem t) root {..<n} = (\<lambda>j. if k \<le> j \<and> j < n then Some (URWX OR PTE_V, replicate 4096 0) else umem (mem s) root {..<k} j) \<and>
     (\<forall>j<67108864. j < k \<or> n \<le> j \<longrightarrow> upte (mem t) root j = upte (mem s) root j)"

definition undone :: "u64 \<Rightarrow> nat \<Rightarrow> nat \<Rightarrow> nat \<Rightarrow> 'x kmem_state_scheme \<Rightarrow> u64 list \<Rightarrow> 'x kmem_state_scheme \<Rightarrow> u64 list \<Rightarrow> bool" where
  "undone root m k n s fs t gs \<longleftrightarrow> length fs \<le> 3 * (n - k) \<and> user_space t root {..<m} gs \<and>
     umem (mem t) root {..<m} = umem (mem s) root {..<m} \<and> span t root {..<m} gs \<subseteq> span s root {..<k} fs \<and>
     (\<forall>j<67108864. if m \<le> j \<and> j < n then upte (mem t) root j AND PTE_V = 0 else upte (mem t) root j = upte (mem s) root j)"

lemma uvmalloc_undo:
  assumes us: "user_space t root {..<k} gs" and m: "m \<le> k" "k < 67108864"
  obtains u hs where "bind (uvmdealloc root (vpage 0 k) (vpage 0 m)) (\<lambda>_. ret 0) t = Ok (0 :: u64) u"
    and "user_space u root {..<m} hs" and "umem (mem u) root {..<m} = umem (mem t) root {..<m}" and "kmem_only t u"
    and "span u root {..<m} hs \<subseteq> span t root {..<k} gs" and "same_outside (span t root {..<k} gs) (mem t) (mem u)"
    and "\<And>j. j < 67108864 \<Longrightarrow> upte (mem u) root j = (if m \<le> j \<and> j < k then 0 else upte (mem t) root j)"
proof (cases "m = k")
  case True
  then show ?thesis using us by (intro that [of t gs]) (auto simp: uvmdealloc_def bind_apply)
next
  case False
  then have less: "vpage 0 m < vpage 0 k" and le: "vpage 0 k \<le> MAXVA" using m
    by (simp_all add: vpage0_less word_le_nat_alt unat_vpage0)
  have pm: "pgs (vpage 0 k) = k" "pgs (vpage 0 m) = m" using m by (simp_all add: pgs_vpage)
  have I: "{..<k} - {m..<k} = {..<m}" using m by auto
  obtain u hs where u: "uvmdealloc root (vpage 0 k) (vpage 0 m) t = Ok (vpage 0 m) u" "user_space u root {..<m} hs"
    "set hs = set gs \<union> uown (mem t) root {m..<k}" "unmapped root {..<k} {m..<k} t u"
    "same_outside (span t root {..<k} gs) (mem t) (mem u)"
    using uvmdealloc_pages [of t root "vpage 0 k" gs "vpage 0 m"] us less le unfolding pm by blast
  show ?thesis
  proof (rule that [OF _ u(2)])
    show "bind (uvmdealloc root (vpage 0 k) (vpage 0 m)) (\<lambda>_. ret 0) t = Ok (0 :: u64) u" using u(1) by (simp add: bind_apply)
    show "umem (mem u) root {..<m} = umem (mem t) root {..<m}" "kmem_only t u" using u(4) by (auto simp: unmapped_def I)
    show "span u root {..<m} hs \<subseteq> span t root {..<k} gs" using u(3,4) m by (auto simp: unmapped_def I uown_def)
    show "upte (mem u) root j = (if m \<le> j \<and> j < k then 0 else upte (mem t) root j)" if "j < 67108864" for j
      using u(4) that by (simp add: unmapped_def)
  qed (rule u(5))
qed

lemma grown_by_Suc:
  assumes "umem (mem t) root {..<Suc k} = (umem (mem s) root {..<k})(k \<mapsto> (URWX OR PTE_V, replicate 4096 0))"
    and "\<And>j. j < 67108864 \<Longrightarrow> j \<noteq> k \<Longrightarrow> upte (mem t) root j = upte (mem s) root j"
    and "grown_by root (Suc k) n t u" and "k < n"
  shows "grown_by root k n s u"
proof -
  have "umem (mem u) root {..<n} j =
      (if k \<le> j \<and> j < n then Some (URWX OR PTE_V, replicate 4096 0) else umem (mem s) root {..<k} j)" for j
    using assms(1,3,4) unfolding grown_by_def by (cases "j = k") (auto simp: Suc_le_eq)
  then show ?thesis using assms(2-4) unfolding grown_by_def by auto
qed

lemma undone_turn:
  assumes t: "umem (mem t) root {..<Suc k} = (umem (mem s) root {..<k})(k \<mapsto> p)" "length fs \<le> length gs + 3"
    "span t root {..<Suc k} gs \<subseteq> span s root {..<k} fs"
    "\<And>j. j < 67108864 \<Longrightarrow> j \<noteq> k \<Longrightarrow> upte (mem t) root j = upte (mem s) root j"
    and u: "undone root m (Suc k) n t gs u hs" and k: "m \<le> k" "k < n"
  shows "undone root m k n s fs u hs"
proof -
  have "umem (mem t) root {..<m} j = umem (mem s) root {..<m} j" for j
    using fun_cong [OF t(1), of j] k(1) by (auto simp: umem_def split: if_splits)
  then have "umem (mem u) root {..<m} = umem (mem s) root {..<m}" using u by (auto simp: undone_def)
  moreover have "span u root {..<m} hs \<subseteq> span s root {..<k} fs" using u t(3) unfolding undone_def by blast
  ultimately show ?thesis using u t(2,4) k unfolding undone_def by auto
qed

lemma uvmalloc_loop_pages:
  assumes "user_space s root {..<k} fs" and "m \<le> k" and "k \<le> pgs newsz" and "newsz \<le> MAXVA"
    and "\<And>j. k \<le> j \<Longrightarrow> j < pgs newsz \<Longrightarrow> upte (mem s) root j AND PTE_V = 0"
  shows "\<exists>r t gs. uvmalloc_loop root (vpage 0 k) (vpage 0 m) newsz s = Ok r t \<and> kmem_only s t \<and>
    same_outside (span s root {..<k} fs) (mem s) (mem t) \<and>
    (r = newsz \<and> user_space t root {..<pgs newsz} gs \<and> grown_by root k (pgs newsz) s t \<and>
       span t root {..<pgs newsz} gs \<subseteq> span s root {..<k} fs \<or>
     r = 0 \<and> k < pgs newsz \<and> undone root m k (pgs newsz) s fs t gs)"
  using assms
proof (induction "pgs newsz - k" arbitrary: k s fs)
  case 0
  then have k: "k = pgs newsz" "k \<le> 67108864" using pgs_bound [of newsz] by auto
  then have "\<not> vpage 0 k < newsz" by (simp add: vpage_less_pgs)
  then have "uvmalloc_loop root (vpage 0 k) (vpage 0 m) newsz s = Ok newsz s"
    by (simp add: uvmalloc_loop.simps [of root "vpage 0 k"])
  moreover have "grown_by root k (pgs newsz) s s" unfolding grown_by_def k(1) by (auto simp: fun_eq_iff)
  ultimately show ?case using 0 k by auto
next
  case (Suc d)
  then have k: "k < pgs newsz" "k < 67108864" using pgs_bound [of newsz] by auto
  have less: "vpage 0 k < newsz" using k by (simp add: vpage_less_pgs)
  have ins: "insert k {..<k} = {..<Suc k}" by auto
  have free: "upte (mem s) root k AND PTE_V = 0" using Suc.prems(5) k by simp
  have ni: "k \<notin> {..<k}" by simp
  from Suc.prems(1) ni k(2) free less show ?case
  proof (cases rule: uvmalloc_turn [where old = "vpage 0 m"])
    case (grown t gs)
    note g = grown [unfolded ins]
    have fr: "upte (mem t) root j AND PTE_V = 0" if "Suc k \<le> j" "j < pgs newsz" for j
      using g(4) [of j] Suc.prems(5) [of j] that pgs_bound [OF Suc.prems(4)] by simp
    have d: "d = pgs newsz - Suc k" "m \<le> Suc k" "Suc k \<le> pgs newsz" using Suc.hyps(2) Suc.prems(2) k by auto
    from Suc.hyps(1) [OF d(1) g(2) d(2,3) Suc.prems(4) fr] obtain r u hs where
      u: "uvmalloc_loop root (vpage 0 (Suc k)) (vpage 0 m) newsz t = Ok r u" "kmem_only t u"
        "same_outside (span t root {..<Suc k} gs) (mem t) (mem u)"
      and alt: "r = newsz \<and> user_space u root {..<pgs newsz} hs \<and> grown_by root (Suc k) (pgs newsz) t u \<and>
         span u root {..<pgs newsz} hs \<subseteq> span t root {..<Suc k} gs \<or>
       r = 0 \<and> Suc k < pgs newsz \<and> undone root m (Suc k) (pgs newsz) t gs u hs" by blast
    have out: "same_outside (span s root {..<k} fs) (mem s) (mem u)" by (rule same_outside_trans [OF g(7) u(3) _ g(6)]) simp
    have run: "uvmalloc_loop root (vpage 0 k) (vpage 0 m) newsz s = Ok r u" using g(1) u(1) by simp
    have only: "kmem_only s u" by (rule kmem_only_trans [OF g(8) u(2)])
    have "r = newsz \<and> user_space u root {..<pgs newsz} hs \<and> grown_by root k (pgs newsz) s u \<and>
         span u root {..<pgs newsz} hs \<subseteq> span s root {..<k} fs \<or>
       r = 0 \<and> k < pgs newsz \<and> undone root m k (pgs newsz) s fs u hs"
      using alt grown_by_Suc [OF g(3,4) _ k(1)] undone_turn [OF g(3,5,6,4) _ Suc.prems(2) k(1)] g(6) k(1)
      by (meson order_trans)
    then show ?thesis using run only out by blast
  next
    case (full t gs)
    obtain u hs where u: "bind (uvmdealloc root (vpage 0 k) (vpage 0 m)) (\<lambda>_. ret 0) t = Ok (0 :: u64) u"
      "user_space u root {..<m} hs" "umem (mem u) root {..<m} = umem (mem t) root {..<m}" "kmem_only t u"
      "span u root {..<m} hs \<subseteq> span t root {..<k} gs" "same_outside (span t root {..<k} gs) (mem t) (mem u)"
      "\<And>j. j < 67108864 \<Longrightarrow> upte (mem u) root j = (if m \<le> j \<and> j < k then 0 else upte (mem t) root j)"
      using uvmalloc_undo [OF full(2) Suc.prems(2) k(2)] by metis
    have out: "same_outside (span s root {..<k} fs) (mem s) (mem u)" by (rule same_outside_trans [OF full(7) u(6) _ full(6)]) simp
    have "umem (mem t) root {..<m} = umem (mem s) root {..<m}" by (rule umem_subset [OF full(3)]) (use Suc.prems in auto)
    then have "undone root m k (pgs newsz) s fs u hs"
      using u(2,3,5,7) full(4,5,6) k Suc.prems(5) unfolding undone_def by (auto split: if_splits)
    then show ?thesis using trans [OF full(1) u(1)] out kmem_only_trans [OF full(8) u(4)] k(1) by blast
  qed
qed

section \<open>Copying an address space\<close>

lemma memmove_page:
  assumes "page_ok e q" and "page_ok e' p"
  shows "read_bytes (memmove m q p 4096) q 4096 = read_bytes m p 4096" and "same_outside {q} m (memmove m q p 4096)"
proof -
  have "memmove m q p 4096 = block_copy m q p 4096"
    using assms by (intro memmove_block) (auto simp: page_ok_def word_less_nat_alt)
  then show "read_bytes (memmove m q p 4096) q 4096 = read_bytes m p 4096" "same_outside {q} m (memmove m q p 4096)"
    by (simp_all add: block_copy_def read_bytes_def same_outside_def in_page_def unat_of_nat)
qed

text \<open>Two address spaces over one free list.\<close>

definition apart :: "'x kmem_state_scheme \<Rightarrow> u64 \<Rightarrow> nat set \<Rightarrow> u64 \<Rightarrow> nat set \<Rightarrow> bool" where
  "apart s old I new J \<longleftrightarrow>
     (pt_pages (mem s) old \<union> uown (mem s) old I) \<inter> (pt_pages (mem s) new \<union> uown (mem s) new J) = {}"

text \<open>A step of one of them does not touch the other.\<close>

lemma other_space:
  assumes old: "user_space s old I fs" and new: "user_space s new J fs" and ap: "apart s old I new J"
    and q: "Q \<inter> (pt_pages (mem s) old \<union> uown (mem s) old I) = {}" "\<And>p. p \<in> Q \<Longrightarrow> aligned 4096 p"
    and t: "user_space t new J' gs" "kmem_only s t" "same_outside (span s new J fs \<union> Q) (mem s) (mem t)"
    "span t new J' gs \<subseteq> span s new J fs \<union> Q"
  shows "user_space t old I gs" and "umem (mem t) old I = umem (mem s) old I" and "apart t old I new J'"
    and "upte (mem t) old i = upte (mem s) old i" and "span t old I gs \<subseteq> span s old I fs \<union> span s new J fs \<union> Q"
proof -
  let ?O = "pt_pages (mem s) old \<union> uown (mem s) old I"
  have dis: "?O \<inter> (span s new J fs \<union> Q) = {}"
    using ap q old by (auto simp: apart_def user_space_def addr_space_def)
  have al: "aligned 4096 p" if "p \<in> span s new J fs \<union> Q" for p
    using that user_space_pages_aligned [OF new] q(2) by blast
  have fr: "same_on ?O (mem s) (mem t)"
    unfolding same_on_def
  proof (intro ballI allI impI)
    fix p x assume p: "p \<in> ?O" and x: "in_page p x"
    have "aligned 4096 p" "p \<notin> span s new J fs \<union> Q" using user_space_pages_aligned [OF old] p dis by blast+
    then show "mem t x = mem s x" using same_outside_page [OF t(3) al _ _ x] by blast
  qed
  have km: "kmem_pages t gs" using t(1) by (simp add: user_space_def addr_space_def)
  have d2: "?O \<inter> set gs = {}" using dis t(4) by blast
  note F = user_space_frame [OF old km kmem_only_kend [OF t(2)] fr d2]
  show "user_space t old I gs" "umem (mem t) old I = umem (mem s) old I" by (rule F)+
  show "upte (mem t) old i = upte (mem s) old i" by (simp add: upte_def F)
  show "apart t old I new J'" unfolding apart_def F(3,4) using dis t(4) by blast
  show "span t old I gs \<subseteq> span s old I fs \<union> span s new J fs \<union> Q" unfolding F(3,4) using t(4) by blast
qed

lemma user_slot_nonzero:
  assumes "addr_space s root fs" and "pte_slot (mem s) root va = Some a"
  shows "a \<noteq> 0"
proof -
  obtain p where p: "node (mem s) root [PX 2 va, PX 1 va] = Some p" "a = p + 8 * PX 0 va"
    using assms(2) by (rule pte_slot_Some)
  have "page_ok (kend s) p" using assms(1) p pt_wf_page [OF _ va_path] by (auto simp: addr_space_def simp del: node.simps)
  then have "unat a = unat p + 8 * unat (PX 0 va)" "0 < unat p"
    unfolding p(2) by (auto intro!: unat_cell unat_PX_less simp: page_ok_def unat_gt_0)
  then show ?thesis by force
qed

lemma flags_perm:
  assumes "v AND PTE_V \<noteq> 0" and "PTE_FLAGS v \<noteq> PTE_V"
  shows "PTE_FLAGS v < 1024" and "PTE_FLAGS v OR PTE_V = PTE_FLAGS v" and "PTE_FLAGS v OR PTE_V \<noteq> PTE_V"
proof -
  have m: "(0x3FF :: u64) = mask 10" by (simp add: mask_eq_exp_minus_1)
  have f: "PTE_FLAGS v = take_bit 10 v" unfolding PTE_FLAGS_def m by (simp only: take_bit_eq_mask)
  show "PTE_FLAGS v < 1024" by (simp add: f less_1024_iff)
  have "bit v 0" using assms(1) by (simp add: and_one_eq bit_0 odd_iff_mod_2_eq_one)
  then show o: "PTE_FLAGS v OR PTE_V = PTE_FLAGS v"
    by (intro bit_word_eqI) (auto simp: f bit_or_iff bit_take_bit_iff bit_1_iff simp del: bit_0)
  show "PTE_FLAGS v OR PTE_V \<noteq> PTE_V" using assms(2) o by simp
qed

lemma vpage0_div: "i < 67108864 \<Longrightarrow> vpage 0 i div PGSIZE = of_nat i"
proof -
  assume i: "i < 67108864"
  then have "unat (vpage 0 i div 4096) = i" by (simp add: unat_div unat_vpage0)
  moreover have "unat (of_nat i :: u64) = i" using i by (intro unat_of_nat_small) simp
  ultimately have "unat (vpage 0 i div 4096) = unat (of_nat i :: u64)" by simp
  then show ?thesis by (rule unsigned_word_eqI)
qed

text \<open>What one turn of the loop of \<open>uvmcopy\<close> keeps of the parent.\<close>

definition parent_kept :: "u64 \<Rightarrow> nat set \<Rightarrow> u64 \<Rightarrow> nat set \<Rightarrow> 'x kmem_state_scheme \<Rightarrow> 'x kmem_state_scheme \<Rightarrow> u64 list \<Rightarrow> bool" where
  "parent_kept old I new J s t gs \<longleftrightarrow> user_space t old I gs \<and> umem (mem t) old I = umem (mem s) old I \<and>
     apart t old I new J \<and> kmem_only s t"

lemma uvmcopy_turn:
  assumes old: "user_space s old I fs" and new: "user_space s new J fs" and ap: "apart s old I new J"
    and i: "i \<in> I" "i \<notin> J" and free: "upte (mem s) new i AND PTE_V = 0" and less: "vpage 0 i < sz"
  obtains (copied) t gs where "uvmcopy_loop old new (vpage 0 i) sz s = uvmcopy_loop old new (vpage 0 (Suc i)) sz t"
      and "user_space t new (insert i J) gs" and "parent_kept old I new (insert i J) s t gs"
      and "umem (mem t) new (insert i J) = (umem (mem s) new J)(i := umem (mem s) old I i)"
      and "\<And>j. j < 67108864 \<Longrightarrow> j \<noteq> i \<Longrightarrow> upte (mem t) new j = upte (mem s) new j"
      and "length fs \<le> length gs + 3"
      and "span t new (insert i J) gs \<subseteq> span s new J fs" and "same_outside (span s new J fs) (mem s) (mem t)"
  | (full) t gs where "uvmcopy_loop old new (vpage 0 i) sz s = andthen (uvmunmap new 0 (of_nat i) True) (ret (- 1)) t"
      and "user_space t new J gs" and "parent_kept old I new J s t gs"
      and "\<And>j. j < 67108864 \<Longrightarrow> upte (mem t) new j = upte (mem s) new j" and "length fs \<le> 3"
      and "span t new J gs \<subseteq> span s new J fs" and "same_outside (span s new J fs) (mem s) (mem t)"
proof -
  let ?v = "upte (mem s) old i"
  have aso: "addr_space s old fs" and v: "?v AND PTE_V \<noteq> 0" "PTE_FLAGS ?v \<noteq> PTE_V" and i26: "i < 67108864"
    and pok: "page_ok (kend s) (PTE2PA ?v)" using old i by (auto simp: user_space_def uown_def)
  obtain a where slot: "pte_slot (mem s) old (vpage 0 i) = Some a" and ra: "read64 (mem s) a = ?v"
    using pte_valid_slot v(1) unfolding upte_def by blast
  have a0: "a \<noteq> 0" by (rule user_slot_nonzero [OF aso slot])
  have w: "walk old (vpage 0 i) False s = Ok a s"
    using walk_nonalloc [OF page_numbers(2) [OF i26], of old s] slot by simp
  have keep: "parent_kept old I new K s t gs"
    if "user_space t new K gs" "kmem_only s t" "same_outside (span s new J fs) (mem s) (mem t)"
      "span t new K gs \<subseteq> span s new J fs" for K t gs
    using other_space [OF old new ap, of "{}" t K gs] that unfolding parent_kept_def by simp
  show ?thesis
  proof (cases fs)
    case Nil
    have ff: "freelist s = 0" "lk_free Lk_kmem (hw s)" "intr_ok (hw s)" using old Nil by (auto simp: user_space_def addr_space_def kmem_pages_def)
    let ?t = "s\<lparr>hw := lock_cycle (hw s)\<rparr>"
    have km: "kmem_pages ?t []" using old Nil by (auto simp: user_space_def addr_space_def kmem_pages_def)
    have run: "uvmcopy_loop old new (vpage 0 i) sz s = andthen (uvmunmap new 0 (of_nat i) True) (ret (- 1)) ?t"
      using less w a0 ra v by (simp add: uvmcopy_loop.simps [of old new "vpage 0 i"] bind_apply kalloc_empty [OF ff(2,3,1)] andthen_apply vpage0_div [OF i26])
    have us: "user_space ?t new J []" using user_space_frame(1) [OF new km] by (auto simp: same_on_def)
    moreover have "kmem_only s ?t" unfolding kmem_only_def
      by (intro exI [of _ "lock_cycle (hw s)"] exI [of _ "mem s"] exI [of _ "freelist s"]) simp
    ultimately have "parent_kept old I new J s ?t []" by (intro keep) (auto simp: Nil)
    then show ?thesis using run us Nil by (intro full [of ?t "[]"]) auto
  next
    case (Cons q hs)
    obtain t where t: "kalloc s = Ok q t" "user_space t new J hs" "loose t new J hs q" "keeps new J s t"
      "same_outside {q} (mem s) (mem t)" by (rule kalloc_user [OF new [unfolded Cons]])
    have q0: "q \<noteq> 0" and qok: "page_ok (kend t) q" using t(3) by (auto simp: loose_def page_ok_def)
    define u where "u = t\<lparr>mem := memmove (mem t) q (PTE2PA ?v) 4096\<rparr>"
    note M = memmove_page [OF qok pok, of "mem t"]
    note U = store_user [OF t(2,3) M(2), folded u_def]
    have mu: "mem u = memmove (mem t) q (PTE2PA ?v) 4096" by (simp add: u_def)
    have "q \<noteq> PTE2PA ?v" using old i Cons by (auto simp: user_space_def uown_def)
    then have "read_bytes (mem t) (PTE2PA ?v) 4096 = read_bytes (mem s) (PTE2PA ?v) 4096"
      using same_outside_page [OF t(5) _ page_ok_aligned [OF pok]] page_ok_aligned [OF qok] by (intro read_bytes_cong) fastforce
    then have cont: "read_bytes (mem u) q 4096 = read_bytes (mem s) (PTE2PA ?v) 4096" using M(1) mu by simp
    have ks: "umem (mem u) new J = umem (mem s) new J" "pt_pages (mem u) new = pt_pages (mem s) new" "uown (mem u) new J = uown (mem s) new J"
      "\<And>j. upte (mem u) new j = upte (mem s) new j" "kmem_only s u"
      using t(4) U(2) keeps_upte [OF t(4)] keeps_upte [OF U(2)] kmem_only_trans by (auto simp: keeps_def)
    have freeu: "upte (mem u) new i AND PTE_V = 0" using free ks(4) by simp
    have out: "same_outside {q} (mem s) (mem u)" using same_outside_trans [OF t(5) M(2)] by (simp add: mu)
    have run: "uvmcopy_loop old new (vpage 0 i) sz s =
        bind (mappages new (vpage 0 i) PGSIZE q (PTE_FLAGS ?v)) (\<lambda>r.
          if r \<noteq> 0 then andthen (kfree q) (andthen (uvmunmap new 0 (of_nat i) True) (ret (- 1)))
          else uvmcopy_loop old new (vpage 0 (Suc i)) sz) u"
      unfolding vpage0_Suc [symmetric] vpage0_div [OF i26, symmetric]
      using less w a0 ra v q0 t(1)
      by (simp add: uvmcopy_loop.simps [of old new "vpage 0 i"] bind_apply andthen_apply u_def)
    from U(1,3) i(2) i26 freeu flags_perm(1,3) [OF v] show ?thesis
    proof (cases rule: map_user)
      case (mapped x gs)
      have sp: "pt_pages (mem x) new = pt_pages (mem u) new \<union> (set hs - set gs)" "set gs \<subseteq> set hs" "kmem_only u x"
        "same_outside (pt_pages (mem u) new \<union> set hs) (mem u) (mem x)"
        using mapped(6) by (auto simp: vm_step_def kmem_only_def same_outside_def dest: in_set_dropD)
      have span: "span x new (insert i J) gs \<subseteq> span s new J fs" using mapped(4) sp ks Cons by auto
      have outx: "same_outside (span s new J fs) (mem s) (mem x)"
        by (rule same_outside_trans [OF out sp(4)]) (use ks Cons in auto)
      have "umem (mem x) new (insert i J) = (umem (mem s) new J)(i := umem (mem s) old I i)"
        using mapped(3) cont ks(1) flags_perm(2) [OF v] i(1) by (simp add: umem_def [of _ old])
      moreover have "uvmcopy_loop old new (vpage 0 i) sz s = uvmcopy_loop old new (vpage 0 (Suc i)) sz x"
        using run mapped(1) by (simp add: bind_apply)
      moreover have "length fs \<le> length gs + 3" using mapped(7) Cons by simp
      moreover have "upte (mem x) new j = upte (mem s) new j" if "j < 67108864" "j \<noteq> i" for j using mapped(5) [OF that] ks(4) by simp
      ultimately show ?thesis
        using copied mapped(2) keep [OF mapped(2) kmem_only_trans [OF ks(5) sp(3)] outx span] span outx by metis
    next
      case (full x)
      have sp: "pt_pages (mem x) new = pt_pages (mem u) new \<union> set hs" "kmem_only u x"
        "same_outside (pt_pages (mem u) new \<union> set hs) (mem u) (mem x)"
        using full(7) by (auto simp: vm_step_def kmem_only_def same_outside_def)
      obtain y where y: "kfree q x = Ok () y" "user_space y new J [q]" "keeps new J x y" "same_outside {q} (mem x) (mem y)"
        using kfree_user [OF full(2,6)] by blast
      have span: "span y new J [q] \<subseteq> span s new J fs" using y(3) full(4) sp ks Cons by (auto simp: keeps_def)
      have "same_outside (span s new J fs) (mem s) (mem x)"
        by (rule same_outside_trans [OF out sp(3)]) (use ks Cons in auto)
      then have outy: "same_outside (span s new J fs) (mem s) (mem y)"
        by (rule same_outside_trans [OF _ y(4)]) (use Cons in auto)
      have only: "kmem_only s y" using y(3) kmem_only_trans [OF kmem_only_trans [OF ks(5) sp(2)]] by (simp add: keeps_def)
      have "uvmcopy_loop old new (vpage 0 i) sz s = andthen (uvmunmap new 0 (of_nat i) True) (ret (- 1)) y"
        using run full(1) y(1) by (simp add: bind_apply andthen_apply)
      moreover have "upte (mem y) new j = upte (mem s) new j" if "j < 67108864" for j
        using full(5) [OF that] ks(4) keeps_upte [OF y(3)] by simp
      moreover have "length fs \<le> 3" using full(8) Cons by simp
      ultimately show ?thesis using that(2) y(2) keep [OF y(2) only outy span] span outy by metis
    qed
  qed
qed

end
