(* ===== verification/Vm_Copy.thy ===== *)
theory Vm_Copy
  imports Vm_Spec
begin

text \<open>
  The theorems about \<open>kernel/vm.c\<close> that its callers rest on: \<open>uvmalloc\<close> and \<open>uvmdealloc\<close> (used by
  \<open>growproc\<close> and \<open>exec\<close>), \<open>uvmcopy\<close> (used by \<open>fork\<close>), and \<open>copyout\<close> and \<open>copyin\<close> (used by the system
  calls).
\<close>

section \<open>Copying all pages\<close>

lemma parent_kept_trans:
  "parent_kept old I new J s t gs \<Longrightarrow> parent_kept old I new K t u hs \<Longrightarrow> parent_kept old I new K s u hs"
  using kmem_only_trans by (auto simp: parent_kept_def)

lemma uvmcopy_undo:
  assumes old: "user_space t old I gs" and new: "user_space t new {..<k} gs" and ap: "apart t old I new {..<k}"
    and k: "k < 67108864"
  obtains u hs where "andthen (uvmunmap new 0 (of_nat k) True) (ret (- 1)) t = Ok (- 1 :: int) u"
    and "user_space u new {} hs" and "parent_kept old I new {} t u hs"
    and "\<And>j. j < 67108864 \<Longrightarrow> upte (mem u) new j = (if j < k then 0 else upte (mem t) new j)"
    and "span u new {} hs \<subseteq> span t new {..<k} gs" and "same_outside (span t new {..<k} gs) (mem t) (mem u)"
proof -
  have sub: "{0..<k} \<subseteq> {..<k}" by auto
  have e: "{..<k} - {0..<k} = {}" by auto
  obtain u where u: "uvmunmap new (vpage 0 0) (of_nat (k - 0)) True t = Ok () u"
    "user_space u new ({..<k} - {0..<k}) (map (\<lambda>i. PTE2PA (upte (mem t) new i)) (rev [0..<k]) @ gs)"
    "unmapped new {..<k} {0..<k} t u" "same_outside (span t new {..<k} gs) (mem t) (mem u)"
    using uvmunmap_pages [OF new sub] k by fastforce
  let ?hs = "map (\<lambda>i. PTE2PA (upte (mem t) new i)) (rev [0..<k]) @ gs"
  have sp: "span u new {} ?hs \<subseteq> span t new {..<k} gs"
    using u(3) by (auto simp: unmapped_def uown_def)
  have us: "user_space u new {} ?hs" using u(2) unfolding e .
  have "kmem_only t u" using u(3) by (simp add: unmapped_def)
  then have "parent_kept old I new {} t u ?hs"
    using other_space [OF old new ap, of "{}" u "{}" ?hs] u(4) us sp by (simp add: parent_kept_def)
  moreover have "andthen (uvmunmap new 0 (of_nat k) True) (ret (- 1)) t = Ok (- 1 :: int) u"
    using u(1) by (simp add: andthen_apply vpage_def)
  moreover have "upte (mem u) new j = (if j < k then 0 else upte (mem t) new j)" if "j < 67108864" for j
    using u(3) that by (simp add: unmapped_def)
  ultimately show ?thesis using that [OF _ us _ _ sp u(4)] by blast
qed

lemma uvmcopy_loop_copies:
  assumes "user_space s old {..<n} fs" and "user_space s new {..<k} fs" and "apart s old {..<n} new {..<k}"
    and "n = pgs sz" and "k \<le> n" and "sz \<le> MAXVA"
    and "\<And>j. k \<le> j \<Longrightarrow> j < n \<Longrightarrow> upte (mem s) new j AND PTE_V = 0"
    and "\<And>j. j < k \<Longrightarrow> umem (mem s) new {..<k} j = umem (mem s) old {..<n} j"
  shows "\<exists>r t gs J. uvmcopy_loop old new (vpage 0 k) sz s = Ok r t \<and> parent_kept old {..<n} new J s t gs \<and> user_space t new J gs \<and>
    (\<forall>j<67108864. n \<le> j \<longrightarrow> upte (mem t) new j = upte (mem s) new j) \<and>
    span t new J gs \<subseteq> span s new {..<k} fs \<and> same_outside (span s new {..<k} fs) (mem s) (mem t) \<and>
    (r = 0 \<and> J = {..<n} \<and> umem (mem t) new {..<n} = umem (mem s) old {..<n} \<or>
     r = - 1 \<and> J = {} \<and> length fs \<le> 3 * (n - k) \<and> (\<forall>j<n. upte (mem t) new j AND PTE_V = 0))"
  using assms
proof (induction "n - k" arbitrary: k s fs)
  case 0
  then have k: "k = n" "k \<le> 67108864" using pgs_bound [of sz] by auto
  then have "\<not> vpage 0 k < sz" using 0 by (simp add: vpage_less_pgs)
  then have run: "uvmcopy_loop old new (vpage 0 k) sz s = Ok 0 s"
    by (simp add: uvmcopy_loop.simps [of old new "vpage 0 k"])
  have "umem (mem s) new {..<n} = umem (mem s) old {..<n}"
  proof
    fix j show "umem (mem s) new {..<n} j = umem (mem s) old {..<n} j"
      using "0.prems"(8) [of j] k(1) by (cases "j < n") (auto simp: umem_def)
  qed
  moreover have "parent_kept old {..<n} new {..<n} s s fs" using "0.prems"(1,3) k by (simp add: parent_kept_def)
  ultimately show ?case using "0.prems"(2) run k
    by (intro exI [of _ 0] exI [of _ s] exI [of _ fs] exI [of _ "{..<n}"]) simp
next
  case (Suc d)
  then have k: "k < n" "k < 67108864" using pgs_bound [of sz] by auto
  have less: "vpage 0 k < sz" using k Suc.prems(4) by (simp add: vpage_less_pgs)
  have ins: "insert k {..<k} = {..<Suc k}" by auto
  have free: "upte (mem s) new k AND PTE_V = 0" using Suc.prems(7) k by simp
  have mem: "k \<in> {..<n}" "k \<notin> {..<k}" using k by auto
  from Suc.prems(1-3) mem free less show ?case
  proof (cases rule: uvmcopy_turn)
    case (copied t gs)
    note c = copied [unfolded ins]
    have old': "user_space t old {..<n} gs" "umem (mem t) old {..<n} = umem (mem s) old {..<n}" "apart t old {..<n} new {..<Suc k}"
      using c(3) by (auto simp: parent_kept_def)
    have fr: "upte (mem t) new j AND PTE_V = 0" if "Suc k \<le> j" "j < n" for j
      using c(5) [of j] Suc.prems(4,6,7) that pgs_bound [of sz] by simp
    have same: "umem (mem t) new {..<Suc k} j = umem (mem t) old {..<n} j" if "j < Suc k" for j
      using Suc.prems(8) [of j] that unfolding c(4) old'(2) by (auto simp: less_Suc_eq)
    have d: "d = n - Suc k" "Suc k \<le> n" using Suc.hyps(2) k by auto
    from Suc.hyps(1) [OF d(1) old'(1) c(2) old'(3) Suc.prems(4) d(2) Suc.prems(6) fr same] obtain r u hs J where
      u: "uvmcopy_loop old new (vpage 0 (Suc k)) sz t = Ok r u" "parent_kept old {..<n} new J t u hs" "user_space u new J hs"
      "\<forall>j<67108864. n \<le> j \<longrightarrow> upte (mem u) new j = upte (mem t) new j"
      "span u new J hs \<subseteq> span t new {..<Suc k} gs" "same_outside (span t new {..<Suc k} gs) (mem t) (mem u)"
      and alt: "r = 0 \<and> J = {..<n} \<and> umem (mem u) new {..<n} = umem (mem t) old {..<n} \<or>
        r = - 1 \<and> J = {} \<and> length gs \<le> 3 * (n - Suc k) \<and> (\<forall>j<n. upte (mem u) new j AND PTE_V = 0)" by blast
    have "r = 0 \<and> J = {..<n} \<and> umem (mem u) new {..<n} = umem (mem s) old {..<n} \<or>
        r = - 1 \<and> J = {} \<and> length fs \<le> 3 * (n - k) \<and> (\<forall>j<n. upte (mem u) new j AND PTE_V = 0)"
      using alt old'(2) c(6) k(1) by auto
    moreover have "\<forall>j<67108864. n \<le> j \<longrightarrow> upte (mem u) new j = upte (mem s) new j" using u(4) c(5) k(1) by auto
    moreover have "same_outside (span s new {..<k} fs) (mem s) (mem u)"
      by (rule same_outside_trans [OF c(8) u(6) order.refl c(7)])
    moreover have "span u new J hs \<subseteq> span s new {..<k} fs" using u(5) c(7) by (rule order.trans)
    ultimately show ?thesis using trans [OF c(1) u(1)] parent_kept_trans [OF c(3) u(2)] u(3) by blast
  next
    case (full t gs)
    have old': "user_space t old {..<n} gs" "apart t old {..<n} new {..<k}" using full(3) by (auto simp: parent_kept_def)
    obtain u hs where u: "andthen (uvmunmap new 0 (of_nat k) True) (ret (- 1)) t = Ok (- 1 :: int) u" "user_space u new {} hs"
      "parent_kept old {..<n} new {} t u hs" "\<And>j. j < 67108864 \<Longrightarrow> upte (mem u) new j = (if j < k then 0 else upte (mem t) new j)"
      "span u new {} hs \<subseteq> span t new {..<k} gs" "same_outside (span t new {..<k} gs) (mem t) (mem u)"
      using uvmcopy_undo [OF old'(1) full(2) old'(2) k(2)] by metis
    have "length fs \<le> 3 * (n - k)" using full(5) k(1) by simp
    moreover have "\<forall>j<n. upte (mem u) new j AND PTE_V = 0"
      using u(4) full(4) Suc.prems(4,6,7) pgs_bound [of sz] by (auto simp: not_less)
    moreover have "\<forall>j<67108864. n \<le> j \<longrightarrow> upte (mem u) new j = upte (mem s) new j" using u(4) full(4) k(1) by auto
    moreover have "same_outside (span s new {..<k} fs) (mem s) (mem u)"
      by (rule same_outside_trans [OF full(7) u(6) order.refl full(6)])
    moreover have "span u new {} hs \<subseteq> span s new {..<k} fs" using u(5) full(6) by (rule order.trans)
    ultimately show ?thesis using trans [OF full(1) u(1)] parent_kept_trans [OF full(3) u(3)] u(2) by blast
  qed
qed

lemma uvmcopy_run:
  assumes "user_space s old {..<pgs sz} fs" and "user_space s new {} fs" and "apart s old {..<pgs sz} new {}"
    and "sz \<le> MAXVA" and "\<forall>j<pgs sz. upte (mem s) new j AND PTE_V = 0"
  shows "\<exists>r t gs J. uvmcopy old new sz s = Ok r t \<and> parent_kept old {..<pgs sz} new J s t gs \<and> user_space t new J gs \<and>
    (\<forall>j<67108864. pgs sz \<le> j \<longrightarrow> upte (mem t) new j = upte (mem s) new j) \<and>
    span t new J gs \<subseteq> span s new {} fs \<and> same_outside (span s new {} fs) (mem s) (mem t) \<and>
    (r = 0 \<and> J = {..<pgs sz} \<and> umem (mem t) new {..<pgs sz} = umem (mem s) old {..<pgs sz} \<or>
     r = - 1 \<and> J = {} \<and> length fs \<le> 3 * pgs sz)"
proof -
  have e: "{..<0 :: nat} = {}" by auto
  have "uvmcopy old new sz s = uvmcopy_loop old new (vpage 0 0) sz s" by (simp add: uvmcopy_def vpage_def)
  then show ?thesis
    using uvmcopy_loop_copies [of s old "pgs sz" fs new 0 sz] assms unfolding e by simp blast
qed

section \<open>Copying bytes to and from user memory\<close>

text \<open>A page the user may access, and the byte at a user address.\<close>

definition uacc :: "store \<Rightarrow> u64 \<Rightarrow> nat \<Rightarrow> bool" where
  "uacc m root j \<longleftrightarrow> j < 67108864 \<and> upte m root j AND PTE_V \<noteq> 0 \<and> upte m root j AND PTE_U \<noteq> 0"

definition ubyte :: "store \<Rightarrow> u64 \<Rightarrow> nat \<Rightarrow> byte" where
  "ubyte m root a = m (PTE2PA (upte m root (a div 4096)) + of_nat (a mod 4096))"

lemma PGROUNDDOWN_vpage: "PGROUNDDOWN va = vpage 0 (unat va div 4096)"
proof -
  have "unat va div 4096 * 4096 < 2 ^ 64" using unat_less_2p64 [of va] by (metis div_times_less_eq_dividend le_less_trans)
  then have "unat (vpage 0 (unat va div 4096)) = unat (PGROUNDDOWN va)"
    unfolding unat_PGROUNDDOWN vpage_def by (simp add: unat_word_ariths unat_of_nat mult.commute)
  then show ?thesis by (metis unsigned_word_eqI)
qed

lemma page_offset: "va - PGROUNDDOWN va = of_nat (unat va mod 4096)"
proof -
  have "PGROUNDDOWN va \<le> va" by (simp add: word_le_nat_alt unat_PGROUNDDOWN)
  then have "unat (va - PGROUNDDOWN va) = unat va - unat va div 4096 * 4096" by (simp add: unat_sub unat_PGROUNDDOWN)
  also have "\<dots> = unat va mod 4096" by (simp add: minus_div_mult_eq_mod)
  also have "\<dots> = unat (of_nat (unat va mod 4096) :: u64)"
  proof (rule unat_of_nat_small [symmetric])
    have "unat va mod 4096 < 4096" by simp
    then show "unat va mod 4096 < 2 ^ LENGTH(64)" by simp
  qed
  finally show ?thesis by (rule unsigned_word_eqI)
qed

lemma walkaddr_user:
  assumes us: "user_space s root I fs" and cl: "\<And>j. uacc (mem s) root j \<Longrightarrow> j \<in> I"
  shows "walkaddr root (PGROUNDDOWN va) s = Ok (if uacc (mem s) root (unat va div 4096) then PTE2PA (upte (mem s) root (unat va div 4096)) else 0) s"
proof -
  let ?j = "unat va div 4096"
  have va: "PGROUNDDOWN va < MAXVA \<longleftrightarrow> ?j < 67108864"
    unfolding word_less_nat_alt unat_PGROUNDDOWN by auto
  show ?thesis
  proof (cases "?j < 67108864")
    case False
    then have "MAXVA \<le> PGROUNDDOWN va" using va by simp
    then show ?thesis using False by (simp add: walkaddr_def uacc_def)
  next
    case True
    have as: "addr_space s root fs" using us by (simp add: user_space_def)
    note w = walk_nonalloc [OF va [THEN iffD2, OF True], of root s]
    have nle: "\<not> MAXVA \<le> PGROUNDDOWN va" using va True by simp
    show ?thesis
    proof (cases "pte_slot (mem s) root (PGROUNDDOWN va)")
      case None
      then have "upte (mem s) root ?j = 0" unfolding upte_def PGROUNDDOWN_vpage [symmetric] by (simp add: pte_of_def)
      then show ?thesis using w None nle by (simp add: walkaddr_def bind_apply uacc_def)
    next
      case (Some a)
      have "a \<noteq> 0" by (rule user_slot_nonzero [OF as Some])
      moreover have "read64 (mem s) a = upte (mem s) root ?j"
        unfolding upte_def PGROUNDDOWN_vpage [symmetric] using Some by (simp add: pte_of_def)
      ultimately show ?thesis using w Some nle True by (simp add: walkaddr_def bind_apply uacc_def)
    qed
  qed
qed

lemma user_write:
  assumes us: "user_space s root I fs" and i: "i \<in> I" and out: "same_outside {PTE2PA (upte (mem s) root i)} (mem s) m"
  shows "user_space (s\<lparr>mem := m\<rparr>) root I fs" and "upte m root j = upte (mem s) root j" and "pt_pages m root = pt_pages (mem s) root"
    and "kmem_only s (s\<lparr>mem := m\<rparr>)"
proof -
  note S = store_user [OF user_space_subset [OF us] user_space_loose [OF us i] out]
  have sub: "I - {i} \<subseteq> I" by auto
  have u: "upte m root j = upte (mem s) root j" for j using keeps_upte [OF S(2) [OF sub], of j] by simp
  then show "upte m root j = upte (mem s) root j" .
  show pp: "pt_pages m root = pt_pages (mem s) root" and "kmem_only s (s\<lparr>mem := m\<rparr>)" using S(2) [OF sub] by (auto simp: keeps_def)
  have "addr_space (s\<lparr>mem := m\<rparr>) root fs" using S(1) [OF sub] by (simp add: user_space_def)
  moreover have "uown m root I = uown (mem s) root I" by (rule uown_cong [OF u])
  ultimately show "user_space (s\<lparr>mem := m\<rparr>) root I fs" using us u pp by (simp add: user_space_def)
qed

lemma write_bytes_outside:
  assumes "aligned 4096 p" and "off + length bs \<le> 4096"
  shows "same_outside {p} m (write_bytes m (p + of_nat off) bs)"
  unfolding same_outside_def
proof (intro allI impI)
  fix x assume x: "\<forall>q\<in>{p}. \<not> in_page q x"
  have "\<not> unat (x - (p + of_nat off)) < length bs"
  proof
    assume l: "unat (x - (p + of_nat off)) < length bs"
    define d where "d = x - (p + of_nat off)"
    have "x - p = d + of_nat off" by (simp add: d_def)
    moreover have "unat (d + of_nat off) = unat d + off"
      using l assms(2) by (simp add: unat_word_ariths unat_of_nat d_def [symmetric])
    ultimately have "in_page p x" using l assms(2) by (simp add: in_page_def d_def)
    then show False using x by simp
  qed
  then show "write_bytes m (p + of_nat off) bs x = m x" by (simp add: write_bytes_def)
qed

lemma write_bytes_at:
  assumes "off + length bs \<le> 4096" and "o' < 4096"
  shows "write_bytes m (p + of_nat off) bs (p + of_nat o') =
    (if off \<le> o' \<and> o' < off + length bs then bs ! (o' - off) else m (p + of_nat o'))"
proof (cases "off \<le> o'")
  case True
  then have "p + of_nat o' - (p + of_nat off) = of_nat (o' - off)" by simp
  then have "unat (p + of_nat o' - (p + of_nat off)) = o' - off" using assms(2) by (simp only: unat_of_nat) simp
  then show ?thesis using True by (auto simp: write_bytes_def)
next
  case False
  have "\<not> unat (p + of_nat o' - (p + of_nat off)) < length bs"
  proof
    define d where "d = p + of_nat o' - (p + of_nat off)"
    assume l: "unat (p + of_nat o' - (p + of_nat off)) < length bs"
    have "unat d < length bs" using l unfolding d_def .
    then have "unat (d + of_nat off) = unat d + off"
      using assms(1) by (simp add: unat_word_ariths unat_of_nat)
    moreover have "d + of_nat off = of_nat o'" by (simp add: d_def)
    moreover have "unat (of_nat o' :: u64) = o'" using assms(2) by (intro unat_of_nat_small) simp
    ultimately show False using False by simp
  qed
  then show ?thesis using False assms by (auto simp: write_bytes_def)
qed

text \<open>The pages touched by \<open>n\<close> bytes from address \<open>a\<close>, all accessible.\<close>

definition urange :: "store \<Rightarrow> u64 \<Rightarrow> nat \<Rightarrow> nat \<Rightarrow> bool" where
  "urange m root a n \<longleftrightarrow> (\<forall>b. a \<le> b \<longrightarrow> b < a + n \<longrightarrow> uacc m root (b div 4096))"

lemma urange_split:
  assumes "0 < k" and "a mod 4096 + k \<le> 4096" and "k \<le> n"
  shows "urange m root a n \<longleftrightarrow> uacc m root (a div 4096) \<and> urange m root (a + k) (n - k)"
proof -
  have page: "b div 4096 = a div 4096" if "a \<le> b" "b < a + k" for b
  proof -
    define x c where "x = a mod 4096 + (b - a)" and "c = a div 4096"
    have "b = x + 4096 * c" using that by (simp add: x_def c_def)
    moreover have "x < 4096" using that assms(2) by (simp add: x_def)
    ultimately show ?thesis unfolding c_def [symmetric] by simp
  qed
  show ?thesis
  proof
    assume r: "urange m root a n"
    have "uacc m root (a div 4096)" using r [unfolded urange_def, rule_format, of a] assms by simp
    moreover have "urange m root (a + k) (n - k)"
      unfolding urange_def using r [unfolded urange_def, rule_format] assms(3) by simp
    ultimately show "uacc m root (a div 4096) \<and> urange m root (a + k) (n - k)" by simp
  next
    assume r: "uacc m root (a div 4096) \<and> urange m root (a + k) (n - k)"
    show "urange m root a n"
      unfolding urange_def
    proof (intro allI impI)
      fix b assume "a \<le> b" and "b < a + n"
      then show "uacc m root (b div 4096)" using page [of b] r assms(3) by (cases "b < a + k") (auto simp: urange_def)
    qed
  qed
qed

text \<open>Where the loops of \<open>copyout\<close> and \<open>copyin\<close> cut: at the end of the page.\<close>

lemma chunk:
  fixes va :: u64
  assumes "0 < n"
  defines "k \<equiv> min (4096 - unat (va - PGROUNDDOWN va)) n"
  shows "k = min (4096 - unat va mod 4096) n" and "0 < k" and "k \<le> n" and "unat va mod 4096 + k \<le> 4096"
    and "unat va div 4096 < 67108864 \<Longrightarrow> n \<noteq> k \<Longrightarrow> unat (PGROUNDDOWN va + PGSIZE) = unat va + k"
proof -
  have o: "unat (va - PGROUNDDOWN va) = unat va mod 4096" unfolding page_offset
  proof (rule unat_of_nat_small)
    have "unat va mod 4096 < 4096" by simp
    then show "unat va mod 4096 < 2 ^ LENGTH(64)" by simp
  qed
  show k: "k = min (4096 - unat va mod 4096) n" by (simp add: k_def o)
  have m: "unat va mod 4096 < 4096" by simp
  show "0 < k" "k \<le> n" "unat va mod 4096 + k \<le> 4096" using assms(1) m unfolding k by auto
  assume va: "unat va div 4096 < 67108864" and nk: "n \<noteq> k"
  have "k = 4096 - unat va mod 4096" using nk unfolding k by auto
  then have "unat va + k = unat va div 4096 * 4096 + 4096" using m div_mult_mod_eq [of "unat va" 4096] by linarith
  moreover have "unat (PGROUNDDOWN va + PGSIZE) = unat va div 4096 * 4096 + 4096"
    using va by (simp add: unat_word_ariths unat_PGROUNDDOWN)
  ultimately show "unat (PGROUNDDOWN va + PGSIZE) = unat va + k" by simp
qed

lemma ubyte_write:
  assumes us: "user_space s root I fs" and j: "j \<in> I" and off: "off + length bs \<le> 4096"
    and m: "m = write_bytes (mem s) (PTE2PA (upte (mem s) root j) + of_nat off) bs" and a: "a div 4096 \<in> I"
  shows "ubyte m root a =
    (if j * 4096 + off \<le> a \<and> a < j * 4096 + off + length bs then bs ! (a - (j * 4096 + off)) else ubyte (mem s) root a)"
proof -
  let ?p = "PTE2PA (upte (mem s) root j)"
  have al: "aligned 4096 ?p" by simp
  have out: "same_outside {?p} (mem s) m" unfolding m by (rule write_bytes_outside [OF al off])
  note U = user_write(2) [OF us j out]
  define c d where "c = a div 4096" and "d = a mod 4096"
  have ad: "a = c * 4096 + d" "d < 4096" by (simp_all add: c_def d_def)
  have ub: "ubyte m root a = m (PTE2PA (upte (mem s) root c) + of_nat d)" by (simp add: ubyte_def U c_def d_def)
  show ?thesis
  proof (cases "c = j")
    case True
    have "ubyte m root a = (if off \<le> d \<and> d < off + length bs then bs ! (d - off) else mem s (?p + of_nat d))"
      unfolding ub True unfolding m by (rule write_bytes_at [OF off ad(2)])
    moreover have "ubyte (mem s) root a = mem s (?p + of_nat d)" using True by (simp add: ubyte_def c_def d_def)
    ultimately show ?thesis using True ad by simp
  next
    case False
    have pg: "in_page (PTE2PA (upte (mem s) root c)) (PTE2PA (upte (mem s) root c) + of_nat d)"
      using ad(2) by (simp add: in_page_def unat_of_nat)
    have "PTE2PA (upte (mem s) root c) \<notin> {?p}"
      using us j a False unfolding c_def by (auto simp: user_space_def dest: inj_onD)
    with same_outside_page [OF out _ _ _ pg] have "m (PTE2PA (upte (mem s) root c) + of_nat d) = mem s (PTE2PA (upte (mem s) root c) + of_nat d)"
      by simp
    then have "ubyte m root a = ubyte (mem s) root a" unfolding ub by (simp add: ubyte_def c_def d_def)
    moreover have "\<not> (j * 4096 + off \<le> a \<and> a < j * 4096 + off + length bs)"
      using False ad off by auto
    ultimately show ?thesis by (simp only: if_False)
  qed
qed

lemma copyout_spec:
  assumes "user_space s root I fs" and "\<And>j. uacc (mem s) root j \<Longrightarrow> j \<in> I"
  shows "\<exists>t. copyout root va src s = Ok (if urange (mem s) root (unat va) (length src) then 0 else - 1) t \<and>
    user_space t root I fs \<and> kmem_only s t \<and> (\<forall>j. upte (mem t) root j = upte (mem s) root j) \<and>
    pt_pages (mem t) root = pt_pages (mem s) root \<and>
    same_outside (uown (mem s) root {j. uacc (mem s) root j}) (mem s) (mem t) \<and>
    (urange (mem s) root (unat va) (length src) \<longrightarrow> (\<forall>a. a div 4096 \<in> I \<longrightarrow> ubyte (mem t) root a =
       (if unat va \<le> a \<and> a < unat va + length src then src ! (a - unat va) else ubyte (mem s) root a)))"
  using assms
proof (induction "length src" arbitrary: va src s rule: less_induct)
  case less
  let ?j = "unat va div 4096" and ?off = "unat va mod 4096"
  show ?case
  proof (cases "src = []")
    case True
    have "urange (mem s) root (unat va) 0" by (simp add: urange_def)
    moreover have "copyout root va [] s = Ok 0 s" by (simp add: copyout.simps [of root va])
    ultimately show ?thesis using True less.prems(1) by (intro exI [of _ s]) auto
  next
    case False
    define k where "k = min (4096 - unat (va - PGROUNDDOWN va)) (length src)"
    have n0: "0 < length src" using False by simp
    note C = chunk [OF n0, of va, folded k_def]
    note W = walkaddr_user [OF less.prems, of va]
    note R = urange_split [OF C(2,4,3), of "mem s" root]
    show ?thesis
    proof (cases "uacc (mem s) root ?j")
      case no: False
      then have "copyout root va src s = Ok (- 1) s"
        using False W by (simp add: copyout.simps [of root va] Let_def bind_apply)
      then show ?thesis using less.prems R no by (intro exI [of _ s]) simp
    next
      case acc: True
      define p where "p = PTE2PA (upte (mem s) root ?j)"
      have j: "?j \<in> I" "?j < 67108864" using less.prems(2) acc by (auto simp: uacc_def)
      have pok: "page_ok (kend s) p" using less.prems(1) j(1) unfolding p_def by (auto simp: user_space_def uown_def)
      have al: "aligned 4096 p" and p0: "p \<noteq> 0" using pok by (auto simp: page_ok_def)
      define m where "m = write_bytes (mem s) (p + of_nat ?off) (take k src)"
      have len: "length (take k src) = k" using C(3) by simp
      have wout: "same_outside {p} (mem s) m" unfolding m_def by (rule write_bytes_outside [OF al]) (simp only: len C(4))
      note UW = user_write [OF less.prems(1) j(1) wout [unfolded p_def]]
      define t where "t = s\<lparr>mem := m\<rparr>"
      have mt: "mem t = m" by (simp add: t_def)
      have run: "copyout root va src s = copyout root (PGROUNDDOWN va + PGSIZE) (drop k src) t"
        using False W acc p0 unfolding copyout.simps [of root va src s]
        by (simp add: Let_def bind_apply andthen_apply page_offset m_def p_def k_def t_def)
      have accm: "uacc (mem t) root = uacc (mem s) root" by (simp add: fun_eq_iff uacc_def UW(2) mt)
      have um: "urange (mem t) root = urange (mem s) root" by (simp add: fun_eq_iff urange_def accm)
      have ut: "uown (mem t) root A = uown (mem s) root A" for A by (rule uown_cong) (simp add: mt UW(2))
      have short: "length (drop k src) < length src" using C(2) n0 by simp
      let ?b = "unat (PGROUNDDOWN va + PGSIZE)" and ?n = "length src - k"
      obtain u where u: "copyout root (PGROUNDDOWN va + PGSIZE) (drop k src) t = Ok (if urange (mem s) root ?b ?n then 0 else - 1) u"
        and us: "user_space u root I fs" "kmem_only t u" "\<forall>j. upte (mem u) root j = upte (mem t) root j"
          "pt_pages (mem u) root = pt_pages (mem t) root"
          "same_outside (uown (mem s) root {j. uacc (mem s) root j}) (mem t) (mem u)"
        and ub: "urange (mem s) root ?b ?n \<Longrightarrow> a div 4096 \<in> I \<Longrightarrow> ubyte (mem u) root a =
            (if ?b \<le> a \<and> a < ?b + ?n then drop k src ! (a - ?b) else ubyte (mem t) root a)" for a
        using less.hyps [OF short UW(1) [folded t_def], of "PGROUNDDOWN va + PGSIZE"] less.prems(2) unfolding accm um ut length_drop by blast
      have b: "k = length src \<or> ?b = unat va + k" using C(5) [OF j(2)] by blast
      have rng: "urange (mem s) root ?b ?n = urange (mem s) root (unat va + k) ?n"
        using b by (auto simp: urange_def)
      have bt: "ubyte (mem t) root a = (if unat va \<le> a \<and> a < unat va + k then src ! (a - unat va) else ubyte (mem s) root a)"
        if "a div 4096 \<in> I" for a
        using ubyte_write [OF less.prems(1) j(1) _ m_def [unfolded p_def] that, unfolded len, OF C(4)]
        unfolding mt div_mult_mod_eq by auto
      show ?thesis
      proof (intro exI [of _ u] conjI impI allI)
        show "copyout root va src s = Ok (if urange (mem s) root (unat va) (length src) then 0 else - 1) u"
          using run u rng R acc by simp
        show "user_space u root I fs" by (rule us(1))
        show "kmem_only s u" using kmem_only_trans [OF UW(4) us(2) [unfolded t_def]] .
        show "upte (mem u) root i = upte (mem s) root i" for i using us(3) UW(2) by (simp add: mt)
        show "pt_pages (mem u) root = pt_pages (mem s) root" using us(4) UW(3) by (simp add: mt)
        have "{p} \<subseteq> uown (mem s) root {j. uacc (mem s) root j}" using acc by (auto simp: uown_def p_def)
        then show "same_outside (uown (mem s) root {j. uacc (mem s) root j}) (mem s) (mem u)"
          using same_outside_trans [OF wout us(5) [unfolded mt]] by blast
        fix a assume rg: "urange (mem s) root (unat va) (length src)" and a: "a div 4096 \<in> I"
        then have "ubyte (mem u) root a = (if ?b \<le> a \<and> a < ?b + ?n then drop k src ! (a - ?b) else ubyte (mem t) root a)"
          using ub rng R by blast
        then show "ubyte (mem u) root a = (if unat va \<le> a \<and> a < unat va + length src then src ! (a - unat va) else ubyte (mem s) root a)"
          using b bt [OF a] C(3) by (auto simp: not_less less_diff_conv add.commute)
      qed
    qed
  qed
qed

lemma read_chunk:
  assumes "unat va mod 4096 + k \<le> 4096"
  shows "read_bytes m (PTE2PA (upte m root (unat va div 4096)) + (va - PGROUNDDOWN va)) k = map (ubyte m root) [unat va..<unat va + k]"
proof (rule nth_equalityI)
  fix i assume "i < length (read_bytes m (PTE2PA (upte m root (unat va div 4096)) + (va - PGROUNDDOWN va)) k)"
  then have i: "i < k" by (simp add: read_bytes_def)
  define c d where "c = unat va div 4096" and "d = unat va mod 4096"
  have va: "unat va = 4096 * c + d" "d + i < 4096" using i assms by (simp_all add: c_def d_def)
  have "(unat va + i) div 4096 = c" "(unat va + i) mod 4096 = d + i"
    using va(2) unfolding va(1) by (simp_all add: add.assoc)
  then show "read_bytes m (PTE2PA (upte m root (unat va div 4096)) + (va - PGROUNDDOWN va)) k ! i =
      map (ubyte m root) [unat va..<unat va + k] ! i"
    using i unfolding page_offset by (simp add: read_bytes_def ubyte_def c_def d_def add.assoc)
qed (simp add: read_bytes_def)

lemma copyin_spec:
  assumes "user_space s root I fs" and "\<And>j. uacc (mem s) root j \<Longrightarrow> j \<in> I"
  shows "\<exists>bs. copyin root va n s = Ok (if urange (mem s) root (unat va) n then 0 else - 1, bs) s \<and>
    (urange (mem s) root (unat va) n \<longrightarrow> bs = map (ubyte (mem s) root) [unat va..<unat va + n])"
  using assms
proof (induction n arbitrary: va rule: less_induct)
  case (less n)
  let ?j = "unat va div 4096"
  show ?case
  proof (cases "n = 0")
    case True
    then show ?thesis by (simp add: copyin.simps [of root va] urange_def)
  next
    case False
    define k where "k = min (4096 - unat (va - PGROUNDDOWN va)) n"
    have n0: "0 < n" using False by simp
    note C = chunk [OF n0, of va, folded k_def]
    note W = walkaddr_user [OF less.prems, of va]
    note R = urange_split [OF C(2,4,3), of "mem s" root]
    show ?thesis
    proof (cases "uacc (mem s) root ?j")
      case no: False
      then show ?thesis using False W R by (simp add: copyin.simps [of root va] Let_def bind_apply)
    next
      case acc: True
      then have j: "?j \<in> I" "?j < 67108864" using less.prems(2) by (auto simp: uacc_def)
      have p0: "PTE2PA (upte (mem s) root ?j) \<noteq> 0" using less.prems(1) j(1) by (auto simp: user_space_def uown_def page_ok_def)
      let ?b = "unat (PGROUNDDOWN va + PGSIZE)"
      obtain bs where bs: "copyin root (PGROUNDDOWN va + PGSIZE) (n - k) s = Ok (if urange (mem s) root ?b (n - k) then 0 else - 1, bs) s"
        "urange (mem s) root ?b (n - k) \<longrightarrow> bs = map (ubyte (mem s) root) [?b..<?b + (n - k)]"
        using less.IH [OF _ less.prems, of "n - k" "PGROUNDDOWN va + PGSIZE"] C(2) n0 by auto
      have b: "k = n \<or> ?b = unat va + k" using C(5) [OF j(2)] by blast
      have rng: "urange (mem s) root ?b (n - k) = urange (mem s) root (unat va + k) (n - k)"
        using b by (auto simp: urange_def)
      have run: "copyin root va n s = Ok (if urange (mem s) root (unat va) n then 0 else - 1, map (ubyte (mem s) root) [unat va..<unat va + k] @ bs) s"
        using False W acc p0 bs(1) R rng unfolding copyin.simps [of root va n s]
        by (simp add: Let_def bind_apply read_chunk [OF C(4)] flip: k_def)
      moreover have "map (ubyte (mem s) root) [unat va..<unat va + k] @ bs = map (ubyte (mem s) root) [unat va..<unat va + n]"
        if "urange (mem s) root (unat va) n"
      proof -
        have "bs = map (ubyte (mem s) root) [unat va + k..<unat va + n]"
          using that bs(2) R rng b C(3) by auto
        then show ?thesis using C(3) upt_add_eq_append [of "unat va" "unat va + k" "n - k"] by simp
      qed
      ultimately show ?thesis by blast
    qed
  qed
qed
text \<open>A terminated user string of length \<open>k\<close> at \<open>a\<close>.\<close>

definition ucstr :: "store \<Rightarrow> u64 \<Rightarrow> nat \<Rightarrow> nat \<Rightarrow> bool" where
  "ucstr m root a k \<longleftrightarrow> urange m root a (Suc k) \<and> ubyte m root (a + k) = 0 \<and> (\<forall>i<k. ubyte m root (a + i) \<noteq> 0)"

lemma read_bytes_Suc: "read_bytes m p (Suc n) = m p # read_bytes m (p + 1) n"
  by (simp add: read_bytes_def upt_conv_Cons map_Suc_upt [symmetric] comp_def add.assoc del: upt_Suc)

lemma copy_until_nul_none:
  "(\<forall>i<n. m (p + of_nat i) \<noteq> 0) \<Longrightarrow> copy_until_nul m p n = (read_bytes m p n, False)"
proof (induction n arbitrary: p)
  case (Suc n)
  have "\<forall>i<n. m (p + 1 + of_nat i) \<noteq> 0" using Suc.prems [rule_format, of "Suc _"] by (simp add: algebra_simps)
  from Suc.IH [OF this] have "copy_until_nul m (p + 1) n = (read_bytes m (p + 1) n, False)" .
  moreover have "m p \<noteq> 0" using Suc.prems [rule_format, of 0] by simp
  ultimately show ?case by (simp add: read_bytes_Suc)
qed (simp add: read_bytes_def)

lemma copy_until_nul_found:
  "k < n \<Longrightarrow> m (p + of_nat k) = 0 \<Longrightarrow> (\<forall>i<k. m (p + of_nat i) \<noteq> 0) \<Longrightarrow> copy_until_nul m p n = (read_bytes m p (Suc k), True)"
proof (induction k arbitrary: p n)
  case 0
  then show ?case by (cases n) (auto simp: read_bytes_def)
next
  case (Suc k)
  then obtain n' where n: "n = Suc n'" "k < n'" by (cases n) auto
  have "\<forall>i<k. m (p + 1 + of_nat i) \<noteq> 0" using Suc.prems(3) [rule_format, of "Suc _"] by (simp add: algebra_simps)
  moreover have "m (p + 1 + of_nat k) = 0" using Suc.prems(2) by (simp add: algebra_simps)
  ultimately have "copy_until_nul m (p + 1) n' = (read_bytes m (p + 1) (Suc k), True)" using Suc.IH [OF n(2)] by blast
  moreover have "m p \<noteq> 0" using Suc.prems(3) [rule_format, of 0] by simp
  ultimately show ?case unfolding n(1) by (simp add: read_bytes_Suc [of m p])
qed

lemma ucstr_unique: "ucstr m root a k \<Longrightarrow> ucstr m root a l \<Longrightarrow> k = l"
  unfolding ucstr_def by (metis linorder_neqE_nat)

lemma least_below:
  fixes k :: nat
  assumes "\<exists>i<k. P i"
  shows "\<exists>i<k. P i \<and> (\<forall>l<i. \<not> P l)"
proof -
  from assms obtain j where j: "j < k" "P j" by blast
  have "P (LEAST i. P i)" using j(2) by (rule LeastI)
  moreover have "(LEAST i. P i) < k" using Least_le [of P j] j by simp
  ultimately show ?thesis using not_less_Least [of _ P] by blast
qed

lemma copyinstr_spec:
  assumes "user_space s root I fs" and "\<And>j. uacc (mem s) root j \<Longrightarrow> j \<in> I"
  shows "\<exists>r bs. copyinstr root va n s = Ok (r, bs) s \<and>
    (\<forall>k<n. ucstr (mem s) root (unat va) k \<longrightarrow> r = 0 \<and> bs = map (ubyte (mem s) root) [unat va..<unat va + Suc k]) \<and>
    ((\<forall>k<n. \<not> ucstr (mem s) root (unat va) k) \<longrightarrow> r = - 1)"
  using assms
proof (induction n arbitrary: va rule: less_induct)
  case (less n)
  let ?j = "unat va div 4096" and ?m = "mem s"
  show ?case
  proof (cases "n = 0")
    case True
    then show ?thesis by (simp add: copyinstr.simps [of root va])
  next
    case False
    define k where "k = min (4096 - unat (va - PGROUNDDOWN va)) n"
    have n0: "0 < n" using False by simp
    note C = chunk [OF n0, of va, folded k_def]
    note W = walkaddr_user [OF less.prems, of va]
    show ?thesis
    proof (cases "uacc ?m root ?j")
      case no: False
      have "\<not> ucstr ?m root (unat va) l" for l
        using no unfolding ucstr_def urange_def by (metis le_refl less_add_same_cancel1 zero_less_Suc)
      then show ?thesis using False W no by (simp add: copyinstr.simps [of root va] Let_def bind_apply)
    next
      case acc: True
      then have j: "?j \<in> I" "?j < 67108864" using less.prems(2) by (auto simp: uacc_def)
      have p0: "PTE2PA (upte ?m root ?j) \<noteq> 0" using less.prems(1) j(1) by (auto simp: user_space_def uown_def page_ok_def)
      let ?p = "PTE2PA (upte ?m root ?j) + (va - PGROUNDDOWN va)"
      have byte: "?m (?p + of_nat i) = ubyte ?m root (unat va + i)" if "i < k" for i
        using read_chunk [of va k ?m root, OF C(4), THEN arg_cong [where f = "\<lambda>l. l ! i"]] that by (simp add: read_bytes_def)
      have run: "copyinstr root va n s = (let c = copy_until_nul ?m ?p k in
          if snd c then Ok (0, fst c) s
          else bind (copyinstr root (PGROUNDDOWN va + PGSIZE) (n - k)) (\<lambda>r. ret (fst r, fst c @ snd r)) s)"
        using False W acc p0 unfolding copyinstr.simps [of root va n s] by (simp add: Let_def bind_apply flip: k_def)
      show ?thesis
      proof (cases "\<exists>i<k. ubyte ?m root (unat va + i) = 0")
        case True
        then obtain i where i: "ubyte ?m root (unat va + i) = 0" and ik: "i < k"
          and before: "\<forall>l<i. ubyte ?m root (unat va + l) \<noteq> 0"
          using least_below [of k "\<lambda>i. ubyte ?m root (unat va + i) = 0"] by blast
        have "copy_until_nul ?m ?p k = (read_bytes ?m ?p (Suc i), True)"
          using copy_until_nul_found [OF ik, of ?m ?p] byte [OF ik] i before byte ik by auto
        moreover have "read_bytes ?m ?p (Suc i) = map (ubyte ?m root) [unat va..<unat va + Suc i]"
          by (rule read_chunk) (use ik C(4) in simp)
        ultimately have ok: "copyinstr root va n s = Ok (0, map (ubyte ?m root) [unat va..<unat va + Suc i]) s" using run by simp
        have "urange ?m root (unat va) (Suc i)"
          using urange_split [of "Suc i" "unat va" "Suc i" ?m root] acc ik C(4) by (simp add: urange_def)
        then have u: "ucstr ?m root (unat va) i" using i before by (simp add: ucstr_def)
        have "i < n" using ik C(3) by simp
        then show ?thesis using ok u ucstr_unique [OF u] by (intro exI [of _ 0] exI) blast
      next
        case none: False
        then have c: "copy_until_nul ?m ?p k = (read_bytes ?m ?p k, False)"
          using byte by (intro copy_until_nul_none) auto
        let ?b = "unat (PGROUNDDOWN va + PGSIZE)"
        obtain r bs where r: "copyinstr root (PGROUNDDOWN va + PGSIZE) (n - k) s = Ok (r, bs) s"
          "\<forall>l<n - k. ucstr ?m root ?b l \<longrightarrow> r = 0 \<and> bs = map (ubyte ?m root) [?b..<?b + Suc l]"
          "(\<forall>l<n - k. \<not> ucstr ?m root ?b l) \<longrightarrow> r = - 1"
          using less.IH [OF _ less.prems, of "n - k" "PGROUNDDOWN va + PGSIZE"] C(2) n0 by auto
        have run': "copyinstr root va n s = Ok (r, map (ubyte ?m root) [unat va..<unat va + k] @ bs) s"
          using run c r(1) read_chunk [OF C(4), of ?m root] by (simp add: bind_apply)
        have b: "k = n \<or> ?b = unat va + k" using C(5) [OF j(2)] by blast
        have shift: "ucstr ?m root (unat va) l \<longleftrightarrow> k \<le> l \<and> ucstr ?m root (unat va + k) (l - k)" for l
        proof (cases "k \<le> l")
          case False
          then show ?thesis using none by (auto simp: ucstr_def)
        next
          case True
          have "(\<forall>i<l. ubyte ?m root (unat va + i) \<noteq> 0) \<longleftrightarrow> (\<forall>i<l - k. ubyte ?m root (unat va + k + i) \<noteq> 0)"
          proof (intro iffI allI impI)
            fix i assume "\<forall>i<l. ubyte ?m root (unat va + i) \<noteq> 0" and "i < l - k"
            then show "ubyte ?m root (unat va + k + i) \<noteq> 0" by (simp add: add.assoc)
          next
            fix i assume r: "\<forall>i<l - k. ubyte ?m root (unat va + k + i) \<noteq> 0" and i: "i < l"
            show "ubyte ?m root (unat va + i) \<noteq> 0"
              using none r [rule_format, of "i - k"] i by (cases "i < k") auto
          qed
          moreover have "urange ?m root (unat va) (Suc l) \<longleftrightarrow> urange ?m root (unat va + k) (Suc (l - k))"
            using urange_split [OF C(2,4), of "Suc l" ?m root] True acc by (simp add: Suc_diff_le)
          ultimately show ?thesis using True by (simp add: ucstr_def)
        qed
        show ?thesis
        proof (intro exI conjI allI impI)
          show "copyinstr root va n s = Ok (r, map (ubyte ?m root) [unat va..<unat va + k] @ bs) s" by (rule run')
        next
          fix l assume l: "l < n" "ucstr ?m root (unat va) l"
          then have "k \<le> l" "ucstr ?m root ?b (l - k)" "?b = unat va + k" using shift b by auto
          then have "r = 0 \<and> bs = map (ubyte ?m root) [unat va + k..<unat va + k + Suc (l - k)]" using r(2) l(1) by (metis diff_less_mono)
          moreover have "[unat va..<unat va + k] @ [unat va + k..<unat va + k + Suc (l - k)] = [unat va..<unat va + Suc l]"
            using \<open>k \<le> l\<close> upt_add_eq_append [of "unat va" "unat va + k" "Suc (l - k)"] by (simp del: upt_Suc)
          ultimately show "r = 0" "map (ubyte ?m root) [unat va..<unat va + k] @ bs = map (ubyte ?m root) [unat va..<unat va + Suc l]"
            by (simp_all flip: map_append del: upt_Suc)
        next
          assume no: "\<forall>l<n. \<not> ucstr ?m root (unat va) l"
          have "\<not> ucstr ?m root ?b l" if "l < n - k" for l
            using no [rule_format, of "k + l"] shift [of "k + l"] b that by auto
          then show "r = - 1" using r(3) by blast
        qed
      qed
    qed
  qed
qed
end
