(* ===== verification/Vm_Props.thy ===== *)
theory Vm_Props
  imports Vm_Copy
begin

text \<open>
  The properties of \<open>kernel/vm.c\<close> stated on its operations, and a machine with nine free pages on which
  each of them is exercised.
\<close>

section \<open>A fresh address space\<close>

lemma user_space_fresh:
  assumes km: "kmem_pages s fs" and root: "page_ok (kend s) root" "root \<notin> set fs" and zero: "\<And>x. in_page root x \<Longrightarrow> mem s x = 0"
  shows "user_space s root {} fs" and "upte (mem s) root j = 0"
proof -
  have en: "entry (mem s) root i = None" if "unat i < 512" for i
    using zero_page_read [OF page_ok_aligned [OF root(1)] _ that, of "mem s"] zero by (simp add: entry_def)
  have nd: "node (mem s) root is = (if is = [] then Some root else None)" if "pt_path is" for "is"
    using that en by (cases "is") (auto simp: pt_path_def)
  have "pt_pages (mem s) root = {root}"
    using nd pt_pagesI [of "[]" "mem s" root root] by (auto simp: pt_pages_def pt_path_def split: if_splits)
  moreover have "pt_wf (mem s) (kend s) root" using nd root by (auto simp: pt_wf_def split: if_splits)
  ultimately show "user_space s root {} fs" using km root by (simp add: user_space_def addr_space_def uown_def)
  show "upte (mem s) root j = 0"
    using nd [OF va_path [of "vpage 0 j"]] by (simp add: upte_def pte_of_node del: node.simps)
qed

lemma uvmcreate_spec:
  assumes "kmem_pages s (q # fs)"
  obtains t where "uvmcreate s = Ok q t" and "user_space t q {} fs" and "\<And>j. upte (mem t) q j = 0"
proof -
  note K = kmem_alloc_first [OF assms]
  define t where "t = s\<lparr>hw := lock_cycle (hw s), mem := memset (memset (mem s) q 5 4096) q 0 4096, freelist := read64 (mem s) q\<rparr>"
  have q: "page_ok (kend s) q" "q \<notin> set fs" and fs: "\<And>p. p \<in> set fs \<Longrightarrow> aligned 4096 p" "aligned 4096 q" "q \<noteq> 0"
    using assms by (auto simp: kmem_pages_def page_ok_def)
  have run: "uvmcreate s = Ok q t" using K fs(3) by (simp add: uvmcreate_def bind_apply andthen_apply t_def freelist_mem_update)
  have "chain (mem t) (freelist t) fs"
  proof (rule chain_cong)
    show "chain (memset (mem s) q 5 4096) (freelist t) fs" using K by (simp add: kmem_pages_def t_def)
    fix p assume p: "p \<in> set fs"
    then have "p \<noteq> q" using q(2) by auto
    then show "read64 (memset (mem s) q 5 4096) p = read64 (mem t) p"
      using read64_memset_page_other [OF fs(1) [OF p] fs(2), of p] by (simp add: t_def)
  qed
  then have "kmem_pages t fs" using K by (simp add: kmem_pages_def t_def)
  moreover have "mem t x = 0" if "in_page q x" for x using that by (simp add: t_def memset_page_apply)
  ultimately have "user_space t q {} fs" "\<And>j. upte (mem t) q j = 0"
    using user_space_fresh [of t fs q] q by (auto simp: t_def)
  then show ?thesis using that run by blast
qed

text \<open>A new table for a child does not touch an existing address space.\<close>

lemma uvmcreate_other:
  assumes old: "user_space s root I (q # fs)"
  obtains t where "uvmcreate s = Ok q t" and "user_space t q {} fs" and "\<And>j. upte (mem t) q j = 0"
    and "user_space t root I fs" and "keeps root I s t" and "apart t root I q {}"
    and "pt_pages (mem t) q = {q}" and "same_outside {q} (mem s) (mem t)"
proof -
  have km: "kmem_pages s (q # fs)" using old by (simp add: user_space_def addr_space_def)
  obtain t where t: "uvmcreate s = Ok q t" "user_space t q {} fs" "\<And>j. upte (mem t) q j = 0" by (rule uvmcreate_spec [OF km]) blast
  have q: "q \<notin> pt_pages (mem s) root" "q \<notin> uown (mem s) root I" "aligned 4096 q" "q \<noteq> 0"
    using old km by (auto simp: user_space_def addr_space_def kmem_pages_def page_ok_def)
  have te: "t = s\<lparr>hw := lock_cycle (hw s), mem := memset (memset (mem s) q 5 4096) q 0 4096, freelist := read64 (mem s) q\<rparr>"
    using t(1) kmem_alloc_first [OF km] q(4) by (simp add: uvmcreate_def bind_apply andthen_apply freelist_mem_update)
  have only: "kmem_only s t" unfolding kmem_only_def te using hw_quiet_cycle by blast
  have out: "same_outside {q} (mem s) (mem t)" unfolding te by (simp add: same_outside_def memset_page_apply)
  have kt: "kmem_pages t fs" and pq: "pt_pages (mem t) q = {q}"
  proof -
    show "kmem_pages t fs" using t(2) by (simp add: user_space_def addr_space_def)
    have en: "entry (mem t) q i = None" if "unat i < 512" for i
      using zero_page_read [OF q(3) _ that, of "mem t"] by (simp add: entry_def te memset_page_apply)
    have nd: "node (mem t) q is = (if is = [] then Some q else None)" if "pt_path is" for "is"
      using that en by (cases "is") (auto simp: pt_path_def)
    then show "pt_pages (mem t) q = {q}"
      using pt_pagesI [of "[]" "mem t" q q] by (auto simp: pt_pages_def pt_path_def split: if_splits)
  qed
  have sub: "set fs \<subseteq> insert q (set (q # fs))" by auto
  note T = user_space_touch [OF old q(1-3) kt sub only out]
  have "apart t root I q {}" using T(2) q(1,2) by (auto simp: apart_def keeps_def pq uown_def)
  then show ?thesis using that t T pq out by blast
qed

section \<open>Properties\<close>

text \<open>C20: \<open>mappages\<close> on unmapped pages below \<open>MAXVA\<close> never panics. It either maps the \<open>n + 1\<close> pages asked for to
  consecutive frames with the given permissions, or returns -1 having mapped the first \<open>k\<close> of them because
  the free list is empty. Every other virtual page keeps its entry, the table stays well formed, table pages
  come from the front of the free list, and nothing outside the table and the free pages is written.\<close>

theorem mappages_correct:
  assumes "addr_space s root fs" and "aligned 4096 va" and "unat va + 4096 * Suc n \<le> 274877906944"
    and "\<forall>j\<le>n. pte_of (mem s) root (vpage va j) AND PTE_V = 0"
  shows "\<exists>r t gs k. mappages root va (of_nat (4096 * Suc n)) pa perm s = Ok r t \<and> vm_step root s fs t gs \<and>
    (r = 0 \<and> k = Suc n \<or> r = - 1 \<and> gs = [] \<and> length fs \<le> 2 * Suc n \<and> k \<le> n) \<and>
    mapped_range (mem s) (mem t) root va k (\<lambda>j. PA2PTE (vpage pa j) OR perm OR PTE_V)"
proof -
  have u: "unat (vpage va n) = unat va + 4096 * n" "unat (vpage va n + 4095) = unat va + 4096 * n + 4095"
    using unat_vpage [OF assms(3), of n] assms(3) by (simp_all add: unat_word_ariths)
  have "va + of_nat (4096 * Suc n) - 1 = vpage va n + 4095" by (simp add: vpage_def algebra_simps)
  moreover have "PGROUNDDOWN (vpage va n + 4095) = vpage va n"
  proof -
    have "unat (PGROUNDDOWN (vpage va n + 4095)) = (unat va + 4096 * n + 4095) div 4096 * 4096" by (simp only: unat_PGROUNDDOWN u)
    also have "\<dots> = unat va + 4096 * n"
    proof -
      obtain c where c: "unat va = 4096 * c" using assms(2) unfolding aligned_def by (meson dvdE mod_0_imp_dvd)
      have eq: "unat va + 4096 * n + 4095 = 4095 + 4096 * (c + n)" using c by simp
      have "(unat va + 4096 * n + 4095) div 4096 = c + n" unfolding eq by simp
      then show ?thesis using c by simp
    qed
    finally have "unat (PGROUNDDOWN (vpage va n + 4095)) = unat (vpage va n)" using u by simp
    then show ?thesis by (rule unsigned_word_eqI)
  qed
  ultimately have "mappages root va (of_nat (4096 * Suc n)) pa perm s = mappages_loop root va (vpage va n) pa perm s"
    unfolding mappages_def by (simp only: PGROUNDDOWN_aligned [OF assms(2)])
  moreover obtain r t gs k where "mappages_loop root va (vpage va n) pa perm s = Ok r t" "vm_step root s fs t gs"
    "r = 0 \<and> k = Suc n \<or> r = - 1 \<and> gs = [] \<and> k \<le> n" "length fs \<le> length gs + 2 * Suc n"
    "mapped_range (mem s) (mem t) root va k (\<lambda>j. PA2PTE (vpage pa j) OR perm OR PTE_V)"
    using mappages_loop_spec [OF assms, of pa perm] by blast
  ultimately show ?thesis by (intro exI [of _ r] exI [of _ t] exI [of _ gs] exI [of _ k]) auto
qed



text \<open>C22: what \<open>copyout\<close> stores at a user address range, \<open>copyin\<close> reads back, and the bytes around it are untouched.\<close>

theorem copyout_copyin_roundtrip:
  assumes "user_space s root I fs" and "\<forall>j. uacc (mem s) root j \<longrightarrow> j \<in> I" and "urange (mem s) root (unat va) (length src)"
  shows "\<exists>t. copyout root va src s = Ok 0 t \<and> copyin root va (length src) t = Ok (0, src) t \<and> user_space t root I fs \<and>
    (\<forall>a. a div 4096 \<in> I \<longrightarrow> a < unat va \<or> unat va + length src \<le> a \<longrightarrow> ubyte (mem t) root a = ubyte (mem s) root a)"
proof -
  obtain t where t: "copyout root va src s = Ok 0 t" "user_space t root I fs" "\<forall>j. upte (mem t) root j = upte (mem s) root j"
    and b: "\<forall>a. a div 4096 \<in> I \<longrightarrow> ubyte (mem t) root a =
       (if unat va \<le> a \<and> a < unat va + length src then src ! (a - unat va) else ubyte (mem s) root a)"
    using copyout_spec [OF assms(1), of va src] assms(2,3) by auto
  have acc: "uacc (mem t) root = uacc (mem s) root" using t(3) by (simp add: fun_eq_iff uacc_def)
  have ur: "urange (mem t) root (unat va) (length src)" using assms(3) by (simp add: urange_def acc)
  have "map (ubyte (mem t) root) [unat va..<unat va + length src] = src"
  proof (rule nth_equalityI)
    fix i assume "i < length (map (ubyte (mem t) root) [unat va..<unat va + length src])"
    then have i: "i < length src" by simp
    then have "uacc (mem s) root ((unat va + i) div 4096)" using assms(3) by (simp add: urange_def)
    then show "map (ubyte (mem t) root) [unat va..<unat va + length src] ! i = src ! i" using b i assms(2) by simp
  qed simp
  then have "copyin root va (length src) t = Ok (0, src) t"
    using copyin_spec [OF t(2), of va "length src"] assms(2) acc ur by auto
  then show ?thesis using t b by (intro exI [of _ t]) auto
qed


text \<open>C23: \<open>copyinstr\<close> returns 0 with the string and its terminator exactly when a zero byte lies within the first
  \<open>n\<close> bytes with every byte up to it accessible, and -1 otherwise.\<close>

theorem copyinstr_correct:
  assumes "user_space s root I fs" and "\<forall>j. uacc (mem s) root j \<longrightarrow> j \<in> I"
  shows "\<exists>r bs. copyinstr root va n s = Ok (r, bs) s \<and>
    (\<forall>k<n. ucstr (mem s) root (unat va) k \<longrightarrow> r = 0 \<and> bs = map (ubyte (mem s) root) [unat va..<unat va + Suc k]) \<and>
    ((\<forall>k<n. \<not> ucstr (mem s) root (unat va) k) \<longrightarrow> r = - 1)"
  using copyinstr_spec [OF assms(1), of va n] assms(2) by blast

text \<open>A machine with nine free pages, and the address space of one page it can build.\<close>

definition vm0 :: kmem_state where
  "vm0 = \<lparr>hw = hw0, kend = 0x87ff0000,
     mem = write64 (write64 (write64 (write64 (write64 (write64 (write64 (write64 (\<lambda>_. 0) 0x87ff0000 0x87ff1000)
       0x87ff1000 0x87ff2000) 0x87ff2000 0x87ff3000) 0x87ff3000 0x87ff4000) 0x87ff4000 0x87ff5000)
       0x87ff5000 0x87ff6000) 0x87ff6000 0x87ff7000) 0x87ff7000 0x87ff8000,
     freelist = 0x87ff0000\<rparr>"

lemma vm0_pages: "kmem_pages vm0 [0x87ff0000, 0x87ff1000, 0x87ff2000, 0x87ff3000, 0x87ff4000, 0x87ff5000, 0x87ff6000, 0x87ff7000, 0x87ff8000]"
  by (simp add: kmem_pages_def vm0_def page_ok_def aligned_def read64_zero)

lemma flags_31:
  assumes "PTE_FLAGS v = URWX OR PTE_V"
  shows "v AND PTE_V \<noteq> 0" and "v AND PTE_U \<noteq> 0"
proof -
  have v: "v AND 0x3FF = 31" using assms by (simp add: PTE_FLAGS_def)
  have "v AND 1 = (v AND 0x3FF) AND 1" "v AND 16 = (v AND 0x3FF) AND 16" by (simp_all add: and.assoc)
  then show "v AND PTE_V \<noteq> 0" "v AND PTE_U \<noteq> 0" unfolding v by simp_all
qed

lemma vm0_space:
  obtains t u gs where "uvmcreate vm0 = Ok 0x87ff0000 t" and "uvmalloc 0x87ff0000 0 4096 t = Ok 4096 u"
    and "user_space u 0x87ff0000 {..<1} gs" and "5 \<le> length gs"
    and "\<And>j. uacc (mem u) 0x87ff0000 j \<longleftrightarrow> j = 0" and "\<And>j. 1 \<le> j \<Longrightarrow> j < 67108864 \<Longrightarrow> upte (mem u) 0x87ff0000 j = 0"
proof -
  obtain t where t: "uvmcreate vm0 = Ok 0x87ff0000 t"
    and us: "user_space t 0x87ff0000 {} [0x87ff1000, 0x87ff2000, 0x87ff3000, 0x87ff4000, 0x87ff5000, 0x87ff6000, 0x87ff7000, 0x87ff8000]"
    and z: "\<And>j. upte (mem t) 0x87ff0000 j = 0" by (rule uvmcreate_spec [OF vm0_pages]) blast
  have i: "0 \<notin> ({} :: nat set)" "0 < (67108864 :: nat)" and less: "vpage 0 0 < 4096" by (simp_all add: vpage_def)
  have fr: "upte (mem t) 0x87ff0000 0 AND PTE_V = 0" using z by simp
  from us i fr less show ?thesis
  proof (cases rule: uvmalloc_turn [where old = 0])
    case (grown u gs)
    have "\<not> vpage 0 (Suc 0) < 4096" by (simp add: vpage_def)
    then have "uvmalloc 0x87ff0000 0 4096 t = Ok 4096 u"
      using grown(1) by (simp add: uvmalloc_def PGROUNDUP_def vpage_def uvmalloc_loop.simps [of _ 4096])
    moreover have "user_space u 0x87ff0000 {..<1} gs" using grown(2) by (simp add: lessThan_Suc)
    moreover have "5 \<le> length gs" using grown(5) by simp
    moreover have up: "upte (mem u) 0x87ff0000 j = 0" if "1 \<le> j" "j < 67108864" for j using grown(4) z that by simp
    moreover have "uacc (mem u) 0x87ff0000 j \<longleftrightarrow> j = 0" for j
    proof (cases "j = 0")
      case True
      have "PTE_FLAGS (upte (mem u) 0x87ff0000 0) = URWX OR PTE_V"
        using fun_cong [OF grown(3), of 0] by (simp add: umem_def)
      then show ?thesis using flags_31 True by (simp add: uacc_def)
    next
      case False
      then show ?thesis using up [of j] by (simp add: uacc_def)
    qed
    ultimately show ?thesis using that t by blast
  next
    case (full u gs)
    then show ?thesis by simp
  qed
qed

theorem mappages_correct_witness:
  "\<exists>t r u gs k. uvmcreate vm0 = Ok 0x87ff0000 t \<and> mappages 0x87ff0000 0 (of_nat (4096 * Suc 1)) 0x80000000 2 t = Ok r u \<and>
     r = 0 \<and> k = Suc 1 \<and> mapped_range (mem t) (mem u) 0x87ff0000 0 k (\<lambda>j. PA2PTE (vpage 0x80000000 j) OR 2 OR PTE_V)"
proof -
  obtain t where t: "uvmcreate vm0 = Ok 0x87ff0000 t"
    and us: "user_space t 0x87ff0000 {} [0x87ff1000, 0x87ff2000, 0x87ff3000, 0x87ff4000, 0x87ff5000, 0x87ff6000, 0x87ff7000, 0x87ff8000]"
    and z: "\<And>j. upte (mem t) 0x87ff0000 j = 0" by (rule uvmcreate_spec [OF vm0_pages]) blast
  have as: "addr_space t 0x87ff0000 [0x87ff1000, 0x87ff2000, 0x87ff3000, 0x87ff4000, 0x87ff5000, 0x87ff6000, 0x87ff7000, 0x87ff8000]"
    using us by (simp add: user_space_def)
  have fr: "\<forall>j\<le>1. pte_of (mem t) 0x87ff0000 (vpage 0 j) AND PTE_V = 0" using z by (simp add: upte_def)
  obtain r u gs k where "mappages 0x87ff0000 0 (of_nat (4096 * Suc 1)) 0x80000000 2 t = Ok r u"
    "r = 0 \<and> k = Suc 1 \<or> r = - 1 \<and> gs = [] \<and> length [0x87ff1000, 0x87ff2000, 0x87ff3000, 0x87ff4000, 0x87ff5000, 0x87ff6000, 0x87ff7000, 0x87ff8000 :: u64] \<le> 2 * Suc 1 \<and> k \<le> 1"
    "mapped_range (mem t) (mem u) 0x87ff0000 0 k (\<lambda>j. PA2PTE (vpage 0x80000000 j) OR 2 OR PTE_V)"
    using mappages_correct [OF as _ _ fr, where pa = "0x80000000" and perm = 2] by (simp add: aligned_def) blast
  then show ?thesis using t by auto
qed



theorem copyout_copyin_roundtrip_witness:
  "\<exists>t u w. uvmcreate vm0 = Ok 0x87ff0000 t \<and> uvmalloc 0x87ff0000 0 4096 t = Ok 4096 u \<and>
     copyout 0x87ff0000 5 [1, 2, 3] u = Ok 0 w \<and> copyin 0x87ff0000 5 3 w = Ok (0, [1, 2, 3]) w"
proof -
  obtain t u gs where u: "uvmcreate vm0 = Ok 0x87ff0000 t" "uvmalloc 0x87ff0000 0 4096 t = Ok 4096 u"
    "user_space u 0x87ff0000 {..<1} gs" "\<And>j. uacc (mem u) 0x87ff0000 j \<longleftrightarrow> j = 0" by (rule vm0_space) blast
  have "urange (mem u) 0x87ff0000 (unat (5 :: u64)) (length [1, 2, 3 :: byte])" using u(4) by (auto simp: urange_def)
  then show ?thesis using copyout_copyin_roundtrip [OF u(3), where va = 5 and src = "[1, 2, 3]"] u by (auto simp: numeral_3_eq_3)
qed


theorem copyinstr_correct_witness:
  "\<exists>t u r bs. uvmcreate vm0 = Ok 0x87ff0000 t \<and> uvmalloc 0x87ff0000 0 4096 t = Ok 4096 u \<and>
     copyinstr 0x87ff0000 0x1000 128 u = Ok (r, bs) u \<and> r = - 1"
proof -
  obtain t u gs where u: "uvmcreate vm0 = Ok 0x87ff0000 t" "uvmalloc 0x87ff0000 0 4096 t = Ok 4096 u"
    "user_space u 0x87ff0000 {..<1} gs" "\<And>j. uacc (mem u) 0x87ff0000 j \<longleftrightarrow> j = 0" by (rule vm0_space) blast
  have "\<not> ucstr (mem u) 0x87ff0000 (unat (0x1000 :: u64)) k" for k
    using u(4) by (auto simp: ucstr_def urange_def)
  then show ?thesis using copyinstr_correct [OF u(3), where va = "0x1000" and n = 128] u by auto
qed

end
