(* ===== verification/Printf.thy ===== *)
theory Printf
  imports Vm
begin

text \<open>
  \<open>kernel/printf.c\<close> and the polling output path below it (\<open>consputc\<close> of \<open>kernel/console.c\<close> and
  \<open>uartputc_sync\<close> of \<open>kernel/uart.c\<close>). The bytes stored into the UART's transmit register are kept, oldest
  first, in \<open>uart_thr\<close>; waiting for the register to be empty is taken to end. The format interpreter is
  shared by \<open>printf\<close> and \<open>info_with_color\<close>; a directive with no argument left has no value (\<open>None\<close>), as
  \<open>va_arg\<close> has none.
\<close>

section \<open>Code\<close>

record io_state = vm_state +
  uart_thr :: "byte list"
  panicked :: bool
  pr_locking :: bool

definition bytes_of :: "string \<Rightarrow> byte list" where
  "bytes_of s = map of_char s"

definition uartputc_sync :: "byte \<Rightarrow> (unit, 'x io_state_scheme) kop" where
  "uartputc_sync c =
     andthen (modify (\<lambda>s. s\<lparr>hw := push_off (hw s)\<rparr>)) (
     bind (gets panicked) (\<lambda>pk.
     if pk then (\<lambda>s. Spin)
     else andthen (modify (\<lambda>s. s\<lparr>uart_thr := uart_thr s @ [c]\<rparr>)) (on_hw pop_off)))"

abbreviation (input) BACKSPACE :: u32 where "BACKSPACE \<equiv> 0x100"

definition consputc :: "u32 \<Rightarrow> (unit, 'x io_state_scheme) kop" where
  "consputc c =
     (if c = BACKSPACE
      then andthen (uartputc_sync 8) (andthen (uartputc_sync 32) (uartputc_sync 8))
      else uartputc_sync (ucast c))"

definition digits :: "byte list" where
  "digits = bytes_of ''0123456789abcdef''"

function printint_digits :: "nat \<Rightarrow> u32 \<Rightarrow> byte list" where
  "printint_digits base x =
     (if base < 2 then []
      else digits ! (unat x mod base) #
        (if unat x div base \<noteq> 0 then printint_digits base (of_nat (unat x div base)) else []))"
  by pat_completeness auto
termination
proof (relation "measure (\<lambda>(base, x). unat x)", simp)
  fix base :: nat and x :: u32
  assume "\<not> base < 2" and "unat x div base \<noteq> 0"
  then have "0 < unat x" by (metis div_0 gr0I)
  then have "unat x div base < unat x" using \<open>\<not> base < 2\<close> by (intro div_less_dividend) auto
  moreover have "unat (of_nat (unat x div base) :: u32) = unat x div base"
  proof (rule unat_of_nat_small)
    have "unat x < 2 ^ LENGTH(32)" by (rule unsigned_less)
    then show "unat x div base < 2 ^ LENGTH(32)" using div_le_dividend [of "unat x" base] by linarith
  qed
  ultimately show "((base, of_nat (unat x div base)), base, x) \<in> measure (\<lambda>(base, x). unat x)" by simp
qed

declare printint_digits.simps [simp del]

text \<open>The contents of \<open>buf\<close>, first element first, and what is printed.\<close>

definition printint_buf :: "u32 \<Rightarrow> nat \<Rightarrow> bool \<Rightarrow> byte list" where
  "printint_buf xx base sign =
     (let neg = sign \<and> sint xx < 0; x = (if neg then - xx else xx)
      in printint_digits base x @ (if neg then [45] else []))"

definition printint_out :: "u32 \<Rightarrow> nat \<Rightarrow> bool \<Rightarrow> byte list" where
  "printint_out xx base sign = rev (printint_buf xx base sign)"

fun printptr_digits :: "nat \<Rightarrow> u64 \<Rightarrow> byte list" where
  "printptr_digits 0 x = []"
| "printptr_digits (Suc n) x = digits ! unat (drop_bit 60 x) # printptr_digits n (push_bit 4 x)"

definition printptr_out :: "u64 \<Rightarrow> byte list" where
  "printptr_out x = bytes_of ''0x'' @ printptr_digits 16 x"

datatype parg = Pint u32 | Pptr u64 | Pstr "byte list option"

fun format_out :: "byte list \<Rightarrow> parg list \<Rightarrow> byte list option" where
  "format_out [] args = Some []"
| "format_out (c # fmt) args =
     (if c = 0 then Some []
      else if c \<noteq> 37 then map_option ((#) c) (format_out fmt args)
      else (case fmt of
          [] \<Rightarrow> Some []
        | d # fmt' \<Rightarrow>
            if d = 0 then Some []
            else if d = 100 then
              (case args of Pint x # as \<Rightarrow> map_option ((@) (printint_out x 10 True)) (format_out fmt' as) | _ \<Rightarrow> None)
            else if d = 120 then
              (case args of Pint x # as \<Rightarrow> map_option ((@) (printint_out x 16 True)) (format_out fmt' as) | _ \<Rightarrow> None)
            else if d = 112 then
              (case args of Pptr x # as \<Rightarrow> map_option ((@) (printptr_out x)) (format_out fmt' as) | _ \<Rightarrow> None)
            else if d = 115 then
              (case args of
                 Pstr s # as \<Rightarrow> map_option ((@) (case s of None \<Rightarrow> bytes_of ''(null)'' | Some t \<Rightarrow> takeWhile (\<lambda>b. b \<noteq> 0) t)) (format_out fmt' as)
               | _ \<Rightarrow> None)
            else if d = 37 then map_option ((#) 37) (format_out fmt' args)
            else map_option (\<lambda>r. 37 # d # r) (format_out fmt' args)))"

definition putchars :: "byte list \<Rightarrow> (unit, 'x io_state_scheme) kop" where
  "putchars cs = for_each cs (\<lambda>c. consputc (ucast c))"

definition with_pr_lock :: "(unit, 'x io_state_scheme) kop \<Rightarrow> (unit, 'x io_state_scheme) kop" where
  "with_pr_lock body =
     bind (gets pr_locking) (\<lambda>locking.
     andthen (if locking then acquire Lk_pr else ret ()) (
     andthen body (
     if locking then release Lk_pr else ret ())))"

definition printf :: "string \<Rightarrow> parg list \<Rightarrow> (unit, 'x io_state_scheme) kop" where
  "printf fmt args = with_pr_lock (case format_out (bytes_of fmt) args of Some cs \<Rightarrow> putchars cs | None \<Rightarrow> (\<lambda>s. Spin))"

definition info_with_color :: "string \<Rightarrow> parg list \<Rightarrow> (unit, 'x io_state_scheme) kop" where
  "info_with_color fmt args = with_pr_lock (
     andthen (putchars (27 # bytes_of ''[0;36m'')) (
     andthen (putchars (bytes_of ''[INFO] '')) (
     andthen (case format_out (bytes_of fmt) args of Some cs \<Rightarrow> putchars cs | None \<Rightarrow> (\<lambda>s. Spin)) (
     putchars (27 # bytes_of ''[0m'')))))"

definition printfinit :: "(unit, 'x io_state_scheme) kop" where
  "printfinit = andthen (initlock Lk_pr ''pr'') (modify (\<lambda>s. s\<lparr>pr_locking := True\<rparr>))"

section \<open>Running the output path\<close>

lemma pop_push_off: "intr_ok h \<Longrightarrow> pop_off (push_off h) = Ok () (lock_cycle h)"
proof -
  assume "intr_ok h"
  then have "pop_off ((push_off h)\<lparr>locks := locks h\<rparr>) = Ok () ((lock_cycle h)\<lparr>locks := locks h\<rparr>)"
    by (rule pop_off_push_off)
  moreover have "(push_off h)\<lparr>locks := locks h\<rparr> = push_off h" by (rule hw.equality) simp_all
  moreover have "(lock_cycle h)\<lparr>locks := locks h\<rparr> = lock_cycle h" by (rule hw.equality) simp_all
  ultimately show ?thesis by simp
qed

lemma uartputc_sync_run:
  assumes "intr_ok (hw s)" and "\<not> panicked s"
  shows "uartputc_sync c s = Ok () (s\<lparr>hw := lock_cycle (hw s), uart_thr := uart_thr s @ [c]\<rparr>)"
  using assms by (simp add: uartputc_sync_def kop on_hw_def pop_push_off)

lemma consputc_run:
  assumes "intr_ok (hw s)" and "\<not> panicked s"
  shows "consputc (ucast (c :: byte)) s = Ok () (s\<lparr>hw := lock_cycle (hw s), uart_thr := uart_thr s @ [c]\<rparr>)"
proof -
  have lt: "unat c < 256" using unsigned_less [of c] by simp
  then have eq: "unat (ucast c :: u32) = unat c" by (simp add: unsigned_ucast_eq take_bit_nat_eq_self)
  with lt have "unat (ucast c :: u32) \<noteq> 256" by simp
  then have "ucast c \<noteq> (0x100 :: u32)" by force
  moreover have "unat (ucast (ucast c :: u32) :: byte) = take_bit LENGTH(8) (unat (ucast c :: u32))" by (rule unsigned_ucast_eq)
  then have "unat (ucast (ucast c :: u32) :: byte) = unat c" unfolding eq using take_bit_nat_eq_self [of "unat c" 8] lt by simp
  then have "ucast (ucast c :: u32) = c" by (rule unsigned_word_eqI)
  ultimately show ?thesis using uartputc_sync_run [OF assms] by (simp add: consputc_def)
qed

lemma putchars_run:
  "intr_ok (hw s) \<Longrightarrow> \<not> panicked s \<Longrightarrow>
    putchars cs s = Ok () (s\<lparr>hw := (if cs = [] then hw s else lock_cycle (hw s)), uart_thr := uart_thr s @ cs\<rparr>)"
proof (induction cs arbitrary: s)
  case (Cons c cs)
  let ?t = "s\<lparr>hw := lock_cycle (hw s), uart_thr := uart_thr s @ [c]\<rparr>"
  have "putchars (c # cs) s = putchars cs ?t" using consputc_run [OF Cons.prems] by (simp add: putchars_def andthen_apply)
  also have "\<dots> = Ok () (?t\<lparr>hw := (if cs = [] then hw ?t else lock_cycle (hw ?t)), uart_thr := uart_thr ?t @ cs\<rparr>)"
    by (rule Cons.IH) (use Cons.prems in simp_all)
  finally show ?case by simp
qed (simp add: putchars_def)

lemma printf_run:
  assumes "lk_free Lk_pr (hw s)" and "intr_ok (hw s)" and "\<not> panicked s" and "pr_locking s"
    and "format_out (bytes_of fmt) args = Some cs"
  shows "printf fmt args s = Ok () (s\<lparr>hw := lock_cycle (hw s), uart_thr := uart_thr s @ cs\<rparr>)"
  using assms by (simp add: printf_def with_pr_lock_def kop putchars_run)

section \<open>Numbers\<close>

definition dval :: "byte \<Rightarrow> nat" where
  "dval b = (if b \<le> 57 then unat b - 48 else unat b - 87)"

fun numeral_of :: "nat \<Rightarrow> byte list \<Rightarrow> nat" where
  "numeral_of base [] = 0"
| "numeral_of base (d # ds) = dval d + base * numeral_of base ds"

lemma dval_digits: "k < 16 \<Longrightarrow> dval (digits ! k) = k"
proof -
  assume "k < 16"
  moreover have "list_all (\<lambda>k. dval (digits ! k) = k) [0..<16]" by code_simp
  ultimately show ?thesis by (simp add: list_all_iff)
qed

lemma digits_not_minus: "k < 16 \<Longrightarrow> digits ! k \<noteq> 45"
proof -
  assume "k < 16"
  moreover have "list_all (\<lambda>k. digits ! k \<noteq> 45) [0..<16]" by code_simp
  ultimately show ?thesis by (simp add: list_all_iff)
qed

lemma unat_of_nat_div: "unat (of_nat (unat (x :: u32) div b) :: u32) = unat x div b"
proof (rule unat_of_nat_small)
  have "unat x < 2 ^ LENGTH(32)" by (rule unsigned_less)
  then show "unat x div b < 2 ^ LENGTH(32)" using div_le_dividend [of "unat x" b] by linarith
qed

lemma printint_digits_value:
  "2 \<le> base \<Longrightarrow> base \<le> 16 \<Longrightarrow> numeral_of base (printint_digits base x) = unat x"
proof (induction base x rule: printint_digits.induct)
  case (1 base x)
  have "unat x mod base < 16" using 1(2,3) mod_less_divisor [of base "unat x"] by linarith
  then show ?case
    using 1 by (subst printint_digits.simps) (simp add: dval_digits unat_of_nat_div mod_eq_self_iff_div_eq_0)
qed

lemma printint_digits_length:
  "2 \<le> base \<Longrightarrow> unat x < base ^ Suc k \<Longrightarrow> length (printint_digits base x) \<le> Suc k"
proof (induction base x arbitrary: k rule: printint_digits.induct)
  case (1 base x)
  show ?case
  proof (cases "unat x div base = 0")
    case True
    then show ?thesis by (subst printint_digits.simps) simp
  next
    case False
    then obtain j where k: "k = Suc j"
      using 1 by (cases k) auto
    have "unat (of_nat (unat x div base) :: u32) < base ^ Suc j"
      using 1(3) k by (simp add: unat_of_nat_div less_mult_imp_div_less mult.commute)
    then have "length (printint_digits base (of_nat (unat x div base))) \<le> Suc j"
      using 1 False by simp
    then show ?thesis by (subst printint_digits.simps) (simp add: k)
  qed
qed

lemma int_values:
  fixes w :: u32
  shows "0 \<le> sint w \<Longrightarrow> uint w = sint w" and "sint w < 0 \<Longrightarrow> uint (- w) = - sint w"
proof -
  have w: "word_of_int (sint w) = w" 
  proof -
    have "scast w = (word_of_int (sint w) :: u32)" by (rule scast_eq)
    then show ?thesis by simp
  qed
  have r: "- (2 ^ 31) \<le> sint w" "sint w < 2 ^ 31" using sint_greater_eq [of w] sint_less [of w] by simp_all
  have u: "uint w = sint w mod 2 ^ 32" using uint_word_of_int [of "sint w", where 'a = 32] unfolding w by simp
  show "0 \<le> sint w \<Longrightarrow> uint w = sint w" using u r by simp
  have "- w = word_of_int (- sint w)" by (subst (1) w [symmetric]) simp
  then have "uint (- w) = (- sint w) mod 2 ^ 32" by (simp only: uint_word_of_int) simp
  then show "sint w < 0 \<Longrightarrow> uint (- w) = - sint w" using r by simp
qed



end
