(* ===== verification/Proc.thy ===== *)
theory Proc
  imports Printf
begin

text \<open>
  \<open>kernel/proc.c\<close>, the part below the file system: the process table, allocation and release of
  processes, memory growth, \<open>sched\<close>, \<open>sleep\<close>, \<open>wakeup\<close>, \<open>kill\<close>, \<open>wait\<close> and the scheduler. \<open>fork\<close>, \<open>exit\<close> and
  \<open>userinit\<close> are in the theory \<open>Proc_Life\<close>, above the file system they call.

  A process is an index into the table. \<open>swtch\<close> ends the operation with \<open>Switch\<close>; what the code does when the
  process is chosen again is a separate operation (\<open>sleep_resume\<close>, \<open>yield_resume\<close>, \<open>wait_resume\<close>).
  Dereferencing a null \<open>myproc()\<close> traps in the kernel, which panics in \<open>kerneltrap\<close>. The trap frame is a page of
  physical memory, its fields at the offsets of \<open>struct trapframe\<close>. \<open>freewalk\<close> gets fuel 3, the depth of an Sv39
  table.
\<close>

section \<open>Data\<close>

datatype procstate = UNUSED | SLEEPING | RUNNABLE | RUNNING | ZOMBIE

datatype chan =
  Ch_none | Ch_proc nat | Ch_ticks | Ch_log | Ch_pipe_nread u64 | Ch_pipe_nwrite u64 | Ch_sleeplock slid
| Ch_buf nat | Ch_disk_free | Ch_cons_r | Ch_uart_tx_r

record ctxt =
  ctx_ra :: u64
  ctx_sp :: u64
  ctx_s :: "nat \<Rightarrow> u64"

record proc =
  p_state :: procstate
  p_parent :: "nat option"
  p_chan :: chan
  p_killed :: bool
  p_xstate :: u32
  p_pid :: u32
  p_kstack :: u64
  p_sz :: u64
  p_pagetable :: u64
  p_trapframe :: u64
  p_context :: ctxt
  p_ofile :: "nat \<Rightarrow> nat option"
  p_cwd :: "nat option"
  p_name :: cptr

record proc_state = io_state +
  procs :: "nat \<Rightarrow> proc"
  initproc :: "nat option"
  nextpid :: u32
  next_flag :: bool
  forkret_addr :: u64

section \<open>Code\<close>

definition on_proc :: "nat \<Rightarrow> (proc \<Rightarrow> proc) \<Rightarrow> (unit, 'x proc_state_scheme) kop" where
  "on_proc i f = modify (\<lambda>s. s\<lparr>procs := (procs s)(i := f (procs s i))\<rparr>)"

definition procinit :: "(unit, 'x proc_state_scheme) kop" where
  "procinit =
     andthen (initlock Lk_pid ''nextpid'') (
     andthen (for_each [0..<NPROC] (\<lambda>i.
       andthen (initlock (Lk_proc i) ''proc'') (
       bind kalloc (\<lambda>pa.
       andthen (panic_if (pa = 0) ''kalloc'') (
       andthen (kvmmap (KSTACK i) pa PGSIZE (PTE_R OR PTE_W)) (
       on_proc i (\<lambda>p. p\<lparr>p_kstack := KSTACK i\<rparr>))))))) (
     kvminithart))"

definition curproc :: "(nat, 'x kstate_scheme) kop" where
  "curproc = bind myproc (\<lambda>p. case p of None \<Rightarrow> panic ''kerneltrap'' | Some i \<Rightarrow> ret i)"

definition allocpid :: "(u32, 'x proc_state_scheme) kop" where
  "allocpid =
     andthen (acquire Lk_pid) (
     bind (gets nextpid) (\<lambda>pid.
     andthen (modify (\<lambda>s. s\<lparr>nextpid := nextpid s + 1\<rparr>)) (
     andthen (release Lk_pid) (
     ret pid))))"

definition proc_pagetable :: "nat \<Rightarrow> (u64, 'x proc_state_scheme) kop" where
  "proc_pagetable i =
     bind uvmcreate (\<lambda>pt.
     if pt = 0 then ret 0
     else
       bind (gets trampoline) (\<lambda>tr.
       bind (mappages pt TRAMPOLINE PGSIZE tr (PTE_R OR PTE_X)) (\<lambda>r.
       if r < 0 then andthen (uvmfree 3 pt 0) (ret 0)
       else
         bind (gets (\<lambda>s. p_trapframe (procs s i))) (\<lambda>tf.
         bind (mappages pt TRAPFRAME PGSIZE tf (PTE_R OR PTE_W)) (\<lambda>r.
         if r < 0 then
           andthen (uvmunmap pt TRAMPOLINE 1 False) (
           andthen (uvmfree 3 pt 0) (
           ret 0))
         else ret pt)))))"

definition proc_freepagetable :: "u64 \<Rightarrow> u64 \<Rightarrow> (unit, 'x proc_state_scheme) kop" where
  "proc_freepagetable pt sz =
     andthen (uvmunmap pt TRAMPOLINE 1 False) (
     andthen (uvmunmap pt TRAPFRAME 1 False) (
     uvmfree 3 pt sz))"

definition freeproc :: "nat \<Rightarrow> (unit, 'x proc_state_scheme) kop" where
  "freeproc i =
     bind (gets (\<lambda>s. p_trapframe (procs s i))) (\<lambda>tf.
     andthen (if tf \<noteq> 0 then kfree tf else ret ()) (
     andthen (on_proc i (\<lambda>p. p\<lparr>p_trapframe := 0\<rparr>)) (
     bind (gets (\<lambda>s. procs s i)) (\<lambda>p.
     andthen (if p_pagetable p \<noteq> 0 then proc_freepagetable (p_pagetable p) (p_sz p) else ret ()) (
     on_proc i (\<lambda>p. p\<lparr>p_pagetable := 0, p_sz := 0, p_pid := 0, p_parent := None, p_name := (p_name p)(0 := 0),
       p_chan := Ch_none, p_killed := False, p_xstate := 0, p_state := UNUSED\<rparr>))))))"

fun allocproc_scan :: "nat list \<Rightarrow> (nat option, 'x proc_state_scheme) kop" where
  "allocproc_scan [] = ret None"
| "allocproc_scan (i # is) =
     andthen (acquire (Lk_proc i)) (
     bind (gets (\<lambda>s. p_state (procs s i))) (\<lambda>st.
     if st = UNUSED then ret (Some i)
     else andthen (release (Lk_proc i)) (allocproc_scan is)))"

definition allocproc_found :: "nat \<Rightarrow> (nat option, 'x proc_state_scheme) kop" where
  "allocproc_found i =
     bind allocpid (\<lambda>pid.
     andthen (on_proc i (\<lambda>p. p\<lparr>p_pid := pid\<rparr>)) (
     bind kalloc (\<lambda>tf.
     andthen (on_proc i (\<lambda>p. p\<lparr>p_trapframe := tf\<rparr>)) (
     if tf = 0 then andthen (release (Lk_proc i)) (ret None)
     else
       bind (proc_pagetable i) (\<lambda>pt.
       andthen (on_proc i (\<lambda>p. p\<lparr>p_pagetable := pt\<rparr>)) (
       if pt = 0 then andthen (freeproc i) (andthen (release (Lk_proc i)) (ret None))
       else
         andthen (on_proc i (\<lambda>p. p\<lparr>p_context := \<lparr>ctx_ra = 0, ctx_sp = 0, ctx_s = (\<lambda>_. 0)\<rparr>\<rparr>)) (
         bind (gets forkret_addr) (\<lambda>fr.
         andthen (on_proc i (\<lambda>p. p\<lparr>p_context := (p_context p)\<lparr>ctx_ra := fr, ctx_sp := p_kstack p + PGSIZE\<rparr>\<rparr>)) (
         ret (Some i))))))))))"

definition allocproc :: "(nat option, 'x proc_state_scheme) kop" where
  "allocproc = bind (allocproc_scan [0..<NPROC]) (\<lambda>r. case r of None \<Rightarrow> ret None | Some i \<Rightarrow> allocproc_found i)"

definition growproc :: "u32 \<Rightarrow> (int, 'x proc_state_scheme) kop" where
  "growproc n =
     bind curproc (\<lambda>i.
     bind (gets (\<lambda>s. procs s i)) (\<lambda>p.
     let sz = ucast (p_sz p) :: u32; sz' = ucast (sz + n) :: u64 in
     if sint n > 0 then
       bind (uvmalloc (p_pagetable p) (ucast sz) sz') (\<lambda>r.
       if ucast r = (0 :: u32) then ret (- 1)
       else andthen (on_proc i (\<lambda>p. p\<lparr>p_sz := ucast (ucast r :: u32)\<rparr>)) (ret 0))
     else if sint n < 0 then
       bind (uvmdealloc (p_pagetable p) (ucast sz) sz') (\<lambda>r.
       andthen (on_proc i (\<lambda>p. p\<lparr>p_sz := ucast (ucast r :: u32)\<rparr>)) (ret 0))
     else andthen (on_proc i (\<lambda>p. p\<lparr>p_sz := ucast sz\<rparr>)) (ret 0)))"

definition sched :: "('a, 'x proc_state_scheme) kop" where
  "sched =
     bind curproc (\<lambda>i.
     bind (gets (\<lambda>s. holding (Lk_proc i) (hw s))) (\<lambda>h.
     andthen (panic_if (\<not> h) ''sched p->lock'') (
     bind (gets (\<lambda>s. noff (mycpu (hw s)))) (\<lambda>n.
     andthen (panic_if (n \<noteq> 1) ''sched locks'') (
     bind (gets (\<lambda>s. p_state (procs s i))) (\<lambda>st.
     andthen (panic_if (st = RUNNING) ''sched running'') (
     bind (gets (\<lambda>s. intr_get (hw s))) (\<lambda>ie.
     andthen (panic_if ie ''sched interruptible'') (
     (\<lambda>s. Switch s))))))))))"

definition sched_resume :: "bool \<Rightarrow> (unit, 'x proc_state_scheme) kop" where
  "sched_resume ie = modify (\<lambda>s. s\<lparr>hw := set_mycpu ((mycpu (hw s))\<lparr>intena := ie\<rparr>) (hw s)\<rparr>)"

definition yield :: "('a, 'x proc_state_scheme) kop" where
  "yield =
     bind curproc (\<lambda>i.
     andthen (acquire (Lk_proc i)) (
     andthen (on_proc i (\<lambda>p. p\<lparr>p_state := RUNNABLE\<rparr>))
     sched))"

definition yield_resume :: "bool \<Rightarrow> (unit, 'x proc_state_scheme) kop" where
  "yield_resume ie = andthen (sched_resume ie) (bind curproc (\<lambda>i. release (Lk_proc i)))"

definition sleep :: "chan \<Rightarrow> lockid \<Rightarrow> ('a, 'x proc_state_scheme) kop" where
  "sleep ch lk =
     bind curproc (\<lambda>i.
     andthen (if lk \<noteq> Lk_proc i then andthen (acquire (Lk_proc i)) (release lk) else ret ()) (
     andthen (on_proc i (\<lambda>p. p\<lparr>p_chan := ch\<rparr>)) (
     andthen (on_proc i (\<lambda>p. p\<lparr>p_state := SLEEPING\<rparr>))
     sched)))"

definition sleep_resume :: "lockid \<Rightarrow> bool \<Rightarrow> (unit, 'x proc_state_scheme) kop" where
  "sleep_resume lk ie =
     andthen (sched_resume ie) (
     bind curproc (\<lambda>i.
     andthen (on_proc i (\<lambda>p. p\<lparr>p_chan := Ch_none\<rparr>)) (
     if lk \<noteq> Lk_proc i then andthen (release (Lk_proc i)) (acquire lk) else ret ())))"

definition wakeup_one :: "chan \<Rightarrow> nat \<Rightarrow> (unit, 'x proc_state_scheme) kop" where
  "wakeup_one ch i =
     andthen (acquire (Lk_proc i)) (
     bind (gets (\<lambda>s. procs s i)) (\<lambda>p.
     andthen (if p_state p = SLEEPING \<and> p_chan p = ch then on_proc i (\<lambda>p. p\<lparr>p_state := RUNNABLE\<rparr>) else ret ()) (
     release (Lk_proc i))))"

definition wakeup :: "chan \<Rightarrow> (unit, 'x proc_state_scheme) kop" where
  "wakeup ch = for_each [0..<NPROC] (wakeup_one ch)"

definition wakeup1 :: "nat \<Rightarrow> (unit, 'x proc_state_scheme) kop" where
  "wakeup1 i =
     bind (gets (\<lambda>s. holding (Lk_proc i) (hw s))) (\<lambda>h.
     andthen (panic_if (\<not> h) ''wakeup1'') (
     bind (gets (\<lambda>s. procs s i)) (\<lambda>p.
     if p_chan p = Ch_proc i \<and> p_state p = SLEEPING then on_proc i (\<lambda>p. p\<lparr>p_state := RUNNABLE\<rparr>) else ret ())))"

fun kill_scan :: "u32 \<Rightarrow> nat list \<Rightarrow> (int, 'x proc_state_scheme) kop" where
  "kill_scan pid [] = ret (- 1)"
| "kill_scan pid (i # is) =
     andthen (acquire (Lk_proc i)) (
     bind (gets (\<lambda>s. procs s i)) (\<lambda>p.
     if p_pid p = pid then
       andthen (on_proc i (\<lambda>p. p\<lparr>p_killed := True\<rparr>)) (
       andthen (if p_state p = SLEEPING then on_proc i (\<lambda>p. p\<lparr>p_state := RUNNABLE\<rparr>) else ret ()) (
       andthen (release (Lk_proc i)) (
       ret 0)))
     else andthen (release (Lk_proc i)) (kill_scan pid is)))"

definition kill :: "u32 \<Rightarrow> (int, 'x proc_state_scheme) kop" where
  "kill pid = kill_scan pid [0..<NPROC]"

fun reparent_loop :: "nat \<Rightarrow> nat list \<Rightarrow> (unit, 'x proc_state_scheme) kop" where
  "reparent_loop p [] = ret ()"
| "reparent_loop p (i # is) =
     bind (gets (\<lambda>s. p_parent (procs s i))) (\<lambda>par.
     andthen
       (if par = Some p then
          andthen (acquire (Lk_proc i)) (
          bind (gets initproc) (\<lambda>ip.
          andthen (on_proc i (\<lambda>q. q\<lparr>p_parent := ip\<rparr>)) (
          release (Lk_proc i))))
        else ret ())
       (reparent_loop p is))"

definition reparent :: "nat \<Rightarrow> (unit, 'x proc_state_scheme) kop" where
  "reparent p = reparent_loop p [0..<NPROC]"

text \<open>The scan of \<open>wait\<close> returns the result of the system call, or whether there are children.\<close>

fun wait_scan :: "nat \<Rightarrow> u64 \<Rightarrow> bool \<Rightarrow> nat list \<Rightarrow> (bool + int, 'x proc_state_scheme) kop" where
  "wait_scan p addr havekids [] = ret (Inl havekids)"
| "wait_scan p addr havekids (i # is) =
     bind (gets (\<lambda>s. p_parent (procs s i))) (\<lambda>par.
     if par = Some p then
       andthen (acquire (Lk_proc i)) (
       bind (gets (\<lambda>s. procs s i)) (\<lambda>np.
       if p_state np = ZOMBIE then
         bind (if addr \<noteq> 0 then bind (gets (\<lambda>s. p_pagetable (procs s p))) (\<lambda>pt. copyout pt addr (le_bytes 4 (p_xstate np))) else ret 0) (\<lambda>r.
         andthen (release (Lk_proc i)) (
         andthen (release (Lk_proc p)) (
         ret (Inr (if r < 0 then - 1 else sint (p_pid np))))))
       else andthen (release (Lk_proc i)) (wait_scan p addr True is)))
     else wait_scan p addr havekids is)"

definition wait :: "u64 \<Rightarrow> u32 \<Rightarrow> (int, 'x proc_state_scheme) kop" where
  "wait addr flags =
     bind curproc (\<lambda>p.
     andthen (acquire (Lk_proc p)) (
     bind (wait_scan p addr False [0..<NPROC]) (\<lambda>r.
     case r of
       Inr res \<Rightarrow> ret res
     | Inl havekids \<Rightarrow>
         bind (gets (\<lambda>s. p_killed (procs s p))) (\<lambda>k.
         if flags = 1 then andthen (release (Lk_proc p)) (ret (- 1))
         else if \<not> havekids \<or> k then andthen (release (Lk_proc p)) (ret (- 1))
         else sleep (Ch_proc p) (Lk_proc p)))))"

definition wait_resume :: "u64 \<Rightarrow> u32 \<Rightarrow> bool \<Rightarrow> (int, 'x proc_state_scheme) kop" where
  "wait_resume addr flags ie =
     bind curproc (\<lambda>p.
     andthen (sleep_resume (Lk_proc p) ie) (
     andthen (release (Lk_proc p)) (
     wait addr flags)))"

text \<open>
  One turn of the scheduler's inner loop up to the \<open>swtch\<close> (\<open>Switch\<close>: process \<open>i\<close> runs next), or past a process
  that is not runnable; and what the scheduler does when the process comes back.
\<close>

definition scheduler_try :: "nat \<Rightarrow> (unit, 'x proc_state_scheme) kop" where
  "scheduler_try i =
     andthen (acquire (Lk_proc i)) (
     bind (gets (\<lambda>s. procs s i)) (\<lambda>p.
     if p_state p = RUNNABLE then
       andthen (on_proc i (\<lambda>p. p\<lparr>p_state := RUNNING\<rparr>)) (
       andthen (modify (\<lambda>s. s\<lparr>hw := set_mycpu ((mycpu (hw s))\<lparr>cpu_proc := Some i\<rparr>) (hw s)\<rparr>)) (
       bind (gets next_flag) (\<lambda>nf.
       andthen
         (if nf then
            bind (mem_read64 (p_trapframe p + 24)) (\<lambda>epc.
            andthen (printf (''Next runnable process pid is %d and user pc is %p'' @ [CHR 0x0A]) [Pint (p_pid p), Pptr epc]) (
            modify (\<lambda>s. s\<lparr>next_flag := False\<rparr>)))
          else ret ()) (
       (\<lambda>s. Switch s)))))
     else release (Lk_proc i)))"

definition scheduler_back :: "nat \<Rightarrow> (unit, 'x proc_state_scheme) kop" where
  "scheduler_back i =
     andthen (modify (\<lambda>s. s\<lparr>hw := set_mycpu ((mycpu (hw s))\<lparr>cpu_proc := None\<rparr>) (hw s)\<rparr>)) (
     release (Lk_proc i))"

definition either_copyout :: "bool \<Rightarrow> u64 \<Rightarrow> byte list \<Rightarrow> (int, 'x proc_state_scheme) kop" where
  "either_copyout user_dst dst src =
     bind curproc (\<lambda>i.
     if user_dst then bind (gets (\<lambda>s. p_pagetable (procs s i))) (\<lambda>pt. copyout pt dst src)
     else ret 0)"

text \<open>Where \<open>either_copyin\<close> reads: a user address, or the bytes of a kernel buffer.\<close>

datatype src = Usr u64 | Kbuf "byte list"

definition either_copyin :: "src \<Rightarrow> nat \<Rightarrow> nat \<Rightarrow> (int \<times> byte list, 'x proc_state_scheme) kop" where
  "either_copyin src off len =
     bind curproc (\<lambda>i.
     case src of
       Usr va \<Rightarrow> bind (gets (\<lambda>s. p_pagetable (procs s i))) (\<lambda>pt. copyin pt (va + of_nat off) len)
     | Kbuf bs \<Rightarrow> ret (0, take len (drop off bs)))"

definition state_name :: "procstate \<Rightarrow> string" where
  "state_name st = (case st of UNUSED \<Rightarrow> ''unused'' | SLEEPING \<Rightarrow> ''sleep '' | RUNNABLE \<Rightarrow> ''runble'' | RUNNING \<Rightarrow> ''run   '' | ZOMBIE \<Rightarrow> ''zombie'')"

definition name_bytes :: "cptr \<Rightarrow> byte list" where
  "name_bytes nm = map nm [0..<16]"

definition procdump :: "(unit, 'x proc_state_scheme) kop" where
  "procdump =
     andthen (printf [CHR 0x0A] []) (
     for_each [0..<NPROC] (\<lambda>i.
       bind (gets (\<lambda>s. procs s i)) (\<lambda>p.
       if p_state p = UNUSED then ret ()
       else
         andthen (printf ''%d %s %s'' [Pint (p_pid p), Pstr (Some (bytes_of (state_name (p_state p)))), Pstr (Some (name_bytes (p_name p)))]) (
         printf [CHR 0x0A] []))))"

section \<open>Laws\<close>

lemma curproc_ok [simp]:
  "intr_ok (hw s) \<Longrightarrow> cpu_proc (mycpu (hw s)) = Some i \<Longrightarrow> curproc s = Ok i (s\<lparr>hw := lock_cycle (hw s)\<rparr>)"
  by (simp add: curproc_def bind_apply)

lemma on_proc_apply [simp, kop]: "on_proc i f s = Ok () (s\<lparr>procs := (procs s)(i := f (procs s i))\<rparr>)"
  by (simp add: on_proc_def)

text \<open>The locks of the process table are free.\<close>

definition plocks_free :: "hw \<Rightarrow> bool" where
  "plocks_free h \<longleftrightarrow> (\<forall>i<NPROC. lk_free (Lk_proc i) h)"

definition woken :: "chan \<Rightarrow> nat list \<Rightarrow> (nat \<Rightarrow> proc) \<Rightarrow> nat \<Rightarrow> proc" where
  "woken ch is P = (\<lambda>i. if i \<in> set is \<and> p_state (P i) = SLEEPING \<and> p_chan (P i) = ch then (P i)\<lparr>p_state := RUNNABLE\<rparr> else P i)"

lemma woken_Cons:
  "woken ch is (if p_state (P i) = SLEEPING \<and> p_chan (P i) = ch then P(i := (P i)\<lparr>p_state := RUNNABLE\<rparr>) else P) = woken ch (i # is) P"
  by (auto simp: woken_def fun_eq_iff)

lemma wakeup_one_run:
  assumes "lk_free (Lk_proc i) (hw s)" and "intr_ok (hw s)"
  shows "wakeup_one ch i s = Ok () (s\<lparr>hw := lock_cycle (hw s),
    procs := (if p_state (procs s i) = SLEEPING \<and> p_chan (procs s i) = ch then (procs s)(i := (procs s i)\<lparr>p_state := RUNNABLE\<rparr>) else procs s)\<rparr>)"
  using assms by (simp add: wakeup_one_def kop)

lemma wakeup_loop:
  "\<forall>i\<in>set is. lk_free (Lk_proc i) (hw s) \<Longrightarrow> intr_ok (hw s) \<Longrightarrow>
    for_each is (wakeup_one ch) s = Ok () (s\<lparr>hw := (if is = [] then hw s else lock_cycle (hw s)), procs := woken ch is (procs s)\<rparr>)"
proof (induction "is" arbitrary: s)
  case Nil
  then show ?case by (simp add: woken_def)
next
  case (Cons i "is")
  let ?P = "if p_state (procs s i) = SLEEPING \<and> p_chan (procs s i) = ch then (procs s)(i := (procs s i)\<lparr>p_state := RUNNABLE\<rparr>) else procs s"
  let ?t = "s\<lparr>hw := lock_cycle (hw s), procs := ?P\<rparr>"
  have "for_each (i # is) (wakeup_one ch) s = for_each is (wakeup_one ch) ?t"
    using wakeup_one_run [of i s ch] Cons.prems by (simp add: andthen_apply)
  also have "\<dots> = Ok () (?t\<lparr>hw := (if is = [] then hw ?t else lock_cycle (hw ?t)), procs := woken ch is (procs ?t)\<rparr>)"
    by (rule Cons.IH) (use Cons.prems in simp_all)
  finally show ?case by (simp add: woken_Cons)
qed

lemma wakeup_run:
  assumes "plocks_free (hw s)" and "intr_ok (hw s)"
  shows "wakeup ch s = Ok () (s\<lparr>hw := lock_cycle (hw s), procs := woken ch [0..<NPROC] (procs s)\<rparr>)"
  unfolding wakeup_def using assms by (subst wakeup_loop) (auto simp: plocks_free_def)

lemma sleep_run:
  assumes "hw s = held lk h" and "lk \<noteq> Lk_proc i" and "lk_free lk h" and "lk_free (Lk_proc i) h"
    and "cpu_proc (mycpu h) = Some i" and "noff (mycpu h) = 0"
  shows "sleep ch lk s = Switch (s\<lparr>hw := held (Lk_proc i) h,
    procs := (procs s)(i := (procs s i)\<lparr>p_chan := ch, p_state := SLEEPING\<rparr>)\<rparr>)"
  using assms by (simp add: sleep_def sched_def kop)

lemma sleep_own_run:
  assumes "hw s = held (Lk_proc i) h" and "lk_free (Lk_proc i) h" and "cpu_proc (mycpu h) = Some i" and "noff (mycpu h) = 0"
  shows "sleep ch (Lk_proc i) s = Switch (s\<lparr>procs := (procs s)(i := (procs s i)\<lparr>p_chan := ch, p_state := SLEEPING\<rparr>)\<rparr>)"
  using assms by (simp add: sleep_def sched_def kop)

text \<open>C29: a process that sleeps on a channel gives up the lock it came with and stops with only its own lock held;
  when \<open>wakeup\<close> is later called on that channel the process becomes runnable, exactly the processes sleeping on that
  channel do, and nothing else of any process changes; \<open>wakeup\<close> on another channel leaves the sleeper asleep.\<close>

theorem sleep_wakeup_correct:
  fixes s :: "'x proc_state_scheme"
  assumes "hw s = held lk h" and "lk \<noteq> Lk_proc p" and "lk_free lk h" and "lk_free (Lk_proc p) h"
    and "cpu_proc (mycpu h) = Some p" and "noff (mycpu h) = 0" and "p < NPROC"
  shows "\<exists>t. sleep ch lk s = Switch t \<and> hw t = held (Lk_proc p) h \<and>
    (\<forall>(u :: 'x proc_state_scheme) ch'. procs u = procs t \<and> plocks_free (hw u) \<and> intr_ok (hw u) \<longrightarrow>
       (\<exists>v. wakeup ch' u = Ok () v \<and> hw v = lock_cycle (hw u) \<and>
         procs v p = (procs s p)\<lparr>p_chan := ch, p_state := (if ch' = ch then RUNNABLE else SLEEPING)\<rparr> \<and>
         (\<forall>q. q \<noteq> p \<longrightarrow> procs v q =
           (if q < NPROC \<and> p_state (procs s q) = SLEEPING \<and> p_chan (procs s q) = ch'
            then (procs s q)\<lparr>p_state := RUNNABLE\<rparr> else procs s q))))"
proof -
  let ?t = "s\<lparr>hw := held (Lk_proc p) h, procs := (procs s)(p := (procs s p)\<lparr>p_chan := ch, p_state := SLEEPING\<rparr>)\<rparr>"
  have t: "sleep ch lk s = Switch ?t" by (rule sleep_run) (use assms in simp_all)
  show ?thesis
    by (rule exI [of _ ?t]) (use t assms(7) in \<open>auto simp: wakeup_run woken_def\<close>)
qed

definition proc0 :: proc where
  "proc0 = \<lparr>p_state = UNUSED, p_parent = None, p_chan = Ch_none, p_killed = False, p_xstate = 0, p_pid = 0,
     p_kstack = 0, p_sz = 0, p_pagetable = 0, p_trapframe = 0,
     p_context = \<lparr>ctx_ra = 0, ctx_sp = 0, ctx_s = (\<lambda>_. 0)\<rparr>, p_ofile = (\<lambda>_. None), p_cwd = None, p_name = (\<lambda>_. 0)\<rparr>"

text \<open>A machine whose hart 0 runs process 0; process 1 is its child and has exited.\<close>

definition hw_p :: hw where
  "hw_p = set_mycpu \<lparr>cpu_proc = Some 0, noff = 0, intena = False\<rparr> hw0"

definition proc_st0 :: proc_state where
  "proc_st0 = \<lparr>hw = hw_p, kend = 0x87ff0000, mem = (\<lambda>_. 0), freelist = 0, etext = 0, trampoline = 0,
     kernel_pagetable = 0, uart_thr = [], panicked = False, pr_locking = True,
     procs = (\<lambda>_. proc0)(0 := proc0\<lparr>p_pid := 1, p_state := RUNNING\<rparr>,
       1 := proc0\<lparr>p_pid := 2, p_state := ZOMBIE, p_parent := Some 0\<rparr>),
     initproc = Some 0, nextpid = 3, next_flag = False, forkret_addr = 0\<rparr>"

lemma hw_p_facts [simp]:
  "lk_free lk hw_p" "intr_ok hw_p" "plocks_free hw_p" "cpu_proc (mycpu hw_p) = Some 0" "noff (mycpu hw_p) = 0"
  by (simp_all add: hw_p_def plocks_free_def lk_free_def intr_ok_def hw0_def hw_defs)

theorem sleep_wakeup_correct_witness:
  "\<exists>t v. sleep Ch_ticks Lk_ticks (proc_st0\<lparr>hw := held Lk_ticks hw_p\<rparr>) = (Switch t :: (unit, proc_state) res) \<and>
    wakeup Ch_ticks (t\<lparr>hw := hw_p\<rparr>) = Ok () v \<and> p_state (procs v 0) = RUNNABLE"
proof -
  from sleep_wakeup_correct [of "proc_st0\<lparr>hw := held Lk_ticks hw_p\<rparr>" Lk_ticks hw_p 0 Ch_ticks] obtain t
    where t: "sleep Ch_ticks Lk_ticks (proc_st0\<lparr>hw := held Lk_ticks hw_p\<rparr>) = (Switch t :: (unit, proc_state) res)"
      and w: "\<And>(u :: proc_state) ch'. procs u = procs t \<and> plocks_free (hw u) \<and> intr_ok (hw u) \<Longrightarrow>
        \<exists>v. wakeup ch' u = Ok () v \<and> p_state (procs v 0) = (if ch' = Ch_ticks then RUNNABLE else SLEEPING)"
    by fastforce
  show ?thesis using t w [of "t\<lparr>hw := hw_p\<rparr>" Ch_ticks] by auto
qed

section \<open>\<open>wait\<close>\<close>

definition zombie_child :: "(nat \<Rightarrow> proc) \<Rightarrow> nat \<Rightarrow> nat \<Rightarrow> bool" where
  "zombie_child P p i \<longleftrightarrow> p_parent (P i) = Some p \<and> p_state (P i) = ZOMBIE"

lemma wait_scan_run:
  assumes "\<forall>i\<in>set is. lk_free (Lk_proc i) h" and "lk_free (Lk_proc p) h" and "intr_ok h" and "hw s = held (Lk_proc p) h"
    and "p_parent (procs s p) \<noteq> Some p"
  shows "wait_scan p 0 hk is s = (case find (zombie_child (procs s) p) is of
      Some i \<Rightarrow> Ok (Inr (sint (p_pid (procs s i)))) (s\<lparr>hw := lock_cycle h\<rparr>)
    | None \<Rightarrow> Ok (Inl (hk \<or> (\<exists>i\<in>set is. p_parent (procs s i) = Some p))) s)"
  using assms
proof (induction "is" arbitrary: hk)
  case Nil
  then show ?case by simp
next
  case (Cons i "is")
  have IH: "wait_scan p 0 hk' is s = (case find (zombie_child (procs s) p) is of
      Some i \<Rightarrow> Ok (Inr (sint (p_pid (procs s i)))) (s\<lparr>hw := lock_cycle h\<rparr>)
    | None \<Rightarrow> Ok (Inl (hk' \<or> (\<exists>i\<in>set is. p_parent (procs s i) = Some p))) s)" for hk'
    by (rule Cons.IH) (use Cons.prems in simp_all)
  show ?case
  proof (cases "p_parent (procs s i) = Some p")
    case True
    then have ne: "i \<noteq> p" using Cons.prems by auto
    then have fr: "lk_free (Lk_proc i) (held (Lk_proc p) h)" using Cons.prems by simp
    have same: "s\<lparr>hw := held (Lk_proc p) h\<rparr> = s" using Cons.prems(4) [symmetric] by simp
    show ?thesis
    proof (cases "p_state (procs s i) = ZOMBIE")
      case z: True
      then show ?thesis using True ne fr Cons.prems by (simp add: bind_apply andthen_apply zombie_child_def)
    next
      case nz: False
      then have "wait_scan p 0 hk (i # is) s = wait_scan p 0 True is (s\<lparr>hw := held (Lk_proc p) h\<rparr>)"
        using True ne fr Cons.prems by (simp add: bind_apply andthen_apply)
      also have "\<dots> = wait_scan p 0 True is s" by (simp only: same)
      finally show ?thesis using IH [of True] nz True zombie_child_def [of "procs s" p i] by (simp cong: option.case_cong)
    qed
  next
    case False
    then show ?thesis using IH [of hk] zombie_child_def [of "procs s" p i] by (simp add: bind_apply cong: option.case_cong)
  qed
qed

text \<open>C30: \<open>wait\<close> with a null status address, for a process \<open>p\<close> holding no lock: it returns the pid of the first zombie child in
  table order; with none it returns -1 in non-blocking mode, when there is no child and when \<open>p\<close> is killed; and
  otherwise \<open>p\<close> sleeps on itself with its lock held. In every case the rest of the process table is unchanged: the
  zombie found stays a zombie, with its pid, its memory and its slot.\<close>

theorem wait_correct:
  assumes "plocks_free (hw s)" and "intr_ok (hw s)" and "cpu_proc (mycpu (hw s)) = Some p" and "p < NPROC"
    and "noff (mycpu (hw s)) = 0" and "p_parent (procs s p) \<noteq> Some p"
  shows "wait 0 flags s = (case find (zombie_child (procs s) p) [0..<NPROC] of
      Some i \<Rightarrow> Ok (sint (p_pid (procs s i))) (s\<lparr>hw := lock_cycle (hw s)\<rparr>)
    | None \<Rightarrow>
        if flags = 1 \<or> \<not> (\<exists>i<NPROC. p_parent (procs s i) = Some p) \<or> p_killed (procs s p)
        then Ok (- 1) (s\<lparr>hw := lock_cycle (hw s)\<rparr>)
        else Switch (s\<lparr>hw := held (Lk_proc p) (hw s),
               procs := (procs s)(p := (procs s p)\<lparr>p_chan := Ch_proc p, p_state := SLEEPING\<rparr>)\<rparr>))"
proof -
  let ?h = "lock_cycle (hw s)"
  let ?t = "s\<lparr>hw := held (Lk_proc p) ?h\<rparr>"
  have fr: "lk_free (Lk_proc p) ?h" "\<forall>i\<in>set [0..<NPROC]. lk_free (Lk_proc i) ?h" "intr_ok ?h"
    using assms by (auto simp: plocks_free_def)
  have scan: "wait_scan p 0 False [0..<NPROC] ?t = (case find (zombie_child (procs s) p) [0..<NPROC] of
      Some i \<Rightarrow> Ok (Inr (sint (p_pid (procs s i)))) (s\<lparr>hw := lock_cycle (hw s)\<rparr>)
    | None \<Rightarrow> Ok (Inl (\<exists>i\<in>set [0..<NPROC]. p_parent (procs s i) = Some p)) ?t)"
    using wait_scan_run [OF fr(2,1,3), of ?t False] assms by (simp cong: option.case_cong)
  have sl: "sleep (Ch_proc p) (Lk_proc p) ?t = Switch (?t\<lparr>procs := (procs s)(p := (procs s p)\<lparr>p_chan := Ch_proc p, p_state := SLEEPING\<rparr>)\<rparr>)"
    using sleep_own_run [of ?t p ?h] fr assms by simp
  have rel: "release (Lk_proc p) ?t = Ok () (s\<lparr>hw := lock_cycle (hw s)\<rparr>)"
    using release_held [of ?t "Lk_proc p" ?h] fr by simp
  have "wait 0 flags s = bind (wait_scan p 0 False [0..<NPROC]) (\<lambda>r.
     case r of
       Inr res \<Rightarrow> ret res
     | Inl havekids \<Rightarrow>
         bind (gets (\<lambda>s. p_killed (procs s p))) (\<lambda>k.
         if flags = 1 then andthen (release (Lk_proc p)) (ret (- 1))
         else if \<not> havekids \<or> k then andthen (release (Lk_proc p)) (ret (- 1))
         else sleep (Ch_proc p) (Lk_proc p))) ?t"
    using assms fr unfolding wait_def by (simp add: bind_apply andthen_apply)
  then show ?thesis
    using scan sl rel by (cases "find (zombie_child (procs s) p) [0..<NPROC]") (auto simp: bind_apply andthen_apply)
qed


theorem wait_correct_witness:
  "wait 0 0 proc_st0 = Ok 2 (proc_st0\<lparr>hw := lock_cycle hw_p\<rparr>) \<and>
   wait 0 0 (proc_st0\<lparr>hw := lock_cycle hw_p\<rparr>) = Ok 2 (proc_st0\<lparr>hw := lock_cycle hw_p\<rparr>)"
  using wait_correct [of proc_st0 0 0] wait_correct [of "proc_st0\<lparr>hw := lock_cycle hw_p\<rparr>" 0 0]
  by (simp add: proc_st0_def proc0_def zombie_child_def upt_rec plocks_free_def)

section \<open>\<open>kill\<close>\<close>

definition killed :: "proc \<Rightarrow> proc" where
  "killed p = p\<lparr>p_killed := True, p_state := (if p_state p = SLEEPING then RUNNABLE else p_state p)\<rparr>"

lemma kill_scan_run:
  assumes "\<forall>i\<in>set is. lk_free (Lk_proc i) (hw s)" and "intr_ok (hw s)"
  shows "kill_scan pid is s = (case find (\<lambda>i. p_pid (procs s i) = pid) is of
      None \<Rightarrow> Ok (- 1) (s\<lparr>hw := (if is = [] then hw s else lock_cycle (hw s))\<rparr>)
    | Some i \<Rightarrow> Ok 0 (s\<lparr>hw := lock_cycle (hw s), procs := (procs s)(i := killed (procs s i))\<rparr>))"
  using assms
proof (induction "is" arbitrary: s)
  case Nil
  then show ?case by simp
next
  case (Cons i "is")
  show ?case
  proof (cases "p_pid (procs s i) = pid")
    case True
    then show ?thesis using Cons.prems by (simp add: kop killed_def)
  next
    case False
    then have "kill_scan pid (i # is) s = kill_scan pid is (s\<lparr>hw := lock_cycle (hw s)\<rparr>)"
      using Cons.prems by (simp add: kop)
    then show ?thesis using Cons.IH [of "s\<lparr>hw := lock_cycle (hw s)\<rparr>"] Cons.prems False
      by (simp cong: option.case_cong)
  qed
qed

text \<open>C31: \<open>kill\<close> marks exactly the first slot whose pid is the given one as killed and makes it runnable if it sleeps;
  every other process is unchanged; with no such slot it returns -1 and changes no process.\<close>

theorem kill_correct:
  assumes "plocks_free (hw s)" and "intr_ok (hw s)"
  shows "kill pid s = (case find (\<lambda>i. p_pid (procs s i) = pid) [0..<NPROC] of
      None \<Rightarrow> Ok (- 1) (s\<lparr>hw := lock_cycle (hw s)\<rparr>)
    | Some i \<Rightarrow> Ok 0 (s\<lparr>hw := lock_cycle (hw s), procs := (procs s)(i := killed (procs s i))\<rparr>))"
  unfolding kill_def using assms by (subst kill_scan_run) (auto simp: plocks_free_def cong: option.case_cong)

theorem kill_correct_witness:
  "kill 0 proc_st0 = Ok 0 (proc_st0\<lparr>hw := lock_cycle hw_p, procs := (procs proc_st0)(2 := proc0\<lparr>p_killed := True\<rparr>)\<rparr>)"
proof -
  have f: "find (\<lambda>i. p_pid (procs proc_st0 i) = 0) [0..<NPROC] = Some 2"
    by (simp add: proc_st0_def proc0_def upt_rec numeral_2_eq_2)
  have "hw proc_st0 = hw_p" "killed (procs proc_st0 2) = proc0\<lparr>p_killed := True\<rparr>"
    by (simp_all add: proc_st0_def killed_def proc0_def)
  then show ?thesis using kill_correct [of proc_st0 0] f by simp
qed

end
