(* ===== verification/Sleeplock.thy ===== *)
theory Sleeplock
  imports Proc
begin

text \<open>
  \<open>kernel/sleeplock.c\<close>: locks held across blocking operations, each built from a spinlock and the pid of the
  holder. The loop of \<open>acquiresleep\<close> is \<open>acquiresleep_loop\<close>: it takes a free lock, and otherwise sleeps on the
  lock; a process woken there goes on with \<open>acquiresleep_resume\<close>.
\<close>

section \<open>Code\<close>

record sleeplock =
  sl_locked :: bool
  sl_name :: string
  sl_pid :: u32

record sl_state = proc_state +
  slocks :: "slid \<Rightarrow> sleeplock"

definition on_sl :: "slid \<Rightarrow> (sleeplock \<Rightarrow> sleeplock) \<Rightarrow> (unit, 'x sl_state_scheme) kop" where
  "on_sl l f = modify (\<lambda>s. s\<lparr>slocks := (slocks s)(l := f (slocks s l))\<rparr>)"

definition initsleeplock :: "slid \<Rightarrow> string \<Rightarrow> (unit, 'x sl_state_scheme) kop" where
  "initsleeplock l name =
     andthen (initlock (Lk_sleep l) ''sleep lock'') (
     on_sl l (\<lambda>k. k\<lparr>sl_name := name, sl_locked := False, sl_pid := 0\<rparr>))"

definition acquiresleep_loop :: "slid \<Rightarrow> (unit, 'x sl_state_scheme) kop" where
  "acquiresleep_loop l =
     bind (gets (\<lambda>s. sl_locked (slocks s l))) (\<lambda>b.
     if b then sleep (Ch_sleeplock l) (Lk_sleep l)
     else
       andthen (on_sl l (\<lambda>k. k\<lparr>sl_locked := True\<rparr>)) (
       bind curproc (\<lambda>p.
       bind (gets (\<lambda>s. p_pid (procs s p))) (\<lambda>pid.
       andthen (on_sl l (\<lambda>k. k\<lparr>sl_pid := pid\<rparr>)) (
       release (Lk_sleep l))))))"

definition acquiresleep :: "slid \<Rightarrow> (unit, 'x sl_state_scheme) kop" where
  "acquiresleep l = andthen (acquire (Lk_sleep l)) (acquiresleep_loop l)"

definition acquiresleep_resume :: "slid \<Rightarrow> bool \<Rightarrow> (unit, 'x sl_state_scheme) kop" where
  "acquiresleep_resume l ie = andthen (sleep_resume (Lk_sleep l) ie) (acquiresleep_loop l)"

definition releasesleep :: "slid \<Rightarrow> (unit, 'x sl_state_scheme) kop" where
  "releasesleep l =
     andthen (acquire (Lk_sleep l)) (
     andthen (on_sl l (\<lambda>k. k\<lparr>sl_locked := False, sl_pid := 0\<rparr>)) (
     andthen (wakeup (Ch_sleeplock l)) (
     release (Lk_sleep l))))"

definition holdingsleep :: "slid \<Rightarrow> (bool, 'x sl_state_scheme) kop" where
  "holdingsleep l =
     andthen (acquire (Lk_sleep l)) (
     bind curproc (\<lambda>p.
     bind (gets (\<lambda>s. sl_locked (slocks s l) \<and> sl_pid (slocks s l) = p_pid (procs s p))) (\<lambda>r.
     andthen (release (Lk_sleep l)) (
     ret r))))"

section \<open>Laws\<close>

lemma on_sl_apply [simp, kop]: "on_sl l f s = Ok () (s\<lparr>slocks := (slocks s)(l := f (slocks s l))\<rparr>)"
  by (simp add: on_sl_def)

text \<open>The running process \<open>p\<close> holds no spinlock, and no spinlock is held elsewhere.\<close>

definition running :: "nat \<Rightarrow> 'x proc_state_scheme \<Rightarrow> bool" where
  "running p s \<longleftrightarrow> (\<forall>lk. lk_free lk (hw s)) \<and> intr_ok (hw s) \<and> cpu_proc (mycpu (hw s)) = Some p \<and>
     noff (mycpu (hw s)) = 0 \<and> p < NPROC"

lemma running_facts:
  assumes "running p s"
  shows "lk_free lk (hw s)" and "intr_ok (hw s)" and "cpu_proc (mycpu (hw s)) = Some p" and "noff (mycpu (hw s)) = 0"
    and "plocks_free (hw s)" and "p < NPROC"
  using assms by (simp_all add: running_def plocks_free_def)

lemma running_cong: "hw t = hw s \<or> hw t = lock_cycle (hw s) \<Longrightarrow> running p t = running p s"
  by (auto simp: running_def)

lemma acquiresleep_free:
  assumes "running p s" and "\<not> sl_locked (slocks s l)"
  shows "acquiresleep l s = Ok () (s\<lparr>hw := lock_cycle (hw s),
    slocks := (slocks s)(l := (slocks s l)\<lparr>sl_locked := True, sl_pid := p_pid (procs s p)\<rparr>)\<rparr>)"
  using assms(2) running_facts [OF assms(1)] by (simp add: acquiresleep_def acquiresleep_loop_def kop)

lemma acquiresleep_busy:
  assumes "running p s" and "sl_locked (slocks s l)"
  shows "acquiresleep l s = Switch (s\<lparr>hw := held (Lk_proc p) (hw s),
    procs := (procs s)(p := (procs s p)\<lparr>p_chan := Ch_sleeplock l, p_state := SLEEPING\<rparr>)\<rparr>)"
  using assms(2) running_facts [OF assms(1)]
  by (simp add: acquiresleep_def acquiresleep_loop_def kop sleep_run [where h = "hw s"])

lemma plocks_free_held [simp]: "plocks_free (held lk h) \<longleftrightarrow> plocks_free h \<and> (\<forall>i<NPROC. lk \<noteq> Lk_proc i)"
  by (auto simp: plocks_free_def)

lemma plocks_free_cycle [simp]: "plocks_free (lock_cycle h) = plocks_free h"
  by (simp add: plocks_free_def)

lemma releasesleep_run:
  assumes "running p s"
  shows "releasesleep l s = Ok () (s\<lparr>hw := lock_cycle (hw s), procs := woken (Ch_sleeplock l) [0..<NPROC] (procs s),
    slocks := (slocks s)(l := (slocks s l)\<lparr>sl_locked := False, sl_pid := 0\<rparr>)\<rparr>)"
  using running_facts [OF assms] by (simp add: releasesleep_def kop wakeup_run)

lemma holdingsleep_run:
  assumes "running p s"
  shows "holdingsleep l s = Ok (sl_locked (slocks s l) \<and> sl_pid (slocks s l) = p_pid (procs s p)) (s\<lparr>hw := lock_cycle (hw s)\<rparr>)"
  using running_facts [OF assms] by (simp add: holdingsleep_def kop)

section \<open>Coming back from \<open>swtch\<close>\<close>

text \<open>\<open>sched\<close> restores \<open>intena\<close>: for the hart this is as if the process had its own interrupt state when the
  scheduler took the lock.\<close>

definition intr_set :: "bool \<Rightarrow> hw \<Rightarrow> hw" where
  "intr_set ie h = (if ie then intr_on h else intr_off h)"

lemma csr_off_on [simp]: "csr_intr_off (csr_intr_on c) = csr_intr_off c"
proof -
  have "(sstatus c OR 2) AND NOT 2 = sstatus c AND NOT 2"
    by (rule bit_word_eqI) (unfold sie_bit, auto)
  then show ?thesis by (simp add: csr_intr_on_def csr_intr_off_def)
qed

lemma csr_off_off [simp]: "csr_intr_off (csr_intr_off c) = csr_intr_off c"
  by simp

lemma csr_on_idle [simp]:
  assumes "csr_intr_get c"
  shows "csr_intr_on c = c"
proof -
  have "sstatus c OR 2 = sstatus c"
    using assms by (intro bit_word_eqI) (unfold csr_intr_get_bit sie_bit, auto simp: bit_2_iff bit_or_iff)
  then show ?thesis by (simp add: csr_intr_on_def)
qed

lemma intr_set_facts [simp]:
  "lk_free lk (intr_set ie h) = lk_free lk h" "cpuid (intr_set ie h) = cpuid h" "mycpu (intr_set ie h) = mycpu h"
  "intr_get (intr_set ie h) = ie" "locks (intr_set ie h) = locks h"
  by (simp_all add: intr_set_def lk_free_def hw_defs)

lemma intr_get_cycle [simp]: "intr_get (lock_cycle h) = intr_get h"
  by (simp add: lock_cycle_def hw_defs)

lemma plocks_free_intr_set [simp]: "plocks_free (intr_set ie h) = plocks_free h"
  by (simp add: plocks_free_def)

lemma intr_ok_intr_set [simp]: "noff (mycpu h) = 0 \<Longrightarrow> intr_ok (intr_set ie h)"
  by (simp add: intr_ok_def)

lemma intr_set_idem [simp]: "intr_set (intr_get h) h = h"
  by (simp add: intr_set_def hw_defs)

lemma resumed_held:
  "noff (mycpu h) = 0 \<Longrightarrow> set_mycpu ((mycpu (held lk h))\<lparr>intena := ie\<rparr>) (held lk h) = held lk (intr_set ie h)"
  by (auto simp: held_def push_off_def Let_def intr_set_def hw_defs intro!: hw.equality)

lemma running_intr_set:
  assumes "running p (s\<lparr>hw := h\<rparr>)"
  shows "running p (s\<lparr>hw := intr_set ie h\<rparr>)"
  using assms by (simp add: running_def)

lemma sleep_resume_run:
  assumes "hw s = held (Lk_proc p) h" and "running p (s\<lparr>hw := h\<rparr>)" and "\<And>i. lk \<noteq> Lk_proc i"
  shows "sleep_resume lk ie s = Ok () (s\<lparr>hw := held lk (intr_set ie h), procs := (procs s)(p := (procs s p)\<lparr>p_chan := Ch_none\<rparr>)\<rparr>)"
proof -
  note h = running_facts [OF assms(2), simplified]
  have "sched_resume ie s = Ok () (s\<lparr>hw := held (Lk_proc p) (intr_set ie h)\<rparr>)"
    using h by (simp add: sched_resume_def assms(1) resumed_held)
  then show ?thesis using h assms(3) by (simp add: sleep_resume_def kop)
qed

section \<open>Handing a lock over\<close>

text \<open>C28: a process \<open>q\<close> that asks for a held sleep lock sleeps; when the holder \<open>p\<close> releases the lock, the lock is free
  and \<open>q\<close> is runnable; and when the scheduler then runs \<open>q\<close> with the lock still free, \<open>q\<close> gets out of
  \<open>acquiresleep\<close> holding the lock under its own pid, with no spinlock held and its interrupt state restored.\<close>

theorem sleeplock_handover:
  fixes s :: "'x sl_state_scheme"
  assumes "running q s" and "sl_locked (slocks s l)"
  shows "\<exists>t. acquiresleep l s = Switch t \<and>
    (\<forall>(u :: 'x sl_state_scheme) p. running p u \<and> procs u = procs t \<longrightarrow>
      (\<exists>v. releasesleep l u = Ok () v \<and> running p v \<and> \<not> sl_locked (slocks v l) \<and> p_state (procs v q) = RUNNABLE)) \<and>
    (\<forall>(w :: 'x sl_state_scheme) h ie. hw w = held (Lk_proc q) h \<and> running q (w\<lparr>hw := h\<rparr>) \<and> \<not> sl_locked (slocks w l) \<longrightarrow>
      (\<exists>x. acquiresleep_resume l ie w = Ok () x \<and> running q x \<and> intr_get (hw x) = ie \<and>
        slocks x l = (slocks w l)\<lparr>sl_locked := True, sl_pid := p_pid (procs w q)\<rparr>))"
proof -
  let ?t = "s\<lparr>hw := held (Lk_proc q) (hw s), procs := (procs s)(q := (procs s q)\<lparr>p_chan := Ch_sleeplock l, p_state := SLEEPING\<rparr>)\<rparr>"
  have t: "acquiresleep l s = Switch ?t" by (rule acquiresleep_busy [OF assms])
  have q: "q < NPROC" using running_facts [OF assms(1)] by simp
  have rel: "\<exists>v. releasesleep l u = Ok () v \<and> running p v \<and> \<not> sl_locked (slocks v l) \<and> p_state (procs v q) = RUNNABLE"
    if "running p u" "procs u = procs ?t" for u :: "'x sl_state_scheme" and p
    using releasesleep_run [OF that(1), of l] that q by (auto simp: woken_def running_def)
  have res: "\<exists>x. acquiresleep_resume l ie w = Ok () x \<and> running q x \<and> intr_get (hw x) = ie \<and>
      slocks x l = (slocks w l)\<lparr>sl_locked := True, sl_pid := p_pid (procs w q)\<rparr>"
    if "hw w = held (Lk_proc q) h" "running q (w\<lparr>hw := h\<rparr>)" "\<not> sl_locked (slocks w l)" for w :: "'x sl_state_scheme" and h ie
  proof -
    note r = running_facts [OF that(2), simplified]
    have "sleep_resume (Lk_sleep l) ie w =
        Ok () (w\<lparr>hw := held (Lk_sleep l) (intr_set ie h), procs := (procs w)(q := (procs w q)\<lparr>p_chan := Ch_none\<rparr>)\<rparr>)"
      by (rule sleep_resume_run [OF that(1,2)]) simp
    then show ?thesis using that r
      by (simp add: acquiresleep_resume_def acquiresleep_loop_def kop running_def)
  qed
  show ?thesis using t rel res by blast
qed

text \<open>The sleep lock of buffer 3 is held by the process with pid 2.\<close>

definition sl_st0 :: sl_state where
  "sl_st0 = proc_state.extend proc_st0 \<lparr>slocks = (\<lambda>_. \<lparr>sl_locked = False, sl_name = [], sl_pid = 0\<rparr>)
     (Sl_buf 3 := \<lparr>sl_locked = True, sl_name = [], sl_pid = 2\<rparr>)\<rparr>"

lemma sl_st0_running: "running 0 sl_st0" "running 0 (sl_st0\<lparr>hw := hw_p\<rparr>)" "sl_locked (slocks sl_st0 (Sl_buf 3))"
  by (simp_all add: sl_st0_def running_def proc_state.extend_def proc_st0_def)

theorem sleeplock_handover_witness:
  "\<exists>t v. acquiresleep (Sl_buf 3) sl_st0 = Switch t \<and>
    releasesleep (Sl_buf 3) (t\<lparr>hw := hw_p\<rparr>) = Ok () v \<and> p_state (procs v 0) = RUNNABLE"
proof -
  obtain t where t: "acquiresleep (Sl_buf 3) sl_st0 = Switch t"
    and r: "\<And>(u :: sl_state) p. running p u \<Longrightarrow> procs u = procs t \<Longrightarrow>
      \<exists>v. releasesleep (Sl_buf 3) u = Ok () v \<and> p_state (procs v 0) = RUNNABLE"
    using sleeplock_handover [OF sl_st0_running(1,3)] by blast
  have "running 0 (t\<lparr>hw := hw_p\<rparr>)" by (simp add: running_def)
  then show ?thesis using t r [of 0 "t\<lparr>hw := hw_p\<rparr>"] by auto
qed

end
