(* ===== verification/Virtio.thy ===== *)
theory Virtio
  imports Sleeplock
begin

text \<open>
  \<open>kernel/virtio_disk.c\<close> and \<open>struct buf\<close> of \<open>kernel/buf.h\<close>: the descriptor ring, \<open>virtio_disk_rw\<close> and the
  completion interrupt.

  The record \<open>vdisk\<close> is \<open>struct disk\<close> with the two rings the device shares, the memory-mapped registers (what
  reading each of them returns, and the stores to them, newest first) and the position of the device in the
  available ring. A descriptor's address is a pointer to the request header on the stack, to the data of a buffer,
  or to a status byte. The disk is an initial image and the writes to it, newest first, by block number.

  \<open>virtio_device\<close> is the device: it serves the next request of the available ring by the legacy block protocol. What
  it answers as the status of each request is the parameter \<open>dev_answer\<close>; zero is success.

  \<open>virtio_disk_rw\<close> sleeps until the interrupt handler clears \<open>b->disk\<close>. \<open>disk_wait\<close> runs that wait in the schedule
  where nothing but the device, its interrupt and the scheduler runs in between: the process sleeps, the scheduler
  of the hart releases its lock and turns interrupts on, the device serves the request and interrupts, the
  scheduler runs the process again and \<open>sleep\<close> returns. When the process cannot run again then, the outcome is
  \<open>Switch\<close>, as for every other wait.
\<close>

section \<open>Data\<close>

type_synonym u16 = "16 word"

abbreviation (input) BSIZE :: nat where "BSIZE \<equiv> 1024"
abbreviation (input) NUM :: nat where "NUM \<equiv> 8"

record buf =
  b_valid :: bool
  b_disk :: bool
  b_dev :: u32
  b_blockno :: u32
  b_refcnt :: u32
  b_prev :: nat
  b_next :: nat
  b_data :: "byte list"

datatype daddr = A_null | A_hdr u32 u64 | A_data nat | A_status nat

record vring_desc =
  d_addr :: daddr
  d_len :: u32
  d_flags :: u16
  d_next :: u16

record vdisk =
  desc :: "nat \<Rightarrow> vring_desc"
  avail_idx :: u16
  avail_ring :: "nat \<Rightarrow> u16"
  used_id :: u16
  used_elems :: "nat \<Rightarrow> u32"
  dfree :: "nat \<Rightarrow> bool"
  used_idx :: u16
  info_b :: "nat \<Rightarrow> nat option"
  info_status :: "nat \<Rightarrow> byte"
  disk_pages :: u64
  mmio :: "u64 \<Rightarrow> u32"
  mmio_wr :: "(u64 \<times> u32) list"
  dev_seen :: u16
  dev_answer :: "u16 \<Rightarrow> byte"

record disk_state = sl_state +
  bufs :: "nat \<Rightarrow> buf"
  vd :: vdisk
  disk_img :: "nat \<Rightarrow> byte list"
  disk_wr :: "(nat \<times> byte list) list"

text \<open>The contents of a block of the disk: the newest write to it, or the initial image.\<close>

definition disk_get :: "(nat \<Rightarrow> byte list) \<Rightarrow> (nat \<times> byte list) list \<Rightarrow> nat \<Rightarrow> byte list" where
  "disk_get img ws n = (case map_of ws n of Some d \<Rightarrow> d | None \<Rightarrow> img n)"

definition on_buf :: "nat \<Rightarrow> (buf \<Rightarrow> buf) \<Rightarrow> (unit, 'x disk_state_scheme) kop" where
  "on_buf b f = modify (\<lambda>s. s\<lparr>bufs := (bufs s)(b := f (bufs s b))\<rparr>)"

definition on_vd :: "(vdisk \<Rightarrow> vdisk) \<Rightarrow> (unit, 'x disk_state_scheme) kop" where
  "on_vd f = modify (\<lambda>s. s\<lparr>vd := f (vd s)\<rparr>)"

definition mmio_read :: "u64 \<Rightarrow> (u32, 'x disk_state_scheme) kop" where
  "mmio_read r = gets (\<lambda>s. mmio (vd s) r)"

definition mmio_write :: "u64 \<Rightarrow> u32 \<Rightarrow> (unit, 'x disk_state_scheme) kop" where
  "mmio_write r v = on_vd (\<lambda>d. d\<lparr>mmio_wr := (r, v) # mmio_wr d\<rparr>)"

section \<open>Initialisation\<close>

definition desc0 :: vring_desc where
  "desc0 = \<lparr>d_addr = A_null, d_len = 0, d_flags = 0, d_next = 0\<rparr>"

definition clear_features :: "u64 \<Rightarrow> u64" where
  "clear_features f =
     fold (\<lambda>i f. f AND NOT (push_bit i 1)) [5, 7, 11, 12, 27, 29, 28] f"

definition virtio_disk_init :: "(unit, 'x disk_state_scheme) kop" where
  "virtio_disk_init =
     andthen (initlock Lk_disk ''virtio_disk'') (
     bind (mmio_read 0x000) (\<lambda>magic.
     bind (mmio_read 0x004) (\<lambda>version.
     bind (mmio_read 0x008) (\<lambda>device.
     bind (mmio_read 0x00c) (\<lambda>vendor.
     andthen (panic_if (magic \<noteq> 0x74726976 \<or> version \<noteq> 1 \<or> device \<noteq> 2 \<or> vendor \<noteq> 0x554d4551) ''could not find virtio disk'') (
     andthen (mmio_write 0x070 1) (
     andthen (mmio_write 0x070 3) (
     bind (mmio_read 0x010) (\<lambda>features.
     andthen (mmio_write 0x020 (ucast (clear_features (ucast features)))) (
     andthen (mmio_write 0x070 11) (
     andthen (mmio_write 0x070 15) (
     andthen (mmio_write 0x028 4096) (
     andthen (mmio_write 0x030 0) (
     bind (mmio_read 0x034) (\<lambda>max.
     andthen (panic_if (max = 0) ''virtio disk has no queue 0'') (
     andthen (panic_if (max < of_nat NUM) ''virtio disk max queue too short'') (
     andthen (mmio_write 0x038 (of_nat NUM)) (
     andthen (on_vd (\<lambda>d. d\<lparr>desc := (\<lambda>_. desc0), avail_idx := 0, avail_ring := (\<lambda>_. 0), used_id := 0, used_elems := (\<lambda>_. 0)\<rparr>)) (
     bind (gets (\<lambda>s. disk_pages (vd s))) (\<lambda>pages.
     andthen (mmio_write 0x040 (ucast (drop_bit 12 pages))) (
     for_each [0..<NUM] (\<lambda>i. on_vd (\<lambda>d. d\<lparr>dfree := (dfree d)(i := True)\<rparr>)))))))))))))))))))))))"

section \<open>Descriptors\<close>

fun alloc_desc_scan :: "nat list \<Rightarrow> (int, 'x disk_state_scheme) kop" where
  "alloc_desc_scan [] = ret (- 1)"
| "alloc_desc_scan (i # is) =
     bind (gets (\<lambda>s. dfree (vd s) i)) (\<lambda>f.
     if f then andthen (on_vd (\<lambda>d. d\<lparr>dfree := (dfree d)(i := False)\<rparr>)) (ret (int i))
     else alloc_desc_scan is)"

definition alloc_desc :: "(int, 'x disk_state_scheme) kop" where
  "alloc_desc = alloc_desc_scan [0..<NUM]"

definition free_desc :: "nat \<Rightarrow> (unit, 'x disk_state_scheme) kop" where
  "free_desc i =
     andthen (panic_if (i \<ge> NUM) ''virtio_disk_intr 1'') (
     bind (gets (\<lambda>s. dfree (vd s) i)) (\<lambda>f.
     andthen (panic_if f ''virtio_disk_intr 2'') (
     andthen (on_vd (\<lambda>d. d\<lparr>desc := (desc d)(i := (desc d i)\<lparr>d_addr := A_null\<rparr>)\<rparr>)) (
     andthen (on_vd (\<lambda>d. d\<lparr>dfree := (dfree d)(i := True)\<rparr>)) (
     wakeup Ch_disk_free)))))"

fun alloc3_desc_loop :: "nat \<Rightarrow> nat list \<Rightarrow> (nat list option, 'x disk_state_scheme) kop" where
  "alloc3_desc_loop 0 idx = ret (Some idx)"
| "alloc3_desc_loop (Suc n) idx =
     bind alloc_desc (\<lambda>i.
     if i < 0 then andthen (for_each idx free_desc) (ret None)
     else alloc3_desc_loop n (idx @ [nat i]))"

definition alloc3_desc :: "(nat list option, 'x disk_state_scheme) kop" where
  "alloc3_desc = alloc3_desc_loop 3 []"

text \<open>\<open>wakeup\<close> changes only the process table and the locks.\<close>

lemma on_hw_frame: "on_hw f s = Ok a t \<Longrightarrow> \<exists>h. t = s\<lparr>hw := h\<rparr>"
  by (auto simp: on_hw_def split: res.splits)

lemma wakeup_one_frame:
  assumes "wakeup_one ch i s = Ok u t"
  shows "\<exists>h P. t = s\<lparr>hw := h, procs := P\<rparr>"
proof -
  let ?f = "\<lambda>v. v\<lparr>procs := (if p_state (procs v i) = SLEEPING \<and> p_chan (procs v i) = ch
    then (procs v)(i := (procs v i)\<lparr>p_state := RUNNABLE\<rparr>) else procs v)\<rparr>"
  from assms obtain v where v: "acquire (Lk_proc i) s = Ok () v" and r: "release (Lk_proc i) (?f v) = Ok () t"
    by (auto simp: wakeup_one_def andthen_eq_Ok bind_eq_Ok split: if_splits)
  obtain h where h: "v = s\<lparr>hw := h\<rparr>" using on_hw_frame [OF v [unfolded acquire_def]] ..
  obtain h' where "t = (?f v)\<lparr>hw := h'\<rparr>" using on_hw_frame [OF r [unfolded release_def]] ..
  with h have "t = s\<lparr>hw := h', procs := procs (?f v)\<rparr>" by simp
  then show ?thesis by blast
qed

lemma wakeup_loop_frame:
  "for_each is (wakeup_one ch) s = Ok u t \<Longrightarrow> \<exists>h P. t = s\<lparr>hw := h, procs := P\<rparr>"
proof (induction "is" arbitrary: s)
  case Nil
  then have "t = s\<lparr>hw := hw s, procs := procs s\<rparr>" by simp
  then show ?case by blast
next
  case (Cons i "is")
  then obtain v where v: "wakeup_one ch i s = Ok () v" "for_each is (wakeup_one ch) v = Ok u t"
    by (auto simp: andthen_eq_Ok)
  with wakeup_one_frame [OF v(1)] Cons.IH [OF v(2)] show ?case by fastforce
qed

lemma wakeup_frame: "wakeup ch s = Ok u t \<Longrightarrow> \<exists>h P. t = s\<lparr>hw := h, procs := P\<rparr>"
  unfolding wakeup_def by (rule wakeup_loop_frame)

lemma wakeup_vd: "wakeup ch s = Ok u t \<Longrightarrow> vd t = vd s"
  by (auto dest!: wakeup_frame)

definition busy_descs :: "vdisk \<Rightarrow> nat set" where
  "busy_descs d = {i. i < NUM \<and> \<not> dfree d i}"

lemma free_desc_frees:
  assumes "free_desc i s = Ok u t"
  shows "card (busy_descs (vd t)) < card (busy_descs (vd s))"
proof -
  have i: "i < NUM" "\<not> dfree (vd s) i"
    using assms by (auto simp: free_desc_def andthen_eq_Ok bind_eq_Ok split: if_splits)
  have "dfree (vd t) = (dfree (vd s))(i := True)"
    using assms by (auto simp: free_desc_def andthen_eq_Ok bind_eq_Ok on_vd_def dest: wakeup_vd split: if_splits)
  then have "busy_descs (vd t) = busy_descs (vd s) - {i}" by (auto simp: busy_descs_def)
  moreover have "finite (busy_descs (vd s))" "i \<in> busy_descs (vd s)" using i by (simp_all add: busy_descs_def)
  ultimately show ?thesis by (simp only: card_Diff1_less)
qed

function free_chain :: "nat \<Rightarrow> (unit, 'x disk_state_scheme) kop" where
  "free_chain i s =
     (andthen (free_desc i) (
      bind (gets (\<lambda>s. desc (vd s) i)) (\<lambda>d.
      if d_flags d AND 1 \<noteq> 0 then free_chain (unat (d_next d)) else ret ()))) s"
  by pat_completeness auto
termination
  by (relation "measure (\<lambda>(i, s). card (busy_descs (vd s)))") (auto dest: free_desc_frees)

section \<open>Requests\<close>

definition virtio_disk_start :: "nat \<Rightarrow> bool \<Rightarrow> nat \<Rightarrow> nat \<Rightarrow> nat \<Rightarrow> (unit, 'x disk_state_scheme) kop" where
  "virtio_disk_start b write i0 i1 i2 =
     bind (gets (\<lambda>s. ucast (b_blockno (bufs s b) * 2))) (\<lambda>sector.
     andthen (on_vd (\<lambda>d. d\<lparr>desc := (desc d)(i0 :=
       \<lparr>d_addr = A_hdr (if write then 1 else 0) sector, d_len = 16, d_flags = 1, d_next = of_nat i1\<rparr>)\<rparr>)) (
     andthen (on_vd (\<lambda>d. d\<lparr>desc := (desc d)(i1 :=
       \<lparr>d_addr = A_data b, d_len = of_nat BSIZE, d_flags = (if write then 0 else 2) OR 1, d_next = of_nat i2\<rparr>)\<rparr>)) (
     andthen (on_vd (\<lambda>d. d\<lparr>info_status := (info_status d)(i0 := 0)\<rparr>)) (
     andthen (on_vd (\<lambda>d. d\<lparr>desc := (desc d)(i2 := \<lparr>d_addr = A_status i0, d_len = 1, d_flags = 2, d_next = 0\<rparr>)\<rparr>)) (
     andthen (on_buf b (\<lambda>x. x\<lparr>b_disk := True\<rparr>)) (
     andthen (on_vd (\<lambda>d. d\<lparr>info_b := (info_b d)(i0 := Some b)\<rparr>)) (
     andthen (on_vd (\<lambda>d. d\<lparr>avail_ring := (avail_ring d)(unat (avail_idx d) mod NUM := of_nat i0)\<rparr>)) (
     andthen (on_vd (\<lambda>d. d\<lparr>avail_idx := avail_idx d + 1\<rparr>)) (
     mmio_write 0x050 0)))))))))"

text \<open>The device takes the next chain of the available ring; a chain it cannot read never completes.\<close>

definition virtio_device :: "(unit, 'x disk_state_scheme) kop" where
  "virtio_device s =
     (let d = vd s;
          i = unat (avail_ring d (unat (dev_seen d) mod NUM));
          d0 = desc d i; d1 = desc d (unat (d_next d0)); d2 = desc d (unat (d_next d1))
      in if dev_seen d = avail_idx d then Ok () s
         else case (d_addr d0, d_addr d1, d_addr d2) of
           (A_hdr ty sector, A_data b, A_status j) \<Rightarrow>
             let n = unat sector div 2;
                 st = dev_answer d (dev_seen d);
                 d' = d\<lparr>info_status := (info_status d)(j := st), used_elems := (used_elems d)(unat (used_id d) mod NUM := of_nat i),
                        used_id := used_id d + 1, dev_seen := dev_seen d + 1\<rparr>
             in if st \<noteq> 0 then Ok () (s\<lparr>vd := d'\<rparr>)
                else if ty = 1 then Ok () (s\<lparr>vd := d', disk_wr := (n, b_data (bufs s b)) # disk_wr s\<rparr>)
                else Ok () (s\<lparr>vd := d', bufs := (bufs s)(b := (bufs s b)\<lparr>b_data := disk_get (disk_img s) (disk_wr s) n\<rparr>)\<rparr>)
         | _ \<Rightarrow> Spin)"

definition intr_body :: "(unit, 'x disk_state_scheme) kop" where
  "intr_body =
     bind (gets (\<lambda>s. unat (used_elems (vd s) (unat (used_idx (vd s)))))) (\<lambda>id.
     bind (gets (\<lambda>s. info_status (vd s) id)) (\<lambda>st.
     andthen (panic_if (st \<noteq> 0) ''virtio_disk_intr status'') (
     bind (gets (\<lambda>s. info_b (vd s) id)) (\<lambda>ob.
     case ob of
       None \<Rightarrow> panic ''kerneltrap''
     | Some b \<Rightarrow>
         andthen (on_buf b (\<lambda>x. x\<lparr>b_disk := False\<rparr>)) (
         andthen (wakeup (Ch_buf b)) (
         on_vd (\<lambda>d. d\<lparr>used_idx := of_nat ((unat (used_idx d) + 1) mod NUM)\<rparr>)))))))"

text \<open>How many entries of the used ring the driver has not looked at.\<close>

definition used_left :: "vdisk \<Rightarrow> nat" where
  "used_left d = (let x = unat (used_id d) mod NUM; y = unat (used_idx d) mod NUM in if y \<le> x then x - y else x + NUM - y)"

definition next_used :: "vdisk \<Rightarrow> vdisk" where
  "next_used d = d\<lparr>used_idx := of_nat ((unat (used_idx d) + 1) mod NUM)\<rparr>"

lemma intr_body_vd:
  assumes "intr_body s = Ok u t"
  shows "vd t = next_used (vd s)"
proof -
  obtain b v where "wakeup (Ch_buf b) (s\<lparr>bufs := (bufs s)(b := (bufs s b)\<lparr>b_disk := False\<rparr>)\<rparr>) = Ok () v"
    and t: "t = v\<lparr>vd := (vd v)\<lparr>used_idx := of_nat ((unat (used_idx (vd v)) + 1) mod NUM)\<rparr>\<rparr>"
    using assms by (auto simp: intr_body_def andthen_eq_Ok bind_eq_Ok on_buf_def on_vd_def split: option.splits if_splits)
  from wakeup_vd [OF this(1)] t show ?thesis by (simp add: next_used_def)
qed

lemma ring_distance_step:
  fixes x y :: nat
  assumes "x < 8" and "y < 8" and "y \<noteq> x" and "z = (if y = 7 then 0 else Suc y)"
  shows "(if z \<le> x then x - z else x + 8 - z) < (if y \<le> x then x - y else x + 8 - y)"
  using assms by auto

lemma unat_next_used: "unat (used_idx (next_used d)) = Suc (unat (used_idx d)) mod NUM"
proof -
  have "unat (of_nat (Suc (unat (used_idx d)) mod NUM) :: u16) = Suc (unat (used_idx d)) mod NUM"
    by (rule unat_of_nat_small) (simp add: order.strict_trans1 [OF less_imp_le [OF mod_less_divisor]])
  moreover have "used_idx (next_used d) = of_nat (Suc (unat (used_idx d)) mod NUM)" by (simp add: next_used_def)
  ultimately show ?thesis by (simp only:)
qed

lemma used_left_step:
  assumes "unat (used_idx d) mod NUM \<noteq> unat (used_id d) mod NUM"
  shows "used_left (next_used d) < used_left d"
proof -
  have "unat (used_idx (next_used d)) mod 8 = Suc (unat (used_idx d)) mod 8"
    by (simp only: unat_next_used mod_mod_trivial)
  moreover have "used_id (next_used d) = used_id d" by (simp add: next_used_def)
  ultimately show ?thesis unfolding used_left_def Let_def
    using assms by (simp only:) (rule ring_distance_step, simp_all add: mod_Suc)
qed

function virtio_intr_loop :: "(unit, 'x disk_state_scheme) kop" where
  "virtio_intr_loop s =
     (if unat (used_idx (vd s)) mod NUM \<noteq> unat (used_id (vd s)) mod NUM then andthen intr_body virtio_intr_loop s
      else Ok () s)"
  by pat_completeness auto
termination
  by (relation "measure (\<lambda>s. used_left (vd s))") (auto dest!: intr_body_vd intro: used_left_step)

definition virtio_disk_intr :: "(unit, 'x disk_state_scheme) kop" where
  "virtio_disk_intr =
     andthen (acquire Lk_disk) (
     andthen virtio_intr_loop (
     bind (mmio_read 0x060) (\<lambda>v.
     andthen (mmio_write 0x064 (v AND 3)) (
     release Lk_disk))))"

text \<open>Go on with \<open>k\<close> when \<open>m\<close> has given up the processor.\<close>

definition on_switch :: "(unit, 's) kop \<Rightarrow> ('a, 's) kop \<Rightarrow> ('a, 's) kop" where
  "on_switch m k = (\<lambda>s. case m s of Switch t \<Rightarrow> k t | Ok _ t \<Rightarrow> Switch t | Panic e \<Rightarrow> Panic e | Spin \<Rightarrow> Spin)"

definition on_hart :: "(hw \<Rightarrow> hw) \<Rightarrow> (unit, 'x kstate_scheme) kop" where
  "on_hart f = modify (\<lambda>s. s\<lparr>hw := f (hw s)\<rparr>)"

definition disk_wait :: "nat \<Rightarrow> (unit, 'x disk_state_scheme) kop" where
  "disk_wait b =
     bind (gets (\<lambda>s. b_disk (bufs s b))) (\<lambda>d.
     if d then
       bind curproc (\<lambda>p.
       bind (gets (\<lambda>s. intena (mycpu (hw s)))) (\<lambda>ie.
       on_switch (sleep (Ch_buf b) Lk_disk) (
       andthen (scheduler_back p) (
       andthen (on_hart intr_on) (
       andthen virtio_device (
       andthen (on_hart intr_off) (
       andthen virtio_disk_intr (
       andthen (on_hart intr_on) (
       on_switch (scheduler_try p) (
       andthen (sleep_resume Lk_disk ie) (
       bind (gets (\<lambda>s. b_disk (bufs s b))) (\<lambda>d.
       if d then sleep (Ch_buf b) Lk_disk else ret ())))))))))))) 
     else ret ())"

definition virtio_disk_rw :: "nat \<Rightarrow> bool \<Rightarrow> (unit, 'x disk_state_scheme) kop" where
  "virtio_disk_rw b write =
     andthen (acquire Lk_disk) (
     bind alloc3_desc (\<lambda>idx.
     case idx of
       Some [i0, i1, i2] \<Rightarrow>
         andthen (virtio_disk_start b write i0 i1 i2) (
         andthen (disk_wait b) (
         andthen (on_vd (\<lambda>d. d\<lparr>info_b := (info_b d)(i0 := None)\<rparr>)) (
         andthen (free_chain i0) (
         release Lk_disk))))
     | _ \<Rightarrow> sleep Ch_disk_free Lk_disk))"

declare free_chain.simps [simp del] virtio_intr_loop.simps [simp del]

section \<open>Harts that run and stop processes\<close>

definition run_proc :: "nat option \<Rightarrow> hw \<Rightarrow> hw" where
  "run_proc q h = set_mycpu ((mycpu h)\<lparr>cpu_proc := q\<rparr>) h"

lemma run_proc_facts [simp]:
  "lk_free lk (run_proc q h) = lk_free lk h" "cpuid (run_proc q h) = cpuid h" "noff (mycpu (run_proc q h)) = noff (mycpu h)"
  "cpu_proc (mycpu (run_proc q h)) = q" "intr_get (run_proc q h) = intr_get h" "intr_ok (run_proc q h) = intr_ok h"
  "plocks_free (run_proc q h) = plocks_free h"
  by (simp_all add: run_proc_def hw_defs lk_free_def intr_ok_def plocks_free_def)

lemma run_proc_held: "run_proc q (held lk h) = held lk (run_proc q h)"
  by (auto simp: run_proc_def held_def push_off_def Let_def hw_defs intro!: hw.equality)

lemma run_proc_cycle: "run_proc q (lock_cycle h) = lock_cycle (run_proc q h)"
  by (cases "mycpu h") (simp add: run_proc_def lock_cycle_def hw_defs)

lemma run_proc_intr_set: "run_proc q (intr_set ie h) = intr_set ie (run_proc q h)"
  by (simp add: run_proc_def intr_set_def hw_defs)

lemma run_proc_run_proc [simp]: "run_proc q (run_proc r h) = run_proc q h"
  by (simp add: run_proc_def hw_defs)

lemma run_proc_same: "cpu_proc (mycpu h) = q \<Longrightarrow> run_proc q h = h"
  by (auto simp: run_proc_def hw_defs)

lemma intr_on_set: "intr_on h = intr_set True h" and intr_off_set: "intr_off h = intr_set False h"
  by (simp_all add: intr_set_def)

lemma csr_on_off' [simp]: "csr_intr_on (csr_intr_off c) = csr_intr_on c"
proof -
  have "(sstatus c AND NOT 2) OR 2 = sstatus c OR 2"
    by (rule bit_word_eqI) (unfold sie_bit, auto)
  then show ?thesis by (simp add: csr_intr_on_def csr_intr_off_def)
qed

lemma intr_set_intr_set [simp]: "intr_set a (intr_set b h) = intr_set a h"
  by (simp add: intr_set_def hw_defs)

lemma intr_set_cycle: "noff (mycpu h) = 0 \<Longrightarrow> lock_cycle (intr_set a (lock_cycle h)) = lock_cycle (intr_set a h)"
  by (simp add: intr_set_def lock_cycle_def hw_defs)

lemma intena_held [simp]: "noff (mycpu h) = 0 \<Longrightarrow> intena (mycpu (held lk h)) = intr_get h"
  by (simp add: held_def push_off_def Let_def hw_defs)

lemma held_intr_cycle: "noff (mycpu h) = 0 \<Longrightarrow> held lk (intr_set a (lock_cycle h)) = held lk (intr_set a h)"
  by (auto simp: held_def push_off_def Let_def intr_set_def lock_cycle_def hw_defs intro!: hw.equality)

lemma scheduler_back_run:
  assumes "hw s = held (Lk_proc p) h" and "lk_free (Lk_proc p) h" and "intr_ok h"
  shows "scheduler_back p s = Ok () (s\<lparr>hw := lock_cycle (run_proc None h)\<rparr>)"
proof -
  have "set_mycpu ((mycpu (hw s))\<lparr>cpu_proc := None\<rparr>) (hw s) = held (Lk_proc p) (run_proc None h)"
    by (simp add: assms(1) run_proc_held [symmetric]) (simp add: run_proc_def)
  then show ?thesis using assms by (simp add: scheduler_back_def andthen_apply)
qed

lemma scheduler_try_run:
  assumes "lk_free (Lk_proc p) (hw s)" and "p_state (procs s p) = RUNNABLE" and "\<not> next_flag s"
  shows "scheduler_try p s = Switch (s\<lparr>hw := held (Lk_proc p) (run_proc (Some p) (hw s)),
    procs := (procs s)(p := (procs s p)\<lparr>p_state := RUNNING\<rparr>)\<rparr>)"
proof -
  have "set_mycpu ((mycpu (held (Lk_proc p) (hw s)))\<lparr>cpu_proc := Some p\<rparr>) (held (Lk_proc p) (hw s)) =
      held (Lk_proc p) (run_proc (Some p) (hw s))"
    by (simp add: run_proc_held [symmetric]) (simp add: run_proc_def)
  then show ?thesis using assms by (simp add: scheduler_try_def kop)
qed

section \<open>An idle driver\<close>

definition vd_idle :: "vdisk \<Rightarrow> bool" where
  "vd_idle d \<longleftrightarrow> (\<forall>i<NUM. dfree d i) \<and> dev_seen d = avail_idx d \<and> unat (used_id d) mod NUM = unat (used_idx d) \<and>
     (\<forall>n. dev_answer d n = 0)"

fun fs_chan :: "chan \<Rightarrow> bool" where
  "fs_chan (Ch_sleeplock l) = True"
| "fs_chan (Ch_buf b) = True"
| "fs_chan Ch_disk_free = True"
| "fs_chan Ch_log = True"
| "fs_chan _ = False"

text \<open>
  Process \<open>p\<close> runs with no spinlock held, no process sleeps on a channel of the file system, and no disk request
  is outstanding.
\<close>

definition fs_quiet :: "nat \<Rightarrow> 'x disk_state_scheme \<Rightarrow> bool" where
  "fs_quiet p s \<longleftrightarrow> running p s \<and> p_state (procs s p) = RUNNING \<and> p_chan (procs s p) = Ch_none \<and> \<not> next_flag s \<and>
     (\<forall>i<NPROC. p_state (procs s i) = SLEEPING \<longrightarrow> \<not> fs_chan (p_chan (procs s i))) \<and> vd_idle (vd s)"

lemma woken_none:
  assumes "\<forall>i<NPROC. p_state (P i) = SLEEPING \<longrightarrow> \<not> fs_chan (p_chan (P i))" and "fs_chan ch"
  shows "woken ch [0..<NPROC] P = P"
  using assms by (auto simp: woken_def fun_eq_iff)

lemma u16_succ_mod: "unat (x + 1 :: u16) mod 8 = Suc (unat x) mod 8"
proof -
  have "unat (x + 1) = Suc (unat x) mod 65536" by (simp add: unat_word_ariths)
  then show ?thesis by (simp add: mod_mod_cancel)
qed


lemma on_vd_apply [simp, kop]: "on_vd f s = Ok () (s\<lparr>vd := f (vd s)\<rparr>)"
  by (simp add: on_vd_def)

lemma on_buf_apply [simp, kop]: "on_buf b f s = Ok () (s\<lparr>bufs := (bufs s)(b := f (bufs s b))\<rparr>)"
  by (simp add: on_buf_def)

lemma on_hart_apply [simp, kop]: "on_hart f s = Ok () (s\<lparr>hw := f (hw s)\<rparr>)"
  by (simp add: on_hart_def)

lemma mmio_apply [simp, kop]:
  "mmio_read r s = Ok (mmio (vd s) r) s" "mmio_write r v s = Ok () (s\<lparr>vd := (vd s)\<lparr>mmio_wr := (r, v) # mmio_wr (vd s)\<rparr>\<rparr>)"
  by (simp_all add: mmio_read_def mmio_write_def)

lemma alloc3_desc_idle:
  assumes "\<forall>i<NUM. dfree (vd s) i"
  shows "alloc3_desc s = Ok (Some [0, 1, 2]) (s\<lparr>vd := (vd s)\<lparr>dfree := (dfree (vd s))(0 := False, 1 := False, 2 := False)\<rparr>\<rparr>)"
  using assms by (simp add: alloc3_desc_def numeral_3_eq_3 alloc_desc_def upt_rec kop numeral_2_eq_2)

definition started :: "nat \<Rightarrow> bool \<Rightarrow> u64 \<Rightarrow> vdisk \<Rightarrow> vdisk" where
  "started b write sector d = d\<lparr>
     desc := (desc d)(0 := \<lparr>d_addr = A_hdr (if write then 1 else 0) sector, d_len = 16, d_flags = 1, d_next = 1\<rparr>,
       1 := \<lparr>d_addr = A_data b, d_len = of_nat BSIZE, d_flags = (if write then 0 else 2) OR 1, d_next = 2\<rparr>,
       2 := \<lparr>d_addr = A_status 0, d_len = 1, d_flags = 2, d_next = 0\<rparr>),
     info_status := (info_status d)(0 := 0), info_b := (info_b d)(0 := Some b),
     avail_ring := (avail_ring d)(unat (avail_idx d) mod NUM := 0), avail_idx := avail_idx d + 1,
     mmio_wr := (0x050, 0) # mmio_wr d\<rparr>"

lemma virtio_disk_start_run:
  "virtio_disk_start b write 0 1 2 s = Ok () (s\<lparr>bufs := (bufs s)(b := (bufs s b)\<lparr>b_disk := True\<rparr>),
    vd := started b write (ucast (b_blockno (bufs s b) * 2)) (vd s)\<rparr>)"
  by (simp add: virtio_disk_start_def started_def kop)

definition served :: "vdisk \<Rightarrow> vdisk" where
  "served d = d\<lparr>info_status := (info_status d)(0 := 0), used_elems := (used_elems d)(unat (used_id d) mod NUM := 0),
     used_id := used_id d + 1, dev_seen := dev_seen d + 1\<rparr>"

lemma virtio_device_run:
  assumes "vd s = started b write sector d" and "dev_seen d = avail_idx d" and "\<forall>n. dev_answer d n = 0"
  shows "virtio_device s = Ok () (if write
    then s\<lparr>vd := served (vd s), disk_wr := (unat sector div 2, b_data (bufs s b)) # disk_wr s\<rparr>
    else s\<lparr>vd := served (vd s), bufs := (bufs s)(b := (bufs s b)\<lparr>b_data := disk_get (disk_img s) (disk_wr s) (unat sector div 2)\<rparr>)\<rparr>)"
proof -
  have "avail_idx d \<noteq> avail_idx d + 1" by simp
  then show ?thesis using assms(2,3)
    by (simp add: virtio_device_def assms(1) started_def served_def Let_def)
qed


lemma virtio_disk_intr_run:
  assumes "vd s = served (started b write sector d)" and "unat (used_id d) mod NUM = unat (used_idx d)"
    and "plocks_free (hw s)" and "intr_ok (hw s)" and "lk_free Lk_disk (hw s)"
  shows "virtio_disk_intr s = Ok () (s\<lparr>hw := lock_cycle (hw s), bufs := (bufs s)(b := (bufs s b)\<lparr>b_disk := False\<rparr>),
    procs := woken (Ch_buf b) [0..<NPROC] (procs s),
    vd := (next_used (vd s))\<lparr>mmio_wr := (0x064, mmio (vd s) 0x060 AND 3) # mmio_wr (vd s)\<rparr>\<rparr>)"
proof -
  let ?s = "s\<lparr>hw := held Lk_disk (hw s)\<rparr>"
  let ?t = "s\<lparr>hw := held Lk_disk (hw s), bufs := (bufs s)(b := (bufs s b)\<lparr>b_disk := False\<rparr>),
    procs := woken (Ch_buf b) [0..<NPROC] (procs s), vd := next_used (vd s)\<rparr>"
  have id: "unat (used_id (vd s)) mod NUM = Suc (unat (used_idx (vd s))) mod NUM"
  proof -
    have "Suc (unat (used_id d)) mod 8 = Suc (unat (used_idx d)) mod 8"
      using mod_Suc_eq [of "unat (used_id d)" 8] unfolding assms(2) by (rule sym)
    then show ?thesis by (simp add: assms(1) served_def started_def u16_succ_mod)
  qed
  have ne: "unat (used_idx (vd s)) mod NUM \<noteq> unat (used_id (vd s)) mod NUM"
    unfolding id by (simp add: mod_Suc)
  have "used_id (next_used (vd s)) = used_id (vd s)" by (simp add: next_used_def)
  then have stop: "virtio_intr_loop ?t = Ok () ?t"
    by (subst virtio_intr_loop.simps) (simp add: unat_next_used id)
  have "intr_body ?s = Ok () ?t"
    using assms by (simp add: intr_body_def kop served_def started_def wakeup_run next_used_def)
  then have "virtio_intr_loop ?s = Ok () ?t"
    using ne stop by (subst virtio_intr_loop.simps) simp
  then show ?thesis using assms(3-5) by (simp add: virtio_disk_intr_def kop next_used_def)
qed

lemma free_desc_run:
  assumes "i < NUM" and "\<not> dfree (vd s) i" and "plocks_free (hw s)" and "intr_ok (hw s)"
    and "woken Ch_disk_free [0..<NPROC] (procs s) = procs s"
  shows "free_desc i s = Ok () (s\<lparr>hw := lock_cycle (hw s), vd := (vd s)\<lparr>desc := (desc (vd s))(i := (desc (vd s) i)\<lparr>d_addr := A_null\<rparr>),
    dfree := (dfree (vd s))(i := True)\<rparr>\<rparr>)"
  using assms by (simp add: free_desc_def kop wakeup_run)

lemma free_chain_run:
  assumes "d_flags (desc (vd s) 0) = 1" "d_next (desc (vd s) 0) = 1" "d_flags (desc (vd s) 1) AND 1 = 1" "d_next (desc (vd s) 1) = 2"
    "d_flags (desc (vd s) 2) = 2" and "\<not> dfree (vd s) 0" "\<not> dfree (vd s) 1" "\<not> dfree (vd s) 2"
    and "plocks_free (hw s)" and "intr_ok (hw s)" and "woken Ch_disk_free [0..<NPROC] (procs s) = procs s"
  shows "\<exists>f. free_chain 0 s = Ok () (s\<lparr>hw := lock_cycle (hw s), vd := (vd s)\<lparr>desc := f, dfree := (dfree (vd s))(0 := True, 1 := True, 2 := True)\<rparr>\<rparr>)"
  using assms
  by (subst free_chain.simps, simp add: kop free_desc_run)
     (subst free_chain.simps, simp add: kop free_desc_run, subst free_chain.simps, simp add: kop free_desc_run, rule exI, simp)


definition disk_done :: "nat \<Rightarrow> bool \<Rightarrow> 'x disk_state_scheme \<Rightarrow> 'x disk_state_scheme" where
  "disk_done b write s = (let n = unat (b_blockno (bufs s b)); x = bufs s b in
     s\<lparr>bufs := (bufs s)(b := x\<lparr>b_data := (if write then b_data x else disk_get (disk_img s) (disk_wr s) n), b_disk := False\<rparr>),
       disk_wr := (if write then (n, b_data x) # disk_wr s else disk_wr s)\<rparr>)"

lemma unat_ucast_u64: "unat (ucast (w :: u32) :: u64) = unat w"
proof -
  have "unat w < 2 ^ 32" using unsigned_less [of w] by simp
  then show ?thesis by (simp add: unsigned_ucast_eq take_bit_nat_eq_self)
qed

lemma sector_block:
  fixes n :: u32
  assumes "n < 0x80000000"
  shows "unat (ucast (n * 2) :: u64) div 2 = unat n"
proof -
  have "unat n < 0x80000000" using assms by (simp add: word_less_nat_alt)
  then have "unat (n * 2) = unat n * 2" by (simp add: unat_word_ariths)
  then show ?thesis by (simp add: unat_ucast_u64)
qed

lemma fs_quietD:
  assumes "fs_quiet p s"
  shows "running p s" "p_state (procs s p) = RUNNING" "p_chan (procs s p) = Ch_none" "\<not> next_flag s" "vd_idle (vd s)"
    and "\<And>ch. fs_chan ch \<Longrightarrow> woken ch [0..<NPROC] (procs s) = procs s"
  using assms by (auto simp: fs_quiet_def intro!: woken_none)

text \<open>The wait in \<open>virtio_disk_rw\<close>, with the request of buffer \<open>b\<close> just made.\<close>

lemma disk_wait_run:
  assumes "running p (s\<lparr>hw := h\<rparr>)" and "hw s = held Lk_disk h" and "p_state (procs s p) = RUNNING" and "p_chan (procs s p) = Ch_none"
    and "\<not> next_flag s" and "\<forall>i<NPROC. p_state (procs s i) = SLEEPING \<longrightarrow> p_chan (procs s i) \<noteq> Ch_buf b"
    and "vd s = started b write sector d" and "dev_seen d = avail_idx d" and "\<forall>n. dev_answer d n = 0"
    and "unat (used_id d) mod NUM = unat (used_idx d)" and "b_disk (bufs s b)"
  shows "disk_wait b s = Ok () (s\<lparr>
    bufs := (bufs s)(b := (bufs s b)\<lparr>
      b_data := (if write then b_data (bufs s b) else disk_get (disk_img s) (disk_wr s) (unat sector div 2)), b_disk := False\<rparr>),
    disk_wr := (if write then (unat sector div 2, b_data (bufs s b)) # disk_wr s else disk_wr s),
    vd := (next_used (served (vd s)))\<lparr>mmio_wr := (0x064, mmio d 0x060 AND 3) # mmio_wr (vd s)\<rparr>\<rparr>)"
proof -
  note h = running_facts [OF assms(1), simplified]
  define s1 where "s1 = s\<lparr>hw := lock_cycle (run_proc None h),
    procs := (procs s)(p := (procs s p)\<lparr>p_chan := Ch_buf b, p_state := SLEEPING\<rparr>)\<rparr>"
  define s2 where "s2 = s1\<lparr>hw := intr_on (hw s1)\<rparr>"
  have sl: "sleep (Ch_buf b) Lk_disk s = Switch (s\<lparr>hw := held (Lk_proc p) h,
      procs := (procs s)(p := (procs s p)\<lparr>p_chan := Ch_buf b, p_state := SLEEPING\<rparr>)\<rparr>)"
    using h by (intro sleep_run) (simp_all add: assms(2))
  have bk: "scheduler_back p (s\<lparr>hw := held (Lk_proc p) h,
      procs := (procs s)(p := (procs s p)\<lparr>p_chan := Ch_buf b, p_state := SLEEPING\<rparr>)\<rparr>) = Ok () s1"
    using h by (subst scheduler_back_run [where h = h]) (simp_all add: s1_def)
  have dev: "virtio_device s2 = Ok () (if write
    then s2\<lparr>vd := served (vd s2), disk_wr := (unat sector div 2, b_data (bufs s2 b)) # disk_wr s2\<rparr>
    else s2\<lparr>vd := served (vd s2), bufs := (bufs s2)(b := (bufs s2 b)\<lparr>b_data := disk_get (disk_img s2) (disk_wr s2) (unat sector div 2)\<rparr>)\<rparr>)"
    by (rule virtio_device_run [where d = d]) (use assms(7-9) in \<open>simp_all add: s2_def s1_def\<close>)
  define s3 where "s3 = (if write
    then s2\<lparr>vd := served (vd s2), disk_wr := (unat sector div 2, b_data (bufs s2 b)) # disk_wr s2\<rparr>
    else s2\<lparr>vd := served (vd s2), bufs := (bufs s2)(b := (bufs s2 b)\<lparr>b_data := disk_get (disk_img s2) (disk_wr s2) (unat sector div 2)\<rparr>)\<rparr>)"
  define s4 where "s4 = s3\<lparr>hw := intr_off (hw s3)\<rparr>"
  have hw4: "hw s4 = intr_set False (lock_cycle (run_proc None h))"
    by (simp add: s4_def s3_def s2_def s1_def intr_on_set intr_off_set)
  have wk: "woken (Ch_buf b) [0..<NPROC] (procs s4) = (procs s)(p := (procs s p)\<lparr>p_chan := Ch_buf b, p_state := RUNNABLE\<rparr>)"
    using assms(6) h(6) by (auto simp: s4_def s3_def s2_def s1_def woken_def fun_eq_iff)
  define s5 where "s5 = s4\<lparr>hw := lock_cycle (hw s4), bufs := (bufs s4)(b := (bufs s4 b)\<lparr>b_disk := False\<rparr>),
    procs := woken (Ch_buf b) [0..<NPROC] (procs s4),
    vd := (next_used (vd s4))\<lparr>mmio_wr := (0x064, mmio (vd s4) 0x060 AND 3) # mmio_wr (vd s4)\<rparr>\<rparr>"
  have intr: "virtio_disk_intr s4 = Ok () s5" unfolding s5_def
    by (rule virtio_disk_intr_run [of s4 b "write" sector d])
      (use assms(7,10) h in \<open>simp_all add: intr_on_set intr_off_set s4_def s3_def s2_def s1_def\<close>)
  define s6 where "s6 = s5\<lparr>hw := intr_on (hw s5)\<rparr>"
  have hw6: "hw s6 = intr_set True (lock_cycle (intr_set False (lock_cycle (run_proc None h))))"
    by (simp add: s6_def s5_def hw4 intr_on_set)
  have procs6: "procs s6 = (procs s)(p := (procs s p)\<lparr>p_chan := Ch_buf b, p_state := RUNNABLE\<rparr>)"
    by (simp add: s6_def s5_def wk)
  define g where "g = intr_set True (lock_cycle (intr_set False (lock_cycle h)))"
  have g: "run_proc (Some p) (hw s6) = g"
    using h by (simp add: hw6 g_def run_proc_cycle run_proc_intr_set run_proc_same)
  define s7 where "s7 = s6\<lparr>hw := held (Lk_proc p) g, procs := (procs s6)(p := (procs s6 p)\<lparr>p_state := RUNNING\<rparr>)\<rparr>"
  have nf: "\<not> next_flag s6" using assms(5) by (simp add: s6_def s5_def s4_def s3_def s2_def s1_def)
  have tr: "scheduler_try p s6 = Switch s7" unfolding s7_def g [symmetric]
    by (rule scheduler_try_run) (use nf h in \<open>simp_all add: hw6 procs6\<close>)
  have rg: "running p (s7\<lparr>hw := g\<rparr>)" using h by (simp add: running_def g_def)
  have "sleep_resume Lk_disk (intr_get h) s7 =
      Ok () (s7\<lparr>hw := held Lk_disk (intr_set (intr_get h) g), procs := (procs s7)(p := (procs s7 p)\<lparr>p_chan := Ch_none\<rparr>)\<rparr>)"
    by (rule sleep_resume_run [OF _ rg]) (simp_all add: s7_def)
  moreover have "held Lk_disk (intr_set (intr_get h) g) = hw s"
    using h by (simp add: g_def assms(2) held_intr_cycle)
  moreover have "(procs s7)(p := (procs s7 p)\<lparr>p_chan := Ch_none\<rparr>) = procs s"
    using assms(3,4) by (auto simp: s7_def procs6 fun_eq_iff)
  ultimately have res: "sleep_resume Lk_disk (intr_get h) s7 = Ok () (s7\<lparr>hw := hw s, procs := procs s\<rparr>)" by simp
  have cp: "curproc s = Ok p s"
  proof -
    have "curproc s = Ok p (s\<lparr>hw := lock_cycle (hw s)\<rparr>)" using h by (intro curproc_ok) (simp_all add: assms(2))
    also have "lock_cycle (hw s) = hw s" by (simp add: assms(2))
    finally show ?thesis by simp
  qed
  have ie: "intena (mycpu (hw s)) = intr_get h" using h by (simp add: assms(2))
  have steps: "on_hart intr_on s1 = Ok () s2" "virtio_device s2 = Ok () s3" "on_hart intr_off s3 = Ok () s4" "on_hart intr_on s5 = Ok () s6"
    unfolding dev by (simp_all add: s2_def s3_def s4_def s6_def)
  have "\<not> b_disk (bufs (s7\<lparr>hw := hw s, procs := procs s\<rparr>) b)" by (simp add: s7_def s6_def s5_def)
  then have "disk_wait b s = Ok () (s7\<lparr>hw := hw s, procs := procs s\<rparr>)"
    using assms(11)
    by (simp add: disk_wait_def bind_apply andthen_apply on_switch_def cp ie sl bk steps intr tr res del: on_hart_apply)
  also have "s7\<lparr>hw := hw s, procs := procs s\<rparr> = s\<lparr>
    bufs := (bufs s)(b := (bufs s b)\<lparr>
      b_data := (if write then b_data (bufs s b) else disk_get (disk_img s) (disk_wr s) (unat sector div 2)), b_disk := False\<rparr>),
    disk_wr := (if write then (unat sector div 2, b_data (bufs s b)) # disk_wr s else disk_wr s),
    vd := (next_used (served (vd s)))\<lparr>mmio_wr := (0x064, mmio d 0x060 AND 3) # mmio_wr (vd s)\<rparr>\<rparr>"
    by (rule disk_state.equality)
      (simp_all add: s7_def s6_def s5_def s4_def s3_def s2_def s1_def, simp_all add: served_def next_used_def assms(7) started_def)
  finally show ?thesis .
qed


lemma virtio_disk_rw_run:
  assumes "fs_quiet p s" and "b_blockno (bufs s b) < 0x80000000"
  shows "\<exists>d. vd_idle d \<and> virtio_disk_rw b write s = Ok () ((disk_done b write s)\<lparr>hw := lock_cycle (hw s), vd := d\<rparr>)"
proof -
  note q = fs_quietD [OF assms(1)]
  note h = running_facts [OF q(1)]
  note idle = q(5) [unfolded vd_idle_def]
  let ?sec = "ucast (b_blockno (bufs s b) * 2) :: u64"
  let ?d = "(vd s)\<lparr>dfree := (dfree (vd s))(0 := False, 1 := False, 2 := False)\<rparr>"
  define s0 where "s0 = s\<lparr>hw := held Lk_disk (hw s)\<rparr>"
  define s1 where "s1 = s0\<lparr>vd := ?d\<rparr>"
  define s2 where "s2 = s1\<lparr>bufs := (bufs s1)(b := (bufs s1 b)\<lparr>b_disk := True\<rparr>), vd := started b write ?sec (vd s1)\<rparr>"
  have a: "acquire Lk_disk s = Ok () s0" using h by (simp add: s0_def)
  have al: "alloc3_desc s0 = Ok (Some [0, 1, 2]) s1"
    unfolding s1_def by (subst alloc3_desc_idle) (use idle in \<open>simp_all add: s0_def\<close>)
  have st: "virtio_disk_start b write 0 1 2 s1 = Ok () s2"
    unfolding virtio_disk_start_run s2_def by (simp add: s1_def s0_def)
  let ?v = "(next_used (served (vd s2)))\<lparr>mmio_wr := (0x064, mmio ?d 0x060 AND 3) # mmio_wr (vd s2)\<rparr>"
  define s3 where "s3 = s2\<lparr>bufs := (bufs s2)(b := (bufs s2 b)\<lparr>
      b_data := (if write then b_data (bufs s2 b) else disk_get (disk_img s2) (disk_wr s2) (unat ?sec div 2)), b_disk := False\<rparr>),
    disk_wr := (if write then (unat ?sec div 2, b_data (bufs s2 b)) # disk_wr s2 else disk_wr s2), vd := ?v\<rparr>"
  have w: "disk_wait b s2 = Ok () s3" unfolding s3_def
    by (rule disk_wait_run [of p "hw s" s2 b "write" ?sec ?d])
      (use q h idle assms(1) in \<open>auto simp: s2_def s1_def s0_def running_def fs_quiet_def\<close>)
  define s4 where "s4 = s3\<lparr>vd := ?v\<lparr>info_b := (info_b ?v)(0 := None)\<rparr>\<rparr>"
  have "\<exists>f. free_chain 0 s4 = Ok () (s4\<lparr>hw := lock_cycle (hw s4), vd := (vd s4)\<lparr>desc := f, dfree := (dfree (vd s4))(0 := True, 1 := True, 2 := True)\<rparr>\<rparr>)"
    by (rule free_chain_run)
      (use q h in \<open>simp_all add: s4_def s3_def s2_def s1_def s0_def next_used_def served_def started_def\<close>)
  then obtain f where fc: "free_chain 0 s4 = Ok () (s4\<lparr>hw := lock_cycle (hw s4), vd := (vd s4)\<lparr>desc := f, dfree := (dfree (vd s4))(0 := True, 1 := True, 2 := True)\<rparr>\<rparr>)" ..
  define s5 where "s5 = s4\<lparr>hw := lock_cycle (hw s4), vd := (vd s4)\<lparr>desc := f, dfree := (dfree (vd s4))(0 := True, 1 := True, 2 := True)\<rparr>\<rparr>"
  have ib: "on_vd (\<lambda>d. d\<lparr>info_b := (info_b d)(0 := None)\<rparr>) s3 = Ok () s4" by (simp add: s4_def) (simp add: s3_def)
  have hw5: "hw s5 = held Lk_disk (hw s)" by (simp add: s5_def s4_def s3_def s2_def s1_def s0_def)
  have rel: "release Lk_disk s5 = Ok () (s5\<lparr>hw := lock_cycle (hw s)\<rparr>)" using h by (intro release_held) (simp_all add: hw5)
  have "virtio_disk_rw b write s = Ok () (s5\<lparr>hw := lock_cycle (hw s)\<rparr>)"
    by (simp add: virtio_disk_rw_def bind_apply andthen_apply a al st [simplified] w ib fc [folded s5_def] rel del: on_vd_apply)
  also have "s5\<lparr>hw := lock_cycle (hw s)\<rparr> = (disk_done b write s)\<lparr>hw := lock_cycle (hw s), vd := vd s5\<rparr>"
    unfolding disk_done_def Let_def using sector_block [OF assms(2)]
    by (intro disk_state.equality) (simp_all add: s5_def s4_def s3_def s2_def s1_def s0_def)
  finally have "virtio_disk_rw b write s = Ok () ((disk_done b write s)\<lparr>hw := lock_cycle (hw s), vd := vd s5\<rparr>)" .
  moreover have "vd_idle (vd s5)"
  proof -
    have "unat (used_idx (vd s5)) = Suc (unat (used_idx (vd s))) mod NUM"
      using unat_next_used [of "served (vd s2)"]
      by (simp add: s5_def s4_def) (simp add: served_def s2_def s1_def started_def s0_def)
    moreover have "used_id (vd s5) = used_id (vd s) + 1"
      by (simp add: s5_def s4_def next_used_def served_def) (simp add: s2_def s1_def started_def s0_def)
    moreover have "unat (used_id (vd s) + 1) mod 8 = Suc (unat (used_idx (vd s))) mod 8"
      using mod_Suc_eq [of "unat (used_id (vd s))" 8] idle by (simp add: u16_succ_mod)
    ultimately show ?thesis using idle unfolding vd_idle_def
      by (auto simp: s5_def s4_def next_used_def served_def s2_def s1_def started_def s0_def)
  qed
  ultimately show ?thesis by blast
qed


lemma fs_quiet_cong:
  assumes "fs_quiet p s" and "hw t = hw s \<or> hw t = lock_cycle (hw s)" and "procs t = procs s" and "next_flag t = next_flag s"
    and "vd_idle (vd t)"
  shows "fs_quiet p t"
  using assms running_cong [of t s p] by (simp add: fs_quiet_def)

lemma fs_quiet_disk_done:
  assumes "fs_quiet p s" and "vd_idle d"
  shows "fs_quiet p ((disk_done b write s)\<lparr>hw := lock_cycle (hw s), vd := d\<rparr>)"
  by (rule fs_quiet_cong [OF assms(1)]) (simp_all add: disk_done_def Let_def assms(2))

lemma disk_get_Cons [simp]: "disk_get img ((n, d) # ws) m = (if m = n then d else disk_get img ws m)"
  by (simp add: disk_get_def)


definition buf0 :: buf where
  "buf0 = \<lparr>b_valid = False, b_disk = False, b_dev = 0, b_blockno = 0, b_refcnt = 0, b_prev = 0, b_next = 0, b_data = replicate BSIZE 0\<rparr>"

definition vd0 :: vdisk where
  "vd0 = \<lparr>desc = (\<lambda>_. desc0), avail_idx = 0, avail_ring = (\<lambda>_. 0), used_id = 0, used_elems = (\<lambda>_. 0), dfree = (\<lambda>_. True),
     used_idx = 0, info_b = (\<lambda>_. None), info_status = (\<lambda>_. 0), disk_pages = 0, mmio = (\<lambda>_. 0), mmio_wr = [],
     dev_seen = 0, dev_answer = (\<lambda>_. 0)\<rparr>"

text \<open>No sleep lock held, an idle driver, an empty cache and a disk of zeros.\<close>

definition disk_st0 :: disk_state where
  "disk_st0 = sl_state.extend (sl_st0\<lparr>slocks := (\<lambda>_. \<lparr>sl_locked = False, sl_name = [], sl_pid = 0\<rparr>)\<rparr>)
     \<lparr>bufs = (\<lambda>_. buf0), vd = vd0, disk_img = (\<lambda>_. replicate BSIZE 0), disk_wr = []\<rparr>"

lemma disk_st0_quiet: "fs_quiet 0 disk_st0"
  by (simp add: fs_quiet_def running_def disk_st0_def sl_state.extend_def sl_st0_def proc_state.extend_def proc_st0_def
      proc0_def vd_idle_def vd0_def)


end
