(* ===== verification/Bio.thy ===== *)
theory Bio
  imports Virtio
begin

text \<open>
  \<open>kernel/bio.c\<close>: the buffer cache. The buffers are \<open>bufs 0\<close> to \<open>bufs (NBUF - 1)\<close> and the list head is the
  buffer \<open>HEAD\<close>, all linked through \<open>b_prev\<close> and \<open>b_next\<close>, most recently used first. The two scans of \<open>bget\<close>
  follow the links with fuel \<open>NBUF + 1\<close>: there are only that many nodes, so a scan that has not come back to the
  head by then goes round for ever, which is \<open>Spin\<close>.

  The laws read the cache as a list of buffers (the ring) and as a map from block numbers: the contents of a
  block as the kernel sees them, the buffer it is in, its reference count and the holder of its lock (\<open>bview_of\<close>).
  \<open>bio p s v\<close>: process \<open>p\<close> runs with no spinlock held, the driver is idle, the cache is well formed, its view is \<open>v\<close>.
\<close>

section \<open>Code\<close>

abbreviation (input) HEAD :: nat where "HEAD \<equiv> NBUF"

definition binit_one :: "nat \<Rightarrow> (unit, 'x disk_state_scheme) kop" where
  "binit_one b =
     bind (gets (\<lambda>s. b_next (bufs s HEAD))) (\<lambda>n.
     andthen (on_buf b (\<lambda>x. x\<lparr>b_next := n\<rparr>)) (
     andthen (on_buf b (\<lambda>x. x\<lparr>b_prev := HEAD\<rparr>)) (
     andthen (initsleeplock (Sl_buf b) ''buffer'') (
     bind (gets (\<lambda>s. b_next (bufs s HEAD))) (\<lambda>n.
     andthen (on_buf n (\<lambda>x. x\<lparr>b_prev := b\<rparr>)) (
     on_buf HEAD (\<lambda>x. x\<lparr>b_next := b\<rparr>)))))))"

definition binit :: "(unit, 'x disk_state_scheme) kop" where
  "binit =
     andthen (initlock Lk_bcache ''bcache'') (
     andthen (on_buf HEAD (\<lambda>x. x\<lparr>b_prev := HEAD\<rparr>)) (
     andthen (on_buf HEAD (\<lambda>x. x\<lparr>b_next := HEAD\<rparr>)) (
     for_each [0..<NBUF] binit_one)))"

fun bget_cached :: "nat \<Rightarrow> nat \<Rightarrow> u32 \<Rightarrow> u32 \<Rightarrow> (nat option, 'x disk_state_scheme) kop" where
  "bget_cached 0 b dev blockno = (\<lambda>s. Spin)"
| "bget_cached (Suc n) b dev blockno =
     (if b = HEAD then ret None
      else
        bind (gets (\<lambda>s. bufs s b)) (\<lambda>x.
        if b_dev x = dev \<and> b_blockno x = blockno then ret (Some b)
        else bget_cached n (b_next x) dev blockno))"

fun bget_unused :: "nat \<Rightarrow> nat \<Rightarrow> (nat option, 'x disk_state_scheme) kop" where
  "bget_unused 0 b = (\<lambda>s. Spin)"
| "bget_unused (Suc n) b =
     (if b = HEAD then ret None
      else
        bind (gets (\<lambda>s. bufs s b)) (\<lambda>x.
        if b_refcnt x = 0 then ret (Some b)
        else bget_unused n (b_prev x)))"

definition bget :: "u32 \<Rightarrow> u32 \<Rightarrow> (nat, 'x disk_state_scheme) kop" where
  "bget dev blockno =
     andthen (acquire Lk_bcache) (
     bind (gets (\<lambda>s. b_next (bufs s HEAD))) (\<lambda>n.
     bind (bget_cached (NBUF + 1) n dev blockno) (\<lambda>r.
     case r of
       Some b \<Rightarrow>
         andthen (on_buf b (\<lambda>x. x\<lparr>b_refcnt := b_refcnt x + 1\<rparr>)) (
         andthen (release Lk_bcache) (
         andthen (acquiresleep (Sl_buf b)) (
         ret b)))
     | None \<Rightarrow>
         bind (gets (\<lambda>s. b_prev (bufs s HEAD))) (\<lambda>p.
         bind (bget_unused (NBUF + 1) p) (\<lambda>r.
         case r of
           Some b \<Rightarrow>
             andthen (on_buf b (\<lambda>x. x\<lparr>b_dev := dev, b_blockno := blockno, b_valid := False, b_refcnt := 1\<rparr>)) (
             andthen (release Lk_bcache) (
             andthen (acquiresleep (Sl_buf b)) (
             ret b)))
         | None \<Rightarrow> panic ''bget: no buffers'')))))"

definition bread :: "u32 \<Rightarrow> u32 \<Rightarrow> (nat, 'x disk_state_scheme) kop" where
  "bread dev blockno =
     bind (bget dev blockno) (\<lambda>b.
     bind (gets (\<lambda>s. b_valid (bufs s b))) (\<lambda>v.
     andthen
       (if \<not> v then andthen (virtio_disk_rw b False) (on_buf b (\<lambda>x. x\<lparr>b_valid := True\<rparr>)) else ret ()) (
     ret b)))"

definition bwrite :: "nat \<Rightarrow> (unit, 'x disk_state_scheme) kop" where
  "bwrite b =
     bind (holdingsleep (Sl_buf b)) (\<lambda>h.
     andthen (panic_if (\<not> h) ''bwrite'') (
     virtio_disk_rw b True))"

definition brelse_relink :: "nat \<Rightarrow> (unit, 'x disk_state_scheme) kop" where
  "brelse_relink b =
     bind (gets (\<lambda>s. bufs s b)) (\<lambda>x.
     andthen (on_buf (b_next x) (\<lambda>y. y\<lparr>b_prev := b_prev x\<rparr>)) (
     bind (gets (\<lambda>s. bufs s b)) (\<lambda>x.
     andthen (on_buf (b_prev x) (\<lambda>y. y\<lparr>b_next := b_next x\<rparr>)) (
     bind (gets (\<lambda>s. b_next (bufs s HEAD))) (\<lambda>n.
     andthen (on_buf b (\<lambda>y. y\<lparr>b_next := n\<rparr>)) (
     andthen (on_buf b (\<lambda>y. y\<lparr>b_prev := HEAD\<rparr>)) (
     bind (gets (\<lambda>s. b_next (bufs s HEAD))) (\<lambda>n.
     andthen (on_buf n (\<lambda>y. y\<lparr>b_prev := b\<rparr>)) (
     on_buf HEAD (\<lambda>y. y\<lparr>b_next := b\<rparr>))))))))))"

definition brelse :: "nat \<Rightarrow> (unit, 'x disk_state_scheme) kop" where
  "brelse b =
     bind (holdingsleep (Sl_buf b)) (\<lambda>h.
     andthen (panic_if (\<not> h) ''brelse'') (
     andthen (releasesleep (Sl_buf b)) (
     andthen (acquire Lk_bcache) (
     andthen (on_buf b (\<lambda>x. x\<lparr>b_refcnt := b_refcnt x - 1\<rparr>)) (
     bind (gets (\<lambda>s. b_refcnt (bufs s b))) (\<lambda>r.
     andthen (if r = 0 then brelse_relink b else ret ()) (
     release Lk_bcache)))))))"

definition bpin :: "nat \<Rightarrow> (unit, 'x disk_state_scheme) kop" where
  "bpin b =
     andthen (acquire Lk_bcache) (
     andthen (on_buf b (\<lambda>x. x\<lparr>b_refcnt := b_refcnt x + 1\<rparr>)) (
     release Lk_bcache))"

definition bunpin :: "nat \<Rightarrow> (unit, 'x disk_state_scheme) kop" where
  "bunpin b =
     andthen (acquire Lk_bcache) (
     andthen (on_buf b (\<lambda>x. x\<lparr>b_refcnt := b_refcnt x - 1\<rparr>)) (
     release Lk_bcache))"

section \<open>The ring\<close>

text \<open>\<open>lpath f a xs z\<close>: following \<open>f\<close> from \<open>a\<close> visits \<open>xs\<close> and then arrives at \<open>z\<close>.\<close>

fun lpath :: "(nat \<Rightarrow> nat) \<Rightarrow> nat \<Rightarrow> nat list \<Rightarrow> nat \<Rightarrow> bool" where
  "lpath f a [] z \<longleftrightarrow> f a = z"
| "lpath f a (x # xs) z \<longleftrightarrow> f a = x \<and> lpath f x xs z"

lemma lpath_update [simp]: "u \<notin> set (a # xs) \<Longrightarrow> lpath (f(u := v)) a xs z = lpath f a xs z"
  by (induction xs arbitrary: a) auto

lemma lpath_first: "lpath f a xs z \<Longrightarrow> f a = hd (xs @ [z])"
  by (cases xs) auto

lemma lpath_unlink:
  "lpath f a (ys @ b # zs) z \<Longrightarrow> distinct (a # ys @ b # zs) \<Longrightarrow> lpath (f(last (a # ys) := f b)) a (ys @ zs) z"
proof (induction ys arbitrary: a)
  case Nil
  show ?case
  proof (cases zs)
    case Nil
    then show ?thesis using Nil.prems by simp
  next
    case (Cons c cs)
    then have "lpath (f(a := c)) c cs z = lpath f c cs z" using Nil.prems by (intro lpath_update) simp
    then show ?thesis using Cons Nil.prems by (simp del: fun_upd_apply add: fun_upd_same)
  qed
next
  case (Cons y ys)
  then have "lpath (f(last (y # ys) := f b)) y (ys @ zs) z" by (intro Cons.IH) auto
  moreover have "a \<noteq> last (y # ys)" using Cons.prems(2) last_in_set [of "y # ys"] by auto
  ultimately show ?case using Cons.prems(1) by (simp del: fun_upd_apply add: fun_upd_other)
qed

lemma lpath_snoc:
  "lpath f a xs z \<Longrightarrow> distinct (a # xs) \<Longrightarrow> b \<notin> set (a # xs) \<Longrightarrow> lpath (f(last (a # xs) := b, b := z)) a (xs @ [b]) z"
proof (induction xs arbitrary: a)
  case Nil
  then show ?case by simp
next
  case (Cons x xs)
  then have "lpath (f(last (x # xs) := b, b := z)) x (xs @ [b]) z" by (intro Cons.IH) auto
  moreover have "a \<noteq> last (x # xs)" using Cons.prems(2) last_in_set [of "x # xs"] by auto
  moreover have "(f(last (x # xs) := b, b := z)) a = x" using Cons.prems \<open>a \<noteq> last (x # xs)\<close> by simp
  ultimately show ?case unfolding last_ConsR [of "x # xs" a, OF list.distinct(2)] append_Cons lpath.simps by blast
qed

definition ring :: "(nat \<Rightarrow> buf) \<Rightarrow> nat list \<Rightarrow> bool" where
  "ring B xs \<longleftrightarrow> distinct xs \<and> set xs = {0..<NBUF} \<and> lpath (\<lambda>i. b_next (B i)) HEAD xs HEAD \<and> lpath (\<lambda>i. b_prev (B i)) HEAD (rev xs) HEAD"

lemma next_upd [simp]: "(\<lambda>i. b_next ((B(k := (B k)\<lparr>b_next := v\<rparr>)) i)) = (\<lambda>i. b_next (B i))(k := v)"
  "(\<lambda>i. b_next ((B(k := (B k)\<lparr>b_prev := v\<rparr>)) i)) = (\<lambda>i. b_next (B i))"
  by (auto simp: fun_eq_iff)

lemma prev_upd [simp]: "(\<lambda>i. b_prev ((B(k := (B k)\<lparr>b_prev := v\<rparr>)) i)) = (\<lambda>i. b_prev (B i))(k := v)"
  "(\<lambda>i. b_prev ((B(k := (B k)\<lparr>b_next := v\<rparr>)) i)) = (\<lambda>i. b_prev (B i))"
  by (auto simp: fun_eq_iff)

lemma bget_cached_run:
  assumes "lpath (\<lambda>i. b_next (bufs s i)) a xs HEAD" and "HEAD \<notin> set xs" and "length xs < n"
  shows "bget_cached n (b_next (bufs s a)) dev bno s = Ok (find (\<lambda>b. b_dev (bufs s b) = dev \<and> b_blockno (bufs s b) = bno) xs) s"
  using assms
proof (induction xs arbitrary: a n)
  case Nil
  then show ?case by (cases n) auto
next
  case (Cons x xs)
  then obtain m where "n = Suc m" by (cases n) auto
  then show ?case using Cons by (auto simp: bind_apply)
qed

lemma bget_unused_run:
  assumes "lpath (\<lambda>i. b_prev (bufs s i)) a xs HEAD" and "HEAD \<notin> set xs" and "length xs < n"
  shows "bget_unused n (b_prev (bufs s a)) s = Ok (find (\<lambda>b. b_refcnt (bufs s b) = 0) xs) s"
  using assms
proof (induction xs arbitrary: a n)
  case Nil
  then show ?case by (cases n) auto
next
  case (Cons x xs)
  then obtain m where "n = Suc m" by (cases n) auto
  then show ?case using Cons by (auto simp: bind_apply)
qed

text \<open>\<open>brelse\<close> moves the buffer to the front.\<close>

lemma lpath_append: "lpath f a (xs @ y # ys) z \<longleftrightarrow> lpath f a xs y \<and> lpath f y ys z"
  by (induction xs arbitrary: a) auto

lemma hd_rev_snoc: "hd (rev xs @ [h]) = last (h # xs)"
  by (cases xs rule: rev_cases) auto

lemma lpath_insert:
  assumes "lpath f h ws h" and "lpath g h (rev ws) h" and "distinct (h # b # ws)"
  shows "lpath (f(b := f h, h := b)) h (b # ws) h" and "lpath (g(b := h, f h := b)) h (rev (b # ws)) h"
proof -
  have nb: "b \<notin> set (h # ws)" and nh: "h \<notin> set (b # ws)" using assms(3) by auto
  have "lpath (f(b := f h, h := b)) b ws h"
  proof (cases ws)
    case Nil
    then show ?thesis using assms(1) nb by simp
  next
    case (Cons c cs)
    have "lpath (f(b := f h, h := b)) c cs h = lpath (f(b := f h)) c cs h" using nh Cons by (intro lpath_update) auto
    also have "\<dots> = lpath f c cs h" using nb Cons by (intro lpath_update) auto
    finally show ?thesis using assms(1) nb Cons by simp
  qed
  then show "lpath (f(b := f h, h := b)) h (b # ws) h" by simp
  have fh: "f h = last (h # rev ws)" using lpath_first [OF assms(1)] hd_rev_snoc [of "rev ws" h] by simp
  have "f h \<noteq> b" using nb last_in_set [of "h # rev ws"] unfolding fh by auto
  then have "g(b := h, f h := b) = g(last (h # rev ws) := b, b := h)" by (auto simp: fh)
  moreover have "lpath (g(last (h # rev ws) := b, b := h)) h (rev ws @ [b]) h"
    using assms(2,3) by (intro lpath_snoc) auto
  ultimately show "lpath (g(b := h, f h := b)) h (rev (b # ws)) h" by simp
qed

lemma lpath_relink:
  assumes "lpath f h (ys @ b # zs) h" and "lpath g h (rev (ys @ b # zs)) h" and "distinct (h # ys @ b # zs)"
    and "f1 = f(g b := f b)" and "g1 = g(f b := g b)"
  shows "lpath (f1(b := f1 h, h := b)) h (b # ys @ zs) h" and "lpath (g1(b := h, f1 h := b)) h (rev (b # ys @ zs)) h"
proof -
  let ?ws = "ys @ zs"
  have "lpath f b zs h" "lpath g b (rev ys) h" using assms(1,2) by (simp_all add: lpath_append)
  then have fb: "f b = last (h # rev zs)" and gb: "g b = last (h # ys)"
    using hd_rev_snoc [of "rev zs" h] hd_rev_snoc [of ys h] by (simp_all only: lpath_first rev_rev_ident)
  have p1: "lpath f1 h ?ws h" using lpath_unlink [OF assms(1,3)] by (simp only: assms(4) gb)
  have p2: "lpath g1 h (rev ?ws) h"
  proof -
    have "distinct (h # rev zs @ b # rev ys)" using assms(3) by auto
    then show ?thesis using lpath_unlink [of g h "rev zs" b "rev ys" h] assms(2) unfolding assms(5) fb by simp
  qed
  have d: "distinct (h # b # ?ws)" using assms(3) by auto
  show "lpath (f1(b := f1 h, h := b)) h (b # ?ws) h" "lpath (g1(b := h, f1 h := b)) h (rev (b # ?ws)) h"
    by (rule lpath_insert [OF p1 p2 d])+
qed

text \<open>Everything in a buffer but its links.\<close>

definition core :: "buf \<Rightarrow> buf" where
  "core x = x\<lparr>b_prev := 0, b_next := 0\<rparr>"

lemma core_eqD:
  assumes "core x = core y"
  shows "b_valid x = b_valid y" "b_disk x = b_disk y" "b_dev x = b_dev y" "b_blockno x = b_blockno y"
    "b_refcnt x = b_refcnt y" "b_data x = b_data y"
  using arg_cong [OF assms, of b_valid] arg_cong [OF assms, of b_disk] arg_cong [OF assms, of b_dev]
    arg_cong [OF assms, of b_blockno] arg_cong [OF assms, of b_refcnt] arg_cong [OF assms, of b_data]
  by (simp_all add: core_def)

lemma core_upd [simp]: "core (x\<lparr>b_prev := v\<rparr>) = core x" "core (x\<lparr>b_next := v\<rparr>) = core x"
  by (simp_all add: core_def)

lemma core_upd_at [simp]:
  "core ((B(k := (B k)\<lparr>b_prev := v\<rparr>)) i) = core (B i)" "core ((B(k := (B k)\<lparr>b_next := v\<rparr>)) i) = core (B i)"
  by simp_all

lemma brelse_relink_run:
  assumes "ring (bufs s) (ys @ b # zs)"
  shows "\<exists>B. brelse_relink b s = Ok () (s\<lparr>bufs := B\<rparr>) \<and> ring B (b # ys @ zs) \<and> (\<forall>i. core (B i) = core (bufs s i))"
proof -
  let ?B = "bufs s"
  let ?B1 = "?B(b_next (?B b) := (?B (b_next (?B b)))\<lparr>b_prev := b_prev (?B b)\<rparr>)"
  let ?B2 = "?B1(b_prev (?B1 b) := (?B1 (b_prev (?B1 b)))\<lparr>b_next := b_next (?B1 b)\<rparr>)"
  let ?B3 = "?B2(b := (?B2 b)\<lparr>b_next := b_next (?B2 HEAD)\<rparr>)"
  let ?B4 = "?B3(b := (?B3 b)\<lparr>b_prev := HEAD\<rparr>)"
  let ?B5 = "?B4(b_next (?B4 HEAD) := (?B4 (b_next (?B4 HEAD)))\<lparr>b_prev := b\<rparr>)"
  let ?B6 = "?B5(HEAD := (?B5 HEAD)\<lparr>b_next := b\<rparr>)"
  have run: "brelse_relink b s = Ok () (s\<lparr>bufs := ?B6\<rparr>)"
    by (simp add: brelse_relink_def bind_apply andthen_apply on_buf_apply del: fun_upd_apply)
  let ?f = "\<lambda>i. b_next (?B i)"
  let ?g = "\<lambda>i. b_prev (?B i)"
  have r: "distinct (HEAD # ys @ b # zs)" "lpath ?f HEAD (ys @ b # zs) HEAD" "lpath ?g HEAD (rev (ys @ b # zs)) HEAD"
    and st: "set (ys @ b # zs) = {0..<NBUF}" "distinct (ys @ b # zs)"
    using assms by (auto simp: ring_def simp del: rev_append)
  have nb: "?f b \<noteq> b" "?g b \<noteq> b" "b \<noteq> HEAD"
  proof -
    have "lpath ?f b zs HEAD" "lpath ?g b (rev ys) HEAD" using r(2,3) by (simp_all add: lpath_append)
    then show "?f b \<noteq> b" "?g b \<noteq> b" using r(1) by (cases zs, auto, cases "rev ys", auto simp: rev_eq_Cons_iff)
    show "b \<noteq> HEAD" using r(1) by auto
  qed
  let ?f1 = "?f(?g b := ?f b)"
  have f: "(\<lambda>i. b_next (?B6 i)) = ?f1(b := ?f1 HEAD, HEAD := b)" and g: "(\<lambda>i. b_prev (?B6 i)) = (?g(?f b := ?g b))(b := HEAD, ?f1 HEAD := b)"
    using nb by (auto simp: fun_eq_iff)
  have "ring ?B6 (b # ys @ zs)"
    unfolding ring_def f g using lpath_relink [OF r(2,3,1) refl refl] st by auto
  moreover have "core (?B6 i) = core (?B i)" for i by (simp only: core_upd_at)
  ultimately show ?thesis using run by blast
qed

section \<open>The cache as a map from block numbers\<close>

definition dblk :: "'x disk_state_scheme \<Rightarrow> u32 \<Rightarrow> byte list" where
  "dblk s n = disk_get (disk_img s) (disk_wr s) (unat n)"

definition cell_ok :: "'x disk_state_scheme \<Rightarrow> nat \<Rightarrow> bool" where
  "cell_ok s i \<longleftrightarrow> (let x = bufs s i in
     (b_dev x = 0 \<and> b_refcnt x = 0 \<or> b_dev x = 1 \<and> b_blockno x < 0x80000000) \<and> length (b_data x) = BSIZE \<and>
     (b_refcnt x = 0 \<longrightarrow> \<not> sl_locked (slocks s (Sl_buf i)) \<and> (b_dev x = 1 \<and> b_valid x \<longrightarrow> b_data x = dblk s (b_blockno x))) \<and>
     (b_refcnt x \<noteq> 0 \<longrightarrow> b_valid x))"

text \<open>No block is cached twice.\<close>

definition one_each :: "(nat \<Rightarrow> buf) \<Rightarrow> bool" where
  "one_each B \<longleftrightarrow> (\<forall>i<NBUF. \<forall>j<NBUF. b_dev (B i) = 1 \<and> b_dev (B j) = 1 \<and> b_blockno (B i) = b_blockno (B j) \<longrightarrow> i = j)"

definition bcache_ok :: "'x disk_state_scheme \<Rightarrow> bool" where
  "bcache_ok s \<longleftrightarrow> (\<exists>xs. ring (bufs s) xs) \<and> (\<forall>n. length (dblk s n) = BSIZE) \<and> (\<forall>i<NBUF. cell_ok s i) \<and> one_each (bufs s)"

definition bslot :: "'x disk_state_scheme \<Rightarrow> u32 \<Rightarrow> nat option" where
  "bslot s n = find (\<lambda>i. b_dev (bufs s i) = 1 \<and> b_blockno (bufs s i) = n) [0..<NBUF]"

record bview =
  v_blk :: "u32 \<Rightarrow> byte list"
  v_slot :: "u32 \<Rightarrow> nat option"
  v_refs :: "u32 \<Rightarrow> nat"
  v_lock :: "u32 \<Rightarrow> u32 option"

text \<open>
  What the kernel sees of the cache: the contents of every block, the buffer of each block in use, its reference
  count, and the pid of the process that has it locked.
\<close>

definition bview_of :: "'x disk_state_scheme \<Rightarrow> bview" where
  "bview_of s = \<lparr>
     v_blk = (\<lambda>n. case bslot s n of Some i \<Rightarrow> if b_valid (bufs s i) then b_data (bufs s i) else dblk s n | None \<Rightarrow> dblk s n),
     v_slot = (\<lambda>n. case bslot s n of Some i \<Rightarrow> if b_refcnt (bufs s i) = 0 then None else Some i | None \<Rightarrow> None),
     v_refs = (\<lambda>n. case bslot s n of Some i \<Rightarrow> unat (b_refcnt (bufs s i)) | None \<Rightarrow> 0),
     v_lock = (\<lambda>n. case bslot s n of Some i \<Rightarrow> if sl_locked (slocks s (Sl_buf i)) then Some (sl_pid (slocks s (Sl_buf i))) else None | None \<Rightarrow> None)\<rparr>"

definition bio :: "nat \<Rightarrow> 'x disk_state_scheme \<Rightarrow> bview \<Rightarrow> bool" where
  "bio p s v \<longleftrightarrow> fs_quiet p s \<and> bcache_ok s \<and> v = bview_of s"

lemma view_cong:
  assumes "\<And>i. slocks t (Sl_buf i) = slocks s (Sl_buf i)" "bufs t = bufs s" "disk_img t = disk_img s" "disk_wr t = disk_wr s"
  shows "bview_of t = bview_of s" "bcache_ok t = bcache_ok s"
proof -
  have d: "dblk t = dblk s" by (simp add: dblk_def fun_eq_iff assms)
  have b: "bslot t = bslot s" by (simp add: bslot_def fun_eq_iff assms)
  show "bview_of t = bview_of s" by (simp only: bview_of_def assms d b)
  have "cell_ok t = cell_ok s" by (simp add: cell_ok_def fun_eq_iff assms d)
  then show "bcache_ok t = bcache_ok s" by (simp add: bcache_ok_def assms d)
qed

lemma bio_cong:
  assumes "hw t = hw s" "procs t = procs s" "next_flag t = next_flag s" "\<And>i. slocks t (Sl_buf i) = slocks s (Sl_buf i)" "bufs t = bufs s" "vd t = vd s"
    "disk_img t = disk_img s" "disk_wr t = disk_wr s"
  shows "bio p t v = bio p s v"
  using view_cong [OF assms(4,5,7,8)] by (simp add: bio_def fs_quiet_def running_def assms)

lemma find_unique:
  assumes "\<And>i. i \<in> set xs \<Longrightarrow> P i \<Longrightarrow> i = a" and "a \<in> set xs" and "P a"
  shows "find P xs = Some a"
proof -
  have "find P xs \<noteq> None" using assms(2,3) by (auto simp: find_None_iff)
  then obtain b where b: "find P xs = Some b" by blast
  then have "b \<in> set xs" "P b" by (auto simp: find_Some_iff)
  then show ?thesis using b assms(1) by simp
qed

lemma bslot_Some:
  assumes "one_each (bufs s)" and "i < NBUF" and "b_dev (bufs s i) = 1" and "b_blockno (bufs s i) = n"
  shows "bslot s n = Some i"
  unfolding bslot_def using assms by (intro find_unique) (auto simp: one_each_def)

lemma bslot_SomeD:
  assumes "bslot s n = Some i"
  shows "i < NBUF" "b_dev (bufs s i) = 1" "b_blockno (bufs s i) = n"
  using assms by (auto simp: bslot_def find_Some_iff)

lemma bslot_None: "bslot s n = None \<longleftrightarrow> (\<forall>i<NBUF. \<not> (b_dev (bufs s i) = 1 \<and> b_blockno (bufs s i) = n))"
  by (auto simp: bslot_def find_None_iff)

lemma find_ring:
  assumes "ring (bufs s) xs" and "one_each (bufs s)"
  shows "find (\<lambda>b. b_dev (bufs s b) = 1 \<and> b_blockno (bufs s b) = n) xs = bslot s n"
proof (cases "bslot s n")
  case None
  have "find (\<lambda>b. b_dev (bufs s b) = 1 \<and> b_blockno (bufs s b) = n) xs = None"
    using None [unfolded bslot_None] assms(1) by (auto simp: find_None_iff ring_def)
  then show ?thesis using None by simp
next
  case (Some i)
  then show ?thesis using bslot_SomeD [OF Some] assms
    by (intro trans [OF find_unique [of _ _ i]]) (auto simp: ring_def one_each_def)
qed

lemma bget_run:
  assumes "running p s" and "ring (bufs s) xs" and "one_each (bufs s)" and "\<And>i. i < NBUF \<Longrightarrow> cell_ok s i"
    and "\<And>i. bslot s n = Some i \<Longrightarrow> \<not> sl_locked (slocks s (Sl_buf i))"
  shows "bget 1 n s = (case (bslot s n, find (\<lambda>b. b_refcnt (bufs s b) = 0) (rev xs)) of
      (Some b, _) \<Rightarrow> Ok b (s\<lparr>bufs := (bufs s)(b := (bufs s b)\<lparr>b_refcnt := b_refcnt (bufs s b) + 1\<rparr>), hw := lock_cycle (hw s),
        slocks := (slocks s)(Sl_buf b := (slocks s (Sl_buf b))\<lparr>sl_locked := True, sl_pid := p_pid (procs s p)\<rparr>)\<rparr>)
    | (None, Some b) \<Rightarrow> Ok b (s\<lparr>
        bufs := (bufs s)(b := (bufs s b)\<lparr>b_dev := 1, b_blockno := n, b_valid := False, b_refcnt := 1\<rparr>), hw := lock_cycle (hw s),
        slocks := (slocks s)(Sl_buf b := (slocks s (Sl_buf b))\<lparr>sl_locked := True, sl_pid := p_pid (procs s p)\<rparr>)\<rparr>)
    | (None, None) \<Rightarrow> Panic ''bget: no buffers'')"
proof -
  note h = running_facts [OF assms(1)]
  let ?s = "s\<lparr>hw := held Lk_bcache (hw s)\<rparr>"
  have xs: "distinct xs" "set xs = {0..<NBUF}" using assms(2) by (simp_all add: ring_def)
  then have len: "length xs < NBUF + 1" using distinct_card [of xs] by simp
  have nh: "HEAD \<notin> set xs" using xs(2) by simp
  have c: "bget_cached (NBUF + 1) (b_next (bufs ?s HEAD)) 1 n ?s = Ok (bslot s n) ?s"
    using bget_cached_run [of ?s HEAD xs "NBUF + 1" 1 n] assms(2) nh len find_ring [OF assms(2,3)]
    by (simp add: ring_def)
  have u: "bget_unused (NBUF + 1) (b_prev (bufs ?s HEAD)) ?s = Ok (find (\<lambda>b. b_refcnt (bufs s b) = 0) (rev xs)) ?s"
    using bget_unused_run [of ?s HEAD "rev xs" "NBUF + 1"] assms(2) nh len by (simp add: ring_def)
  have run: "running p t" if "hw t = lock_cycle (hw s)" for t :: "'a disk_state_scheme"
    using running_cong [of t s p] that assms(1) by simp
  have sl: "acquiresleep (Sl_buf b) (s\<lparr>bufs := B, hw := lock_cycle (hw s)\<rparr>) = Ok () (s\<lparr>bufs := B, hw := lock_cycle (hw s),
      slocks := (slocks s)(Sl_buf b := (slocks s (Sl_buf b))\<lparr>sl_locked := True, sl_pid := p_pid (procs s p)\<rparr>)\<rparr>)"
    if "\<not> sl_locked (slocks s (Sl_buf b))" for b B
    using acquiresleep_free [OF run [of "s\<lparr>bufs := B, hw := lock_cycle (hw s)\<rparr>"], of "Sl_buf b"] that by simp
  have free: "\<not> sl_locked (slocks s (Sl_buf b))" if "find (\<lambda>b. b_refcnt (bufs s b) = 0) (rev xs) = Some b" for b
  proof -
    have "b \<in> set (rev xs)" "b_refcnt (bufs s b) = 0" using that by (auto simp: find_Some_iff simp del: set_rev)
    then show ?thesis using assms(4) [of b] xs(2) by (simp add: cell_ok_def Let_def)
  qed
  show ?thesis
  proof (cases "bslot s n")
    case (Some b)
    show ?thesis using h c sl [OF assms(5) [OF Some]] Some by (simp add: bget_def on_buf_def kop)
  next
    case None
    show ?thesis
    proof (cases "find (\<lambda>b. b_refcnt (bufs s b) = 0) (rev xs)")
      case n: None
      show ?thesis using h c u None n by (simp add: bget_def on_buf_def kop)
    next
      case (Some b)
      show ?thesis using h c u sl [OF free [OF Some]] Some None by (simp add: bget_def on_buf_def kop)
    qed
  qed
qed

lemma bcache_okD:
  assumes "bcache_ok s"
  shows "\<exists>xs. ring (bufs s) xs" "length (dblk s n) = BSIZE" "i < NBUF \<Longrightarrow> cell_ok s i" "one_each (bufs s)"
  using assms by (auto simp: bcache_ok_def)

lemma cell_okD:
  assumes "cell_ok s i"
  shows "b_dev (bufs s i) = 0 \<and> b_refcnt (bufs s i) = 0 \<or> b_dev (bufs s i) = 1 \<and> b_blockno (bufs s i) < 0x80000000"
    and "length (b_data (bufs s i)) = BSIZE"
    and "b_refcnt (bufs s i) = 0 \<Longrightarrow> \<not> sl_locked (slocks s (Sl_buf i))"
    and "b_refcnt (bufs s i) = 0 \<Longrightarrow> b_dev (bufs s i) = 1 \<Longrightarrow> b_valid (bufs s i) \<Longrightarrow> b_data (bufs s i) = dblk s (b_blockno (bufs s i))"
    and "b_refcnt (bufs s i) \<noteq> 0 \<Longrightarrow> b_valid (bufs s i)"
  using assms by (auto simp: cell_ok_def Let_def)

text \<open>An operation that changes one buffer changes the view at one block.\<close>

lemma bcache_upd:
  assumes ok: "bcache_ok s" and r: "ring (bufs t) ys" and c: "\<And>i. i \<noteq> b \<Longrightarrow> core (bufs t i) = core (bufs s i)"
    and sl: "\<And>i. i \<noteq> b \<Longrightarrow> slocks t (Sl_buf i) = slocks s (Sl_buf i)"
    and d: "\<And>m. m \<noteq> n \<Longrightarrow> dblk t m = dblk s m" and dn: "length (dblk t n) = BSIZE"
    and b: "b < NBUF" "cell_ok t b" "b_dev (bufs t b) = 1" "b_blockno (bufs t b) = n"
    and old: "bslot s n = Some b \<or> bslot s n = None \<and> b_refcnt (bufs s b) = 0"
  shows "bcache_ok t"
    and "bview_of t = (bview_of s)\<lparr>v_blk := (v_blk (bview_of s))(n := if b_valid (bufs t b) then b_data (bufs t b) else dblk t n),
      v_slot := (v_slot (bview_of s))(n := if b_refcnt (bufs t b) = 0 then None else Some b),
      v_refs := (v_refs (bview_of s))(n := unat (b_refcnt (bufs t b))),
      v_lock := (v_lock (bview_of s))(n := if sl_locked (slocks t (Sl_buf b)) then Some (sl_pid (slocks t (Sl_buf b))) else None)\<rparr>"
proof -
  note ok' = bcache_okD [OF ok]
  note ce = core_eqD [OF c]
  have nn: "b_blockno (bufs s i) \<noteq> n" if "i < NBUF" "i \<noteq> b" "b_dev (bufs s i) = 1" for i
    using that old bslot_Some [OF ok'(4), of i n] by auto
  have cells: "cell_ok t i" if "i < NBUF" for i
    using ok'(3) [OF that] b(2) ce [of i] sl [of i] d [of "b_blockno (bufs s i)"] nn [OF that]
    by (cases "i = b") (auto simp: cell_ok_def Let_def)
  have one: "one_each (bufs t)"
    using ok'(4) ce nn b(3,4) unfolding one_each_def by metis
  show "bcache_ok t" unfolding bcache_ok_def using r cells one d dn ok'(2) by metis
  have slot_n: "bslot t n = Some b" by (rule bslot_Some [OF one b(1,3,4)])
  have slot_m: "bslot t m = (if bslot s m = Some b then None else bslot s m)" if "m \<noteq> n" for m
  proof (cases "bslot t m")
    case None
    have "bslot s m = None \<or> bslot s m = Some b"
      using bslot_SomeD [of s m] ce(3,4) None [unfolded bslot_None] by (metis option.exhaust)
    then show ?thesis using None by auto
  next
    case (Some i)
    note i = bslot_SomeD [OF Some]
    have "i \<noteq> b" using i b that by auto
    then have "bslot s m = Some i" using i ce [of i] by (intro bslot_Some ok') auto
    then show ?thesis using Some \<open>i \<noteq> b\<close> by simp
  qed
  have gone: "\<not> sl_locked (slocks s (Sl_buf b))" "b_refcnt (bufs s b) = 0" "b_valid (bufs s b) \<Longrightarrow> b_data (bufs s b) = dblk s m"
    if "m \<noteq> n" "bslot s m = Some b" for m
  proof -
    have "bslot s n \<noteq> Some b" using bslot_SomeD [OF that(2)] bslot_SomeD(3) [of s n b] that(1) by auto
    then have z: "b_refcnt (bufs s b) = 0" using old by simp
    show "\<not> sl_locked (slocks s (Sl_buf b))" "b_refcnt (bufs s b) = 0" "b_valid (bufs s b) \<Longrightarrow> b_data (bufs s b) = dblk s m"
      using z cell_okD [OF ok'(3) [OF b(1)]] bslot_SomeD [OF that(2)] by auto
  qed
  have other: "i \<noteq> b" if "bslot s m = Some i" "bslot s m \<noteq> Some b" for m i using that by auto
  show "bview_of t = (bview_of s)\<lparr>v_blk := (v_blk (bview_of s))(n := if b_valid (bufs t b) then b_data (bufs t b) else dblk t n),
      v_slot := (v_slot (bview_of s))(n := if b_refcnt (bufs t b) = 0 then None else Some b),
      v_refs := (v_refs (bview_of s))(n := unat (b_refcnt (bufs t b))),
      v_lock := (v_lock (bview_of s))(n := if sl_locked (slocks t (Sl_buf b)) then Some (sl_pid (slocks t (Sl_buf b))) else None)\<rparr>"
    unfolding bview_of_def
    by (auto simp: fun_eq_iff slot_n slot_m gone d ce sl split: option.splits dest!: other)
qed

section \<open>What each operation does to the view\<close>

definition bio_frame :: "'x disk_state_scheme \<Rightarrow> 'x disk_state_scheme \<Rightarrow> bool" where
  "bio_frame s t \<longleftrightarrow> t = s\<lparr>hw := hw t, slocks := slocks t, bufs := bufs t, vd := vd t, disk_wr := disk_wr t\<rparr> \<and>
     (\<forall>l. (\<forall>i. l \<noteq> Sl_buf i) \<longrightarrow> slocks t l = slocks s l)"

lemma bio_frame_refl [simp]: "bio_frame s s"
  by (simp add: bio_frame_def)

lemma bio_frame_trans:
  assumes "bio_frame s t" and "bio_frame t u"
  shows "bio_frame s u"
proof -
  have t: "t = s\<lparr>hw := hw t, slocks := slocks t, bufs := bufs t, vd := vd t, disk_wr := disk_wr t\<rparr>"
    and u: "u = t\<lparr>hw := hw u, slocks := slocks u, bufs := bufs u, vd := vd u, disk_wr := disk_wr u\<rparr>"
    using assms by (simp_all add: bio_frame_def)
  have "u = s\<lparr>hw := hw u, slocks := slocks u, bufs := bufs u, vd := vd u, disk_wr := disk_wr u\<rparr>"
    by (subst u, subst t) simp
  then show ?thesis using assms by (simp add: bio_frame_def)
qed

lemma bio_frameD:
  assumes "bio_frame s t"
  shows "procs t = procs s" "disk_img t = disk_img s" "disk_state.more t = disk_state.more s"
    and "\<And>l. (\<And>i. l \<noteq> Sl_buf i) \<Longrightarrow> slocks t l = slocks s l"
proof -
  have t: "t = s\<lparr>hw := hw t, slocks := slocks t, bufs := bufs t, vd := vd t, disk_wr := disk_wr t\<rparr>"
    using assms by (simp add: bio_frame_def)
  show "procs t = procs s" "disk_img t = disk_img s" "disk_state.more t = disk_state.more s" by (subst t, simp)+
  show "\<And>l. (\<And>i. l \<noteq> Sl_buf i) \<Longrightarrow> slocks t l = slocks s l" using assms by (simp add: bio_frame_def)
qed

lemma bioD:
  assumes "bio p s v"
  shows "fs_quiet p s" "running p s" "bcache_ok s" "v = bview_of s"
  using assms fs_quietD(1) by (auto simp: bio_def)

lemma bio_lock_cycle: "bio p s v \<Longrightarrow> bio p (s\<lparr>hw := lock_cycle (hw s)\<rparr>) v"
  using fs_quiet_cong [of p s "s\<lparr>hw := lock_cycle (hw s)\<rparr>"] fs_quietD(5) [of p s] view_cong [of "s\<lparr>hw := lock_cycle (hw s)\<rparr>" s]
  by (simp add: bio_def)

lemma bio_slot:
  assumes "bio p s v" and "v_slot v n = Some b"
  shows "b < NBUF" "bslot s n = Some b" "b_dev (bufs s b) = 1" "b_blockno (bufs s b) = n" "b_refcnt (bufs s b) \<noteq> 0"
    "b_valid (bufs s b)" "b_data (bufs s b) = v_blk v n" "unat (b_refcnt (bufs s b)) = v_refs v n" "0 < v_refs v n"
    "n < 0x80000000" "v_lock v n = (if sl_locked (slocks s (Sl_buf b)) then Some (sl_pid (slocks s (Sl_buf b))) else None)"
proof -
  note v = bioD(4) [OF assms(1)] and ok = bioD(3) [OF assms(1)]
  have slot: "bslot s n = Some b" and r: "b_refcnt (bufs s b) \<noteq> 0"
    using assms(2) by (auto simp: v bview_of_def split: option.splits if_splits)
  note b = bslot_SomeD [OF slot]
  note c = cell_okD [OF bcache_okD(3) [OF ok b(1)]]
  show "b < NBUF" "bslot s n = Some b" "b_dev (bufs s b) = 1" "b_blockno (bufs s b) = n" "b_refcnt (bufs s b) \<noteq> 0"
    by (fact b slot r)+
  show "b_valid (bufs s b)" "n < 0x80000000" using c(1,5) r b by auto
  show "b_data (bufs s b) = v_blk v n" "unat (b_refcnt (bufs s b)) = v_refs v n"
    "v_lock v n = (if sl_locked (slocks s (Sl_buf b)) then Some (sl_pid (slocks s (Sl_buf b))) else None)"
    using slot c(5) [OF r] by (simp_all add: v bview_of_def)
  then show "0 < v_refs v n" using r by (metis gr0I unat_eq_0)
qed

lemma bio_slot_inj:
  assumes "bio p s v" and "v_slot v n = Some b" and "v_slot v m = Some b"
  shows "n = m"
  using bio_slot(4) [OF assms(1,2)] bio_slot(4) [OF assms(1,3)] by simp

lemma bio_blk_len: "bio p s v \<Longrightarrow> length (v_blk v n) = BSIZE"
  using bcache_okD(2,3) [of s] bslot_SomeD(1) [of s n] cell_okD(2) [of s]
  by (auto simp: bio_def bview_of_def split: option.splits)

text \<open>A block that is not in use is seen as it is on the disk.\<close>

lemma bio_unused:
  assumes "bio p s v" and "v_slot v n = None"
  shows "v_blk v n = dblk s n" "v_refs v n = 0" "v_lock v n = None"
  using assms bcache_okD(3) [of s] cell_okD [of s] bslot_SomeD [of s n]
  by (auto simp: bio_def bview_of_def split: option.splits if_splits)

lemma free_buf:
  assumes "bio p s v" and "card (dom (v_slot v)) < NBUF"
  shows "\<exists>i<NBUF. b_refcnt (bufs s i) = 0"
proof (rule ccontr)
  assume "\<not> (\<exists>i<NBUF. b_refcnt (bufs s i) = 0)"
  then have r: "b_refcnt (bufs s i) \<noteq> 0" if "i < NBUF" for i using that by blast
  note v = bioD(4) [OF assms(1)] and ok = bcache_okD [OF bioD(3) [OF assms(1)]]
  let ?f = "\<lambda>i. b_blockno (bufs s i)"
  have dev: "b_dev (bufs s i) = 1" if "i < NBUF" for i using cell_okD(1) [OF ok(3) [OF that]] r [OF that] by simp
  have "?f ` {0..<NBUF} \<subseteq> dom (v_slot v)"
  proof
    fix n assume "n \<in> ?f ` {0..<NBUF}"
    then obtain i where i: "i < NBUF" "n = ?f i" by auto
    then have "bslot s n = Some i" using bslot_Some [OF ok(4)] dev by simp
    then show "n \<in> dom (v_slot v)" using r [OF i(1)] by (auto simp: v bview_of_def)
  qed
  moreover have "inj_on ?f {0..<NBUF}" using ok(4) dev by (auto simp: inj_on_def one_each_def)
  ultimately have "card {0..<NBUF} \<le> card (dom (v_slot v))" by (metis card_image card_mono finite)
  then show False using assms(2) by simp
qed

lemma ring_upd [simp]:
  assumes "b_next x = b_next (B k)" and "b_prev x = b_prev (B k)"
  shows "ring (B(k := x)) xs = ring B xs"
proof -
  have "(\<lambda>i. b_next ((B(k := x)) i)) = (\<lambda>i. b_next (B i))" "(\<lambda>i. b_prev ((B(k := x)) i)) = (\<lambda>i. b_prev (B i))"
    using assms by (auto simp: fun_eq_iff)
  then show ?thesis by (simp only: ring_def)
qed

definition vcap :: "bview \<Rightarrow> u32 \<Rightarrow> bool" where
  "vcap v n \<longleftrightarrow> (v_slot v n \<noteq> None \<or> card (dom (v_slot v)) < NBUF) \<and> v_refs v n + 1 < 2 ^ 32"

definition v_get :: "u32 \<Rightarrow> nat \<Rightarrow> u32 \<Rightarrow> bview \<Rightarrow> bview" where
  "v_get n b pid v = v\<lparr>v_slot := (v_slot v)(n \<mapsto> b), v_refs := (v_refs v)(n := v_refs v n + 1), v_lock := (v_lock v)(n \<mapsto> pid)\<rparr>"

lemma bget_fresh:
  assumes "bio p s v" and "v_slot v n = None" and "card (dom (v_slot v)) < NBUF"
  shows "\<exists>b t. b < NBUF \<and> bget 1 n s = Ok b t \<and> t = s\<lparr>bufs := bufs t, hw := lock_cycle (hw s), slocks := slocks t\<rparr> \<and>
    slocks t = (slocks s)(Sl_buf b := (slocks s (Sl_buf b))\<lparr>sl_locked := True, sl_pid := p_pid (procs s p)\<rparr>) \<and>
    bufs t = (bufs s)(b := bufs t b) \<and> b_next (bufs t b) = b_next (bufs s b) \<and> b_prev (bufs t b) = b_prev (bufs s b) \<and>
    b_dev (bufs t b) = 1 \<and> b_blockno (bufs t b) = n \<and> b_refcnt (bufs t b) = 1 \<and>
    (b_valid (bufs t b) \<longrightarrow> b_data (bufs t b) = v_blk v n) \<and> length (b_data (bufs t b)) = BSIZE \<and>
    (bslot s n = Some b \<or> bslot s n = None) \<and> b_refcnt (bufs s b) = 0"
proof -
  note v = bioD(4) [OF assms(1)] and ok = bcache_okD [OF bioD(3) [OF assms(1)]]
  obtain xs where xs: "ring (bufs s) xs" using ok(1) by blast
  have ul: "\<not> sl_locked (slocks s (Sl_buf i)) \<and> b_refcnt (bufs s i) = 0 \<and> i < NBUF \<and>
      (b_valid (bufs s i) \<longrightarrow> b_data (bufs s i) = v_blk v n) \<and> b_blockno (bufs s i) = n" if "bslot s n = Some i" for i
    using that assms(2) bslot_SomeD [OF that] cell_okD(3) [OF ok(3), of i]
    by (auto simp: v bview_of_def split: if_splits)
  have run: "bget 1 n s = (case (bslot s n, find (\<lambda>b. b_refcnt (bufs s b) = 0) (rev xs)) of
      (Some b, _) \<Rightarrow> Ok b (s\<lparr>bufs := (bufs s)(b := (bufs s b)\<lparr>b_refcnt := b_refcnt (bufs s b) + 1\<rparr>), hw := lock_cycle (hw s),
        slocks := (slocks s)(Sl_buf b := (slocks s (Sl_buf b))\<lparr>sl_locked := True, sl_pid := p_pid (procs s p)\<rparr>)\<rparr>)
    | (None, Some b) \<Rightarrow> Ok b (s\<lparr>
        bufs := (bufs s)(b := (bufs s b)\<lparr>b_dev := 1, b_blockno := n, b_valid := False, b_refcnt := 1\<rparr>), hw := lock_cycle (hw s),
        slocks := (slocks s)(Sl_buf b := (slocks s (Sl_buf b))\<lparr>sl_locked := True, sl_pid := p_pid (procs s p)\<rparr>)\<rparr>)
    | (None, None) \<Rightarrow> Panic ''bget: no buffers'')"
    using ul by (intro bget_run [OF bioD(2) [OF assms(1)] xs ok(4,3)]) auto
  show ?thesis
  proof (cases "bslot s n")
    case (Some i)
    show ?thesis using run Some ul [OF Some] bslot_SomeD [OF Some] cell_okD(2) [OF ok(3), of i]
      by (intro exI [of _ i]) simp
  next
    case None
    obtain j where j: "j < NBUF" "b_refcnt (bufs s j) = 0" using free_buf [OF assms(1,3)] by blast
    have "find (\<lambda>b. b_refcnt (bufs s b) = 0) (rev xs) \<noteq> None" using j xs by (auto simp: find_None_iff ring_def)
    then obtain i where i: "find (\<lambda>b. b_refcnt (bufs s b) = 0) (rev xs) = Some i" by blast
    then have "i \<in> set (rev xs)" "b_refcnt (bufs s i) = 0" by (auto simp: find_Some_iff simp del: set_rev)
    then have "i < NBUF" "b_refcnt (bufs s i) = 0" using xs by (auto simp: ring_def)
    then show ?thesis using run None i cell_okD(2) [OF ok(3), of i] by (intro exI [of _ i]) simp
  qed
qed

lemma bio_relink:
  assumes "bio p s v" and "fs_quiet p t" and "ring (bufs t) ys" and "\<And>i. i \<noteq> b \<Longrightarrow> core (bufs t i) = core (bufs s i)"
    and "\<And>i. i \<noteq> b \<Longrightarrow> slocks t (Sl_buf i) = slocks s (Sl_buf i)"
    and "\<And>m. m \<noteq> n \<Longrightarrow> dblk t m = dblk s m" and "length (dblk t n) = BSIZE"
    and "b < NBUF" "cell_ok t b" "b_dev (bufs t b) = 1" "b_blockno (bufs t b) = n"
    and "bslot s n = Some b \<or> bslot s n = None \<and> b_refcnt (bufs s b) = 0"
    and "x = (if b_valid (bufs t b) then b_data (bufs t b) else dblk t n)"
    and "i = (if b_refcnt (bufs t b) = 0 then None else Some b)" and "k = unat (b_refcnt (bufs t b))"
    and "l = (if sl_locked (slocks t (Sl_buf b)) then Some (sl_pid (slocks t (Sl_buf b))) else None)"
  shows "bio p t (v\<lparr>v_blk := (v_blk v)(n := x), v_slot := (v_slot v)(n := i), v_refs := (v_refs v)(n := k), v_lock := (v_lock v)(n := l)\<rparr>)"
  unfolding bio_def assms(13-16)
  using assms(2) bcache_upd [OF bioD(3) [OF assms(1)] assms(3-12)] by (simp add: bioD(4) [OF assms(1)])

lemma bio_change:
  assumes "bio p s v" and "fs_quiet p t" and "bufs t = (bufs s)(b := bufs t b)"
    and "b_next (bufs t b) = b_next (bufs s b)" and "b_prev (bufs t b) = b_prev (bufs s b)"
    and "\<And>i. i \<noteq> b \<Longrightarrow> slocks t (Sl_buf i) = slocks s (Sl_buf i)"
    and "\<And>m. m \<noteq> n \<Longrightarrow> dblk t m = dblk s m" and "length (dblk t n) = BSIZE"
    and "b < NBUF" "cell_ok t b" "b_dev (bufs t b) = 1" "b_blockno (bufs t b) = n"
    and "bslot s n = Some b \<or> bslot s n = None \<and> b_refcnt (bufs s b) = 0"
    and "x = (if b_valid (bufs t b) then b_data (bufs t b) else dblk t n)"
    and "i = (if b_refcnt (bufs t b) = 0 then None else Some b)" and "k = unat (b_refcnt (bufs t b))"
    and "l = (if sl_locked (slocks t (Sl_buf b)) then Some (sl_pid (slocks t (Sl_buf b))) else None)"
  shows "bio p t (v\<lparr>v_blk := (v_blk v)(n := x), v_slot := (v_slot v)(n := i), v_refs := (v_refs v)(n := k), v_lock := (v_lock v)(n := l)\<rparr>)"
proof -
  obtain xs where xs: "ring (bufs s) xs" using bcache_okD(1) [OF bioD(3) [OF assms(1)]] by blast
  have "ring ((bufs s)(b := bufs t b)) xs" using xs assms(4,5) by simp
  then have r: "ring (bufs t) xs" using assms(3) by simp
  have c: "core (bufs t i) = core (bufs s i)" if "i \<noteq> b" for i by (subst assms(3)) (simp add: that)
  show ?thesis by (rule bio_relink [OF assms(1,2) r c assms(6-17)])
qed

lemma v_blk_same [simp]: "v\<lparr>v_blk := (v_blk v)(n := v_blk v n)\<rparr> = v"
  by simp

lemma v_get_sel [simp]:
  "v_blk (v_get n b pid v) = v_blk v" "v_slot (v_get n b pid v) m = (if m = n then Some b else v_slot v m)"
  "v_refs (v_get n b pid v) m = (if m = n then v_refs v n + 1 else v_refs v m)"
  "v_lock (v_get n b pid v) m = (if m = n then Some pid else v_lock v m)"
  by (simp_all add: v_get_def)

lemma v_get_dom [simp]: "dom (v_slot (v_get n b pid v)) = insert n (dom (v_slot v))"
  by (simp add: v_get_def)

lemma v_get_alt: "v_get n b pid v = v\<lparr>v_blk := (v_blk v)(n := v_blk v n), v_slot := (v_slot v)(n \<mapsto> b),
    v_refs := (v_refs v)(n := v_refs v n + 1), v_lock := (v_lock v)(n \<mapsto> pid)\<rparr>"
  by (simp add: v_get_def)

lemma v_use_alt:
  "v_slot v n = Some b \<Longrightarrow> v\<lparr>v_blk := (v_blk v)(n := x)\<rparr> = v\<lparr>v_blk := (v_blk v)(n := x), v_slot := (v_slot v)(n \<mapsto> b),
    v_refs := (v_refs v)(n := v_refs v n), v_lock := (v_lock v)(n := v_lock v n)\<rparr>"
  by (simp add: fun_upd_idem)

lemma bread_spec:
  assumes "bio p s v" and "n < 0x80000000" and "v_lock v n = None" and "vcap v n"
  shows "\<exists>b t. bread 1 n s = Ok b t \<and> bio p t (v_get n b (p_pid (procs s p)) v) \<and> bio_frame s t \<and> disk_wr t = disk_wr s \<and>
    (\<forall>c. v_slot v n = Some c \<longrightarrow> b = c)"
proof (cases "v_slot v n")
  case (Some b)
  note b = bio_slot [OF assms(1) Some] and ok = bcache_okD [OF bioD(3) [OF assms(1)]]
  obtain xs where xs: "ring (bufs s) xs" using ok(1) by blast
  have ul: "\<not> sl_locked (slocks s (Sl_buf b))" using b(11) assms(3) by (simp split: if_splits)
  let ?t = "s\<lparr>bufs := (bufs s)(b := (bufs s b)\<lparr>b_refcnt := b_refcnt (bufs s b) + 1\<rparr>), hw := lock_cycle (hw s),
        slocks := (slocks s)(Sl_buf b := (slocks s (Sl_buf b))\<lparr>sl_locked := True, sl_pid := p_pid (procs s p)\<rparr>)\<rparr>"
  have "bget 1 n s = Ok b ?t"
    using bget_run [OF bioD(2) [OF assms(1)] xs ok(4,3), of n] ul b(2) by simp
  then have run: "bread 1 n s = Ok b ?t" using b(6) by (simp add: bread_def kop)
  have rc: "unat (b_refcnt (bufs s b) + 1) = v_refs v n + 1"
    using b(8) assms(4) by (simp add: vcap_def unat_word_ariths)
  then have rc0: "b_refcnt (bufs s b) + 1 \<noteq> 0" by (metis Suc_eq_plus1 nat.distinct(1) unat_0)
  have q: "fs_quiet p ?t" by (rule fs_quiet_cong [OF bioD(1) [OF assms(1)]]) (use fs_quietD(5) [OF bioD(1) [OF assms(1)]] in simp_all)
  have "cell_ok ?t b" using b(1,3-7,10) rc0 cell_okD(2) [OF ok(3) [OF b(1)]] by (simp add: cell_ok_def Let_def)
  then have "bio p ?t (v_get n b (p_pid (procs s p)) v)" unfolding v_get_alt
    by (intro bio_change [OF assms(1) q, where b = b and n = n]) (use b(1-7) rc rc0 ok(2) in \<open>simp_all add: dblk_def\<close>)
  moreover have "bio_frame s ?t" by (auto simp: bio_frame_def intro!: disk_state.equality)
  ultimately show ?thesis using run Some by auto
next
  case None
  then have cap: "card (dom (v_slot v)) < NBUF" using assms(4) by (simp add: vcap_def)
  obtain b t where b: "b < NBUF" "bget 1 n s = Ok b t" "t = s\<lparr>bufs := bufs t, hw := lock_cycle (hw s), slocks := slocks t\<rparr>"
    "slocks t = (slocks s)(Sl_buf b := (slocks s (Sl_buf b))\<lparr>sl_locked := True, sl_pid := p_pid (procs s p)\<rparr>)"
    "bufs t = (bufs s)(b := bufs t b)" "b_next (bufs t b) = b_next (bufs s b)" "b_prev (bufs t b) = b_prev (bufs s b)"
    "b_dev (bufs t b) = 1" "b_blockno (bufs t b) = n" "b_refcnt (bufs t b) = 1"
    "b_valid (bufs t b) \<longrightarrow> b_data (bufs t b) = v_blk v n" "length (b_data (bufs t b)) = BSIZE"
    "bslot s n = Some b \<or> bslot s n = None" "b_refcnt (bufs s b) = 0"
    using bget_fresh [OF assms(1) None cap] by blast
  note s = bio_unused [OF assms(1) None] and sq = bioD(1) [OF assms(1)]
  have t: "hw t = lock_cycle (hw s)" "procs t = procs s" "next_flag t = next_flag s" "vd t = vd s" "disk_img t = disk_img s"
    "disk_wr t = disk_wr s" by (subst b(3), simp)+
  have q: "fs_quiet p t" by (rule fs_quiet_cong [OF sq]) (use t fs_quietD(5) [OF sq] in simp_all)
  have ft: "bio_frame s t" unfolding bio_frame_def using b(4) by (subst b(3)) (auto intro!: disk_state.equality simp: t)
  obtain u where u: "bread 1 n s = Ok b u" "fs_quiet p u" "bio_frame t u" "disk_wr u = disk_wr s" "slocks u = slocks t"
    "bufs u = (bufs s)(b := (bufs t b)\<lparr>b_data := v_blk v n, b_disk := b_disk (bufs u b), b_valid := True\<rparr>)"
  proof (cases "b_valid (bufs t b)")
    case True
    show thesis
    proof (rule that [of t])
      show "bread 1 n s = Ok b t" using b(2) True by (simp add: bread_def kop)
      show "bufs t = (bufs s)(b := (bufs t b)\<lparr>b_data := v_blk v n, b_disk := b_disk (bufs t b), b_valid := True\<rparr>)"
      proof -
        have "(bufs t b)\<lparr>b_data := v_blk v n, b_disk := b_disk (bufs t b), b_valid := True\<rparr> = bufs t b"
          using True b(11) by (cases "bufs t b") simp
        then show ?thesis using b(5) by simp
      qed
    qed (use q t in simp_all)
  next
    case False
    obtain d where d: "vd_idle d" "virtio_disk_rw b False t = Ok () ((disk_done b False t)\<lparr>hw := lock_cycle (hw t), vd := d\<rparr>)"
      using virtio_disk_rw_run [OF q, of b False] b(9) assms(2) by auto
    let ?w = "(disk_done b False t)\<lparr>hw := lock_cycle (hw t), vd := d\<rparr>"
    let ?u = "?w\<lparr>bufs := (bufs ?w)(b := (bufs ?w b)\<lparr>b_valid := True\<rparr>)\<rparr>"
    have data: "disk_get (disk_img t) (disk_wr t) (unat n) = v_blk v n" using s(1) t by (simp add: dblk_def)
    show thesis
    proof (rule that [of ?u])
      show "bread 1 n s = Ok b ?u" using b(2) False d(2) by (simp add: bread_def on_buf_def kop)
      show "fs_quiet p ?u" by (rule fs_quiet_cong [OF q]) (simp_all add: disk_done_def Let_def d(1))
      show "bio_frame t ?u" by (auto simp: bio_frame_def disk_done_def Let_def intro!: disk_state.equality)
      show "bufs ?u = (bufs s)(b := (bufs t b)\<lparr>b_data := v_blk v n, b_disk := b_disk (bufs ?u b), b_valid := True\<rparr>)"
        by (simp add: disk_done_def Let_def b(9) data) (subst b(5), simp)
    qed (simp_all add: disk_done_def Let_def t)
  qed
  have f: "bio_frame s u" by (rule bio_frame_trans [OF ft u(3)])
  have dk: "dblk u m = dblk s m" for m using u(4) bio_frameD(2) [OF f] by (simp add: dblk_def)
  have ub: "bufs u b = (bufs t b)\<lparr>b_data := v_blk v n, b_disk := b_disk (bufs u b), b_valid := True\<rparr>" by (subst u(6)) simp
  have uf: "b_next (bufs u b) = b_next (bufs s b)" "b_prev (bufs u b) = b_prev (bufs s b)" "b_dev (bufs u b) = 1"
    "b_blockno (bufs u b) = n" "b_refcnt (bufs u b) = 1" "b_data (bufs u b) = v_blk v n" "b_valid (bufs u b)"
    by (subst ub, simp add: b(6-10))+
  have ub': "bufs u = (bufs s)(b := bufs u b)" using u(6) unfolding ub [symmetric] .
  have "cell_ok u b" using uf bio_blk_len [OF assms(1), of n] assms(2) by (simp add: cell_ok_def Let_def)
  then have "bio p u (v_get n b (p_pid (procs s p)) v)" unfolding v_get_alt
    by (intro bio_change [OF assms(1) u(2) ub' uf(1,2), where n = n])
      (use u(5) b(1,4,13,14) dk uf s(2,3) bcache_okD(2) [OF bioD(3) [OF assms(1)], of n] in simp_all)
  then show ?thesis using u(1,4) f None by auto
qed

text \<open>Writing to the data of a buffer changes the contents of its block; only the disk does not change.\<close>

lemma b_data_spec:
  assumes "bio p s v" and "v_slot v n = Some b" and "length (f (v_blk v n)) = BSIZE"
  shows "bio p (s\<lparr>bufs := (bufs s)(b := (bufs s b)\<lparr>b_data := f (b_data (bufs s b))\<rparr>)\<rparr>) (v\<lparr>v_blk := (v_blk v)(n := f (v_blk v n))\<rparr>)"
proof -
  note b = bio_slot [OF assms(1,2)] and ok = bcache_okD [OF bioD(3) [OF assms(1)]]
  let ?t = "s\<lparr>bufs := (bufs s)(b := (bufs s b)\<lparr>b_data := f (b_data (bufs s b))\<rparr>)\<rparr>"
  have q: "fs_quiet p ?t" by (rule fs_quiet_cong [OF bioD(1) [OF assms(1)]]) (use fs_quietD(5) [OF bioD(1) [OF assms(1)]] in simp_all)
  have "cell_ok ?t b" using b(1,3-7,10) assms(3) by (simp add: cell_ok_def Let_def)
  then show ?thesis 
    by (subst v_use_alt [OF assms(2)], intro bio_change [OF assms(1) q, where b = b and n = n]) (use b(1-8,11) ok(2) in \<open>simp_all add: dblk_def\<close>)
qed

lemma bwrite_spec:
  assumes "bio p s v" and "v_slot v n = Some b" and "v_lock v n = Some (p_pid (procs s p))"
  shows "\<exists>t. bwrite b s = Ok () t \<and> bio p t v \<and> bio_frame s t \<and> disk_wr t = (unat n, v_blk v n) # disk_wr s"
proof -
  note b = bio_slot [OF assms(1,2)] and ok = bcache_okD [OF bioD(3) [OF assms(1)]]
  have lk: "sl_locked (slocks s (Sl_buf b))" "sl_pid (slocks s (Sl_buf b)) = p_pid (procs s p)"
    using b(11) assms(3) by (auto split: if_splits)
  let ?s = "s\<lparr>hw := lock_cycle (hw s)\<rparr>"
  have q: "fs_quiet p ?s" by (rule fs_quiet_cong [OF bioD(1) [OF assms(1)]]) (use fs_quietD(5) [OF bioD(1) [OF assms(1)]] in simp_all)
  obtain d where d: "vd_idle d" "virtio_disk_rw b True ?s = Ok () ((disk_done b True ?s)\<lparr>hw := lock_cycle (hw ?s), vd := d\<rparr>)"
    using virtio_disk_rw_run [OF q, of b True] b(4,10) by auto
  let ?t = "(disk_done b True ?s)\<lparr>hw := lock_cycle (hw ?s), vd := d\<rparr>"
  have run: "bwrite b s = Ok () ?t"
    using holdingsleep_run [OF bioD(2) [OF assms(1)], of "Sl_buf b"] lk d(2) by (simp add: bwrite_def kop)
  have wr: "disk_wr ?t = (unat n, v_blk v n) # disk_wr s" using b(4,7) by (simp add: disk_done_def Let_def)
  have qt: "fs_quiet p ?t" by (rule fs_quiet_disk_done [OF q d(1)])
  have f: "bio_frame s ?t" by (auto simp: bio_frame_def disk_done_def Let_def intro!: disk_state.equality)
  have dk: "dblk ?t m = (if m = n then v_blk v n else dblk s m)" for m
    using b(4,7) by (auto simp: dblk_def disk_done_def Let_def dest: unsigned_word_eqI)
  have "cell_ok ?t b" using b(1,3-7,10) bio_blk_len [OF assms(1), of n] by (simp add: cell_ok_def disk_done_def Let_def)
  then have "bio p ?t (v\<lparr>v_blk := (v_blk v)(n := v_blk v n)\<rparr>)" 
    by (subst v_use_alt [OF assms(2)], intro bio_change [OF assms(1) qt, where b = b and n = n])
      (use b(1-8,11) dk bio_blk_len [OF assms(1), of n] in \<open>simp_all add: disk_done_def Let_def\<close>)
  then show ?thesis using run wr f by auto
qed

definition v_put :: "u32 \<Rightarrow> bview \<Rightarrow> bview" where
  "v_put n v = v\<lparr>v_slot := (if v_refs v n = 1 then (v_slot v)(n := None) else v_slot v), v_refs := (v_refs v)(n := v_refs v n - 1),
     v_lock := (v_lock v)(n := None)\<rparr>"

lemma v_put_sel [simp]:
  "v_blk (v_put n v) = v_blk v" "v_slot (v_put n v) m = (if m = n \<and> v_refs v n = 1 then None else v_slot v m)"
  "v_refs (v_put n v) m = (if m = n then v_refs v n - 1 else v_refs v m)"
  "v_lock (v_put n v) m = (if m = n then None else v_lock v m)"
  by (simp_all add: v_put_def)

lemma v_put_alt:
  "v_slot v n = Some b \<Longrightarrow> v_put n v = v\<lparr>v_blk := (v_blk v)(n := v_blk v n), v_slot := (v_slot v)(n := if v_refs v n = 1 then None else Some b),
    v_refs := (v_refs v)(n := v_refs v n - 1), v_lock := (v_lock v)(n := None)\<rparr>"
  by (simp add: v_put_def fun_upd_idem)

lemma refs_dec:
  assumes "bio p s v" and "v_slot v n = Some b"
  shows "unat (b_refcnt (bufs s b) - 1) = v_refs v n - 1" and "b_refcnt (bufs s b) - 1 = 0 \<longleftrightarrow> v_refs v n = 1"
proof -
  note b = bio_slot [OF assms]
  show u: "unat (b_refcnt (bufs s b) - 1) = v_refs v n - 1" using b(5,8) by (simp add: unat_minus_one)
  show "b_refcnt (bufs s b) - 1 = 0 \<longleftrightarrow> v_refs v n = 1" using u b(8,9) unat_eq_0 [of "b_refcnt (bufs s b) - 1"] by auto
qed

lemma brelse_run:
  assumes "running p s" and "woken (Ch_sleeplock (Sl_buf b)) [0..<NPROC] (procs s) = procs s"
    and lk: "sl_locked (slocks s (Sl_buf b))" "sl_pid (slocks s (Sl_buf b)) = p_pid (procs s p)"
    and xs: "ring (bufs s) xs" and b: "b < NBUF"
  shows "\<exists>B ws. brelse b s = Ok () (s\<lparr>procs := procs s,
      slocks := (slocks s)(Sl_buf b := (slocks s (Sl_buf b))\<lparr>sl_locked := False, sl_pid := 0\<rparr>), hw := lock_cycle (hw s), bufs := B\<rparr>) \<and>
    ring B ws \<and> (\<forall>i. core (B i) = core (((bufs s)(b := (bufs s b)\<lparr>b_refcnt := b_refcnt (bufs s b) - 1\<rparr>)) i))"
proof -
  note h = running_facts [OF assms(1)]
  let ?x = "(bufs s b)\<lparr>b_refcnt := b_refcnt (bufs s b) - 1\<rparr>"
  let ?L = "(slocks s)(Sl_buf b := (slocks s (Sl_buf b))\<lparr>sl_locked := False, sl_pid := 0\<rparr>)"
  have r1: "running p (s\<lparr>hw := lock_cycle (hw s)\<rparr>)" using assms(1) running_cong [of "s\<lparr>hw := lock_cycle (hw s)\<rparr>" s] by simp
  have rel: "releasesleep (Sl_buf b) (s\<lparr>hw := lock_cycle (hw s)\<rparr>) = Ok () (s\<lparr>hw := lock_cycle (hw s), procs := procs s, slocks := ?L\<rparr>)"
    using releasesleep_run [OF r1, of "Sl_buf b"] assms(2) by simp
  define s1 where "s1 = s\<lparr>procs := procs s, slocks := ?L, hw := held Lk_bcache (hw s), bufs := (bufs s)(b := ?x)\<rparr>"
  have "ring (bufs s1) xs" using xs by (simp add: s1_def)
  moreover have "b \<in> set xs" using xs b by (simp add: ring_def)
  ultimately obtain ys zs where yz: "ring (bufs s1) (ys @ b # zs)" by (metis split_list)
  obtain B ws where B: "(if b_refcnt (bufs s b) - 1 = 0 then brelse_relink b else ret ()) s1 = Ok () (s1\<lparr>bufs := B\<rparr>)"
    "ring B ws" "\<And>i. core (B i) = core (bufs s1 i)"
  proof (cases "b_refcnt (bufs s b) - 1 = 0")
    case True
    then show thesis using that brelse_relink_run [OF yz] by auto
  next
    case False
    then show thesis using that [of "bufs s1"] yz by (simp add: ret_def)
  qed
  have "brelse b s = Ok () (s1\<lparr>bufs := B, hw := lock_cycle (hw s)\<rparr>)"
    using holdingsleep_run [OF assms(1), of "Sl_buf b"] lk rel B(1) h
    by (simp add: brelse_def on_buf_def kop s1_def)
  then show ?thesis using B(2,3) by (intro exI [of _ B] exI [of _ ws]) (simp add: s1_def)
qed

lemma brelse_spec:
  assumes "bio p s v" and "v_slot v n = Some b" and "v_lock v n = Some (p_pid (procs s p))"
    and "v_refs v n = 1 \<Longrightarrow> v_blk v n = dblk s n"
  shows "\<exists>t. brelse b s = Ok () t \<and> bio p t (v_put n v) \<and> bio_frame s t \<and> disk_wr t = disk_wr s"
proof -
  note b = bio_slot [OF assms(1,2)] and ok = bcache_okD [OF bioD(3) [OF assms(1)]] and rd = refs_dec [OF assms(1,2)]
  note q = fs_quietD [OF bioD(1) [OF assms(1)]]
  have lk: "sl_locked (slocks s (Sl_buf b))" "sl_pid (slocks s (Sl_buf b)) = p_pid (procs s p)"
    using b(11) assms(3) by (auto split: if_splits)
  obtain xs where xs: "ring (bufs s) xs" using ok(1) by blast
  let ?L = "(slocks s)(Sl_buf b := (slocks s (Sl_buf b))\<lparr>sl_locked := False, sl_pid := 0\<rparr>)"
  obtain B ws where B: "brelse b s = Ok () (s\<lparr>procs := procs s, slocks := ?L, hw := lock_cycle (hw s), bufs := B\<rparr>)" "ring B ws"
    "\<And>i. core (B i) = core (((bufs s)(b := (bufs s b)\<lparr>b_refcnt := b_refcnt (bufs s b) - 1\<rparr>)) i)"
    using brelse_run [OF q(1) q(6) lk xs b(1)] by auto
  let ?t = "s\<lparr>procs := procs s, slocks := ?L, hw := lock_cycle (hw s), bufs := B\<rparr>"
  have bt: "b_dev (B b) = 1" "b_blockno (B b) = n" "b_refcnt (B b) = b_refcnt (bufs s b) - 1" "b_data (B b) = v_blk v n" "b_valid (B b)"
    using core_eqD [OF B(3) [of b]] b(3-7) by simp_all
  have dk: "dblk ?t m = dblk s m" for m by (simp add: dblk_def)
  have qt: "fs_quiet p ?t" by (rule fs_quiet_cong [OF bioD(1) [OF assms(1)]]) (use q(5) in simp_all)
  have "cell_ok ?t b"
    using bt rd b(1,4,10) assms(4) dk bio_blk_len [OF assms(1), of n] by (simp add: cell_ok_def Let_def)
  then have "bio p ?t (v_put n v)"
    by (subst v_put_alt [OF assms(2)], intro bio_relink [OF assms(1) qt, where b = b and n = n and ys = ws])
      (use B(2,3) bt rd b(1,2) dk ok(2) in simp_all)
  moreover have "bio_frame s ?t" by (auto simp: bio_frame_def intro!: disk_state.equality)
  moreover have "disk_wr ?t = disk_wr s" by simp
  ultimately show ?thesis using B(1) by blast
qed

definition v_pin :: "u32 \<Rightarrow> bview \<Rightarrow> bview" where
  "v_pin n v = v\<lparr>v_refs := (v_refs v)(n := v_refs v n + 1)\<rparr>"

definition v_unpin :: "u32 \<Rightarrow> bview \<Rightarrow> bview" where
  "v_unpin n v = v\<lparr>v_refs := (v_refs v)(n := v_refs v n - 1)\<rparr>"

lemma v_pin_sel [simp]:
  "v_blk (v_pin n v) = v_blk v" "v_slot (v_pin n v) = v_slot v" "v_lock (v_pin n v) = v_lock v"
  "v_refs (v_pin n v) m = (if m = n then v_refs v n + 1 else v_refs v m)"
  by (simp_all add: v_pin_def)

lemma v_unpin_sel [simp]:
  "v_blk (v_unpin n v) = v_blk v" "v_slot (v_unpin n v) = v_slot v" "v_lock (v_unpin n v) = v_lock v"
  "v_refs (v_unpin n v) m = (if m = n then v_refs v n - 1 else v_refs v m)"
  by (simp_all add: v_unpin_def)

text \<open>Two views are equal when they agree at every block.\<close>

lemma bview_eqI:
  assumes "\<And>m. v_blk v m = v_blk w m" "\<And>m. v_slot v m = v_slot w m" "\<And>m. v_refs v m = v_refs w m" "\<And>m. v_lock v m = v_lock w m"
  shows "(v :: bview) = w"
  using assms by (intro bview.equality) auto

lemma v_pin_alt:
  "v_slot v n = Some b \<Longrightarrow> v\<lparr>v_refs := (v_refs v)(n := k)\<rparr> = v\<lparr>v_blk := (v_blk v)(n := v_blk v n), v_slot := (v_slot v)(n \<mapsto> b),
    v_refs := (v_refs v)(n := k), v_lock := (v_lock v)(n := v_lock v n)\<rparr>"
  by (simp add: fun_upd_idem)

text \<open>A change of the reference count alone, under the lock of the cache.\<close>

lemma refcnt_spec:
  assumes "bio p s v" and "v_slot v n = Some b" and "unat r = k" and "0 < k"
  shows "\<exists>t. andthen (acquire Lk_bcache) (andthen (on_buf b (\<lambda>x. x\<lparr>b_refcnt := g (b_refcnt x)\<rparr>)) (release Lk_bcache)) s = Ok () t \<and>
    (g (b_refcnt (bufs s b)) = r \<longrightarrow> bio p t (v\<lparr>v_refs := (v_refs v)(n := k)\<rparr>)) \<and> bio_frame s t \<and> disk_wr t = disk_wr s"
proof -
  note b = bio_slot [OF assms(1,2)] and ok = bcache_okD [OF bioD(3) [OF assms(1)]]
  note h = running_facts [OF bioD(2) [OF assms(1)]] and q = fs_quietD [OF bioD(1) [OF assms(1)]]
  let ?t = "s\<lparr>bufs := (bufs s)(b := (bufs s b)\<lparr>b_refcnt := g (b_refcnt (bufs s b))\<rparr>), hw := lock_cycle (hw s)\<rparr>"
  have run: "andthen (acquire Lk_bcache) (andthen (on_buf b (\<lambda>x. x\<lparr>b_refcnt := g (b_refcnt x)\<rparr>)) (release Lk_bcache)) s = Ok () ?t"
    using h by (simp add: on_buf_def kop)
  have qt: "fs_quiet p ?t" by (rule fs_quiet_cong [OF bioD(1) [OF assms(1)]]) (use q(5) in simp_all)
  have r0: "r \<noteq> 0" using assms(3,4) by auto
  have "cell_ok ?t b" if "g (b_refcnt (bufs s b)) = r"
    using b(1,3-7,10) r0 that bio_blk_len [OF assms(1), of n] by (simp add: cell_ok_def Let_def)
  then have "bio p ?t (v\<lparr>v_refs := (v_refs v)(n := k)\<rparr>)" if "g (b_refcnt (bufs s b)) = r"
    by (subst v_pin_alt [OF assms(2)], intro bio_change [OF assms(1) qt, where b = b and n = n])
      (use b(1-7,11) ok(2) assms(3) r0 that in \<open>simp_all add: dblk_def\<close>)
  moreover have "bio_frame s ?t" by (auto simp: bio_frame_def intro!: disk_state.equality)
  ultimately show ?thesis using run by auto
qed

lemma bpin_run:
  assumes "running p s"
  shows "bpin b s = Ok () (s\<lparr>bufs := (bufs s)(b := (bufs s b)\<lparr>b_refcnt := b_refcnt (bufs s b) + 1\<rparr>), hw := lock_cycle (hw s)\<rparr>)"
  using running_facts [OF assms] by (simp add: bpin_def on_buf_def kop)

lemma bpin_spec:
  assumes "bio p s v" and "v_slot v n = Some b" and "v_refs v n + 1 < 2 ^ 32"
  shows "\<exists>t. bpin b s = Ok () t \<and> bio p t (v_pin n v) \<and> bio_frame s t \<and> disk_wr t = disk_wr s"
proof -
  note b = bio_slot [OF assms(1,2)]
  have "unat (b_refcnt (bufs s b) + 1) = v_refs v n + 1" using b(8) assms(3) by (simp add: unat_word_ariths)
  then show ?thesis
    using refcnt_spec [OF assms(1,2), of "b_refcnt (bufs s b) + 1" "v_refs v n + 1" "\<lambda>r. r + 1"] unfolding bpin_def v_pin_def by auto
qed

lemma bunpin_spec:
  assumes "bio p s v" and "v_slot v n = Some b" and "1 < v_refs v n"
  shows "\<exists>t. bunpin b s = Ok () t \<and> bio p t (v_unpin n v) \<and> bio_frame s t \<and> disk_wr t = disk_wr s"
  using refcnt_spec [OF assms(1,2) refs_dec(1) [OF assms(1,2)], of "\<lambda>r. r - 1"] assms(3)
  unfolding bunpin_def v_unpin_def by auto

section \<open>\<open>binit\<close>\<close>

lemma binit_one_run:
  assumes "lpath (\<lambda>i. b_next (bufs s i)) HEAD xs HEAD" and "lpath (\<lambda>i. b_prev (bufs s i)) HEAD (rev xs) HEAD"
    and "distinct (HEAD # b # xs)"
  shows "\<exists>t. binit_one b s = Ok () t \<and> lpath (\<lambda>i. b_next (bufs t i)) HEAD (b # xs) HEAD \<and>
    lpath (\<lambda>i. b_prev (bufs t i)) HEAD (rev (b # xs)) HEAD \<and> (\<forall>i. core (bufs t i) = core (bufs s i)) \<and>
    t = s\<lparr>hw := hw t, slocks := slocks t, bufs := bufs t\<rparr> \<and>
    slocks t = (slocks s)(Sl_buf b := (slocks s (Sl_buf b))\<lparr>sl_name := ''buffer'', sl_locked := False, sl_pid := 0\<rparr>)"
proof -
  let ?B = "bufs s"
  let ?B1 = "?B(b := (?B b)\<lparr>b_next := b_next (?B HEAD)\<rparr>)"
  let ?B2 = "?B1(b := (?B1 b)\<lparr>b_prev := HEAD\<rparr>)"
  let ?B3 = "?B2(b_next (?B2 HEAD) := (?B2 (b_next (?B2 HEAD)))\<lparr>b_prev := b\<rparr>)"
  let ?B4 = "?B3(HEAD := (?B3 HEAD)\<lparr>b_next := b\<rparr>)"
  let ?t = "s\<lparr>bufs := ?B2, hw := hw_initlock (Lk_sleep (Sl_buf b)) ''sleep lock'' (hw s),
    slocks := (slocks s)(Sl_buf b := (slocks s (Sl_buf b))\<lparr>sl_name := ''buffer'', sl_locked := False, sl_pid := 0\<rparr>), bufs := ?B4\<rparr>"
  have run: "binit_one b s = Ok () ?t"
    by (simp add: binit_one_def bind_apply andthen_apply on_buf_apply initsleeplock_def initlock_def on_sl_def modify_def del: fun_upd_apply)
  let ?f = "\<lambda>i. b_next (?B i)" and ?g = "\<lambda>i. b_prev (?B i)"
  have bh: "b \<noteq> HEAD" using assms(3) by auto
  have f: "(\<lambda>i. b_next (?B4 i)) = ?f(b := ?f HEAD, HEAD := b)" and g: "(\<lambda>i. b_prev (?B4 i)) = ?g(b := HEAD, ?f HEAD := b)"
    using bh by (auto simp: fun_eq_iff)
  have c: "core (?B4 i) = core (?B i)" for i by (simp only: core_upd_at)
  have fr: "?t = s\<lparr>hw := hw ?t, slocks := slocks ?t, bufs := bufs ?t\<rparr>" by (auto intro!: disk_state.equality)
  show ?thesis
  proof (intro exI [of _ ?t] conjI)
    show "lpath (\<lambda>i. b_next (bufs ?t i)) HEAD (b # xs) HEAD" "lpath (\<lambda>i. b_prev (bufs ?t i)) HEAD (rev (b # xs)) HEAD"
      using lpath_insert [OF assms] unfolding f [symmetric] g [symmetric] by (simp_all del: fun_upd_apply)
    show "\<forall>i. core (bufs ?t i) = core (bufs s i)" using c by (simp del: fun_upd_apply)
  qed (use run fr in \<open>simp_all del: fun_upd_apply\<close>)
qed

lemma binit_loop:
  assumes "lpath (\<lambda>i. b_next (bufs s i)) HEAD xs HEAD" and "lpath (\<lambda>i. b_prev (bufs s i)) HEAD (rev xs) HEAD"
    and "distinct (HEAD # ys @ xs)"
  shows "\<exists>t. for_each ys binit_one s = Ok () t \<and> lpath (\<lambda>i. b_next (bufs t i)) HEAD (rev ys @ xs) HEAD \<and>
    lpath (\<lambda>i. b_prev (bufs t i)) HEAD (rev (rev ys @ xs)) HEAD \<and> (\<forall>i. core (bufs t i) = core (bufs s i)) \<and>
    t = s\<lparr>hw := hw t, slocks := slocks t, bufs := bufs t\<rparr> \<and> (\<forall>b\<in>set ys. \<not> sl_locked (slocks t (Sl_buf b))) \<and>
    (\<forall>l. l \<notin> Sl_buf ` set ys \<longrightarrow> slocks t l = slocks s l)"
  using assms
proof (induction ys arbitrary: s xs)
  case Nil
  then show ?case by (simp add: ret_def)
next
  case (Cons y ys)
  have "distinct (HEAD # y # xs)" using Cons.prems(3) by auto
  then obtain t where t: "binit_one y s = Ok () t" "lpath (\<lambda>i. b_next (bufs t i)) HEAD (y # xs) HEAD"
    "lpath (\<lambda>i. b_prev (bufs t i)) HEAD (rev (y # xs)) HEAD" "\<forall>i. core (bufs t i) = core (bufs s i)"
    "t = s\<lparr>hw := hw t, slocks := slocks t, bufs := bufs t\<rparr>"
    "slocks t = (slocks s)(Sl_buf y := (slocks s (Sl_buf y))\<lparr>sl_name := ''buffer'', sl_locked := False, sl_pid := 0\<rparr>)"
    using binit_one_run [OF Cons.prems(1,2)] by blast
  have "distinct (HEAD # ys @ y # xs)" using Cons.prems(3) by auto
  then obtain u where u: "for_each ys binit_one t = Ok () u" "lpath (\<lambda>i. b_next (bufs u i)) HEAD (rev ys @ y # xs) HEAD"
    "lpath (\<lambda>i. b_prev (bufs u i)) HEAD (rev (rev ys @ y # xs)) HEAD" "\<forall>i. core (bufs u i) = core (bufs t i)"
    "u = t\<lparr>hw := hw u, slocks := slocks u, bufs := bufs u\<rparr>" "\<forall>b\<in>set ys. \<not> sl_locked (slocks u (Sl_buf b))"
    "\<forall>l. l \<notin> Sl_buf ` set ys \<longrightarrow> slocks u l = slocks t l"
    using Cons.IH [OF t(2,3)] by blast
  have "u = s\<lparr>hw := hw u, slocks := slocks u, bufs := bufs u\<rparr>" by (subst u(5), subst t(5)) simp
  moreover have "slocks u (Sl_buf y) = slocks t (Sl_buf y)" using u(7) Cons.prems(3) by auto
  moreover have "\<forall>l. l \<notin> Sl_buf ` set (y # ys) \<longrightarrow> slocks u l = slocks s l" using u(7) t(6) by auto
  ultimately show ?case using t(1,4,6) u by (simp add: andthen_apply)
qed

lemma binit_ok:
  assumes "\<And>i. i < NBUF \<Longrightarrow> b_dev (bufs s i) = 0 \<and> b_refcnt (bufs s i) = 0 \<and> length (b_data (bufs s i)) = BSIZE"
    and "\<And>n. length (dblk s n) = BSIZE"
  shows "\<exists>t. binit s = Ok () t \<and> bcache_ok t \<and> ring (bufs t) (rev [0..<NBUF]) \<and> (\<forall>n. v_blk (bview_of t) n = dblk s n \<and> v_slot (bview_of t) n = None)"
proof -
  let ?B = "(bufs s)(HEAD := (bufs s HEAD)\<lparr>b_prev := HEAD, b_next := HEAD\<rparr>)"
  let ?s = "s\<lparr>hw := hw_initlock Lk_bcache ''bcache'' (hw s), bufs := ?B\<rparr>"
  have d: "distinct (HEAD # [0..<NBUF] @ [])" by simp
  obtain t where t: "for_each [0..<NBUF] binit_one ?s = Ok () t" "lpath (\<lambda>i. b_next (bufs t i)) HEAD (rev [0..<NBUF] @ []) HEAD"
    "lpath (\<lambda>i. b_prev (bufs t i)) HEAD (rev (rev [0..<NBUF] @ [])) HEAD" "\<forall>i. core (bufs t i) = core (bufs ?s i)"
    "t = ?s\<lparr>hw := hw t, slocks := slocks t, bufs := bufs t\<rparr>" "\<forall>b\<in>set [0..<NBUF]. \<not> sl_locked (slocks t (Sl_buf b))"
    using binit_loop [OF _ _ d, of ?s] by auto
  have run: "binit s = Ok () t" using t(1) by (simp add: binit_def initlock_def on_buf_def andthen_apply modify_def)
  have r: "ring (bufs t) (rev [0..<NBUF])" using t(2,3) by (simp add: ring_def del: upt_rec_numeral)
  have c: "b_dev (bufs t i) = 0" "b_refcnt (bufs t i) = 0" "length (b_data (bufs t i)) = BSIZE" if "i < NBUF" for i
    using core_eqD [OF spec [OF t(4)], of i] assms(1) [OF that] that by simp_all
  have dk: "dblk t n = dblk s n" for n by (subst t(5)) (simp add: dblk_def)
  have "cell_ok t i" if "i < NBUF" for i using c [OF that] t(6) that by (simp add: cell_ok_def Let_def)
  moreover have "one_each (bufs t)" using c by (simp add: one_each_def)
  ultimately have ok: "bcache_ok t" using r dk assms(2) unfolding bcache_ok_def by auto
  have "bslot t n = None" for n using c by (auto simp: bslot_None)
  then have "v_blk (bview_of t) n = dblk s n \<and> v_slot (bview_of t) n = None" for n using dk by (simp add: bview_of_def)
  then show ?thesis using run ok r by blast
qed

text \<open>A cache that holds no block yet.\<close>

lemma bio_boot:
  assumes "fs_quiet p s" and "ring (bufs s) xs" and "\<And>n. length (dblk s n) = BSIZE"
    and "\<And>i. i < NBUF \<Longrightarrow> b_dev (bufs s i) = 0 \<and> b_refcnt (bufs s i) = 0 \<and> length (b_data (bufs s i)) = BSIZE \<and> \<not> sl_locked (slocks s (Sl_buf i))"
  shows "bio p s (bview_of s)" and "v_slot (bview_of s) n = None" and "v_refs (bview_of s) n = 0" and "v_lock (bview_of s) n = None"
    and "v_blk (bview_of s) = dblk s"
proof -
  have "cell_ok s i" if "i < NBUF" for i using assms(4) [OF that] by (simp add: cell_ok_def Let_def)
  moreover have "one_each (bufs s)" using assms(4) by (simp add: one_each_def)
  ultimately show "bio p s (bview_of s)" using assms(1-3) by (auto simp: bio_def bcache_ok_def)
  have b: "bslot s n = None" for n using assms(4) by (auto simp: bslot_None)
  then show "v_slot (bview_of s) n = None" and "v_refs (bview_of s) n = 0" and "v_lock (bview_of s) n = None"
    and "v_blk (bview_of s) = dblk s" by (simp_all add: bview_of_def)
qed

section \<open>Properties\<close>

text \<open>
  C6: the buffer cache implements a store of blocks. The view of a state is the contents of every block, the
  blocks in use with their reference counts, and who has each block locked; it does not say which blocks are in
  memory. When no buffer lock is waited for and the disk answers, \<open>bread\<close> returns a locked buffer with the
  contents of the block, whether it was cached, was still valid in an unused buffer or had to be read into a
  recycled one, and leaves the contents of every block as they were; a change of the data of that buffer changes
  that block alone; \<open>bwrite\<close> appends exactly one write of these contents to the disk; \<open>brelse\<close> unlocks the block and
  drops one reference, and a block whose last reference goes must be on the disk already; \<open>bpin\<close> and \<open>bunpin\<close>
  change the reference count alone. Every one of them keeps the invariant of the cache: its buffers form one
  doubly linked ring, no block is in two buffers, and every unused valid buffer is a copy of its disk block.\<close>

theorem buffer_cache_refines:
  assumes "bio p s v" and "me = p_pid (procs s p)"
  shows "(n < 0x80000000 \<and> v_lock v n = None \<and> vcap v n \<longrightarrow>
      (\<exists>b t. bread 1 n s = Ok b t \<and> bio p t (v_get n b me v) \<and> b_data (bufs t b) = v_blk v n \<and> disk_wr t = disk_wr s)) \<and>
    (v_slot v n = Some b \<and> v_lock v n = Some me \<longrightarrow>
      (length d = BSIZE \<longrightarrow> (\<exists>t. on_buf b (\<lambda>x. x\<lparr>b_data := d\<rparr>) s = Ok () t \<and> bio p t (v\<lparr>v_blk := (v_blk v)(n := d)\<rparr>) \<and> disk_wr t = disk_wr s)) \<and>
      (\<exists>t. bwrite b s = Ok () t \<and> bio p t v \<and> disk_wr t = (unat n, v_blk v n) # disk_wr s) \<and>
      (v_refs v n \<noteq> 1 \<or> v_blk v n = dblk s n \<longrightarrow> (\<exists>t. brelse b s = Ok () t \<and> bio p t (v_put n v) \<and> disk_wr t = disk_wr s)) \<and>
      (v_refs v n + 1 < 2 ^ 32 \<longrightarrow> (\<exists>t. bpin b s = Ok () t \<and> bio p t (v_pin n v) \<and> disk_wr t = disk_wr s)) \<and>
      (1 < v_refs v n \<longrightarrow> (\<exists>t. bunpin b s = Ok () t \<and> bio p t (v_unpin n v) \<and> disk_wr t = disk_wr s)))"
proof (intro conjI impI)
  assume "n < 0x80000000 \<and> v_lock v n = None \<and> vcap v n"
  then obtain b t where t: "bread 1 n s = Ok b t" "bio p t (v_get n b me v)" "disk_wr t = disk_wr s"
    using bread_spec [OF assms(1), of n] assms(2) by auto
  then show "\<exists>b t. bread 1 n s = Ok b t \<and> bio p t (v_get n b me v) \<and> b_data (bufs t b) = v_blk v n \<and> disk_wr t = disk_wr s"
    using bio_slot(7) [OF t(2), of n b] by (auto simp: v_get_def)
next
  assume "v_slot v n = Some b \<and> v_lock v n = Some me" and d: "length d = BSIZE"
  then show "\<exists>t. on_buf b (\<lambda>x. x\<lparr>b_data := d\<rparr>) s = Ok () t \<and> bio p t (v\<lparr>v_blk := (v_blk v)(n := d)\<rparr>) \<and> disk_wr t = disk_wr s"
    using b_data_spec [OF assms(1), of n b "\<lambda>_. d"] by (simp add: on_buf_def modify_def)
qed (use bwrite_spec [OF assms(1)] brelse_spec [OF assms(1)] bpin_spec [OF assms(1)] bunpin_spec [OF assms(1)] assms(2) in \<open>blast+\<close>)

text \<open>The buffers linked in order.\<close>

definition bcache_st0 :: disk_state where
  "bcache_st0 = disk_st0\<lparr>bufs := (\<lambda>i. buf0\<lparr>b_next := (if i = HEAD then 0 else i + 1), b_prev := (if i = 0 then HEAD else i - 1)\<rparr>)\<rparr>"

lemma bcache_st0_ring: "ring (bufs bcache_st0) [0..<NBUF]"
  by (simp add: ring_def bcache_st0_def upt_rec set_upt [symmetric] del: set_upt)

lemma bcache_st0_buf: "b_dev (bufs bcache_st0 i) = 0 \<and> b_refcnt (bufs bcache_st0 i) = 0 \<and> length (b_data (bufs bcache_st0 i)) = BSIZE \<and>
    \<not> sl_locked (slocks bcache_st0 (Sl_buf i))"
  by (simp add: bcache_st0_def buf0_def disk_st0_def sl_state.extend_def)

lemma bcache_st0_disk: "dblk bcache_st0 n = replicate BSIZE 0"
  by (simp add: dblk_def bcache_st0_def disk_st0_def sl_state.extend_def disk_get_def)

lemma bcache_st0_quiet: "fs_quiet 0 bcache_st0"
  using disk_st0_quiet by (simp add: bcache_st0_def fs_quiet_def running_def)

lemma bcache_st0_bio: "bio 0 bcache_st0 (bview_of bcache_st0)"
  by (rule bio_boot [OF bcache_st0_quiet bcache_st0_ring]) (simp_all add: bcache_st0_disk bcache_st0_buf)

lemma bcache_st0_view [simp]:
  "v_slot (bview_of bcache_st0) n = None" "v_lock (bview_of bcache_st0) n = None" "v_refs (bview_of bcache_st0) n = 0"
  "v_blk (bview_of bcache_st0) n = replicate BSIZE 0"
  using bio_boot(2-5) [OF bcache_st0_quiet bcache_st0_ring] by (simp_all add: bcache_st0_disk bcache_st0_buf)

theorem buffer_cache_refines_witness:
  "\<exists>b t. bread 1 7 bcache_st0 = Ok b t \<and> v_refs (bview_of t) 7 = 1 \<and> b_data (bufs t b) = replicate BSIZE 0"
proof -
  have "dom (v_slot (bview_of bcache_st0)) = {}" by auto
  then have "vcap (bview_of bcache_st0) 7" by (simp add: vcap_def)
  then obtain b t where t: "bread 1 7 bcache_st0 = Ok b t" "bio 0 t (v_get 7 b (p_pid (procs bcache_st0 0)) (bview_of bcache_st0))"
    "b_data (bufs t b) = replicate BSIZE 0"
    using buffer_cache_refines [OF bcache_st0_bio refl, of 7] by auto
  then show ?thesis by (auto simp: bioD(4) [OF t(2), symmetric] v_get_def)
qed



end
