(* ===== verification/Block_Tx.thy ===== *)
theory Block_Tx
  imports Xv6_Prelude
begin

text \<open>
  The interface between the file system and the layers below it, as \<open>kernel/fs.c\<close> uses it inside a transaction:
  \<open>bread\<close>, writing to the data of a buffer, \<open>log_write\<close> and \<open>brelse\<close>. The blocks are a map \<open>B\<close> from block numbers to contents;
  \<open>H\<close> says which of them the caller holds, in which buffer. A block may be released when it has been passed to
  \<open>log_write\<close> or when it has not changed.
\<close>

locale block_tx =
  fixes inv :: "'s \<Rightarrow> (u32 \<Rightarrow> byte list) \<Rightarrow> (u32 \<Rightarrow> nat option) \<Rightarrow> bool"
    and logged :: "'s \<Rightarrow> u32 set"
    and disk :: "'s \<Rightarrow> u32 \<Rightarrow> byte list"
    and lim :: "'s \<Rightarrow> nat"
    and legal :: "'s \<Rightarrow> u32 \<Rightarrow> bool"
    and frame :: "'s \<Rightarrow> 's \<Rightarrow> bool"
    and rd :: "u32 \<Rightarrow> (nat, 's) kop"
    and data :: "'s \<Rightarrow> nat \<Rightarrow> byte list"
    and upd :: "nat \<Rightarrow> (byte list \<Rightarrow> byte list) \<Rightarrow> (unit, 's) kop"
    and lw :: "nat \<Rightarrow> (unit, 's) kop"
    and rel :: "nat \<Rightarrow> (unit, 's) kop"
    and nbuf bsize :: nat
  assumes rd_law: "inv s B H \<Longrightarrow> H n = None \<Longrightarrow> legal s n \<Longrightarrow> card (logged s) + card (dom H) < nbuf \<Longrightarrow>
      \<exists>b t. rd n s = Ok b t \<and> inv t B (H(n \<mapsto> b)) \<and> data t b = B n \<and> frame s t \<and> logged t = logged s"
    and upd_law: "inv s B H \<Longrightarrow> H n = Some b \<Longrightarrow> length (f (B n)) = bsize \<Longrightarrow>
      \<exists>t. upd b f s = Ok () t \<and> inv t (B(n := f (B n))) H \<and> frame s t \<and> logged t = logged s"
    and lw_law: "inv s B H \<Longrightarrow> H n = Some b \<Longrightarrow> card (logged s) < lim s \<Longrightarrow>
      \<exists>t. lw b s = Ok () t \<and> inv t B H \<and> frame s t \<and> logged t = insert n (logged s)"
    and rel_law: "inv s B H \<Longrightarrow> H n = Some b \<Longrightarrow> n \<in> logged s \<or> B n = disk s n \<Longrightarrow>
      \<exists>t. rel b s = Ok () t \<and> inv t B (H(n := None)) \<and> frame s t \<and> logged t = logged s"
    and clean: "inv s B H \<Longrightarrow> H n = None \<Longrightarrow> n \<notin> logged s \<Longrightarrow> B n = disk s n"
    and data_law: "inv s B H \<Longrightarrow> H n = Some b \<Longrightarrow> data s b = B n"
    and len_law: "inv s B H \<Longrightarrow> length (B n) = bsize"
    and frame_refl: "frame s s"
    and frame_trans: "frame s t \<Longrightarrow> frame t u \<Longrightarrow> frame s u"
    and frame_same: "frame s t \<Longrightarrow> disk t = disk s \<and> lim t = lim s \<and> legal t = legal s"
begin

text \<open>Reading a block and releasing it.\<close>

lemma fetch:
  assumes "inv s B H" and "H n = None" and "legal s n" and "card (logged s) + card (dom H) < nbuf"
  shows "\<exists>b t u. rd n s = Ok b t \<and> data t b = B n \<and> inv t B (H(n \<mapsto> b)) \<and> frame s t \<and> logged t = logged s \<and>
    rel b t = Ok () u \<and> inv u B H \<and> frame s u \<and> logged u = logged s"
proof -
  obtain b t where t: "rd n s = Ok b t" "inv t B (H(n \<mapsto> b))" "data t b = B n" "frame s t" "logged t = logged s"
    using rd_law [OF assms] by blast
  have "n \<in> logged t \<or> B n = disk t n" using clean [OF assms(1,2)] frame_same [OF t(4)] t(5) by auto
  then obtain u where u: "rel b t = Ok () u" "inv u B ((H(n \<mapsto> b))(n := None))" "frame t u" "logged u = logged t"
    using rel_law [OF t(2), of n b] by auto
  have "(H(n \<mapsto> b))(n := None) = H" using assms(2) by auto
  then have "inv u B H" using u(2) by simp
  then show ?thesis using t u(1,4) frame_trans [OF t(4) u(3)] by auto
qed

text \<open>Changing a block that is held and passing it to the log.\<close>

lemma change:
  assumes "inv s B H" and "H n = Some b" and "length (f (B n)) = bsize" and "card (logged s) < lim s"
  shows "\<exists>t u. upd b f s = Ok () t \<and> lw b t = Ok () u \<and> inv u (B(n := f (B n))) H \<and> frame s u \<and> logged u = insert n (logged s)"
proof -
  obtain t where t: "upd b f s = Ok () t" "inv t (B(n := f (B n))) H" "frame s t" "logged t = logged s"
    using upd_law [OF assms(1,2), of f] assms(3) by blast
  obtain u where u: "lw b t = Ok () u" "inv u (B(n := f (B n))) H" "frame t u" "logged u = insert n (logged t)"
    using lw_law [OF t(2) assms(2)] assms(4) t(4) frame_same [OF t(3)] by auto
  show ?thesis using t u frame_trans [OF t(3) u(3)] by auto
qed

text \<open>Reading, changing, logging and releasing a block.\<close>

lemma update:
  assumes "inv s B H" and "H n = None" and "legal s n" and "card (logged s) + card (dom H) < nbuf" and "card (logged s) < lim s"
    and "length (f (B n)) = bsize"
  shows "\<exists>b t1 t2 t3 t4. rd n s = Ok b t1 \<and> data t1 b = B n \<and> frame s t1 \<and> upd b f t1 = Ok () t2 \<and> lw b t2 = Ok () t3 \<and> rel b t3 = Ok () t4 \<and>
    inv t4 (B(n := f (B n))) H \<and> frame s t4 \<and> logged t4 = insert n (logged s)"
proof -
  obtain b t1 where t1: "rd n s = Ok b t1" "inv t1 B (H(n \<mapsto> b))" "data t1 b = B n" "frame s t1" "logged t1 = logged s"
    using rd_law [OF assms(1-4)] by blast
  obtain t2 t3 where t3: "upd b f t1 = Ok () t2" "lw b t2 = Ok () t3" "inv t3 (B(n := f (B n))) (H(n \<mapsto> b))" "frame t1 t3"
    "logged t3 = insert n (logged t1)"
    using change [OF t1(2), of n b f] assms(5,6) t1(5) frame_same [OF t1(4)] by auto
  obtain t4 where t4: "rel b t3 = Ok () t4" "inv t4 (B(n := f (B n))) ((H(n \<mapsto> b))(n := None))" "frame t3 t4" "logged t4 = logged t3"
    using rel_law [OF t3(3), of n b] t3(5) by auto
  have "(H(n \<mapsto> b))(n := None) = H" using assms(2) by auto
  then have i: "inv t4 (B(n := f (B n))) H" using t4(2) by simp
  have fr: "frame s t4" using frame_trans [OF frame_trans [OF t1(4) t3(4)] t4(3)] .
  show ?thesis using t1(1,3,4,5) t3(1,2,5) t4(1,4) i fr by fastforce
qed

end

end
