(* ===== verification/Log.thy ===== *)
theory Log
  imports Bio Block_Tx
begin

text \<open>
  \<open>kernel/log.c\<close>: the write-ahead log. The in-memory header is a count and a table of block numbers; the loops
  over the header run over the count it has when they start, which they do not change. \<open>begin_op_loop\<close> is the body
  of the loop of \<open>begin_op\<close> with the log lock held; a process that waits there goes on with \<open>begin_op_resume\<close>.
\<close>

section \<open>Data\<close>

record superblock =
  sb_magic :: u32
  sb_size :: u32
  sb_nblocks :: u32
  sb_ninodes :: u32
  sb_nlog :: u32
  sb_logstart :: u32
  sb_inodestart :: u32
  sb_bmapstart :: u32

record log_rec =
  l_start :: u32
  l_size :: u32
  l_outstanding :: u32
  l_committing :: bool
  l_dev :: u32
  lh_n :: u32
  lh_block :: "nat \<Rightarrow> u32"

record log_state = disk_state +
  logr :: log_rec

definition on_log :: "(log_rec \<Rightarrow> log_rec) \<Rightarrow> (unit, 'x log_state_scheme) kop" where
  "on_log f = modify (\<lambda>s. s\<lparr>logr := f (logr s)\<rparr>)"

section \<open>Code\<close>

definition install_one :: "nat \<Rightarrow> (unit, 'x log_state_scheme) kop" where
  "install_one tail =
     bind (gets logr) (\<lambda>l.
     bind (bread (l_dev l) (l_start l + of_nat tail + 1)) (\<lambda>lbuf.
     bind (gets (\<lambda>s. lh_block (logr s) tail)) (\<lambda>bno.
     bind (bread (l_dev l) bno) (\<lambda>dbuf.
     bind (gets (\<lambda>s. b_data (bufs s lbuf))) (\<lambda>d.
     andthen (on_buf dbuf (\<lambda>x. x\<lparr>b_data := d\<rparr>)) (
     andthen (bwrite dbuf) (
     andthen (bunpin dbuf) (
     andthen (brelse lbuf) (
     brelse dbuf)))))))))"

definition install_trans :: "(unit, 'x log_state_scheme) kop" where
  "install_trans = bind (gets (\<lambda>s. lh_n (logr s))) (\<lambda>n. for_each [0..<nat (sint n)] install_one)"

definition read_head :: "(unit, 'x log_state_scheme) kop" where
  "read_head =
     bind (gets logr) (\<lambda>l.
     bind (bread (l_dev l) (l_start l)) (\<lambda>b.
     bind (gets (\<lambda>s. b_data (bufs s b))) (\<lambda>lh.
     andthen (on_log (\<lambda>l. l\<lparr>lh_n := rd32 lh 0\<rparr>)) (
     andthen (for_each [0..<nat (sint (rd32 lh 0))] (\<lambda>i.
       on_log (\<lambda>l. l\<lparr>lh_block := (lh_block l)(i := rd32 lh (4 + 4 * i))\<rparr>))) (
     brelse b)))))"

definition write_head :: "(unit, 'x log_state_scheme) kop" where
  "write_head =
     bind (gets logr) (\<lambda>l.
     bind (bread (l_dev l) (l_start l)) (\<lambda>b.
     andthen (on_buf b (\<lambda>x. x\<lparr>b_data := wr32 (b_data x) 0 (lh_n l)\<rparr>)) (
     andthen (for_each [0..<nat (sint (lh_n l))] (\<lambda>i.
       on_buf b (\<lambda>x. x\<lparr>b_data := wr32 (b_data x) (4 + 4 * i) (lh_block l i)\<rparr>))) (
     andthen (bwrite b) (
     brelse b)))))"

definition recover_from_log :: "(unit, 'x log_state_scheme) kop" where
  "recover_from_log =
     andthen read_head (
     andthen install_trans (
     andthen (on_log (\<lambda>l. l\<lparr>lh_n := 0\<rparr>)) (
     write_head)))"

text \<open>\<open>struct logheader\<close> is 124 bytes, so the size check of \<open>initlog\<close> never fails.\<close>

definition initlog :: "u32 \<Rightarrow> superblock \<Rightarrow> (unit, 'x log_state_scheme) kop" where
  "initlog dev sb =
     andthen (panic_if ((4::nat) + 4 * LOGSIZE \<ge> BSIZE) ''initlog: too big logheader'') (
     andthen (initlock Lk_log ''log'') (
     andthen (on_log (\<lambda>l. l\<lparr>l_start := sb_logstart sb, l_size := sb_nlog sb, l_dev := dev\<rparr>)) (
     recover_from_log)))"

definition begin_op_loop :: "(unit, 'x log_state_scheme) kop" where
  "begin_op_loop =
     bind (gets logr) (\<lambda>l.
     if l_committing l then sleep Ch_log Lk_log
     else if sint (lh_n l + (l_outstanding l + 1) * of_nat MAXOPBLOCKS) > int LOGSIZE then sleep Ch_log Lk_log
     else andthen (on_log (\<lambda>l. l\<lparr>l_outstanding := l_outstanding l + 1\<rparr>)) (release Lk_log))"

definition begin_op :: "(unit, 'x log_state_scheme) kop" where
  "begin_op = andthen (acquire Lk_log) begin_op_loop"

definition begin_op_resume :: "bool \<Rightarrow> (unit, 'x log_state_scheme) kop" where
  "begin_op_resume ie = andthen (sleep_resume Lk_log ie) begin_op_loop"

definition write_log_one :: "nat \<Rightarrow> (unit, 'x log_state_scheme) kop" where
  "write_log_one tail =
     bind (gets logr) (\<lambda>l.
     bind (bread (l_dev l) (l_start l + of_nat tail + 1)) (\<lambda>to.
     bind (bread (l_dev l) (lh_block l tail)) (\<lambda>from.
     bind (gets (\<lambda>s. b_data (bufs s from))) (\<lambda>d.
     andthen (on_buf to (\<lambda>x. x\<lparr>b_data := d\<rparr>)) (
     andthen (bwrite to) (
     andthen (brelse from) (
     brelse to)))))))"

definition write_log :: "(unit, 'x log_state_scheme) kop" where
  "write_log = bind (gets (\<lambda>s. lh_n (logr s))) (\<lambda>n. for_each [0..<nat (sint n)] write_log_one)"

definition commit :: "(unit, 'x log_state_scheme) kop" where
  "commit =
     bind (gets (\<lambda>s. lh_n (logr s))) (\<lambda>n.
     if sint n > 0 then
       andthen write_log (
       andthen write_head (
       andthen install_trans (
       andthen (on_log (\<lambda>l. l\<lparr>lh_n := 0\<rparr>)) (
       write_head))))
     else ret ())"

definition end_op :: "(unit, 'x log_state_scheme) kop" where
  "end_op =
     andthen (acquire Lk_log) (
     andthen (on_log (\<lambda>l. l\<lparr>l_outstanding := l_outstanding l - 1\<rparr>)) (
     bind (gets logr) (\<lambda>l.
     andthen (panic_if (l_committing l) ''log.committing'') (
     if l_outstanding l = 0 then
       andthen (on_log (\<lambda>l. l\<lparr>l_committing := True\<rparr>)) (
       andthen (release Lk_log) (
       andthen commit (
       andthen (acquire Lk_log) (
       andthen (on_log (\<lambda>l. l\<lparr>l_committing := False\<rparr>)) (
       andthen (wakeup Ch_log) (
       release Lk_log))))))
     else
       andthen (wakeup Ch_log) (
       release Lk_log)))))"

definition log_slot :: "log_rec \<Rightarrow> u32 \<Rightarrow> nat" where
  "log_slot l bno = (case find (\<lambda>i. lh_block l i = bno) [0..<nat (sint (lh_n l))] of Some i \<Rightarrow> i | None \<Rightarrow> nat (sint (lh_n l)))"

definition log_write :: "nat \<Rightarrow> (unit, 'x log_state_scheme) kop" where
  "log_write b =
     bind (gets logr) (\<lambda>l.
     andthen (panic_if (sint (lh_n l) \<ge> int LOGSIZE \<or> sint (lh_n l) \<ge> sint (l_size l - 1)) ''too big a transaction'') (
     andthen (panic_if (sint (l_outstanding l) < 1) ''log_write outside of trans'') (
     andthen (acquire Lk_log) (
     bind (gets (\<lambda>s. b_blockno (bufs s b))) (\<lambda>bno.
     bind (gets (\<lambda>s. log_slot (logr s) bno)) (\<lambda>i.
     andthen (on_log (\<lambda>l. l\<lparr>lh_block := (lh_block l)(i := bno)\<rparr>)) (
     bind (gets (\<lambda>s. lh_n (logr s))) (\<lambda>n.
     andthen
       (if int i = sint n then andthen (bpin b) (on_log (\<lambda>l. l\<lparr>lh_n := lh_n l + 1\<rparr>)) else ret ()) (
     release Lk_log)))))))))"

section \<open>Laws\<close>

lemma bio_frame_log:
  fixes s :: "'x log_state_scheme"
  assumes "bio_frame s t"
  shows "logr t = logr s" "procs t = procs s"
proof -
  have t: "t = s\<lparr>hw := hw t, slocks := slocks t, bufs := bufs t, vd := vd t, disk_wr := disk_wr t\<rparr>"
    using assms by (simp add: bio_frame_def)
  show "logr t = logr s" "procs t = procs s" by (subst t, simp)+
qed

lemma on_buf_data:
  assumes "bio p s v" and "v_slot v n = Some b" and "length d = BSIZE"
  shows "\<exists>t. on_buf b (\<lambda>x. x\<lparr>b_data := d\<rparr>) s = Ok () t \<and> bio p t (v\<lparr>v_blk := (v_blk v)(n := d)\<rparr>) \<and> bio_frame s t \<and> disk_wr t = disk_wr s"
  using b_data_spec [OF assms(1,2), of "\<lambda>_. d"] assms(3)
  by (auto simp: on_buf_def modify_def bio_frame_def intro!: disk_state.equality)

lemma write_log_one_spec:
  fixes s :: "'x log_state_scheme"
  assumes "bio p s v" and l: "l_dev (logr s) = 1" "a = l_start (logr s) + of_nat i + 1" "n = lh_block (logr s) i"
    and "a < 0x80000000" "v_slot v a = None" "card (dom (v_slot v)) < NBUF"
    and "v_slot v n \<noteq> None" "v_lock v n = None" "v_refs v n + 1 < 2 ^ 32"
  shows "\<exists>t. write_log_one i s = Ok () t \<and> bio p t (v\<lparr>v_blk := (v_blk v)(a := v_blk v n)\<rparr>) \<and> bio_frame s t \<and>
    disk_wr t = (unat a, v_blk v n) # disk_wr s"
proof -
  let ?me = "p_pid (procs s p)"
  have an: "n \<noteq> a" using assms(6,8) by auto
  have na: "n < 0x80000000" "0 < v_refs v n" using bio_slot(9,10) [OF assms(1)] assms(8) by blast+
  obtain to s1 where s1: "bread 1 a s = Ok to s1" "bio p s1 (v_get a to ?me v)" "bio_frame s s1" "disk_wr s1 = disk_wr s"
    using bread_spec [OF assms(1,5)] bio_unused [OF assms(1,6)] assms(7) by (auto simp: vcap_def)
  note f1 = bio_frame_log [OF s1(3)]
  let ?v1 = "v_get a to ?me v"
  obtain fr s2 where s2: "bread 1 n s1 = Ok fr s2" "bio p s2 (v_get n fr ?me ?v1)" "bio_frame s1 s2" "disk_wr s2 = disk_wr s1"
    "\<And>c. v_slot v n = Some c \<Longrightarrow> fr = c"
    using bread_spec [OF s1(2) na(1)] assms(8-10) an f1 by (auto simp: vcap_def)
  note f2 = bio_frame_log [OF s2(3)]
  let ?v2 = "v_get n fr ?me ?v1"
  have d: "b_data (bufs s2 fr) = v_blk v n" using bio_slot(7) [OF s2(2), of n fr] by simp
  obtain s3 where s3: "on_buf to (\<lambda>x. x\<lparr>b_data := v_blk v n\<rparr>) s2 = Ok () s3" "bio p s3 (?v2\<lparr>v_blk := (v_blk v)(a := v_blk v n)\<rparr>)"
    "bio_frame s2 s3" "disk_wr s3 = disk_wr s2"
    using on_buf_data [OF s2(2), of a to "v_blk v n"] bio_blk_len [OF assms(1), of n] an by auto
  note f3 = bio_frame_log [OF s3(3)]
  let ?v3 = "?v2\<lparr>v_blk := (v_blk v)(a := v_blk v n)\<rparr>"
  obtain s4 where s4: "bwrite to s3 = Ok () s4" "bio p s4 ?v3" "bio_frame s3 s4" "disk_wr s4 = (unat a, v_blk v n) # disk_wr s3"
    using bwrite_spec [OF s3(2), of a to] an f1 f2 f3 by auto
  note f4 = bio_frame_log [OF s4(3)]
  obtain s5 where s5: "brelse fr s4 = Ok () s5" "bio p s5 (v_put n ?v3)" "bio_frame s4 s5" "disk_wr s5 = disk_wr s4"
    using brelse_spec [OF s4(2), of n fr] na(2) f1 f2 f3 f4 an by auto
  note f5 = bio_frame_log [OF s5(3)]
  have dk: "dblk s5 a = v_blk v n" using s5(4) s4(4) bio_frameD(2) [OF s5(3)] by (simp add: dblk_def)
  obtain s6 where s6: "brelse to s5 = Ok () s6" "bio p s6 (v_put a (v_put n ?v3))" "bio_frame s5 s6" "disk_wr s6 = disk_wr s5"
    using brelse_spec [OF s5(2), of a to] dk f1 f2 f3 f4 f5 an by auto
  have "v_put a (v_put n ?v3) = v\<lparr>v_blk := (v_blk v)(a := v_blk v n)\<rparr>"
    using an assms(6,8,9) s2(5) bio_unused [OF assms(1,6)] na(2) by (intro bview_eqI) auto
  moreover have "write_log_one i s = Ok () s6" using l s1(1) s2(1) s3(1) s4(1) s5(1) s6(1) d f1
    by (simp add: write_log_one_def bind_apply andthen_apply)
  moreover have "bio_frame s s6" using s1(3) s2(3) s3(3) s4(3) s5(3) s6(3) bio_frame_trans by blast
  ultimately show ?thesis using s1(4) s2(4) s3(4) s4(4) s5(4) s6(2,4) by auto
qed

text \<open>\<open>install_one\<close> up to the write: both buffers held, the log block on the disk at its home.\<close>

lemma install_copy:
  fixes s :: "'x log_state_scheme"
  assumes "bio p s v" and l: "l_dev (logr s) = 1" "a = l_start (logr s) + of_nat i + 1" "n = lh_block (logr s) i"
    and ab: "a < 0x80000000" "v_slot v a = None" "card (dom (v_slot v)) < NBUF"
    and nb: "n < 0x80000000" "a \<noteq> n" "v_lock v n = None" "v_refs v n + 1 < 2 ^ 32" "v_slot v n \<noteq> None \<or> card (dom (v_slot v)) + 1 < NBUF"
    and me: "me = p_pid (procs s p)"
  shows "\<exists>lb db t. install_one i s = andthen (bunpin db) (andthen (brelse lb) (brelse db)) t \<and>
    bio p t ((v_get n db me (v_get a lb me v))\<lparr>v_blk := (v_blk v)(n := v_blk v a)\<rparr>) \<and> bio_frame s t \<and>
    disk_wr t = (unat n, v_blk v a) # disk_wr s \<and> (\<forall>c. v_slot v n = Some c \<longrightarrow> db = c)"
proof -
  obtain lb s1 where s1: "bread 1 a s = Ok lb s1" "bio p s1 (v_get a lb me v)" "bio_frame s s1" "disk_wr s1 = disk_wr s"
    using bread_spec [OF assms(1) ab(1)] bio_unused [OF assms(1) ab(2)] ab(3) me by (auto simp: vcap_def)
  note f1 = bio_frame_log [OF s1(3)]
  let ?v1 = "v_get a lb me v"
  have "vcap ?v1 n" using nb(2,4,5) ab(2) by (auto simp: vcap_def card_insert_if domIff)
  then obtain db s2 where s2: "bread 1 n s1 = Ok db s2" "bio p s2 (v_get n db me ?v1)" "bio_frame s1 s2" "disk_wr s2 = disk_wr s1"
    "\<And>c. v_slot v n = Some c \<Longrightarrow> db = c"
    using bread_spec [OF s1(2) nb(1)] nb(2,3) f1 me by auto
  note f2 = bio_frame_log [OF s2(3)]
  have d: "b_data (bufs s2 lb) = v_blk v a" using bio_slot(7) [OF s2(2), of a lb] nb(2) by simp
  let ?v3 = "(v_get n db me ?v1)\<lparr>v_blk := (v_blk v)(n := v_blk v a)\<rparr>"
  obtain s3 where s3: "on_buf db (\<lambda>x. x\<lparr>b_data := v_blk v a\<rparr>) s2 = Ok () s3" "bio p s3 ?v3"
    "bio_frame s2 s3" "disk_wr s3 = disk_wr s2"
    using on_buf_data [OF s2(2), of n db "v_blk v a"] bio_blk_len [OF assms(1), of a] by auto
  note f3 = bio_frame_log [OF s3(3)]
  obtain s4 where s4: "bwrite db s3 = Ok () s4" "bio p s4 ?v3" "bio_frame s3 s4" "disk_wr s4 = (unat n, v_blk v a) # disk_wr s3"
    using bwrite_spec [OF s3(2), of n db] f1 f2 f3 me by auto
  have "install_one i s = andthen (bunpin db) (andthen (brelse lb) (brelse db)) s4" using l s1(1) s2(1) s3(1) s4(1) d f1
    by (simp add: install_one_def bind_apply andthen_apply)
  moreover have "bio_frame s s4" using s1(3) s2(3) s3(3) s4(3) bio_frame_trans by blast
  ultimately show ?thesis using s1(4) s2(4,5) s3(4) s4(2,4) by auto
qed

lemma install_one_spec:
  fixes s :: "'x log_state_scheme"
  assumes "bio p s v" and l: "l_dev (logr s) = 1" "a = l_start (logr s) + of_nat i + 1" "n = lh_block (logr s) i"
    and ab: "a < 0x80000000" "v_slot v a = None" "card (dom (v_slot v)) < NBUF"
    and nb: "v_slot v n \<noteq> None" "v_lock v n = None" "v_refs v n = 1"
  shows "\<exists>t. install_one i s = Ok () t \<and>
    bio p t (v\<lparr>v_blk := (v_blk v)(n := v_blk v a), v_slot := (v_slot v)(n := None), v_refs := (v_refs v)(n := 0)\<rparr>) \<and>
    bio_frame s t \<and> disk_wr t = (unat n, v_blk v a) # disk_wr s"
proof -
  let ?me = "p_pid (procs s p)"
  have na: "n < 0x80000000" "a \<noteq> n" using bio_slot(10) [OF assms(1)] nb(1) ab(2) by auto
  obtain lb db s4 where s4: "install_one i s = andthen (bunpin db) (andthen (brelse lb) (brelse db)) s4"
    "bio p s4 ((v_get n db ?me (v_get a lb ?me v))\<lparr>v_blk := (v_blk v)(n := v_blk v a)\<rparr>)" "bio_frame s s4"
    "disk_wr s4 = (unat n, v_blk v a) # disk_wr s" "\<And>c. v_slot v n = Some c \<Longrightarrow> db = c"
    using install_copy [OF assms(1) l ab na nb(2) _ _ refl] nb by auto
  note f4 = bio_frame_log [OF s4(3)]
  let ?v3 = "(v_get n db ?me (v_get a lb ?me v))\<lparr>v_blk := (v_blk v)(n := v_blk v a)\<rparr>"
  obtain s5 where s5: "bunpin db s4 = Ok () s5" "bio p s5 (v_unpin n ?v3)" "bio_frame s4 s5" "disk_wr s5 = disk_wr s4"
    using bunpin_spec [OF s4(2), of n db] nb(3) na(2) by auto
  note f5 = bio_frame_log [OF s5(3)]
  have ra: "v_refs v a = 0" "v_lock v a = None" using bio_unused [OF assms(1) ab(2)] by simp_all
  have dk: "dblk s5 m = (if m = n then v_blk v a else dblk s m)" for m
    using s5(4) s4(4) bio_frameD(2) [OF s5(3)] bio_frameD(2) [OF s4(3)] by (auto simp: dblk_def dest: unsigned_word_eqI)
  have da: "v_blk v a = dblk s a" using bio_unused [OF assms(1) ab(2)] by simp
  obtain s6 where s6: "brelse lb s5 = Ok () s6" "bio p s6 (v_put a (v_unpin n ?v3))" "bio_frame s5 s6" "disk_wr s6 = disk_wr s5"
    using brelse_spec [OF s5(2), of a lb] dk da na(2) f4 f5 by auto
  note f6 = bio_frame_log [OF s6(3)]
  have "dblk s6 n = v_blk v a" using dk [of n] s6(4) bio_frameD(2) [OF s6(3)] by (simp add: dblk_def)
  then obtain s7 where s7: "brelse db s6 = Ok () s7" "bio p s7 (v_put n (v_put a (v_unpin n ?v3)))" "bio_frame s6 s7" "disk_wr s7 = disk_wr s6"
    using brelse_spec [OF s6(2), of n db] na(2) f4 f5 f6 by auto
  have "v_put n (v_put a (v_unpin n ?v3)) =
      v\<lparr>v_blk := (v_blk v)(n := v_blk v a), v_slot := (v_slot v)(n := None), v_refs := (v_refs v)(n := 0)\<rparr>"
    using na ab(2) nb ra by (intro bview_eqI) auto
  moreover have "install_one i s = Ok () s7" using s4(1) s5(1) s6(1) s7(1) by (simp add: andthen_apply)
  moreover have "bio_frame s s7" using s4(3) s5(3) s6(3) s7(3) bio_frame_trans by blast
  ultimately show ?thesis using s4(4) s5(4) s6(4) s7(2,4) by auto
qed

text \<open>The header block \<open>write_head\<close> makes of the in-memory header, over the old contents \<open>d\<close>.\<close>

definition hdr_put :: "u32 \<Rightarrow> (nat \<Rightarrow> u32) \<Rightarrow> byte list \<Rightarrow> byte list" where
  "hdr_put n bl d = fold (\<lambda>i d. wr32 d (4 + 4 * i) (bl i)) [0..<nat (sint n)] (wr32 d 0 n)"

lemma hdr_fold:
  assumes "length d = BSIZE" and "k \<le> LOGSIZE"
  shows "length (fold (\<lambda>i d. wr32 d (4 + 4 * i) (bl i)) [0..<k] d) = BSIZE"
    and "rd32 (fold (\<lambda>i d. wr32 d (4 + 4 * i) (bl i)) [0..<k] d) 0 = rd32 d 0"
    and "i < k \<Longrightarrow> rd32 (fold (\<lambda>i d. wr32 d (4 + 4 * i) (bl i)) [0..<k] d) (4 + 4 * i) = bl i"
  using assms(2)
proof (induction k)
  case 0
  case 1 show ?case using assms(1) by simp
  case 2 show ?case by simp
  case 3 then show ?case by simp
next
  case (Suc k)
  let ?f = "fold (\<lambda>i d. wr32 d (4 + 4 * i) (bl i)) [0..<k] d"
  case 1 then show ?case using Suc.IH(1) by simp
  case 2 then show ?case using Suc.IH(1,2) by simp
  case 3 then show ?case using Suc.IH(1,3) by (cases "i = k") simp_all
qed

lemma hdr_put_facts:
  assumes "length d = BSIZE" and "nat (sint n) \<le> LOGSIZE"
  shows "length (hdr_put n bl d) = BSIZE" "rd32 (hdr_put n bl d) 0 = n"
    and "i < nat (sint n) \<Longrightarrow> rd32 (hdr_put n bl d) (4 + 4 * i) = bl i"
  using hdr_fold [of "wr32 d 0 n" "nat (sint n)"] assms by (simp_all add: hdr_put_def)

lemma for_each_data:
  assumes "bio p s v" and "v_slot v n = Some b" and "\<And>i d. i \<in> set xs \<Longrightarrow> length d = BSIZE \<Longrightarrow> length (g i d) = BSIZE"
  shows "\<exists>t. for_each xs (\<lambda>i. on_buf b (\<lambda>x. x\<lparr>b_data := g i (b_data x)\<rparr>)) s = Ok () t \<and>
    bio p t (v\<lparr>v_blk := (v_blk v)(n := fold g xs (v_blk v n))\<rparr>) \<and> bio_frame s t \<and> disk_wr t = disk_wr s"
  using assms
proof (induction xs arbitrary: s v)
  case Nil
  then show ?case by (auto simp: ret_def)
next
  case (Cons i xs)
  let ?t = "s\<lparr>bufs := (bufs s)(b := (bufs s b)\<lparr>b_data := g i (b_data (bufs s b))\<rparr>)\<rparr>"
  let ?v = "v\<lparr>v_blk := (v_blk v)(n := g i (v_blk v n))\<rparr>"
  have "length (g i (v_blk v n)) = BSIZE" using bio_blk_len [OF Cons.prems(1)] Cons.prems(3) by simp
  then have t: "bio p ?t ?v" by (rule b_data_spec [OF Cons.prems(1,2)])
  have f: "bio_frame s ?t" by (auto simp: bio_frame_def intro!: disk_state.equality)
  let ?F = "\<lambda>i. on_buf b (\<lambda>x. x\<lparr>b_data := g i (b_data x)\<rparr>)"
  have "\<exists>u. for_each xs ?F ?t = Ok () u \<and> bio p u (?v\<lparr>v_blk := (v_blk ?v)(n := fold g xs (v_blk ?v n))\<rparr>) \<and>
      bio_frame ?t u \<and> disk_wr u = disk_wr ?t"
    by (rule Cons.IH [OF t]) (use Cons.prems(2,3) in simp_all)
  then obtain u where u: "for_each xs ?F ?t = Ok () u" "bio p u (?v\<lparr>v_blk := (v_blk ?v)(n := fold g xs (v_blk ?v n))\<rparr>)"
    "bio_frame ?t u" "disk_wr u = disk_wr ?t" by blast
  have "?F i s = Ok () ?t" by (simp add: on_buf_def modify_def)
  then have "for_each (i # xs) ?F s = Ok () u" by (simp only: for_each.simps andthen_apply res.case u(1))
  moreover have "bio p u (v\<lparr>v_blk := (v_blk v)(n := fold g (i # xs) (v_blk v n))\<rparr>)" using u(2) by simp
  moreover have "disk_wr u = disk_wr s" using u(4) by simp
  ultimately show ?case using bio_frame_trans [OF f u(3)] by blast
qed

lemma write_head_spec:
  fixes s :: "'x log_state_scheme"
  assumes "bio p s v" and l: "l_dev (logr s) = 1" "a = l_start (logr s)" "nat (sint (lh_n (logr s))) \<le> LOGSIZE"
    and ab: "a < 0x80000000" "v_slot v a = None" "card (dom (v_slot v)) < NBUF"
  shows "\<exists>t. write_head s = Ok () t \<and>
    bio p t (v\<lparr>v_blk := (v_blk v)(a := hdr_put (lh_n (logr s)) (lh_block (logr s)) (v_blk v a))\<rparr>) \<and> bio_frame s t \<and>
    disk_wr t = (unat a, hdr_put (lh_n (logr s)) (lh_block (logr s)) (v_blk v a)) # disk_wr s"
proof -
  let ?me = "p_pid (procs s p)" and ?n = "lh_n (logr s)" and ?bl = "lh_block (logr s)"
  let ?h = "hdr_put ?n ?bl (v_blk v a)"
  obtain b s1 where s1: "bread 1 a s = Ok b s1" "bio p s1 (v_get a b ?me v)" "bio_frame s s1" "disk_wr s1 = disk_wr s"
    using bread_spec [OF assms(1) ab(1)] bio_unused [OF assms(1) ab(2)] ab(3) by (auto simp: vcap_def)
  note f1 = bio_frame_log [OF s1(3)]
  let ?v1 = "v_get a b ?me v"
  let ?v2 = "?v1\<lparr>v_blk := (v_blk v)(a := wr32 (v_blk v a) 0 ?n)\<rparr>"
  have len: "length (v_blk v a) = BSIZE" by (rule bio_blk_len [OF assms(1)])
  let ?s2 = "s1\<lparr>bufs := (bufs s1)(b := (bufs s1 b)\<lparr>b_data := wr32 (b_data (bufs s1 b)) 0 ?n\<rparr>)\<rparr>"
  have s2: "bio p ?s2 ?v2" using b_data_spec [OF s1(2), of a b "\<lambda>d. wr32 d 0 ?n"] len by simp
  have f2: "bio_frame s1 ?s2" by (auto simp: bio_frame_def intro!: disk_state.equality)
  have g: "length (wr32 d (4 + 4 * i) (?bl i)) = BSIZE" if "i \<in> set [0..<nat (sint ?n)]" "length d = BSIZE" for i d
    using that l(3) by simp
  let ?v3 = "?v1\<lparr>v_blk := (v_blk v)(a := ?h)\<rparr>"
  obtain s3 where s3: "for_each [0..<nat (sint ?n)] (\<lambda>i. on_buf b (\<lambda>x. x\<lparr>b_data := wr32 (b_data x) (4 + 4 * i) (?bl i)\<rparr>)) ?s2 = Ok () s3"
    "bio p s3 ?v3" "bio_frame ?s2 s3" "disk_wr s3 = disk_wr ?s2"
    using for_each_data [OF s2, of a b "[0..<nat (sint ?n)]" "\<lambda>i d. wr32 d (4 + 4 * i) (?bl i)"] g by (auto simp: hdr_put_def)
  note f3 = bio_frame_log [OF s3(3)]
  obtain s4 where s4: "bwrite b s3 = Ok () s4" "bio p s4 ?v3" "bio_frame s3 s4" "disk_wr s4 = (unat a, ?h) # disk_wr s3"
    using bwrite_spec [OF s3(2), of a b] f1 f3 by auto
  note f4 = bio_frame_log [OF s4(3)]
  have dk: "dblk s4 a = ?h" using s4(4) by (simp add: dblk_def)
  obtain s5 where s5: "brelse b s4 = Ok () s5" "bio p s5 (v_put a ?v3)" "bio_frame s4 s5" "disk_wr s5 = disk_wr s4"
    using brelse_spec [OF s4(2), of a b] dk f1 f3 f4 by auto
  have "v_put a ?v3 = v\<lparr>v_blk := (v_blk v)(a := ?h)\<rparr>"
    using ab(2) bio_unused [OF assms(1) ab(2)] by (intro bview_eqI) auto
  moreover have "write_head s = Ok () s5" using l(1,2) s1(1) s3(1) s4(1) s5(1)
    by (simp add: write_head_def bind_apply andthen_apply on_buf_apply)
  moreover have "bio_frame s s5" using s1(3) f2 s3(3) s4(3) s5(3) bio_frame_trans by blast
  ultimately show ?thesis using s1(4) s3(4) s4(4) s5(2,4) by auto
qed

section \<open>Commit\<close>

text \<open>Block \<open>i\<close> of the log area; block 0 is the header.\<close>

definition log_blk :: "'x log_state_scheme \<Rightarrow> nat \<Rightarrow> u32" where
  "log_blk s i = l_start (logr s) + of_nat i"

definition log_len :: "'x log_state_scheme \<Rightarrow> nat" where
  "log_len s = nat (sint (lh_n (logr s)))"

definition log_bnos :: "'x log_state_scheme \<Rightarrow> u32 list" where
  "log_bnos s = map (lh_block (logr s)) [0..<log_len s]"

text \<open>
  The state in which \<open>end_op\<close> commits: the logged blocks are distinct, pinned and not held, nobody uses the log area,
  and a buffer is free.
\<close>

definition log_ready :: "'x log_state_scheme \<Rightarrow> bview \<Rightarrow> bool" where
  "log_ready s v \<longleftrightarrow> l_dev (logr s) = 1 \<and> log_len s \<le> LOGSIZE \<and> unat (l_start (logr s)) + LOGSIZE < 0x80000000 \<and>
     card (dom (v_slot v)) < NBUF \<and> (\<forall>i\<le>LOGSIZE. v_slot v (log_blk s i) = None) \<and>
     distinct (log_bnos s) \<and> (\<forall>n\<in>set (log_bnos s). v_slot v n \<noteq> None \<and> v_lock v n = None \<and> v_refs v n = 1)"

lemma unat_log_blk:
  assumes "unat (l_start (logr s)) + LOGSIZE < 0x80000000" and "i \<le> LOGSIZE"
  shows "unat (log_blk s i) = unat (l_start (logr s)) + i" and "log_blk s i < 0x80000000"
proof -
  show u: "unat (log_blk s i) = unat (l_start (logr s)) + i"
    using assms by (simp add: log_blk_def unat_word_ariths unat_of_nat)
  show "log_blk s i < 0x80000000" unfolding word_less_nat_alt u using assms by simp
qed

lemma log_blk_inj:
  assumes "unat (l_start (logr s)) + LOGSIZE < 0x80000000" and "i \<le> LOGSIZE" "j \<le> LOGSIZE"
  shows "log_blk s i = log_blk s j \<longleftrightarrow> i = j"
  using unat_log_blk(1) [OF assms(1,2)] unat_log_blk(1) [OF assms(1,3)] by (metis add_left_cancel)

lemma for_each_append: "for_each (xs @ ys) f s = andthen (for_each xs f) (for_each ys f) s"
  by (induction xs arbitrary: s) (auto simp: andthen_apply ret_def split: res.split)

lemma write_log_loop:
  fixes s :: "'x log_state_scheme"
  assumes "bio p s v" and "log_ready s v" and "k \<le> log_len s"
  shows "\<exists>t B. for_each [0..<k] write_log_one s = Ok () t \<and> bio p t (v\<lparr>v_blk := B\<rparr>) \<and> bio_frame s t \<and>
    (\<forall>i<k. B (log_blk s (Suc i)) = v_blk v (lh_block (logr s) i)) \<and> (\<forall>m. m \<notin> log_blk s ` {Suc 0..LOGSIZE} \<longrightarrow> B m = v_blk v m) \<and>
    disk_wr t = rev (map (\<lambda>i. (unat (l_start (logr s)) + Suc i, v_blk v (lh_block (logr s) i))) [0..<k]) @ disk_wr s"
  using assms(3)
proof (induction k)
  case 0
  have "bio p s (v\<lparr>v_blk := v_blk v\<rparr>)" using assms(1) by simp
  then show ?case by (intro exI [of _ s] exI [of _ "v_blk v"]) (simp add: ret_def)
next
  case (Suc k)
  then obtain t B where t: "for_each [0..<k] write_log_one s = Ok () t" "bio p t (v\<lparr>v_blk := B\<rparr>)" "bio_frame s t"
    "\<And>i. i < k \<Longrightarrow> B (log_blk s (Suc i)) = v_blk v (lh_block (logr s) i)" "\<And>m. m \<notin> log_blk s ` {Suc 0..LOGSIZE} \<Longrightarrow> B m = v_blk v m"
    "disk_wr t = rev (map (\<lambda>i. (unat (l_start (logr s)) + Suc i, v_blk v (lh_block (logr s) i))) [0..<k]) @ disk_wr s"
    by auto
  note r = assms(2) [unfolded log_ready_def]
  have k: "Suc k \<le> LOGSIZE" using Suc.prems r by linarith
  let ?a = "log_blk s (Suc k)" and ?n = "lh_block (logr s) k"
  have n: "?n \<in> set (log_bnos s)" using Suc.prems by (auto simp: log_bnos_def)
  have la: "log_blk s i \<noteq> ?n" if "i \<le> LOGSIZE" for i using that r n by metis
  have Bn: "B ?n = v_blk v ?n" using t(5) [of ?n] la by fastforce
  have rn: "v_slot v ?n \<noteq> None" "v_lock v ?n = None" "v_refs v ?n = 1" using r n by auto
  have a: "?a = l_start (logr t) + of_nat k + 1" using bio_frame_log [OF t(3)] by (simp add: log_blk_def ac_simps)
  have va: "v_slot v ?a = None" using r k by blast
  have ua: "unat ?a = unat (l_start (logr s)) + Suc k" "?a < 0x80000000" using unat_log_blk [of s "Suc k"] r k by simp_all
  obtain u where u: "write_log_one k t = Ok () u" "bio p u (v\<lparr>v_blk := B(?a := v_blk v ?n)\<rparr>)"
      "bio_frame t u" "disk_wr u = (unat ?a, v_blk v ?n) # disk_wr t"
    using write_log_one_spec [OF t(2) _ a refl ua(2)] bio_frame_log [OF t(3)] r rn Bn va by auto
  have "for_each [0..<Suc k] write_log_one s = Ok () u" using t(1) u(1) by (simp add: for_each_append andthen_apply)
  moreover have "\<forall>i<Suc k. (B(?a := v_blk v ?n)) (log_blk s (Suc i)) = v_blk v (lh_block (logr s) i)"
    using t(4) log_blk_inj [of s _ "Suc k"] r k by (simp add: less_Suc_eq)
  moreover have "?a \<in> log_blk s ` {Suc 0..LOGSIZE}" using k by (intro imageI) simp
  then have "\<forall>m. m \<notin> log_blk s ` {Suc 0..LOGSIZE} \<longrightarrow> (B(?a := v_blk v ?n)) m = v_blk v m" using t(5) by auto
  moreover have "disk_wr u = rev (map (\<lambda>i. (unat (l_start (logr s)) + Suc i, v_blk v (lh_block (logr s) i))) [0..<Suc k]) @ disk_wr s"
    using u(4) t(6) ua(1) by simp
  ultimately show ?case using u(2) bio_frame_trans [OF t(3) u(3)] by blast
qed

lemma install_loop:
  fixes s :: "'x log_state_scheme"
  assumes "bio p s v" and "log_ready s v" and "k \<le> log_len s"
    and log: "\<And>i. i < log_len s \<Longrightarrow> v_blk v (log_blk s (Suc i)) = v_blk v (lh_block (logr s) i)"
  defines "S \<equiv> \<lambda>k. lh_block (logr s) ` {0..<k}"
  shows "\<exists>t. for_each [0..<k] install_one s = Ok () t \<and> bio_frame s t \<and>
    bio p t (v\<lparr>v_slot := (\<lambda>m. if m \<in> S k then None else v_slot v m), v_refs := (\<lambda>m. if m \<in> S k then 0 else v_refs v m)\<rparr>) \<and>
    disk_wr t = rev (map (\<lambda>i. (unat (lh_block (logr s) i), v_blk v (lh_block (logr s) i))) [0..<k]) @ disk_wr s"
  using assms(3)
proof (induction k)
  case 0
  have "bio p s (v\<lparr>v_slot := v_slot v, v_refs := v_refs v\<rparr>)" using assms(1) by simp
  then show ?case by (intro exI [of _ s]) (simp add: ret_def S_def)
next
  case (Suc k)
  let ?v = "\<lambda>k. v\<lparr>v_slot := (\<lambda>m. if m \<in> S k then None else v_slot v m), v_refs := (\<lambda>m. if m \<in> S k then 0 else v_refs v m)\<rparr>"
  from Suc obtain t where t: "for_each [0..<k] install_one s = Ok () t" "bio_frame s t" "bio p t (?v k)"
    "disk_wr t = rev (map (\<lambda>i. (unat (lh_block (logr s) i), v_blk v (lh_block (logr s) i))) [0..<k]) @ disk_wr s"
    by auto
  note r = assms(2) [unfolded log_ready_def]
  have k: "Suc k \<le> LOGSIZE" using Suc.prems r by linarith
  let ?a = "log_blk s (Suc k)" and ?n = "lh_block (logr s) k"
  have n: "?n \<in> set (log_bnos s)" using Suc.prems by (auto simp: log_bnos_def)
  have rn: "v_slot v ?n \<noteq> None" "v_lock v ?n = None" "v_refs v ?n = 1" using r n by auto
  have inj: "inj_on (lh_block (logr s)) {0..<log_len s}" using r by (simp add: log_bnos_def distinct_map)
  have nS: "?n \<notin> S k" using inj_onD [OF inj, of k] Suc.prems by (fastforce simp: S_def)
  have a: "?a = l_start (logr t) + of_nat k + 1" using bio_frame_log [OF t(2)] by (simp add: log_blk_def ac_simps)
  have va: "v_slot (?v k) ?a = None" using r k by auto
  have ua: "?a < 0x80000000" using unat_log_blk [of s "Suc k"] r k by simp
  have "dom (v_slot (?v k)) \<subseteq> dom (v_slot v)" by (auto split: if_splits)
  then have card: "card (dom (v_slot (?v k))) < NBUF" using r card_mono [of "dom (v_slot v)"] by (meson finite order.strict_trans1)
  have "\<exists>u. install_one k t = Ok () u \<and> bio p u ((?v k)\<lparr>v_blk := (v_blk (?v k))(?n := v_blk (?v k) ?a),
      v_slot := (v_slot (?v k))(?n := None), v_refs := (v_refs (?v k))(?n := 0)\<rparr>) \<and> bio_frame t u \<and>
      disk_wr u = (unat ?n, v_blk (?v k) ?a) # disk_wr t"
    by (rule install_one_spec [OF t(3) _ a _ ua va card]) (use bio_frame_log [OF t(2)] r rn nS in auto)
  moreover have "(?v k)\<lparr>v_blk := (v_blk (?v k))(?n := v_blk (?v k) ?a),
      v_slot := (v_slot (?v k))(?n := None), v_refs := (v_refs (?v k))(?n := 0)\<rparr> = ?v (Suc k)"
    using log [of k] Suc.prems by (intro bview_eqI) (auto simp: S_def less_Suc_eq)
  ultimately obtain u where u: "install_one k t = Ok () u" "bio p u (?v (Suc k))" "bio_frame t u"
      "disk_wr u = (unat ?n, v_blk v ?n) # disk_wr t"
    using log [of k] Suc.prems by auto
  have "for_each [0..<Suc k] install_one s = Ok () u" using t(1) u(1) by (simp add: for_each_append andthen_apply)
  moreover have "disk_wr u = rev (map (\<lambda>i. (unat (lh_block (logr s) i), v_blk v (lh_block (logr s) i))) [0..<Suc k]) @ disk_wr s"
    using u(4) t(4) by simp
  ultimately show ?case using u(2) bio_frame_trans [OF t(2) u(3)] by blast
qed

lemma bio_logr [simp]: "bio p (s\<lparr>logr := l\<rparr>) v = bio p s v"
  by (rule bio_cong) simp_all

lemma bio_frame_logr: "bio_frame s t \<Longrightarrow> bio_frame (s\<lparr>logr := l\<rparr>) (t\<lparr>logr := l\<rparr>)"
proof -
  assume a: "bio_frame s t"
  then have t: "t = s\<lparr>hw := hw t, slocks := slocks t, bufs := bufs t, vd := vd t, disk_wr := disk_wr t\<rparr>"
    by (simp add: bio_frame_def)
  have "t\<lparr>logr := l\<rparr> = s\<lparr>logr := l, hw := hw t, slocks := slocks t, bufs := bufs t, vd := vd t, disk_wr := disk_wr t\<rparr>"
    by (subst t) (auto intro!: log_state.equality)
  then show ?thesis using a by (simp add: bio_frame_def)
qed

text \<open>The blocks a commit writes, in order: the log, the header, the home locations, the empty header.\<close>

definition commit_writes :: "'x log_state_scheme \<Rightarrow> (u32 \<Rightarrow> byte list) \<Rightarrow> (nat \<times> byte list) list" where
  "commit_writes s C = (let st = unat (l_start (logr s)); bl = lh_block (logr s); n = lh_n (logr s); h = hdr_put n bl (C (l_start (logr s))) in
     map (\<lambda>i. (st + Suc i, C (bl i))) [0..<log_len s] @ [(st, h)] @ map (\<lambda>i. (unat (bl i), C (bl i))) [0..<log_len s] @ [(st, hdr_put 0 bl h)])"

lemma commit_run:
  fixes s :: "'x log_state_scheme"
  assumes "bio p s v" and "log_ready s v" and "0 < log_len s"
  shows "\<exists>t B. commit s = Ok () t \<and> bio p t (v\<lparr>v_blk := B, v_slot := (\<lambda>m. if m \<in> set (log_bnos s) then None else v_slot v m),
      v_refs := (\<lambda>m. if m \<in> set (log_bnos s) then 0 else v_refs v m)\<rparr>) \<and> (\<forall>m. m \<notin> log_blk s ` {0..LOGSIZE} \<longrightarrow> B m = v_blk v m) \<and>
    logr t = (logr s)\<lparr>lh_n := 0\<rparr> \<and> bio_frame (s\<lparr>logr := logr t\<rparr>) t \<and> disk_wr t = rev (commit_writes s (v_blk v)) @ disk_wr s"
proof -
  let ?bl = "lh_block (logr s)" and ?n = "lh_n (logr s)" and ?a = "l_start (logr s)" and ?k = "log_len s"
  note r = assms(2) [unfolded log_ready_def]
  obtain t1 B where t1: "for_each [0..<?k] write_log_one s = Ok () t1" "bio p t1 (v\<lparr>v_blk := B\<rparr>)" "bio_frame s t1"
    "\<forall>i<?k. B (log_blk s (Suc i)) = v_blk v (?bl i)" "\<forall>m. m \<notin> log_blk s ` {Suc 0..LOGSIZE} \<longrightarrow> B m = v_blk v m"
    "disk_wr t1 = rev (map (\<lambda>i. (unat ?a + Suc i, v_blk v (?bl i))) [0..<?k]) @ disk_wr s"
    using write_log_loop [OF assms(1,2) order.refl] by blast
  note f1 = bio_frame_log [OF t1(3)]
  have a0: "?a = log_blk s 0" by (simp add: log_blk_def)
  have "log_blk s 0 \<noteq> log_blk s j" if "j \<in> {Suc 0..LOGSIZE}" for j using log_blk_inj [of s 0 j] r that by simp
  then have "?a \<notin> log_blk s ` {Suc 0..LOGSIZE}" unfolding a0 by blast
  then have Ba: "B ?a = v_blk v ?a" using t1(5) by blast
  have ua: "?a < 0x80000000" "v_slot v ?a = None" using unat_log_blk(2) [of s 0] r by (auto simp: a0)
  let ?h = "hdr_put ?n ?bl (v_blk v ?a)"
  let ?v2 = "v\<lparr>v_blk := B(?a := ?h)\<rparr>"
  obtain t2 where t2: "write_head t1 = Ok () t2" "bio p t2 ?v2" "bio_frame t1 t2" "disk_wr t2 = (unat ?a, ?h) # disk_wr t1"
    using write_head_spec [OF t1(2), of ?a] f1 r ua Ba by (auto simp: log_len_def)
  note f2 = bio_frame_log [OF t2(3)]
  have same: "log_len t2 = ?k" "log_bnos t2 = log_bnos s" "\<And>i. log_blk t2 i = log_blk s i"
    using f1 f2 by (simp_all add: log_len_def log_bnos_def log_blk_def)
  have ready: "log_ready t2 ?v2" using r f1 f2 by (simp add: log_ready_def same)
  have bl: "?bl i \<noteq> log_blk s j" if "i < ?k" "j \<le> LOGSIZE" for i j
  proof -
    have "?bl i \<in> set (log_bnos s)" using that(1) by (simp add: log_bnos_def)
    then show ?thesis using r that(2) by metis
  qed
  have ne: "log_blk s (Suc i) \<noteq> ?a" if "i < ?k" for i using log_blk_inj [of s "Suc i" 0] r that by (simp add: a0)
  have log: "v_blk ?v2 (log_blk t2 (Suc i)) = v_blk ?v2 (lh_block (logr t2) i)" if "i < log_len t2" for i
  proof -
    have i: "i < ?k" using that same by simp
    have "?bl i \<notin> log_blk s ` {Suc 0..LOGSIZE}" using bl [OF i] unfolding image_iff by (metis atLeastAtMost_iff)
    then have "B (?bl i) = v_blk v (?bl i)" using t1(5) by blast
    then show ?thesis using t1(4) i ne [OF i] bl [OF i, of 0] f1 f2 same by (simp add: a0)
  qed
  have Sset: "lh_block (logr t2) ` {0..<?k} = set (log_bnos s)" using f1 f2 by (simp add: log_bnos_def)
  let ?S = "\<lambda>m. if m \<in> set (log_bnos s) then None else v_slot v m" and ?R = "\<lambda>m. if m \<in> set (log_bnos s) then 0 else v_refs v m"
  let ?v3 = "?v2\<lparr>v_slot := ?S, v_refs := ?R\<rparr>"
  have v2: "v_blk ?v2 (?bl i) = v_blk v (?bl i)" if "i < ?k" for i
    using log [of i] t1(4) that ne [OF that] same f1 f2 by simp
  obtain t3 where t3: "for_each [0..<?k] install_one t2 = Ok () t3" "bio_frame t2 t3" "bio p t3 ?v3"
    "disk_wr t3 = rev (map (\<lambda>i. (unat (lh_block (logr t2) i), v_blk ?v2 (lh_block (logr t2) i))) [0..<?k]) @ disk_wr t2"
  proof -
    have "?v2\<lparr>v_slot := (\<lambda>m. if m \<in> set (log_bnos s) then None else v_slot ?v2 m), v_refs := (\<lambda>m. if m \<in> set (log_bnos s) then 0 else v_refs ?v2 m)\<rparr> = ?v3"
      by (rule bview_eqI) simp_all
    then show thesis using that install_loop [OF t2(2) ready _ log, of ?k] unfolding same(1) Sset by auto
  qed
  note f3 = bio_frame_log [OF t3(2)]
  have w3: "disk_wr t3 = rev (map (\<lambda>i. (unat (?bl i), v_blk v (?bl i))) [0..<?k]) @ disk_wr t2"
    using t3(4) f1 f2 v2 by (simp cong: map_cong)
  let ?l = "(logr s)\<lparr>lh_n := 0\<rparr>"
  have b4: "bio p (t3\<lparr>logr := ?l\<rparr>) ?v3" using t3(3) by simp
  have "dom (v_slot ?v3) \<subseteq> dom (v_slot v)" by (auto split: if_splits)
  then have card: "card (dom (v_slot ?v3)) < NBUF" using r card_mono [of "dom (v_slot v)"] by (meson finite order.strict_trans1)
  obtain t5 where t5: "write_head (t3\<lparr>logr := ?l\<rparr>) = Ok () t5" "bio p t5 (?v3\<lparr>v_blk := (v_blk ?v3)(?a := hdr_put 0 ?bl ?h)\<rparr>)"
    "bio_frame (t3\<lparr>logr := ?l\<rparr>) t5" "disk_wr t5 = (unat ?a, hdr_put 0 ?bl ?h) # disk_wr t3"
  proof -
    have "v_slot ?v3 ?a = None" using ua(2) by (simp add: if_split)
    then show thesis using that write_head_spec [OF b4 _ _ _ ua(1) _ card] r by auto
  qed
  have run: "commit s = Ok () t5"
  proof -
    have "sint ?n > 0" using assms(3) by (simp add: log_len_def)
    moreover have "write_log s = Ok () t1" using t1(1) by (simp add: write_log_def log_len_def bind_apply)
    moreover have "install_trans t2 = Ok () t3" using t3(1) f1 f2 by (simp add: install_trans_def log_len_def bind_apply)
    ultimately show ?thesis using t2(1) t5(1) f1 f2 f3 by (simp add: commit_def bind_apply andthen_apply on_log_def modify_def)
  qed
  have fr: "bio_frame (s\<lparr>logr := ?l\<rparr>) t5"
    using bio_frame_logr [OF bio_frame_trans [OF t1(3) bio_frame_trans [OF t2(3) t3(2)]], of ?l] t5(3) by (rule bio_frame_trans)
  have "logr t5 = ?l" using bio_frame_log(1) [OF t5(3)] by simp
  moreover have "disk_wr t5 = rev (commit_writes s (v_blk v)) @ disk_wr s"
    using t5(4) w3 t2(4) t1(6) by (simp add: commit_writes_def Let_def)
  moreover have "?v3\<lparr>v_blk := (v_blk ?v3)(?a := hdr_put 0 ?bl ?h)\<rparr> = v\<lparr>v_blk := B(?a := hdr_put 0 ?bl ?h), v_slot := ?S, v_refs := ?R\<rparr>"
    by (rule bview_eqI) simp_all
  then have "bio p t5 (v\<lparr>v_blk := B(?a := hdr_put 0 ?bl ?h), v_slot := ?S, v_refs := ?R\<rparr>)" using t5(2) by (simp only:)
  moreover have "\<forall>m. m \<notin> log_blk s ` {0..LOGSIZE} \<longrightarrow> (B(?a := hdr_put 0 ?bl ?h)) m = v_blk v m"
  proof (intro allI impI)
    fix m
    assume "m \<notin> log_blk s ` {0..LOGSIZE}"
    then have "m \<noteq> ?a" "m \<notin> log_blk s ` {Suc 0..LOGSIZE}" unfolding a0 by auto
    then show "(B(?a := hdr_put 0 ?bl ?h)) m = v_blk v m" using t1(5) by simp
  qed
  ultimately show ?thesis using run fr by (intro exI [of _ t5] exI [of _ "B(?a := hdr_put 0 ?bl ?h)"] conjI) (simp_all only:)
qed

section \<open>Crashes\<close>

text \<open>The disk after a list of writes, the first one first.\<close>

definition dwrite :: "(nat \<times> byte list) list \<Rightarrow> (nat \<Rightarrow> byte list) \<Rightarrow> nat \<Rightarrow> byte list" where
  "dwrite xs D = fold (\<lambda>(n, d) D. D(n := d)) xs D"

lemma dwrite_simps [simp]: "dwrite [] D = D" "dwrite (x # xs) D = dwrite xs (D(fst x := snd x))"
  "dwrite (xs @ ys) D = dwrite ys (dwrite xs D)"
  by (simp_all add: dwrite_def case_prod_unfold)

lemma disk_get_dwrite: "disk_get img (rev xs @ ws) = dwrite xs (disk_get img ws)"
proof (induction xs rule: rev_induct)
  case (snoc x xs)
  then show ?case by (cases x) (auto simp: fun_eq_iff)
qed simp

lemma dwrite_other: "m \<notin> fst ` set xs \<Longrightarrow> dwrite xs D m = D m"
  by (induction xs arbitrary: D) auto

lemma dwrite_map:
  assumes "distinct (map f is)" and "i \<in> set is"
  shows "dwrite (map (\<lambda>i. (f i, g i)) is) D (f i) = g i"
  using assms
proof (induction "is" arbitrary: D)
  case (Cons a "is")
  show ?case
  proof (cases "i = a")
    case True
    have "f a \<notin> fst ` set (map (\<lambda>i. (f i, g i)) is)" using Cons.prems(1) by auto
    then show ?thesis using True by (simp add: dwrite_other)
  next
    case False
    then show ?thesis using Cons by simp
  qed
qed simp

text \<open>
  What \<open>recover_from_log\<close> makes of a disk, as a function of the disk: every block of the header gets its copy in the
  log.
\<close>

definition log_replay :: "nat \<Rightarrow> (nat \<Rightarrow> byte list) \<Rightarrow> nat \<Rightarrow> byte list" where
  "log_replay st D = dwrite (map (\<lambda>i. (unat (rd32 (D st) (4 + 4 * i)), D (st + Suc i))) [0..<nat (sint (rd32 (D st) 0))]) D"

lemma log_replay_empty: "rd32 (D st) 0 = 0 \<Longrightarrow> log_replay st D = D"
  by (simp add: log_replay_def)

lemma log_replay_header:
  assumes "nat (sint (rd32 (D st) 0)) = k" and "\<And>i. i < k \<Longrightarrow> unat (rd32 (D st) (4 + 4 * i)) = f i" and "\<And>i. i < k \<Longrightarrow> D (st + Suc i) = c i"
  shows "log_replay st D = dwrite (map (\<lambda>i. (f i, c i)) [0..<k]) D"
proof -
  have "map (\<lambda>i. (unat (rd32 (D st) (4 + 4 * i)), D (st + Suc i))) [0..<k] = map (\<lambda>i. (f i, c i)) [0..<k]"
    using assms(2,3) by (intro map_cong) auto
  then show ?thesis by (simp only: log_replay_def assms(1))
qed

text \<open>A crash after \<open>j\<close> of the writes of a commit.\<close>

lemma commit_crash:
  fixes c :: "nat \<Rightarrow> byte list" and f :: "nat \<Rightarrow> nat"
  assumes f: "distinct (map f [0..<k])" "\<And>i. i < k \<Longrightarrow> f i \<notin> {st..st + k}" and kL: "k \<le> L"
    and h: "nat (sint (rd32 h 0)) = k" "\<And>i. i < k \<Longrightarrow> unat (rd32 h (4 + 4 * i)) = f i" and h': "rd32 h' 0 = 0"
    and D: "rd32 (D st) 0 = 0" and m: "m \<notin> {st..st + L}"
  defines "W1 \<equiv> map (\<lambda>i. (st + Suc i, c i)) [0..<k]" and "W3 \<equiv> map (\<lambda>i. (f i, c i)) [0..<k]"
  defines "Dj \<equiv> \<lambda>j. dwrite (take j (W1 @ [(st, h)] @ W3 @ [(st, h')])) D"
  shows "j \<le> k \<Longrightarrow> log_replay st (Dj j) m = D m" and "k < j \<Longrightarrow> log_replay st (Dj j) m = dwrite W3 D m"
proof -
  have W1: "fst ` set (take j W1) \<subseteq> {Suc st..st + k}" for j using set_take_subset [of j W1] by (auto simp: W1_def)
  have W3: "fst ` set (take j W3) \<subseteq> f ` {0..<k}" for j using set_take_subset [of j W3] by (auto simp: W3_def)
  show "log_replay st (Dj j) m = D m" if "j \<le> k"
  proof -
    have "Dj j = dwrite (take j W1) D" using that by (simp add: Dj_def W1_def)
    moreover have "st \<notin> fst ` set (take j W1)" "m \<notin> fst ` set (take j W1)" using W1 [of j] m kL by auto
    ultimately have "Dj j st = D st" "Dj j m = D m" by (simp_all add: dwrite_other)
    then show ?thesis using D by (simp add: log_replay_empty)
  qed
  show "log_replay st (Dj j) m = dwrite W3 D m" if "k < j"
  proof -
    let ?D1 = "(dwrite W1 D)(st := h)"
    have D1: "?D1 st = h" "?D1 (st + Suc i) = c i" if "i < k" for i
      using dwrite_map [of "\<lambda>i. st + Suc i" "[0..<k]" i c D] that by (simp_all add: W1_def distinct_map inj_on_def)
    have m1: "m \<notin> fst ` set W1" "m \<noteq> st" using W1 [of "length W1"] m kL by auto
    have st: "st \<notin> fst ` set (take i W3)" "a < k \<Longrightarrow> st + Suc a \<notin> fst ` set (take i W3)" for i a
      using W3 [of i] f(2) by fastforce+
    have same: "dwrite W3 X m = dwrite W3 D m" if "m \<notin> f ` {0..<k} \<Longrightarrow> X m = D m" for X
    proof (cases "m \<in> f ` {0..<k}")
      case True
      then show ?thesis using dwrite_map [OF f(1), of _ c] by (auto simp: W3_def)
    next
      case False
      then have "m \<notin> fst ` set W3" by (auto simp: W3_def)
      then show ?thesis using that [OF False] by (simp add: dwrite_other)
    qed
    have x3: "m \<notin> f ` {0..<k} \<Longrightarrow> dwrite (take i W3) ?D1 m = D m" for i
      using m1 W3 [of i] by (subst dwrite_other) (auto simp: dwrite_other)
    show ?thesis
    proof (cases "j \<le> 2 * k + 1")
      case True
      let ?X = "dwrite (take (j - Suc k) W3) ?D1"
      have X: "Dj j = ?X" using True that by (simp add: Dj_def W1_def W3_def take_Cons')
      have "log_replay st ?X = dwrite W3 ?X"
        unfolding W3_def
      proof (rule log_replay_header, unfold W3_def [symmetric])
        have Xst: "?X st = h" using st(1) by (simp add: dwrite_other)
        show "nat (sint (rd32 (?X st) 0)) = k" using h(1) Xst by simp
        show "unat (rd32 (?X st) (4 + 4 * i)) = f i" if "i < k" for i using h(2) [OF that] Xst by simp
        show "?X (st + Suc i) = c i" if "i < k" for i using st(2) [OF that] D1(2) [OF that] by (simp add: dwrite_other)
      qed
      then show ?thesis using same [of ?X] x3 X by simp
    next
      case False
      then have "Dj j = (dwrite W3 ?D1)(st := h')" by (simp add: Dj_def W1_def W3_def take_Cons')
      then show ?thesis using log_replay_empty [of "Dj j" st] h' m1(2) same [of ?D1] x3 [of 0] by simp
    qed
  qed
qed

definition log_area :: "'x log_state_scheme \<Rightarrow> nat set" where
  "log_area s = {unat (l_start (logr s))..unat (l_start (logr s)) + LOGSIZE}"

definition disk_of :: "'x disk_state_scheme \<Rightarrow> nat \<Rightarrow> byte list" where
  "disk_of s = disk_get (disk_img s) (disk_wr s)"

text \<open>The disk with the logged blocks replaced by their contents \<open>C\<close>.\<close>

definition tx_disk :: "'x log_state_scheme \<Rightarrow> (u32 \<Rightarrow> byte list) \<Rightarrow> nat \<Rightarrow> byte list" where
  "tx_disk s C = dwrite (map (\<lambda>n. (unat n, C n)) (log_bnos s)) (disk_of s)"

text \<open>The disk without the last \<open>j\<close> writes.\<close>

definition crash_disk :: "'x disk_state_scheme \<Rightarrow> nat \<Rightarrow> nat \<Rightarrow> byte list" where
  "crash_disk t j = disk_get (disk_img t) (drop j (disk_wr t))"

lemma drop_rev_append: "j \<le> length W \<Longrightarrow> drop j (rev W @ ws) = rev (take (length W - j) W) @ ws"
  by (simp add: drop_rev)

lemma log_bnos_area:
  assumes "log_ready s v" and "n \<in> set (log_bnos s)"
  shows "unat n \<notin> log_area s"
proof
  note r = assms(1) [unfolded log_ready_def]
  assume "unat n \<in> log_area s"
  then obtain i where i: "unat n = unat (l_start (logr s)) + i" "i \<le> LOGSIZE" unfolding log_area_def by (metis atLeastAtMost_iff le_Suc_ex nat_add_left_cancel_le)
  then have "unat n = unat (log_blk s i)" using unat_log_blk(1) [of s i] r by simp
  then have "n = log_blk s i" by (rule unsigned_word_eqI)
  then show False using r i(2) assms(2) by metis
qed

text \<open>
  Whatever number \<open>j\<close> of the last block writes of \<open>commit\<close> a crash loses, the disk that recovery makes of the rest is, outside
  the log area, the disk of before the commit or the disk with every block of the transaction replaced; and it
  is the latter exactly when the write of the header has been made.
\<close>

lemma commit_safe:
  fixes s :: "'x log_state_scheme"
  assumes "bio p s v" and "log_ready s v" and "0 < log_len s" and "rd32 (disk_of s (unat (l_start (logr s)))) 0 = 0"
  shows "\<exists>t. commit s = Ok () t \<and> logr t = (logr s)\<lparr>lh_n := 0\<rparr> \<and> length (disk_wr t) = length (disk_wr s) + 2 * log_len s + 2 \<and>
    (\<forall>m. m \<notin> log_area s \<longrightarrow> disk_of t m = tx_disk s (v_blk v) m) \<and>
    (\<forall>j m. j \<le> 2 * log_len s + 2 \<longrightarrow> m \<notin> log_area s \<longrightarrow> log_replay (unat (l_start (logr s))) (crash_disk t j) m =
      (if j \<le> log_len s + 1 then tx_disk s (v_blk v) m else disk_of s m))"
proof -
  let ?st = "unat (l_start (logr s))" and ?bl = "lh_block (logr s)" and ?n = "lh_n (logr s)" and ?k = "log_len s"
  note r = assms(2) [unfolded log_ready_def]
  obtain t where t: "commit s = Ok () t" "logr t = (logr s)\<lparr>lh_n := 0\<rparr>" "bio_frame (s\<lparr>logr := logr t\<rparr>) t"
    "disk_wr t = rev (commit_writes s (v_blk v)) @ disk_wr s"
    using commit_run [OF assms(1-3)] by blast
  have img: "disk_img t = disk_img s" using bio_frameD(2) [OF t(3)] by simp
  let ?h = "hdr_put ?n ?bl (v_blk v (l_start (logr s)))"
  let ?c = "\<lambda>i. v_blk v (?bl i)"
  let ?W = "map (\<lambda>i. (?st + Suc i, ?c i)) [0..<?k] @ [(?st, ?h)] @ map (\<lambda>i. (unat (?bl i), ?c i)) [0..<?k] @ [(?st, hdr_put 0 ?bl ?h)]"
  have W: "commit_writes s (v_blk v) = ?W" by (simp add: commit_writes_def Let_def)
  have kn: "nat (sint ?n) = ?k" by (simp add: log_len_def)
  have len: "length (v_blk v (l_start (logr s))) = BSIZE" by (rule bio_blk_len [OF assms(1)])
  note h = hdr_put_facts [OF len, of ?n]
  have d: "distinct (map (\<lambda>i. unat (?bl i)) [0..<?k])"
  proof -
    have "distinct (map unat (log_bnos s))" using r by (auto simp: distinct_map inj_on_def dest: unsigned_word_eqI)
    then show ?thesis by (simp add: log_bnos_def comp_def)
  qed
  have ar: "unat (?bl i) \<notin> {?st..?st + ?k}" if "i < ?k" for i
  proof -
    have "unat (?bl i) \<notin> log_area s" using that by (intro log_bnos_area [OF assms(2)]) (simp add: log_bnos_def)
    then show ?thesis using r unfolding log_area_def by auto
  qed
  have tx: "tx_disk s (v_blk v) = dwrite (map (\<lambda>i. (unat (?bl i), ?c i)) [0..<?k]) (disk_of s)"
    by (simp add: tx_disk_def log_bnos_def comp_def)
  have L: "nat (sint ?n) \<le> LOGSIZE" using r kn by simp
  have "nat (sint (0::u32)) \<le> LOGSIZE" by simp
  note h0 = hdr_put_facts(2) [OF h(1) [OF L, of ?bl] this, of ?bl]
  have crash: "log_replay ?st (dwrite (take j ?W) (disk_of s)) m = (if j \<le> ?k then disk_of s m else tx_disk s (v_blk v) m)"
    if "m \<notin> log_area s" for j m
  proof -
    note cc = commit_crash [OF d ar _ _ _ h0, where h = ?h and D = "disk_of s" and m = m and L = LOGSIZE and c = ?c]
    show ?thesis using cc [of j] that r assms(4) h(2,3) [OF L] kn unfolding tx log_area_def by (cases "j \<le> ?k") simp_all
  qed
  have len_t: "length (disk_wr t) = length (disk_wr s) + 2 * ?k + 2" using t(4) W by simp
  have cd: "crash_disk t j = dwrite (take (2 * ?k + 2 - j) ?W) (disk_of s)" if "j \<le> 2 * ?k + 2" for j
  proof -
    have lw: "length ?W = 2 * ?k + 2" by simp
    show ?thesis unfolding crash_disk_def disk_of_def t(4) W img
      using drop_rev_append [of j ?W "disk_wr s"] that unfolding lw by (simp only: disk_get_dwrite)
  qed
  have crash': "log_replay ?st (crash_disk t j) m = (if j \<le> ?k + 1 then tx_disk s (v_blk v) m else disk_of s m)"
    if "j \<le> 2 * ?k + 2" "m \<notin> log_area s" for j m
    unfolding cd [OF that(1)] crash [OF that(2)] using that(1) by auto
  have "disk_of t m = tx_disk s (v_blk v) m" if "m \<notin> log_area s" for m
  proof -
    have "disk_of t = crash_disk t 0" by (simp add: disk_of_def crash_disk_def)
    moreover have "crash_disk t 0 ?st = hdr_put 0 ?bl ?h" using cd [of 0] by simp
    ultimately show ?thesis using crash' [of 0 m] that log_replay_empty [of "crash_disk t 0" ?st] h0 by simp
  qed
  then show ?thesis using t(1,2) len_t crash' by blast
qed

section \<open>Recovery\<close>

lemma bunpin_run:
  assumes "running p s"
  shows "bunpin b s = Ok () (s\<lparr>bufs := (bufs s)(b := (bufs s b)\<lparr>b_refcnt := b_refcnt (bufs s b) - 1\<rparr>), hw := lock_cycle (hw s)\<rparr>)"
  using running_facts [OF assms] by (simp add: bunpin_def on_buf_def kop)

text \<open>
  The end of \<open>install_one\<close> for a block that was not pinned, which is how recovery runs it: \<open>bunpin\<close> takes the only
  reference and the reference count of the buffer goes below zero in \<open>brelse\<close>.
\<close>

lemma unpin_release:
  assumes "bio p s v" and me: "me = p_pid (procs s p)"
    and n: "v_slot v n = Some b" "v_lock v n = Some me" "v_refs v n = 1"
    and a: "v_slot v a = Some lb" "v_lock v a = Some me" "v_refs v a = 1" "v_blk v a = dblk s a" and an: "a \<noteq> n"
  shows "\<exists>t. andthen (bunpin b) (andthen (brelse lb) (brelse b)) s = Ok () t \<and>
    bio p t ((v_put a v)\<lparr>v_refs := (v_refs (v_put a v))(n := 2 ^ 32 - 1), v_lock := (v_lock (v_put a v))(n := None)\<rparr>) \<and>
    bio_frame s t \<and> disk_wr t = disk_wr s"
proof -
  note nb = bio_slot [OF assms(1) n(1)] and ab = bio_slot [OF assms(1) a(1)]
  note q = fs_quietD [OF bioD(1) [OF assms(1)]] and ok = bcache_okD [OF bioD(3) [OF assms(1)]]
  have ln: "sl_locked (slocks s (Sl_buf b))" "sl_pid (slocks s (Sl_buf b)) = me" using nb(11) n(2) by (auto split: if_splits)
  have la: "sl_locked (slocks s (Sl_buf lb))" "sl_pid (slocks s (Sl_buf lb)) = me" using ab(11) a(2) by (auto split: if_splits)
  have bl: "b \<noteq> lb" using nb(4) ab(4) an by auto
  obtain xs where xs: "ring (bufs s) xs" using ok(1) by blast
  let ?dec = "\<lambda>B i. B(i := (B i)\<lparr>b_refcnt := b_refcnt (B i) - 1\<rparr>) :: nat \<Rightarrow> buf"
  let ?ul = "\<lambda>L i. L(Sl_buf i := (L (Sl_buf i))\<lparr>sl_locked := False, sl_pid := 0\<rparr>)"
  let ?s1 = "s\<lparr>bufs := ?dec (bufs s) b, hw := lock_cycle (hw s)\<rparr>"
  have s1: "bunpin b s = Ok () ?s1" by (rule bunpin_run [OF q(1)])
  have r1: "running p ?s1" using running_cong [of ?s1 s] q(1) by simp
  have w: "woken (Ch_sleeplock l) [0..<NPROC] (procs s) = procs s" for l using q(6) by simp
  have x1: "ring (bufs ?s1) xs" using xs by simp
  obtain B2 w2 where s2: "brelse lb ?s1 = Ok () (?s1\<lparr>procs := procs ?s1, slocks := ?ul (slocks ?s1) lb, hw := lock_cycle (hw ?s1), bufs := B2\<rparr>)"
    "ring B2 w2" "\<forall>i. core (B2 i) = core (?dec (bufs ?s1) lb i)"
    using brelse_run [OF r1 _ _ _ x1 ab(1)] w la me by auto
  let ?s2 = "?s1\<lparr>procs := procs ?s1, slocks := ?ul (slocks ?s1) lb, hw := lock_cycle (hw ?s1), bufs := B2\<rparr>"
  have r2: "running p ?s2" using running_cong [of ?s2 s] q(1) by simp
  have x2: "ring (bufs ?s2) w2" using s2(2) by simp
  obtain B3 w3 where s3: "brelse b ?s2 = Ok () (?s2\<lparr>procs := procs ?s2, slocks := ?ul (slocks ?s2) b, hw := lock_cycle (hw ?s2), bufs := B3\<rparr>)"
    "ring B3 w3" "\<forall>i. core (B3 i) = core (?dec (bufs ?s2) b i)"
    using brelse_run [OF r2 _ _ _ x2 nb(1)] w ln me bl by auto
  let ?s3 = "?s2\<lparr>procs := procs ?s2, slocks := ?ul (slocks ?s2) b, hw := lock_cycle (hw ?s2), bufs := B3\<rparr>"
  have run: "andthen (bunpin b) (andthen (brelse lb) (brelse b)) s = Ok () ?s3"
    using s1 s2(1) s3(1) by (simp add: andthen_apply)
  obtain t where t: "brelse lb s = Ok () t" "bio p t (v_put a v)" "disk_wr t = disk_wr s" "bio_frame s t"
    using brelse_spec [OF assms(1) a(1)] a me by auto
  obtain B w0 where B: "t = s\<lparr>procs := procs s, slocks := ?ul (slocks s) lb, hw := lock_cycle (hw s), bufs := B\<rparr>"
    "\<forall>i. core (B i) = core (?dec (bufs s) lb i)"
    using brelse_run [OF q(1) w _ _ xs ab(1)] la me t(1) by auto
  have c3: "core (B3 i) = core (B i)" if "i \<noteq> b" for i
  proof -
    have "core (B3 i) = core (B2 i)" using spec [OF s3(3), of i] that by simp
    also have "\<dots> = core (?dec (bufs s) lb i)" using spec [OF s2(3), of i] that by (cases "i = lb") simp_all
    finally show ?thesis using spec [OF B(2), of i] by simp
  qed
  have rc: "b_refcnt (bufs s b) = 1" using nb(8) n(3) by (metis unat_1 unsigned_word_eqI)
  have f2: "b_dev (B2 b) = 1" "b_blockno (B2 b) = n" "b_refcnt (B2 b) = 0" "b_data (B2 b) = v_blk v n" "b_valid (B2 b)"
    using core_eqD [OF spec [OF s2(3), of b]] bl nb(3-7) rc by simp_all
  have f3: "b_dev (B3 b) = 1" "b_blockno (B3 b) = n" "b_refcnt (B3 b) = - 1" "b_data (B3 b) = v_blk v n" "b_valid (B3 b)"
    using core_eqD [OF spec [OF s3(3), of b]] f2 by simp_all
  have dk: "dblk ?s3 m = dblk t m" for m by (simp add: dblk_def B(1))
  have qt: "fs_quiet p ?s3" by (rule fs_quiet_cong [OF bioD(1) [OF assms(1)]]) (use q(5) in simp_all)
  have cell: "cell_ok ?s3 b" using f3 nb(10) bio_blk_len [OF assms(1), of n] by (simp add: cell_ok_def Let_def)
  have slot: "v_slot (v_put a v) n = Some b" using n(1) an by simp
  have um: "unat (- 1 :: u32) = 2 ^ 32 - 1" by (simp add: unsigned_minus_1_eq_mask mask_eq_exp_minus_1)
  let ?v = "(v_put a v)\<lparr>v_refs := (v_refs (v_put a v))(n := 2 ^ 32 - 1), v_lock := (v_lock (v_put a v))(n := None)\<rparr>"
  have "bio p ?s3 ((v_put a v)\<lparr>v_blk := (v_blk (v_put a v))(n := v_blk v n), v_slot := (v_slot (v_put a v))(n := Some b),
      v_refs := (v_refs (v_put a v))(n := 2 ^ 32 - 1), v_lock := (v_lock (v_put a v))(n := None)\<rparr>)"
    by (rule bio_relink [OF t(2) qt, where b = b and n = n and ys = w3])
      (use s3(2) c3 f3 nb(1) dk cell bio_slot(2) [OF t(2) slot] bcache_okD(2) [OF bioD(3) [OF t(2)]] um in \<open>simp_all add: B(1)\<close>)
  moreover have "(v_put a v)\<lparr>v_blk := (v_blk (v_put a v))(n := v_blk v n), v_slot := (v_slot (v_put a v))(n := Some b),
      v_refs := (v_refs (v_put a v))(n := 2 ^ 32 - 1), v_lock := (v_lock (v_put a v))(n := None)\<rparr> = ?v"
    using n(1) an by (intro bview_eqI) auto
  moreover have "bio_frame s ?s3" by (auto simp: bio_frame_def intro!: disk_state.equality)
  ultimately show ?thesis using run by auto
qed

lemma install_fresh:
  fixes s :: "'x log_state_scheme"
  assumes "bio p s v" and l: "l_dev (logr s) = 1" "a = l_start (logr s) + of_nat i + 1" "n = lh_block (logr s) i"
    and ab: "a < 0x80000000" "v_slot v a = None" and nb: "n < 0x80000000" "v_slot v n = None" "a \<noteq> n" and card: "card (dom (v_slot v)) + 1 < NBUF"
  shows "\<exists>db t. install_one i s = Ok () t \<and> bio_frame s t \<and> disk_wr t = (unat n, v_blk v a) # disk_wr s \<and>
    bio p t (v\<lparr>v_blk := (v_blk v)(n := v_blk v a), v_slot := (v_slot v)(n \<mapsto> db), v_refs := (v_refs v)(n := 2 ^ 32 - 1)\<rparr>)"
proof -
  let ?me = "p_pid (procs s p)"
  note ua = bio_unused [OF assms(1) ab(2)] and un = bio_unused [OF assms(1) nb(2)]
  obtain lb db t1 where t1: "install_one i s = andthen (bunpin db) (andthen (brelse lb) (brelse db)) t1"
    "bio p t1 ((v_get n db ?me (v_get a lb ?me v))\<lparr>v_blk := (v_blk v)(n := v_blk v a)\<rparr>)" "bio_frame s t1"
    "disk_wr t1 = (unat n, v_blk v a) # disk_wr s"
    using install_copy [OF assms(1) l ab _ nb(1,3) _ _ _ refl] card un by auto
  let ?v = "(v_get n db ?me (v_get a lb ?me v))\<lparr>v_blk := (v_blk v)(n := v_blk v a)\<rparr>"
  have "dblk t1 a = dblk s a"
    using t1(4) bio_frameD(2) [OF t1(3)] nb(3) by (auto simp: dblk_def dest: unsigned_word_eqI)
  then obtain t where t: "andthen (bunpin db) (andthen (brelse lb) (brelse db)) t1 = Ok () t"
    "bio p t ((v_put a ?v)\<lparr>v_refs := (v_refs (v_put a ?v))(n := 2 ^ 32 - 1), v_lock := (v_lock (v_put a ?v))(n := None)\<rparr>)"
    "bio_frame t1 t" "disk_wr t = disk_wr t1"
    using unpin_release [OF t1(2) refl, of n db a lb] nb(3) ua un bio_frame_log [OF t1(3)] by auto
  have "(v_put a ?v)\<lparr>v_refs := (v_refs (v_put a ?v))(n := 2 ^ 32 - 1), v_lock := (v_lock (v_put a ?v))(n := None)\<rparr> =
      v\<lparr>v_blk := (v_blk v)(n := v_blk v a), v_slot := (v_slot v)(n \<mapsto> db), v_refs := (v_refs v)(n := 2 ^ 32 - 1)\<rparr>"
    using nb ab ua un by (intro bview_eqI) auto
  then show ?thesis using t1(1,4) t bio_frame_trans [OF t1(3) t(3)] by auto
qed

definition fill :: "nat \<Rightarrow> (nat \<Rightarrow> 'a) \<Rightarrow> (nat \<Rightarrow> 'a) \<Rightarrow> nat \<Rightarrow> 'a" where
  "fill k f g = (\<lambda>i. if i < k then f i else g i)"

lemma fill_simps [simp]: "fill 0 f g = g" "(fill k f g)(k := f k) = fill (Suc k) f g" "i < k \<Longrightarrow> fill k f g i = f i"
  by (auto simp: fill_def)

lemma on_log_apply: "on_log f s = Ok () (s\<lparr>logr := f (logr s)\<rparr>)"
  by (simp add: on_log_def modify_def)

lemma on_log_bno_loop:
  "for_each [0..<k] (\<lambda>i. on_log (\<lambda>l. l\<lparr>lh_block := (lh_block l)(i := f i)\<rparr>)) s =
     Ok () (s\<lparr>logr := (logr s)\<lparr>lh_block := fill k f (lh_block (logr s))\<rparr>\<rparr>)"
proof (induction k)
  case (Suc k)
  then show ?case by (simp add: for_each_append andthen_apply on_log_apply del: fun_upd_apply)
qed (simp add: ret_def)

lemma read_head_spec:
  fixes s :: "'x log_state_scheme"
  assumes "bio p s v" and l: "l_dev (logr s) = 1" "a = l_start (logr s)" and ab: "a < 0x80000000" "v_slot v a = None" "card (dom (v_slot v)) < NBUF"
  shows "\<exists>t. read_head s = Ok () t \<and> bio p t v \<and> bio_frame (s\<lparr>logr := logr t\<rparr>) t \<and> disk_wr t = disk_wr s \<and>
    logr t = (logr s)\<lparr>lh_n := rd32 (v_blk v a) 0,
      lh_block := fill (nat (sint (rd32 (v_blk v a) 0))) (\<lambda>i. rd32 (v_blk v a) (4 + 4 * i)) (lh_block (logr s))\<rparr>"
proof -
  let ?me = "p_pid (procs s p)" and ?d = "v_blk v a"
  note ua = bio_unused [OF assms(1) ab(2)]
  obtain b s1 where s1: "bread 1 a s = Ok b s1" "bio p s1 (v_get a b ?me v)" "bio_frame s s1" "disk_wr s1 = disk_wr s"
    using bread_spec [OF assms(1) ab(1)] ua ab(3) by (auto simp: vcap_def)
  note f1 = bio_frame_log [OF s1(3)]
  have d: "b_data (bufs s1 b) = ?d" using bio_slot(7) [OF s1(2), of a b] by simp
  let ?l = "(logr s)\<lparr>lh_n := rd32 ?d 0, lh_block := fill (nat (sint (rd32 ?d 0))) (\<lambda>i. rd32 ?d (4 + 4 * i)) (lh_block (logr s))\<rparr>"
  have s2: "bio p (s1\<lparr>logr := ?l\<rparr>) (v_get a b ?me v)" using s1(2) by simp
  have dk: "dblk (s1\<lparr>logr := ?l\<rparr>) a = ?d" using ua(1) s1(4) bio_frameD(2) [OF s1(3)] by (simp add: dblk_def)
  obtain s3 where s3: "brelse b (s1\<lparr>logr := ?l\<rparr>) = Ok () s3" "bio p s3 (v_put a (v_get a b ?me v))" "bio_frame (s1\<lparr>logr := ?l\<rparr>) s3"
    "disk_wr s3 = disk_wr s1"
    using brelse_spec [OF s2, of a b] dk f1 by auto
  have "v_put a (v_get a b ?me v) = v" using ab(2) ua by (intro bview_eqI) auto
  moreover have "read_head s = Ok () s3" using l s1(1) s3(1) d f1
    by (simp add: read_head_def bind_apply andthen_apply on_log_bno_loop on_log_apply del: fun_upd_apply)
  moreover have lr: "logr s3 = ?l" using bio_frame_log(1) [OF s3(3)] by simp
  moreover have "bio_frame (s\<lparr>logr := ?l\<rparr>) s3" by (rule bio_frame_trans [OF bio_frame_logr [OF s1(3)] s3(3)])
  ultimately show ?thesis using s3(2,4) s1(4) by auto
qed

text \<open>A log header that \<open>write_head\<close> could have written: a count, and that many different blocks outside the log area.\<close>

definition log_bounds :: "'x log_state_scheme \<Rightarrow> (nat \<Rightarrow> u32) \<Rightarrow> nat \<Rightarrow> bool" where
  "log_bounds s f k \<longleftrightarrow> l_dev (logr s) = 1 \<and> unat (l_start (logr s)) + LOGSIZE < 0x80000000 \<and> k < NBUF \<and> distinct (map f [0..<k]) \<and>
     (\<forall>i<k. f i < 0x80000000 \<and> unat (f i) \<notin> log_area s)"

lemma log_area_blk: "i \<le> LOGSIZE \<Longrightarrow> unat (l_start (logr s)) + LOGSIZE < 0x80000000 \<Longrightarrow> unat (log_blk s i) \<in> log_area s"
  using unat_log_blk(1) [of s i] by (simp add: log_area_def)

lemma recover_loop:
  fixes s :: "'x log_state_scheme"
  assumes "bio p s v" and "\<And>m. v_slot v m = None" and f: "f = lh_block (logr s)" and bnd: "log_bounds s f k" and "j \<le> k"
  shows "\<exists>t w. for_each [0..<j] install_one s = Ok () t \<and> bio_frame s t \<and> bio p t w \<and> dom (v_slot w) = f ` {0..<j} \<and>
    (\<forall>m. m \<notin> f ` {0..<j} \<longrightarrow> v_blk w m = v_blk v m) \<and> (\<forall>n\<in>f ` {0..<j}. v_refs w n = 2 ^ 32 - 1 \<and> v_lock w n = None) \<and>
    disk_wr t = rev (map (\<lambda>i. (unat (f i), v_blk v (log_blk s (Suc i)))) [0..<j]) @ disk_wr s"
  using assms(5)
proof (induction j)
  case 0
  then show ?case using assms(1,2) by (intro exI [of _ s] exI [of _ v]) (auto simp: ret_def)
next
  case (Suc j)
  obtain t w where t: "for_each [0..<j] install_one s = Ok () t" "bio_frame s t" "bio p t w" "dom (v_slot w) = f ` {0..<j}"
    "\<forall>m. m \<notin> f ` {0..<j} \<longrightarrow> v_blk w m = v_blk v m" "\<forall>n\<in>f ` {0..<j}. v_refs w n = 2 ^ 32 - 1 \<and> v_lock w n = None"
    "disk_wr t = rev (map (\<lambda>i. (unat (f i), v_blk v (log_blk s (Suc i)))) [0..<j]) @ disk_wr s"
    using Suc.IH [OF Suc_leD [OF Suc.prems]] by (elim exE conjE) (rule that; assumption)
  note r = bnd [unfolded log_bounds_def]
  have j: "j < k" "Suc j \<le> LOGSIZE" using Suc.prems r by auto
  let ?a = "log_blk s (Suc j)" and ?n = "f j"
  have inj: "inj_on f {0..<k}" using r by (simp add: distinct_map)
  have nn: "?n \<notin> f ` {0..<j}" using inj_onD [OF inj, of j] j by fastforce
  have na: "f i \<noteq> ?a" if "i < k" for i using log_area_blk [OF j(2), of s] r that by metis
  have aa: "?a \<notin> f ` {0..<j}" using na j(1) by (metis (no_types, lifting) imageE atLeastLessThan_iff order.strict_trans)
  have a: "?a = l_start (logr t) + of_nat j + 1" using bio_frame_log [OF t(2)] by (simp add: log_blk_def ac_simps)
  have ua: "?a < 0x80000000" using unat_log_blk(2) [of s "Suc j"] r j by simp
  have sl: "v_slot w ?a = None" "v_slot w ?n = None" using t(4) aa nn by (auto simp: domIff)
  have "card (dom (v_slot w)) \<le> j" using t(4) card_image_le [of "{0..<j}" f] by simp
  then have card: "card (dom (v_slot w)) + 1 < NBUF" using j r by linarith
  obtain db u where u: "install_one j t = Ok () u" "bio_frame t u" "disk_wr u = (unat ?n, v_blk w ?a) # disk_wr t"
    "bio p u (w\<lparr>v_blk := (v_blk w)(?n := v_blk w ?a), v_slot := (v_slot w)(?n \<mapsto> db), v_refs := (v_refs w)(?n := 2 ^ 32 - 1)\<rparr>)"
    using install_fresh [OF t(3) _ a _ ua sl(1) _ sl(2) _ card] bio_frame_log [OF t(2)] r j na [of j] f by auto
  let ?w = "w\<lparr>v_blk := (v_blk w)(?n := v_blk w ?a), v_slot := (v_slot w)(?n \<mapsto> db), v_refs := (v_refs w)(?n := 2 ^ 32 - 1)\<rparr>"
  have S: "f ` {0..<Suc j} = insert ?n (f ` {0..<j})" by (simp add: atLeast0_lessThan_Suc)
  have "for_each [0..<Suc j] install_one s = Ok () u" using t(1) u(1) by (simp add: for_each_append andthen_apply)
  moreover have "dom (v_slot ?w) = f ` {0..<Suc j}" using t(4) S by simp
  moreover have "\<forall>m. m \<notin> f ` {0..<Suc j} \<longrightarrow> v_blk ?w m = v_blk v m" using t(5) S by auto
  moreover have "\<forall>n\<in>f ` {0..<Suc j}. v_refs ?w n = 2 ^ 32 - 1 \<and> v_lock ?w n = None"
    using t(6) S bio_unused(3) [OF t(3) sl(2)] by auto
  moreover have "disk_wr u = rev (map (\<lambda>i. (unat (f i), v_blk v (log_blk s (Suc i)))) [0..<Suc j]) @ disk_wr s"
    using u(3) mp [OF spec [OF t(5)] aa] t(7) by simp
  ultimately show ?case using u(4) bio_frame_trans [OF t(2) u(2)] by blast
qed

text \<open>The header of the log on the disk.\<close>

definition hdr_len :: "'x log_state_scheme \<Rightarrow> nat" where
  "hdr_len s = nat (sint (rd32 (disk_of s (unat (l_start (logr s)))) 0))"

definition hdr_bno :: "'x log_state_scheme \<Rightarrow> nat \<Rightarrow> u32" where
  "hdr_bno s i = rd32 (disk_of s (unat (l_start (logr s)))) (4 + 4 * i)"

definition recover_writes :: "'x log_state_scheme \<Rightarrow> (nat \<times> byte list) list" where
  "recover_writes s = map (\<lambda>i. (unat (hdr_bno s i), disk_of s (unat (l_start (logr s)) + Suc i))) [0..<hdr_len s]"

lemma recover_run:
  fixes s :: "'x log_state_scheme"
  assumes "bio p s v" and e: "\<And>m. v_slot v m = None" and bnd: "log_bounds s (hdr_bno s) (hdr_len s)"
  shows "\<exists>t w h. recover_from_log s = Ok () t \<and> bio p t w \<and> bio_frame (s\<lparr>logr := logr t\<rparr>) t \<and> lh_n (logr t) = 0 \<and>
    l_start (logr t) = l_start (logr s) \<and>
    dom (v_slot w) = hdr_bno s ` {0..<hdr_len s} \<and> (\<forall>n\<in>hdr_bno s ` {0..<hdr_len s}. v_refs w n = 2 ^ 32 - 1 \<and> v_lock w n = None) \<and>
    rd32 h 0 = 0 \<and> disk_wr t = rev (recover_writes s @ [(unat (l_start (logr s)), h)]) @ disk_wr s"
proof -
  note r = bnd [unfolded log_bounds_def]
  let ?a = "l_start (logr s)" and ?k = "hdr_len s"
  have a0: "?a = log_blk s 0" by (simp add: log_blk_def)
  have ua: "?a < 0x80000000" using unat_log_blk(2) [of s 0] r by (simp add: a0)
  have blk: "v_blk v m = disk_of s (unat m)" for m using bio_unused(1) [OF assms(1) e] by (simp add: dblk_def disk_of_def)
  have d0: "dom (v_slot v) = {}" using e by auto
  obtain t1 where t1: "read_head s = Ok () t1" "bio p t1 v" "bio_frame (s\<lparr>logr := logr t1\<rparr>) t1" "disk_wr t1 = disk_wr s"
    "logr t1 = (logr s)\<lparr>lh_n := rd32 (v_blk v ?a) 0, lh_block := fill ?k (hdr_bno s) (lh_block (logr s))\<rparr>"
    using read_head_spec [OF assms(1) _ refl ua e] r d0 unfolding blk hdr_len_def hdr_bno_def by auto
  have same: "log_blk t1 = log_blk s" "log_area t1 = log_area s" using t1(5) by (auto simp: log_blk_def log_area_def fun_eq_iff)
  have mp: "map (fill ?k (hdr_bno s) (lh_block (logr s))) [0..<?k] = map (hdr_bno s) [0..<?k]" by simp
  have b1: "log_bounds t1 (lh_block (logr t1)) ?k" using r same(2) t1(5) by (simp add: log_bounds_def mp del: map_eq_conv)
  have fi: "lh_block (logr t1) ` {0..<?k} = hdr_bno s ` {0..<?k}" using t1(5) by (intro image_cong) simp_all
  obtain t2 w where t2: "for_each [0..<?k] install_one t1 = Ok () t2" "bio_frame t1 t2" "bio p t2 w"
    "dom (v_slot w) = hdr_bno s ` {0..<?k}" "\<forall>m. m \<notin> hdr_bno s ` {0..<?k} \<longrightarrow> v_blk w m = v_blk v m"
    "\<forall>n\<in>hdr_bno s ` {0..<?k}. v_refs w n = 2 ^ 32 - 1 \<and> v_lock w n = None"
    "disk_wr t2 = rev (map (\<lambda>i. (unat (lh_block (logr t1) i), v_blk v (log_blk t1 (Suc i)))) [0..<?k]) @ disk_wr t1"
    using recover_loop [OF t1(2) e refl b1 order.refl] unfolding fi by (elim exE conjE) (rule that; assumption)
  have w2: "disk_wr t2 = rev (recover_writes s) @ disk_wr s"
  proof -
    have "map (\<lambda>i. (unat (lh_block (logr t1) i), v_blk v (log_blk t1 (Suc i)))) [0..<?k] = recover_writes s"
      unfolding recover_writes_def
    proof (rule map_cong [OF refl])
      fix i assume "i \<in> set [0..<?k]"
      then have i: "i < ?k" "Suc i \<le> LOGSIZE" using r by auto
      then show "(unat (lh_block (logr t1) i), v_blk v (log_blk t1 (Suc i))) = (unat (hdr_bno s i), disk_of s (unat ?a + Suc i))"
        using t1(5) same(1) blk unat_log_blk(1) [of s "Suc i"] r by simp
    qed
    then show ?thesis using t2(7) t1(4) by simp
  qed
  note f2 = bio_frame_log [OF t2(2)]
  let ?l = "(logr t1)\<lparr>lh_n := 0\<rparr>"
  let ?h = "hdr_put 0 (lh_block (logr t1)) (v_blk w ?a)"
  have na: "?a \<notin> hdr_bno s ` {0..<?k}"
  proof
    assume "?a \<in> hdr_bno s ` {0..<?k}"
    then obtain i where "?a = hdr_bno s i" "i < ?k" by auto
    moreover have "unat ?a \<in> log_area s" by (simp add: log_area_def)
    ultimately show False using r by simp
  qed
  have wa: "v_slot w ?a = None" using na t2(4) by (auto simp: domIff)
  have card: "card (dom (v_slot w)) < NBUF" using t2(4) card_image_le [of "{0..<?k}" "hdr_bno s"] r by simp
  have b3: "bio p (t2\<lparr>logr := ?l\<rparr>) w" using t2(3) by simp
  obtain t4 where t4: "write_head (t2\<lparr>logr := ?l\<rparr>) = Ok () t4" "bio p t4 (w\<lparr>v_blk := (v_blk w)(?a := ?h)\<rparr>)"
    "bio_frame (t2\<lparr>logr := ?l\<rparr>) t4" "disk_wr t4 = (unat ?a, ?h) # disk_wr t2"
  proof -
    have "l_dev (logr t1) = 1" "?a = l_start (logr t1)" using r t1(5) by simp_all
    then have "\<exists>t. write_head (t2\<lparr>logr := ?l\<rparr>) = Ok () t \<and> bio p t (w\<lparr>v_blk := (v_blk w)(?a := ?h)\<rparr>) \<and>
        bio_frame (t2\<lparr>logr := ?l\<rparr>) t \<and> disk_wr t = (unat ?a, ?h) # disk_wr t2"
      using write_head_spec [OF b3 _ _ _ ua wa card] by simp
    then show thesis using that by blast
  qed
  have l4: "logr t4 = ?l" using bio_frame_log(1) [OF t4(3)] by simp
  have "nat (sint (lh_n (logr t1))) = ?k" using t1(5) blk by (simp add: hdr_len_def)
  then have "install_trans t1 = Ok () t2" using t2(1) by (simp add: install_trans_def bind_apply)
  then have run: "recover_from_log s = Ok () t4" using t1(1) t4(1) f2 by (simp add: recover_from_log_def andthen_apply on_log_apply)
  have fr: "bio_frame (s\<lparr>logr := ?l\<rparr>) t4"
    using bio_frame_trans [OF bio_frame_logr [OF t1(3), of ?l] bio_frame_trans [OF bio_frame_logr [OF t2(2), of ?l] t4(3)]] by simp
  have h0: "rd32 ?h 0 = 0" using hdr_put_facts(2) [OF bio_blk_len [OF t2(3)], of 0] by simp
  have l5: "lh_n (logr t4) = 0" "l_start (logr t4) = ?a" using l4 t1(5) by simp_all
  have fr': "bio_frame (s\<lparr>logr := logr t4\<rparr>) t4" using fr l4 by (simp only:)
  have w4: "disk_wr t4 = rev (recover_writes s @ [(unat ?a, ?h)]) @ disk_wr s" using t4(4) w2 by simp
  have dw: "dom (v_slot (w\<lparr>v_blk := (v_blk w)(?a := ?h)\<rparr>)) = hdr_bno s ` {0..<?k}"
    "\<forall>n\<in>hdr_bno s ` {0..<?k}. v_refs (w\<lparr>v_blk := (v_blk w)(?a := ?h)\<rparr>) n = 2 ^ 32 - 1 \<and> v_lock (w\<lparr>v_blk := (v_blk w)(?a := ?h)\<rparr>) n = None"
    using t2(4,6) by simp_all
  show ?thesis using run t4(2) fr' l5 dw h0 w4 by blast
qed

lemma recover_crash:
  fixes f :: "nat \<Rightarrow> nat" and c :: "nat \<Rightarrow> byte list"
  assumes f: "distinct (map f [0..<k])" "\<And>i. i < k \<Longrightarrow> f i \<notin> {st..st + k}"
    and D: "nat (sint (rd32 (D st) 0)) = k" "\<And>i. i < k \<Longrightarrow> unat (rd32 (D st) (4 + 4 * i)) = f i" "\<And>i. i < k \<Longrightarrow> D (st + Suc i) = c i"
    and h: "rd32 h 0 = 0" and m: "m \<noteq> st"
  defines "W \<equiv> map (\<lambda>i. (f i, c i)) [0..<k]"
  shows "log_replay st (dwrite (take j (W @ [(st, h)])) D) m = log_replay st D m"
proof -
  have D0: "log_replay st D = dwrite W D" unfolding W_def by (rule log_replay_header [OF D])
  have W: "fst ` set (take j W) \<subseteq> f ` {0..<k}" for j using set_take_subset [of j W] by (auto simp: W_def)
  have st: "st \<notin> fst ` set (take i W)" "a < k \<Longrightarrow> st + Suc a \<notin> fst ` set (take i W)" for i a
    using W [of i] f(2) by fastforce+
  show ?thesis
  proof (cases "j \<le> k")
    case True
    let ?X = "dwrite (take j W) D"
    have X: "?X st = D st" "\<And>i. i < k \<Longrightarrow> ?X (st + Suc i) = c i" using st D(3) by (simp_all add: dwrite_other)
    have "log_replay st ?X = dwrite (map (\<lambda>i. (f i, c i)) [0..<k]) ?X"
      using D(1,2) X by (intro log_replay_header) simp_all
    moreover have "dwrite W ?X m = dwrite W D m"
    proof (cases "m \<in> f ` {0..<k}")
      case True
      then show ?thesis using dwrite_map [OF f(1), of _ c] by (auto simp: W_def)
    next
      case False
      then have "m \<notin> fst ` set W" "m \<notin> fst ` set (take j W)" using W [of j] by (auto simp: W_def)
      then show ?thesis by (simp add: dwrite_other)
    qed
    ultimately show ?thesis using True D0 by (simp add: W_def)
  next
    case False
    then have "dwrite (take j (W @ [(st, h)])) D = (dwrite W D)(st := h)" by (simp add: W_def take_Cons')
    then show ?thesis using log_replay_empty [of "(dwrite W D)(st := h)" st] h m D0 by simp
  qed
qed

text \<open>
  C2: recovery. Started with an empty cache on a disk whose log header could have been written by a commit,
  \<open>recover_from_log\<close> leaves, outside the log area, the disk with the committed blocks at their home
  locations, and an empty log. A crash during recovery is harmless: whatever number of its writes is lost, another
  recovery makes the same disk of the rest. Together with C23: after any crash in \<open>commit\<close> and any number of crashes in
  the recoveries that follow, the last recovery shows the old disk or the new one.\<close>

theorem recovery_idempotent:
  fixes s :: "'x log_state_scheme"
  assumes "bio p s v" and "\<And>m. v_slot v m = None" and "log_bounds s (hdr_bno s) (hdr_len s)"
  shows "\<exists>t. recover_from_log s = Ok () t \<and> lh_n (logr t) = 0 \<and> rd32 (disk_of t (unat (l_start (logr s)))) 0 = 0 \<and>
    (\<forall>m. m \<notin> log_area s \<longrightarrow> disk_of t m = log_replay (unat (l_start (logr s))) (disk_of s) m) \<and>
    length (disk_wr t) = length (disk_wr s) + hdr_len s + 1 \<and> (\<forall>j m. j \<le> hdr_len s + 1 \<longrightarrow> m \<notin> log_area s \<longrightarrow>
      log_replay (unat (l_start (logr s))) (crash_disk t j) m = log_replay (unat (l_start (logr s))) (disk_of s) m)"
proof -
  let ?st = "unat (l_start (logr s))" and ?k = "hdr_len s"
  note r = assms(3) [unfolded log_bounds_def]
  obtain t h where t: "recover_from_log s = Ok () t" "bio_frame (s\<lparr>logr := logr t\<rparr>) t" "lh_n (logr t) = 0" "rd32 h 0 = 0"
    "disk_wr t = rev (recover_writes s @ [(?st, h)]) @ disk_wr s"
    using recover_run [OF assms] by blast
  have img: "disk_img t = disk_img s" using bio_frameD(2) [OF t(2)] by simp
  let ?W = "recover_writes s @ [(?st, h)]"
  have cd: "crash_disk t j = dwrite (take (length ?W - j) ?W) (disk_of s)" if "j \<le> length ?W" for j
    unfolding crash_disk_def disk_of_def t(5) img using drop_rev_append [of j ?W "disk_wr s"] that by (simp only: disk_get_dwrite)
  have d: "distinct (map (\<lambda>i. unat (hdr_bno s i)) [0..<?k])"
  proof -
    have "distinct (map unat (map (hdr_bno s) [0..<?k]))"
      using r by (subst distinct_map) (auto simp: inj_on_def dest: unsigned_word_eqI)
    then show ?thesis by (simp add: comp_def)
  qed
  have ar: "unat (hdr_bno s i) \<notin> {?st..?st + ?k}" if "i < ?k" for i using r that unfolding log_area_def by auto
  have rc: "log_replay ?st (dwrite (take j ?W) (disk_of s)) m = log_replay ?st (disk_of s) m" if "m \<notin> log_area s" for j m
    unfolding recover_writes_def
    by (rule recover_crash [OF d ar _ _ refl t(4)]) (use that in \<open>auto simp: hdr_len_def hdr_bno_def log_area_def\<close>)
  have lw: "length ?W = ?k + 1" by (simp add: recover_writes_def)
  have len: "length (disk_wr t) = length (disk_wr s) + ?k + 1" using t(5) by (simp add: recover_writes_def)
  have "disk_of t = dwrite ?W (disk_of s)" using cd [of 0] by (simp add: disk_of_def crash_disk_def)
  moreover from this have "rd32 (disk_of t ?st) 0 = 0" using t(4) by simp
  ultimately have fin: "disk_of t m = log_replay ?st (disk_of s) m" if "m \<notin> log_area s" for m
    using rc [OF that, of "length ?W"] log_replay_empty [of "disk_of t" ?st] by simp
  have "log_replay ?st (crash_disk t j) m = log_replay ?st (disk_of s) m" if "j \<le> ?k + 1" "m \<notin> log_area s" for j m
    using cd [of j] that(1) rc [OF that(2)] unfolding lw by metis
  then show ?thesis using t(1,3) \<open>rd32 (disk_of t ?st) 0 = 0\<close> fin len by blast
qed

text \<open>A log of one block, committed and not installed: what a crash after the header write of \<open>log_st0\<close> leaves.\<close>

definition boot_st0 :: log_state where
  "boot_st0 = disk_state.extend (bcache_st0\<lparr>disk_wr := [(2, wr32 (wr32 (replicate BSIZE 0) 4 50) 0 1), (3, replicate BSIZE 7)]\<rparr>)
     \<lparr>logr = \<lparr>l_start = 2, l_size = 30, l_outstanding = 0, l_committing = False, l_dev = 1, lh_n = 0, lh_block = (\<lambda>_. 0)\<rparr>\<rparr>"

lemma boot_st0_facts:
  shows "bio 0 boot_st0 (bview_of boot_st0)" and "v_slot (bview_of boot_st0) m = None"
    and "hdr_len boot_st0 = 1" and "hdr_bno boot_st0 0 = 50" and "log_bounds boot_st0 (hdr_bno boot_st0) (hdr_len boot_st0)"
proof -
  have q: "fs_quiet 0 boot_st0" using bcache_st0_quiet by (simp add: boot_st0_def disk_state.extend_def fs_quiet_def running_def)
  have "bufs boot_st0 = bufs bcache_st0" by (simp add: boot_st0_def disk_state.extend_def)
  then have r: "ring (bufs boot_st0) [0..<NBUF]" using bcache_st0_ring by (simp only:)
  have l: "length (dblk boot_st0 n) = BSIZE" for n
    by (simp add: dblk_def boot_st0_def disk_state.extend_def bcache_st0_def disk_st0_def sl_state.extend_def disk_get_def)
  have "b_dev (bufs boot_st0 i) = 0 \<and> b_refcnt (bufs boot_st0 i) = 0 \<and> length (b_data (bufs boot_st0 i)) = BSIZE \<and> \<not> sl_locked (slocks boot_st0 (Sl_buf i))" for i
    using bcache_st0_buf [of i] by (simp add: boot_st0_def disk_state.extend_def)
  note boot = bio_boot [OF q r l this]
  show "bio 0 boot_st0 (bview_of boot_st0)" "v_slot (bview_of boot_st0) m = None" by (rule boot)+
  have d: "disk_of boot_st0 2 = wr32 (wr32 (replicate BSIZE 0) 4 50) 0 1" "l_start (logr boot_st0) = 2"
    by (simp_all add: disk_of_def boot_st0_def disk_state.extend_def)
  show l: "hdr_len boot_st0 = 1" and n: "hdr_bno boot_st0 0 = 50" by (simp_all add: hdr_len_def hdr_bno_def d)
  show "log_bounds boot_st0 (hdr_bno boot_st0) (hdr_len boot_st0)"
    using d(2) n by (simp add: log_bounds_def l log_area_def) (simp add: boot_st0_def disk_state.extend_def)
qed

theorem recovery_idempotent_witness:
  "\<exists>t. recover_from_log boot_st0 = Ok () t \<and> disk_of t 50 = replicate BSIZE 7 \<and> log_replay 2 (crash_disk t 1) 50 = replicate BSIZE 7"
proof -
  have st: "l_start (logr boot_st0) = 2" by (simp add: boot_st0_def disk_state.extend_def)
  have d: "disk_of boot_st0 2 = wr32 (wr32 (replicate BSIZE 0) 4 50) 0 1" "disk_of boot_st0 (Suc (Suc (Suc 0))) = replicate BSIZE 7"
    by (simp_all add: disk_of_def boot_st0_def disk_state.extend_def)
  have "log_replay 2 (disk_of boot_st0) 50 = replicate BSIZE 7" by (simp add: log_replay_def d)
  moreover have "50 \<notin> log_area boot_st0" by (simp add: log_area_def st)
  ultimately show ?thesis
    using recovery_idempotent [OF boot_st0_facts(1,2,5)] st boot_st0_facts(3) by auto
qed

text \<open>
  C32: what recovery does to the reference counts. \<open>install_trans\<close> unpins every block it installs, but during recovery
  no block has been pinned by \<open>log_write\<close>: after \<open>recover_from_log\<close> the buffer of every block of the log has
  reference count -1 (\<open>0xffffffff\<close>), so it is never recycled; and the next \<open>bread\<close> of that block brings the count to 0 while
  the buffer is locked and in use, so that another \<open>bget\<close> may take the buffer for a different block.\<close>

theorem recovery_refcnt_underflow:
  fixes s :: "'x log_state_scheme"
  assumes "bio p s v" and "\<And>m. v_slot v m = None" and "log_bounds s (hdr_bno s) (hdr_len s)" and "i < hdr_len s"
  shows "\<exists>t b u. recover_from_log s = Ok () t \<and> b < NBUF \<and> b_blockno (bufs t b) = hdr_bno s i \<and> b_refcnt (bufs t b) = - 1 \<and>
    bread 1 (hdr_bno s i) t = Ok b u \<and> b_refcnt (bufs u b) = 0 \<and> sl_locked (slocks u (Sl_buf b))"
proof -
  let ?n = "hdr_bno s i"
  obtain t w where t: "recover_from_log s = Ok () t" "bio p t w" "dom (v_slot w) = hdr_bno s ` {0..<hdr_len s}"
    "\<forall>n\<in>hdr_bno s ` {0..<hdr_len s}. v_refs w n = 2 ^ 32 - 1 \<and> v_lock w n = None"
    using recover_run [OF assms(1-3)] by (elim exE conjE) (rule that; assumption)
  have "?n \<in> dom (v_slot w)" using assms(4) t(3) by auto
  then obtain b where b: "v_slot w ?n = Some b" by blast
  have w: "v_refs w ?n = 2 ^ 32 - 1" "v_lock w ?n = None" using t(4) assms(4) by auto
  note s = bio_slot [OF t(2) b]
  have "unat (b_refcnt (bufs t b)) = unat (- 1 :: u32)"
    using s(8) w(1) by (simp add: unsigned_minus_1_eq_mask mask_eq_exp_minus_1)
  then have rc: "b_refcnt (bufs t b) = - 1" by (rule unsigned_word_eqI)
  have ul: "\<not> sl_locked (slocks t (Sl_buf b))" using s(11) w(2) by (auto split: if_splits)
  note ok = bcache_okD [OF bioD(3) [OF t(2)]]
  obtain xs where xs: "ring (bufs t) xs" using ok(1) by blast
  have "bget 1 ?n t = Ok b (t\<lparr>bufs := (bufs t)(b := (bufs t b)\<lparr>b_refcnt := b_refcnt (bufs t b) + 1\<rparr>), hw := lock_cycle (hw t),
      slocks := (slocks t)(Sl_buf b := (slocks t (Sl_buf b))\<lparr>sl_locked := True, sl_pid := p_pid (procs t p)\<rparr>)\<rparr>)"
    using bget_run [OF bioD(2) [OF t(2)] xs ok(4,3), of ?n] ul s(2) by simp
  then have "bread 1 ?n t = Ok b (t\<lparr>bufs := (bufs t)(b := (bufs t b)\<lparr>b_refcnt := 0\<rparr>), hw := lock_cycle (hw t),
      slocks := (slocks t)(Sl_buf b := (slocks t (Sl_buf b))\<lparr>sl_locked := True, sl_pid := p_pid (procs t p)\<rparr>)\<rparr>)"
    using s(6) rc by (simp add: bread_def bind_apply andthen_apply)
  then show ?thesis using t(1) s(1,4) rc by fastforce
qed

theorem recovery_refcnt_underflow_witness:
  "\<exists>t b. recover_from_log boot_st0 = Ok () t \<and> b_blockno (bufs t b) = 50 \<and> b_refcnt (bufs t b) = - 1"
  using recovery_refcnt_underflow [OF boot_st0_facts(1,2,5), of 0] boot_st0_facts(3,4) by auto

section \<open>Transactions\<close>

lemma log_slot_find:
  assumes "0 \<le> sint (lh_n (logr s))"
  shows "if n \<in> set (log_bnos s) then log_slot (logr s) n < log_len s \<and> lh_block (logr s) (log_slot (logr s) n) = n
    else log_slot (logr s) n = log_len s"
proof (cases "find (\<lambda>i. lh_block (logr s) i = n) [0..<log_len s]")
  case None
  then have "n \<notin> set (log_bnos s)" by (auto simp: find_None_iff log_bnos_def)
  then show ?thesis using None by (simp add: log_slot_def log_len_def)
next
  case (Some i)
  then have "i < log_len s" "lh_block (logr s) i = n" by (auto simp: find_Some_iff)
  then have "n \<in> set (log_bnos s)" by (auto simp: log_bnos_def)
  then show ?thesis using Some \<open>i < log_len s\<close> \<open>lh_block (logr s) i = n\<close> by (simp add: log_slot_def log_len_def)
qed

lemma log_write_run:
  assumes "running p s" and "0 \<le> sint (lh_n (logr s))" and "n = b_blockno (bufs s b)"
  shows "log_write b s =
    (if int LOGSIZE \<le> sint (lh_n (logr s)) \<or> sint (l_size (logr s) - 1) \<le> sint (lh_n (logr s)) then Panic ''too big a transaction''
     else if sint (l_outstanding (logr s)) < 1 then Panic ''log_write outside of trans''
     else if n \<in> set (log_bnos s) then Ok () (s\<lparr>hw := lock_cycle (hw s)\<rparr>)
     else Ok () (s\<lparr>hw := lock_cycle (hw s), bufs := (bufs s)(b := (bufs s b)\<lparr>b_refcnt := b_refcnt (bufs s b) + 1\<rparr>),
       logr := (logr s)\<lparr>lh_block := (lh_block (logr s))(log_len s := n), lh_n := lh_n (logr s) + 1\<rparr>\<rparr>))"
proof -
  note h = running_facts [OF assms(1)]
  note f = log_slot_find [OF assms(2), of n]
  have k: "int (log_len s) = sint (lh_n (logr s))" using assms(2) by (simp add: log_len_def)
  show ?thesis
  proof (cases "n \<in> set (log_bnos s)")
    case True
    have "lh_block (logr s) (log_slot (logr s) n) = n" "int (log_slot (logr s) n) \<noteq> sint (lh_n (logr s))" using f True k by simp_all
    then show ?thesis using True h assms(3) [symmetric] by (simp add: log_write_def on_log_apply kop fun_upd_idem)
  next
    case False
    then have "log_slot (logr s) n = log_len s" using f by simp
    then show ?thesis using False h assms(3) [symmetric] k
      by (auto simp: log_write_def on_log_apply bpin_def on_buf_def kop intro!: log_state.equality)
  qed
qed

text \<open>
  \<open>tx p s B H\<close>: process \<open>p\<close> is in a transaction, the contents of the blocks are \<open>B\<close>, it holds the buffers \<open>H\<close> and nobody
  else holds one. Every logged block has one reference besides, and every block that is neither held nor logged is as
  on the disk.
\<close>

definition log_ok :: "'x log_state_scheme \<Rightarrow> u32 set \<Rightarrow> bool" where
  "log_ok s X \<longleftrightarrow> l_dev (logr s) = 1 \<and> 0 \<le> sint (lh_n (logr s)) \<and> log_len s \<le> LOGSIZE \<and> distinct (log_bnos s) \<and>
     unat (l_start (logr s)) + LOGSIZE < 0x80000000 \<and> (\<forall>n\<in>X. unat n \<notin> log_area s)"

definition txv :: "nat \<Rightarrow> 'x log_state_scheme \<Rightarrow> (u32 \<Rightarrow> byte list) \<Rightarrow> (u32 \<Rightarrow> nat option) \<Rightarrow> bview \<Rightarrow> bool" where
  "txv p s B H v \<longleftrightarrow> bio p s v \<and> v_blk v = B \<and>
     (\<forall>n. v_lock v n = (if H n = None then None else Some (p_pid (procs s p)))) \<and>
     (\<forall>n. v_refs v n = (if n \<in> set (log_bnos s) then 1 else 0) + (if H n = None then 0 else 1)) \<and>
     (\<forall>n b. H n = Some b \<longrightarrow> v_slot v n = Some b) \<and>
     (\<forall>n. n \<notin> set (log_bnos s) \<longrightarrow> H n = None \<longrightarrow> B n = dblk s n) \<and> log_ok s (set (log_bnos s) \<union> dom H)"

definition tx :: "nat \<Rightarrow> 'x log_state_scheme \<Rightarrow> (u32 \<Rightarrow> byte list) \<Rightarrow> (u32 \<Rightarrow> nat option) \<Rightarrow> bool" where
  "tx p s B H \<longleftrightarrow> (\<exists>v. txv p s B H v)"

lemma txvD:
  assumes "txv p s B H v"
  shows "bio p s v" "v_blk v = B" "\<And>n. v_lock v n = (if H n = None then None else Some (p_pid (procs s p)))"
    "\<And>n. v_refs v n = (if n \<in> set (log_bnos s) then 1 else 0) + (if H n = None then 0 else 1)"
    "\<And>n b. H n = Some b \<Longrightarrow> v_slot v n = Some b" "\<And>n. n \<notin> set (log_bnos s) \<Longrightarrow> H n = None \<Longrightarrow> B n = dblk s n"
    "log_ok s (set (log_bnos s) \<union> dom H)" "dom (v_slot v) = set (log_bnos s) \<union> dom H"
proof -
  show v: "bio p s v" "v_blk v = B" "\<And>n. v_lock v n = (if H n = None then None else Some (p_pid (procs s p)))"
    "\<And>n. v_refs v n = (if n \<in> set (log_bnos s) then 1 else 0) + (if H n = None then 0 else 1)"
    "\<And>n b. H n = Some b \<Longrightarrow> v_slot v n = Some b" "\<And>n. n \<notin> set (log_bnos s) \<Longrightarrow> H n = None \<Longrightarrow> B n = dblk s n"
    "log_ok s (set (log_bnos s) \<union> dom H)"
    using assms unfolding txv_def by simp_all
  have "n \<in> dom (v_slot v) \<longleftrightarrow> v_refs v n \<noteq> 0" for n
    using bio_slot(9) [OF v(1), of n] bio_unused(2) [OF v(1), of n] by (cases "v_slot v n") auto
  then have "n \<in> dom (v_slot v) \<longleftrightarrow> n \<in> set (log_bnos s) \<union> dom H" for n using v(4) [of n] by (simp add: domIff)
  then show "dom (v_slot v) = set (log_bnos s) \<union> dom H" by blast
qed

definition tx_frame :: "'x log_state_scheme \<Rightarrow> 'x log_state_scheme \<Rightarrow> bool" where
  "tx_frame s t \<longleftrightarrow> bio_frame (s\<lparr>logr := logr t\<rparr>) t \<and> disk_wr t = disk_wr s \<and>
     logr t = (logr s)\<lparr>lh_n := lh_n (logr t), lh_block := lh_block (logr t)\<rparr> \<and> set (log_bnos s) \<subseteq> set (log_bnos t)"

lemma tx_frame_bio: "bio_frame s t \<Longrightarrow> disk_wr t = disk_wr s \<Longrightarrow> tx_frame s t"
  using bio_frame_log(1) [of s t] by (simp add: tx_frame_def log_bnos_def log_len_def)

lemma tx_frame_trans:
  assumes "tx_frame s t" and "tx_frame t u"
  shows "tx_frame s u"
proof -
  have "bio_frame (s\<lparr>logr := logr u\<rparr>) u"
    using bio_frame_trans [OF bio_frame_logr [of "s\<lparr>logr := logr t\<rparr>" t "logr u"]] assms by (simp add: tx_frame_def)
  moreover have "logr u = (logr s)\<lparr>lh_n := lh_n (logr u), lh_block := lh_block (logr u)\<rparr>"
  proof -
    have t: "logr t = (logr s)\<lparr>lh_n := lh_n (logr t), lh_block := lh_block (logr t)\<rparr>"
      and u: "logr u = (logr t)\<lparr>lh_n := lh_n (logr u), lh_block := lh_block (logr u)\<rparr>" using assms by (simp_all add: tx_frame_def)
    show ?thesis by (subst u, subst t) simp
  qed
  ultimately show ?thesis using assms by (auto simp: tx_frame_def)
qed

lemma bio_frame_same:
  fixes s :: "'x log_state_scheme"
  assumes "bio_frame s t" and "disk_wr t = disk_wr s"
  shows "log_bnos t = log_bnos s" "dblk t = dblk s" "log_area t = log_area s" "log_len t = log_len s"
proof -
  note f = bio_frame_log [OF assms(1)]
  show "log_bnos t = log_bnos s" "log_area t = log_area s" "log_len t = log_len s"
    using f by (simp_all add: log_bnos_def log_len_def log_area_def)
  show "dblk t = dblk s" using assms(2) bio_frameD(2) [OF assms(1)] by (intro ext) (simp add: dblk_def)
qed

lemma tx_bread:
  fixes s :: "'x log_state_scheme"
  assumes "tx p s B H" and "H n = None" "n < 0x80000000" "unat n \<notin> log_area s" and cap: "log_len s + card (dom H) < NBUF"
  shows "\<exists>b t. bread 1 n s = Ok b t \<and> tx p t B (H(n \<mapsto> b)) \<and> b_data (bufs t b) = B n \<and> bio_frame s t \<and> disk_wr t = disk_wr s"
proof -
  obtain v where "txv p s B H v" using assms(1) by (auto simp: tx_def)
  note v = txvD [OF this]
  let ?me = "p_pid (procs s p)"
  have "card (dom (v_slot v)) \<le> log_len s + card (dom H)"
    unfolding v(8) using card_Un_le [of "set (log_bnos s)" "dom H"] card_length [of "log_bnos s"] by (simp add: log_bnos_def)
  then have "vcap v n" using cap v(4) [of n] assms(2) by (auto simp: vcap_def)
  then obtain b t where t: "bread 1 n s = Ok b t" "bio p t (v_get n b ?me v)" "bio_frame s t" "disk_wr t = disk_wr s"
    using bread_spec [OF v(1) assms(3)] v(3) assms(2) by auto
  note f = bio_frame_log [OF t(3)]
  note same = bio_frame_same [OF t(3,4)]
  have "txv p t B (H(n \<mapsto> b)) (v_get n b ?me v)" unfolding txv_def
    by (intro conjI allI impI) (use t(2) v f same assms(2,4) in \<open>auto simp: log_ok_def split: if_splits\<close>)
  then have "tx p t B (H(n \<mapsto> b))" by (auto simp: tx_def)
  moreover have "b_data (bufs t b) = B n" using bio_slot(7) [OF t(2), of n b] v(2) by simp
  ultimately show ?thesis using t by blast
qed

lemma tx_data:
  fixes s :: "'x log_state_scheme"
  assumes "tx p s B H" and "H n = Some b" and "length (f (B n)) = BSIZE"
  shows "\<exists>t. on_buf b (\<lambda>x. x\<lparr>b_data := f (b_data x)\<rparr>) s = Ok () t \<and> tx p t (B(n := f (B n))) H \<and> bio_frame s t \<and> disk_wr t = disk_wr s"
proof -
  obtain v where "txv p s B H v" using assms(1) by (auto simp: tx_def)
  note v = txvD [OF this]
  let ?t = "s\<lparr>bufs := (bufs s)(b := (bufs s b)\<lparr>b_data := f (b_data (bufs s b))\<rparr>)\<rparr>"
  have t: "bio p ?t (v\<lparr>v_blk := (v_blk v)(n := f (v_blk v n))\<rparr>)"
    by (rule b_data_spec [OF v(1) v(5) [OF assms(2)]]) (simp add: v(2) assms(3))
  have f: "bio_frame s ?t" by (auto simp: bio_frame_def intro!: disk_state.equality)
  note same = bio_frame_same [OF f, simplified] bio_frame_log [OF f]
  have "txv p ?t (B(n := f (B n))) H (v\<lparr>v_blk := (v_blk v)(n := f (v_blk v n))\<rparr>)" unfolding txv_def
    by (intro conjI allI impI) (use t v same assms(2) in \<open>auto simp: log_ok_def\<close>)
  then have "tx p ?t (B(n := f (B n))) H" by (auto simp: tx_def)
  moreover have "on_buf b (\<lambda>x. x\<lparr>b_data := f (b_data x)\<rparr>) s = Ok () ?t" by (simp add: on_buf_def modify_def)
  ultimately show ?thesis using f by auto
qed

lemma tx_brelse:
  fixes s :: "'x log_state_scheme"
  assumes "tx p s B H" and "H n = Some b" and "n \<in> set (log_bnos s) \<or> B n = dblk s n"
  shows "\<exists>t. brelse b s = Ok () t \<and> tx p t B (H(n := None)) \<and> bio_frame s t \<and> disk_wr t = disk_wr s"
proof -
  obtain v where "txv p s B H v" using assms(1) by (auto simp: tx_def)
  note v = txvD [OF this]
  obtain t where t: "brelse b s = Ok () t" "bio p t (v_put n v)" "bio_frame s t" "disk_wr t = disk_wr s"
    using brelse_spec [OF v(1) v(5) [OF assms(2)]] v(3,4) [of n] v(2) assms(2,3) by (auto split: if_splits)
  note same = bio_frame_same [OF t(3,4)] bio_frame_log [OF t(3)]
  have "txv p t B (H(n := None)) (v_put n v)" unfolding txv_def
    by (intro conjI allI impI) (use t v same assms(2,3) in \<open>auto simp: log_ok_def split: if_splits\<close>)
  then show ?thesis using t by (auto simp: tx_def)
qed

text \<open>The room left for \<open>log_write\<close>, and that a transaction is open.\<close>

definition log_room :: "'x log_state_scheme \<Rightarrow> nat \<Rightarrow> bool" where
  "log_room s k \<longleftrightarrow> log_len s + k \<le> LOGSIZE \<and> int (log_len s) + int k \<le> sint (l_size (logr s) - 1) \<and> 1 \<le> sint (l_outstanding (logr s))"

lemma sint_plus_one:
  fixes w :: u32
  assumes "0 \<le> sint w" and "sint w < 100"
  shows "sint (w + 1) = sint w + 1"
  using assms by (simp add: sint_word_ariths signed_take_bit_int_eq_self)

lemma tx_log_write:
  fixes s :: "'x log_state_scheme"
  assumes "tx p s B H" and "H n = Some b" and "log_room s 1"
  shows "\<exists>t. log_write b s = Ok () t \<and> tx p t B H \<and> tx_frame s t \<and> n \<in> set (log_bnos t) \<and> set (log_bnos t) = insert n (set (log_bnos s)) \<and>
    log_len t \<le> log_len s + 1"
proof -
  obtain v where "txv p s B H v" using assms(1) by (auto simp: tx_def)
  note v = txvD [OF this]
  note b = bio_slot [OF v(1) v(5) [OF assms(2)]]
  note lo = v(7) [unfolded log_ok_def]
  have k: "int (log_len s) = sint (lh_n (logr s))" using lo by (simp add: log_len_def)
  note run = log_write_run [OF bioD(2) [OF v(1)], of n b]
  show ?thesis
  proof (cases "n \<in> set (log_bnos s)")
    case True
    let ?t = "s\<lparr>hw := lock_cycle (hw s)\<rparr>"
    have r: "log_write b s = Ok () ?t" using run lo b(4) True assms(3) k by (simp add: log_room_def)
    have f: "bio_frame s ?t" by (auto simp: bio_frame_def intro!: disk_state.equality)
    note same = bio_frame_same [OF f, simplified] bio_frame_log [OF f]
    have "txv p ?t B H v" unfolding txv_def
      by (intro conjI allI impI) (use bio_lock_cycle [OF v(1)] v same in \<open>auto simp: log_ok_def\<close>)
    then have "tx p ?t B H" by (auto simp: tx_def)
    then show ?thesis using r True same tx_frame_bio [OF f] by auto
  next
    case False
    let ?l = "(logr s)\<lparr>lh_block := (lh_block (logr s))(log_len s := n), lh_n := lh_n (logr s) + 1\<rparr>"
    let ?t = "s\<lparr>hw := lock_cycle (hw s), bufs := (bufs s)(b := (bufs s b)\<lparr>b_refcnt := b_refcnt (bufs s b) + 1\<rparr>), logr := ?l\<rparr>"
    have r: "log_write b s = Ok () ?t" using run lo b(4) False assms(3) k by (simp add: log_room_def)
    obtain t1 where t1: "bpin b s = Ok () t1" "bio p t1 (v_pin n v)"
      using bpin_spec [OF v(1) v(5) [OF assms(2)]] v(4) [of n] assms(2) False by auto
    have "t1 = s\<lparr>bufs := (bufs s)(b := (bufs s b)\<lparr>b_refcnt := b_refcnt (bufs s b) + 1\<rparr>), hw := lock_cycle (hw s)\<rparr>"
      using t1(1) bpin_run [OF bioD(2) [OF v(1)], of b] by simp
    then have "bio p ?t (v_pin n v) = bio p t1 (v_pin n v)" by (intro bio_cong) simp_all
    then have bt: "bio p ?t (v_pin n v)" using t1(2) by simp
    have "sint (lh_n (logr s)) < 100" using lo k by linarith
    then have "sint (lh_n (logr s) + 1) = sint (lh_n (logr s)) + 1" using lo by (intro sint_plus_one) auto
    then have len: "log_len ?t = Suc (log_len s)" "0 \<le> sint (lh_n (logr s) + 1)"
      using conjunct1 [OF conjunct2 [OF lo]] by (simp_all add: log_len_def nat_add_distrib)
    have bn: "log_bnos ?t = log_bnos s @ [n]" using len(1) by (simp add: log_bnos_def)
    have f: "bio_frame (s\<lparr>logr := ?l\<rparr>) ?t" by (auto simp: bio_frame_def intro!: disk_state.equality)
    have same: "dblk ?t = dblk s" "log_area ?t = log_area s" by (simp_all add: dblk_def fun_eq_iff log_area_def)
    have na: "unat n \<notin> log_area s" using lo assms(2) by auto
    have ll: "Suc (log_len s) \<le> LOGSIZE" using assms(3) by (simp add: log_room_def)
    have "txv p ?t B H (v_pin n v)" unfolding txv_def
    proof (intro conjI allI impI)
      show "log_ok ?t (set (log_bnos ?t) \<union> dom H)"
        unfolding log_ok_def bn same len(1) using lo len(2) ll False na by auto
      show "B m = dblk ?t m" if "m \<notin> set (log_bnos ?t)" "H m = None" for m using v(6) that bn same by simp
      show "v_refs (v_pin n v) m = (if m \<in> set (log_bnos ?t) then 1 else 0) + (if H m = None then 0 else 1)" for m
        using v(4) [of m] v(4) [of n] False by (auto simp: bn)
    qed (use bt v in simp_all)
    then have "tx p ?t B H" by (auto simp: tx_def)
    moreover have "tx_frame s ?t" using f bn by (auto simp: tx_frame_def)
    ultimately show ?thesis using r bn len(1) by auto
  qed
qed

lemma tx_ready:
  assumes "txv p s B Map.empty v" and "log_len s < NBUF"
  shows "log_ready s v"
proof -
  note v = txvD [OF assms(1)]
  note lo = v(7) [unfolded log_ok_def]
  have card: "card (dom (v_slot v)) < NBUF"
    using v(8) card_length [of "log_bnos s"] assms(2) by (simp add: log_bnos_def)
  have "v_slot v (log_blk s i) = None" if "i \<le> LOGSIZE" for i
    using log_area_blk [OF that, of s] lo v(8) by (auto simp: domIff)
  then show ?thesis using lo v(3,4,8) card by (auto simp: log_ready_def)
qed

lemma tx_disk_blocks:
  assumes "txv p s B Map.empty v"
  shows "tx_disk s B (unat n) = B n"
proof (cases "n \<in> set (log_bnos s)")
  case True
  have "distinct (map unat (log_bnos s))"
    using txvD(7) [OF assms] by (auto simp: log_ok_def distinct_map inj_on_def dest: unsigned_word_eqI)
  then show ?thesis using dwrite_map [of unat "log_bnos s" n B] True by (simp add: tx_disk_def)
next
  case False
  then have "unat n \<notin> fst ` set (map (\<lambda>n. (unat n, B n)) (log_bnos s))" by (auto dest: unsigned_word_eqI)
  then show ?thesis using txvD(6) [OF assms False] by (simp add: tx_disk_def dwrite_other dblk_def disk_of_def)
qed

lemma end_op_last:
  fixes s :: "'x log_state_scheme"
  assumes "bio p s v" and "l_outstanding (logr s) = 1" and "\<not> l_committing (logr s)"
    and c: "commit (s\<lparr>logr := (logr s)\<lparr>l_outstanding := 0, l_committing := True\<rparr>, hw := lock_cycle (hw s)\<rparr>) = Ok () t" and "bio p t w"
  shows "end_op s = Ok () (t\<lparr>logr := (logr t)\<lparr>l_committing := False\<rparr>, hw := lock_cycle (hw t)\<rparr>)"
proof -
  note h = running_facts [OF bioD(2) [OF assms(1)]] and ht = running_facts [OF bioD(2) [OF assms(5)]]
  note q = fs_quietD [OF bioD(1) [OF assms(5)]]
  have w: "woken Ch_log [0..<NPROC] (procs t) = procs t" using q(6) by simp
  have pf: "plocks_free (held Lk_log (hw t))" using ht by (simp add: plocks_free_def)
  have io: "intr_ok (held Lk_log (hw t))" using ht by simp
  show ?thesis using h ht c assms(2,3) w pf io
    by (simp add: end_op_def on_log_apply wakeup_run kop)
qed

text \<open>The state between transactions.\<close>

lemma tx_idle:
  assumes "bio p t w" and "\<And>n. v_slot w n = None" and "log_ok t {}" and "log_len t = 0"
  shows "tx p t (v_blk w) Map.empty"
proof -
  have "log_bnos t = []" using assms(4) by (simp add: log_bnos_def)
  then show ?thesis unfolding tx_def txv_def using assms(1,3) bio_unused [OF assms(1,2)] by (intro exI [of _ w]) simp
qed

lemma end_op_commits:
  fixes s :: "'x log_state_scheme"
  assumes tx: "tx p s B Map.empty" and out: "l_outstanding (logr s) = 1" "\<not> l_committing (logr s)" and len: "log_len s < NBUF" "0 < log_len s"
    and h0: "rd32 (disk_of s (unat (l_start (logr s)))) 0 = 0"
  shows "\<exists>t B'. end_op s = Ok () t \<and> tx p t B' Map.empty \<and> log_len t = 0 \<and> l_outstanding (logr t) = 0 \<and>
    length (disk_wr t) = length (disk_wr s) + 2 * log_len s + 2 \<and>
    (\<forall>n. unat n \<notin> log_area s \<longrightarrow> B' n = B n \<and> disk_of t (unat n) = B n) \<and>
    (\<forall>j n. j \<le> 2 * log_len s + 2 \<longrightarrow> unat n \<notin> log_area s \<longrightarrow> log_replay (unat (l_start (logr s))) (crash_disk t j) (unat n) =
      (if j \<le> log_len s + 1 then B n else disk_of s (unat n)))"
proof -
  obtain v where v0: "txv p s B Map.empty v" using tx by (auto simp: tx_def)
  note v = txvD [OF v0]
  note lo = v(7) [unfolded log_ok_def]
  let ?l = "(logr s)\<lparr>l_outstanding := 0, l_committing := True\<rparr>"
  let ?s = "s\<lparr>logr := ?l, hw := lock_cycle (hw s)\<rparr>"
  have b: "bio p ?s v" using bio_lock_cycle [of p "s\<lparr>logr := ?l\<rparr>" v] v(1) by simp
  have same: "log_len ?s = log_len s" "log_bnos ?s = log_bnos s" "log_area ?s = log_area s" "disk_of ?s = disk_of s" "log_blk ?s = log_blk s"
    by (simp_all add: log_len_def log_bnos_def log_area_def disk_of_def log_blk_def fun_eq_iff)
  have tx_same: "tx_disk ?s (v_blk v) = tx_disk s B" by (simp add: tx_disk_def same v(2))
  have ready: "log_ready ?s v" using tx_ready [OF v0 len(1)] unfolding log_ready_def same by simp
  have pos: "0 < log_len ?s" using len(2) same by simp
  have h1: "rd32 (disk_of ?s (unat (l_start (logr ?s)))) 0 = 0" unfolding same using h0 by simp
  obtain t B' where t: "commit ?s = Ok () t" "bio p t (v\<lparr>v_blk := B', v_slot := (\<lambda>m. if m \<in> set (log_bnos ?s) then None else v_slot v m),
      v_refs := (\<lambda>m. if m \<in> set (log_bnos ?s) then 0 else v_refs v m)\<rparr>)"
    "\<forall>m. m \<notin> log_blk ?s ` {0..LOGSIZE} \<longrightarrow> B' m = v_blk v m" "logr t = ?l\<lparr>lh_n := 0\<rparr>"
    using commit_run [OF b ready pos] by (elim exE conjE) (rule that; simp)
  have safe: "length (disk_wr t) = length (disk_wr s) + 2 * log_len s + 2"
    "\<And>m. m \<notin> log_area s \<Longrightarrow> disk_of t m = tx_disk s B m"
    "\<And>j m. j \<le> 2 * log_len s + 2 \<Longrightarrow> m \<notin> log_area s \<Longrightarrow> log_replay (unat (l_start (logr s))) (crash_disk t j) m =
      (if j \<le> log_len s + 1 then tx_disk s B m else disk_of s m)"
    using commit_safe [OF b ready pos h1] t(1) unfolding same tx_same by auto
  let ?w = "v\<lparr>v_blk := B', v_slot := (\<lambda>m. if m \<in> set (log_bnos ?s) then None else v_slot v m), v_refs := (\<lambda>m. if m \<in> set (log_bnos ?s) then 0 else v_refs v m)\<rparr>"
  let ?t = "t\<lparr>logr := (logr t)\<lparr>l_committing := False\<rparr>, hw := lock_cycle (hw t)\<rparr>"
  have run: "end_op s = Ok () ?t" by (rule end_op_last [OF v(1) out t(1,2)])
  have bt: "bio p ?t ?w" using bio_lock_cycle [of p "t\<lparr>logr := (logr t)\<lparr>l_committing := False\<rparr>\<rparr>" ?w] t(2) by simp
  have slots: "v_slot ?w n = None" for n using v(8) same(2) by (auto simp: domIff)
  have l0: "log_len ?t = 0" using t(4) by (simp add: log_len_def)
  have "log_ok ?t {}" using lo l0 t(4) by (simp add: log_ok_def log_bnos_def)
  then have tt: "tx p ?t B' Map.empty" using tx_idle [OF bt slots _ l0] by simp
  have d: "disk_of ?t = disk_of t" "crash_disk ?t = crash_disk t" by (simp_all add: disk_of_def crash_disk_def fun_eq_iff)
  have Bn: "B' n = B n" if "unat n \<notin> log_area s" for n
  proof -
    have "n \<notin> log_blk s ` {0..LOGSIZE}" using log_area_blk [of _ s] lo that by auto
    then show ?thesis using t(3) v(2) same(5) by simp
  qed
  have o: "l_outstanding (logr ?t) = 0" "disk_wr ?t = disk_wr t" using t(4) by simp_all
  have "disk_of ?t (unat n) = B n" if "unat n \<notin> log_area s" for n unfolding d using safe(2) [OF that] tx_disk_blocks [OF v0] by simp
  moreover have "log_replay (unat (l_start (logr s))) (crash_disk ?t j) (unat n) = (if j \<le> log_len s + 1 then B n else disk_of s (unat n))"
    if "j \<le> 2 * log_len s + 2" "unat n \<notin> log_area s" for j n
    unfolding d using safe(3) [OF that] tx_disk_blocks [OF v0] by simp
  ultimately show ?thesis using run tt l0 o safe(1) Bn unfolding o(2) [symmetric] by blast
qed

lemma tx_logr:
  assumes "tx p s B H" and "lh_n l = lh_n (logr s)" "lh_block l = lh_block (logr s)" "l_start l = l_start (logr s)" "l_dev l = l_dev (logr s)"
  shows "tx p (s\<lparr>logr := l, hw := lock_cycle (hw s)\<rparr>) B H"
proof -
  let ?t = "s\<lparr>logr := l, hw := lock_cycle (hw s)\<rparr>"
  obtain v where v0: "txv p s B H v" using assms(1) by (auto simp: tx_def)
  note v = txvD [OF this]
  have b: "bio p ?t v" using bio_lock_cycle [of p "s\<lparr>logr := l\<rparr>" v] v(1) by simp
  have "log_len ?t = log_len s" "log_bnos ?t = log_bnos s" "log_area ?t = log_area s" "dblk ?t = dblk s"
    using assms(2-5) by (simp_all add: log_len_def log_bnos_def log_area_def dblk_def fun_eq_iff)
  then have "txv p ?t B H v" using v0 b assms(2-5) by (simp add: txv_def log_ok_def)
  then show ?thesis by (auto simp: tx_def)
qed

lemma begin_op_run:
  assumes "running p s" and "\<not> l_committing (logr s)" and "sint (lh_n (logr s) + (l_outstanding (logr s) + 1) * of_nat MAXOPBLOCKS) \<le> int LOGSIZE"
  shows "begin_op s = Ok () (s\<lparr>logr := (logr s)\<lparr>l_outstanding := l_outstanding (logr s) + 1\<rparr>, hw := lock_cycle (hw s)\<rparr>)"
  using running_facts [OF assms(1)] assms(2,3) by (simp add: begin_op_def begin_op_loop_def on_log_apply kop)

lemma log_len_0: "0 \<le> sint (lh_n (logr s)) \<Longrightarrow> log_len s = 0 \<Longrightarrow> lh_n (logr s) = 0"
  by (auto simp: log_len_def intro!: signed_word_eqI)

text \<open>
  \<open>tx_op p s B m B'\<close>: started by \<open>p\<close> in a new transaction on blocks \<open>B\<close>, the operation \<open>m\<close> returns and leaves the blocks
  \<open>B'\<close>, with no buffer held, every change logged, and a buffer to spare for the commit.
\<close>

definition tx_op :: "nat \<Rightarrow> 'x log_state_scheme \<Rightarrow> (u32 \<Rightarrow> byte list) \<Rightarrow> (unit, 'x log_state_scheme) kop \<Rightarrow> (u32 \<Rightarrow> byte list) \<Rightarrow> bool" where
  "tx_op p s B m B' \<longleftrightarrow> (\<forall>t. tx p t B Map.empty \<and> log_len t = 0 \<and> l_outstanding (logr t) = 1 \<and> l_size (logr t) = l_size (logr s) \<and>
       log_area t = log_area s \<longrightarrow>
     (\<exists>u. m t = Ok () u \<and> tx p u B' Map.empty \<and> tx_frame t u \<and> log_len u < NBUF))"

text \<open>
  C1: transactions are atomic and durable. Let a process run \<open>begin_op\<close>, some operation \<open>m\<close>, and \<open>end_op\<close>, with no other
  file system call under way, where \<open>m\<close> keeps to the rules of the log: it leaves the blocks with contents
  \<open>B'\<close>, holds no buffer at its end and has passed every block it changed to \<open>log_write\<close>. Then the three return, and
  afterwards every block outside the log area is on the disk with its contents \<open>B'\<close> and the log is empty. Whatever number of
  the last block writes a crash loses, recovery makes either the blocks of before \<open>begin_op\<close>, all of
  them, or the blocks of after \<open>m\<close>, all of them; and no write at all happens before \<open>end_op\<close>.\<close>

theorem transaction_atomic:
  fixes s :: "'x log_state_scheme" and m :: "(unit, 'x log_state_scheme) kop"
  assumes "tx p s B Map.empty" and "log_len s = 0" and "l_outstanding (logr s) = 0" "\<not> l_committing (logr s)"
    and "rd32 (disk_of s (unat (l_start (logr s)))) 0 = 0"
    and "tx_op p s B m B'"
  shows "\<exists>t. andthen begin_op (andthen m end_op) s = Ok () t \<and> log_len t = 0 \<and> l_outstanding (logr t) = 0 \<and>
    (\<forall>n. unat n \<notin> log_area s \<longrightarrow> disk_of t (unat n) = B' n) \<and>
    (\<exists>c. \<forall>j n. j \<le> length (disk_wr t) - length (disk_wr s) \<longrightarrow> unat n \<notin> log_area s \<longrightarrow>
      log_replay (unat (l_start (logr s))) (crash_disk t j) (unat n) = (if j \<le> c then B' n else B n))"
proof -
  obtain v where v0: "txv p s B Map.empty v" using assms(1) by (auto simp: tx_def)
  note v = txvD [OF v0]
  have lh: "lh_n (logr s) = 0" using v(7) assms(2) by (intro log_len_0) (simp add: log_ok_def)
  let ?s1 = "s\<lparr>logr := (logr s)\<lparr>l_outstanding := 1\<rparr>, hw := lock_cycle (hw s)\<rparr>"
  have s1: "begin_op s = Ok () ?s1" using begin_op_run [OF bioD(2) [OF v(1)] assms(4)] lh assms(3) by simp
  have t1: "tx p ?s1 B Map.empty" by (rule tx_logr [OF assms(1)]) simp_all
  have same: "log_len ?s1 = 0" "log_area ?s1 = log_area s" "disk_of ?s1 = disk_of s"
    using assms(2) by (simp_all add: log_len_def log_area_def disk_of_def)
  obtain u where u: "m ?s1 = Ok () u" "tx p u B' Map.empty" "tx_frame ?s1 u" "log_len u < NBUF"
    using assms(6) t1 same unfolding tx_op_def by auto
  have lu: "logr u = (logr ?s1)\<lparr>lh_n := lh_n (logr u), lh_block := lh_block (logr u)\<rparr>" "disk_wr u = disk_wr s"
    using u(3) by (simp_all add: tx_frame_def)
  have ul: "l_start (logr u) = l_start (logr s)" "l_outstanding (logr u) = 1" "\<not> l_committing (logr u)"
    using assms(4) by (subst lu(1), simp)+
  have ar: "log_area u = log_area s" using ul(1) by (simp add: log_area_def)
  have "disk_img u = disk_img s" using bio_frameD(2) [of "?s1\<lparr>logr := logr u\<rparr>" u] u(3) by (simp add: tx_frame_def)
  then have du: "disk_of u = disk_of s" using lu(2) by (simp add: disk_of_def)
  have Bs: "disk_of s (unat n) = B n" for n using v(6) [of n] assms(2) by (simp add: log_bnos_def dblk_def disk_of_def)
  obtain w where w0: "txv p u B' Map.empty w" using u(2) by (auto simp: tx_def)
  show ?thesis
  proof (cases "log_len u = 0")
    case True
    then have B': "disk_of u (unat n) = B' n" for n using txvD(6) [OF w0, of n] by (simp add: log_bnos_def dblk_def disk_of_def)
    have lh0: "lh_n (logr u) = 0" using txvD(7) [OF w0] True by (intro log_len_0) (simp add: log_ok_def)
    let ?u = "u\<lparr>logr := (logr u)\<lparr>l_outstanding := 0, l_committing := True\<rparr>, hw := lock_cycle (hw u)\<rparr>"
    have "commit ?u = Ok () ?u" using lh0 by (simp add: commit_def bind_apply ret_def)
    moreover have "bio p ?u w" using bio_lock_cycle [of p "u\<lparr>logr := (logr u)\<lparr>l_outstanding := 0, l_committing := True\<rparr>\<rparr>" w] txvD(1) [OF w0] by simp
    ultimately have e: "end_op u = Ok () (?u\<lparr>logr := (logr ?u)\<lparr>l_committing := False\<rparr>, hw := lock_cycle (hw ?u)\<rparr>)"
      by (rule end_op_last [OF txvD(1) [OF w0] ul(2,3)])
    let ?t = "?u\<lparr>logr := (logr ?u)\<lparr>l_committing := False\<rparr>, hw := lock_cycle (hw ?u)\<rparr>"
    have "andthen begin_op (andthen m end_op) s = Ok () ?t" using s1 u(1) e by (simp add: andthen_apply)
    moreover have "disk_of ?t = disk_of u" "length (disk_wr ?t) - length (disk_wr s) = 0" "crash_disk ?t 0 = disk_of u"
      using lu(2) by (simp_all add: disk_of_def crash_disk_def)
    moreover have "log_replay (unat (l_start (logr s))) (disk_of u) = disk_of u" using assms(5) du by (intro log_replay_empty) simp
    ultimately show ?thesis using True B' by (intro exI [of _ ?t] conjI exI [of _ 0]) (simp_all add: log_len_def)
  next
    case False
    have h: "rd32 (disk_of u (unat (l_start (logr u)))) 0 = 0" using assms(5) du ul(1) by simp
    obtain t where t: "end_op u = Ok () t" "log_len t = 0" "l_outstanding (logr t) = 0" "length (disk_wr t) = length (disk_wr u) + 2 * log_len u + 2"
      "\<forall>n. unat n \<notin> log_area u \<longrightarrow> disk_of t (unat n) = B' n"
      "\<forall>j n. j \<le> 2 * log_len u + 2 \<longrightarrow> unat n \<notin> log_area u \<longrightarrow> log_replay (unat (l_start (logr u))) (crash_disk t j) (unat n) =
        (if j \<le> log_len u + 1 then B' n else disk_of u (unat n))"
      using end_op_commits [OF u(2) ul(2,3) u(4) _ h] False by auto
    have "andthen begin_op (andthen m end_op) s = Ok () t" using s1 u(1) t(1) by (simp add: andthen_apply)
    moreover have "length (disk_wr t) - length (disk_wr s) = 2 * log_len u + 2" using t(4) lu(2) by simp
    ultimately show ?thesis using t(2,3,5,6) unfolding ar ul(1) du Bs by auto
  qed
qed

section \<open>The interface of the file system\<close>

definition tx_lim :: "'x log_state_scheme \<Rightarrow> nat" where
  "tx_lim s = (if 1 \<le> sint (l_outstanding (logr s)) then min LOGSIZE (nat (sint (l_size (logr s) - 1))) else 0)"

definition tx_legal :: "'x log_state_scheme \<Rightarrow> u32 \<Rightarrow> bool" where
  "tx_legal s n \<longleftrightarrow> n < 0x80000000 \<and> unat n \<notin> log_area s"

definition tx_logged :: "'x log_state_scheme \<Rightarrow> u32 set" where
  "tx_logged s = set (log_bnos s)"

lemma tx_card:
  assumes "tx p s B H"
  shows "card (tx_logged s) = log_len s"
proof -
  have "distinct (log_bnos s)" using assms txvD(7) by (fastforce simp: tx_def log_ok_def)
  then show ?thesis using distinct_card [of "log_bnos s"] by (simp add: tx_logged_def log_bnos_def)
qed

lemma tx_frame_same:
  fixes s :: "'x log_state_scheme"
  assumes "tx_frame s t"
  shows "dblk t = dblk s" "tx_lim t = tx_lim s" "tx_legal t = tx_legal s" "procs t = procs s" "log_area t = log_area s"
proof -
  have l: "logr t = (logr s)\<lparr>lh_n := lh_n (logr t), lh_block := lh_block (logr t)\<rparr>" using assms by (simp add: tx_frame_def)
  have f: "l_start (logr t) = l_start (logr s)" "l_outstanding (logr t) = l_outstanding (logr s)" "l_size (logr t) = l_size (logr s)"
    by (subst l, simp)+
  have b: "bio_frame (s\<lparr>logr := logr t\<rparr>) t" "disk_wr t = disk_wr s" using assms by (simp_all add: tx_frame_def)
  show "dblk t = dblk s" using b(2) bio_frameD(2) [OF b(1)] by (intro ext) (simp add: dblk_def)
  show "log_area t = log_area s" using f by (simp add: log_area_def)
  then show "tx_legal t = tx_legal s" by (simp add: tx_legal_def fun_eq_iff)
  show "tx_lim t = tx_lim s" using f by (simp add: tx_lim_def)
  show "procs t = procs s" using bio_frameD(1) [OF b(1)] by simp
qed

interpretation lg: block_tx "tx p" tx_logged dblk tx_lim tx_legal tx_frame "bread 1" "\<lambda>s b. b_data (bufs s b)"
    "\<lambda>b f. on_buf b (\<lambda>x. x\<lparr>b_data := f (b_data x)\<rparr>)" log_write brelse NBUF BSIZE for p
proof (unfold_locales, goal_cases)
  case (1 s B H n)
  then obtain b t where t: "bread 1 n s = Ok b t" "tx p t B (H(n \<mapsto> b))" "b_data (bufs t b) = B n" "bio_frame s t" "disk_wr t = disk_wr s"
    using tx_bread [of p s B H n] tx_card [of p s B H] by (auto simp: tx_legal_def)
  then show ?case using tx_frame_bio [OF t(4,5)] bio_frame_same(1) [OF t(4,5)] by (auto simp: tx_logged_def)
next
  case (2 s B H n b f)
  then obtain t where t: "on_buf b (\<lambda>x. x\<lparr>b_data := f (b_data x)\<rparr>) s = Ok () t" "tx p t (B(n := f (B n))) H" "bio_frame s t" "disk_wr t = disk_wr s"
    using tx_data [of p s B H n b f] by blast
  then show ?case using tx_frame_bio [OF t(3,4)] bio_frame_same(1) [OF t(3,4)] by (auto simp: tx_logged_def)
next
  case (3 s B H n b)
  then have "log_room s 1" using tx_card [of p s B H] by (auto simp: log_room_def tx_lim_def split: if_splits)
  then show ?case using tx_log_write [OF 3(1,2)] by (auto simp: tx_logged_def)
next
  case (4 s B H n b)
  then obtain t where t: "brelse b s = Ok () t" "tx p t B (H(n := None))" "bio_frame s t" "disk_wr t = disk_wr s"
    using tx_brelse [of p s B H n b] by (auto simp: tx_logged_def)
  then show ?case using tx_frame_bio [OF t(3,4)] bio_frame_same(1) [OF t(3,4)] by (auto simp: tx_logged_def)
next
  case (5 s B H n)
  then show ?case using txvD(6) by (auto simp: tx_def tx_logged_def)
next
  case (6 s B H n b)
  then obtain v where v: "txv p s B H v" by (auto simp: tx_def)
  show ?case using bio_slot(7) [OF txvD(1) [OF v] txvD(5) [OF v 6(2)]] txvD(2) [OF v] by simp
next
  case (7 s B H n)
  then show ?case using bio_blk_len txvD(1,2) by (fastforce simp: tx_def)
next
  case (8 s)
  then show ?case by (rule tx_frame_bio) simp_all
next
  case (9 s t u)
  then show ?case by (rule tx_frame_trans)
next
  case (10 s t)
  then show ?case using tx_frame_same by blast
qed

text \<open>The state after boot on a disk of zeros: no transaction, an empty log.\<close>

definition log_st0 :: log_state where
  "log_st0 = disk_state.extend bcache_st0
     \<lparr>logr = \<lparr>l_start = 2, l_size = 30, l_outstanding = 0, l_committing = False, l_dev = 1, lh_n = 0, lh_block = (\<lambda>_. 0)\<rparr>\<rparr>"

lemma log_st0_sel [simp]: "logr log_st0 = \<lparr>l_start = 2, l_size = 30, l_outstanding = 0, l_committing = False, l_dev = 1, lh_n = 0, lh_block = (\<lambda>_. 0)\<rparr>"
  "log_len log_st0 = 0" "disk_of log_st0 n = replicate BSIZE 0" "log_area log_st0 = {2..32}"
  by (simp_all add: log_st0_def disk_state.extend_def log_len_def disk_of_def bcache_st0_def disk_st0_def sl_state.extend_def disk_get_def log_area_def)

lemma log_st0_tx: "tx 0 log_st0 (\<lambda>_. replicate BSIZE 0) Map.empty"
proof -
  have "bio 0 log_st0 (bview_of bcache_st0) = bio 0 bcache_st0 (bview_of bcache_st0)"
    by (rule bio_cong) (simp_all add: log_st0_def disk_state.extend_def)
  then have b: "bio 0 log_st0 (bview_of bcache_st0)" using bcache_st0_bio by simp
  have "log_ok log_st0 {}" by (simp add: log_ok_def log_bnos_def)
  then have "tx 0 log_st0 (v_blk (bview_of bcache_st0)) Map.empty" using tx_idle [OF b] by simp
  moreover have "v_blk (bview_of bcache_st0) = (\<lambda>_. replicate BSIZE 0)" by (simp add: fun_eq_iff)
  ultimately show ?thesis by simp
qed

theorem transaction_atomic_witness:
  "\<exists>t. andthen begin_op (andthen (bind (bread 1 50) (\<lambda>b. andthen (on_buf b (\<lambda>x. x\<lparr>b_data := replicate BSIZE 7\<rparr>))
      (andthen (log_write b) (brelse b)))) end_op) log_st0 = Ok () t \<and> disk_of t 50 = replicate BSIZE 7"
proof -
  let ?B = "\<lambda>_ :: u32. replicate BSIZE (0 :: byte)"
  let ?m = "bind (bread 1 50) (\<lambda>b. andthen (on_buf b (\<lambda>x. x\<lparr>b_data := replicate BSIZE 7\<rparr>)) (andthen (log_write b) (brelse b))) :: (unit, log_state) kop"
  have "\<exists>u. ?m t = Ok () u \<and> tx 0 u (?B(50 := replicate BSIZE 7)) Map.empty \<and> tx_frame t u \<and> log_len u < NBUF"
    if "tx 0 t ?B Map.empty" "log_len t = 0" "l_outstanding (logr t) = 1" "l_size (logr t) = l_size (logr log_st0)" "log_area t = log_area log_st0" for t
  proof -
    note a = that
    have c: "card (tx_logged t) = 0" using tx_card [OF a(1)] a(2) by simp
    obtain b t1 t2 t3 t4 where u: "bread 1 50 t = Ok b t1" "on_buf b (\<lambda>x. x\<lparr>b_data := replicate BSIZE 7\<rparr>) t1 = Ok () t2" "log_write b t2 = Ok () t3"
      "brelse b t3 = Ok () t4" "tx 0 t4 (?B(50 := replicate BSIZE 7)) Map.empty" "tx_frame t t4" "tx_logged t4 = insert 50 (tx_logged t)"
      using lg.update [OF a(1), of 50 "\<lambda>_. replicate BSIZE 7"] c a(3-5) by (auto simp: tx_legal_def tx_lim_def)
    have "card (tx_logged t4) \<le> 1" using u(7) c card_insert_le_m1 [of 1 "tx_logged t" 50] by simp
    then have "log_len t4 < NBUF" using tx_card [OF u(5)] by simp
    then show ?thesis using u by (intro exI [of _ t4]) (simp add: bind_apply andthen_apply)
  qed
  then have m: "tx_op 0 log_st0 ?B ?m (?B(50 := replicate BSIZE 7))" unfolding tx_op_def by blast
  have h: "rd32 (disk_of log_st0 (unat (l_start (logr log_st0)))) 0 = 0"
    unfolding log_st0_sel by (simp add: rd32_def blk_get_def of_bytes_def numeral_eq_Suc)
  have o: "l_outstanding (logr log_st0) = 0" "\<not> l_committing (logr log_st0)" by simp_all
  obtain t where t: "andthen begin_op (andthen ?m end_op) log_st0 = Ok () t"
    "\<forall>n. unat n \<notin> log_area log_st0 \<longrightarrow> disk_of t (unat n) = (?B(50 := replicate BSIZE 7)) n"
    using transaction_atomic [OF log_st0_tx log_st0_sel(2) o h m] by (elim exE conjE) (rule that; assumption)
  then show ?thesis using spec [OF t(2), of 50] by simp
qed

text \<open>
  C33: the room in the log. \<open>begin_op\<close> lets three operations in at once, reserving \<open>MAXOPBLOCKS\<close> = 10 blocks for each, which is
  30 blocks; but on the disk that \<open>mkfs\<close> makes, whose log of 30 blocks includes the header, \<open>log_write\<close> panics as soon as
  the transaction has 29 blocks, whatever buffer it gets, even one whose block is in the transaction already.\<close>

theorem log_reservation_short:
  fixes s :: "'x log_state_scheme"
  assumes "running p s" and "\<not> l_committing (logr s)" and "l_size (logr s) = of_nat LOGSIZE"
  shows "(lh_n (logr s) = 0 \<and> l_outstanding (logr s) = 2 \<longrightarrow> (\<exists>t. begin_op s = Ok () t \<and> l_outstanding (logr t) = 3)) \<and>
    (lh_n (logr s) = 0 \<and> l_outstanding (logr s) = 3 \<longrightarrow> (\<exists>t. begin_op s = Switch t)) \<and>
    (lh_n (logr s) = of_nat LOGSIZE - 1 \<longrightarrow> log_write b s = Panic ''too big a transaction'')"
proof (intro conjI impI)
  assume "lh_n (logr s) = 0 \<and> l_outstanding (logr s) = 2"
  then show "\<exists>t. begin_op s = Ok () t \<and> l_outstanding (logr t) = 3" using begin_op_run [OF assms(1,2)] by simp
next
  assume a: "lh_n (logr s) = 0 \<and> l_outstanding (logr s) = 3"
  note h = running_facts [OF assms(1)]
  show "\<exists>t. begin_op s = Switch t"
    using a h assms(2) by (simp add: begin_op_def begin_op_loop_def kop sleep_run [where h = "hw s"])
next
  assume "lh_n (logr s) = of_nat LOGSIZE - 1"
  then show "log_write b s = Panic ''too big a transaction''" using log_write_run [OF assms(1), of _ b] assms(3) by simp
qed

theorem log_reservation_short_witness:
  "log_write 3 (log_st0\<lparr>logr := (logr log_st0)\<lparr>lh_n := 29\<rparr>\<rparr>) = Panic ''too big a transaction''"
proof -
  obtain v where "txv 0 log_st0 (\<lambda>_. replicate BSIZE 0) Map.empty v" using log_st0_tx by (auto simp: tx_def)
  then have "running 0 log_st0" using txvD(1) bioD(2) by blast
  then have "running 0 (log_st0\<lparr>logr := (logr log_st0)\<lparr>lh_n := 29\<rparr>\<rparr>)"
    using running_cong [of "log_st0\<lparr>logr := (logr log_st0)\<lparr>lh_n := 29\<rparr>\<rparr>" log_st0 0] by simp
  from log_reservation_short [OF this] show ?thesis by simp
qed

end
