(* ===== verification/Fs.thy ===== *)
theory Fs
  imports Log Kstring
begin

text \<open>
  \<open>kernel/fs.c\<close> and the data structures of \<open>kernel/fs.h\<close> and \<open>kernel/file.h\<close> it works on: the block allocator,
  inodes, file contents, directories and path names.

  An in-memory inode is an index into \<open>inodes\<close>; the structures on the disk are byte blocks with their fields at the
  offsets of the C structures. A kernel buffer given to \<open>readi\<close> or \<open>writei\<close> is its bytes: \<open>readi\<close> returns the bytes it
  delivers besides the count. A C string is a byte list; it ends at its first zero byte or at its end.
\<close>

section \<open>Data\<close>

abbreviation (input) ROOTINO :: u32 where "ROOTINO \<equiv> 1"
abbreviation (input) NDIRECT :: nat where "NDIRECT \<equiv> 12"
abbreviation (input) NINDIRECT :: nat where "NINDIRECT \<equiv> 256"
abbreviation (input) MAXFILE :: nat where "MAXFILE \<equiv> 268"
abbreviation (input) DIRSIZ :: nat where "DIRSIZ \<equiv> 14"
abbreviation (input) FSMAGIC :: u32 where "FSMAGIC \<equiv> 0x10203040"
abbreviation (input) IPB :: nat where "IPB \<equiv> 16"
abbreviation (input) BPB :: nat where "BPB \<equiv> 8192"
abbreviation (input) T_DIR :: u16 where "T_DIR \<equiv> 1"
abbreviation (input) T_FILE :: u16 where "T_FILE \<equiv> 2"
abbreviation (input) T_DEVICE :: u16 where "T_DEVICE \<equiv> 3"

record inode =
  i_dev :: u32
  i_inum :: u32
  i_ref :: u32
  i_valid :: bool
  i_type :: u16
  i_major :: u16
  i_minor :: u16
  i_nlink :: u16
  i_size :: u32
  i_addrs :: "nat \<Rightarrow> u32"

record fs_state = log_state +
  fs_sb :: superblock
  inodes :: "nat \<Rightarrow> inode"

definition IBLOCK :: "u32 \<Rightarrow> superblock \<Rightarrow> u32" where
  "IBLOCK i sb = i div 16 + sb_inodestart sb"

definition BBLOCK :: "u32 \<Rightarrow> superblock \<Rightarrow> u32" where
  "BBLOCK b sb = b div 8192 + sb_bmapstart sb"

definition on_ino :: "nat \<Rightarrow> (inode \<Rightarrow> inode) \<Rightarrow> (unit, 'x fs_state_scheme) kop" where
  "on_ino ip f = modify (\<lambda>s. s\<lparr>inodes := (inodes s)(ip := f (inodes s ip))\<rparr>)"

definition on_data :: "nat \<Rightarrow> (byte list \<Rightarrow> byte list) \<Rightarrow> (unit, 'x disk_state_scheme) kop" where
  "on_data b f = on_buf b (\<lambda>x. x\<lparr>b_data := f (b_data x)\<rparr>)"

abbreviation (input) data_of :: "nat \<Rightarrow> (byte list, 'x disk_state_scheme) kop" where
  "data_of b \<equiv> gets (\<lambda>s. b_data (bufs s b))"

section \<open>Blocks\<close>

definition sb_of :: "byte list \<Rightarrow> superblock" where
  "sb_of d = \<lparr>sb_magic = rd32 d 0, sb_size = rd32 d 4, sb_nblocks = rd32 d 8, sb_ninodes = rd32 d 12, sb_nlog = rd32 d 16,
     sb_logstart = rd32 d 20, sb_inodestart = rd32 d 24, sb_bmapstart = rd32 d 28\<rparr>"

definition readsb :: "u32 \<Rightarrow> (unit, 'x fs_state_scheme) kop" where
  "readsb dev =
     bind (bread dev 1) (\<lambda>bp.
     bind (data_of bp) (\<lambda>d.
     andthen (modify (\<lambda>s. s\<lparr>fs_sb := sb_of d\<rparr>)) (
     brelse bp)))"

definition fsinit :: "u32 \<Rightarrow> (unit, 'x fs_state_scheme) kop" where
  "fsinit dev =
     andthen (readsb dev) (
     bind (gets fs_sb) (\<lambda>sb.
     andthen (panic_if (sb_magic sb \<noteq> FSMAGIC) ''invalid file system'') (
     initlog dev sb)))"

definition bzero :: "u32 \<Rightarrow> u32 \<Rightarrow> (unit, 'x fs_state_scheme) kop" where
  "bzero dev bno =
     bind (bread dev bno) (\<lambda>bp.
     andthen (on_data bp (\<lambda>d. replicate BSIZE 0)) (
     andthen (log_write bp) (
     brelse bp)))"

definition bit_set :: "byte list \<Rightarrow> nat \<Rightarrow> bool" where
  "bit_set d bi \<longleftrightarrow> d ! (bi div 8) AND push_bit (bi mod 8) 1 \<noteq> 0"

fun balloc_loop :: "u32 \<Rightarrow> nat list \<Rightarrow> (u32, 'x fs_state_scheme) kop" where
  "balloc_loop dev [] = panic ''balloc: out of blocks''"
| "balloc_loop dev (b # bs) =
     bind (gets fs_sb) (\<lambda>sb.
     bind (bread dev (BBLOCK (of_nat b) sb)) (\<lambda>bp.
     bind (data_of bp) (\<lambda>d.
     case find (\<lambda>bi. \<not> bit_set d bi) [0..<min BPB (unat (sb_size sb) - b)] of
       Some bi \<Rightarrow>
         andthen (on_data bp (\<lambda>d. d[bi div 8 := d ! (bi div 8) OR push_bit (bi mod 8) 1])) (
         andthen (log_write bp) (
         andthen (brelse bp) (
         andthen (bzero dev (of_nat (b + bi))) (
         ret (of_nat (b + bi))))))
     | None \<Rightarrow> andthen (brelse bp) (balloc_loop dev bs))))"

text \<open>The outer loop visits the multiples of \<open>BPB\<close> below the size.\<close>

definition balloc :: "u32 \<Rightarrow> (u32, 'x fs_state_scheme) kop" where
  "balloc dev =
     bind (gets (\<lambda>s. unat (sb_size (fs_sb s)))) (\<lambda>size.
     balloc_loop dev (map (\<lambda>k. k * BPB) [0..<(size + BPB - 1) div BPB]))"

definition bfree :: "u32 \<Rightarrow> u32 \<Rightarrow> (unit, 'x fs_state_scheme) kop" where
  "bfree dev b =
     bind (gets fs_sb) (\<lambda>sb.
     bind (bread dev (BBLOCK b sb)) (\<lambda>bp.
     bind (data_of bp) (\<lambda>d.
     let bi = unat b mod BPB in
     andthen (panic_if (\<not> bit_set d bi) ''freeing free block'') (
     andthen (on_data bp (\<lambda>d. d[bi div 8 := d ! (bi div 8) AND NOT (push_bit (bi mod 8) 1)])) (
     andthen (log_write bp) (
     brelse bp))))))"

section \<open>Inodes\<close>

definition iinit :: "(unit, 'x fs_state_scheme) kop" where
  "iinit =
     andthen (initlock Lk_icache ''icache'') (
     for_each [0..<NINODE] (\<lambda>i. initsleeplock (Sl_inode i) ''inode''))"

text \<open>The scan of \<open>iget\<close>: the cached entry, or the first empty slot.\<close>

fun iget_scan :: "u32 \<Rightarrow> u32 \<Rightarrow> nat list \<Rightarrow> nat option \<Rightarrow> (nat + nat option, 'x fs_state_scheme) kop" where
  "iget_scan dev inum [] emp = ret (Inr emp)"
| "iget_scan dev inum (ip # ips) emp =
     bind (gets (\<lambda>s. inodes s ip)) (\<lambda>i.
     if sint (i_ref i) > 0 \<and> i_dev i = dev \<and> i_inum i = inum then ret (Inl ip)
     else iget_scan dev inum ips (if emp = None \<and> i_ref i = 0 then Some ip else emp))"

definition iget :: "u32 \<Rightarrow> u32 \<Rightarrow> (nat, 'x fs_state_scheme) kop" where
  "iget dev inum =
     andthen (acquire Lk_icache) (
     bind (iget_scan dev inum [0..<NINODE] None) (\<lambda>r.
     case r of
       Inl ip \<Rightarrow>
         andthen (on_ino ip (\<lambda>i. i\<lparr>i_ref := i_ref i + 1\<rparr>)) (
         andthen (release Lk_icache) (
         ret ip))
     | Inr None \<Rightarrow> panic ''iget: no inodes''
     | Inr (Some ip) \<Rightarrow>
         andthen (on_ino ip (\<lambda>i. i\<lparr>i_dev := dev, i_inum := inum, i_ref := 1, i_valid := False\<rparr>)) (
         andthen (release Lk_icache) (
         ret ip))))"

definition dinode_off :: "u32 \<Rightarrow> nat" where
  "dinode_off inum = 64 * (unat inum mod IPB)"

fun ialloc_loop :: "u32 \<Rightarrow> u16 \<Rightarrow> nat list \<Rightarrow> (nat, 'x fs_state_scheme) kop" where
  "ialloc_loop dev type [] = panic ''ialloc: no inodes''"
| "ialloc_loop dev type (inum # inums) =
     bind (gets (\<lambda>s. IBLOCK (of_nat inum) (fs_sb s))) (\<lambda>bno.
     bind (bread dev bno) (\<lambda>bp.
     bind (data_of bp) (\<lambda>d.
     let off = dinode_off (of_nat inum) in
     if rd16 d off = 0 then
       andthen (on_data bp (\<lambda>d. blk_put d off (replicate 64 0))) (
       andthen (on_data bp (\<lambda>d. wr16 d off type)) (
       andthen (log_write bp) (
       andthen (brelse bp) (
       iget dev (of_nat inum)))))
     else andthen (brelse bp) (ialloc_loop dev type inums))))"

definition ialloc :: "u32 \<Rightarrow> u16 \<Rightarrow> (nat, 'x fs_state_scheme) kop" where
  "ialloc dev type = bind (gets (\<lambda>s. unat (sb_ninodes (fs_sb s)))) (\<lambda>n. ialloc_loop dev type [1..<n])"

definition dinode_bytes :: "inode \<Rightarrow> byte list" where
  "dinode_bytes i = le_bytes 2 (i_type i) @ le_bytes 2 (i_major i) @ le_bytes 2 (i_minor i) @ le_bytes 2 (i_nlink i) @
     le_bytes 4 (i_size i) @ concat (map (\<lambda>k. le_bytes 4 (i_addrs i k)) [0..<13])"

definition iupdate :: "nat \<Rightarrow> (unit, 'x fs_state_scheme) kop" where
  "iupdate ip =
     bind (gets (\<lambda>s. inodes s ip)) (\<lambda>i.
     bind (gets (\<lambda>s. IBLOCK (i_inum i) (fs_sb s))) (\<lambda>bno.
     bind (bread (i_dev i) bno) (\<lambda>bp.
     andthen (on_data bp (\<lambda>d. blk_put d (dinode_off (i_inum i)) (dinode_bytes i))) (
     andthen (log_write bp) (
     brelse bp)))))"

definition idup :: "nat \<Rightarrow> (nat, 'x fs_state_scheme) kop" where
  "idup ip =
     andthen (acquire Lk_icache) (
     andthen (on_ino ip (\<lambda>i. i\<lparr>i_ref := i_ref i + 1\<rparr>)) (
     andthen (release Lk_icache) (
     ret ip)))"

definition load_dinode :: "byte list \<Rightarrow> nat \<Rightarrow> inode \<Rightarrow> inode" where
  "load_dinode d off i = i\<lparr>i_type := rd16 d off, i_major := rd16 d (off + 2), i_minor := rd16 d (off + 4), i_nlink := rd16 d (off + 6),
     i_size := rd32 d (off + 8), i_addrs := (\<lambda>k. if k < 13 then rd32 d (off + 12 + 4 * k) else i_addrs i k)\<rparr>"

text \<open>A pointer to an inode that may be null is an option.\<close>

definition ilock :: "nat option \<Rightarrow> (unit, 'x fs_state_scheme) kop" where
  "ilock p =
     (case p of None \<Rightarrow> panic ''ilock''
      | Some ip \<Rightarrow>
        bind (gets (\<lambda>s. i_ref (inodes s ip))) (\<lambda>r.
        andthen (panic_if (sint r < 1) ''ilock'') (
        andthen (acquiresleep (Sl_inode ip)) (
        bind (gets (\<lambda>s. inodes s ip)) (\<lambda>i.
        if \<not> i_valid i then
          bind (gets (\<lambda>s. IBLOCK (i_inum i) (fs_sb s))) (\<lambda>bno.
          bind (bread (i_dev i) bno) (\<lambda>bp.
          bind (data_of bp) (\<lambda>d.
          andthen (on_ino ip (load_dinode d (dinode_off (i_inum i)))) (
          andthen (brelse bp) (
          andthen (on_ino ip (\<lambda>i. i\<lparr>i_valid := True\<rparr>)) (
          bind (gets (\<lambda>s. i_type (inodes s ip))) (\<lambda>t.
          panic_if (t = 0) ''ilock: no type'')))))))
        else ret ())))))"

definition iunlock :: "nat option \<Rightarrow> (unit, 'x fs_state_scheme) kop" where
  "iunlock p =
     (case p of None \<Rightarrow> panic ''iunlock''
      | Some ip \<Rightarrow>
        bind (holdingsleep (Sl_inode ip)) (\<lambda>h.
        bind (gets (\<lambda>s. i_ref (inodes s ip))) (\<lambda>r.
        andthen (panic_if (\<not> h \<or> sint r < 1) ''iunlock'') (
        releasesleep (Sl_inode ip)))))"

section \<open>Contents\<close>

definition bmap :: "nat \<Rightarrow> u32 \<Rightarrow> (u32, 'x fs_state_scheme) kop" where
  "bmap ip bn =
     bind (gets (\<lambda>s. inodes s ip)) (\<lambda>i.
     if unat bn < NDIRECT then
       if i_addrs i (unat bn) = 0 then
         bind (balloc (i_dev i)) (\<lambda>addr.
         andthen (on_ino ip (\<lambda>i. i\<lparr>i_addrs := (i_addrs i)(unat bn := addr)\<rparr>)) (
         ret addr))
       else ret (i_addrs i (unat bn))
     else
       let bn = bn - of_nat NDIRECT in
       if unat bn < NINDIRECT then
         bind
           (if i_addrs i NDIRECT = 0 then
              bind (balloc (i_dev i)) (\<lambda>addr.
              andthen (on_ino ip (\<lambda>i. i\<lparr>i_addrs := (i_addrs i)(NDIRECT := addr)\<rparr>)) (
              ret addr))
            else ret (i_addrs i NDIRECT)) (\<lambda>addr.
         bind (bread (i_dev i) addr) (\<lambda>bp.
         bind (data_of bp) (\<lambda>d.
         bind
           (if rd32 d (4 * unat bn) = 0 then
              bind (balloc (i_dev i)) (\<lambda>addr.
              andthen (on_data bp (\<lambda>d. wr32 d (4 * unat bn) addr)) (
              andthen (log_write bp) (
              ret addr)))
            else ret (rd32 d (4 * unat bn))) (\<lambda>addr.
         andthen (brelse bp) (
         ret addr)))))
       else panic ''bmap: out of range'')"

definition itrunc_direct :: "nat \<Rightarrow> nat \<Rightarrow> (unit, 'x fs_state_scheme) kop" where
  "itrunc_direct ip k =
     bind (gets (\<lambda>s. inodes s ip)) (\<lambda>i.
     if i_addrs i k \<noteq> 0 then
       andthen (bfree (i_dev i) (i_addrs i k)) (
       on_ino ip (\<lambda>i. i\<lparr>i_addrs := (i_addrs i)(k := 0)\<rparr>))
     else ret ())"

definition itrunc_indirect :: "nat \<Rightarrow> nat \<Rightarrow> nat \<Rightarrow> (unit, 'x fs_state_scheme) kop" where
  "itrunc_indirect ip bp j =
     bind (gets (\<lambda>s. i_dev (inodes s ip))) (\<lambda>dev.
     bind (data_of bp) (\<lambda>d.
     if rd32 d (4 * j) \<noteq> 0 then bfree dev (rd32 d (4 * j)) else ret ()))"

definition itrunc :: "nat \<Rightarrow> (unit, 'x fs_state_scheme) kop" where
  "itrunc ip =
     andthen (for_each [0..<NDIRECT] (itrunc_direct ip)) (
     bind (gets (\<lambda>s. inodes s ip)) (\<lambda>i.
     andthen
       (if i_addrs i NDIRECT \<noteq> 0 then
          bind (bread (i_dev i) (i_addrs i NDIRECT)) (\<lambda>bp.
          andthen (for_each [0..<NINDIRECT] (itrunc_indirect ip bp)) (
          andthen (brelse bp) (
          andthen (bfree (i_dev i) (i_addrs i NDIRECT)) (
          on_ino ip (\<lambda>i. i\<lparr>i_addrs := (i_addrs i)(NDIRECT := 0)\<rparr>)))))
        else ret ()) (
     andthen (on_ino ip (\<lambda>i. i\<lparr>i_size := 0\<rparr>)) (
     iupdate ip))))"

definition iput :: "nat \<Rightarrow> (unit, 'x fs_state_scheme) kop" where
  "iput ip =
     andthen (acquire Lk_icache) (
     bind (gets (\<lambda>s. inodes s ip)) (\<lambda>i.
     andthen
       (if i_ref i = 1 \<and> i_valid i \<and> i_nlink i = 0 then
          andthen (acquiresleep (Sl_inode ip)) (
          andthen (release Lk_icache) (
          andthen (itrunc ip) (
          andthen (on_ino ip (\<lambda>i. i\<lparr>i_type := 0\<rparr>)) (
          andthen (iupdate ip) (
          andthen (on_ino ip (\<lambda>i. i\<lparr>i_valid := False\<rparr>)) (
          andthen (releasesleep (Sl_inode ip)) (
          acquire Lk_icache)))))))
        else ret ()) (
     andthen (on_ino ip (\<lambda>i. i\<lparr>i_ref := i_ref i - 1\<rparr>)) (
     release Lk_icache))))"

definition iunlockput :: "nat \<Rightarrow> (unit, 'x fs_state_scheme) kop" where
  "iunlockput ip = andthen (iunlock (Some ip)) (iput ip)"

text \<open>\<open>struct stat\<close>, 24 bytes with 4 bytes of padding before the size.\<close>

definition stati :: "nat \<Rightarrow> (byte list, 'x fs_state_scheme) kop" where
  "stati ip = gets (\<lambda>s. let i = inodes s ip in
     le_bytes 4 (i_dev i) @ le_bytes 4 (i_inum i) @ le_bytes 2 (i_type i) @ le_bytes 2 (i_nlink i) @ replicate 4 0 @
     le_bytes 8 (ucast (i_size i) :: u64))"

definition chunk_len :: "u32 \<Rightarrow> u32 \<Rightarrow> u32 \<Rightarrow> u32" where
  "chunk_len n tot off = min (n - tot) (of_nat BSIZE - off mod of_nat BSIZE)"

lemma chunk_len_progress:
  assumes "tot < n"
  shows "unat (n - (tot + chunk_len n tot off)) < unat (n - tot)"
proof -
  have m: "unat (off mod 1024) < 1024" by (simp add: unat_mod)
  have b: "unat (1024 - off mod 1024 :: u32) = 1024 - unat (off mod 1024)"
    using m by (subst unat_sub) (simp_all add: word_le_nat_alt)
  have c: "unat (chunk_len n tot off) = min (unat (n - tot)) (1024 - unat (off mod 1024))"
    by (simp add: chunk_len_def min_def word_le_nat_alt b)
  have t: "unat (n - tot) = unat n - unat tot" using assms by (intro unat_sub) simp
  have le: "chunk_len n tot off \<le> n - tot" by (simp add: chunk_len_def)
  have "n - (tot + chunk_len n tot off) = (n - tot) - chunk_len n tot off" by simp
  then have "unat (n - (tot + chunk_len n tot off)) = unat (n - tot) - unat (chunk_len n tot off)"
    using unat_sub [OF le] by (simp only:)
  moreover have "unat (n - tot) > 0" using assms t by (simp add: word_less_nat_alt)
  ultimately show ?thesis using c m by auto
qed

function readi_loop :: "nat \<Rightarrow> bool \<Rightarrow> u64 \<Rightarrow> u32 \<Rightarrow> u32 \<Rightarrow> u32 \<Rightarrow> byte list \<Rightarrow> (u32 \<times> byte list, 'x fs_state_scheme) kop" where
  "readi_loop ip user_dst dst off n tot out s =
     (if tot < n then
        (bind (bmap ip (off div of_nat BSIZE)) (\<lambda>addr.
         bind (gets (\<lambda>s. i_dev (inodes s ip))) (\<lambda>dev.
         bind (bread dev addr) (\<lambda>bp.
         bind (data_of bp) (\<lambda>d.
         let m = chunk_len n tot off; bs = blk_get d (unat off mod BSIZE) (unat m) in
         bind (either_copyout user_dst dst bs) (\<lambda>r.
         if r = - 1 then andthen (brelse bp) (ret (tot, out))
         else
           andthen (brelse bp) (
           readi_loop ip user_dst (dst + ucast m) (off + m) n (tot + m) (out @ bs)))))))) s
      else ret (tot, out) s)"
  by pat_completeness auto
termination
  by (relation "measure (\<lambda>(ip, ud, dst, off, n, tot, out, s). unat (n - tot))") (auto simp: chunk_len_progress)

declare readi_loop.simps [simp del]

definition readi :: "nat \<Rightarrow> bool \<Rightarrow> u64 \<Rightarrow> u32 \<Rightarrow> u32 \<Rightarrow> (u32 \<times> byte list, 'x fs_state_scheme) kop" where
  "readi ip user_dst dst off n =
     bind (gets (\<lambda>s. i_size (inodes s ip))) (\<lambda>size.
     if off > size \<or> off + n < off then ret (0, [])
     else readi_loop ip user_dst dst off (if off + n > size then size - off else n) 0 [])"

text \<open>The loop of \<open>writei\<close> returns the offset it has reached.\<close>

function writei_loop :: "nat \<Rightarrow> src \<Rightarrow> u32 \<Rightarrow> u32 \<Rightarrow> u32 \<Rightarrow> (u32, 'x fs_state_scheme) kop" where
  "writei_loop ip src off n tot s =
     (if tot < n then
        (bind (bmap ip (off div of_nat BSIZE)) (\<lambda>addr.
         bind (gets (\<lambda>s. i_dev (inodes s ip))) (\<lambda>dev.
         bind (bread dev addr) (\<lambda>bp.
         let m = chunk_len n tot off in
         bind (either_copyin src (unat tot) (unat m)) (\<lambda>r.
         andthen (on_data bp (\<lambda>d. blk_put d (unat off mod BSIZE) (snd r))) (
         if fst r = - 1 then andthen (brelse bp) (ret off)
         else
           andthen (log_write bp) (
           andthen (brelse bp) (
           writei_loop ip src (off + m) n (tot + m)))))))) s)
      else ret off s)"
  by pat_completeness auto
termination
  by (relation "measure (\<lambda>(ip, src, off, n, tot, s). unat (n - tot))") (auto simp: chunk_len_progress)

declare writei_loop.simps [simp del]

definition writei :: "nat \<Rightarrow> src \<Rightarrow> u32 \<Rightarrow> u32 \<Rightarrow> (int, 'x fs_state_scheme) kop" where
  "writei ip src off n =
     bind (gets (\<lambda>s. i_size (inodes s ip))) (\<lambda>size.
     if off > size \<or> off + n < off then ret (- 1)
     else if off + n > of_nat (MAXFILE * BSIZE) then ret (- 1)
     else
       bind (writei_loop ip src off n 0) (\<lambda>off.
       andthen
         (if n > 0 then
            andthen (on_ino ip (\<lambda>i. if off > i_size i then i\<lparr>i_size := off\<rparr> else i)) (
            iupdate ip)
          else ret ()) (
       ret (sint n))))"

section \<open>Directories\<close>

definition cstr :: "byte list \<Rightarrow> cptr" where
  "cstr bs = (\<lambda>i. if i < length bs then bs ! i else 0)"

definition namecmp :: "byte list \<Rightarrow> byte list \<Rightarrow> int" where
  "namecmp s t = strncmp (cstr s) (cstr t) DIRSIZ"

text \<open>A directory entry is 16 bytes: the inode number and the name.\<close>

lemma readi_no_wrap:
  assumes "readi dp ud dst off 16 s = Ok (16, bs) t"
  shows "2 ^ 32 - unat (off + 16) < 2 ^ 32 - unat off"
proof -
  have "\<not> off + 16 < off" using assms by (auto simp: readi_def bind_apply split: if_splits)
  then have "unat off \<le> unat (off + 16)" by (simp add: word_le_nat_alt not_less)
  moreover have "unat off \<noteq> unat (off + 16)" by (auto dest!: unsigned_word_eqI)
  moreover have "unat (off + 16) < 2 ^ 32" using unsigned_less [of "off + 16"] by simp
  ultimately show ?thesis by linarith
qed

function dirlookup_loop :: "nat \<Rightarrow> byte list \<Rightarrow> u32 \<Rightarrow> ((nat \<times> u32) option, 'x fs_state_scheme) kop" where
  "dirlookup_loop dp name off s =
     (if off < i_size (inodes s dp) then
        (bind (readi dp False 0 off 16) (\<lambda>r.
         andthen (panic_if (fst r \<noteq> 16) ''dirlookup read'') (
         if rd16 (snd r) 0 = 0 then dirlookup_loop dp name (off + 16)
         else if namecmp name (drop 2 (snd r)) = 0 then
           bind (gets (\<lambda>s. i_dev (inodes s dp))) (\<lambda>dev.
           bind (iget dev (ucast (rd16 (snd r) 0))) (\<lambda>ip.
           ret (Some (ip, off))))
         else dirlookup_loop dp name (off + 16)))) s
      else ret None s)"
  by pat_completeness auto
termination
  by (relation "measure (\<lambda>(dp, name, off, s). 2 ^ 32 - unat off)")
    (auto dest!: readi_no_wrap split: if_splits)

declare dirlookup_loop.simps [simp del]

definition dirlookup :: "nat \<Rightarrow> byte list \<Rightarrow> ((nat \<times> u32) option, 'x fs_state_scheme) kop" where
  "dirlookup dp name =
     bind (gets (\<lambda>s. i_type (inodes s dp))) (\<lambda>t.
     andthen (panic_if (t \<noteq> T_DIR) ''dirlookup not DIR'') (
     dirlookup_loop dp name 0))"

text \<open>The search of \<open>dirlink\<close> for an empty entry: the offset of the first one, or the end of the directory.\<close>

function dirlink_scan :: "nat \<Rightarrow> u32 \<Rightarrow> (u32, 'x fs_state_scheme) kop" where
  "dirlink_scan dp off s =
     (if off < i_size (inodes s dp) then
        (bind (readi dp False 0 off 16) (\<lambda>r.
         andthen (panic_if (fst r \<noteq> 16) ''dirlink read'') (
         if rd16 (snd r) 0 = 0 then ret off
         else dirlink_scan dp (off + 16)))) s
      else ret off s)"
  by pat_completeness auto
termination
  by (relation "measure (\<lambda>(dp, off, s). 2 ^ 32 - unat off)")
    (auto dest!: readi_no_wrap split: if_splits)

declare dirlink_scan.simps [simp del]

definition dirent_bytes :: "byte list \<Rightarrow> u32 \<Rightarrow> byte list" where
  "dirent_bytes name inum = le_bytes 2 (ucast inum :: u16) @ map (strncpy (\<lambda>_. 0) (cstr name) DIRSIZ) [0..<DIRSIZ]"

definition dirlink :: "nat \<Rightarrow> byte list \<Rightarrow> u32 \<Rightarrow> (int, 'x fs_state_scheme) kop" where
  "dirlink dp name inum =
     bind (dirlookup dp name) (\<lambda>r.
     case r of
       Some (ip, off) \<Rightarrow> andthen (iput ip) (ret (- 1))
     | None \<Rightarrow>
         bind (dirlink_scan dp 0) (\<lambda>off.
         bind (writei dp (Kbuf (dirent_bytes name inum)) off 16) (\<lambda>w.
         andthen (panic_if (w \<noteq> 16) ''dirlink'') (
         ret 0))))"

section \<open>Paths\<close>

abbreviation (input) SLASH :: byte where "SLASH \<equiv> 0x2f"

text \<open>
  \<open>skipelem\<close> returns the rest of the path and the new contents of the name buffer, or nothing when no element is
  left. The path is the string without its terminating zero.
\<close>

definition set_name :: "byte list \<Rightarrow> byte list \<Rightarrow> byte list" where
  "set_name name e = (if length e \<ge> DIRSIZ then take DIRSIZ e @ drop DIRSIZ name else e @ [0] @ drop (length e + 1) name)"

definition skipelem :: "byte list \<Rightarrow> byte list \<Rightarrow> (byte list \<times> byte list) option" where
  "skipelem path name =
     (let path = dropWhile (\<lambda>c. c = SLASH) path in
      if path = [] then None
      else
        let e = takeWhile (\<lambda>c. c \<noteq> SLASH) path;
            path = dropWhile (\<lambda>c. c \<noteq> SLASH) path
        in Some (dropWhile (\<lambda>c. c = SLASH) path, set_name name e))"

lemma skipelem_shorter:
  assumes "skipelem path name = Some (rest, name')"
  shows "length rest < length path"
proof -
  define p where "p = dropWhile (\<lambda>c. c = SLASH) path"
  have ne: "p \<noteq> []" and rest: "rest = dropWhile (\<lambda>c. c = SLASH) (dropWhile (\<lambda>c. c \<noteq> SLASH) p)"
    using assms by (auto simp: skipelem_def p_def [symmetric] Let_def split: if_splits)
  have "hd p \<noteq> SLASH" using ne hd_dropWhile [of "\<lambda>c. c = SLASH" path] by (simp add: p_def)
  then have "length (dropWhile (\<lambda>c. c \<noteq> SLASH) p) < length p"
    using ne length_dropWhile_le [of "\<lambda>c. c \<noteq> SLASH" "tl p"] by (cases p) auto
  moreover have "length rest \<le> length (dropWhile (\<lambda>c. c \<noteq> SLASH) p)" unfolding rest by (rule length_dropWhile_le)
  moreover have "length p \<le> length path" unfolding p_def by (rule length_dropWhile_le)
  ultimately show ?thesis by linarith
qed

function namex_loop :: "nat \<Rightarrow> byte list \<Rightarrow> bool \<Rightarrow> byte list \<Rightarrow> (nat option \<times> byte list, 'x fs_state_scheme) kop" where
  "namex_loop ip path nameiparent name =
     (case skipelem path name of
        None \<Rightarrow> if nameiparent then andthen (iput ip) (ret (None, name)) else ret (Some ip, name)
      | Some (path, name) \<Rightarrow>
          andthen (ilock (Some ip)) (
          bind (gets (\<lambda>s. i_type (inodes s ip))) (\<lambda>t.
          if t \<noteq> T_DIR then andthen (iunlockput ip) (ret (None, name))
          else if nameiparent \<and> path = [] then andthen (iunlock (Some ip)) (ret (Some ip, name))
          else
            bind (dirlookup ip name) (\<lambda>r.
            case r of
              None \<Rightarrow> andthen (iunlockput ip) (ret (None, name))
            | Some (nxt, off) \<Rightarrow>
                andthen (iunlockput ip) (
                namex_loop nxt path nameiparent name)))))"
  by pat_completeness auto
termination
  by (relation "measure (\<lambda>(ip, path, np, name). length path)") (auto dest: skipelem_shorter)

declare namex_loop.simps [simp del]

definition namex :: "byte list \<Rightarrow> bool \<Rightarrow> byte list \<Rightarrow> (nat option \<times> byte list, 'x fs_state_scheme) kop" where
  "namex path nameiparent name =
     bind
       (if path \<noteq> [] \<and> hd path = SLASH then iget ROOTDEV ROOTINO
        else
          bind curproc (\<lambda>p.
          bind (gets (\<lambda>s. p_cwd (procs s p))) (\<lambda>cwd.
          case cwd of None \<Rightarrow> panic ''kerneltrap'' | Some ip \<Rightarrow> idup ip))) (\<lambda>ip.
     namex_loop ip path nameiparent name)"

definition namei :: "byte list \<Rightarrow> (nat option, 'x fs_state_scheme) kop" where
  "namei path = bind (namex path False (replicate DIRSIZ 0)) (\<lambda>r. ret (fst r))"

definition nameiparent :: "byte list \<Rightarrow> byte list \<Rightarrow> (nat option \<times> byte list, 'x fs_state_scheme) kop" where
  "nameiparent path name = namex path True name"

end
