(* ===== verification/Fs_Alloc.thy ===== *)
theory Fs_Alloc
  imports Fs
begin

text \<open>
  Laws of the block allocator of \<open>kernel/fs.c\<close> (\<open>bzero\<close>, \<open>balloc\<close>, \<open>bfree\<close>), proved through the
  interpretation \<open>lg\<close> of the transaction interface: what they do to the blocks of the file system as the running
  transaction sees them. \<open>blk_used\<close> reads the free map of those blocks and \<open>bm_ok\<close> says what the allocator needs of it.\<close>

section \<open>Laws: frames\<close>

lemma tx_cong:
  assumes "hw t = hw s" "procs t = procs s" "next_flag t = next_flag s" "\<And>i. slocks t (Sl_buf i) = slocks s (Sl_buf i)" "bufs t = bufs s" "vd t = vd s"
    "disk_img t = disk_img s" "disk_wr t = disk_wr s" "logr t = logr s"
  shows "tx p t B H = tx p s B H"
proof -
  have "log_bnos t = log_bnos s" "log_len t = log_len s" "log_area t = log_area s"
    using assms by (simp_all add: log_bnos_def log_len_def log_area_def)
  moreover have "dblk t = dblk s" using assms by (intro ext) (simp add: dblk_def)
  ultimately have "txv p t B H v = txv p s B H v" for v
    using bio_cong [OF assms(1-8), of p v] assms by (simp add: txv_def log_ok_def)
  then show ?thesis by (simp add: tx_def)
qed

lemma tx_frame_fs:
  fixes s :: "'x fs_state_scheme"
  assumes "tx_frame s t"
  shows "inodes t = inodes s" "fs_sb t = fs_sb s"
proof -
  have "bio_frame (s\<lparr>logr := logr t\<rparr>) t" using assms by (simp add: tx_frame_def)
  then have t: "t = (s\<lparr>logr := logr t\<rparr>)\<lparr>hw := hw t, slocks := slocks t, bufs := bufs t, vd := vd t, disk_wr := disk_wr t\<rparr>"
    by (simp only: bio_frame_def)
  show "inodes t = inodes s" "fs_sb t = fs_sb s" by (subst t, simp)+
qed

section \<open>Laws: the block allocator\<close>

lemma bit_set_iff: "bit_set d bi \<longleftrightarrow> bit (d ! (bi div 8)) (bi mod 8)"
  by (simp add: bit_set_def push_bit_eq_mult and_exp_eq_0_iff_not_bit)

definition bit_on :: "byte list \<Rightarrow> nat \<Rightarrow> byte list" where
  "bit_on d bi = d[bi div 8 := d ! (bi div 8) OR push_bit (bi mod 8) 1]"

definition bit_off :: "byte list \<Rightarrow> nat \<Rightarrow> byte list" where
  "bit_off d bi = d[bi div 8 := d ! (bi div 8) AND NOT (push_bit (bi mod 8) 1)]"

lemma length_bit_on [simp]: "length (bit_on d bi) = length d" "length (bit_off d bi) = length d"
  by (simp_all add: bit_on_def bit_off_def)

lemma div_mod_8: "(bi::nat) = bj \<longleftrightarrow> bi div 8 = bj div 8 \<and> bi mod 8 = bj mod 8"
  by (metis div_mult_mod_eq)

lemma bit_set_on:
  assumes "length d = BSIZE" and "bi < BPB" and "bj < BPB"
  shows "bit_set (bit_on d bi) bj \<longleftrightarrow> bj = bi \<or> bit_set d bj"
proof -
  have "bi div 8 < length d" using assms by simp
  moreover have "bit (push_bit (bi mod 8) 1 :: byte) (bj mod 8) \<longleftrightarrow> bj mod 8 = bi mod 8"
    by (auto simp: bit_exp_iff)
  ultimately show ?thesis
    by (auto simp: bit_set_iff bit_on_def nth_list_update bit_or_iff div_mod_8 [of bj bi])
qed

lemma bit_set_off:
  assumes "length d = BSIZE" and "bi < BPB" and "bj < BPB"
  shows "bit_set (bit_off d bi) bj \<longleftrightarrow> bj \<noteq> bi \<and> bit_set d bj"
proof -
  have "bi div 8 < length d" using assms by simp
  moreover have "bit (push_bit (bi mod 8) 1 :: byte) (bj mod 8) \<longleftrightarrow> bj mod 8 = bi mod 8"
    by (auto simp: bit_exp_iff)
  ultimately show ?thesis
    by (auto simp: bit_set_iff bit_off_def nth_list_update bit_and_iff bit_not_iff div_mod_8 [of bj bi])
qed

lemma bit_off_on:
  assumes "length d = BSIZE" and "bi < BPB" and "\<not> bit_set d bi"
  shows "bit_off (bit_on d bi) bi = d"
proof -
  let ?k = "bi div 8" and ?m = "push_bit (bi mod 8) 1 :: byte"
  have l: "?k < length d" using assms by simp
  have "(d ! ?k OR ?m) AND NOT ?m = d ! ?k"
    using assms(3) by (intro bit_word_eqI) (auto simp: bit_set_iff bit_and_iff bit_or_iff bit_not_iff bit_exp_iff)
  then show ?thesis using l by (simp add: bit_off_def bit_on_def)
qed

lemma bzero_spec:
  fixes s :: "'x fs_state_scheme"
  assumes "tx p s B H" and "H n = None" and "tx_legal s n" and "card (tx_logged s) + card (dom H) < NBUF" and "card (tx_logged s) < tx_lim s"
  shows "\<exists>t. bzero 1 n s = Ok () t \<and> tx p t (B(n := replicate BSIZE 0)) H \<and> tx_frame s t \<and> tx_logged t = insert n (tx_logged s)"
proof -
  obtain b t1 t2 t3 t4 where u: "bread 1 n s = Ok b t1" "on_buf b (\<lambda>x. x\<lparr>b_data := replicate BSIZE 0\<rparr>) t1 = Ok () t2" "log_write b t2 = Ok () t3"
    "brelse b t3 = Ok () t4" "tx p t4 (B(n := replicate BSIZE 0)) H" "tx_frame s t4" "tx_logged t4 = insert n (tx_logged s)"
    using lg.update [OF assms, of "\<lambda>_. replicate BSIZE 0"] by auto
  then show ?thesis by (simp add: bzero_def on_data_def bind_apply andthen_apply)
qed

definition blk_used :: "superblock \<Rightarrow> (u32 \<Rightarrow> byte list) \<Rightarrow> nat \<Rightarrow> bool" where
  "blk_used sb B x \<longleftrightarrow> bit_set (B (BBLOCK (of_nat x) sb)) (x mod BPB)"

text \<open>What the allocator needs of the blocks: the bitmap is not held, and a block it says is free is not held and not in the bitmap.\<close>

definition bm_ok :: "'x fs_state_scheme \<Rightarrow> (u32 \<Rightarrow> byte list) \<Rightarrow> (u32 \<Rightarrow> nat option) \<Rightarrow> bool" where
  "bm_ok s B H \<longleftrightarrow> (let sb = fs_sb s; N = unat (sb_size sb) in N < 2 ^ 31 \<and>
     (\<forall>x<N. tx_legal s (BBLOCK (of_nat x) sb) \<and> H (BBLOCK (of_nat x) sb) = None) \<and>
     (\<forall>x<N. \<not> blk_used sb B x \<longrightarrow> tx_legal s (of_nat x) \<and> H (of_nat x) = None \<and> (\<forall>y<N. of_nat x \<noteq> BBLOCK (of_nat y) sb)))"

lemma find_upt: "find P [0..<N] = Some x \<longleftrightarrow> x < N \<and> P x \<and> (\<forall>y<x. \<not> P y)"
  by (auto simp: find_Some_iff)

lemma find_upt_None: "find P [0..<N] = None \<longleftrightarrow> (\<forall>x<N. \<not> P x)"
  by (auto simp: find_None_iff)

lemma BBLOCK_of_nat: "x < 2 ^ 32 \<Longrightarrow> BBLOCK (of_nat x) sb = of_nat (x div BPB) + sb_bmapstart sb"
proof -
  assume "x < 2 ^ 32"
  moreover have "x div BPB \<le> x" by (rule div_le_dividend)
  ultimately have "unat ((of_nat x :: u32) div 8192) = unat (of_nat (x div BPB) :: u32)"
    by (simp add: unat_div unat_of_nat)
  then have "(of_nat x :: u32) div 8192 = of_nat (x div BPB)" by (rule unsigned_word_eqI)
  then show ?thesis by (simp add: BBLOCK_def)
qed

text \<open>The blocks after \<open>balloc\<close> has given out block \<open>x\<close>.\<close>

definition balloc_blocks :: "superblock \<Rightarrow> (u32 \<Rightarrow> byte list) \<Rightarrow> nat \<Rightarrow> u32 \<Rightarrow> byte list" where
  "balloc_blocks sb B x = B(BBLOCK (of_nat x) sb := bit_on (B (BBLOCK (of_nat x) sb)) (x mod BPB), of_nat x := replicate BSIZE 0)"

lemma balloc_loop_spec:
  fixes s :: "'x fs_state_scheme"
  assumes "tx p s B H" and "bm_ok s B H" and sb: "sb = fs_sb s" and N: "N = unat (sb_size sb)"
    and cap: "card (tx_logged s) + card (dom H) + 1 < NBUF" "card (tx_logged s) + 1 < tx_lim s"
    and used: "\<And>x. x < N \<Longrightarrow> x < k * BPB \<Longrightarrow> blk_used sb B x" and K: "K = (N + BPB - 1) div BPB" "k \<le> K"
  shows "case find (\<lambda>x. \<not> blk_used sb B x) [0..<N] of
      Some x \<Rightarrow> \<exists>t. balloc_loop 1 (map (\<lambda>k. k * BPB) [k..<K]) s = Ok (of_nat x) t \<and> tx p t (balloc_blocks sb B x) H \<and> tx_frame s t \<and>
        tx_logged t = insert (of_nat x) (insert (BBLOCK (of_nat x) sb) (tx_logged s))
    | None \<Rightarrow> balloc_loop 1 (map (\<lambda>k. k * BPB) [k..<K]) s = Panic ''balloc: out of blocks''"
  using assms
proof (induction "K - k" arbitrary: k s)
  case 0
  then have "k = K" by simp
  then have "N \<le> k * BPB" using 0(9) by (simp add: algebra_simps)
  then have "find (\<lambda>x. \<not> blk_used sb B x) [0..<N] = None" using 0(8) by (auto simp: find_upt_None)
  then show ?case using \<open>k = K\<close> by simp
next
  case (Suc j)
  note tx = Suc.prems(1) and bm = Suc.prems(2) and sb = Suc.prems(3) and N = Suc.prems(4) and cap = Suc.prems(5,6) and used = Suc.prems(7)
  have k: "k < K" using Suc.hyps(2) by simp
  then have "Suc k * BPB \<le> N + BPB - 1" using Suc.prems(8) by (simp add: less_eq_div_iff_mult_less_eq Suc_le_eq [symmetric] del: mult_Suc)
  then have kN: "k * BPB < N" by simp
  note bm' = bm [unfolded bm_ok_def Let_def, folded sb, folded N]
  have N31: "N < 2 ^ 31" using bm' by simp
  let ?b = "k * BPB" and ?n = "BBLOCK (of_nat (k * BPB)) sb"
  have blk: "BBLOCK (of_nat (?b + bi)) sb = ?n" if "?b + bi < N" "bi < BPB" for bi
    using that N31 by (simp add: BBLOCK_of_nat del: of_nat_add of_nat_mult)
  have usd: "blk_used sb B (?b + bi) = bit_set (B ?n) bi" if "?b + bi < N" "bi < BPB" for bi
    using blk [OF that] that by (simp add: blk_used_def del: of_nat_add of_nat_mult)
  have n: "H ?n = None" "tx_legal s ?n" using bm' kN by (auto simp del: of_nat_add of_nat_mult)
  have c0: "card (tx_logged s) + card (dom H) < NBUF" "card (tx_logged s) < tx_lim s" using cap by simp_all
  have list: "[k..<K] = k # [Suc k..<K]" using k by (simp add: upt_conv_Cons)
  show ?case
  proof (cases "find (\<lambda>bi. \<not> bit_set (B ?n) bi) [0..<min BPB (N - ?b)]")
    case None
    then have u: "blk_used sb B x" if "x < N" "x < Suc k * BPB" for x
      using that used [of x] usd [of "x - ?b"] by (cases "x < ?b") (auto simp: find_upt_None)
    obtain b t1 t where t: "bread 1 ?n s = Ok b t1" "b_data (bufs t1 b) = B ?n" "brelse b t1 = Ok () t" "tx p t B H" "tx_frame s t"
      "tx_logged t = tx_logged s"
      using lg.fetch [OF tx n c0(1)] by blast
    note f = tx_frame_same [OF t(5)] tx_frame_fs [OF t(5)]
    have bmt: "bm_ok t B H" using bm f by (simp add: bm_ok_def)
    have run: "balloc_loop 1 (map (\<lambda>k. k * BPB) [k..<K]) s = balloc_loop 1 (map (\<lambda>k. k * BPB) [Suc k..<K]) t"
      using t(1,2,3) None sb N unfolding list by (simp add: bind_apply andthen_apply del: upt_Suc of_nat_add of_nat_mult)
    have "case find (\<lambda>x. \<not> blk_used sb B x) [0..<N] of
        Some x \<Rightarrow> \<exists>u. balloc_loop 1 (map (\<lambda>k. k * BPB) [Suc k..<K]) t = Ok (of_nat x) u \<and> tx p u (balloc_blocks sb B x) H \<and> tx_frame t u \<and>
          tx_logged u = insert (of_nat x) (insert (BBLOCK (of_nat x) sb) (tx_logged t))
      | None \<Rightarrow> balloc_loop 1 (map (\<lambda>k. k * BPB) [Suc k..<K]) t = Panic ''balloc: out of blocks''"
      by (rule Suc.hyps(1)) (use Suc.hyps(2) k t(4,6) bmt f sb N cap u Suc.prems(8) in simp_all)
    then show ?thesis unfolding run t(6) using tx_frame_trans [OF t(5)] by (auto split: option.splits)
  next
    case (Some bi)
    then have bi: "bi < BPB" "?b + bi < N" "\<not> bit_set (B ?n) bi" "\<And>y. y < bi \<Longrightarrow> bit_set (B ?n) y" by (auto simp: find_upt)
    let ?x = "?b + bi"
    have "blk_used sb B y" if "y < ?x" for y
      using that used [of y] usd [of "y - ?b"] bi by (cases "y < ?b") auto
    then have fx: "find (\<lambda>x. \<not> blk_used sb B x) [0..<N] = Some ?x" using bi usd [of bi] by (auto simp: find_upt)
    have xx: "tx_legal s (of_nat ?x)" "H (of_nat ?x) = None" "of_nat ?x \<noteq> ?n" "of_nat ?x \<noteq> BBLOCK (of_nat ?x) sb"
      using bm' usd [of bi] bi kN by (auto simp del: of_nat_add of_nat_mult)
    have len: "length (B ?n) = BSIZE" by (rule lg.len_law [OF tx])
    obtain b t1 t2 t3 t4 where u: "bread 1 ?n s = Ok b t1" "b_data (bufs t1 b) = B ?n" "tx_frame s t1"
      "on_buf b (\<lambda>x. x\<lparr>b_data := bit_on (b_data x) bi\<rparr>) t1 = Ok () t2" "log_write b t2 = Ok () t3"
      "brelse b t3 = Ok () t4" "tx p t4 (B(?n := bit_on (B ?n) bi)) H" "tx_frame s t4" "tx_logged t4 = insert ?n (tx_logged s)"
      using lg.update [OF tx n c0, of "\<lambda>d. bit_on d bi"] len by (auto simp del: of_nat_add of_nat_mult)
    note f4 = tx_frame_same [OF u(8)]
    have cc: "card (tx_logged t4) \<le> card (tx_logged s) + 1" using u(9) card_insert_le_m1 [of "card (tx_logged s) + 1" "tx_logged s" ?n] by simp
    obtain t5 where t5: "bzero 1 (of_nat ?x) t4 = Ok () t5" "tx p t5 ((B(?n := bit_on (B ?n) bi))(of_nat ?x := replicate BSIZE 0)) H"
      "tx_frame t4 t5" "tx_logged t5 = insert (of_nat ?x) (tx_logged t4)"
      using bzero_spec [OF u(7) xx(2)] xx(1) f4 cap cc by (auto simp del: of_nat_add of_nat_mult)
    have "balloc_loop 1 (map (\<lambda>k. k * BPB) [k..<K]) s = Ok (of_nat ?x) t5"
      using u(1,2,4,5,6) t5(1) Some sb N unfolding list by (simp add: bind_apply andthen_apply on_data_def bit_on_def del: upt_Suc of_nat_add of_nat_mult)
    moreover have "(B(?n := bit_on (B ?n) bi))(of_nat ?x := replicate BSIZE 0) = balloc_blocks sb B ?x"
      using blk [OF bi(2,1)] bi(1) by (simp add: balloc_blocks_def del: of_nat_add of_nat_mult)
    ultimately show ?thesis unfolding fx using t5(2,4) u(9) tx_frame_trans [OF u(8) t5(3)] blk [OF bi(2,1)] by (auto simp del: of_nat_add of_nat_mult)
  qed
qed

lemma balloc_spec:
  fixes s :: "'x fs_state_scheme"
  assumes "tx p s B H" and "bm_ok s B H" and sb: "sb = fs_sb s" and N: "N = unat (sb_size sb)"
    and cap: "card (tx_logged s) + card (dom H) + 1 < NBUF" "card (tx_logged s) + 1 < tx_lim s"
  shows "case find (\<lambda>x. \<not> blk_used sb B x) [0..<N] of
      Some x \<Rightarrow> \<exists>t. balloc 1 s = Ok (of_nat x) t \<and> tx p t (balloc_blocks sb B x) H \<and> tx_frame s t \<and>
        tx_logged t = insert (of_nat x) (insert (BBLOCK (of_nat x) sb) (tx_logged s))
    | None \<Rightarrow> balloc 1 s = Panic ''balloc: out of blocks''"
proof -
  have run: "balloc 1 s = balloc_loop 1 (map (\<lambda>k. k * BPB) [0..<(N + BPB - 1) div BPB]) s" by (simp add: balloc_def bind_apply sb N)
  show ?thesis unfolding run by (rule balloc_loop_spec [OF assms(1,2) sb N cap _ refl]) simp_all
qed

lemma bfree_spec:
  fixes s :: "'x fs_state_scheme"
  assumes "tx p s B H" and n: "n = BBLOCK x (fs_sb s)" "H n = None" "tx_legal s n"
    and cap: "card (tx_logged s) + card (dom H) < NBUF" "card (tx_logged s) < tx_lim s"
  shows "if bit_set (B n) (unat x mod BPB)
    then \<exists>t. bfree 1 x s = Ok () t \<and> tx p t (B(n := bit_off (B n) (unat x mod BPB))) H \<and> tx_frame s t \<and> tx_logged t = insert n (tx_logged s)
    else bfree 1 x s = Panic ''freeing free block''"
proof (cases "bit_set (B n) (unat x mod BPB)")
  case True
  have len: "length (B n) = BSIZE" by (rule lg.len_law [OF assms(1)])
  obtain b t1 t2 t3 t4 where u: "bread 1 n s = Ok b t1" "b_data (bufs t1 b) = B n" "tx_frame s t1"
    "on_buf b (\<lambda>y. y\<lparr>b_data := bit_off (b_data y) (unat x mod BPB)\<rparr>) t1 = Ok () t2" "log_write b t2 = Ok () t3"
    "brelse b t3 = Ok () t4" "tx p t4 (B(n := bit_off (B n) (unat x mod BPB))) H" "tx_frame s t4" "tx_logged t4 = insert n (tx_logged s)"
    using lg.update [OF assms(1) n(2,3) cap, of "\<lambda>d. bit_off d (unat x mod BPB)"] len by auto
  have "bfree 1 x s = Ok () t4"
    using u(1,2,4,5,6) True n(1) by (simp add: bfree_def bind_apply andthen_apply on_data_def bit_off_def panic_if_def Let_def)
  then show ?thesis using True u by auto
next
  case False
  obtain b t where t: "bread 1 n s = Ok b t" "b_data (bufs t b) = B n" using lg.fetch [OF assms(1) n(2,3) cap(1)] by blast
  show ?thesis using t False n(1) by (simp add: bfree_def bind_apply andthen_apply panic_if_def Let_def)
qed

lemma BBLOCK_eq:
  assumes "x < 2 ^ 31" and "y < 2 ^ 31"
  shows "BBLOCK (of_nat x) sb = BBLOCK (of_nat y) sb \<longleftrightarrow> x div BPB = y div BPB"
proof -
  have "unat (of_nat (x div BPB) :: u32) = x div BPB" "unat (of_nat (y div BPB) :: u32) = y div BPB"
    using assms div_le_dividend [of x BPB] div_le_dividend [of y BPB] by (auto intro!: unat_of_nat_small simp del: of_nat_div)
  then have "(of_nat (x div BPB) :: u32) = of_nat (y div BPB) \<longleftrightarrow> x div BPB = y div BPB" by metis
  moreover have "BBLOCK (of_nat x) sb = of_nat (x div BPB) + sb_bmapstart sb" "BBLOCK (of_nat y) sb = of_nat (y div BPB) + sb_bmapstart sb"
    using assms by (intro BBLOCK_of_nat; simp)+
  ultimately show ?thesis by (simp only: add_right_cancel)
qed

lemma blk_used_balloc:
  assumes "N < 2 ^ 31" and "x < N" "y < N" and "\<And>z. z < N \<Longrightarrow> of_nat x \<noteq> BBLOCK (of_nat z) sb" and "\<And>n. length (B n) = BSIZE"
  shows "blk_used sb (balloc_blocks sb B x) y \<longleftrightarrow> y = x \<or> blk_used sb B y"
proof -
  have e: "BBLOCK (of_nat y) sb = BBLOCK (of_nat x) sb \<longleftrightarrow> y div BPB = x div BPB" using assms(1-3) by (intro BBLOCK_eq) auto
  have "balloc_blocks sb B x (BBLOCK (of_nat y) sb) = (if y div BPB = x div BPB then bit_on (B (BBLOCK (of_nat x) sb)) (x mod BPB) else B (BBLOCK (of_nat y) sb))"
    using assms(4) [OF assms(3)] e by (auto simp: balloc_blocks_def)
  moreover have "y = x \<longleftrightarrow> y div BPB = x div BPB \<and> y mod BPB = x mod BPB" by (metis div_mult_mod_eq)
  ultimately show ?thesis using e assms(5) by (auto simp: blk_used_def bit_set_on)
qed

text \<open>
  C15: the block allocator. On a bitmap that marks itself as used, \<open>balloc\<close> returns the first block whose bit is clear,
  now zeroed; it sets that bit and no other, and changes no other block; when every bit is set it panics. \<open>bfree\<close> of
  the block it returned succeeds and gives back the bitmap of before, so that the block is free again; \<open>bfree\<close> of a
  block that is free panics.\<close>

theorem balloc_bfree_correct:
  fixes s :: "'x fs_state_scheme"
  assumes "tx p s B H" and "bm_ok s B H" and "sb = fs_sb s" and "N = unat (sb_size sb)"
    and "card (tx_logged s) + card (dom H) + 2 < NBUF" and "card (tx_logged s) + 2 < tx_lim s"
  shows "(case find (\<lambda>x. \<not> blk_used sb B x) [0..<N] of
      Some x \<Rightarrow> \<exists>t B'. balloc 1 s = Ok (of_nat x) t \<and> tx p t B' H \<and> B' (of_nat x) = replicate BSIZE 0 \<and>
        (\<forall>y<N. blk_used sb B' y \<longleftrightarrow> y = x \<or> blk_used sb B y) \<and> (\<forall>n. n \<noteq> of_nat x \<and> n \<noteq> BBLOCK (of_nat x) sb \<longrightarrow> B' n = B n) \<and>
        (\<exists>u. bfree 1 (of_nat x) t = Ok () u \<and> tx p u (B(of_nat x := replicate BSIZE 0)) H)
    | None \<Rightarrow> balloc 1 s = Panic ''balloc: out of blocks'') \<and>
    (\<forall>x<N. \<not> blk_used sb B x \<longrightarrow> bfree 1 (of_nat x) s = Panic ''freeing free block'')"
proof (intro conjI allI impI)
  have N31: "N < 2 ^ 31" and bm2: "\<And>x. x < N \<Longrightarrow> tx_legal s (BBLOCK (of_nat x) sb) \<and> H (BBLOCK (of_nat x) sb) = None"
    and bm3: "\<And>x y. x < N \<Longrightarrow> \<not> blk_used sb B x \<Longrightarrow> y < N \<Longrightarrow> of_nat x \<noteq> BBLOCK (of_nat y) sb"
    using assms(2-4) by (auto simp: bm_ok_def Let_def)
  have bal: "case find (\<lambda>x. \<not> blk_used sb B x) [0..<N] of
      Some x \<Rightarrow> \<exists>t. balloc 1 s = Ok (of_nat x) t \<and> tx p t (balloc_blocks sb B x) H \<and> tx_frame s t \<and>
        tx_logged t = insert (of_nat x) (insert (BBLOCK (of_nat x) sb) (tx_logged s))
    | None \<Rightarrow> balloc 1 s = Panic ''balloc: out of blocks''"
    by (rule balloc_spec [OF assms(1-4)]) (use assms(5,6) in simp_all)
  show "case find (\<lambda>x. \<not> blk_used sb B x) [0..<N] of
      Some x \<Rightarrow> \<exists>t B'. balloc 1 s = Ok (of_nat x) t \<and> tx p t B' H \<and> B' (of_nat x) = replicate BSIZE 0 \<and>
        (\<forall>y<N. blk_used sb B' y \<longleftrightarrow> y = x \<or> blk_used sb B y) \<and> (\<forall>n. n \<noteq> of_nat x \<and> n \<noteq> BBLOCK (of_nat x) sb \<longrightarrow> B' n = B n) \<and>
        (\<exists>u. bfree 1 (of_nat x) t = Ok () u \<and> tx p u (B(of_nat x := replicate BSIZE 0)) H)
    | None \<Rightarrow> balloc 1 s = Panic ''balloc: out of blocks''"
  proof (cases "find (\<lambda>x. \<not> blk_used sb B x) [0..<N]")
    case None
    then show ?thesis using bal by simp
  next
    case (Some x)
    then have x: "x < N" "\<not> blk_used sb B x" by (auto simp: find_upt)
    let ?n = "BBLOCK (of_nat x) sb" and ?B = "balloc_blocks sb B x"
    obtain t where t: "balloc 1 s = Ok (of_nat x) t" "tx p t ?B H" "tx_frame s t" "tx_logged t = insert (of_nat x) (insert ?n (tx_logged s))"
      using bal Some by auto
    note f = tx_frame_same [OF t(3)] tx_frame_fs [OF t(3)]
    have len: "length (B n) = BSIZE" for n by (rule lg.len_law [OF assms(1)])
    have xn: "of_nat x \<noteq> BBLOCK (of_nat y) sb" if "y < N" for y using bm3 [OF x that] .
    have un: "unat (of_nat x :: u32) = x" using N31 x(1) by (intro unat_of_nat_small) simp
    have Bn: "?B ?n = bit_on (B ?n) (x mod BPB)" using xn [OF x(1)] by (simp add: balloc_blocks_def)
    have "card (tx_logged t) \<le> card (tx_logged s) + 2"
      unfolding t(4) by (simp add: card_insert_if)
    then have "card (tx_logged t) + card (dom H) < NBUF" "card (tx_logged t) < tx_lim t" using assms(5,6) f by simp_all
    then obtain u where u: "bfree 1 (of_nat x) t = Ok () u" "tx p u (?B(?n := bit_off (?B ?n) (x mod BPB))) H"
      using bfree_spec [OF t(2), of ?n "of_nat x"] bm2 [OF x(1)] f assms(3) un Bn bit_set_on [OF len, of "x mod BPB" "x mod BPB"] by auto
    have "bit_off (?B ?n) (x mod BPB) = B ?n"
      using x(2) unfolding Bn by (intro bit_off_on [OF len]) (simp_all add: blk_used_def)
    then have "?B(?n := bit_off (?B ?n) (x mod BPB)) = B(of_nat x := replicate BSIZE 0)"
      using xn [OF x(1)] by (auto simp: balloc_blocks_def)
    then have "tx p u (B(of_nat x := replicate BSIZE 0)) H" using u(2) by (simp only:)
    moreover have "\<forall>y<N. blk_used sb ?B y \<longleftrightarrow> y = x \<or> blk_used sb B y" 
      by (intro allI impI) (rule blk_used_balloc [OF N31 x(1) _ xn len])
    moreover have "?B (of_nat x) = replicate BSIZE 0" "\<forall>n. n \<noteq> of_nat x \<and> n \<noteq> ?n \<longrightarrow> ?B n = B n" by (simp_all add: balloc_blocks_def)
    ultimately show ?thesis unfolding Some option.case using t(1,2) u(1) by blast
  qed
  show "bfree 1 (of_nat x) s = Panic ''freeing free block''" if "x < N" "\<not> blk_used sb B x" for x
  proof -
    have un: "unat (of_nat x :: u32) = x" using N31 that(1) by (intro unat_of_nat_small) simp
    have n: "BBLOCK (of_nat x) sb = BBLOCK (of_nat x) (fs_sb s)" "H (BBLOCK (of_nat x) sb) = None" "tx_legal s (BBLOCK (of_nat x) sb)"
      using bm2 [OF that(1)] assms(3) by simp_all
    have "\<not> bit_set (B (BBLOCK (of_nat x) sb)) (unat (of_nat x :: u32) mod BPB)" using that(2) un by (simp add: blk_used_def)
    then show ?thesis using bfree_spec [OF assms(1) n] assms(5,6) by simp
  qed
qed

text \<open>A file system of 100 blocks: the bitmap is block 46, with blocks 0 to 49 used.\<close>

definition fs_sb0 :: superblock where
  "fs_sb0 = \<lparr>sb_magic = FSMAGIC, sb_size = 100, sb_nblocks = 53, sb_ninodes = 200, sb_nlog = 30, sb_logstart = 2, sb_inodestart = 33, sb_bmapstart = 46\<rparr>"

definition fs_bm0 :: "byte list" where
  "fs_bm0 = replicate 6 0xff @ [3] @ replicate 1017 0"

definition fs_st0 :: fs_state where
  "fs_st0 = log_state.extend (log_st0\<lparr>disk_img := (\<lambda>n. if n = 46 then fs_bm0 else replicate BSIZE 0),
       logr := (logr log_st0)\<lparr>l_outstanding := 1\<rparr>\<rparr>)
     \<lparr>fs_sb = fs_sb0, inodes = (\<lambda>_. \<lparr>i_dev = 0, i_inum = 0, i_ref = 0, i_valid = False, i_type = 0, i_major = 0, i_minor = 0,
       i_nlink = 0, i_size = 0, i_addrs = (\<lambda>_. 0)\<rparr>)\<rparr>"

definition fs_B0 :: "u32 \<Rightarrow> byte list" where
  "fs_B0 n = (if n = 46 then fs_bm0 else replicate BSIZE 0)"

lemma fs_st0_tx: "tx 0 fs_st0 fs_B0 Map.empty"
proof -
  note d = fs_st0_def log_state.extend_def log_st0_def disk_state.extend_def
  have q: "fs_quiet 0 fs_st0" using bcache_st0_quiet by (simp add: d fs_quiet_def running_def)
  have "bufs fs_st0 = bufs bcache_st0" by (simp add: d)
  then have r: "ring (bufs fs_st0) [0..<NBUF]" using bcache_st0_ring by (simp only:)
  have db: "dblk fs_st0 n = fs_B0 n" for n
  proof -
    have "unat n = 46 \<longleftrightarrow> n = 46" using unsigned_word_eqI [of n 46] by auto
    then show ?thesis by (simp add: dblk_def fs_B0_def d bcache_st0_def disk_st0_def sl_state.extend_def disk_get_def)
  qed
  have l: "length (dblk fs_st0 n) = BSIZE" for n by (simp add: db fs_B0_def fs_bm0_def)
  have b: "b_dev (bufs fs_st0 i) = 0 \<and> b_refcnt (bufs fs_st0 i) = 0 \<and> length (b_data (bufs fs_st0 i)) = BSIZE \<and> \<not> sl_locked (slocks fs_st0 (Sl_buf i))" for i
    using bcache_st0_buf [of i] by (simp add: d)
  note boot = bio_boot [OF q r l b]
  have "log_ok fs_st0 {}" "log_len fs_st0 = 0" by (simp_all add: log_ok_def log_bnos_def log_len_def d)
  then have "tx 0 fs_st0 (v_blk (bview_of fs_st0)) Map.empty" using tx_idle [OF boot(1,2)] by simp
  then show ?thesis using boot(5) db by (simp add: fun_eq_iff) (metis ext)
qed

lemma fs_bm0_bits: 
  assumes "x < 100"
  shows "bit_set fs_bm0 x \<longleftrightarrow> x < 50"
proof -
  have m: "(3 :: byte) = mask 2" "(0xff :: byte) = mask 8" by (simp_all add: mask_eq_exp_minus_1)
  have b3: "bit (3 :: byte) k \<longleftrightarrow> k < 2" for k unfolding m(1) by (simp add: bit_mask_iff) linarith
  have b8: "bit (0xff :: byte) k \<longleftrightarrow> k < 8" for k unfolding m(2) by (simp add: bit_mask_iff)
  consider "x div 8 < 6" "x < 50" | "x div 8 = 6" | "6 < x div 8" "\<not> x < 50" by linarith
  then show ?thesis
  proof cases
    case 1
    then have "fs_bm0 ! (x div 8) = 0xff" by (simp add: fs_bm0_def nth_append)
    then show ?thesis using 1 b8 [of "x mod 8"] unfolding bit_set_iff by simp
  next
    case 2
    then have "fs_bm0 ! (x div 8) = 3" by (simp add: fs_bm0_def nth_append)
    moreover have "x mod 8 < 2 \<longleftrightarrow> x < 50" using 2 div_mult_mod_eq [of x 8] by linarith
    ultimately show ?thesis using b3 [of "x mod 8"] unfolding bit_set_iff by simp
  next
    case 3
    then have "fs_bm0 ! (x div 8) = 0" using assms by (simp add: fs_bm0_def nth_append)
    then show ?thesis using 3 by (simp add: bit_set_iff)
  qed
qed

lemma fs_st0_bm:
  shows "x < 100 \<Longrightarrow> BBLOCK (of_nat x) fs_sb0 = 46" and "x < 100 \<Longrightarrow> blk_used fs_sb0 fs_B0 x \<longleftrightarrow> x < 50"
    and "tx_lim fs_st0 = 29" and "tx_logged fs_st0 = {}" and "fs_sb fs_st0 = fs_sb0" and "bm_ok fs_st0 fs_B0 Map.empty"
proof -
  show b: "BBLOCK (of_nat x) fs_sb0 = 46" if "x < 100" for x using that by (simp add: BBLOCK_of_nat fs_sb0_def)
  show u: "blk_used fs_sb0 fs_B0 x \<longleftrightarrow> x < 50" if "x < 100" for x
    using that fs_bm0_bits [OF that] by (simp add: blk_used_def b fs_B0_def)
  have s: "fs_sb fs_st0 = fs_sb0" "logr fs_st0 = (logr log_st0)\<lparr>l_outstanding := 1\<rparr>"
    by (simp_all add: fs_st0_def log_state.extend_def)
  then show "fs_sb fs_st0 = fs_sb0" "tx_lim fs_st0 = 29" "tx_logged fs_st0 = {}"
    by (simp_all add: tx_lim_def tx_logged_def log_bnos_def log_len_def)
  have "of_nat x \<noteq> (46 :: u32) \<and> (of_nat x :: u32) < 0x80000000 \<and> unat (of_nat x :: u32) = x" if "x < 100" "50 \<le> x" for x
  proof -
    have "unat (of_nat x :: u32) = x" using that by (intro unat_of_nat_small) simp
    then show ?thesis using that by (auto simp: word_less_nat_alt)
  qed
  then show "bm_ok fs_st0 fs_B0 Map.empty" by (auto simp: bm_ok_def Let_def s tx_legal_def log_area_def b u) (simp_all add: fs_sb0_def b [unfolded fs_sb0_def] u [unfolded fs_sb0_def])
qed

theorem balloc_bfree_correct_witness:
  "\<exists>t. balloc 1 fs_st0 = Ok 50 t \<and> (\<exists>u. bfree 1 50 t = Ok () u)"
proof -
  have N: "100 = unat (sb_size fs_sb0)" by (simp add: fs_sb0_def)
  have "find (\<lambda>x. \<not> blk_used fs_sb0 fs_B0 x) [0..<100] = Some 50" by (auto simp: find_upt fs_st0_bm(2))
  then show ?thesis
    using balloc_bfree_correct [OF fs_st0_tx fs_st0_bm(6) fs_st0_bm(5) [symmetric] N] fs_st0_bm(3,4) by auto
qed

end
