(* ===== verification/Fs_Inode.thy ===== *)
theory Fs_Inode
  imports Fs_Alloc "HOL-Library.Multiset"
begin

text \<open>
  Laws of the inodes of \<open>kernel/fs.c\<close>: the cache of in-memory inodes and its reference counts (\<open>iget\<close>,
  \<open>idup\<close>, \<open>iput\<close>), the copy of an inode on the disk (\<open>iupdate\<close>, \<open>ilock\<close>), and giving back the blocks of an
  inode (\<open>itrunc\<close>).\<close>

section \<open>Frames\<close>

text \<open>An operation on inodes leaves everything but the inodes as a block operation does.\<close>

definition ino_frame :: "'x fs_state_scheme \<Rightarrow> 'x fs_state_scheme \<Rightarrow> bool" where
  "ino_frame s t \<longleftrightarrow> tx_frame (s\<lparr>inodes := inodes t\<rparr>) t"

lemma tx_inodes [simp]: "tx p (s\<lparr>inodes := I\<rparr>) B H = tx p s B H"
  by (rule tx_cong) simp_all

lemma tx_inodes_sel [simp]:
  "tx_logged (s\<lparr>inodes := I\<rparr>) = tx_logged s" "tx_lim (s\<lparr>inodes := I\<rparr>) = tx_lim s" "tx_legal (s\<lparr>inodes := I\<rparr>) = tx_legal s"
  by (simp_all add: tx_logged_def log_bnos_def log_len_def tx_lim_def tx_legal_def log_area_def fun_eq_iff)

lemma tx_frame_inodes:
  fixes s :: "'x fs_state_scheme"
  assumes "tx_frame s t"
  shows "tx_frame (s\<lparr>inodes := I\<rparr>) (t\<lparr>inodes := I\<rparr>)"
proof -
  have f: "bio_frame (s\<lparr>logr := logr t\<rparr>) t" using assms by (simp add: tx_frame_def)
  have t: "t = (s\<lparr>logr := logr t\<rparr>)\<lparr>hw := hw t, slocks := slocks t, bufs := bufs t, vd := vd t, disk_wr := disk_wr t\<rparr>"
    and l: "\<And>l. \<forall>i. l \<noteq> Sl_buf i \<Longrightarrow> slocks t l = slocks s l"
    using f by (simp_all only: bio_frame_def) simp
  have "t\<lparr>inodes := I\<rparr> = (s\<lparr>logr := logr t\<rparr>)\<lparr>hw := hw t, slocks := slocks t, bufs := bufs t, vd := vd t, disk_wr := disk_wr t\<rparr>\<lparr>inodes := I\<rparr>"
    by (subst t) (rule refl)
  then have "bio_frame (s\<lparr>inodes := I, logr := logr t\<rparr>) (t\<lparr>inodes := I\<rparr>)"
    using l by (simp add: bio_frame_def)
  then show ?thesis using assms by (simp add: tx_frame_def log_bnos_def log_len_def)
qed

lemma ino_frame_tx: "tx_frame s t \<Longrightarrow> ino_frame s t"
  using tx_frame_fs(1) [of s t] by (simp add: ino_frame_def)

lemma ino_frame_upd [simp]: "ino_frame s (s\<lparr>inodes := I\<rparr>)"
  by (simp add: ino_frame_def lg.frame_refl)

lemma ino_frame_refl [simp]: "ino_frame s s"
  by (simp add: ino_frame_def lg.frame_refl)

lemma ino_frame_trans:
  assumes "ino_frame s t" and "ino_frame t u"
  shows "ino_frame s u"
  using lg.frame_trans [OF tx_frame_inodes [of "s\<lparr>inodes := inodes t\<rparr>" t "inodes u"], of u] assms by (simp add: ino_frame_def)

lemma ino_frame_same:
  fixes s :: "'x fs_state_scheme"
  assumes "ino_frame s t"
  shows "dblk t = dblk s" "tx_lim t = tx_lim s" "tx_legal t = tx_legal s" "procs t = procs s" "fs_sb t = fs_sb s"
    "tx_logged s \<subseteq> tx_logged t" "slocks t (Sl_inode i) = slocks s (Sl_inode i)"
  using tx_frame_same [of "s\<lparr>inodes := inodes t\<rparr>" t] tx_frame_fs [of "s\<lparr>inodes := inodes t\<rparr>" t] assms
  by (auto simp: ino_frame_def tx_frame_def tx_logged_def bio_frame_def dblk_def log_bnos_def log_len_def fun_eq_iff)

section \<open>The inode cache\<close>

text \<open>A slot holds an inode while its count is positive.\<close>

definition icached :: "(nat \<Rightarrow> inode) \<Rightarrow> u32 \<Rightarrow> u32 \<Rightarrow> nat \<Rightarrow> bool" where
  "icached I dev inum ip \<longleftrightarrow> sint (i_ref (I ip)) > 0 \<and> i_dev (I ip) = dev \<and> i_inum (I ip) = inum"

lemma iget_scan_run:
  "iget_scan dev inum ips emp s = Ok
     (case find (icached (inodes s) dev inum) ips of
        Some ip \<Rightarrow> Inl ip
      | None \<Rightarrow> Inr (if emp = None then find (\<lambda>ip. i_ref (inodes s ip) = 0) ips else emp)) s"
  by (induction ips arbitrary: emp) (auto simp: bind_apply icached_def cong: option.case_cong)

lemma iget_run:
  assumes "running p s"
  shows "iget dev inum s =
    (case find (icached (inodes s) dev inum) [0..<NINODE] of
       Some ip \<Rightarrow> Ok ip (s\<lparr>hw := lock_cycle (hw s), inodes := (inodes s)(ip := (inodes s ip)\<lparr>i_ref := i_ref (inodes s ip) + 1\<rparr>)\<rparr>)
     | None \<Rightarrow> (case find (\<lambda>ip. i_ref (inodes s ip) = 0) [0..<NINODE] of
         Some ip \<Rightarrow> Ok ip (s\<lparr>hw := lock_cycle (hw s),
           inodes := (inodes s)(ip := (inodes s ip)\<lparr>i_dev := dev, i_inum := inum, i_ref := 1, i_valid := False\<rparr>)\<rparr>)
       | None \<Rightarrow> Panic ''iget: no inodes''))"
  using running_facts [OF assms] by (simp add: iget_def kop iget_scan_run on_ino_def split: option.split)

lemma idup_run:
  assumes "running p s"
  shows "idup ip s = Ok ip (s\<lparr>hw := lock_cycle (hw s), inodes := (inodes s)(ip := (inodes s ip)\<lparr>i_ref := i_ref (inodes s ip) + 1\<rparr>)\<rparr>)"
  using running_facts [OF assms] by (simp add: idup_def kop on_ino_def)

lemma iput_run:
  assumes "running p s" and "\<not> (i_ref (inodes s ip) = 1 \<and> i_valid (inodes s ip) \<and> i_nlink (inodes s ip) = 0)"
  shows "iput ip s = Ok () (s\<lparr>hw := lock_cycle (hw s), inodes := (inodes s)(ip := (inodes s ip)\<lparr>i_ref := i_ref (inodes s ip) - 1\<rparr>)\<rparr>)"
  using running_facts [OF assms(1)] assms(2) by (auto simp: iput_def kop on_ino_def)

section \<open>Inodes on the disk\<close>

lemma blk_get_put_inside:
  assumes "off + length bs \<le> length d" and "k + n \<le> length bs"
  shows "blk_get (blk_put d off bs) (off + k) n = blk_get bs k n"
  using assms by (intro nth_equalityI) (auto simp: nth_blk_get nth_blk_put)

lemma blk_get_concat:
  assumes "k < m" and "\<And>i. length (f i) = l"
  shows "blk_get (concat (map f [0..<m])) (l * k) l = f k"
proof -
  have "concat (map f [0..<m]) = concat (map f [0..<k]) @ f k @ concat (map f [Suc k..<m])"
  proof -
    have "[0..<m] = [0..<k] @ k # [Suc k..<m]" using assms(1) by (metis upt_add_eq_append upt_conv_Cons le0 less_imp_add_positive less_imp_le_nat add_0 add.commute le_add_diff_inverse)
    then show ?thesis by simp
  qed
  moreover have "length (concat (map f [0..<k])) = l * k" using assms(2) by (induction k) auto
  ultimately show ?thesis using assms(2) by (simp add: blk_get_def)
qed

lemma length_dinode_bytes [simp]: "length (dinode_bytes i) = 64"
  by (simp add: dinode_bytes_def length_concat comp_def sum_list_triv)

lemma dinode_off_bound [simp]: "dinode_off inum + 64 \<le> 1024"
  using mod_less_divisor [of 16 "unat inum"] by (simp add: dinode_off_def)

text \<open>Reading back an inode that was written gives its fields.\<close>

definition dfields :: "inode \<Rightarrow> u16 \<times> u16 \<times> u16 \<times> u16 \<times> u32 \<times> u32 list" where
  "dfields i = (i_type i, i_major i, i_minor i, i_nlink i, i_size i, map (i_addrs i) [0..<13])"

lemma rd_dinode_bytes:
  "rd16 (dinode_bytes i) 0 = i_type i" "rd16 (dinode_bytes i) 2 = i_major i" "rd16 (dinode_bytes i) 4 = i_minor i"
  "rd16 (dinode_bytes i) 6 = i_nlink i" "rd32 (dinode_bytes i) 8 = i_size i" "k < 13 \<Longrightarrow> rd32 (dinode_bytes i) (12 + 4 * k) = i_addrs i k"
proof -
  have t: "take (length xs) xs = xs" for xs :: "byte list" by simp
  note u = rd16_def rd32_def dinode_bytes_def blk_get_def
  show "rd16 (dinode_bytes i) 0 = i_type i" "rd16 (dinode_bytes i) 2 = i_major i" "rd16 (dinode_bytes i) 4 = i_minor i"
    "rd16 (dinode_bytes i) 6 = i_nlink i" "rd32 (dinode_bytes i) 8 = i_size i"
    by (simp_all add: u of_bytes_le_bytes)
  assume k: "k < 13"
  have "blk_get (dinode_bytes i) (12 + 4 * k) 4 = blk_get (concat (map (\<lambda>k. le_bytes 4 (i_addrs i k)) [0..<13])) (4 * k) 4"
    by (simp add: blk_get_def dinode_bytes_def)
  also have "\<dots> = le_bytes 4 (i_addrs i k)" using blk_get_concat [OF k, of "\<lambda>k. le_bytes 4 (i_addrs i k)" 4] by simp
  finally show "rd32 (dinode_bytes i) (12 + 4 * k) = i_addrs i k" by (simp add: rd32_def of_bytes_le_bytes)
qed

lemma load_dinode_put:
  assumes "length d = BSIZE"
  shows "dfields (load_dinode (blk_put d (dinode_off n) (dinode_bytes i)) (dinode_off n) j) = dfields i"
proof -
  let ?o = "dinode_off n" and ?d = "blk_put d (dinode_off n) (dinode_bytes i)"
  have g: "blk_get ?d (?o + k) m = blk_get (dinode_bytes i) k m" if "k + m \<le> 64" for k m
    using that assms by (intro blk_get_put_inside) simp_all
  have r: "rd16 ?d (?o + k) = rd16 (dinode_bytes i) k" if "k + 2 \<le> 64" for k using g [OF that] by (simp add: rd16_def)
  have r4: "rd32 ?d (?o + k) = rd32 (dinode_bytes i) k" if "k + 4 \<le> 64" for k using g [OF that] by (simp add: rd32_def)
  have a: "rd32 ?d (?o + 12 + 4 * k) = i_addrs i k" if "k < 13" for k
    using r4 [of "12 + 4 * k"] rd_dinode_bytes(6) [OF that, of i] that by (simp add: add.assoc)
  have "map (\<lambda>k. if k < 13 then rd32 ?d (?o + 12 + 4 * k) else i_addrs j k) [0..<13] = map (i_addrs i) [0..<13]"
    by (rule map_cong) (simp_all add: a)
  then show ?thesis using r [of 0] r [of 2] r [of 4] r [of 6] r4 [of 8] rd_dinode_bytes(1-5) [of i]
    unfolding dfields_def load_dinode_def inode.simps by simp
qed

definition iput_bytes :: "inode \<Rightarrow> byte list \<Rightarrow> byte list" where
  "iput_bytes i d = blk_put d (dinode_off (i_inum i)) (dinode_bytes i)"

lemma iupdate_spec:
  fixes s :: "'x fs_state_scheme"
  assumes "tx p s B H" and "i_dev (inodes s ip) = 1" and n: "n = IBLOCK (i_inum (inodes s ip)) (fs_sb s)" "H n = None" "tx_legal s n"
    and "card (tx_logged s) + card (dom H) < NBUF" "card (tx_logged s) < tx_lim s"
  shows "\<exists>t. iupdate ip s = Ok () t \<and> tx p t (B(n := iput_bytes (inodes s ip) (B n))) H \<and> tx_frame s t \<and> tx_logged t = insert n (tx_logged s)"
proof -
  have len: "length (B n) = BSIZE" by (rule lg.len_law [OF assms(1)])
  obtain b t1 t2 t3 t4 where u: "bread 1 n s = Ok b t1" "on_buf b (\<lambda>y. y\<lparr>b_data := iput_bytes (inodes s ip) (b_data y)\<rparr>) t1 = Ok () t2"
    "log_write b t2 = Ok () t3" "brelse b t3 = Ok () t4" "tx p t4 (B(n := iput_bytes (inodes s ip) (B n))) H" "tx_frame s t4"
    "tx_logged t4 = insert n (tx_logged s)"
    using lg.update [OF assms(1) n(2,3) assms(6,7), of "iput_bytes (inodes s ip)"] len by (auto simp: iput_bytes_def)
  have "iupdate ip s = Ok () t4"
    using u(1-4) assms(2) n(1) by (simp add: iupdate_def bind_apply andthen_apply on_data_def iput_bytes_def)
  then show ?thesis using u(5-7) by blast
qed

text \<open>Locking an inode: a first \<open>ilock\<close> loads the fields from the block of the inode.\<close>

definition lock_ino :: "nat \<Rightarrow> nat \<Rightarrow> 'x fs_state_scheme \<Rightarrow> 'x fs_state_scheme" where
  "lock_ino p ip s = s\<lparr>slocks := (slocks s)(Sl_inode ip := (slocks s (Sl_inode ip))\<lparr>sl_locked := True, sl_pid := p_pid (procs s p)\<rparr>), hw := lock_cycle (hw s)\<rparr>"

lemma tx_running: "tx p s B H \<Longrightarrow> fs_quiet p s \<and> running p s"
  by (auto simp: tx_def txv_def bio_def fs_quiet_def)

lemma tx_lock_cycle: "tx p s B H \<Longrightarrow> tx p (s\<lparr>hw := lock_cycle (hw s)\<rparr>) B H"
proof -
  assume "tx p s B H"
  then obtain v where "txv p s B H v" by (auto simp: tx_def)
  then have "txv p (s\<lparr>hw := lock_cycle (hw s)\<rparr>) B H v"
    using bio_lock_cycle [of p s v] by (auto simp: txv_def log_ok_def log_bnos_def log_len_def dblk_def log_area_def)
  then show ?thesis by (auto simp: tx_def)
qed

lemma ino_frame_hw [simp]: "ino_frame s (s\<lparr>hw := h\<rparr>)"
  by (simp add: ino_frame_def tx_frame_def bio_frame_def log_bnos_def log_len_def)

section \<open>Giving back blocks\<close>

definition bm_blocks :: "superblock \<Rightarrow> u32 set" where
  "bm_blocks sb = (\<lambda>x. BBLOCK (of_nat x) sb) ` {..<unat (sb_size sb)}"

text \<open>The free map after the blocks of \<open>F\<close> have been given back; the blocks outside the map are as before.\<close>

definition bm_freed :: "superblock \<Rightarrow> (u32 \<Rightarrow> byte list) \<Rightarrow> u32 set \<Rightarrow> (u32 \<Rightarrow> byte list) \<Rightarrow> bool" where
  "bm_freed sb B F B' \<longleftrightarrow> (\<forall>y<unat (sb_size sb). blk_used sb B' y \<longleftrightarrow> blk_used sb B y \<and> of_nat y \<notin> F) \<and> (\<forall>n. n \<notin> bm_blocks sb \<longrightarrow> B' n = B n)"

lemma bm_freed_refl [simp]: "bm_freed sb B {} B"
  by (simp add: bm_freed_def)

lemma bm_freed_trans: "bm_freed sb B F C \<Longrightarrow> bm_freed sb C G D \<Longrightarrow> bm_freed sb B (F \<union> G) D"
  by (auto simp: bm_freed_def)

text \<open>What \<open>bfree\<close> needs: the free map is at hand and the transaction has room for it.\<close>

definition bm_room :: "'x fs_state_scheme \<Rightarrow> (u32 \<Rightarrow> nat option) \<Rightarrow> u32 set \<Rightarrow> bool" where
  "bm_room s H X \<longleftrightarrow> unat (sb_size (fs_sb s)) < 2 ^ 31 \<and> (\<forall>n\<in>bm_blocks (fs_sb s). tx_legal s n \<and> H n = None) \<and>
     finite X \<and> bm_blocks (fs_sb s) \<subseteq> X \<and> tx_logged s \<subseteq> X \<and> finite (dom H) \<and> card X + card (dom H) < NBUF \<and> card X < tx_lim s"

lemma bm_room_frame:
  assumes "bm_room s H X" and "ino_frame s t" and "tx_logged t \<subseteq> X"
  shows "bm_room t H X"
  using assms ino_frame_same [OF assms(2)] by (simp add: bm_room_def)

lemma bm_room_caps:
  assumes "bm_room s H X"
  shows "card (tx_logged s) + card (dom H) < NBUF" "card (tx_logged s) < tx_lim s"
proof -
  have "card (tx_logged s) \<le> card X" using assms by (intro card_mono) (simp_all add: bm_room_def)
  then show "card (tx_logged s) + card (dom H) < NBUF" "card (tx_logged s) < tx_lim s" using assms by (simp_all add: bm_room_def)
qed

lemma blk_used_bfree:
  assumes "N < 2 ^ 31" and "x < N" "y < N" and "\<And>n. length (B n) = BSIZE"
  shows "blk_used sb (B(BBLOCK (of_nat x) sb := bit_off (B (BBLOCK (of_nat x) sb)) (x mod BPB))) y \<longleftrightarrow> y \<noteq> x \<and> blk_used sb B y"
proof -
  have e: "BBLOCK (of_nat y) sb = BBLOCK (of_nat x) sb \<longleftrightarrow> y div BPB = x div BPB" using assms(1-3) by (intro BBLOCK_eq) auto
  moreover have "y = x \<longleftrightarrow> y div BPB = x div BPB \<and> y mod BPB = x mod BPB" by (metis div_mult_mod_eq)
  ultimately show ?thesis using assms(4) by (auto simp: blk_used_def bit_set_off)
qed

lemma bfree_step:
  fixes s :: "'x fs_state_scheme"
  assumes tx: "tx p s B H" and room: "bm_room s H X" and sb: "sb = fs_sb s" and x: "unat x < unat (sb_size sb)" "blk_used sb B (unat x)"
  shows "\<exists>t B'. bfree 1 x s = Ok () t \<and> tx p t B' H \<and> bm_freed sb B {x} B' \<and> tx_frame s t \<and> tx_logged t \<subseteq> X"
proof -
  let ?n = "BBLOCK x sb" and ?k = "unat x mod BPB"
  have n: "?n \<in> bm_blocks sb" using x(1) by (auto simp: bm_blocks_def intro: image_eqI [of _ _ "unat x"])
  have N: "unat (sb_size sb) < 2 ^ 31" using room sb by (simp add: bm_room_def)
  have u: "bit_set (B ?n) ?k" using x(2) by (simp add: blk_used_def)
  have "?n = BBLOCK x (fs_sb s)" "H ?n = None" "tx_legal s ?n" using room n sb by (auto simp: bm_room_def)
  from bfree_spec [OF tx this bm_room_caps [OF room]] u
  obtain t where t: "bfree 1 x s = Ok () t" "tx p t (B(?n := bit_off (B ?n) ?k)) H" "tx_frame s t" "tx_logged t = insert ?n (tx_logged s)" by auto
  have "bm_freed sb B {x} (B(?n := bit_off (B ?n) ?k))"
    unfolding bm_freed_def
  proof (intro conjI allI impI)
    fix y assume y: "y < unat (sb_size sb)"
    have "of_nat y = x \<longleftrightarrow> y = unat x" using y N unat_of_nat_small [of y] by (auto simp: unat_of_nat_small)
    then show "blk_used sb (B(?n := bit_off (B ?n) ?k)) y \<longleftrightarrow> blk_used sb B y \<and> of_nat y \<notin> {x}"
      using blk_used_bfree [where B = B and sb = sb, OF N x(1) y lg.len_law [OF tx]] by auto
  qed (use n in auto)
  moreover have "tx_logged t \<subseteq> X" using t(4) n room sb by (auto simp: bm_room_def)
  ultimately show ?thesis using t(1-3) by blast
qed

lemma itrunc_direct_loop:
  fixes s :: "'x fs_state_scheme"
  assumes "tx p s B H" and "bm_room s H X" and "sb = fs_sb s" and "i = inodes s ip" and "i_dev i = 1"
    and "distinct (filter (\<lambda>a. a \<noteq> 0) (map (i_addrs i) ks))"
    and "\<And>k. k \<in> set ks \<Longrightarrow> i_addrs i k \<noteq> 0 \<Longrightarrow> unat (i_addrs i k) < unat (sb_size sb) \<and> blk_used sb B (unat (i_addrs i k))"
  shows "\<exists>t B'. for_each ks (itrunc_direct ip) s = Ok () t \<and> tx p t B' H \<and> bm_freed sb B (i_addrs i ` set ks - {0}) B' \<and> ino_frame s t \<and>
    tx_logged t \<subseteq> X \<and> inodes t = (inodes s)(ip := i\<lparr>i_addrs := (\<lambda>k. if k \<in> set ks then 0 else i_addrs i k)\<rparr>)"
  using assms
proof (induction ks arbitrary: s B i)
  case Nil
  then show ?case by (auto simp: bm_room_def intro!: exI [of _ B])
next
  case (Cons k ks)
  note room = Cons.prems(2)
  let ?a = "i_addrs i k"
  show ?case
  proof (cases "?a = 0")
    case True
    have st: "itrunc_direct ip k s = Ok () s" using True Cons.prems(4) by (simp add: itrunc_direct_def bind_apply)
    obtain t B' where t: "for_each ks (itrunc_direct ip) s = Ok () t" "tx p t B' H" "bm_freed sb B (i_addrs i ` set ks - {0}) B'" "ino_frame s t"
      "tx_logged t \<subseteq> X" "inodes t = (inodes s)(ip := i\<lparr>i_addrs := (\<lambda>k. if k \<in> set ks then 0 else i_addrs i k)\<rparr>)"
      using Cons.IH [OF Cons.prems(1-5)] Cons.prems(6,7) True by (auto simp del: fun_upd_apply)
    have "i_addrs i ` set (k # ks) - {0} = i_addrs i ` set ks - {0}" using True by auto
    moreover have "(\<lambda>l. if l \<in> set (k # ks) then 0 else i_addrs i l) = (\<lambda>l. if l \<in> set ks then 0 else i_addrs i l)" using True by auto
    ultimately have "bm_freed sb B (i_addrs i ` set (k # ks) - {0}) B'"
      "inodes t = (inodes s)(ip := i\<lparr>i_addrs := (\<lambda>l. if l \<in> set (k # ks) then 0 else i_addrs i l)\<rparr>)" using t(3,6) by (simp_all only:)
    moreover have "for_each (k # ks) (itrunc_direct ip) s = Ok () t" using t(1) st by (simp add: andthen_apply)
    ultimately show ?thesis using t(2,4,5) by blast
  next
    case False
    obtain t1 B1 where t1: "bfree 1 ?a s = Ok () t1" "tx p t1 B1 H" "bm_freed sb B {?a} B1" "tx_frame s t1" "tx_logged t1 \<subseteq> X"
      using bfree_step [OF Cons.prems(1,2,3), of ?a] Cons.prems(7) [of k] False by auto
    let ?i = "i\<lparr>i_addrs := (i_addrs i)(k := 0)\<rparr>" and ?s = "t1\<lparr>inodes := (inodes t1)(ip := (inodes t1 ip)\<lparr>i_addrs := (i_addrs (inodes t1 ip))(k := 0)\<rparr>)\<rparr>"
    have in1: "inodes t1 = inodes s" and sb1: "fs_sb t1 = fs_sb s" using tx_frame_fs [OF t1(4)] by auto
    have st: "itrunc_direct ip k s = Ok () ?s"
      using False Cons.prems(4,5) t1(1) by (simp add: itrunc_direct_def bind_apply andthen_apply on_ino_def)
    have fr: "ino_frame s ?s" using ino_frame_trans [OF ino_frame_tx [OF t1(4)]] by simp
    have room1: "bm_room ?s H X" by (rule bm_room_frame [OF room fr]) (use t1(5) in simp)
    have d: "?a \<notin> i_addrs i ` set ks" "distinct (filter (\<lambda>a. a \<noteq> 0) (map (i_addrs i) ks))" using Cons.prems(6) False by auto
    have nk: "k \<notin> set ks" using d(1) by auto
    have m: "i_addrs ?i l = i_addrs i l" if "l \<in> set ks" for l using that nk by auto
    have mm: "map (i_addrs ?i) ks = map (i_addrs i) ks" "i_addrs ?i ` set ks = i_addrs i ` set ks" using nk by (auto intro!: image_cong)
    have "\<exists>t B'. for_each ks (itrunc_direct ip) ?s = Ok () t \<and> tx p t B' H \<and> bm_freed sb B1 (i_addrs ?i ` set ks - {0}) B' \<and> ino_frame ?s t \<and>
      tx_logged t \<subseteq> X \<and> inodes t = (inodes ?s)(ip := ?i\<lparr>i_addrs := (\<lambda>k. if k \<in> set ks then 0 else i_addrs ?i k)\<rparr>)"
    proof (rule Cons.IH)
      show "distinct (filter (\<lambda>a. a \<noteq> 0) (map (i_addrs ?i) ks))" using d(2) unfolding mm .
      fix l assume l: "l \<in> set ks" "i_addrs ?i l \<noteq> 0"
      have "i_addrs i l \<noteq> ?a" using imageI [OF l(1), of "i_addrs i"] d(1) by metis
      moreover have "unat (i_addrs i l) < unat (sb_size sb)" "blk_used sb B (unat (i_addrs i l))" using Cons.prems(7) [of l] l m [OF l(1)] by simp_all
      ultimately show "unat (i_addrs ?i l) < unat (sb_size sb) \<and> blk_used sb B1 (unat (i_addrs ?i l))"
        using t1(3) m [OF l(1)] by (simp add: bm_freed_def)
    qed (use t1(2) room1 Cons.prems(3,4,5) in1 sb1 in auto)
    then obtain t B' where t: "for_each ks (itrunc_direct ip) ?s = Ok () t" "tx p t B' H" "bm_freed sb B1 (i_addrs i ` set ks - {0}) B'" "ino_frame ?s t"
      "tx_logged t \<subseteq> X" "inodes t = (inodes ?s)(ip := ?i\<lparr>i_addrs := (\<lambda>k. if k \<in> set ks then 0 else i_addrs ?i k)\<rparr>)"
      unfolding mm by (elim exE conjE) (rule that; assumption)
    have "{?a} \<union> (i_addrs i ` set ks - {0}) = i_addrs i ` set (k # ks) - {0}" using False by auto
    then have b: "bm_freed sb B (i_addrs i ` set (k # ks) - {0}) B'" using bm_freed_trans [OF t1(3) t(3)] by simp
    have "inodes t = (inodes s)(ip := i\<lparr>i_addrs := (\<lambda>l. if l \<in> set (k # ks) then 0 else i_addrs i l)\<rparr>)"
    proof -
      have "(\<lambda>l. if l \<in> set ks then 0 else i_addrs ?i l) = (\<lambda>l. if l \<in> set (k # ks) then 0 else i_addrs i l)" by auto
      then show ?thesis unfolding t(6) using in1 by simp
    qed
    moreover have "for_each (k # ks) (itrunc_direct ip) s = Ok () t" using t(1) st by (simp add: andthen_apply)
    ultimately show ?thesis using t(2,5) b ino_frame_trans [OF fr t(4)] by blast
  qed
qed

lemma itrunc_indirect_loop:
  fixes s :: "'x fs_state_scheme"
  assumes "tx p s B H" and "bm_room s H X" and "sb = fs_sb s" and "i_dev (inodes s ip) = 1" and "H ind = Some b" and "d = B ind" "ind \<notin> bm_blocks sb"
    and "distinct (filter (\<lambda>a. a \<noteq> 0) (map (\<lambda>j. rd32 d (4 * j)) js))"
    and "\<And>j. j \<in> set js \<Longrightarrow> rd32 d (4 * j) \<noteq> 0 \<Longrightarrow> unat (rd32 d (4 * j)) < unat (sb_size sb) \<and> blk_used sb B (unat (rd32 d (4 * j)))"
  shows "\<exists>t B'. for_each js (itrunc_indirect ip b) s = Ok () t \<and> tx p t B' H \<and> bm_freed sb B ((\<lambda>j. rd32 d (4 * j)) ` set js - {0}) B' \<and> tx_frame s t \<and> tx_logged t \<subseteq> X"
  using assms
proof (induction js arbitrary: s B)
  case Nil
  then show ?case by (auto simp: bm_room_def lg.frame_refl intro!: exI [of _ B])
next
  case (Cons j js)
  note room = Cons.prems(2)
  let ?a = "rd32 d (4 * j)"
  have data: "b_data (bufs s b) = d" using lg.data_law [OF Cons.prems(1,5)] Cons.prems(6) by simp
  show ?case
  proof (cases "?a = 0")
    case True
    have st: "itrunc_indirect ip b j s = Ok () s" using True data by (simp add: itrunc_indirect_def bind_apply)
    obtain t B' where t: "for_each js (itrunc_indirect ip b) s = Ok () t" "tx p t B' H" "bm_freed sb B ((\<lambda>j. rd32 d (4 * j)) ` set js - {0}) B'" "tx_frame s t" "tx_logged t \<subseteq> X"
      using Cons.IH [OF Cons.prems(1-7)] Cons.prems(8,9) True by auto
    have "(\<lambda>j. rd32 d (4 * j)) ` set (j # js) - {0} = (\<lambda>j. rd32 d (4 * j)) ` set js - {0}" using True by auto
    then have "bm_freed sb B ((\<lambda>j. rd32 d (4 * j)) ` set (j # js) - {0}) B'" using t(3) by (simp only:)
    moreover have "for_each (j # js) (itrunc_indirect ip b) s = Ok () t" using t(1) st by (simp add: andthen_apply)
    ultimately show ?thesis using t(2,4,5) by blast
  next
    case False
    obtain t1 B1 where t1: "bfree 1 ?a s = Ok () t1" "tx p t1 B1 H" "bm_freed sb B {?a} B1" "tx_frame s t1" "tx_logged t1 \<subseteq> X"
      using bfree_step [OF Cons.prems(1,2,3), of ?a] Cons.prems(9) [of j] False by auto
    have in1: "inodes t1 = inodes s" and sb1: "fs_sb t1 = fs_sb s" using tx_frame_fs [OF t1(4)] by auto
    have st: "itrunc_indirect ip b j s = Ok () t1"
      using False Cons.prems(4) t1(1) data by (simp add: itrunc_indirect_def bind_apply)
    have room1: "bm_room t1 H X" by (rule bm_room_frame [OF room ino_frame_tx [OF t1(4)] t1(5)])
    have d: "?a \<notin> (\<lambda>j. rd32 d (4 * j)) ` set js" "distinct (filter (\<lambda>a. a \<noteq> 0) (map (\<lambda>j. rd32 d (4 * j)) js))" using Cons.prems(8) False by auto
    have "\<exists>t B'. for_each js (itrunc_indirect ip b) t1 = Ok () t \<and> tx p t B' H \<and> bm_freed sb B1 ((\<lambda>j. rd32 d (4 * j)) ` set js - {0}) B' \<and> tx_frame t1 t \<and> tx_logged t \<subseteq> X"
    proof (rule Cons.IH)
      show "d = B1 ind" using t1(3) Cons.prems(6,7) by (simp add: bm_freed_def)
      fix l assume l: "l \<in> set js" "rd32 d (4 * l) \<noteq> 0"
      have "rd32 d (4 * l) \<noteq> ?a" using imageI [OF l(1), of "\<lambda>j. rd32 d (4 * j)"] d(1) by metis
      then show "unat (rd32 d (4 * l)) < unat (sb_size sb) \<and> blk_used sb B1 (unat (rd32 d (4 * l)))"
        using t1(3) Cons.prems(9) [of l] l by (simp add: bm_freed_def)
    qed (use t1(2) room1 Cons.prems(3,4,5,7) in1 sb1 d(2) in auto)
    then obtain t B' where t: "for_each js (itrunc_indirect ip b) t1 = Ok () t" "tx p t B' H" "bm_freed sb B1 ((\<lambda>j. rd32 d (4 * j)) ` set js - {0}) B'" "tx_frame t1 t" "tx_logged t \<subseteq> X" by blast
    have "{?a} \<union> ((\<lambda>j. rd32 d (4 * j)) ` set js - {0}) = (\<lambda>j. rd32 d (4 * j)) ` set (j # js) - {0}" using False by auto
    then have "bm_freed sb B ((\<lambda>j. rd32 d (4 * j)) ` set (j # js) - {0}) B'" using bm_freed_trans [OF t1(3) t(3)] by simp
    moreover have "for_each (j # js) (itrunc_indirect ip b) s = Ok () t" using t(1) st by (simp add: andthen_apply)
    ultimately show ?thesis using t(2,5) lg.frame_trans [OF t1(4) t(4)] by blast
  qed
qed

text \<open>The blocks of an inode: direct, the indirect block, and those it names.\<close>

definition ind_list :: "byte list \<Rightarrow> u32 list" where
  "ind_list d = filter (\<lambda>a. a \<noteq> 0) (map (\<lambda>j. rd32 d (4 * j)) [0..<NINDIRECT])"

definition ino_list :: "(u32 \<Rightarrow> byte list) \<Rightarrow> inode \<Rightarrow> u32 list" where
  "ino_list B i = filter (\<lambda>a. a \<noteq> 0) (map (i_addrs i) [0..<NDIRECT]) @
     (if i_addrs i NDIRECT = 0 then [] else i_addrs i NDIRECT # ind_list (B (i_addrs i NDIRECT)))"

definition blk_mine :: "'x fs_state_scheme \<Rightarrow> (u32 \<Rightarrow> byte list) \<Rightarrow> (u32 \<Rightarrow> nat option) \<Rightarrow> u32 \<Rightarrow> bool" where
  "blk_mine s B H a \<longleftrightarrow> unat a < unat (sb_size (fs_sb s)) \<and> blk_used (fs_sb s) B (unat a) \<and> a \<notin> bm_blocks (fs_sb s) \<and> H a = None \<and> tx_legal s a"

definition ino_wf :: "'x fs_state_scheme \<Rightarrow> (u32 \<Rightarrow> byte list) \<Rightarrow> (u32 \<Rightarrow> nat option) \<Rightarrow> inode \<Rightarrow> bool" where
  "ino_wf s B H i \<longleftrightarrow> i_dev i = 1 \<and> distinct (ino_list B i) \<and> (\<forall>a\<in>set (ino_list B i). blk_mine s B H a)"

lemma itrunc_ind_spec:
  fixes s :: "'x fs_state_scheme"
  assumes tx: "tx p s B H" and room: "bm_room s H X" "card X + card (dom H) + 1 < NBUF" and sb: "sb = fs_sb s" and dev: "i_dev (inodes s ip) = 1"
    and ind: "blk_mine s B H ind" and d: "d = B ind" "ind \<notin> set (ind_list d)" "distinct (ind_list d)" "\<And>a. a \<in> set (ind_list d) \<Longrightarrow> blk_mine s B H a"
  shows "\<exists>b t1 t2 t3 t4 B'. bread 1 ind s = Ok b t1 \<and> for_each [0..<NINDIRECT] (itrunc_indirect ip b) t1 = Ok () t2 \<and> brelse b t2 = Ok () t3 \<and>
    bfree 1 ind t3 = Ok () t4 \<and> tx p t4 B' H \<and> bm_freed sb B (insert ind (set (ind_list d))) B' \<and> tx_frame s t4 \<and> tx_logged t4 \<subseteq> X"
proof -
  have i: "unat ind < unat (sb_size sb)" "blk_used sb B (unat ind)" "ind \<notin> bm_blocks sb" "H ind = None" "tx_legal s ind"
    using ind sb by (simp_all add: blk_mine_def)
  obtain b t1 where t1: "bread 1 ind s = Ok b t1" "tx p t1 B (H(ind \<mapsto> b))" "tx_frame s t1" "tx_logged t1 = tx_logged s"
    using lg.rd_law [OF tx i(4,5) bm_room_caps(1) [OF room(1)]] by blast
  let ?H = "H(ind \<mapsto> b)"
  note f1 = ino_frame_same [OF ino_frame_tx [OF t1(3)]] tx_frame_fs [OF t1(3)]
  have "bm_room t1 ?H X"
    using room i(3,4) sb t1(4) f1 by (auto simp: bm_room_def card_insert_if domIff)
  moreover have "distinct (filter (\<lambda>a. a \<noteq> 0) (map (\<lambda>j. rd32 d (4 * j)) [0..<NINDIRECT]))" using d(3) by (simp add: ind_list_def)
  moreover have "unat (rd32 d (4 * j)) < unat (sb_size sb) \<and> blk_used sb B (unat (rd32 d (4 * j)))" if "j \<in> set [0..<NINDIRECT]" "rd32 d (4 * j) \<noteq> 0" for j
    using d(4) [of "rd32 d (4 * j)"] that sb by (auto simp: ind_list_def blk_mine_def)
  ultimately obtain t2 B2 where t2: "for_each [0..<NINDIRECT] (itrunc_indirect ip b) t1 = Ok () t2" "tx p t2 B2 ?H"
    "bm_freed sb B ((\<lambda>j. rd32 d (4 * j)) ` set [0..<NINDIRECT] - {0}) B2" "tx_frame t1 t2" "tx_logged t2 \<subseteq> X"
    using itrunc_indirect_loop [OF t1(2), of X sb ip ind b d "[0..<NINDIRECT]"] sb dev d(1) i(3) f1 by auto
  have F: "(\<lambda>j. rd32 d (4 * j)) ` set [0..<NINDIRECT] - {0} = set (ind_list d)" by (auto simp: ind_list_def)
  have fr2: "tx_frame s t2" using lg.frame_trans [OF t1(3) t2(4)] .
  note f2 = ino_frame_same [OF ino_frame_tx [OF fr2]] tx_frame_fs [OF fr2]
  have "ind \<in> tx_logged t2 \<or> B2 ind = dblk t2 ind"
    using lg.clean [OF tx i(4)] f2 t2(3) i(3) by (auto simp: bm_freed_def)
  then obtain t3 where t3: "brelse b t2 = Ok () t3" "tx p t3 B2 (?H(ind := None))" "tx_frame t2 t3" "tx_logged t3 = tx_logged t2"
    using lg.rel_law [OF t2(2), of ind b] by auto
  have "?H(ind := None) = H" using i(4) by auto
  then have tx3: "tx p t3 B2 H" using t3(2) by simp
  have fr3: "tx_frame s t3" using lg.frame_trans [OF fr2 t3(3)] .
  have room3: "bm_room t3 H X" by (rule bm_room_frame [OF room(1) ino_frame_tx [OF fr3]]) (use t2(5) t3(4) in simp)
  have "blk_used sb B2 (unat ind)" using t2(3) i(1,2) d(2) unfolding F by (simp add: bm_freed_def)
  then obtain t4 B4 where t4: "bfree 1 ind t3 = Ok () t4" "tx p t4 B4 H" "bm_freed sb B2 {ind} B4" "tx_frame t3 t4" "tx_logged t4 \<subseteq> X"
    using bfree_step [OF tx3 room3, of sb ind] i(1) sb tx_frame_fs [OF fr3] by auto
  have "bm_freed sb B (insert ind (set (ind_list d))) B4" using bm_freed_trans [OF t2(3) t4(3)] unfolding F by simp
  then show ?thesis using t1(1) t2(1) t3(1) t4(1,2,5) lg.frame_trans [OF fr3 t4(4)] by blast
qed

lemma blk_mine_freed:
  assumes "blk_mine s B H a" and "bm_freed (fs_sb s) B F B'" and "a \<notin> F" and "ino_frame s t"
  shows "blk_mine t B' H a"
  using assms ino_frame_same [OF assms(4)] by (simp add: blk_mine_def bm_freed_def)

definition ino_empty :: "inode \<Rightarrow> inode" where
  "ino_empty i = i\<lparr>i_addrs := (\<lambda>k. if k < 13 then 0 else i_addrs i k), i_size := 0\<rparr>"

lemma itrunc_spec:
  fixes s :: "'x fs_state_scheme"
  assumes tx: "tx p s B H" and room: "bm_room s H X" "card X + card (dom H) + 1 < NBUF" and sb: "sb = fs_sb s" and i: "i = inodes s ip" and wf: "ino_wf s B H i"
    and n: "n = IBLOCK (i_inum i) sb" "n \<notin> bm_blocks sb" "H n = None" "tx_legal s n" "n \<in> X"
  shows "\<exists>t B'. itrunc ip s = Ok () t \<and> tx p t (B'(n := iput_bytes (ino_empty i) (B n))) H \<and> bm_freed sb B (set (ino_list B i)) B' \<and> ino_frame s t \<and>
    tx_logged t \<subseteq> X \<and> inodes t = (inodes s)(ip := ino_empty i)"
proof -
  let ?D = "filter (\<lambda>a. a \<noteq> 0) (map (i_addrs i) [0..<NDIRECT])" and ?ind = "i_addrs i NDIRECT"
  have dist: "distinct (ino_list B i)" and mine: "\<And>a. a \<in> set (ino_list B i) \<Longrightarrow> blk_mine s B H a" and dev: "i_dev i = 1"
    using wf by (simp_all add: ino_wf_def)
  have D: "distinct ?D" using dist by (simp add: ino_list_def)
  have dm: "unat (i_addrs i k) < unat (sb_size sb) \<and> blk_used sb B (unat (i_addrs i k))" if "k \<in> set [0..<NDIRECT]" "i_addrs i k \<noteq> 0" for k
    using mine [of "i_addrs i k"] that sb by (auto simp: ino_list_def blk_mine_def)
  let ?i1 = "i\<lparr>i_addrs := (\<lambda>k. if k \<in> set [0..<NDIRECT] then 0 else i_addrs i k)\<rparr>"
  obtain t1 B1 where t1: "for_each [0..<NDIRECT] (itrunc_direct ip) s = Ok () t1" "tx p t1 B1 H" "bm_freed sb B (i_addrs i ` set [0..<NDIRECT] - {0}) B1"
    "ino_frame s t1" "tx_logged t1 \<subseteq> X" "inodes t1 = (inodes s)(ip := ?i1)"
    using itrunc_direct_loop [OF tx room(1) sb i dev D dm] by blast
  have F: "i_addrs i ` set [0..<NDIRECT] - {0} = set ?D" by auto
  note f1 = ino_frame_same [OF t1(4)]
  have room1: "bm_room t1 H X" by (rule bm_room_frame [OF room(1) t1(4,5)])
  have i1: "inodes t1 ip = ?i1" using t1(6) by simp
  let ?body = "if ?ind \<noteq> 0 then
          bind (bread (i_dev i) ?ind) (\<lambda>bp.
          andthen (for_each [0..<NINDIRECT] (itrunc_indirect ip bp)) (
          andthen (brelse bp) (
          andthen (bfree (i_dev i) ?ind) (
          on_ino ip (\<lambda>i. i\<lparr>i_addrs := (i_addrs i)(NDIRECT := 0)\<rparr>)))))
        else ret ()"
  have "\<exists>t2 B2. ?body t1 = Ok () t2 \<and> tx p t2 B2 H \<and> bm_freed sb B (set (ino_list B i)) B2 \<and> ino_frame t1 t2 \<and> tx_logged t2 \<subseteq> X \<and>
    inodes t2 = (inodes s)(ip := i\<lparr>i_addrs := (\<lambda>k. if k < 13 then 0 else i_addrs i k)\<rparr>)"
  proof (cases "?ind = 0")
    case True
    have lt: "k < 13 \<longleftrightarrow> k \<in> set [0..<NDIRECT] \<or> k = NDIRECT" for k :: nat by auto
    have "?i1 = i\<lparr>i_addrs := (\<lambda>k. if k < 13 then 0 else i_addrs i k)\<rparr>" unfolding lt using True by (auto intro!: arg_cong [where f = "\<lambda>a. i\<lparr>i_addrs := a\<rparr>"])
    then have "inodes t1 = (inodes s)(ip := i\<lparr>i_addrs := (\<lambda>k. if k < 13 then 0 else i_addrs i k)\<rparr>)" using t1(6) by (simp only:)
    moreover have "bm_freed sb B (set (ino_list B i)) B1" using t1(3) True unfolding F by (simp add: ino_list_def)
    ultimately show ?thesis using True t1(2,5) by (intro exI [of _ t1] exI [of _ B1]) simp
  next
    case False
    let ?d = "B ?ind"
    have L: "set (ino_list B i) = set ?D \<union> insert ?ind (set (ind_list ?d))" using False by (simp add: ino_list_def)
    have dj: "?ind \<notin> set (ind_list ?d)" "distinct (ind_list ?d)" "set ?D \<inter> insert ?ind (set (ind_list ?d)) = {}"
      using dist False by (auto simp: ino_list_def)
    have m1: "blk_mine t1 B1 H a" if "a \<in> insert ?ind (set (ind_list ?d))" for a
    proof (rule blk_mine_freed [OF _ _ _ t1(4)])
      show "blk_mine s B H a" using mine [of a] that unfolding L by blast
      show "bm_freed (fs_sb s) B (set ?D) B1" using t1(3) unfolding F sb .
      show "a \<notin> set ?D" using that dj(3) by blast
    qed
    have B1: "B1 ?ind = ?d" using t1(3) mine [of ?ind] sb unfolding L by (simp add: bm_freed_def blk_mine_def)
    have s1: "sb = fs_sb t1" and dv: "i_dev (inodes t1 ip) = 1" using f1 sb i1 dev by simp_all
    obtain b u1 u2 u3 u4 B2 where u: "bread 1 ?ind t1 = Ok b u1" "for_each [0..<NINDIRECT] (itrunc_indirect ip b) u1 = Ok () u2" "brelse b u2 = Ok () u3"
      "bfree 1 ?ind u3 = Ok () u4" "tx p u4 B2 H" "bm_freed sb B1 (insert ?ind (set (ind_list ?d))) B2" "tx_frame t1 u4" "tx_logged u4 \<subseteq> X"
      using itrunc_ind_spec [OF t1(2) room1 room(2) s1 dv m1 [OF insertI1] B1 [symmetric] dj(1,2) m1 [OF insertI2]] by blast
    have in4: "inodes u4 = inodes t1" using tx_frame_fs [OF u(7)] by simp
    let ?t = "u4\<lparr>inodes := (inodes u4)(ip := (inodes u4 ip)\<lparr>i_addrs := (i_addrs (inodes u4 ip))(NDIRECT := 0)\<rparr>)\<rparr>"
    have "?body t1 = Ok () ?t" using u(1-4) False dev by (simp add: bind_apply andthen_apply on_ino_def)
    moreover have "bm_freed sb B (set (ino_list B i)) B2" using bm_freed_trans [OF t1(3) u(6)] unfolding F L .
    moreover have "inodes ?t = (inodes s)(ip := i\<lparr>i_addrs := (\<lambda>k. if k < 13 then 0 else i_addrs i k)\<rparr>)"
      using in4 t1(6) by (auto simp: fun_eq_iff)
    moreover have "ino_frame t1 ?t" using ino_frame_trans [OF ino_frame_tx [OF u(7)]] by simp
    ultimately show ?thesis using u(5,8) by (intro exI [of _ ?t] exI [of _ B2]) simp
  qed
  then obtain t2 B2 where t2: "?body t1 = Ok () t2" "tx p t2 B2 H" "bm_freed sb B (set (ino_list B i)) B2" "ino_frame t1 t2" "tx_logged t2 \<subseteq> X"
    "inodes t2 = (inodes s)(ip := i\<lparr>i_addrs := (\<lambda>k. if k < 13 then 0 else i_addrs i k)\<rparr>)" by (elim exE conjE) (rule that; assumption)
  let ?t3 = "t2\<lparr>inodes := (inodes t2)(ip := (inodes t2 ip)\<lparr>i_size := 0\<rparr>)\<rparr>"
  have fr3: "ino_frame s ?t3" using ino_frame_trans [OF ino_frame_trans [OF t1(4) t2(4)]] by simp
  note f3 = ino_frame_same [OF fr3]
  have in3: "inodes ?t3 = (inodes s)(ip := ino_empty i)" using t2(6) by (simp add: ino_empty_def)
  have room3: "bm_room ?t3 H X" by (rule bm_room_frame [OF room(1) fr3]) (use t2(5) in simp)
  have b2: "B2 n = B n" using t2(3) n(2) by (simp add: bm_freed_def)
  have ii: "inodes ?t3 ip = ino_empty i" using in3 by simp
  have "n = IBLOCK (i_inum (inodes ?t3 ip)) (fs_sb ?t3)" "i_dev (inodes ?t3 ip) = 1" unfolding ii using n(1) f3(5) sb dev by (simp_all add: ino_empty_def)
  then obtain t where t: "iupdate ip ?t3 = Ok () t" "tx p t (B2(n := iput_bytes (ino_empty i) (B n))) H" "tx_frame ?t3 t" "tx_logged t = insert n (tx_logged ?t3)"
    using iupdate_spec [of p ?t3 B2 H ip n] t2(2) n f3 bm_room_caps [OF room3] b2 ii by auto
  have "itrunc ip s = andthen ?body (andthen (on_ino ip (\<lambda>i. i\<lparr>i_size := 0\<rparr>)) (iupdate ip)) t1"
    unfolding itrunc_def andthen_Ok [of "for_each [0..<NDIRECT] (itrunc_direct ip)", OF t1(1)] using i1 by simp
  then have "itrunc ip s = Ok () t" unfolding andthen_Ok [of ?body, OF t2(1)] using t(1) by (simp add: andthen_apply on_ino_def)
  moreover have "inodes t = (inodes s)(ip := ino_empty i)" using tx_frame_fs(1) [OF t(3)] in3 by simp
  moreover have "ino_frame s t" using ino_frame_trans [OF fr3 ino_frame_tx [OF t(3)]] .
  moreover have "tx_logged t \<subseteq> X" using t(4) t2(5) n(5) by simp
  ultimately show ?thesis using t(2) t2(3) by blast
qed

section \<open>The last reference\<close>

lemma iput_bytes_twice [simp]:
  assumes "i_inum j = i_inum i" and "length d = BSIZE"
  shows "iput_bytes i (iput_bytes j d) = iput_bytes i d"
proof -
  have "dinode_off (i_inum i) + length (dinode_bytes j) \<le> length d" for j using assms(2) by simp
  then show ?thesis using assms unfolding iput_bytes_def
    by (intro nth_equalityI) (auto simp: nth_blk_put)
qed

lemma tx_slocks:
  assumes "tx p s B H" and "\<And>i. SL (Sl_buf i) = slocks s (Sl_buf i)"
  shows "tx p (s\<lparr>hw := lock_cycle (hw s), slocks := SL\<rparr>) B H" and "tx p (s\<lparr>slocks := SL, hw := lock_cycle (hw s)\<rparr>) B H"
proof -
  have e: "s\<lparr>slocks := SL, hw := lock_cycle (hw s)\<rparr> = s\<lparr>hw := lock_cycle (hw s), slocks := SL\<rparr>" by simp
  have "tx p ((s\<lparr>hw := lock_cycle (hw s)\<rparr>)\<lparr>slocks := SL\<rparr>) B H = tx p (s\<lparr>hw := lock_cycle (hw s)\<rparr>) B H"
    by (rule tx_cong) (simp_all add: assms(2))
  then show "tx p (s\<lparr>hw := lock_cycle (hw s), slocks := SL\<rparr>) B H" using tx_lock_cycle [OF assms(1)] by simp
  then show "tx p (s\<lparr>slocks := SL, hw := lock_cycle (hw s)\<rparr>) B H" unfolding e .
qed

lemma tx_slocks_sel [simp]:
  "tx_logged (s\<lparr>slocks := L\<rparr>) = tx_logged s" "tx_lim (s\<lparr>slocks := L\<rparr>) = tx_lim s" "tx_legal (s\<lparr>slocks := L\<rparr>) = tx_legal s"
  "tx_logged (s\<lparr>hw := h\<rparr>) = tx_logged s" "tx_lim (s\<lparr>hw := h\<rparr>) = tx_lim s" "tx_legal (s\<lparr>hw := h\<rparr>) = tx_legal s"
  by (simp_all add: tx_logged_def log_bnos_def log_len_def tx_lim_def tx_legal_def log_area_def fun_eq_iff)

lemma iput_last_run:
  assumes "running p s" and "i_ref (inodes s ip) = 1 \<and> i_valid (inodes s ip) \<and> i_nlink (inodes s ip) = 0" and "\<not> sl_locked (slocks s (Sl_inode ip))"
    and "itrunc ip (lock_ino p ip s) = Ok () t1"
    and "iupdate ip (t1\<lparr>inodes := (inodes t1)(ip := (inodes t1 ip)\<lparr>i_type := 0\<rparr>)\<rparr>) = Ok () t2"
    and "fs_quiet p t2"
  shows "iput ip s = Ok () (t2\<lparr>hw := lock_cycle (hw t2),
    slocks := (slocks t2)(Sl_inode ip := (slocks t2 (Sl_inode ip))\<lparr>sl_locked := False, sl_pid := 0\<rparr>),
    inodes := (inodes t2)(ip := (inodes t2 ip)\<lparr>i_valid := False, i_ref := i_ref (inodes t2 ip) - 1\<rparr>)\<rparr>)"
proof -
  note r = running_facts [OF assms(1)]
  have q: "running p t2" "woken (Ch_sleeplock (Sl_inode ip)) [0..<NPROC] (procs t2) = procs t2"
    using assms(6) woken_none by (auto simp: fs_quiet_def)
  note r2 = running_facts [OF q(1)]
  let ?t = "t2\<lparr>inodes := (inodes t2)(ip := (inodes t2 ip)\<lparr>i_valid := False\<rparr>)\<rparr>"
  have "running p ?t" using q(1) by (simp add: running_def)
  note rel = releasesleep_run [OF this, of "Sl_inode ip"]
  have acq: "acquiresleep (Sl_inode ip) (s\<lparr>hw := held Lk_icache (hw s)\<rparr>) =
    Ok () (s\<lparr>hw := held Lk_icache (hw s), slocks := (slocks s)(Sl_inode ip := (slocks s (Sl_inode ip))\<lparr>sl_locked := True, sl_pid := p_pid (procs s p)\<rparr>)\<rparr>)"
    using r assms(3) by (simp add: acquiresleep_def acquiresleep_loop_def kop)
  show ?thesis
    using r r2 assms(2-5) q(2)
    by (simp add: iput_def kop acq on_ino_def rel lock_ino_def)
qed

lemma lock_ino_facts:
  assumes "tx p s B H"
  shows "tx p (lock_ino p ip s) B H" "inodes (lock_ino p ip s) = inodes s" "fs_sb (lock_ino p ip s) = fs_sb s" "tx_logged (lock_ino p ip s) = tx_logged s"
    "tx_lim (lock_ino p ip s) = tx_lim s" "tx_legal (lock_ino p ip s) = tx_legal s" "procs (lock_ino p ip s) = procs s"
  using tx_slocks [OF assms, of "(slocks s)(Sl_inode ip := (slocks s (Sl_inode ip))\<lparr>sl_locked := True, sl_pid := p_pid (procs s p)\<rparr>)"]
  by (simp_all add: lock_ino_def)

text \<open>The inode that \<open>iput\<close> leaves in its slot and on the disk when it frees it.\<close>

definition ino_freed :: "inode \<Rightarrow> inode" where
  "ino_freed i = (ino_empty i)\<lparr>i_type := 0\<rparr>"

lemma iput_last_spec:
  fixes s :: "'x fs_state_scheme"
  assumes tx: "tx p s B H" and room: "bm_room s H X" "card X + card (dom H) + 1 < NBUF" and sb: "sb = fs_sb s" and i: "i = inodes s ip" and wf: "ino_wf s B H i"
    and n: "n = IBLOCK (i_inum i) sb" "n \<notin> bm_blocks sb" "H n = None" "tx_legal s n" "n \<in> X"
    and last: "i_ref i = 1" "i_valid i" "i_nlink i = 0" "\<not> sl_locked (slocks s (Sl_inode ip))"
  shows "\<exists>t B'. iput ip s = Ok () t \<and> tx p t (B'(n := iput_bytes (ino_freed i) (B n))) H \<and> bm_freed sb B (set (ino_list B i)) B' \<and>
    inodes t = (inodes s)(ip := (ino_freed i)\<lparr>i_valid := False, i_ref := 0\<rparr>) \<and> tx_logged t \<subseteq> X \<and> \<not> sl_locked (slocks t (Sl_inode ip))"
proof -
  let ?s = "lock_ino p ip s"
  note l = lock_ino_facts [OF tx, of ip]
  have room1: "bm_room ?s H X" and wf1: "ino_wf ?s B H i" using room(1) wf l by (simp_all add: bm_room_def ino_wf_def blk_mine_def)
  obtain t1 B1 where t1: "itrunc ip ?s = Ok () t1" "tx p t1 (B1(n := iput_bytes (ino_empty i) (B n))) H" "bm_freed sb B (set (ino_list B i)) B1"
    "ino_frame ?s t1" "tx_logged t1 \<subseteq> X" "inodes t1 = (inodes s)(ip := ino_empty i)"
    using itrunc_spec [OF l(1) room1 room(2), of sb i ip n] sb i wf1 n l by auto
  let ?t2 = "t1\<lparr>inodes := (inodes t1)(ip := (inodes t1 ip)\<lparr>i_type := 0\<rparr>)\<rparr>"
  have fr2: "ino_frame ?s ?t2" using ino_frame_trans [OF t1(4)] by simp
  note f2 = ino_frame_same [OF fr2]
  have i2: "inodes ?t2 ip = ino_freed i" using t1(6) by (simp add: ino_freed_def)
  have inum: "i_inum (ino_freed i) = i_inum i" "i_inum (ino_empty i) = i_inum i" "i_dev (ino_freed i) = i_dev i" "i_ref (ino_freed i) = i_ref i"
    by (simp_all add: ino_freed_def ino_empty_def)
  have room2: "bm_room ?t2 H X" by (rule bm_room_frame [OF room1 fr2]) (use t1(5) in simp)
  have tx2: "tx p ?t2 (B1(n := iput_bytes (ino_empty i) (B n))) H" using t1(2) by simp
  have n2: "n = IBLOCK (i_inum (inodes ?t2 ip)) (fs_sb ?t2)" "tx_legal ?t2 n" "i_dev (inodes ?t2 ip) = 1"
    using n(1,4) sb f2 l i2 inum wf by (simp_all add: ino_wf_def)
  have len: "length (B n) = BSIZE" by (rule lg.len_law [OF tx])
  obtain t3 where t3: "iupdate ip ?t2 = Ok () t3" "tx p t3 (B1(n := iput_bytes (ino_freed i) (B n))) H" "tx_frame ?t2 t3" "tx_logged t3 = insert n (tx_logged ?t2)"
    using iupdate_spec [OF tx2 n2(3) n2(1) n(3) n2(2) bm_room_caps [OF room2]] iput_bytes_twice [OF _ len, of "ino_empty i" "ino_freed i"] i2 inum by auto
  have in3: "inodes t3 = (inodes s)(ip := ino_freed i)" using tx_frame_fs [OF t3(3)] t1(6) by (simp add: ino_freed_def)
  let ?t = "t3\<lparr>hw := lock_cycle (hw t3), slocks := (slocks t3)(Sl_inode ip := (slocks t3 (Sl_inode ip))\<lparr>sl_locked := False, sl_pid := 0\<rparr>),
    inodes := (inodes t3)(ip := (inodes t3 ip)\<lparr>i_valid := False, i_ref := i_ref (inodes t3 ip) - 1\<rparr>)\<rparr>"
  have "iput ip s = Ok () ?t"
    using last i tx_running [OF tx] tx_running [OF t3(2)] by (intro iput_last_run [OF _ _ _ t1(1) t3(1)]) simp_all
  moreover have "tx p ?t (B1(n := iput_bytes (ino_freed i) (B n))) H" using tx_slocks [OF t3(2)] by simp
  moreover have "inodes ?t = (inodes s)(ip := (ino_freed i)\<lparr>i_valid := False, i_ref := 0\<rparr>)" using in3 inum last(1) by simp
  moreover have "tx_logged ?t \<subseteq> X" using t3(4) t1(5) n(5) by simp
  moreover have "\<not> sl_locked (slocks ?t (Sl_inode ip))" by simp
  ultimately show ?thesis using t1(3) by blast
qed

section \<open>The invariant of the cache\<close>

text \<open>
  \<open>R\<close> is the multiset of the references the kernel holds: every count is the number of references to the slot, and no
  inode is in two slots that are referred to.\<close>

definition icache_inv :: "(nat \<Rightarrow> inode) \<Rightarrow> nat multiset \<Rightarrow> bool" where
  "icache_inv I R \<longleftrightarrow> set_mset R \<subseteq> {..<NINODE} \<and> size R < 2 ^ 31 \<and> (\<forall>ip<NINODE. i_ref (I ip) = of_nat (count R ip)) \<and>
     (\<forall>ip jp. ip \<in># R \<and> jp \<in># R \<and> i_dev (I ip) = i_dev (I jp) \<and> i_inum (I ip) = i_inum (I jp) \<longrightarrow> ip = jp)"

lemma icache_ref:
  assumes "icache_inv I R" and "ip < NINODE"
  shows "unat (i_ref (I ip)) = count R ip" "0 < sint (i_ref (I ip)) \<longleftrightarrow> ip \<in># R" "i_ref (I ip) = 0 \<longleftrightarrow> ip \<notin># R" "i_ref (I ip) = 1 \<longleftrightarrow> count R ip = 1"
proof -
  have c: "count R ip < 2 ^ 31" using assms(1) count_le_size [of R ip] by (auto simp: icache_inv_def)
  have r: "i_ref (I ip) = of_nat (count R ip)" using assms by (simp add: icache_inv_def)
  show u: "unat (i_ref (I ip)) = count R ip" unfolding r using c by (intro unat_of_nat_small) simp
  have "sint (i_ref (I ip)) = int (count R ip)" unfolding r using c by (simp add: signed_of_nat signed_take_bit_int_eq_self)
  then show "0 < sint (i_ref (I ip)) \<longleftrightarrow> ip \<in># R" by (simp add: count_greater_zero_iff [symmetric] del: count_greater_zero_iff)
  show "i_ref (I ip) = 0 \<longleftrightarrow> ip \<notin># R" using u by (metis unsigned_0 unsigned_word_eqI count_eq_zero_iff)
  show "i_ref (I ip) = 1 \<longleftrightarrow> count R ip = 1" using u by (metis unsigned_1 unsigned_word_eqI)
qed

lemma icache_add:
  assumes "icache_inv I R" and "size R < 2 ^ 31 - 1" and "ip \<in># R"
  shows "icache_inv (I(ip := (I ip)\<lparr>i_ref := i_ref (I ip) + 1\<rparr>)) (add_mset ip R)"
proof -
  let ?J = "I(ip := (I ip)\<lparr>i_ref := i_ref (I ip) + 1\<rparr>)"
  have "i_dev (?J jp) = i_dev (I jp) \<and> i_inum (?J jp) = i_inum (I jp)" for jp by simp
  moreover have "i_ref (?J jp) = of_nat (count (add_mset ip R) jp)" if "jp < NINODE" for jp
    using assms(1) that by (simp add: icache_inv_def)
  moreover have "insert ip (set_mset R) = set_mset R" using assms(3) by blast
  ultimately show ?thesis using assms(1,2) by (simp add: icache_inv_def del: fun_upd_apply)
qed

lemma icache_del:
  assumes "icache_inv I R" and "ip \<in># R" and "i_dev (J ip) = i_dev (I ip) \<and> i_inum (J ip) = i_inum (I ip) \<and> i_ref (J ip) = i_ref (I ip) - 1" and "\<And>jp. jp \<noteq> ip \<Longrightarrow> J jp = I jp"
  shows "icache_inv J (R - {#ip#})"
proof -
  obtain Q where Q: "R = add_mset ip Q" using assms(2) by (metis insert_DiffM)
  have "i_dev (J jp) = i_dev (I jp) \<and> i_inum (J jp) = i_inum (I jp)" for jp using assms(3,4) by (cases "jp = ip") simp_all
  moreover have "i_ref (J jp) = of_nat (count Q jp)" if "jp < NINODE" for jp
    using assms(1,3) assms(4) [of jp] that unfolding Q by (cases "jp = ip") (auto simp: icache_inv_def)
  ultimately show ?thesis using assms(1) unfolding Q by (simp add: icache_inv_def)
qed

lemma icache_new:
  assumes "icache_inv I R" and "size R < 2 ^ 31 - 1" and "ip < NINODE" "ip \<notin># R" and "\<And>jp. jp \<in># R \<Longrightarrow> \<not> (i_dev (I jp) = dev \<and> i_inum (I jp) = inum)"
  shows "icache_inv (I(ip := (I ip)\<lparr>i_dev := dev, i_inum := inum, i_ref := 1, i_valid := False\<rparr>)) (add_mset ip R)"
proof -
  have "count R ip = 0" using assms(4) by (simp add: not_in_iff)
  moreover have "jp \<noteq> ip" if "jp \<in># R" for jp using that assms(4) by blast
  ultimately show ?thesis using assms unfolding icache_inv_def by (simp; metis)
qed

lemma iget_spec:
  fixes s :: "'x fs_state_scheme"
  assumes "tx p s B H" and "icache_inv (inodes s) R" and "size R < 2 ^ 31 - 1"
  shows "case iget dev inum s of
      Ok ip t \<Rightarrow> icache_inv (inodes t) (add_mset ip R) \<and> i_dev (inodes t ip) = dev \<and> i_inum (inodes t ip) = inum \<and> (ip \<in># R \<or> \<not> i_valid (inodes t ip)) \<and> tx p t B H \<and>
        (\<forall>jp\<in>#R. i_dev (inodes t jp) = i_dev (inodes s jp) \<and> i_inum (inodes t jp) = i_inum (inodes s jp))
    | Panic e \<Rightarrow> e = ''iget: no inodes'' \<and> set_mset R = {..<NINODE} \<and> (\<forall>jp\<in>#R. \<not> (i_dev (inodes s jp) = dev \<and> i_inum (inodes s jp) = inum))
    | _ \<Rightarrow> False"
proof -
  have r: "running p s" using tx_running [OF assms(1)] by simp
  have lt: "ip < NINODE" if "ip \<in># R" for ip using assms(2) that by (auto simp: icache_inv_def)
  have txh: "tx p (s\<lparr>hw := lock_cycle (hw s), inodes := I\<rparr>) B H" for I using tx_lock_cycle [OF assms(1)] by simp
  have cached: "icached (inodes s) dev inum ip \<longleftrightarrow> ip \<in># R \<and> i_dev (inodes s ip) = dev \<and> i_inum (inodes s ip) = inum" if "ip < NINODE" for ip
    using icache_ref(2) [OF assms(2) that] by (simp add: icached_def)
  show ?thesis
  proof (cases "find (icached (inodes s) dev inum) [0..<NINODE]")
    case (Some ip)
    then have "ip < NINODE" "icached (inodes s) dev inum ip" by (auto simp: find_upt)
    then show ?thesis using cached icache_add [OF assms(2,3), of ip] txh by (simp add: iget_run [OF r] Some)
  next
    case None
    then have no: "\<And>jp. jp \<in># R \<Longrightarrow> \<not> (i_dev (inodes s jp) = dev \<and> i_inum (inodes s jp) = inum)" using cached lt by (auto simp: find_upt_None)
    show ?thesis
    proof (cases "find (\<lambda>ip. i_ref (inodes s ip) = 0) [0..<NINODE]")
      case (Some ip)
      then have ip: "ip < NINODE" "ip \<notin># R" using icache_ref(3) [OF assms(2), of ip] by (auto simp: find_upt)
      then show ?thesis using icache_new [OF assms(2,3) ip no] txh by (auto simp: iget_run [OF r] None Some)
    next
      case N: None
      then have "jp \<in># R" if "jp < NINODE" for jp using icache_ref(3) [OF assms(2) that] that by (auto simp: find_upt_None)
      then show ?thesis using no lt by (auto simp: iget_run [OF r] None N)
    qed
  qed
qed

lemma iput_spec:
  fixes s :: "'x fs_state_scheme"
  assumes "tx p s B H" and "icache_inv (inodes s) R" and "ip \<in># R" and "\<not> (count R ip = 1 \<and> i_valid (inodes s ip) \<and> i_nlink (inodes s ip) = 0)"
  shows "\<exists>t. iput ip s = Ok () t \<and> icache_inv (inodes t) (R - {#ip#}) \<and> tx p t B H"
proof -
  have "ip < NINODE" using assms(2,3) by (auto simp: icache_inv_def)
  then have nl: "\<not> (i_ref (inodes s ip) = 1 \<and> i_valid (inodes s ip) \<and> i_nlink (inodes s ip) = 0)" using icache_ref(4) [OF assms(2)] assms(4) by simp
  have "running p s" using tx_running [OF assms(1)] by simp
  then show ?thesis using icache_del [OF assms(2,3)] tx_lock_cycle [OF assms(1)] by (simp add: iput_run [OF _ nl])
qed

section \<open>Properties\<close>

text \<open>
  C14: the inode cache. While every count is the number of references the kernel holds and no inode is in two slots in
  use, \<open>iget\<close> returns a slot that holds the inode it was asked for, never one that another reference
  uses for a different inode, and not valid if it was not in use; and \<open>iget\<close>, \<open>idup\<close> and \<open>iput\<close> keep both facts for the
  references held afterwards; \<open>iget\<close> panics exactly when the inode is not cached and all slots are in use.\<close>

theorem icache_refcounts:
  fixes s :: "'x fs_state_scheme"
  assumes "tx p s B H" and "icache_inv (inodes s) R" and "size R < 2 ^ 31 - 1"
  shows "(case iget dev inum s of
      Ok ip t \<Rightarrow> icache_inv (inodes t) (add_mset ip R) \<and> i_dev (inodes t ip) = dev \<and> i_inum (inodes t ip) = inum \<and> (ip \<in># R \<or> \<not> i_valid (inodes t ip)) \<and> tx p t B H \<and>
        (\<forall>jp\<in>#R. i_dev (inodes t jp) = i_dev (inodes s jp) \<and> i_inum (inodes t jp) = i_inum (inodes s jp))
    | Panic e \<Rightarrow> e = ''iget: no inodes'' \<and> set_mset R = {..<NINODE} \<and> (\<forall>jp\<in>#R. \<not> (i_dev (inodes s jp) = dev \<and> i_inum (inodes s jp) = inum))
    | _ \<Rightarrow> False) \<and>
    (\<forall>ip\<in>#R. \<exists>t. idup ip s = Ok ip t \<and> icache_inv (inodes t) (add_mset ip R) \<and> tx p t B H) \<and>
    (\<forall>ip\<in>#R. count R ip = 1 \<and> i_valid (inodes s ip) \<and> i_nlink (inodes s ip) = 0 \<or>
      (\<exists>t. iput ip s = Ok () t \<and> icache_inv (inodes t) (R - {#ip#}) \<and> tx p t B H))"
proof (intro conjI ballI)
  show "\<exists>t. idup ip s = Ok ip t \<and> icache_inv (inodes t) (add_mset ip R) \<and> tx p t B H" if "ip \<in># R" for ip
    using icache_add [OF assms(2,3) that] tx_lock_cycle [OF assms(1)] tx_running [OF assms(1)] by (simp add: idup_run [of p])
qed (use iget_spec [OF assms] iput_spec [OF assms(1,2)] in blast)+

theorem icache_refcounts_witness:
  "case iget 1 1 fs_st0 of Ok ip t \<Rightarrow> icache_inv (inodes t) {#ip#} \<and> i_inum (inodes t ip) = 1 | _ \<Rightarrow> False"
proof -
  have "icache_inv (inodes fs_st0) {#}" by (simp add: icache_inv_def fs_st0_def log_state.extend_def)
  moreover have "{..<NINODE} \<noteq> {}" by (metis lessThan_iff empty_iff zero_less_numeral)
  ultimately show ?thesis using icache_refcounts [OF fs_st0_tx, of "{#}" 1 1] by (auto split: res.splits)
qed

lemma blk_used_other: "n \<notin> bm_blocks sb \<Longrightarrow> y < unat (sb_size sb) \<Longrightarrow> blk_used sb (B(n := d)) y = blk_used sb B y"
  by (auto simp: blk_used_def bm_blocks_def)

text \<open>
  C10: the last \<open>iput\<close> of an unlinked inode frees it. The blocks of the inode, direct and indirect, are free in the
  bitmap afterwards and no other block is; the inode on the disk has type 0, so that \<open>ialloc\<close> can take it; the other
  inodes of its block and all other blocks are unchanged; the slot of the cache is unlocked and its count
  is that of the references that remain.\<close>

theorem iput_frees_inode:
  fixes s :: "'x fs_state_scheme"
  assumes tx: "tx p s B H" and room: "bm_room s H X" "card X + card (dom H) + 1 < NBUF" and sb: "sb = fs_sb s" and i: "i = inodes s ip" and wf: "ino_wf s B H i"
    and n: "n = IBLOCK (i_inum i) sb" "n \<notin> bm_blocks sb" "H n = None" "tx_legal s n" "n \<in> X"
    and R: "icache_inv (inodes s) R" "count R ip = 1" and last: "i_valid i" "i_nlink i = 0" "\<not> sl_locked (slocks s (Sl_inode ip))"
  shows "\<exists>t C. iput ip s = Ok () t \<and> tx p t C H \<and> icache_inv (inodes t) (R - {#ip#}) \<and> \<not> sl_locked (slocks t (Sl_inode ip)) \<and>
    (\<forall>y<unat (sb_size sb). blk_used sb C y \<longleftrightarrow> blk_used sb B y \<and> of_nat y \<notin> set (ino_list B i)) \<and>
    rd16 (C n) (dinode_off (i_inum i)) = 0 \<and>
    (\<forall>k l. k + l \<le> dinode_off (i_inum i) \<or> dinode_off (i_inum i) + 64 \<le> k \<and> k + l \<le> BSIZE \<longrightarrow> blk_get (C n) k l = blk_get (B n) k l) \<and>
    (\<forall>m. m \<noteq> n \<and> m \<notin> bm_blocks sb \<longrightarrow> C m = B m)"
proof -
  have ip: "ip \<in># R" using R(2) by (simp add: count_greater_zero_iff [symmetric] del: count_greater_zero_iff)
  then have "ip < NINODE" using R(1) by (auto simp: icache_inv_def)
  then have "i_ref i = 1" using icache_ref(4) [OF R(1)] R(2) i by simp
  from iput_last_spec [OF tx room sb i wf n this last]
  obtain t B' where t: "iput ip s = Ok () t" "tx p t (B'(n := iput_bytes (ino_freed i) (B n))) H" "bm_freed sb B (set (ino_list B i)) B'"
    "inodes t = (inodes s)(ip := (ino_freed i)\<lparr>i_valid := False, i_ref := 0\<rparr>)" "\<not> sl_locked (slocks t (Sl_inode ip))" by blast
  let ?C = "B'(n := iput_bytes (ino_freed i) (B n))"
  have len: "length (B n) = BSIZE" by (rule lg.len_law [OF tx])
  have "i_inum (ino_freed i) = i_inum i" "i_type (ino_freed i) = 0" by (simp_all add: ino_freed_def ino_empty_def)
  then have "rd16 (?C n) (dinode_off (i_inum i)) = 0"
    using load_dinode_put [OF len, of "i_inum i" "ino_freed i" i] by (simp add: iput_bytes_def dfields_def load_dinode_def)
  moreover have "dinode_off (i_inum i) \<le> 960" using dinode_off_bound [of "i_inum i"] by linarith
  moreover have "blk_get (?C n) k l = blk_get (B n) k l" if "k + l \<le> dinode_off (i_inum i) \<or> dinode_off (i_inum i) + 64 \<le> k \<and> k + l \<le> BSIZE" for k l
    unfolding iput_bytes_def using that len calculation(2) \<open>i_inum (ino_freed i) = i_inum i\<close> by (auto intro!: blk_get_put_other)
  moreover have "icache_inv (inodes t) (R - {#ip#})"
    using \<open>i_ref i = 1\<close> i by (intro icache_del [OF R(1) ip]) (simp_all add: t(4) ino_freed_def ino_empty_def)
  moreover have "\<forall>y<unat (sb_size sb). blk_used sb ?C y \<longleftrightarrow> blk_used sb B y \<and> of_nat y \<notin> set (ino_list B i)"
    using t(3) blk_used_other [OF n(2)] by (simp add: bm_freed_def)
  moreover have "\<forall>m. m \<noteq> n \<and> m \<notin> bm_blocks sb \<longrightarrow> ?C m = B m" using t(3) by (simp add: bm_freed_def)
  ultimately show ?thesis using t(1,2,5) by (intro exI [of _ t] exI [of _ ?C]) blast
qed

text \<open>An open file of one block that has been unlinked: inode 5, in block 33, with its data in block 49.\<close>

definition fs_ino0 :: inode where
  "fs_ino0 = \<lparr>i_dev = 1, i_inum = 5, i_ref = 1, i_valid = True, i_type = T_FILE, i_major = 0, i_minor = 0,
     i_nlink = 0, i_size = 100, i_addrs = (\<lambda>_. 0)(0 := 49)\<rparr>"

definition fs_st1 :: fs_state where
  "fs_st1 = fs_st0\<lparr>inodes := (inodes fs_st0)(0 := fs_ino0)\<rparr>"

lemma fs_st1_facts:
  shows "fs_sb fs_st1 = fs_sb0" "bm_blocks fs_sb0 = {46}" "bm_room fs_st1 Map.empty {46, 33}" "ino_list fs_B0 fs_ino0 = [49]"
    "ino_wf fs_st1 fs_B0 Map.empty fs_ino0" "icache_inv (inodes fs_st1) {#0#}" "tx_legal fs_st1 33"
proof -
  show sb: "fs_sb fs_st1 = fs_sb0" using fs_st0_bm(5) by (simp add: fs_st1_def)
  have N: "unat (sb_size fs_sb0) = 100" by (simp add: fs_sb0_def)
  show bm: "bm_blocks fs_sb0 = {46}" unfolding bm_blocks_def N using fs_st0_bm(1) by (auto intro!: image_eqI [of _ _ 0])
  have l: "tx_legal fs_st1 n \<longleftrightarrow> n < 0x80000000 \<and> unat n \<notin> {2..32}" "tx_logged fs_st1 = {}" "tx_lim fs_st1 = 29" for n
    using fs_st0_bm(3,4) by (simp_all add: fs_st1_def tx_legal_def log_area_def) (simp_all add: fs_st0_def log_state.extend_def)
  show "tx_legal fs_st1 33" by (simp add: l)
  show "bm_room fs_st1 Map.empty {46, 33}" by (simp add: bm_room_def sb N bm l)
  have "map (i_addrs fs_ino0) [0..<NDIRECT] = 49 # replicate 11 0"
    by (rule nth_equalityI) (auto simp: fs_ino0_def nth_Cons')
  then show il: "ino_list fs_B0 fs_ino0 = [49]" by (simp add: ino_list_def) (simp add: fs_ino0_def)
  show "ino_wf fs_st1 fs_B0 Map.empty fs_ino0"
    using fs_st0_bm(2) [of 49] by (simp add: ino_wf_def il blk_mine_def sb N bm l) (simp add: fs_ino0_def)
  show "icache_inv (inodes fs_st1) {#0#}" by (simp add: icache_inv_def fs_st1_def fs_ino0_def) (simp add: fs_st0_def log_state.extend_def)
qed

theorem iput_frees_inode_witness:
  "\<exists>t C. iput 0 fs_st1 = Ok () t \<and> blk_used fs_sb0 fs_B0 49 \<and> \<not> blk_used fs_sb0 C 49 \<and> rd16 (C 33) 320 = 0 \<and> tx 0 t C Map.empty"
proof -
  note f = fs_st1_facts
  have tx: "tx 0 fs_st1 fs_B0 Map.empty" using fs_st0_tx by (simp add: fs_st1_def)
  have i: "fs_ino0 = inodes fs_st1 0" by (simp add: fs_st1_def)
  have n: "33 = IBLOCK (i_inum fs_ino0) fs_sb0" by (simp add: IBLOCK_def fs_ino0_def fs_sb0_def)
  have sl: "\<not> sl_locked (slocks fs_st1 (Sl_inode 0))"
    by (simp add: fs_st1_def fs_st0_def log_st0_def log_state.extend_def disk_state.extend_def bcache_st0_def disk_st0_def sl_state.extend_def)
  have "dinode_off (i_inum fs_ino0) = 320" "49 < unat (sb_size fs_sb0)" "i_valid fs_ino0" "i_nlink fs_ino0 = 0"
    by (simp_all add: dinode_off_def fs_ino0_def fs_sb0_def)
  with iput_frees_inode [OF tx f(3) _ f(1) [symmetric] i f(5) n _ _ f(7) _ f(6) _ _ _ sl] f(2,4)
  obtain t C where t: "iput 0 fs_st1 = Ok () t" "tx 0 t C Map.empty" "rd16 (C 33) 320 = 0"
    "\<forall>y<unat (sb_size fs_sb0). blk_used fs_sb0 C y \<longleftrightarrow> blk_used fs_sb0 fs_B0 y \<and> of_nat y \<notin> set [49 :: u32]" by auto
  have "\<not> blk_used fs_sb0 C 49" using t(4) [rule_format, of 49] by (simp add: fs_sb0_def)
  then show ?thesis using t fs_st0_bm(2) [of 49] by auto
qed

end
