(* ===== verification/Fs_File.thy ===== *)
theory Fs_File
  imports Fs_Inode
begin

text \<open>
  Laws of the contents of a file (\<open>bmap\<close>, \<open>readi\<close>, \<open>writei\<close> of \<open>kernel/fs.c\<close>). The blocks of an inode are the
  slots \<open>ino_slot\<close>: 0 to 11 direct, 12 the indirect block, 13 to 268 the entries of that block. \<open>fdata\<close> is the
  content of a block of the file, zeros where the file has no block yet.\<close>

section \<open>Allocating a block\<close>

definition nfree :: "superblock \<Rightarrow> (u32 \<Rightarrow> byte list) \<Rightarrow> nat" where
  "nfree sb B = card {y. y < unat (sb_size sb) \<and> \<not> blk_used sb B y}"

text \<open>What \<open>balloc\<close> gives: \<open>a\<close> was free, and is now used and zeroed.\<close>

definition alloced :: "'x fs_state_scheme \<Rightarrow> (u32 \<Rightarrow> byte list) \<Rightarrow> (u32 \<Rightarrow> nat option) \<Rightarrow> u32 \<Rightarrow> (u32 \<Rightarrow> byte list) \<Rightarrow> bool" where
  "alloced s B H a C \<longleftrightarrow> (let sb = fs_sb s in unat a < unat (sb_size sb) \<and> \<not> blk_used sb B (unat a) \<and> a \<notin> bm_blocks sb \<and> H a = None \<and> tx_legal s a \<and>
     C a = replicate BSIZE 0 \<and> (\<forall>y<unat (sb_size sb). blk_used sb C y \<longleftrightarrow> y = unat a \<or> blk_used sb B y) \<and> (\<forall>m. m \<noteq> a \<and> m \<notin> bm_blocks sb \<longrightarrow> C m = B m))"

lemma nfree_alloced:
  assumes "alloced s B H a C"
  shows "nfree (fs_sb s) B = Suc (nfree (fs_sb s) C)"
proof -
  let ?F = "\<lambda>B. {y. y < unat (sb_size (fs_sb s)) \<and> \<not> blk_used (fs_sb s) B y}"
  have "?F B = insert (unat a) (?F C)" "unat a \<notin> ?F C" using assms by (auto simp: alloced_def Let_def)
  then show ?thesis by (simp add: nfree_def)
qed

lemma bm_ok_alloced:
  assumes "bm_ok s B H" and "alloced s B H a C" and "ino_frame s t"
  shows "bm_ok t C H"
proof -
  have e: "tx_legal t = tx_legal s" "fs_sb t = fs_sb s" using ino_frame_same [OF assms(3)] by simp_all
  have "blk_used (fs_sb s) B y \<Longrightarrow> blk_used (fs_sb s) C y" if "y < unat (sb_size (fs_sb s))" for y
    using assms(2) that by (simp add: alloced_def Let_def)
  then show ?thesis using assms(1) unfolding bm_ok_def Let_def e by blast
qed

lemma balloc_fresh:
  fixes s :: "'x fs_state_scheme"
  assumes "tx p s B H" and bm: "bm_ok s B H" and "0 < nfree (fs_sb s) B"
    and cap: "card (tx_logged s) + card (dom H) + 1 < NBUF" "card (tx_logged s) + 1 < tx_lim s"
  shows "\<exists>t a C. balloc 1 s = Ok a t \<and> tx p t C H \<and> alloced s B H a C \<and> tx_frame s t \<and> a \<in> tx_logged t \<and> card (tx_logged t) \<le> card (tx_logged s) + 2"
proof -
  let ?sb = "fs_sb s"
  let ?N = "unat (sb_size ?sb)"
  have N: "?N < 2 ^ 31" using bm by (simp add: bm_ok_def Let_def)
  obtain y where "y < ?N" "\<not> blk_used ?sb B y" using assms(3) unfolding nfree_def card_gt_0_iff by blast
  then obtain x where x: "find (\<lambda>x. \<not> blk_used ?sb B x) [0..<?N] = Some x"
    by (cases "find (\<lambda>x. \<not> blk_used ?sb B x) [0..<?N]") (auto simp: find_upt_None)
  then have xN: "x < ?N" "\<not> blk_used ?sb B x" by (auto simp: find_upt)
  obtain t where t: "balloc 1 s = Ok (of_nat x) t" "tx p t (balloc_blocks ?sb B x) H" "tx_frame s t"
    "tx_logged t = insert (of_nat x) (insert (BBLOCK (of_nat x) ?sb) (tx_logged s))"
    using balloc_spec [OF assms(1) bm refl refl cap] x by auto
  have un: "unat (of_nat x :: u32) = x" using N xN(1) by (intro unat_of_nat_small) simp
  have f: "tx_legal s (of_nat x)" "H (of_nat x) = None" "\<And>z. z < ?N \<Longrightarrow> of_nat x \<noteq> BBLOCK (of_nat z) ?sb"
    using bm xN by (auto simp: bm_ok_def Let_def)
  have nb: "of_nat x \<notin> bm_blocks ?sb" using f(3) by (auto simp: bm_blocks_def)
  have bb: "BBLOCK (of_nat x) ?sb \<in> bm_blocks ?sb" using xN(1) by (auto simp: bm_blocks_def)
  have "blk_used ?sb (balloc_blocks ?sb B x) y \<longleftrightarrow> y = x \<or> blk_used ?sb B y" if "y < ?N" for y
    using blk_used_balloc [where B = B, OF N xN(1) that f(3) lg.len_law [OF assms(1)]] .
  then have "alloced s B H (of_nat x) (balloc_blocks ?sb B x)"
    using xN f(1,2) un nb bb by (auto simp: alloced_def Let_def balloc_blocks_def)
  moreover have "card (tx_logged t) \<le> card (tx_logged s) + 2" unfolding t(4) by (simp add: card_insert_if)
  ultimately show ?thesis using t by blast
qed

section \<open>The slots of an inode\<close>

definition ino_slot :: "(u32 \<Rightarrow> byte list) \<Rightarrow> inode \<Rightarrow> nat \<Rightarrow> u32" where
  "ino_slot B i k = (if k \<le> NDIRECT then i_addrs i k else if i_addrs i NDIRECT = 0 then 0 else rd32 (B (i_addrs i NDIRECT)) (4 * (k - 13)))"

lemma upt_slots: "[0..<269] = [0..<NDIRECT] @ NDIRECT # map (\<lambda>j. j + 13) [0..<NINDIRECT]"
proof -
  have "[0..<12 + 257] = [0..<12] @ [12..<12 + 257]" by (rule upt_add_eq_append) simp
  moreover have "[12..<269] = 12 # [13..<269]" using upt_conv_Cons [of 12 269] by simp
  moreover have "map (\<lambda>j. j + 13) [0..<256] = [13..<269]" using map_add_upt [of 13 256] by simp
  ultimately show ?thesis by (simp del: upt_rec_numeral upt_conv_Nil)
qed

lemma ino_list_slots: "ino_list B i = filter (\<lambda>a. a \<noteq> 0) (map (ino_slot B i) [0..<269])"
proof -
  have 1: "map (ino_slot B i) [0..<NDIRECT] = map (i_addrs i) [0..<NDIRECT]" by (rule map_cong) (simp_all add: ino_slot_def)
  have 2: "ino_slot B i NDIRECT = i_addrs i NDIRECT" by (simp add: ino_slot_def)
  have 3: "map (ino_slot B i) (map (\<lambda>j. j + 13) [0..<NINDIRECT]) =
    map (\<lambda>j. if i_addrs i NDIRECT = 0 then 0 else rd32 (B (i_addrs i NDIRECT)) (4 * j)) [0..<NINDIRECT]"
    unfolding map_map by (rule map_cong) (simp_all add: ino_slot_def)
  show ?thesis unfolding upt_slots map_append list.map(2) ino_list_def ind_list_def 1 2 3
    by (cases "i_addrs i NDIRECT = 0") simp_all
qed

lemma distinct_nonzero:
  "distinct xs \<Longrightarrow> distinct (filter (\<lambda>a. a \<noteq> 0) (map f xs)) \<longleftrightarrow> (\<forall>k\<in>set xs. \<forall>l\<in>set xs. f k \<noteq> 0 \<and> f k = f l \<longrightarrow> k = l)"
proof -
  assume "distinct xs"
  then have "distinct (filter (\<lambda>a. a \<noteq> 0) (map f xs)) \<longleftrightarrow> inj_on f {k \<in> set xs. f k \<noteq> 0}"
    by (simp add: filter_map distinct_map comp_def)
  also have "\<dots> \<longleftrightarrow> (\<forall>k\<in>set xs. \<forall>l\<in>set xs. f k \<noteq> 0 \<and> f k = f l \<longrightarrow> k = l)" unfolding inj_on_def by fastforce
  finally show ?thesis .
qed

lemma ino_wf_slots:
  "ino_wf s B H i \<longleftrightarrow> i_dev i = 1 \<and> (\<forall>k<269. \<forall>l<269. ino_slot B i k \<noteq> 0 \<and> ino_slot B i k = ino_slot B i l \<longrightarrow> k = l) \<and>
     (\<forall>k<269. ino_slot B i k \<noteq> 0 \<longrightarrow> blk_mine s B H (ino_slot B i k))"
proof -
  have "(\<forall>a\<in>set (ino_list B i). blk_mine s B H a) \<longleftrightarrow> (\<forall>k<269. ino_slot B i k \<noteq> 0 \<longrightarrow> blk_mine s B H (ino_slot B i k))"
    unfolding ino_list_slots set_filter set_map set_upt by (auto simp: Ball_def)
  moreover have "distinct (ino_list B i) \<longleftrightarrow> (\<forall>k<269. \<forall>l<269. ino_slot B i k \<noteq> 0 \<and> ino_slot B i k = ino_slot B i l \<longrightarrow> k = l)"
    unfolding ino_list_slots distinct_nonzero [OF distinct_upt] set_upt by (auto simp: Ball_def)
  ultimately show ?thesis by (simp only: ino_wf_def)
qed

lemma ino_list_iff: "a \<in> set (ino_list B i) \<longleftrightarrow> a \<noteq> 0 \<and> (\<exists>k<269. ino_slot B i k = a)"
  unfolding ino_list_slots set_filter set_map set_upt by auto

text \<open>The content of the file, block by block.\<close>

definition fslot :: "nat \<Rightarrow> nat" where
  "fslot bn = (if bn < NDIRECT then bn else bn + 1)"

definition fdata :: "(u32 \<Rightarrow> byte list) \<Rightarrow> inode \<Rightarrow> nat \<Rightarrow> byte list" where
  "fdata B i bn = (let a = ino_slot B i (fslot bn) in if a = 0 then replicate BSIZE 0 else B a)"

lemma fslot_bounds: "bn < MAXFILE \<Longrightarrow> fslot bn < 269" "fslot bn \<noteq> NDIRECT" "fslot bn = fslot bm \<longleftrightarrow> bn = bm"
  by (auto simp: fslot_def)

text \<open>
  A file that has been given at most \<open>c\<close> blocks more: its content is the same, the new blocks come from the free ones,
  and no block in use that is not its own has changed.\<close>

definition fs_ok :: "'x fs_state_scheme \<Rightarrow> (u32 \<Rightarrow> byte list) \<Rightarrow> (u32 \<Rightarrow> nat option) \<Rightarrow> bool" where
  "fs_ok s B H \<longleftrightarrow> bm_ok s B H \<and> 0 < sb_size (fs_sb s) \<and> blk_used (fs_sb s) B 0"

definition evolves :: "'x fs_state_scheme \<Rightarrow> (u32 \<Rightarrow> byte list) \<Rightarrow> (u32 \<Rightarrow> nat option) \<Rightarrow> inode \<Rightarrow> nat \<Rightarrow> 'x fs_state_scheme \<Rightarrow> (u32 \<Rightarrow> byte list) \<Rightarrow> inode \<Rightarrow> bool" where
  "evolves s B H i c t D j \<longleftrightarrow> (let sb = fs_sb s; N = unat (sb_size sb) in
     ino_wf t D H j \<and> fs_ok t D H \<and> ino_frame s t \<and> j = i\<lparr>i_addrs := i_addrs j\<rparr> \<and>
     (\<forall>y<N. blk_used sb B y \<longrightarrow> blk_used sb D y) \<and>
     (\<forall>m. unat m < N \<and> blk_used sb B (unat m) \<and> m \<notin> bm_blocks sb \<and> m \<notin> set (ino_list B i) \<longrightarrow> D m = B m) \<and>
     (\<forall>l<269. ino_slot D j l = ino_slot B i l \<or> ino_slot B i l = 0 \<and> unat (ino_slot D j l) < N \<and> \<not> blk_used sb B (unat (ino_slot D j l))) \<and>
     nfree sb B \<le> nfree sb D + c)"

definition grown :: "'x fs_state_scheme \<Rightarrow> (u32 \<Rightarrow> byte list) \<Rightarrow> (u32 \<Rightarrow> nat option) \<Rightarrow> inode \<Rightarrow> nat \<Rightarrow> 'x fs_state_scheme \<Rightarrow> (u32 \<Rightarrow> byte list) \<Rightarrow> inode \<Rightarrow> bool" where
  "grown s B H i c t D j \<longleftrightarrow> evolves s B H i c t D j \<and> (\<forall>k<MAXFILE. fdata D j k = fdata B i k)"

lemma evolves_refl: "ino_wf s B H i \<Longrightarrow> fs_ok s B H \<Longrightarrow> evolves s B H i 0 s B i"
  by (simp add: evolves_def Let_def)

lemma evolvesD:
  assumes "evolves s B H i c t D j"
  shows "ino_wf t D H j" "fs_ok t D H" "ino_frame s t" "j = i\<lparr>i_addrs := i_addrs j\<rparr>" "nfree (fs_sb s) B \<le> nfree (fs_sb s) D + c"
    "\<And>y. y < unat (sb_size (fs_sb s)) \<Longrightarrow> blk_used (fs_sb s) B y \<Longrightarrow> blk_used (fs_sb s) D y"
    "\<And>m. unat m < unat (sb_size (fs_sb s)) \<Longrightarrow> blk_used (fs_sb s) B (unat m) \<Longrightarrow> m \<notin> bm_blocks (fs_sb s) \<Longrightarrow> m \<notin> set (ino_list B i) \<Longrightarrow> D m = B m"
    "\<And>l. l < 269 \<Longrightarrow> ino_slot D j l = ino_slot B i l \<or> ino_slot B i l = 0 \<and> unat (ino_slot D j l) < unat (sb_size (fs_sb s)) \<and> \<not> blk_used (fs_sb s) B (unat (ino_slot D j l))"
    "m \<notin> set (ino_list B i) \<Longrightarrow> blk_used (fs_sb s) B (unat m) \<Longrightarrow> m \<notin> set (ino_list D j)"
proof -
  show "ino_wf t D H j" "fs_ok t D H" "ino_frame s t" "j = i\<lparr>i_addrs := i_addrs j\<rparr>" "nfree (fs_sb s) B \<le> nfree (fs_sb s) D + c"
    "\<And>y. y < unat (sb_size (fs_sb s)) \<Longrightarrow> blk_used (fs_sb s) B y \<Longrightarrow> blk_used (fs_sb s) D y"
    "\<And>m. unat m < unat (sb_size (fs_sb s)) \<Longrightarrow> blk_used (fs_sb s) B (unat m) \<Longrightarrow> m \<notin> bm_blocks (fs_sb s) \<Longrightarrow> m \<notin> set (ino_list B i) \<Longrightarrow> D m = B m"
    and sl: "\<And>l. l < 269 \<Longrightarrow> ino_slot D j l = ino_slot B i l \<or> ino_slot B i l = 0 \<and> unat (ino_slot D j l) < unat (sb_size (fs_sb s)) \<and> \<not> blk_used (fs_sb s) B (unat (ino_slot D j l))"
    using assms by (auto simp only: evolves_def Let_def)
  show "m \<notin> set (ino_list B i) \<Longrightarrow> blk_used (fs_sb s) B (unat m) \<Longrightarrow> m \<notin> set (ino_list D j)"
    using sl unfolding ino_list_iff by metis
qed

lemma evolves_trans:
  assumes st: "evolves s B H i c t C j" and tu: "evolves t C H j d u D k"
  shows "evolves s B H i (c + d) u D k"
proof -
  let ?sb = "fs_sb s" and ?N = "unat (sb_size (fs_sb s))"
  note s1 = evolvesD [OF st]
  have sb: "fs_sb t = ?sb" using ino_frame_same(5) [OF s1(3)] .
  note t1 = evolvesD [OF tu, unfolded sb]
  show ?thesis unfolding evolves_def Let_def
  proof (intro conjI allI impI)
    show "k = i\<lparr>i_addrs := i_addrs k\<rparr>" by (subst t1(4), subst s1(4)) simp
    show "ino_frame s u" by (rule ino_frame_trans [OF s1(3) t1(3)])
    show "nfree ?sb B \<le> nfree ?sb D + (c + d)" using s1(5) t1(5) by simp
    fix m assume m: "unat m < ?N \<and> blk_used ?sb B (unat m) \<and> m \<notin> bm_blocks ?sb \<and> m \<notin> set (ino_list B i)"
    then have "m \<notin> set (ino_list C j)" using s1(9) by blast
    then show "D m = B m" using m t1(7) [of m] s1(7) [of m] s1(6) [of "unat m"] by simp
  next
    fix l assume l: "l < (269 :: nat)"
    show "ino_slot D k l = ino_slot B i l \<or> ino_slot B i l = 0 \<and> unat (ino_slot D k l) < ?N \<and> \<not> blk_used ?sb B (unat (ino_slot D k l))"
      using s1(8) [OF l] t1(8) [OF l] s1(6) by metis
  qed (use s1(6) t1(1,2,6) in auto)
qed

lemma grown_refl: "ino_wf s B H i \<Longrightarrow> fs_ok s B H \<Longrightarrow> grown s B H i 0 s B i"
  by (simp add: grown_def evolves_refl)

lemma grown_trans: "grown s B H i c t C j \<Longrightarrow> grown t C H j d u D k \<Longrightarrow> grown s B H i (c + d) u D k"
  using evolves_trans [of s B H i c t C j d u D k] by (simp add: grown_def)

lemma grown_alloc:
  fixes s :: "'x fs_state_scheme"
  assumes wf: "ino_wf s B H i" and ok: "fs_ok s B H" and al: "alloced s B H a C" and fr: "ino_frame s t"
    and k: "k < 269" "ino_slot B i k = 0" and sl: "\<And>l. l < 269 \<Longrightarrow> ino_slot D j l = (if l = k then a else ino_slot B i l)"
    and D: "\<And>m. m = 0 \<or> m \<noteq> ino_slot B i NDIRECT \<Longrightarrow> D m = C m" and j: "j = i\<lparr>i_addrs := i_addrs j\<rparr>"
  shows "grown s B H i 1 t D j"
proof -
  let ?sb = "fs_sb s" and ?N = "unat (sb_size (fs_sb s))"
  note f = ino_frame_same [OF fr]
  have A: "unat a < ?N" "\<not> blk_used ?sb B (unat a)" "a \<notin> bm_blocks ?sb" "H a = None" "tx_legal s a" "C a = replicate BSIZE 0"
    "\<And>y. y < ?N \<Longrightarrow> blk_used ?sb C y \<longleftrightarrow> y = unat a \<or> blk_used ?sb B y" "\<And>m. m \<noteq> a \<Longrightarrow> m \<notin> bm_blocks ?sb \<Longrightarrow> C m = B m"
    using al by (simp_all add: alloced_def Let_def)
  have a0: "a \<noteq> 0" using A(2) ok by (auto simp: fs_ok_def)
  have dev: "i_dev i = 1" and inj: "\<And>k l. k < 269 \<Longrightarrow> l < 269 \<Longrightarrow> ino_slot B i k \<noteq> 0 \<Longrightarrow> ino_slot B i k = ino_slot B i l \<Longrightarrow> k = l"
    and mine: "\<And>k. k < 269 \<Longrightarrow> ino_slot B i k \<noteq> 0 \<Longrightarrow> blk_mine s B H (ino_slot B i k)"
    using wf unfolding ino_wf_slots by blast+
  have used: "unat b < ?N" "blk_used ?sb B (unat b)" "b \<notin> bm_blocks ?sb" "b \<noteq> a" if "l < 269" "b = ino_slot B i l" "b \<noteq> 0" for l b
    using mine [of l] that A(2) by (auto simp: blk_mine_def)
  have DC: "D m = C m" if "m \<in> bm_blocks ?sb" for m
    using D [of m] used(3) [of NDIRECT m] that by (cases "m = 0 \<or> m \<noteq> ino_slot B i NDIRECT") auto
  have bu: "blk_used ?sb D y \<longleftrightarrow> blk_used ?sb C y" if "y < ?N" for y
    using DC [of "BBLOCK (of_nat y) ?sb"] that by (auto simp: blk_used_def bm_blocks_def)
  have mono: "blk_used ?sb D y" if "y < ?N" "blk_used ?sb B y" for y using bu [OF that(1)] A(7) [OF that(1)] that(2) by simp
  have mine': "blk_mine t D H b" if "blk_mine s B H b" for b using that mono f(3,5) by (simp add: blk_mine_def)
  have ma: "blk_mine t D H a" using A bu [OF A(1)] f(3,5) by (simp add: blk_mine_def)
  have "ino_wf t D H j"
    unfolding ino_wf_slots
  proof (intro conjI allI impI)
    show "i_dev j = 1" using dev by (subst j) simp
    fix l assume l: "l < (269 :: nat)"
    show "blk_mine t D H (ino_slot D j l)" if "ino_slot D j l \<noteq> 0" using sl [OF l] ma mine' mine [OF l] that by auto
    fix m assume m: "m < (269 :: nat)" and "ino_slot D j l \<noteq> 0 \<and> ino_slot D j l = ino_slot D j m"
    then show "l = m" using sl [OF l] sl [OF m] inj [OF l m] used(4) [OF l] used(4) [OF m] a0 by (auto split: if_splits)
  qed
  moreover have "fs_ok t D H"
  proof -
    have "bm_ok t C H" using bm_ok_alloced [OF _ al fr] ok by (simp add: fs_ok_def)
    then have "bm_ok t D H" using bu f(5) by (auto simp: bm_ok_def Let_def)
    then show ?thesis using ok mono [of 0] f(5) by (simp add: fs_ok_def word_less_nat_alt)
  qed
  moreover have "fdata D j bn = fdata B i bn" if "bn < MAXFILE" for bn
  proof -
    note b = fslot_bounds(1) [OF that] fslot_bounds(2) [of bn]
    have "D a = C a" using D [of a] used(4) [of NDIRECT a] a0 by (cases "a = ino_slot B i NDIRECT") auto
    then have 1: "D a = replicate BSIZE 0" using A(6) by simp
    have "D (ino_slot B i (fslot bn)) = B (ino_slot B i (fslot bn))" if nz: "ino_slot B i (fslot bn) \<noteq> 0"
    proof -
      have "ino_slot B i (fslot bn) \<noteq> ino_slot B i NDIRECT" using inj [OF b(1) _ nz, of NDIRECT] b(2) by auto
      then show ?thesis using D A(8) used(3,4) [OF b(1) refl nz] by simp
    qed
    then show ?thesis using sl [OF b(1)] k(2) 1 a0 by (auto simp: fdata_def Let_def)
  qed
  moreover have "D m = B m" if "unat m < ?N \<and> blk_used ?sb B (unat m) \<and> m \<notin> bm_blocks ?sb \<and> m \<notin> set (ino_list B i)" for m
  proof -
    have "(12 :: nat) < 269" by simp
    then have "m = 0 \<or> m \<noteq> ino_slot B i NDIRECT" "m \<noteq> a" using that A(2) unfolding ino_list_iff by metis+
    then show ?thesis using D A(8) that by simp
  qed
  moreover have "nfree ?sb B \<le> nfree ?sb D + 1"
  proof -
    have "nfree ?sb D = nfree ?sb C" unfolding nfree_def using bu by (intro arg_cong [where f = card]) auto
    then show ?thesis using nfree_alloced [OF al] by simp
  qed
  ultimately show ?thesis using fr j mono A(1,2) sl k(2) unfolding grown_def evolves_def Let_def by auto
qed

section \<open>\<open>bmap\<close>\<close>

lemma of_bytes_zeros: "of_bytes (replicate k 0) = 0"
  by (induction k) (simp_all add: of_bytes_def)

lemma rd32_zeros: "rd32 (replicate m 0) n = 0"
  by (simp add: rd32_def blk_get_def of_bytes_zeros)

lemma grown_mono: "grown s B H i c t D j \<Longrightarrow> c \<le> d \<Longrightarrow> grown s B H i d t D j"
  by (auto simp: grown_def evolves_def Let_def)

lemma bmap_addr:
  fixes s :: "'x fs_state_scheme"
  assumes tx: "tx p s B H" and i: "i = inodes s ip" and wf: "ino_wf s B H i" and ok: "fs_ok s B H" and k: "k \<le> NDIRECT" and free: "0 < nfree (fs_sb s) B"
    and cap: "card (tx_logged s) + card (dom H) + 1 < NBUF" "card (tx_logged s) + 1 < tx_lim s"
  shows "\<exists>t C j. (if i_addrs i k = 0 then
      bind (balloc (i_dev i)) (\<lambda>addr.
      andthen (on_ino ip (\<lambda>i. i\<lparr>i_addrs := (i_addrs i)(k := addr)\<rparr>)) (
      ret addr))
    else ret (i_addrs i k)) s = Ok (i_addrs j k) t \<and> tx p t C H \<and> grown s B H i 1 t C j \<and> inodes t = (inodes s)(ip := j) \<and> i_addrs j k \<noteq> 0 \<and>
    card (tx_logged t) \<le> card (tx_logged s) + 2"
proof (cases "i_addrs i k = 0")
  case False
  then show ?thesis using tx i grown_mono [OF grown_refl [OF wf ok], of 1] by (intro exI [of _ s] exI [of _ B] exI [of _ i]) simp
next
  case True
  have dev: "i_dev i = 1" using wf by (simp add: ino_wf_def)
  obtain t a C where t: "balloc 1 s = Ok a t" "tx p t C H" "alloced s B H a C" "tx_frame s t" "card (tx_logged t) \<le> card (tx_logged s) + 2"
    using balloc_fresh [OF tx _ free cap] ok by (auto simp: fs_ok_def)
  let ?j = "i\<lparr>i_addrs := (i_addrs i)(k := a)\<rparr>" and ?t = "t\<lparr>inodes := (inodes t)(ip := (inodes t ip)\<lparr>i_addrs := (i_addrs (inodes t ip))(k := a)\<rparr>)\<rparr>"
  have in': "inodes t = inodes s" using tx_frame_fs [OF t(4)] by simp
  have fr: "ino_frame s ?t" using ino_frame_trans [OF ino_frame_tx [OF t(4)]] by simp
  have a: "a \<noteq> 0" using t(3) ok by (auto simp: alloced_def Let_def fs_ok_def)
  have ind: "C (i_addrs i NDIRECT) = B (i_addrs i NDIRECT)" if "i_addrs i NDIRECT \<noteq> 0"
  proof -
    have "blk_mine s B H (i_addrs i NDIRECT)" using wf that by (simp add: ino_wf_def ino_list_def)
    then show ?thesis using t(3) by (auto simp: alloced_def Let_def blk_mine_def)
  qed
  have zero: "rd32 (C a) n = 0" for n
    using t(3) by (simp add: alloced_def Let_def rd32_zeros)
  have sl: "ino_slot C ?j l = (if l = k then a else ino_slot B i l)" if "l < 269" for l
    using k True ind zero [of "4 * (l - 13)"] that by (auto simp: ino_slot_def)
  have "grown s B H i 1 ?t C ?j"
    by (rule grown_alloc [OF wf ok t(3) fr _ _ sl]) (use k True in \<open>auto simp: ino_slot_def\<close>)
  then show ?thesis using True dev t(1,2,5) in' a i
    by (intro exI [of _ ?t] exI [of _ C] exI [of _ ?j]) (simp add: bind_apply andthen_apply on_ino_def)
qed

lemma bm_ok_held:
  assumes "bm_ok s B H" and "ino_frame s t" and "a \<notin> bm_blocks (fs_sb s)" "blk_used (fs_sb s) B (unat a)" "unat a < unat (sb_size (fs_sb s))"
  shows "bm_ok t B (H(a \<mapsto> b))"
proof -
  note f = ino_frame_same [OF assms(2)]
  have "of_nat x \<noteq> a" if "x < unat (sb_size (fs_sb s))" "\<not> blk_used (fs_sb s) B x" for x
  proof -
    have "unat (of_nat x :: u32) = x" using that(1) assms(1) by (intro unat_of_nat_small) (simp add: bm_ok_def Let_def)
    then show ?thesis using that(2) assms(4) by auto
  qed
  moreover have "BBLOCK (of_nat x) (fs_sb s) \<noteq> a" if "x < unat (sb_size (fs_sb s))" for x using assms(3) that by (auto simp: bm_blocks_def)
  ultimately show ?thesis using assms(1) f(3,5) by (simp add: bm_ok_def Let_def)
qed

definition bmap_entry :: "u32 \<Rightarrow> nat \<Rightarrow> (u32, 'x fs_state_scheme) kop" where
  "bmap_entry addr j =
     bind (bread 1 addr) (\<lambda>bp.
     bind (data_of bp) (\<lambda>d.
     bind
       (if rd32 d (4 * j) = 0 then
          bind (balloc 1) (\<lambda>addr.
          andthen (on_data bp (\<lambda>d. wr32 d (4 * j) addr)) (
          andthen (log_write bp) (
          ret addr)))
        else ret (rd32 d (4 * j))) (\<lambda>addr.
     andthen (brelse bp) (
     ret addr))))"

lemma bmap_entry_spec:
  fixes s :: "'x fs_state_scheme"
  assumes tx: "tx p s B H" and i: "i = inodes s ip" and wf: "ino_wf s B H i" and ok: "fs_ok s B H" and ind: "ind = i_addrs i NDIRECT" "ind \<noteq> 0" and j: "j < NINDIRECT"
    and free: "0 < nfree (fs_sb s) B" and cap: "card (tx_logged s) + card (dom H) + 2 < NBUF" "card (tx_logged s) + 2 < tx_lim s" and fin: "finite (dom H)"
  shows "\<exists>t D. bmap_entry ind j s = Ok (ino_slot D i (13 + j)) t \<and> tx p t D H \<and> grown s B H i 1 t D i \<and> inodes t = inodes s \<and> ino_slot D i (13 + j) \<noteq> 0 \<and>
    card (tx_logged t) \<le> card (tx_logged s) + 3"
proof -
  let ?d = "B ind"
  have mine: "blk_mine s B H ind" using wf ind by (simp add: ino_wf_def ino_list_def)
  then have m: "ind \<notin> bm_blocks (fs_sb s)" "H ind = None" "tx_legal s ind" "blk_used (fs_sb s) B (unat ind)" "unat ind < unat (sb_size (fs_sb s))" by (simp_all add: blk_mine_def)
  have sl: "ino_slot B i (13 + j) = rd32 ?d (4 * j)" using ind by (simp add: ino_slot_def)
  show ?thesis
  proof (cases "rd32 ?d (4 * j) = 0")
    case False
    obtain b t u where u: "bread 1 ind s = Ok b t" "b_data (bufs t b) = ?d" "brelse b t = Ok () u" "tx p u B H" "tx_frame s u" "tx_logged u = tx_logged s"
      using lg.fetch [OF tx m(2,3)] cap(1) by auto
    have fr: "ino_frame s u" by (rule ino_frame_tx [OF u(5)])
    have "ino_wf u B H i" "fs_ok u B H" using wf ok ino_frame_same(3,5) [OF fr] by (simp_all add: ino_wf_def blk_mine_def fs_ok_def bm_ok_def Let_def)
    then have "grown s B H i 1 u B i" using fr by (simp add: grown_def evolves_def Let_def)
    then show ?thesis using u(1-4,6) False sl tx_frame_fs(1) [OF u(5)]
      by (intro exI [of _ u] exI [of _ B]) (simp add: bmap_entry_def bind_apply andthen_apply)
  next
    case True
    obtain b t1 where t1: "bread 1 ind s = Ok b t1" "tx p t1 B (H(ind \<mapsto> b))" "b_data (bufs t1 b) = ?d" "tx_frame s t1" "tx_logged t1 = tx_logged s"
      using lg.rd_law [OF tx m(2,3)] cap(1) by auto
    let ?H = "H(ind \<mapsto> b)"
    note f1 = ino_frame_same [OF ino_frame_tx [OF t1(4)]] tx_frame_fs [OF t1(4)]
    have bm1: "bm_ok t1 B ?H" using bm_ok_held [OF _ ino_frame_tx [OF t1(4)] m(1,4,5)] ok by (simp add: fs_ok_def)
    have "card (dom ?H) = Suc (card (dom H))" using m(2) fin by (simp add: card_insert_if domIff)
    then obtain t2 a C where t2: "balloc 1 t1 = Ok a t2" "tx p t2 C ?H" "alloced t1 B ?H a C" "tx_frame t1 t2" "a \<in> tx_logged t2" "card (tx_logged t2) \<le> card (tx_logged t1) + 2"
      using balloc_fresh [OF t1(2) bm1] free cap t1(5) f1(2,5) by auto
    have al: "alloced s B H a C" using t2(3) f1(3,5) by (auto simp: alloced_def Let_def split: if_splits)
    have Cind: "C ind = ?d" using al m(1,4) by (auto simp: alloced_def Let_def)
    have len: "length ?d = BSIZE" by (rule lg.len_law [OF tx])
    let ?D = "C(ind := wr32 (C ind) (4 * j) a)"
    have "length (wr32 (C ind) (4 * j) a) = BSIZE" using len Cind j by simp
    then obtain t3 t4 where t4: "on_data b (\<lambda>d. wr32 d (4 * j) a) t2 = Ok () t3" "log_write b t3 = Ok () t4" "tx p t4 ?D ?H" "tx_frame t2 t4" "tx_logged t4 = insert ind (tx_logged t2)"
      using lg.change [OF t2(2), of ind b "\<lambda>d. wr32 d (4 * j) a"] cap(2) t1(5) t2(6) tx_frame_same(2) [OF t2(4)] f1(2) by (auto simp: on_data_def)
    obtain t5 where t5: "brelse b t4 = Ok () t5" "tx p t5 ?D (?H(ind := None))" "tx_frame t4 t5" "tx_logged t5 = tx_logged t4"
      using lg.rel_law [OF t4(3), of ind b] t4(5) by auto
    have "?H(ind := None) = H" using m(2) by auto
    then have tx5: "tx p t5 ?D H" using t5(2) by simp
    have fr5: "tx_frame s t5" using lg.frame_trans [OF lg.frame_trans [OF lg.frame_trans [OF t1(4) t2(4)] t4(4)] t5(3)] .
    have sl5: "ino_slot ?D i l = (if l = 13 + j then a else ino_slot B i l)" if "l < 269" for l
    proof (cases "l \<le> NDIRECT")
      case False
      then have "4 * (l - 13) + 4 \<le> BSIZE" "4 * j + 4 \<le> BSIZE" using that j by auto
      moreover have "4 * (l - 13) + 4 \<le> 4 * j \<or> 4 * j + 4 \<le> 4 * (l - 13)" if "l \<noteq> 13 + j" using False that by arith
      ultimately show ?thesis using False ind Cind len rd32_wr32_other [of "4 * j" ?d "4 * (l - 13)" a] by (auto simp: ino_slot_def)
    qed (simp add: ino_slot_def)
    have "grown s B H i 1 t5 ?D i"
      by (rule grown_alloc [OF wf ok al ino_frame_tx [OF fr5] _ _ sl5]) (use j True sl ind in \<open>auto simp: ino_slot_def\<close>)
    moreover have "bmap_entry ind j s = Ok a t5" using t1(1,3) t2(1) t4(1,2) t5(1) True by (simp add: bmap_entry_def bind_apply andthen_apply)
    moreover have "card (tx_logged t5) \<le> card (tx_logged s) + 3" unfolding t5(4) t4(5) using t2(6) t1(5) by (simp add: card_insert_if)
    moreover have "a \<noteq> 0" using al ok by (auto simp: alloced_def Let_def fs_ok_def)
    moreover have "ino_slot ?D i (13 + j) = a" using sl5 [of "13 + j"] j by simp
    ultimately show ?thesis using tx5 tx_frame_fs(1) [OF fr5] by (intro exI [of _ t5] exI [of _ ?D]) simp
  qed
qed

lemma bmap_spec:
  fixes s :: "'x fs_state_scheme"
  assumes tx: "tx p s B H" and i: "i = inodes s ip" and wf: "ino_wf s B H i" and ok: "fs_ok s B H" and bn: "unat bn < MAXFILE"
    and free: "2 \<le> nfree (fs_sb s) B" and cap: "card (tx_logged s) + card (dom H) + 4 < NBUF" "card (tx_logged s) + 4 < tx_lim s" and fin: "finite (dom H)"
  shows "\<exists>t D j. bmap ip bn s = Ok (ino_slot D j (fslot (unat bn))) t \<and> tx p t D H \<and> grown s B H i 2 t D j \<and> inodes t = (inodes s)(ip := j) \<and>
    ino_slot D j (fslot (unat bn)) \<noteq> 0 \<and> card (tx_logged t) \<le> card (tx_logged s) + 5"
proof (cases "unat bn < NDIRECT")
  case True
  have k: "unat bn \<le> NDIRECT" using True by simp
  let ?e = "if i_addrs i (unat bn) = 0 then
      bind (balloc (i_dev i)) (\<lambda>addr.
      andthen (on_ino ip (\<lambda>i. i\<lparr>i_addrs := (i_addrs i)(unat bn := addr)\<rparr>)) (
      ret addr))
    else ret (i_addrs i (unat bn))"
  obtain t C j where t: "?e s = Ok (i_addrs j (unat bn)) t" "tx p t C H" "grown s B H i 1 t C j" "inodes t = (inodes s)(ip := j)" "i_addrs j (unat bn) \<noteq> 0"
    "card (tx_logged t) \<le> card (tx_logged s) + 2"
    using bmap_addr [OF tx i wf ok k] free cap by (simp del: fun_upd_apply) blast
  have "bmap ip bn s = ?e s" using True i by (simp add: bmap_def)
  then have "bmap ip bn s = Ok (i_addrs j (unat bn)) t" using t(1) by (simp only:)
  moreover have "ino_slot C j (fslot (unat bn)) = i_addrs j (unat bn)" using True by (simp add: ino_slot_def fslot_def)
  ultimately show ?thesis using t(2,4-6) grown_mono [OF t(3), of 2] by (intro exI [of _ t] exI [of _ C] exI [of _ j]) (simp del: fun_upd_apply)
next
  case False
  let ?k = "unat bn - NDIRECT"
  have u: "unat (bn - 12) = ?k" using False by (subst unat_sub) (simp_all add: word_le_nat_alt)
  have k: "?k < NINDIRECT" using bn False by simp
  let ?e = "if i_addrs i NDIRECT = 0 then
      bind (balloc (i_dev i)) (\<lambda>addr.
      andthen (on_ino ip (\<lambda>i. i\<lparr>i_addrs := (i_addrs i)(NDIRECT := addr)\<rparr>)) (
      ret addr))
    else ret (i_addrs i NDIRECT)"
  obtain t C j where t: "?e s = Ok (i_addrs j NDIRECT) t" "tx p t C H" "grown s B H i 1 t C j" "inodes t = (inodes s)(ip := j)" "i_addrs j NDIRECT \<noteq> 0"
    "card (tx_logged t) \<le> card (tx_logged s) + 2"
    using bmap_addr [OF tx i wf ok order.refl] free cap by (simp del: fun_upd_apply) blast
  have g: "ino_wf t C H j" "fs_ok t C H" "ino_frame s t" "nfree (fs_sb s) B \<le> nfree (fs_sb s) C + 1" using evolvesD [of s B H i 1 t C j] t(3) by (simp_all add: grown_def)
  note f = ino_frame_same [OF g(3)]
  have jj: "j = inodes t ip" using t(4) by simp
  obtain u D where e: "bmap_entry (i_addrs j NDIRECT) ?k t = Ok (ino_slot D j (13 + ?k)) u" "tx p u D H" "grown t C H j 1 u D j" "inodes u = inodes t" "ino_slot D j (13 + ?k) \<noteq> 0"
    "card (tx_logged u) \<le> card (tx_logged t) + 3"
    using bmap_entry_spec [OF t(2) jj g(1,2) refl t(5) k _ _ _ fin] free cap g(4) t(6) f(2,5) by auto
  have dev: "i_dev i = 1" using wf by (simp add: ino_wf_def)
  have "bmap ip bn s = bind ?e (\<lambda>addr. bmap_entry addr ?k) s"
    using False k dev i u by (simp add: bmap_def bmap_entry_def Let_def cong: if_cong)
  also have "\<dots> = Ok (ino_slot D j (13 + ?k)) u" unfolding bind_Ok [of ?e, OF t(1)] by (rule e(1))
  finally have "bmap ip bn s = Ok (ino_slot D j (fslot (unat bn))) u" using False by (simp add: fslot_def)
  moreover have "grown s B H i 2 u D j" using grown_mono [OF grown_trans [OF t(3) e(3)], of 2] by simp
  moreover have "fslot (unat bn) = 13 + ?k" using False by (simp add: fslot_def)
  ultimately show ?thesis using e(2,4,5,6) t(4,6) by (intro exI [of _ u] exI [of _ D] exI [of _ j]) (simp del: fun_upd_apply)
qed

text \<open>Where the file has a block, \<open>bmap\<close> only reads.\<close>

lemma bmap_present:
  fixes s :: "'x fs_state_scheme"
  assumes tx: "tx p s B H" and i: "i = inodes s ip" and wf: "ino_wf s B H i" and bn: "unat bn < MAXFILE" and nz: "ino_slot B i (fslot (unat bn)) \<noteq> 0"
    and cap: "card (tx_logged s) + card (dom H) < NBUF"
  shows "\<exists>t. bmap ip bn s = Ok (ino_slot B i (fslot (unat bn))) t \<and> tx p t B H \<and> tx_frame s t \<and> tx_logged t = tx_logged s"
proof (cases "unat bn < NDIRECT")
  case True
  then show ?thesis using tx i nz by (intro exI [of _ s]) (simp add: bmap_def bind_apply ino_slot_def fslot_def lg.frame_refl)
next
  case False
  let ?k = "unat bn - NDIRECT" and ?ind = "i_addrs i NDIRECT"
  have u: "unat (bn - 12) = ?k" using False by (subst unat_sub) (simp_all add: word_le_nat_alt)
  have k: "?k < NINDIRECT" using bn False by simp
  have ind: "?ind \<noteq> 0" "ino_slot B i (fslot (unat bn)) = rd32 (B ?ind) (4 * ?k)" using nz False by (auto simp: ino_slot_def fslot_def split: if_splits)
  have dev: "i_dev i = 1" using wf by (simp add: ino_wf_def)
  have m: "H ?ind = None" "tx_legal s ?ind" using wf ind(1) by (simp_all add: ino_wf_def ino_list_def blk_mine_def)
  obtain b t w where w: "bread 1 ?ind s = Ok b t" "b_data (bufs t b) = B ?ind" "brelse b t = Ok () w" "tx p w B H" "tx_frame s w" "tx_logged w = tx_logged s"
    using lg.fetch [OF tx m cap] by blast
  have "bmap ip bn s = Ok (rd32 (B ?ind) (4 * ?k)) w"
    using False k dev i u ind w(1-3) nz by (simp add: bmap_def Let_def bind_apply andthen_apply)
  then show ?thesis using w(4-6) ind(2) by (intro exI [of _ w]) simp
qed

section \<open>Reading\<close>

definition fbyte :: "(u32 \<Rightarrow> byte list) \<Rightarrow> inode \<Rightarrow> nat \<Rightarrow> byte" where
  "fbyte B i k = fdata B i (k div BSIZE) ! (k mod BSIZE)"

lemma length_fdata: "tx p s B H \<Longrightarrow> length (fdata B i bn) = BSIZE"
  using lg.len_law [of p s B H] by (simp add: fdata_def Let_def)

lemma div_mod_inside:
  fixes a b k :: nat
  assumes "a mod b + k < b"
  shows "(a + k) div b = a div b" "(a + k) mod b = a mod b + k"
proof -
  have g: "(r + k + q * b) div b = q" "(r + k + q * b) mod b = r + k" if "r + k < b" for q r :: nat using that by simp_all
  have "a + k = a mod b + k + a div b * b" by (simp add: add.commute add.left_commute)
  then show "(a + k) div b = a div b" "(a + k) mod b = a mod b + k" using g [OF assms, of "a div b"] by metis+
qed

lemma fbyte_chunk:
  assumes "o' mod BSIZE + m \<le> BSIZE" and "length (fdata B i (o' div BSIZE)) = BSIZE"
  shows "map (fbyte B i) [o'..<o' + m] = blk_get (fdata B i (o' div BSIZE)) (o' mod BSIZE) m"
proof (rule nth_equalityI)
  fix k assume "k < length (map (fbyte B i) [o'..<o' + m])"
  then have k: "k < m" by simp
  have "o' mod BSIZE + k < BSIZE" using k assms(1) by simp
  then have "(o' + k) div BSIZE = o' div BSIZE" "(o' + k) mod BSIZE = o' mod BSIZE + k" using div_mod_inside [of o' BSIZE k] by simp_all
  then show "map (fbyte B i) [o'..<o' + m] ! k = blk_get (fdata B i (o' div BSIZE)) (o' mod BSIZE) m ! k"
    using k assms by (simp add: fbyte_def nth_blk_get)
qed (use assms in simp)

lemma chunk_len_nat:
  assumes "tot < n" "unat off + (unat n - unat tot) \<le> MAXFILE * BSIZE"
  shows "unat (chunk_len n tot off) = min (unat n - unat tot) (BSIZE - unat off mod BSIZE)" "unat (off + chunk_len n tot off) = unat off + unat (chunk_len n tot off)"
    "unat (tot + chunk_len n tot off) = unat tot + unat (chunk_len n tot off)" "0 < unat (chunk_len n tot off)" "unat (off div of_nat BSIZE) = unat off div BSIZE"
proof -
  have m: "unat (off mod 1024) = unat off mod 1024" by (simp add: unat_mod)
  have b: "unat (1024 - off mod 1024 :: u32) = 1024 - unat off mod 1024"
    using m by (subst unat_sub) (simp_all add: word_le_nat_alt less_imp_le)
  have t: "unat (n - tot) = unat n - unat tot" using assms(1) by (intro unat_sub) simp
  show c: "unat (chunk_len n tot off) = min (unat n - unat tot) (BSIZE - unat off mod BSIZE)"
    by (simp add: chunk_len_def min_def word_le_nat_alt b t)
  have tn: "unat tot < unat n" "unat n < 2 ^ 32" using assms(1) unsigned_less [of n] by (simp_all add: word_less_nat_alt)
  then show "0 < unat (chunk_len n tot off)" using c by simp
  show "unat (off + chunk_len n tot off) = unat off + unat (chunk_len n tot off)"
    using assms(2) c by (subst unat_add_lem [THEN iffD1]) simp_all
  show "unat (tot + chunk_len n tot off) = unat tot + unat (chunk_len n tot off)"
    using tn c by (subst unat_add_lem [THEN iffD1]) simp_all
  show "unat (off div of_nat BSIZE) = unat off div BSIZE" by (simp add: unat_div)
qed

text \<open>The file has a block wherever a byte below \<open>e\<close> lies.\<close>

definition fpresent :: "(u32 \<Rightarrow> byte list) \<Rightarrow> inode \<Rightarrow> nat \<Rightarrow> bool" where
  "fpresent B i e \<longleftrightarrow> e \<le> MAXFILE * BSIZE \<and> (\<forall>k<e. ino_slot B i (fslot (k div BSIZE)) \<noteq> 0)"

lemma tx_frame_hw: "tx_frame s (s\<lparr>hw := h\<rparr>)"
  by (simp add: tx_frame_def bio_frame_def log_bnos_def log_len_def)

lemma ino_wf_frame: "ino_wf s B H i \<Longrightarrow> ino_frame s t \<Longrightarrow> ino_wf t B H i"
  using ino_frame_same(3,5) [of s t] by (simp add: ino_wf_def blk_mine_def)

lemma blk_mine_slot: "ino_wf s B H i \<Longrightarrow> k < 269 \<Longrightarrow> ino_slot B i k \<noteq> 0 \<Longrightarrow> blk_mine s B H (ino_slot B i k)"
  by (simp add: ino_wf_slots)

lemma readi_loop_spec:
  fixes s :: "'x fs_state_scheme"
  assumes "tx p s B H" and "i = inodes s ip" and "ino_wf s B H i" and "tot \<le> n" and "fpresent B i (unat off + (unat n - unat tot))"
    and "card (tx_logged s) + card (dom H) < NBUF"
  shows "\<exists>t. readi_loop ip False dst off n tot out s = Ok (n, out @ map (fbyte B i) [unat off..<unat off + (unat n - unat tot)]) t \<and> tx p t B H \<and> tx_frame s t \<and> tx_logged t = tx_logged s"
  using assms
proof (induction "unat n - unat tot" arbitrary: s dst off tot out rule: less_induct)
  case less
  note tx = less.prems(1) and i = less.prems(2) and wf = less.prems(3) and pres = less.prems(5) and cap = less.prems(6)
  show ?case
  proof (cases "tot < n")
    case False
    then have "tot = n" using less.prems(4) by simp
    then show ?thesis using tx by (subst readi_loop.simps) (auto simp: lg.frame_refl)
  next
    case True
    let ?m = "chunk_len n tot off" and ?bn = "off div of_nat BSIZE" and ?o = "unat off"
    note c = chunk_len_nat [OF True, of off, OF conjunct1 [OF pres [unfolded fpresent_def]]]
    have lt: "unat tot < unat n" using True by (simp add: word_less_nat_alt)
    have bn: "unat ?bn = ?o div BSIZE" by (rule c(5))
    have om: "?o mod BSIZE + unat ?m \<le> BSIZE" unfolding c(1) by (simp add: min_def) (metis le_add_diff_inverse less_imp_le mod_less_divisor nat_le_linear zero_less_numeral add_left_mono)
    have nz: "ino_slot B i (fslot (unat ?bn)) \<noteq> 0" using pres lt unfolding bn fpresent_def by simp
    have bl: "unat ?bn < MAXFILE" using conjunct1 [OF pres [unfolded fpresent_def]] lt unfolding bn by (intro less_mult_imp_div_less) linarith
    let ?a = "ino_slot B i (fslot (unat ?bn))"
    obtain t1 where t1: "bmap ip ?bn s = Ok ?a t1" "tx p t1 B H" "tx_frame s t1" "tx_logged t1 = tx_logged s"
      using bmap_present [OF tx i wf bl nz cap] by blast
    have mine: "blk_mine s B H ?a" by (rule blk_mine_slot [OF wf fslot_bounds(1) [OF bl] nz])
    have dev: "i_dev (inodes t1 ip) = 1" using wf i tx_frame_fs(1) [OF t1(3)] by (simp add: ino_wf_def)
    have a: "H ?a = None" "tx_legal t1 ?a" using mine tx_frame_same(3) [OF t1(3)] by (simp_all add: blk_mine_def)
    obtain b t2 where t2: "bread 1 ?a t1 = Ok b t2" "b_data (bufs t2 b) = B ?a" "tx p t2 B (H(?a \<mapsto> b))" "tx_frame t1 t2" "tx_logged t2 = tx_logged t1"
      using lg.rd_law [OF t1(2) a] cap t1(4) by auto
    let ?t3 = "t2\<lparr>hw := lock_cycle (hw t2)\<rparr>" and ?bs = "blk_get (B ?a) (?o mod BSIZE) (unat ?m)"
    have t3: "either_copyout False dst ?bs t2 = Ok 0 ?t3" using running_facts(2,3) [of p t2] tx_running [OF t2(3)] by (simp add: either_copyout_def bind_apply)
    have fr3: "tx_frame s ?t3" using lg.frame_trans [OF lg.frame_trans [OF t1(3) t2(4)] tx_frame_hw] .
    have "?a \<in> tx_logged ?t3 \<or> B ?a = dblk ?t3 ?a" using lg.clean [OF tx a(1)] tx_frame_same(1) [OF fr3] t1(4) t2(5) by auto
    then obtain t4 where t4: "brelse b ?t3 = Ok () t4" "tx p t4 B ((H(?a \<mapsto> b))(?a := None))" "tx_frame ?t3 t4" "tx_logged t4 = tx_logged ?t3"
      using lg.rel_law [OF tx_lock_cycle [OF t2(3)], of ?a b] by auto
    have "(H(?a \<mapsto> b))(?a := None) = H" using a(1) by auto
    then have tx4: "tx p t4 B H" using t4(2) by simp
    have fr4: "tx_frame s t4" using lg.frame_trans [OF fr3 t4(3)] .
    have fd: "fdata B i (?o div BSIZE) = B ?a" using nz unfolding bn by (simp add: fdata_def Let_def)
    have ch: "map (fbyte B i) [?o..<?o + unat ?m] = ?bs" using fbyte_chunk [OF om length_fdata [OF tx, of i]] unfolding fd .
    have rest: "unat n - unat (tot + ?m) = unat n - unat tot - unat ?m" "?o + unat ?m + (unat n - unat (tot + ?m)) = ?o + (unat n - unat tot)"
      unfolding c(3) using c(1) lt by auto
    have "\<exists>t. readi_loop ip False (dst + ucast ?m) (off + ?m) n (tot + ?m) (out @ ?bs) t4 =
      Ok (n, (out @ ?bs) @ map (fbyte B i) [unat (off + ?m)..<unat (off + ?m) + (unat n - unat (tot + ?m))]) t \<and> tx p t B H \<and> tx_frame t4 t \<and> tx_logged t = tx_logged t4"
    proof (rule less.hyps)
      show "unat n - unat (tot + ?m) < unat n - unat tot" using rest(1) c(4) lt by simp
      show "tot + ?m \<le> n" unfolding word_le_nat_alt c(3) using c(1) lt by simp
      show "fpresent B i (unat (off + ?m) + (unat n - unat (tot + ?m)))" using pres unfolding c(2) rest(2) .
      show "ino_wf t4 B H i" by (rule ino_wf_frame [OF wf ino_frame_tx [OF fr4]])
      show "i = inodes t4 ip" using i tx_frame_fs(1) [OF fr4] by simp
      show "card (tx_logged t4) + card (dom H) < NBUF" using cap t1(4) t2(5) t4(4) by simp
    qed (rule tx4)
    then obtain t where t: "readi_loop ip False (dst + ucast ?m) (off + ?m) n (tot + ?m) (out @ ?bs) t4 =
      Ok (n, (out @ ?bs) @ map (fbyte B i) [?o + unat ?m..<?o + (unat n - unat tot)]) t" "tx p t B H" "tx_frame t4 t" "tx_logged t = tx_logged t4"
      unfolding c(2) rest(2) by blast
    have le: "unat ?m \<le> unat n - unat tot" unfolding c(1) by simp
    have sp: "[?o..<?o + (unat n - unat tot)] = [?o..<?o + unat ?m] @ [?o + unat ?m..<?o + (unat n - unat tot)]"
      using upt_add_eq_append [of ?o "?o + unat ?m" "unat n - unat tot - unat ?m"] le by (simp only: le_add1 add.assoc le_add_diff_inverse)
    have "readi_loop ip False dst off n tot out s = Ok (n, out @ map (fbyte B i) [?o..<?o + (unat n - unat tot)]) t"
      unfolding sp map_append ch using True t1(1) dev t2(1,2) t3 t4(1) t(1)
      by (subst readi_loop.simps) (simp add: bind_apply andthen_apply Let_def)
    then show ?thesis using t(2,4) lg.frame_trans [OF fr4 t(3)] t1(4) t2(5) t4(4) by auto
  qed
qed

section \<open>Writing\<close>

lemma evolves_write:
  fixes s :: "'x fs_state_scheme"
  assumes wf: "ino_wf s B H i" and ok: "fs_ok s B H" and fr: "ino_frame s t" and bn: "bn < MAXFILE" and a: "a = ino_slot B i (fslot bn)" "a \<noteq> 0" and D: "D = B(a := d)"
  shows "evolves s B H i 0 t D i" and "k < MAXFILE \<Longrightarrow> fdata D i k = (if k = bn then d else fdata B i k)" and "ino_slot D i l = ino_slot B i l"
proof -
  let ?sb = "fs_sb s"
  note f = ino_frame_same [OF fr]
  have inj: "\<And>k l. k < 269 \<Longrightarrow> l < 269 \<Longrightarrow> ino_slot B i k \<noteq> 0 \<Longrightarrow> ino_slot B i k = ino_slot B i l \<Longrightarrow> k = l"
    using wf unfolding ino_wf_slots by blast
  have mine: "blk_mine s B H a" using blk_mine_slot [OF wf fslot_bounds(1) [OF bn]] a by simp
  have nb: "D m = B m" if "m \<in> bm_blocks ?sb" for m using that mine unfolding D by (auto simp: blk_mine_def)
  have bu: "blk_used ?sb D y = blk_used ?sb B y" if "y < unat (sb_size ?sb)" for y
    using nb [of "BBLOCK (of_nat y) ?sb"] that by (simp add: blk_used_def bm_blocks_def)
  have "ino_slot B i NDIRECT \<noteq> a"
  proof
    assume "ino_slot B i NDIRECT = a"
    then have "fslot bn = NDIRECT" by (intro inj) (use a fslot_bounds(1) [OF bn] in simp_all)
    then show False using fslot_bounds(2) [of bn] by simp
  qed
  then have ind: "i_addrs i NDIRECT \<noteq> a" by (simp add: ino_slot_def)
  have "D (i_addrs i NDIRECT) = B (i_addrs i NDIRECT)" unfolding D using ind by (rule fun_upd_other)
  then have sl: "ino_slot D i l = ino_slot B i l" for l by (simp only: ino_slot_def)
  then show "ino_slot D i l = ino_slot B i l" .
  have e: "ino_slot D i = ino_slot B i" by (rule ext) (rule sl)
  have l: "ino_list D i = ino_list B i" unfolding ino_list_slots e by (rule refl)
  have bm: "blk_mine t D H m = blk_mine s B H m" for m
    using bu [of "unat m"] by (cases "unat m < unat (sb_size ?sb)") (simp_all add: blk_mine_def f(3,5))
  have "ino_wf t D H i" using wf unfolding ino_wf_def l bm .
  moreover have "fs_ok t D H" using ok bu f(3,5) by (simp add: fs_ok_def bm_ok_def Let_def word_less_nat_alt)
  moreover have "nfree ?sb D = nfree ?sb B" unfolding nfree_def using bu by (intro arg_cong [where f = card]) auto
  moreover have "D m = B m" if "m \<notin> set (ino_list B i)" for m
    using that a fslot_bounds(1) [OF bn] unfolding D ino_list_iff by (metis fun_upd_apply)
  ultimately show "evolves s B H i 0 t D i" using fr bu sl by (simp add: evolves_def Let_def)
  show "fdata D i k = (if k = bn then d else fdata B i k)" if k: "k < MAXFILE"
  proof (cases "k = bn")
    case False
    then have "ino_slot B i (fslot k) \<noteq> a" using inj [OF fslot_bounds(1) [OF bn] fslot_bounds(1) [OF k]] a fslot_bounds(3) by metis
    then show ?thesis using False unfolding D by (simp add: fdata_def Let_def sl [unfolded D])
  qed (use a in \<open>simp add: fdata_def Let_def sl, simp add: D\<close>)
qed

definition nchunks :: "nat \<Rightarrow> nat \<Rightarrow> nat" where
  "nchunks o' l = (if l = 0 then 0 else (o' mod BSIZE + l + (BSIZE - 1)) div BSIZE)"

lemma nchunks_step:
  assumes "0 < l" and "m = min l (BSIZE - o' mod BSIZE)"
  shows "nchunks o' l = Suc (nchunks (o' + m) (l - m))"
proof (cases "l \<le> BSIZE - o' mod BSIZE")
  case True
  then have "o' mod BSIZE + l + (BSIZE - 1) < 2 * BSIZE" "BSIZE \<le> o' mod BSIZE + l + (BSIZE - 1)" using assms(1) by linarith+
  then have "(o' mod BSIZE + l + (BSIZE - 1)) div BSIZE = 1" by linarith
  then show ?thesis using True assms by (simp add: nchunks_def)
next
  case False
  then have m: "m = BSIZE - o' mod BSIZE" "m < l" using assms(2) by simp_all
  have "o' + m = o' div BSIZE * BSIZE + BSIZE" using m(1) div_mult_mod_eq [of o' BSIZE] mod_less_divisor [of BSIZE o'] by linarith
  then have z: "(o' + m) mod BSIZE = 0" by (metis mod_mult_self3 mod_self)
  have "o' mod BSIZE + l + (BSIZE - 1) = BSIZE + (l - m + (BSIZE - 1))" using m mod_less_divisor [of BSIZE o'] by linarith
  then show ?thesis using m(2) z by (simp add: nchunks_def)
qed

lemma div_less_gap:
  fixes u q v b :: nat
  assumes "u < q" "v < b"
  shows "u * b + v < q * b"
proof -
  have "Suc u * b \<le> q * b" using assms(1) by (intro mult_le_mono1) simp
  then show ?thesis using assms(2) by simp
qed

lemma fbyte_put:
  assumes d: "\<And>k. k < MAXFILE \<Longrightarrow> fdata D j k = (if k = o' div BSIZE then blk_put (fdata B i k) (o' mod BSIZE) bs else fdata B i k)"
    and "o' mod BSIZE + length bs \<le> BSIZE" and "length (fdata B i (o' div BSIZE)) = BSIZE" and "k < MAXFILE * BSIZE"
  shows "fbyte D j k = (if o' \<le> k \<and> k < o' + length bs then bs ! (k - o') else fbyte B i k)"
proof -
  have kd: "k div BSIZE < MAXFILE" using assms(4) by (intro less_mult_imp_div_less) simp
  obtain q r where q: "o' div BSIZE = q" "o' mod BSIZE = r" "o' = q * BSIZE + r" by (metis div_mult_mod_eq)
  obtain u v where u: "k div BSIZE = u" "k mod BSIZE = v" "k = u * BSIZE + v" by (metis div_mult_mod_eq)
  have m: "v < BSIZE" "r < BSIZE" using q(2) u(2) by auto
  show ?thesis
  proof (cases "k div BSIZE = o' div BSIZE")
    case True
    have in': "o' \<le> k \<and> k < o' + length bs \<longleftrightarrow> r \<le> v \<and> v < r + length bs" "k - o' = v - r"
      using q(1,3) u(1,3) True by simp_all
    show ?thesis using d [OF kd] True assms(2,3) m(1) q(2) u(2) unfolding in' fbyte_def by (simp add: nth_blk_put)
  next
    case False
    then consider "u < q" | "q < u" using q(1) u(1) by linarith
    then have "k < o' \<or> o' + length bs \<le> k"
    proof cases
      case 1
      then have "k < o'" using div_less_gap [OF 1 m(1)] q(3) u(3) by linarith
      then show ?thesis by simp
    next
      case 2
      have "r + length bs \<le> BSIZE" using assms(2) q(2) by simp
      then have "o' + length bs \<le> k" using div_less_gap [OF 2, of "BSIZE - 1" BSIZE] q(3) u(3) by linarith
      then show ?thesis by simp
    qed
    then show ?thesis using d [OF kd] False by (auto simp: fbyte_def)
  qed
qed

lemma writei_chunk:
  fixes s :: "'x fs_state_scheme"
  assumes tx: "tx p s B H" and i: "i = inodes s ip" and wf: "ino_wf s B H i" and ok: "fs_ok s B H" and bn: "unat bn = o' div BSIZE" "unat bn < MAXFILE"
    and bs: "bs = take m (drop k src)" "length bs = m" "o' mod BSIZE + m \<le> BSIZE" and free: "2 \<le> nfree (fs_sb s) B"
    and cap: "card (tx_logged s) + card (dom H) + 5 < NBUF" "card (tx_logged s) + 5 < tx_lim s" and fin: "finite (dom H)"
  shows "\<exists>t1 t2 t3 t4 t5 t6 b D j. bmap ip bn s = Ok (ino_slot D j (fslot (unat bn))) t1 \<and> i_dev (inodes t1 ip) = 1 \<and> bread 1 (ino_slot D j (fslot (unat bn))) t1 = Ok b t2 \<and>
    either_copyin (Kbuf src) k m t2 = Ok (0, bs) t3 \<and> on_data b (\<lambda>d. blk_put d (o' mod BSIZE) bs) t3 = Ok () t4 \<and> log_write b t4 = Ok () t5 \<and>
    brelse b t5 = Ok () t6 \<and> tx p t6 D H \<and> evolves s B H i 2 t6 D j \<and> inodes t6 = (inodes s)(ip := j) \<and> card (tx_logged t6) \<le> card (tx_logged s) + 6 \<and>
    (\<forall>x<MAXFILE * BSIZE. fbyte D j x = (if o' \<le> x \<and> x < o' + m then bs ! (x - o') else fbyte B i x)) \<and> ino_slot D j (fslot (unat bn)) \<noteq> 0"
proof -
  obtain t1 C j where t1: "bmap ip bn s = Ok (ino_slot C j (fslot (unat bn))) t1" "tx p t1 C H" "grown s B H i 2 t1 C j" "inodes t1 = (inodes s)(ip := j)"
    "ino_slot C j (fslot (unat bn)) \<noteq> 0" "card (tx_logged t1) \<le> card (tx_logged s) + 5"
    using bmap_spec [OF tx i wf ok bn(2) free _ _ fin] cap by (simp del: fun_upd_apply) blast
  let ?a = "ino_slot C j (fslot (unat bn))"
  have g: "evolves s B H i 2 t1 C j" "\<And>k. k < MAXFILE \<Longrightarrow> fdata C j k = fdata B i k" using t1(3) by (simp_all add: grown_def)
  note e = evolvesD [OF g(1)] and f1 = ino_frame_same [OF evolvesD(3) [OF g(1)]]
  have mine: "blk_mine t1 C H ?a" by (rule blk_mine_slot [OF e(1) fslot_bounds(1) [OF bn(2)] t1(5)])
  then have a: "H ?a = None" "tx_legal t1 ?a" by (simp_all add: blk_mine_def)
  have "card (tx_logged t1) + card (dom H) < NBUF" using cap(1) t1(6) by linarith
  then obtain b t2 where t2: "bread 1 ?a t1 = Ok b t2" "tx p t2 C (H(?a \<mapsto> b))" "tx_frame t1 t2" "tx_logged t2 = tx_logged t1"
    using lg.rd_law [OF t1(2) a] by blast
  let ?t3 = "t2\<lparr>hw := lock_cycle (hw t2)\<rparr>" and ?H = "H(?a \<mapsto> b)"
  have t3: "either_copyin (Kbuf src) k m t2 = Ok (0, bs) ?t3"
    using running_facts(2,3) [of p t2] tx_running [OF t2(2)] bs(1) by (simp add: either_copyin_def bind_apply)
  have fr3: "tx_frame t1 ?t3" using lg.frame_trans [OF t2(3) tx_frame_hw] .
  let ?d = "blk_put (C ?a) (o' mod BSIZE) bs" and ?D = "C(?a := blk_put (C ?a) (o' mod BSIZE) bs)"
  have "length ?d = BSIZE" using lg.len_law [OF t1(2), of ?a] bs by simp
  moreover have "card (tx_logged ?t3) < tx_lim ?t3" using cap(2) t1(6) t2(4) tx_frame_same(2) [OF fr3] f1(2) by simp
  ultimately obtain t4 t5 where t5: "on_data b (\<lambda>d. blk_put d (o' mod BSIZE) bs) ?t3 = Ok () t4" "log_write b t4 = Ok () t5" "tx p t5 ?D ?H" "tx_frame ?t3 t5"
    "tx_logged t5 = insert ?a (tx_logged ?t3)"
    using lg.change [OF tx_lock_cycle [OF t2(2)], of ?a b "\<lambda>d. blk_put d (o' mod BSIZE) bs"] by (auto simp: on_data_def)
  obtain t6 where t6: "brelse b t5 = Ok () t6" "tx p t6 ?D (?H(?a := None))" "tx_frame t5 t6" "tx_logged t6 = tx_logged t5"
    using lg.rel_law [OF t5(3), of ?a b] t5(5) by auto
  have "?H(?a := None) = H" using a(1) by auto
  then have tx6: "tx p t6 ?D H" using t6(2) by simp
  have fr6: "tx_frame t1 t6" using lg.frame_trans [OF lg.frame_trans [OF fr3 t5(4)] t6(3)] .
  note w = evolves_write [OF e(1,2) ino_frame_tx [OF fr6] bn(2) refl t1(5) refl, where d = ?d]
  have ev: "evolves s B H i 2 t6 ?D j" using evolves_trans [OF g(1) w(1)] by simp
  have fd: "fdata ?D j x = (if x = o' div BSIZE then blk_put (fdata B i x) (o' mod BSIZE) bs else fdata B i x)" if "x < MAXFILE" for x
    using w(2) [OF that] g(2) [OF that] t1(5) bn(1) by (auto simp: fdata_def Let_def split: if_splits)
  have "fbyte ?D j x = (if o' \<le> x \<and> x < o' + m then bs ! (x - o') else fbyte B i x)" if "x < MAXFILE * BSIZE" for x
    using fbyte_put [OF fd _ length_fdata [OF tx] that] bs(2,3) by simp
  moreover have sl: "ino_slot ?D j (fslot (unat bn)) = ?a" by (rule w(3))
  moreover have "bmap ip bn s = Ok (ino_slot ?D j (fslot (unat bn))) t1" "bread 1 (ino_slot ?D j (fslot (unat bn))) t1 = Ok b t2" "ino_slot ?D j (fslot (unat bn)) \<noteq> 0"
    unfolding sl by (rule t1(1), rule t2(1), rule t1(5))
  moreover have "card (tx_logged t6) \<le> card (tx_logged s) + 6" unfolding t6(4) t5(5) using t1(6) t2(4) by (simp add: card_insert_if)
  moreover have "inodes t6 = (inodes s)(ip := j)" using tx_frame_fs(1) [OF fr6] t1(4) by simp
  moreover have "i_dev (inodes t1 ip) = 1" using t1(4) e(1) by (simp add: ino_wf_def)
  ultimately show ?thesis using t3 t5(1,2) t6(1) tx6 ev by blast
qed

lemma evolves_present:
  assumes "evolves s B H i c t D j" and "ino_slot B i (fslot bn) \<noteq> 0" and "bn < MAXFILE"
  shows "ino_slot D j (fslot bn) \<noteq> 0"
  using evolvesD(8) [OF assms(1) fslot_bounds(1) [OF assms(3)]] assms(2) by auto

lemma evolves_mono: "evolves s B H i c t D j \<Longrightarrow> c \<le> d \<Longrightarrow> evolves s B H i d t D j"
  by (auto simp: evolves_def Let_def)

lemma writei_loop_spec:
  fixes s :: "'x fs_state_scheme"
  assumes "tx p s B H" and "i = inodes s ip" and "ino_wf s B H i" and "fs_ok s B H" and "tot \<le> n" and "unat n \<le> length src"
    and "l = unat n - unat tot" and "unat off + l \<le> MAXFILE * BSIZE" and "c = nchunks (unat off) l" and "2 * c \<le> nfree (fs_sb s) B"
    and "card (tx_logged s) + card (dom H) + 6 * c < NBUF" "card (tx_logged s) + 6 * c \<le> tx_lim s" and "finite (dom H)"
  shows "\<exists>t D j. writei_loop ip (Kbuf src) off n tot s = Ok (off + (n - tot)) t \<and> tx p t D H \<and> evolves s B H i (2 * c) t D j \<and> inodes t = (inodes s)(ip := j) \<and>
    card (tx_logged t) \<le> card (tx_logged s) + 6 * c \<and>
    (\<forall>x<MAXFILE * BSIZE. fbyte D j x = (if unat off \<le> x \<and> x < unat off + l then src ! (unat tot + (x - unat off)) else fbyte B i x)) \<and>
    (\<forall>x. unat off \<le> x \<and> x < unat off + l \<longrightarrow> ino_slot D j (fslot (x div BSIZE)) \<noteq> 0)"
  using assms
proof (induction l arbitrary: s B i off tot c rule: less_induct)
  case (less l)
  note tx = less.prems(1) and i = less.prems(2) and wf = less.prems(3) and ok = less.prems(4) and l = less.prems(7) and max = less.prems(8) and c = less.prems(9)
    and free = less.prems(10) and cap = less.prems(11,12) and fin = less.prems(13)
  show ?case
  proof (cases "tot < n")
    case False
    then have "tot = n" using less.prems(5) by simp
    then have "writei_loop ip (Kbuf src) off n tot s = Ok (off + (n - tot)) s" "l = 0" using l by (simp_all add: writei_loop.simps)
    then show ?thesis using tx i evolves_mono [OF evolves_refl [OF wf ok], of "2 * c"]
      by (intro exI [of _ s] exI [of _ B] exI [of _ i]) auto
  next
    case True
    let ?m = "chunk_len n tot off" and ?bn = "off div of_nat BSIZE" and ?o = "unat off"
    have lt: "unat tot < unat n" using True by (simp add: word_less_nat_alt)
    note ch = chunk_len_nat [OF True, of off, OF max [unfolded l]]
    have l0: "0 < l" using l lt by simp
    have mm: "unat ?m = min l (BSIZE - ?o mod BSIZE)" using ch(1) l by simp
    have c1: "c = Suc (nchunks (?o + unat ?m) (l - unat ?m))" unfolding c by (rule nchunks_step [OF l0 mm])
    have bnl: "unat ?bn < MAXFILE" unfolding ch(5) by (rule less_mult_imp_div_less) (use max l0 in linarith)
    let ?bs = "take (unat ?m) (drop (unat tot) src)"
    have ml: "unat ?m \<le> l" unfolding mm by simp
    then have "unat ?m \<le> length src - unat tot" using less.prems(6) l by linarith
    then have lb: "length ?bs = unat ?m" by simp
    have om: "?o mod BSIZE + unat ?m \<le> BSIZE" using mm mod_less_divisor [of BSIZE ?o] by linarith
    have "2 \<le> nfree (fs_sb s) B" "card (tx_logged s) + card (dom H) + 5 < NBUF" "card (tx_logged s) + 5 < tx_lim s" using free cap c1 by simp_all
    then obtain t1 t2 t3 t4 t5 t6 b C k where w: "bmap ip ?bn s = Ok (ino_slot C k (fslot (unat ?bn))) t1" "i_dev (inodes t1 ip) = 1"
      "bread 1 (ino_slot C k (fslot (unat ?bn))) t1 = Ok b t2" "either_copyin (Kbuf src) (unat tot) (unat ?m) t2 = Ok (0, ?bs) t3"
      "on_data b (\<lambda>d. blk_put d (?o mod BSIZE) ?bs) t3 = Ok () t4" "log_write b t4 = Ok () t5" "brelse b t5 = Ok () t6" "tx p t6 C H" "evolves s B H i 2 t6 C k"
      "inodes t6 = (inodes s)(ip := k)" "card (tx_logged t6) \<le> card (tx_logged s) + 6"
      "\<And>x. x < MAXFILE * BSIZE \<Longrightarrow> fbyte C k x = (if ?o \<le> x \<and> x < ?o + unat ?m then ?bs ! (x - ?o) else fbyte B i x)" "ino_slot C k (fslot (unat ?bn)) \<noteq> 0"
      using writei_chunk [OF tx i wf ok ch(5) bnl refl lb om _ _ _ fin] by blast
    note e = evolvesD [OF w(9)] and f6 = ino_frame_same [OF evolvesD(3) [OF w(9)]]
    have step: "writei_loop ip (Kbuf src) off n tot s = writei_loop ip (Kbuf src) (off + ?m) n (tot + ?m) t6"
      using True w(1-7) by (subst writei_loop.simps) (simp add: bind_apply andthen_apply Let_def)
    let ?c = "nchunks (?o + unat ?m) (l - unat ?m)"
    have "\<exists>t D j. writei_loop ip (Kbuf src) (off + ?m) n (tot + ?m) t6 = Ok (off + ?m + (n - (tot + ?m))) t \<and> tx p t D H \<and> evolves t6 C H k (2 * ?c) t D j \<and>
      inodes t = (inodes t6)(ip := j) \<and> card (tx_logged t) \<le> card (tx_logged t6) + 6 * ?c \<and>
      (\<forall>x<MAXFILE * BSIZE. fbyte D j x = (if unat (off + ?m) \<le> x \<and> x < unat (off + ?m) + (l - unat ?m) then src ! (unat (tot + ?m) + (x - unat (off + ?m))) else fbyte C k x)) \<and>
      (\<forall>x. unat (off + ?m) \<le> x \<and> x < unat (off + ?m) + (l - unat ?m) \<longrightarrow> ino_slot D j (fslot (x div BSIZE)) \<noteq> 0)"
    proof (rule less.IH)
      show "l - unat ?m < l" using ch(4) l0 by simp
      show "tot + ?m \<le> n" unfolding word_le_nat_alt ch(3) using mm l lt by simp
      show "l - unat ?m = unat n - unat (tot + ?m)" unfolding ch(3) l by simp
      show "unat (off + ?m) + (l - unat ?m) \<le> MAXFILE * BSIZE" unfolding ch(2) using max mm by simp
      show "?c = nchunks (unat (off + ?m)) (l - unat ?m)" unfolding ch(2) by (rule refl)
      show "2 * ?c \<le> nfree (fs_sb t6) C" using free c1 e(5) f6(5) by simp
      show "card (tx_logged t6) + card (dom H) + 6 * ?c < NBUF" "card (tx_logged t6) + 6 * ?c \<le> tx_lim t6" using cap c1 w(11) f6(2) by simp_all
      show "k = inodes t6 ip" using w(10) by simp
    qed (use w(8) e(1,2) fin less.prems(6) in simp_all)
    moreover have eo: "?o + unat ?m + (l - unat ?m) = ?o + l" using ml by simp
    ultimately obtain t D j where t: "writei_loop ip (Kbuf src) (off + ?m) n (tot + ?m) t6 = Ok (off + ?m + (n - (tot + ?m))) t" "tx p t D H" "evolves t6 C H k (2 * ?c) t D j"
      "inodes t = (inodes t6)(ip := j)" "card (tx_logged t) \<le> card (tx_logged t6) + 6 * ?c"
      "\<forall>x<MAXFILE * BSIZE. fbyte D j x = (if ?o + unat ?m \<le> x \<and> x < ?o + l then src ! (unat tot + unat ?m + (x - (?o + unat ?m))) else fbyte C k x)"
      "\<forall>x. ?o + unat ?m \<le> x \<and> x < ?o + l \<longrightarrow> ino_slot D j (fslot (x div BSIZE)) \<noteq> 0"
      unfolding ch(2,3) eo by (elim exE conjE) (rule that; assumption)
    have r1: "writei_loop ip (Kbuf src) off n tot s = Ok (off + (n - tot)) t" using step t(1) by simp
    have r2: "evolves s B H i (2 * c) t D j" using evolves_trans [OF w(9) t(3)] c1 by simp
    have r3: "fbyte D j x = (if ?o \<le> x \<and> x < ?o + l then src ! (unat tot + (x - ?o)) else fbyte B i x)" if x: "x < MAXFILE * BSIZE" for x
    proof (cases "?o + unat ?m \<le> x \<and> x < ?o + l")
      case True
      then show ?thesis using t(6) [rule_format, OF x] by simp
    next
      case False
      moreover have "?bs ! (x - ?o) = src ! (unat tot + (x - ?o))" if "?o \<le> x" "x < ?o + unat ?m"
        using that less.prems(6) lb by simp
      ultimately show ?thesis using t(6) [rule_format, OF x] w(12) [OF x] ml by auto
    qed
    have r4: "ino_slot D j (fslot (x div BSIZE)) \<noteq> 0" if x: "?o \<le> x" "x < ?o + l" for x
    proof (cases "?o + unat ?m \<le> x")
      case True
      then show ?thesis using t(7) x(2) by simp
    next
      case False
      then have "?o mod BSIZE + (x - ?o) < BSIZE" using om x(1) by linarith
      then have "x div BSIZE = unat ?bn" using div_mod_inside(1) [of ?o BSIZE "x - ?o"] x(1) ch(5) by simp
      then show ?thesis using evolves_present [OF t(3) w(13) bnl] by simp
    qed
    have "inodes t = (inodes s)(ip := j)" using t(4) w(10) by simp
    moreover have "card (tx_logged t) \<le> card (tx_logged s) + 6 * c" using t(5) w(11) c1 by simp
    ultimately show ?thesis using r1 r2 r3 r4 t(2) by blast
  qed
qed

lemma unat_no_wrap: "unat (a :: u32) + unat b \<le> c \<Longrightarrow> c < 2 ^ 32 \<Longrightarrow> unat (a + b) = unat a + unat b"
  by (subst unat_add_lem [THEN iffD1]) simp_all

lemma readi_spec:
  fixes s :: "'x fs_state_scheme"
  assumes tx: "tx p s B H" and i: "i = inodes s ip" and wf: "ino_wf s B H i" and pres: "fpresent B i (unat (i_size i))" and len: "unat off + unat n \<le> unat (i_size i)"
    and cap: "card (tx_logged s) + card (dom H) < NBUF"
  shows "\<exists>t. readi ip False dst off n s = Ok (n, map (fbyte B i) [unat off..<unat off + unat n]) t \<and> tx p t B H \<and> tx_frame s t \<and> tx_logged t = tx_logged s"
proof -
  have u: "unat (off + n) = unat off + unat n" using unat_no_wrap [OF len] unsigned_less [of "i_size i"] by simp
  have "readi ip False dst off n s = readi_loop ip False dst off n 0 [] s"
    using len u i by (simp add: readi_def bind_apply word_less_nat_alt)
  moreover have "fpresent B i (unat off + (unat n - unat (0 :: u32)))" using pres len by (simp add: fpresent_def)
  ultimately show ?thesis using readi_loop_spec [OF tx i wf _ _ cap, of 0 n off dst "[]"] by simp
qed

text \<open>The block of the inode itself is none of the blocks of its file.\<close>

definition ino_home :: "'x fs_state_scheme \<Rightarrow> (u32 \<Rightarrow> byte list) \<Rightarrow> (u32 \<Rightarrow> nat option) \<Rightarrow> inode \<Rightarrow> u32 \<Rightarrow> bool" where
  "ino_home s B H i n \<longleftrightarrow> n = IBLOCK (i_inum i) (fs_sb s) \<and> blk_mine s B H n \<and> n \<notin> set (ino_list B i)"

lemma evolves_home:
  assumes "evolves s B H i c t D j" and "ino_home s B H i n"
  shows "ino_home t D H j n"
proof -
  note e = evolvesD [OF assms(1)] and f = ino_frame_same [OF evolvesD(3) [OF assms(1)]]
  have "i_inum j = i_inum i" by (subst e(4)) simp
  then show ?thesis using assms(2) e(6) e(9) f(3,5) by (auto simp: ino_home_def blk_mine_def)
qed

text \<open>Writing the inode back changes nothing of the file.\<close>

lemma home_update:
  fixes s :: "'x fs_state_scheme"
  assumes wf: "ino_wf s B H i" and ok: "fs_ok s B H" and home: "ino_home s B H i n" and fr: "ino_frame s t" and D: "D = B(n := d)"
  shows "ino_wf t D H (i\<lparr>i_size := z\<rparr>)" "fs_ok t D H" "ino_slot D (i\<lparr>i_size := z\<rparr>) = ino_slot B i" "fbyte D (i\<lparr>i_size := z\<rparr>) x = fbyte B i x \<or> MAXFILE * BSIZE \<le> x"
    "ino_home t D H (i\<lparr>i_size := z\<rparr>) n"
proof -
  let ?sb = "fs_sb s" and ?i = "i\<lparr>i_size := z\<rparr>"
  note f = ino_frame_same [OF fr]
  have n: "n \<notin> bm_blocks ?sb" "n \<notin> set (ino_list B i)" "unat n < unat (sb_size ?sb)" "blk_used ?sb B (unat n)" using home unfolding ino_home_def blk_mine_def by blast+
  have bu: "blk_used ?sb D y = blk_used ?sb B y" if "y < unat (sb_size ?sb)" for y
    using that n(1) unfolding D by (rule blk_used_other [rotated])
  have "n \<noteq> 0 \<Longrightarrow> ino_slot B i NDIRECT \<noteq> n" using n(2) unfolding ino_list_iff by (auto dest: spec [of _ "12 :: nat"])
  then have "i_addrs i NDIRECT \<noteq> 0 \<Longrightarrow> D (i_addrs i NDIRECT) = B (i_addrs i NDIRECT)" unfolding D by (auto simp: ino_slot_def)
  then show sl: "ino_slot D ?i = ino_slot B i" by (intro ext) (simp add: ino_slot_def)
  have l: "ino_list D ?i = ino_list B i" unfolding ino_list_slots sl by (rule refl)
  have bm: "blk_mine t D H m = blk_mine s B H m" for m
    using bu [of "unat m"] by (cases "unat m < unat (sb_size ?sb)") (simp_all add: blk_mine_def f(3,5))
  show "ino_wf t D H ?i" using wf unfolding ino_wf_def l bm by simp
  show "fs_ok t D H" using ok bu f(3,5) by (simp add: fs_ok_def bm_ok_def Let_def word_less_nat_alt)
  show "ino_home t D H ?i n" using home unfolding ino_home_def l bm by (auto simp: f(5))
  show "fbyte D ?i x = fbyte B i x \<or> MAXFILE * BSIZE \<le> x"
  proof (cases "x < MAXFILE * BSIZE")
    case True
    then have "x div BSIZE < MAXFILE" by (intro less_mult_imp_div_less) simp
    then have "ino_slot B i (fslot (x div BSIZE)) \<noteq> 0 \<Longrightarrow> ino_slot B i (fslot (x div BSIZE)) \<noteq> n"
      using n(2) fslot_bounds(1) [of "x div BSIZE"] unfolding ino_list_iff by metis
    then show ?thesis unfolding fbyte_def fdata_def Let_def sl by (simp add: D)
  qed simp
qed

section \<open>Properties\<close>

text \<open>Everything the code relies on in a file: its blocks and its inode are its own, and it has no holes.\<close>

definition file_ok :: "'x fs_state_scheme \<Rightarrow> (u32 \<Rightarrow> byte list) \<Rightarrow> (u32 \<Rightarrow> nat option) \<Rightarrow> inode \<Rightarrow> bool" where
  "file_ok s B H i \<longleftrightarrow> fs_ok s B H \<and> ino_wf s B H i \<and> ino_home s B H i (IBLOCK (i_inum i) (fs_sb s)) \<and> fpresent B i (unat (i_size i)) \<and> finite (dom H)"

lemma writei_spec:
  fixes s :: "'x fs_state_scheme"
  assumes tx: "tx p s B H" and i: "i = inodes s ip" and ok: "file_ok s B H i" and off: "off \<le> i_size i" and n: "0 < n" "unat n \<le> length src"
    and max: "unat off + unat n \<le> MAXFILE * BSIZE" and c: "c = nchunks (unat off) (unat n)" and free: "2 * c \<le> nfree (fs_sb s) B"
    and cap: "card (tx_logged s) + card (dom H) + 6 * c < NBUF" "card (tx_logged s) + 6 * c < tx_lim s"
  shows "\<exists>t D j. writei ip (Kbuf src) off n s = Ok (int (unat n)) t \<and> tx p t D H \<and> inodes t = (inodes s)(ip := j) \<and> file_ok t D H j \<and>
    unat (i_size j) = max (unat (i_size i)) (unat off + unat n) \<and> j = i\<lparr>i_addrs := i_addrs j, i_size := i_size j\<rparr> \<and> ino_frame s t \<and> card (tx_logged t) \<le> card (tx_logged s) + 6 * c + 1 \<and>
    (\<forall>x<unat (i_size j). fbyte D j x = (if unat off \<le> x \<and> x < unat off + unat n then src ! (x - unat off) else fbyte B i x)) \<and>
    (\<forall>m. m \<noteq> IBLOCK (i_inum i) (fs_sb s) \<and> unat m < unat (sb_size (fs_sb s)) \<and> blk_used (fs_sb s) B (unat m) \<and> m \<notin> bm_blocks (fs_sb s) \<and> m \<notin> set (ino_list B i) \<longrightarrow> D m = B m) \<and>
    (\<forall>l. dfields (load_dinode (D (IBLOCK (i_inum i) (fs_sb s))) (dinode_off (i_inum i)) l) = dfields j)"
proof -
  let ?e = "off + n" and ?n = "IBLOCK (i_inum i) (fs_sb s)"
  have wf: "ino_wf s B H i" and fs: "fs_ok s B H" and home: "ino_home s B H i ?n" and pres: "fpresent B i (unat (i_size i))" and fin: "finite (dom H)"
    using ok by (simp_all add: file_ok_def)
  have u: "unat ?e = unat off + unat n" using unat_no_wrap [OF max] by simp
  have g: "\<not> (off > i_size i \<or> ?e < off)" "\<not> ?e > of_nat (MAXFILE * BSIZE)" using off u max by (simp_all add: word_less_nat_alt word_le_nat_alt not_less)
  obtain t C k where t: "writei_loop ip (Kbuf src) off n 0 s = Ok ?e t" "tx p t C H" "evolves s B H i (2 * c) t C k" "inodes t = (inodes s)(ip := k)"
    "card (tx_logged t) \<le> card (tx_logged s) + 6 * c"
    "\<forall>x<MAXFILE * BSIZE. fbyte C k x = (if unat off \<le> x \<and> x < unat off + unat n then src ! (x - unat off) else fbyte B i x)"
    "\<forall>x. unat off \<le> x \<and> x < unat off + unat n \<longrightarrow> ino_slot C k (fslot (x div BSIZE)) \<noteq> 0"
    using writei_loop_spec [where tot = 0 and l = "unat n" and off = off and c = c, OF tx i wf fs _ n(2), unfolded unsigned_0 add_0 diff_zero] max c free cap fin
    by (simp del: fun_upd_apply) blast
  note e = evolvesD [OF t(3)] and f = ino_frame_same [OF evolvesD(3) [OF t(3)]]
  let ?z = "if ?e > i_size k then ?e else i_size k"
  let ?j = "k\<lparr>i_size := ?z\<rparr>"
  have same: "i_size k = i_size i" "i_inum k = i_inum i" "i_dev k = i_dev i" by (subst e(4), simp)+
  have jz: "(if ?e > i_size k then k\<lparr>i_size := ?e\<rparr> else k) = ?j" by simp
  let ?t = "t\<lparr>inodes := (inodes t)(ip := ?j)\<rparr>"
  have run: "writei ip (Kbuf src) off n s = bind (iupdate ip) (\<lambda>_. ret (sint n)) ?t"
    using g t(1,4) n(1) jz i by (simp add: writei_def bind_apply andthen_apply on_ino_def)
  have fr: "ino_frame s ?t" using ino_frame_trans [OF e(3)] by simp
  have home1: "ino_home t C H k ?n" by (rule evolves_home [OF t(3) home])
  then have "blk_mine t C H ?n" unfolding ino_home_def by blast
  then have nn: "H ?n = None" "tx_legal ?t ?n" by (simp_all add: blk_mine_def)
  have in1: "inodes ?t ip = ?j" "?n = IBLOCK (i_inum (inodes ?t ip)) (fs_sb ?t)" using f(5) same by simp_all
  have "i_dev (inodes ?t ip) = 1" using wf same by (simp add: ino_wf_def)
  moreover have "card (tx_logged ?t) + card (dom H) < NBUF" "card (tx_logged ?t) < tx_lim ?t" using cap t(5) f(2) by simp_all
  ultimately obtain v where v: "iupdate ip ?t = Ok () v" "tx p v (C(?n := iput_bytes ?j (C ?n))) H" "tx_frame ?t v" "tx_logged v = insert ?n (tx_logged ?t)"
    using iupdate_spec [of p ?t C H ip ?n] t(2) nn in1 by auto
  let ?D = "C(?n := iput_bytes ?j (C ?n))"
  have frv: "ino_frame t v" using ino_frame_trans [OF _ ino_frame_tx [OF v(3)], of t] by simp
  note h = home_update(1,3,4,5) [OF e(1,2) home1 frv refl, where z = ?z] and h2 = home_update(2) [OF e(1,2) home1 frv refl]
  have zz: "unat ?z = max (unat (i_size i)) (unat off + unat n)" using u same(1) by (simp add: word_less_nat_alt max_def)
  have "ino_slot ?D ?j (fslot (x div BSIZE)) \<noteq> 0" if "x < unat ?z" for x
  proof (cases "x < unat (i_size i)")
    case True
    then have "ino_slot B i (fslot (x div BSIZE)) \<noteq> 0" "x div BSIZE < MAXFILE" using pres by (auto simp: fpresent_def intro!: less_mult_imp_div_less)
    then show ?thesis unfolding h(2) by (rule evolves_present [OF t(3)])
  next
    case False
    then show ?thesis using that zz off t(7) unfolding h(2) by (simp add: word_le_nat_alt)
  qed
  moreover have zm: "unat ?z \<le> MAXFILE * BSIZE" using zz pres max by (simp add: fpresent_def)
  ultimately have "fpresent ?D ?j (unat (i_size ?j))" by (simp add: fpresent_def)
  moreover have "ino_home v ?D H ?j (IBLOCK (i_inum ?j) (fs_sb v))"
    using h(4) ino_frame_same(5) [OF ino_frame_tx [OF v(3)]] in1(2) by simp
  ultimately have fok: "file_ok v ?D H ?j" using h(1) h2 fin by (simp add: file_ok_def)
  have byt: "\<forall>x<unat (i_size ?j). fbyte ?D ?j x = (if unat off \<le> x \<and> x < unat off + unat n then src ! (x - unat off) else fbyte B i x)"
  proof (intro allI impI)
    fix x assume "x < unat (i_size ?j)"
    then have x: "x < MAXFILE * BSIZE" using zm by simp
    then have "fbyte ?D ?j x = fbyte C k x" using h(3) [where x = x] by (meson not_le)
    then show "fbyte ?D ?j x = (if unat off \<le> x \<and> x < unat off + unat n then src ! (x - unat off) else fbyte B i x)" using t(6) [rule_format, OF x] by (simp only:)
  qed
  have oth: "\<forall>m. m \<noteq> ?n \<and> unat m < unat (sb_size (fs_sb s)) \<and> blk_used (fs_sb s) B (unat m) \<and> m \<notin> bm_blocks (fs_sb s) \<and> m \<notin> set (ino_list B i) \<longrightarrow> ?D m = B m"
    using e(7) by simp
  have "length (C ?n) = BSIZE" by (rule lg.len_law [OF t(2)])
  then have df: "\<forall>l. dfields (load_dinode (?D ?n) (dinode_off (i_inum i)) l) = dfields ?j" using load_dinode_put [of "C ?n" "i_inum i" ?j] same by (simp add: iput_bytes_def)
  have "sint n = int (unat n)" using max by (intro sint_small) simp
  then have "writei ip (Kbuf src) off n s = Ok (int (unat n)) v" unfolding run using v(1) by (simp add: bind_apply)
  moreover have "inodes v = (inodes s)(ip := ?j)" using tx_frame_fs(1) [OF v(3)] t(4) by simp
  moreover have "card (tx_logged v) \<le> card (tx_logged s) + 6 * c + 1" unfolding v(4) using t(5) by (simp add: card_insert_if)
  moreover have "ino_frame s v" using ino_frame_trans [OF fr ino_frame_tx [OF v(3)]] .
  moreover have "unat (i_size ?j) = max (unat (i_size i)) (unat off + unat n)" using zz by simp
  moreover have "?j = i\<lparr>i_addrs := i_addrs ?j, i_size := i_size ?j\<rparr>" by (subst e(4)) simp
  ultimately show ?thesis using v(2) fok byt oth df by blast
qed


lemma fs_st1_file: "file_ok fs_st1 fs_B0 Map.empty fs_ino0" "50 \<le> nfree fs_sb0 fs_B0" "fbyte fs_B0 fs_ino0 98 = 0" "fbyte fs_B0 fs_ino0 99 = 0"
proof -
  note f = fs_st1_facts
  have N: "unat (sb_size fs_sb0) = 100" by (simp add: fs_sb0_def)
  have bm: "bm_ok fs_st1 fs_B0 Map.empty" using fs_st0_bm(6) by (simp add: bm_ok_def fs_st1_def)
  have h: "IBLOCK (i_inum fs_ino0) fs_sb0 = 33" by (simp add: IBLOCK_def fs_ino0_def fs_sb0_def)
  have sl: "ino_slot fs_B0 fs_ino0 0 = 49" by (simp add: ino_slot_def fs_ino0_def)
  have z: "fs_B0 49 = replicate BSIZE 0" by (simp add: fs_B0_def)
  have fp: "fpresent fs_B0 fs_ino0 100" using sl by (simp add: fpresent_def fslot_def)
  have "unat (i_size fs_ino0) = 100" by (simp add: fs_ino0_def)
  then show "file_ok fs_st1 fs_B0 Map.empty fs_ino0"
    using fs_st0_bm(2) [of 0] fs_st0_bm(2) [of 33] bm f fp
    by (simp add: file_ok_def fs_ok_def ino_home_def blk_mine_def h N) (simp add: fs_sb0_def)
  have "{y. y < 100 \<and> \<not> blk_used fs_sb0 fs_B0 y} = {50..<100}" using fs_st0_bm(2) by auto
  then show "50 \<le> nfree fs_sb0 fs_B0" by (simp add: nfree_def N)
  show "fbyte fs_B0 fs_ino0 98 = 0" "fbyte fs_B0 fs_ino0 99 = 0" by (simp_all add: fbyte_def fdata_def Let_def fslot_def sl z)
qed


end
