(* ===== verification/Fs_Path.thy ===== *)
theory Fs_Path
  imports Fs
begin

text \<open>
  Path names of \<open>kernel/fs.c\<close>: \<open>skipelem\<close> and the loop of \<open>namex\<close> against a reference that first splits the
  path at its slashes and then follows the list of names.\<close>

section \<open>The reference\<close>

fun path_split :: "byte list \<Rightarrow> byte list list" where
  "path_split [] = [[]]"
| "path_split (c # cs) =
     (if c = SLASH then [] # path_split cs
      else case path_split cs of [] \<Rightarrow> [[c]] | e # es \<Rightarrow> (c # e) # es)"

definition path_names :: "byte list \<Rightarrow> byte list list" where
  "path_names path = filter (\<lambda>e. e \<noteq> []) (path_split path)"

text \<open>The name of a directory entry: at most \<open>DIRSIZ\<close> bytes, up to a zero.\<close>

definition dirname :: "byte list \<Rightarrow> byte list" where
  "dirname e = cstring (cstr e) DIRSIZ"

fun follow :: "nat \<Rightarrow> byte list list \<Rightarrow> (nat option, 'x fs_state_scheme) kop" where
  "follow ip [] = ret (Some ip)"
| "follow ip (e # es) =
     andthen (ilock (Some ip)) (
     bind (gets (\<lambda>s. i_type (inodes s ip))) (\<lambda>t.
     if t \<noteq> T_DIR then andthen (iunlockput ip) (ret None)
     else
       bind (dirlookup ip (dirname e)) (\<lambda>r.
       andthen (iunlockput ip) (
       case r of None \<Rightarrow> ret None | Some (nxt, off) \<Rightarrow> follow nxt es))))"

definition follow_parent :: "nat \<Rightarrow> byte list list \<Rightarrow> ((nat \<times> byte list) option, 'x fs_state_scheme) kop" where
  "follow_parent ip es =
     (if es = [] then andthen (iput ip) (ret None)
      else
        bind (follow ip (butlast es)) (\<lambda>r.
        case r of
          None \<Rightarrow> ret None
        | Some dp \<Rightarrow>
            andthen (ilock (Some dp)) (
            bind (gets (\<lambda>s. i_type (inodes s dp))) (\<lambda>t.
            if t \<noteq> T_DIR then andthen (iunlockput dp) (ret None)
            else andthen (iunlock (Some dp)) (ret (Some (dp, dirname (last es))))))))"

definition path_start :: "byte list \<Rightarrow> (nat, 'x fs_state_scheme) kop" where
  "path_start path =
     (if path \<noteq> [] \<and> hd path = SLASH then iget ROOTDEV ROOTINO
      else
        bind curproc (\<lambda>p.
        bind (gets (\<lambda>s. p_cwd (procs s p))) (\<lambda>cwd.
        case cwd of None \<Rightarrow> panic ''kerneltrap'' | Some ip \<Rightarrow> idup ip)))"

section \<open>Splitting\<close>

lemma path_split_not_Nil [simp]: "path_split p \<noteq> []"
  by (cases p) (auto split: list.splits)

lemma path_split_elem:
  "path_split p = takeWhile (\<lambda>c. c \<noteq> SLASH) p #
     (case dropWhile (\<lambda>c. c \<noteq> SLASH) p of [] \<Rightarrow> [] | c # cs \<Rightarrow> path_split cs)"
  by (induction p) (auto split: list.splits)

lemma path_names_dropSlash [simp]: "path_names (dropWhile (\<lambda>c. c = SLASH) p) = path_names p"
  by (induction p) (simp_all add: path_names_def)

lemma path_names_Cons:
  assumes "p \<noteq> []" and "hd p \<noteq> SLASH"
  shows "path_names p = takeWhile (\<lambda>c. c \<noteq> SLASH) p # path_names (dropWhile (\<lambda>c. c \<noteq> SLASH) p)"
proof -
  define d where "d = dropWhile (\<lambda>c. c \<noteq> SLASH) p"
  have hd: "d \<noteq> [] \<Longrightarrow> hd d = SLASH" using hd_dropWhile [of "\<lambda>c. c \<noteq> SLASH" p] unfolding d_def by blast
  have ne: "takeWhile (\<lambda>c. c \<noteq> SLASH) p \<noteq> []" using assms by (cases p) auto
  have "filter (\<lambda>e. e \<noteq> []) (case d of [] \<Rightarrow> [] | c # cs \<Rightarrow> path_split cs) = path_names d"
    using hd by (cases d) (auto simp: path_names_def)
  then show ?thesis using ne unfolding path_names_def [of p] by (subst path_split_elem) (simp add: d_def)
qed

lemma path_names_Nil_iff: "path_names p = [] \<longleftrightarrow> dropWhile (\<lambda>c. c = SLASH) p = []"
proof -
  define d where "d = dropWhile (\<lambda>c. c = SLASH) p"
  have "path_names d = [] \<longleftrightarrow> d = []"
    using hd_dropWhile [of "\<lambda>c. c = SLASH" p] path_names_Cons [of d] by (cases "d = []") (auto simp: d_def [symmetric] path_names_def)
  then show ?thesis by (simp add: d_def)
qed

lemma skipelem_names:
  "case path_names path of
     [] \<Rightarrow> skipelem path name = None
   | e # es \<Rightarrow> \<exists>rest. skipelem path name = Some (rest, set_name name e) \<and> path_names rest = es \<and> (rest = [] \<longleftrightarrow> es = [])"
proof -
  define d where "d = dropWhile (\<lambda>c. c = SLASH) path"
  have n: "path_names path = path_names d" by (simp add: d_def)
  show ?thesis
  proof (cases "d = []")
    case True
    then show ?thesis unfolding n by (simp add: skipelem_def d_def [symmetric] path_names_def)
  next
    case False
    then have "hd d \<noteq> SLASH" using hd_dropWhile [of "\<lambda>c. c = SLASH" path] by (simp add: d_def)
    note c = path_names_Cons [OF False this]
    show ?thesis unfolding n c using False path_names_Nil_iff
      by (simp add: skipelem_def d_def [symmetric] Let_def)
  qed
qed

lemma cstr_Cons [simp]: "cstr (c # cs) 0 = c" "(\<lambda>i. cstr (c # cs) (Suc i)) = cstr cs" "cstr [] i = 0"
  by (auto simp: cstr_def)

lemma cstring_cstr: "cstring (cstr e) n = takeWhile (\<lambda>c. c \<noteq> 0) (take n e)"
proof (induction n arbitrary: e)
  case (Suc n)
  then show ?case by (cases e) (simp_all add: cstring_Suc)
qed simp

lemma dirname_eq: "dirname e = takeWhile (\<lambda>c. c \<noteq> 0) (take DIRSIZ e)"
  by (simp only: dirname_def cstring_cstr)

lemma takeWhile_nul: "takeWhile (\<lambda>c. c \<noteq> 0) (e @ 0 # xs) = takeWhile (\<lambda>c. c \<noteq> (0 :: byte)) e"
  by (induction e) auto

lemma dirname_set_name [simp]: "dirname (set_name name e) = dirname e"
proof (cases "length e \<ge> DIRSIZ")
  case False
  then obtain k where "DIRSIZ = length e + Suc k" by (metis less_imp_Suc_add not_le add_Suc_right)
  then have "DIRSIZ - length e = Suc k" by simp
  then have "take DIRSIZ (set_name name e) = e @ 0 # take k (drop (length e + 1) name)" using False by (simp add: set_name_def)
  then show ?thesis using False unfolding dirname_eq by (simp add: takeWhile_nul)
qed (simp add: dirname_eq set_name_def)

lemma dirname_dirname [simp]: "dirname (dirname e) = dirname e"
proof -
  have "length (dirname e) \<le> DIRSIZ" unfolding dirname_def by (rule length_cstring)
  then have "take DIRSIZ (dirname e) = dirname e" by simp
  then show ?thesis unfolding dirname_eq by (auto simp: takeWhile_eq_all_conv dest: set_takeWhileD)
qed

lemma namecmp_zero_iff: "namecmp n m = 0 \<longleftrightarrow> dirname n = dirname m"
  by (simp add: namecmp_def dirname_def strncmp_zero_iff)

lemma dirlookup_loop_name:
  assumes "dirname n = dirname m"
  shows "dirlookup_loop dp n off s = dirlookup_loop dp m off s"
  using assms
proof (induction dp n off s rule: dirlookup_loop.induct)
  case (1 dp name off s)
  show ?case
  proof (cases "off < i_size (inodes s dp)")
    case True
    show ?thesis
    proof (cases "readi dp False 0 off 16 s")
      case (Ok r t)
      have "fst r = 16 \<Longrightarrow> (rd16 (snd r) 0 = 0 \<or> namecmp name (drop 2 (snd r)) \<noteq> 0) \<Longrightarrow> dirlookup_loop dp name (off + 16) t = dirlookup_loop dp m (off + 16) t"
        using 1 True Ok by (cases r; cases "rd16 (snd r) 0 = 0") auto
      then show ?thesis using True Ok 1(3)
        by (subst (1 2) dirlookup_loop.simps) (auto simp: andthen_apply namecmp_zero_iff)
    qed (use True in \<open>simp_all add: dirlookup_loop.simps bind_apply\<close>)
  qed (simp add: dirlookup_loop.simps)
qed

lemma dirlookup_name: "dirname n = dirname m \<Longrightarrow> dirlookup dp n = dirlookup dp m"
  by (intro ext) (simp add: dirlookup_def bind_apply andthen_apply dirlookup_loop_name [of n m])

lemma bind_andthen: "bind (andthen a b) f = andthen a (bind b f)"
  by (intro ext) (auto simp: bind_apply andthen_apply split: res.splits)

lemma bind_if: "bind (if c then a else b) f = (if c then bind a f else bind b f)"
  by simp

lemma bind_option: "bind (case q of None \<Rightarrow> m | Some z \<Rightarrow> k z) f = (case q of None \<Rightarrow> bind m f | Some z \<Rightarrow> bind (k z) f)"
  by (simp split: option.splits)

lemma bind_ret: "bind (ret x) f = f x"
  by (intro ext) simp

lemma andthen_option: "(case q of None \<Rightarrow> andthen a m | Some z \<Rightarrow> andthen a (k z)) = andthen a (case q of None \<Rightarrow> m | Some z \<Rightarrow> k z)"
  by (simp split: option.splits)

lemmas bind_laws = bind_andthen bind_if bind_option bind_ret bind_assoc andthen_option

lemma namex_follow: "(bind (namex_loop ip path False name) (\<lambda>r. ret (fst r)) :: (nat option, 'x fs_state_scheme) kop) = follow ip (path_names path)"
proof (induction "path_names path" arbitrary: ip path name)
  case Nil
  then show ?case using skipelem_names [of path name] by (simp add: namex_loop.simps bind_laws del: ret_apply)
next
  case (Cons e es)
  obtain rest where r: "skipelem path name = Some (rest, set_name name e)" "path_names rest = es"
    using skipelem_names [of path name] Cons(2) [symmetric] by auto
  have d: "dirlookup ip (set_name name e) = dirlookup ip (dirname e)" by (rule dirlookup_name) simp
  have "(bind (namex_loop nxt rest False (set_name name e)) (\<lambda>r. ret (fst r)) :: (nat option, 'x fs_state_scheme) kop) = follow nxt es" for nxt
    using Cons(1) [OF r(2) [symmetric]] r(2) by simp
  then show ?case unfolding Cons(2) [symmetric]
    by (subst namex_loop.simps) (simp add: r bind_laws d split_def del: ret_apply cong: if_cong option.case_cong)
qed


text \<open>What a caller of \<open>nameiparent\<close> sees: the directory with the name left in its buffer.\<close>

definition parent_result :: "nat option \<times> byte list \<Rightarrow> (nat \<times> byte list) option" where
  "parent_result r = (case fst r of None \<Rightarrow> None | Some dp \<Rightarrow> Some (dp, dirname (snd r)))"

lemma parent_result_simps [simp]: "parent_result (None, n) = None" "parent_result (Some dp, n) = Some (dp, dirname n)"
  by (simp_all add: parent_result_def)

lemma namex_follow_parent:
  "(bind (namex_loop ip path True name) (\<lambda>r. ret (parent_result r)) :: ((nat \<times> byte list) option, 'x fs_state_scheme) kop) = follow_parent ip (path_names path)"
proof (induction "path_names path" arbitrary: ip path name)
  case Nil
  then show ?case using skipelem_names [of path name] by (simp add: namex_loop.simps bind_laws follow_parent_def del: ret_apply)
next
  case (Cons e es)
  obtain rest where r: "skipelem path name = Some (rest, set_name name e)" "path_names rest = es" "rest = [] \<longleftrightarrow> es = []"
    using skipelem_names [of path name] Cons(2) [symmetric] by auto
  have d: "dirlookup ip (set_name name e) = dirlookup ip (dirname e)" by (rule dirlookup_name) simp
  have ih: "(bind (namex_loop nxt rest True (set_name name e)) (\<lambda>r. ret (parent_result r)) :: ((nat \<times> byte list) option, 'x fs_state_scheme) kop) = follow_parent nxt es" for nxt
    using Cons(1) [OF r(2) [symmetric]] r(2) by simp
  show ?case unfolding Cons(2) [symmetric]
    using ih by (subst namex_loop.simps, cases es)
      (simp_all add: r d follow_parent_def bind_laws split_def del: ret_apply cong: if_cong option.case_cong)
qed


section \<open>Properties\<close>

text \<open>
  C13: path resolution equals its reference. \<open>namei\<close>, which cuts one element after the other off the path into a
  name buffer it reuses, does in every state what following the list of the names between the slashes does, each cut to
  \<open>DIRSIZ\<close> bytes: the same locks, lookups and releases, and the same result. \<open>nameiparent\<close> follows all but the
  last name, leaves the last one in the caller's buffer, and fails for a path without names.\<close>

theorem namei_follows_names:
  "(namei path :: (nat option, 'x fs_state_scheme) kop) = bind (path_start path) (\<lambda>ip. follow ip (path_names path)) \<and>
   (bind (nameiparent path name) (\<lambda>r. ret (parent_result r)) :: ((nat \<times> byte list) option, 'x fs_state_scheme) kop) =
     bind (path_start path) (\<lambda>ip. follow_parent ip (path_names path))"
  by (simp only: namei_def nameiparent_def namex_def path_start_def bind_assoc namex_follow namex_follow_parent)

end
