(* ===== verification/Fs_Dir.thy ===== *)
theory Fs_Dir
  imports Fs_File Fs_Path
begin

text \<open>
  Laws of the directories of \<open>kernel/fs.c\<close>: the entries in the content of a directory are a finite map from names to inode
  numbers (\<open>dmap\<close>), \<open>dirlookup\<close> reads that map and \<open>dirlink\<close> extends it.\<close>

section \<open>Entries\<close>

definition dentry :: "(u32 \<Rightarrow> byte list) \<Rightarrow> inode \<Rightarrow> nat \<Rightarrow> byte list" where
  "dentry B i k = map (fbyte B i) [16 * k..<16 * k + 16]"

abbreviation dsize :: "inode \<Rightarrow> nat" where
  "dsize i \<equiv> unat (i_size i) div 16"

definition dmatch :: "byte list \<Rightarrow> byte list \<Rightarrow> bool" where
  "dmatch name e \<longleftrightarrow> rd16 e 0 \<noteq> 0 \<and> dirname name = dirname (drop 2 e)"

definition dmap :: "(u32 \<Rightarrow> byte list) \<Rightarrow> inode \<Rightarrow> byte list \<Rightarrow> u16 option" where
  "dmap B i name = map_option (\<lambda>k. rd16 (dentry B i k) 0) (find (\<lambda>k. dmatch name (dentry B i k)) [0..<dsize i])"

definition dir_ok :: "'x fs_state_scheme \<Rightarrow> (u32 \<Rightarrow> byte list) \<Rightarrow> (u32 \<Rightarrow> nat option) \<Rightarrow> inode \<Rightarrow> bool" where
  "dir_ok s B H i \<longleftrightarrow> file_ok s B H i \<and> i_type i = T_DIR \<and> 16 dvd unat (i_size i)"

lemma dsize_mult: "16 dvd unat (i_size i) \<Longrightarrow> 16 * dsize i = unat (i_size i)"
  by simp

lemma read_entry:
  fixes s :: "'x fs_state_scheme"
  assumes "tx p s B H" and "i = inodes s dp" and "ino_wf s B H i" and "fpresent B i (unat (i_size i))" and "16 dvd unat (i_size i)" and "k < dsize i"
    and "card (tx_logged s) + card (dom H) < NBUF"
  shows "\<exists>t. readi dp False 0 (of_nat (16 * k)) 16 s = Ok (16, dentry B i k) t \<and> tx p t B H \<and> tx_frame s t \<and> tx_logged t = tx_logged s"
    and "(of_nat (16 * k) :: u32) < i_size i" and "of_nat (16 * k) + (16 :: u32) = of_nat (16 * Suc k)"
proof -
  have l: "16 * k + 16 \<le> unat (i_size i)" using assms(5,6) dsize_mult [OF assms(5)] by linarith
  moreover have "unat (i_size i) < 2 ^ 32" using unsigned_less [of "i_size i"] by simp
  ultimately have u: "unat (of_nat (16 * k) :: u32) = 16 * k" by (intro unat_of_nat_small) simp
  have "unat (of_nat (16 * k) :: u32) + unat (16 :: u32) \<le> unat (i_size i)" unfolding u using l by simp
  from readi_spec [OF assms(1-4) this assms(7), of 0]
  show "\<exists>t. readi dp False 0 (of_nat (16 * k)) 16 s = Ok (16, dentry B i k) t \<and> tx p t B H \<and> tx_frame s t \<and> tx_logged t = tx_logged s"
    unfolding u dentry_def by simp
  show "(of_nat (16 * k) :: u32) < i_size i" unfolding word_less_nat_alt u using l by simp
  show "of_nat (16 * k) + (16 :: u32) = of_nat (16 * Suc k)" by (simp add: algebra_simps)
qed

lemma upt_Cons_if: "[k..<n] = (if k < n then k # [Suc k..<n] else [])"
  by (rule upt_rec)

lemma dirlookup_loop_spec:
  fixes s :: "'x fs_state_scheme"
  assumes "tx p s B H" and "i = inodes s dp" and "ino_wf s B H i" and "fpresent B i (unat (i_size i))" and "16 dvd unat (i_size i)" and "k \<le> dsize i"
    and "card (tx_logged s) + card (dom H) < NBUF"
  shows "\<exists>t. tx p t B H \<and> tx_frame s t \<and> tx_logged t = tx_logged s \<and> dirlookup_loop dp name (of_nat (16 * k)) s =
    (case find (\<lambda>k. dmatch name (dentry B i k)) [k..<dsize i] of
       None \<Rightarrow> Ok None t
     | Some l \<Rightarrow> bind (iget 1 (ucast (rd16 (dentry B i l) 0))) (\<lambda>ip. ret (Some (ip, of_nat (16 * l)))) t)"
  using assms
proof (induction "dsize i - k" arbitrary: s k)
  case 0
  then have k: "k = dsize i" by simp
  have "\<not> (of_nat (16 * k) :: u32) < i_size (inodes s dp)" unfolding k 0(3) [symmetric] dsize_mult [OF 0(6)] by simp
  then show ?case using 0(2) k by (subst dirlookup_loop.simps) (auto simp: lg.frame_refl)
next
  case (Suc d)
  note tx = Suc.prems(1) and i = Suc.prems(2)
  have k: "k < dsize i" using Suc.hyps(2) by simp
  obtain t where t: "readi dp False 0 (of_nat (16 * k)) 16 s = Ok (16, dentry B i k) t" "tx p t B H" "tx_frame s t" "tx_logged t = tx_logged s"
    using read_entry(1) [OF Suc.prems(1-5) k Suc.prems(7)] by blast
  have lt: "(of_nat (16 * k) :: u32) < i_size (inodes s dp)" using read_entry(2) [OF Suc.prems(1-5) k Suc.prems(7)] i by simp
  note nxt = read_entry(3) [OF Suc.prems(1-5) k Suc.prems(7)]
  have it: "i = inodes t dp" using i tx_frame_fs(1) [OF t(3)] by simp
  have dev: "i_dev (inodes t dp) = 1" using Suc.prems(3) it by (simp add: ino_wf_def)
  note find = upt_Cons_if [of k "dsize i"]
  show ?case
  proof (cases "dmatch name (dentry B i k)")
    case True
    then have f: "find (\<lambda>k. dmatch name (dentry B i k)) [k..<dsize i] = Some k" using k by (simp add: find)
    have "dirlookup_loop dp name (of_nat (16 * k)) s = bind (iget 1 (ucast (rd16 (dentry B i k) 0))) (\<lambda>ip. ret (Some (ip, of_nat (16 * k)))) t"
      using lt t(1) dev True unfolding dmatch_def namecmp_zero_iff [symmetric]
      by (subst dirlookup_loop.simps) (simp add: andthen_apply)
    then show ?thesis using t(2-4) unfolding f by (intro exI [of _ t]) simp
  next
    case False
    have f: "find (\<lambda>k. dmatch name (dentry B i k)) [k..<dsize i] = find (\<lambda>k. dmatch name (dentry B i k)) [Suc k..<dsize i]" using k False by (simp add: find)
    have "dirlookup_loop dp name (of_nat (16 * k)) s = dirlookup_loop dp name (of_nat (16 * Suc k)) t"
      using lt t(1) False unfolding dmatch_def namecmp_zero_iff [symmetric] nxt [symmetric]
      by (subst dirlookup_loop.simps) (auto simp: andthen_apply)
    moreover have "\<exists>u. tx p u B H \<and> tx_frame t u \<and> tx_logged u = tx_logged t \<and> dirlookup_loop dp name (of_nat (16 * Suc k)) t =
      (case find (\<lambda>k. dmatch name (dentry B i k)) [Suc k..<dsize i] of
         None \<Rightarrow> Ok None u
       | Some l \<Rightarrow> bind (iget 1 (ucast (rd16 (dentry B i l) 0))) (\<lambda>ip. ret (Some (ip, of_nat (16 * l)))) u)"
      using Suc.hyps(1) [of "Suc k" t] Suc.hyps(2) t(2,4) it ino_wf_frame [OF Suc.prems(3) ino_frame_tx [OF t(3)]] Suc.prems(4,5,7) k by simp
    ultimately show ?thesis unfolding f using lg.frame_trans [OF t(3)] t(4) by auto
  qed
qed

lemma dirlink_scan_spec:
  fixes s :: "'x fs_state_scheme"
  assumes "tx p s B H" and "i = inodes s dp" and "ino_wf s B H i" and "fpresent B i (unat (i_size i))" and "16 dvd unat (i_size i)" and "k \<le> dsize i"
    and "card (tx_logged s) + card (dom H) < NBUF"
  shows "\<exists>t l. dirlink_scan dp (of_nat (16 * k)) s = Ok (of_nat (16 * l)) t \<and> tx p t B H \<and> tx_frame s t \<and> tx_logged t = tx_logged s \<and> l \<le> dsize i \<and>
    (l < dsize i \<longrightarrow> rd16 (dentry B i l) 0 = 0)"
  using assms
proof (induction "dsize i - k" arbitrary: s k)
  case 0
  then have k: "k = dsize i" by simp
  have "\<not> (of_nat (16 * k) :: u32) < i_size (inodes s dp)" unfolding k 0(3) [symmetric] dsize_mult [OF 0(6)] by simp
  then have "dirlink_scan dp (of_nat (16 * k)) s = Ok (of_nat (16 * k)) s" by (subst dirlink_scan.simps) simp
  then show ?case using 0(2) k by (intro exI [of _ s] exI [of _ k]) (simp add: lg.frame_refl)
next
  case (Suc d)
  note tx = Suc.prems(1) and i = Suc.prems(2)
  have k: "k < dsize i" using Suc.hyps(2) by simp
  obtain t where t: "readi dp False 0 (of_nat (16 * k)) 16 s = Ok (16, dentry B i k) t" "tx p t B H" "tx_frame s t" "tx_logged t = tx_logged s"
    using read_entry(1) [OF Suc.prems(1-5) k Suc.prems(7)] by blast
  have lt: "(of_nat (16 * k) :: u32) < i_size (inodes s dp)" using read_entry(2) [OF Suc.prems(1-5) k Suc.prems(7)] i by simp
  note nxt = read_entry(3) [OF Suc.prems(1-5) k Suc.prems(7)]
  have it: "i = inodes t dp" using i tx_frame_fs(1) [OF t(3)] by simp
  show ?case
  proof (cases "rd16 (dentry B i k) 0 = 0")
    case True
    have "dirlink_scan dp (of_nat (16 * k)) s = Ok (of_nat (16 * k)) t"
      using lt t(1) True by (subst dirlink_scan.simps) (simp add: andthen_apply)
    then show ?thesis using t(2-4) True k by (intro exI [of _ t] exI [of _ k]) simp
  next
    case False
    have "dirlink_scan dp (of_nat (16 * k)) s = dirlink_scan dp (of_nat (16 * Suc k)) t"
      using lt t(1) False unfolding nxt [symmetric] by (subst dirlink_scan.simps) (simp add: andthen_apply)
    moreover have "\<exists>u l. dirlink_scan dp (of_nat (16 * Suc k)) t = Ok (of_nat (16 * l)) u \<and> tx p u B H \<and> tx_frame t u \<and> tx_logged u = tx_logged t \<and> l \<le> dsize i \<and>
      (l < dsize i \<longrightarrow> rd16 (dentry B i l) 0 = 0)"
      using Suc.hyps(1) [of "Suc k" t] Suc.hyps(2) t(2,4) it ino_wf_frame [OF Suc.prems(3) ino_frame_tx [OF t(3)]] Suc.prems(4,5,7) k by simp
    ultimately show ?thesis using lg.frame_trans [OF t(3)] t(4) by auto
  qed
qed

section \<open>The entry that \<open>dirlink\<close> writes\<close>

lemma length_dirent [simp]: "length (dirent_bytes name inum) = 16"
  by (simp add: dirent_bytes_def)

lemma dirent_fields:
  "rd16 (dirent_bytes name inum) 0 = ucast inum" "dirname (drop 2 (dirent_bytes name inum)) = dirname name"
proof -
  show "rd16 (dirent_bytes name inum) 0 = ucast inum" by (simp add: rd16_def dirent_bytes_def blk_get_def of_bytes_le_bytes)
  have "cstring (cstr (map (strncpy (\<lambda>_. 0) (cstr name) DIRSIZ) [0..<DIRSIZ])) DIRSIZ = cstring (cstr name) DIRSIZ"
    by (rule cstring_cong) (simp add: cstr_def [of "map _ _"] strncpy_apply)
  then show "dirname (drop 2 (dirent_bytes name inum)) = dirname name" by (simp add: dirent_bytes_def dirname_def)
qed

lemma dentry_written:
  assumes "\<forall>x<unat (i_size j). fbyte D j x = (if 16 * l \<le> x \<and> x < 16 * l + 16 then e ! (x - 16 * l) else fbyte B i x)" and "length e = 16"
    and "16 dvd unat (i_size j)" and "k < dsize j"
  shows "dentry D j k = (if k = l then e else dentry B i k)"
proof (rule nth_equalityI)
  have s: "16 * k + 16 \<le> unat (i_size j)" using assms(4) dsize_mult [OF assms(3)] by linarith
  show "length (dentry D j k) = length (if k = l then e else dentry B i k)" using assms(2) by (simp add: dentry_def)
  fix x assume "x < length (dentry D j k)"
  then have x: "x < 16" by (simp add: dentry_def)
  have "16 * l \<le> 16 * k + x \<and> 16 * k + x < 16 * l + 16 \<longleftrightarrow> k = l" using x by linarith
  then show "dentry D j k ! x = (if k = l then e else dentry B i k) ! x"
    using assms(1) x s by (auto simp: dentry_def)
qed

lemma dmatch_cong: "dirname n = dirname m \<Longrightarrow> dmatch n e = dmatch m e"
  by (simp add: dmatch_def)

lemma find_snoc: "find P (xs @ [x]) = (case find P xs of None \<Rightarrow> if P x then Some x else None | Some y \<Rightarrow> Some y)"
  by (induction xs) auto

lemma dmap_link:
  assumes ent: "\<And>k. k < dsize j \<Longrightarrow> dentry D j k = (if k = l then dirent_bytes name inum else dentry B i k)" and n: "dsize j = max (dsize i) (Suc l)"
    and l: "l \<le> dsize i" "l < dsize i \<Longrightarrow> rd16 (dentry B i l) 0 = 0" and inum: "(ucast inum :: u16) \<noteq> 0" and no: "dmap B i name = None"
  shows "dmap D j nm = (if dirname nm = dirname name then Some (ucast inum) else dmap B i nm)"
proof -
  have none: "\<not> dmatch name (dentry B i k)" if "k < dsize i" for k using no that by (auto simp: dmap_def find_upt_None)
  have at: "dmatch nm (dentry D j l) \<longleftrightarrow> dirname nm = dirname name" for nm using ent [of l] n inum by (simp add: dmatch_def dirent_fields)
  show ?thesis
  proof (cases "dirname nm = dirname name")
    case True
    have "find (\<lambda>k. dmatch nm (dentry D j k)) [0..<dsize j] = Some l"
    proof (rule find_unique)
      fix k assume k: "k \<in> set [0..<dsize j]" "dmatch nm (dentry D j k)"
      then show "k = l" using ent [of k] none [of k] n l(1) dmatch_cong [OF True] by (auto simp: max_def split: if_splits)
    qed (use at True n in auto)
    then show ?thesis using True ent [of l] n by (simp add: dmap_def dirent_fields)
  next
    case False
    have same: "dmatch nm (dentry D j k) = dmatch nm (dentry B i k)" if "k < dsize i" for k
      using ent [of k] that n at [of nm] False l(2) by (cases "k = l") (auto simp: dmatch_def)
    have "find (\<lambda>k. dmatch nm (dentry D j k)) [0..<dsize j] = find (\<lambda>k. dmatch nm (dentry D j k)) [0..<dsize i]"
    proof (cases "l < dsize i")
      case True
      then show ?thesis using n by simp
    next
      case False
      then have "dsize j = Suc (dsize i)" "l = dsize i" using n l(1) by simp_all
      then show ?thesis using at [of nm] \<open>dirname nm \<noteq> dirname name\<close> by (cases "find (\<lambda>k. dmatch nm (dentry D j k)) [0..<dsize i]") (auto simp: find_snoc)
    qed
    also have "\<dots> = find (\<lambda>k. dmatch nm (dentry B i k)) [0..<dsize i]" by (rule find_cong) (use same in auto)
    finally have f: "find (\<lambda>k. dmatch nm (dentry D j k)) [0..<dsize j] = find (\<lambda>k. dmatch nm (dentry B i k)) [0..<dsize i]" .
    have "rd16 (dentry D j k) 0 = rd16 (dentry B i k) 0" if "find (\<lambda>k. dmatch nm (dentry B i k)) [0..<dsize i] = Some k" for k
    proof -
      have k: "k < dsize i" "dmatch nm (dentry B i k)" using that by (auto simp: find_upt)
      then have "k \<noteq> l" using l(2) by (auto simp: dmatch_def)
      then show ?thesis using ent [of k] k(1) n by simp
    qed
    then show ?thesis using False unfolding dmap_def f by (auto intro!: option.map_cong)
  qed
qed

lemma nchunks_entry: "nchunks (16 * l) 16 = 1"
proof -
  have "16 * l mod BSIZE = 16 * (l mod 64)" by (simp add: mod_mult_mult1 [of 16 l 64, simplified])
  moreover have "l mod 64 < 64" by simp
  ultimately have "16 * l mod BSIZE \<le> 1008" by linarith
  then show ?thesis by (simp add: nchunks_def)
qed

text \<open>Linking a name that is not there.\<close>

lemma dirlink_new:
  fixes s :: "'x fs_state_scheme"
  assumes tx: "tx p s B H" and i: "i = inodes s dp" and ok: "dir_ok s B H i" and no: "dmap B i name = None" and inum: "(ucast inum :: u16) \<noteq> 0"
    and max: "unat (i_size i) + 16 \<le> MAXFILE * BSIZE" and free: "2 \<le> nfree (fs_sb s) B"
    and cap: "card (tx_logged s) + card (dom H) + 6 < NBUF" "card (tx_logged s) + 6 < tx_lim s"
  shows "\<exists>t D. dirlink dp name inum s = Ok 0 t \<and> tx p t D H \<and> dir_ok t D H (inodes t dp) \<and> inodes t = (inodes s)(dp := inodes t dp) \<and>
    i_inum (inodes t dp) = i_inum i \<and> (\<forall>nm. dmap D (inodes t dp) nm = (if dirname nm = dirname name then Some (ucast inum) else dmap B i nm))"
proof -
  have f: "file_ok s B H i" "i_type i = T_DIR" "16 dvd unat (i_size i)" using ok by (simp_all add: dir_ok_def)
  then have wf: "ino_wf s B H i" "fpresent B i (unat (i_size i))" by (simp_all add: file_ok_def)
  have cap0: "card (tx_logged s) + card (dom H) < NBUF" using cap(1) by simp
  have "find (\<lambda>k. dmatch name (dentry B i k)) [0..<dsize i] = None" using no by (simp add: dmap_def)
  then obtain t1 where t1: "tx p t1 B H" "tx_frame s t1" "tx_logged t1 = tx_logged s" "dirlookup_loop dp name 0 s = Ok None t1"
    using dirlookup_loop_spec [OF tx i wf f(3) _ cap0, of 0 name] by auto
  have lk: "dirlookup dp name s = Ok None t1" using t1(4) f(2) i by (simp add: dirlookup_def bind_apply andthen_apply)
  have i1: "i = inodes t1 dp" using i tx_frame_fs(1) [OF t1(2)] by simp
  have fr1: "ino_frame s t1" by (rule ino_frame_tx [OF t1(2)])
  obtain t2 l where t2: "dirlink_scan dp 0 t1 = Ok (of_nat (16 * l)) t2" "tx p t2 B H" "tx_frame t1 t2" "tx_logged t2 = tx_logged t1" "l \<le> dsize i"
    "l < dsize i \<longrightarrow> rd16 (dentry B i l) 0 = 0"
    using dirlink_scan_spec [OF t1(1) i1 ino_wf_frame [OF wf(1) fr1] wf(2) f(3), of 0] cap0 t1(3) by auto
  have fr2: "ino_frame s t2" using ino_frame_tx [OF lg.frame_trans [OF t1(2) t2(3)]] .
  note same = ino_frame_same [OF fr2]
  have i2: "i = inodes t2 dp" using i1 tx_frame_fs(1) [OF t2(3)] by simp
  have ok2: "file_ok t2 B H i"
    using f(1) same(3,5) by (simp add: file_ok_def fs_ok_def bm_ok_def Let_def ino_wf_def ino_home_def blk_mine_def)
  have l16: "16 * l \<le> unat (i_size i)" using t2(5) dsize_mult [OF f(3)] by linarith
  then have u: "unat (of_nat (16 * l) :: u32) = 16 * l" using max by (intro unat_of_nat_small) simp
  let ?off = "of_nat (16 * l) :: u32" and ?e = "dirent_bytes name inum"
  have c: "1 = nchunks (unat ?off) (unat (16 :: u32))" unfolding u using nchunks_entry by simp
  have "?off \<le> i_size i" "0 < (16 :: u32)" "unat (16 :: u32) \<le> length ?e" "unat ?off + unat (16 :: u32) \<le> MAXFILE * BSIZE" "2 * 1 \<le> nfree (fs_sb t2) B"
    "card (tx_logged t2) + card (dom H) + 6 * 1 < NBUF" "card (tx_logged t2) + 6 * 1 < tx_lim t2"
    using l16 max free cap t1(3) t2(4) same(2,5) unfolding word_le_nat_alt u by simp_all
  note pre = this
  obtain t D j where t: "writei dp (Kbuf ?e) ?off 16 t2 = Ok (int (unat (16 :: u32))) t" "tx p t D H" "inodes t = (inodes t2)(dp := j)" "file_ok t D H j"
    "unat (i_size j) = max (unat (i_size i)) (unat ?off + unat (16 :: u32))"
    "\<forall>x<unat (i_size j). fbyte D j x = (if unat ?off \<le> x \<and> x < unat ?off + unat (16 :: u32) then ?e ! (x - unat ?off) else fbyte B i x)"
    "j = i\<lparr>i_addrs := i_addrs j, i_size := i_size j\<rparr>"
    using writei_spec [OF t2(2) i2 ok2 pre(1-4) c pre(5-7)] by blast
  have j: "inodes t dp = j" "i_type j = T_DIR" "i_inum j = i_inum i" using t(3) f(2) by (simp, subst t(7), simp, subst t(7), simp)
  have sz: "unat (i_size j) = max (unat (i_size i)) (16 * l + 16)" using t(5) unfolding u by simp
  have dv: "16 dvd unat (i_size j)" unfolding sz max_def using f(3) by simp
  have ds: "dsize j = max (dsize i) (Suc l)"
  proof -
    have "unat (i_size j) = 16 * max (dsize i) (Suc l)" unfolding sz using dsize_mult [OF f(3)] by (simp add: max_def)
    then show ?thesis by simp
  qed
  have "\<forall>x<unat (i_size j). fbyte D j x = (if 16 * l \<le> x \<and> x < 16 * l + 16 then ?e ! (x - 16 * l) else fbyte B i x)" using t(6) unfolding u by simp
  note ent = dentry_written [OF this length_dirent dv]
  have "\<forall>nm. dmap D j nm = (if dirname nm = dirname name then Some (ucast inum) else dmap B i nm)"
    using dmap_link [OF ent ds t2(5) _ inum no] t2(6) by blast
  moreover have "dirlink dp name inum s = Ok 0 t" using lk t2(1) t(1) by (simp add: dirlink_def bind_apply andthen_apply)
  moreover have "dir_ok t D H j" using t(4) j(2) dv by (simp add: dir_ok_def)
  moreover have "inodes t = (inodes s)(dp := j)" using t(3) tx_frame_fs(1) [OF t2(3)] tx_frame_fs(1) [OF t1(2)] by simp
  ultimately show ?thesis using t(2) j(1,3) by (intro exI [of _ t] exI [of _ D]) simp
qed

text \<open>Looking up a name.\<close>

lemma dirlookup_spec:
  fixes s :: "'x fs_state_scheme"
  assumes tx: "tx p s B H" and i: "i = inodes s dp" and ok: "dir_ok s B H i" and R: "icache_inv (inodes s) R" "size R < 2 ^ 31 - 1" "set_mset R \<noteq> {..<NINODE}"
    and cap: "card (tx_logged s) + card (dom H) < NBUF"
  shows "case dmap B i name of
      None \<Rightarrow> \<exists>t. dirlookup dp name s = Ok None t \<and> tx p t B H \<and> inodes t = inodes s
    | Some m \<Rightarrow> \<exists>t ip off. dirlookup dp name s = Ok (Some (ip, off)) t \<and> tx p t B H \<and> i_dev (inodes t ip) = 1 \<and> i_inum (inodes t ip) = ucast m \<and>
        icache_inv (inodes t) (add_mset ip R) \<and> (ip \<in># R \<or> \<not> i_valid (inodes t ip))"
proof -
  have f: "file_ok s B H i" "i_type i = T_DIR" "16 dvd unat (i_size i)" using ok by (simp_all add: dir_ok_def)
  then have wf: "ino_wf s B H i" "fpresent B i (unat (i_size i))" by (simp_all add: file_ok_def)
  obtain t where t: "tx p t B H" "tx_frame s t" "tx_logged t = tx_logged s" "dirlookup_loop dp name (of_nat (16 * 0)) s =
    (case find (\<lambda>k. dmatch name (dentry B i k)) [0..<dsize i] of
       None \<Rightarrow> Ok None t
     | Some l \<Rightarrow> bind (iget 1 (ucast (rd16 (dentry B i l) 0))) (\<lambda>ip. ret (Some (ip, of_nat (16 * l)))) t)"
    using dirlookup_loop_spec [OF tx i wf f(3) _ cap, of 0 name] by auto
  have run: "dirlookup dp name s = dirlookup_loop dp name (of_nat (16 * 0)) s" using f(2) i by (simp add: dirlookup_def bind_apply andthen_apply)
  have it: "inodes t = inodes s" by (rule tx_frame_fs(1) [OF t(2)])
  show ?thesis
  proof (cases "find (\<lambda>k. dmatch name (dentry B i k)) [0..<dsize i]")
    case None
    then show ?thesis using t(1,4) it run by (simp add: dmap_def)
  next
    case (Some l)
    let ?m = "rd16 (dentry B i l) 0"
    have R': "icache_inv (inodes t) R" using R(1) it by simp
    obtain ip u where u: "iget 1 (ucast ?m) t = Ok ip u" "icache_inv (inodes u) (add_mset ip R)" "i_dev (inodes u ip) = 1" "i_inum (inodes u ip) = ucast ?m"
      "ip \<in># R \<or> \<not> i_valid (inodes u ip)" "tx p u B H"
      using iget_spec [OF t(1) R' R(2), of 1 "ucast ?m"] R(3) by (auto split: res.splits)
    then have "dirlookup dp name s = Ok (Some (ip, of_nat (16 * l))) u" unfolding run t(4) Some by (simp add: bind_apply)
    then show ?thesis using u(2-6) Some by (auto simp: dmap_def)
  qed
qed

section \<open>Properties\<close>

text \<open>
  C4: a directory is a map from names to inode numbers. \<open>dirlookup\<close> returns an inode of the cache with the number the
  map has for the name, with one reference more, or nothing when the map has none. \<open>dirlink\<close> of a name that is not there
  succeeds and adds exactly that name with the given number to the map, leaving a well-formed directory; of a name that
  is there it fails with the map and the references unchanged.\<close>

theorem directory_is_map:
  fixes s :: "'x fs_state_scheme"
  assumes tx: "tx p s B H" and i: "i = inodes s dp" and ok: "dir_ok s B H i" and R: "icache_inv (inodes s) R" "size R < 2 ^ 31 - 1" "set_mset R \<noteq> {..<NINODE}"
    and inum: "(ucast inum :: u16) \<noteq> 0" and max: "unat (i_size i) + 16 \<le> MAXFILE * BSIZE" and free: "2 \<le> nfree (fs_sb s) B"
    and cap: "card (tx_logged s) + card (dom H) + 6 < NBUF" "card (tx_logged s) + 6 < tx_lim s"
  shows "case dmap B i name of
      None \<Rightarrow> (\<exists>t. dirlookup dp name s = Ok None t \<and> tx p t B H \<and> inodes t = inodes s) \<and>
        (\<exists>t D. dirlink dp name inum s = Ok 0 t \<and> tx p t D H \<and> dir_ok t D H (inodes t dp) \<and>
          (\<forall>nm. dmap D (inodes t dp) nm = (if dirname nm = dirname name then Some (ucast inum) else dmap B i nm)))
    | Some m \<Rightarrow> (\<exists>t ip off. dirlookup dp name s = Ok (Some (ip, off)) t \<and> tx p t B H \<and> i_dev (inodes t ip) = 1 \<and> i_inum (inodes t ip) = ucast m \<and>
          icache_inv (inodes t) (add_mset ip R)) \<and>
        (\<exists>t. dirlink dp name inum s = Ok (- 1) t \<and> tx p t B H \<and> icache_inv (inodes t) R)"
proof -
  have cap0: "card (tx_logged s) + card (dom H) < NBUF" using cap(1) by simp
  note lk = dirlookup_spec [OF tx i ok R cap0, of name]
  show ?thesis
  proof (cases "dmap B i name")
    case None
    show ?thesis using lk dirlink_new [OF tx i ok None inum max free cap] unfolding None option.case by blast
  next
    case (Some m)
    then obtain t ip off where t: "dirlookup dp name s = Ok (Some (ip, off)) t" "tx p t B H" "i_dev (inodes t ip) = 1" "i_inum (inodes t ip) = ucast m"
      "icache_inv (inodes t) (add_mset ip R)" "ip \<in># R \<or> \<not> i_valid (inodes t ip)" using lk by auto
    have nl: "\<not> (count (add_mset ip R) ip = 1 \<and> i_valid (inodes t ip) \<and> i_nlink (inodes t ip) = 0)" using t(6) by (auto simp: not_in_iff)
    have "ip \<in># add_mset ip R" by simp
    then obtain u where "iput ip t = Ok () u" "icache_inv (inodes u) R" "tx p u B H" using iput_spec [OF t(2,5) _ nl] by auto
    then have "dirlink dp name inum s = Ok (- 1) u \<and> tx p u B H \<and> icache_inv (inodes u) R" using t(1) by (simp add: dirlink_def bind_apply andthen_apply)
    then show ?thesis using Some t(1-5) by auto
  qed
qed

text \<open>An empty directory, inode 1.\<close>

definition fs_dir0 :: inode where
  "fs_dir0 = \<lparr>i_dev = 1, i_inum = 1, i_ref = 1, i_valid = True, i_type = T_DIR, i_major = 0, i_minor = 0,
     i_nlink = 1, i_size = 0, i_addrs = (\<lambda>_. 0)\<rparr>"

definition fs_st2 :: fs_state where
  "fs_st2 = fs_st0\<lparr>inodes := (inodes fs_st0)(0 := fs_dir0)\<rparr>"

lemma fs_st2_dir: "dir_ok fs_st2 fs_B0 Map.empty fs_dir0" "icache_inv (inodes fs_st2) {#0#}"
proof -
  have N: "unat (sb_size fs_sb0) = 100" "fs_sb fs_st2 = fs_sb0" using fs_st0_bm(5) by (simp_all add: fs_sb0_def fs_st2_def)
  have bm: "bm_ok fs_st2 fs_B0 Map.empty" using fs_st0_bm(6) by (simp add: bm_ok_def fs_st2_def)
  have l: "tx_legal fs_st2 33" by (simp add: fs_st2_def tx_legal_def log_area_def) (simp add: fs_st0_def log_state.extend_def)
  have h: "IBLOCK (i_inum fs_dir0) fs_sb0 = 33" by (simp add: IBLOCK_def fs_dir0_def fs_sb0_def)
  have il: "ino_list fs_B0 fs_dir0 = []" by (simp add: ino_list_def fs_dir0_def)
  have z: "unat (i_size fs_dir0) = 0" "i_type fs_dir0 = T_DIR" "i_dev fs_dir0 = 1" by (simp_all add: fs_dir0_def)
  show "dir_ok fs_st2 fs_B0 Map.empty fs_dir0"
    using fs_st0_bm(2) [of 0] fs_st0_bm(2) [of 33] bm l z fs_st1_facts(2)
    by (simp add: dir_ok_def file_ok_def fs_ok_def ino_home_def ino_wf_def blk_mine_def fpresent_def h N il) (simp add: fs_sb0_def)
  show "icache_inv (inodes fs_st2) {#0#}" by (simp add: icache_inv_def fs_st2_def fs_dir0_def) (simp add: fs_st0_def log_state.extend_def)
qed

theorem directory_is_map_witness:
  "\<exists>t D. dirlink 0 [0x61] 7 fs_st2 = Ok 0 t \<and> dmap D (inodes t 0) [0x61] = Some 7 \<and> dmap D (inodes t 0) [0x62] = None"
proof -
  have tx: "tx 0 fs_st2 fs_B0 Map.empty" using fs_st0_tx by (simp add: fs_st2_def)
  have i: "fs_dir0 = inodes fs_st2 0" by (simp add: fs_st2_def)
  have no: "dmap fs_B0 fs_dir0 nm = None" for nm by (simp add: dmap_def fs_dir0_def)
  have l: "tx_logged fs_st2 = {}" "tx_lim fs_st2 = 29" "fs_sb fs_st2 = fs_sb0" using fs_st0_bm(3,4,5) by (simp_all add: fs_st2_def)
  have "(49 :: nat) \<in> {..<NINODE}" "(49 :: nat) \<notin> set_mset {#0#}" by simp_all
  then have R: "set_mset {#0#} \<noteq> {..<NINODE}" "size {#0 :: nat#} < 2 ^ 31 - 1" by (blast, simp)
  have "(ucast (7 :: u32) :: u16) = 7" by simp
  then have inum: "(ucast (7 :: u32) :: u16) \<noteq> 0" by simp
  have p: "unat (i_size fs_dir0) + 16 \<le> MAXFILE * BSIZE" "2 \<le> nfree (fs_sb fs_st2) fs_B0" "card (tx_logged fs_st2) + card (dom Map.empty) + 6 < NBUF"
    "card (tx_logged fs_st2) + 6 < tx_lim fs_st2"
    using l fs_st1_file(2) by (simp_all add: fs_dir0_def)
  obtain t D where t: "dirlink 0 [0x61] 7 fs_st2 = Ok 0 t" "\<forall>nm. dmap D (inodes t 0) nm = (if dirname nm = dirname [0x61] then Some (ucast (7 :: u32)) else dmap fs_B0 fs_dir0 nm)"
    using directory_is_map [OF tx i fs_st2_dir R(2,1) inum p, of "[0x61]"] unfolding no option.case by blast
  have "dirname [0x62] \<noteq> dirname [0x61]" by (simp add: dirname_eq)
  then show ?thesis using t no by (intro exI [of _ t] exI [of _ D]) simp
qed

end
