(* ===== verification/Console.thy ===== *)
theory Console
  imports Fs
begin

text \<open>
  \<open>kernel/uart.c\<close> and \<open>kernel/console.c\<close>: the transmit ring, the line editor of the console and the device switch.

  The UART is seen through its registers: the bytes waiting in the receive register (\<open>uart_in\<close>), the answers to the
  polls of the transmit-idle bit (\<open>uart_idle\<close>, a parameter; the next poll is number \<open>uart_polls\<close>), the stores to the
  control registers (\<open>uart_ctl\<close>, newest first) and the bytes stored into the transmit register (\<open>uart_thr\<close>). \<open>uartstart\<close>
  gets one unit of fuel more than the ring has slots: the read index visits every slot in that many turns, so a
  loop that is still running never meets the write index, which is \<open>Spin\<close>.

  A process that finds the ring full or no input sleeps; \<open>uartputc_resume\<close> and \<open>consoleread_resume\<close> are the
  continuations.
\<close>

section \<open>State\<close>

abbreviation (input) UART_TX_BUF_SIZE :: nat where "UART_TX_BUF_SIZE \<equiv> 32"
abbreviation (input) INPUT_BUF :: nat where "INPUT_BUF \<equiv> 128"
abbreviation (input) CONSOLE :: nat where "CONSOLE \<equiv> 1"
abbreviation (input) NEWLINE :: byte where "NEWLINE \<equiv> 10"
abbreviation (input) CTRL_D :: byte where "CTRL_D \<equiv> 4"

record cons_rec =
  c_buf :: "nat \<Rightarrow> byte"
  c_r :: u32
  c_w :: u32
  c_e :: u32

datatype devfn = Dev_none | Dev_console

record con_state = fs_state +
  uart_in :: "byte list"
  uart_idle :: "nat \<Rightarrow> bool"
  uart_polls :: nat
  uart_ctl :: "(nat \<times> byte) list"
  uart_tx_buf :: "nat \<Rightarrow> byte"
  uart_tx_w :: nat
  uart_tx_r :: nat
  cons :: cons_rec
  devsw :: "nat \<Rightarrow> devfn"

definition on_cons :: "(cons_rec \<Rightarrow> cons_rec) \<Rightarrow> (unit, 'x con_state_scheme) kop" where
  "on_cons f = modify (\<lambda>s. s\<lparr>cons := f (cons s)\<rparr>)"

section \<open>UART\<close>

definition uart_write :: "nat \<Rightarrow> byte \<Rightarrow> (unit, 'x con_state_scheme) kop" where
  "uart_write r v = modify (\<lambda>s. s\<lparr>uart_ctl := (r, v) # uart_ctl s\<rparr>)"

definition uartinit :: "(unit, 'x con_state_scheme) kop" where
  "uartinit =
     andthen (uart_write 1 0) (
     andthen (uart_write 3 0x80) (
     andthen (uart_write 0 3) (
     andthen (uart_write 1 0) (
     andthen (uart_write 3 3) (
     andthen (uart_write 2 7) (
     andthen (uart_write 1 3) (
     initlock Lk_uart ''uart'')))))))"

definition uart_tx_idle :: "(bool, 'x con_state_scheme) kop" where
  "uart_tx_idle =
     bind (gets (\<lambda>s. uart_idle s (uart_polls s))) (\<lambda>b.
     andthen (modify (\<lambda>s. s\<lparr>uart_polls := uart_polls s + 1\<rparr>)) (
     ret b))"

fun uartstart_loop :: "nat \<Rightarrow> (unit, 'x con_state_scheme) kop" where
  "uartstart_loop 0 = (\<lambda>s. Spin)"
| "uartstart_loop (Suc fuel) =
     bind (gets (\<lambda>s. uart_tx_w s = uart_tx_r s)) (\<lambda>e.
     if e then ret ()
     else
       bind uart_tx_idle (\<lambda>idle.
       if \<not> idle then ret ()
       else
         bind (gets (\<lambda>s. uart_tx_buf s (uart_tx_r s))) (\<lambda>c.
         andthen (modify (\<lambda>s. s\<lparr>uart_tx_r := (uart_tx_r s + 1) mod UART_TX_BUF_SIZE\<rparr>)) (
         andthen (wakeup Ch_uart_tx_r) (
         andthen (modify (\<lambda>s. s\<lparr>uart_thr := uart_thr s @ [c]\<rparr>)) (
         uartstart_loop fuel))))))"

definition uartstart :: "(unit, 'x con_state_scheme) kop" where
  "uartstart = uartstart_loop (UART_TX_BUF_SIZE + 1)"

definition uartputc_loop :: "byte \<Rightarrow> (unit, 'x con_state_scheme) kop" where
  "uartputc_loop c =
     bind (gets (\<lambda>s. (uart_tx_w s + 1) mod UART_TX_BUF_SIZE = uart_tx_r s)) (\<lambda>full.
     if full then sleep Ch_uart_tx_r Lk_uart
     else
       andthen (modify (\<lambda>s. s\<lparr>uart_tx_buf := (uart_tx_buf s)(uart_tx_w s := c)\<rparr>)) (
       andthen (modify (\<lambda>s. s\<lparr>uart_tx_w := (uart_tx_w s + 1) mod UART_TX_BUF_SIZE\<rparr>)) (
       andthen uartstart (
       release Lk_uart))))"

definition uartputc :: "byte \<Rightarrow> (unit, 'x con_state_scheme) kop" where
  "uartputc c =
     andthen (acquire Lk_uart) (
     bind (gets panicked) (\<lambda>pk.
     if pk then (\<lambda>s. Spin) else uartputc_loop c))"

definition uartputc_resume :: "byte \<Rightarrow> bool \<Rightarrow> (unit, 'x con_state_scheme) kop" where
  "uartputc_resume c ie = andthen (sleep_resume Lk_uart ie) (uartputc_loop c)"

definition uartgetc :: "(int, 'x con_state_scheme) kop" where
  "uartgetc =
     bind (gets uart_in) (\<lambda>q.
     case q of
       [] \<Rightarrow> ret (- 1)
     | c # q \<Rightarrow> andthen (modify (\<lambda>s. s\<lparr>uart_in := q\<rparr>)) (ret (uint c)))"

section \<open>Console\<close>

fun consolewrite_loop :: "src \<Rightarrow> nat \<Rightarrow> nat \<Rightarrow> (int, 'x con_state_scheme) kop" where
  "consolewrite_loop src i 0 = andthen (release Lk_cons) (ret (int i))"
| "consolewrite_loop src i (Suc n) =
     bind (either_copyin src i 1) (\<lambda>r.
     if fst r = - 1 then andthen (release Lk_cons) (ret (int i))
     else andthen (uartputc (hd (snd r))) (consolewrite_loop src (i + 1) n))"

definition consolewrite :: "src \<Rightarrow> int \<Rightarrow> (int, 'x con_state_scheme) kop" where
  "consolewrite src n = andthen (acquire Lk_cons) (consolewrite_loop src 0 (nat n))"

function consoleread_loop :: "bool \<Rightarrow> u64 \<Rightarrow> int \<Rightarrow> u32 \<Rightarrow> (int, 'x con_state_scheme) kop" where
  "consoleread_loop user_dst dst n target =
     (if n > 0 then
        bind (gets cons) (\<lambda>k.
        if c_r k = c_w k then
          bind curproc (\<lambda>p.
          bind (gets (\<lambda>s. p_killed (procs s p))) (\<lambda>killed.
          if killed then andthen (release Lk_cons) (ret (- 1))
          else sleep Ch_cons_r Lk_cons))
        else
          let c = c_buf k (unat (c_r k) mod INPUT_BUF) in
          andthen (on_cons (\<lambda>k. k\<lparr>c_r := c_r k + 1\<rparr>)) (
          if c = CTRL_D then
            andthen (if of_int n < target then on_cons (\<lambda>k. k\<lparr>c_r := c_r k - 1\<rparr>) else ret ()) (
            andthen (release Lk_cons) (
            ret (sint (target - of_int n))))
          else
            bind (either_copyout user_dst dst [c]) (\<lambda>r.
            if r = - 1 then andthen (release Lk_cons) (ret (sint (target - of_int n)))
            else if c = NEWLINE then andthen (release Lk_cons) (ret (sint (target - of_int (n - 1))))
            else consoleread_loop user_dst (dst + 1) (n - 1) target)))
      else andthen (release Lk_cons) (ret (sint (target - of_int n))))"
  by pat_completeness auto
termination
  by (relation "measure (\<lambda>(ud, dst, n, target). nat n)") auto

declare consoleread_loop.simps [simp del]

definition consoleread :: "bool \<Rightarrow> u64 \<Rightarrow> int \<Rightarrow> (int, 'x con_state_scheme) kop" where
  "consoleread user_dst dst n = andthen (acquire Lk_cons) (consoleread_loop user_dst dst n (of_int n))"

definition consoleread_resume :: "bool \<Rightarrow> u64 \<Rightarrow> int \<Rightarrow> u32 \<Rightarrow> bool \<Rightarrow> (int, 'x con_state_scheme) kop" where
  "consoleread_resume user_dst dst n target ie =
     andthen (sleep_resume Lk_cons ie) (consoleread_loop user_dst dst n target)"

text \<open>How many characters control-U erases: those of the current line.\<close>

lemma cons_erase_shorter: "e \<noteq> w \<Longrightarrow> unat (e - 1 - w :: u32) < unat (e - w)"
proof -
  assume "e \<noteq> w"
  then have "e - w \<noteq> 0" by simp
  then have "unat (e - w - 1) = unat (e - w) - 1" and "0 < unat (e - w)"
    by (simp_all add: unat_minus_one unat_gt_0)
  then show ?thesis by (simp add: diff_right_commute)
qed

function erase_count :: "(nat \<Rightarrow> byte) \<Rightarrow> u32 \<Rightarrow> u32 \<Rightarrow> nat" where
  "erase_count buf w e =
     (if e \<noteq> w \<and> buf (unat (e - 1) mod INPUT_BUF) \<noteq> NEWLINE then Suc (erase_count buf w (e - 1)) else 0)"
  by pat_completeness auto
termination
  by (relation "measure (\<lambda>(buf, w, e). unat (e - w))") (auto simp: cons_erase_shorter)

declare erase_count.simps [simp del]

definition cons_erase :: "(unit, 'x con_state_scheme) kop" where
  "cons_erase = andthen (on_cons (\<lambda>k. k\<lparr>c_e := c_e k - 1\<rparr>)) (consputc BACKSPACE)"

definition cons_store :: "byte \<Rightarrow> (unit, 'x con_state_scheme) kop" where
  "cons_store c =
     andthen (consputc (ucast c)) (
     andthen (on_cons (\<lambda>k. k\<lparr>c_buf := (c_buf k)(unat (c_e k) mod INPUT_BUF := c)\<rparr>)) (
     andthen (on_cons (\<lambda>k. k\<lparr>c_e := c_e k + 1\<rparr>)) (
     bind (gets cons) (\<lambda>k.
     if c = NEWLINE \<or> c = CTRL_D \<or> c_e k = c_r k + of_nat INPUT_BUF then
       andthen (on_cons (\<lambda>k. k\<lparr>c_w := c_e k\<rparr>)) (wakeup Ch_cons_r)
     else ret ()))))"

definition consoleintr :: "byte \<Rightarrow> (unit, 'x con_state_scheme) kop" where
  "consoleintr c =
     andthen (acquire Lk_cons) (
     bind (gets cons) (\<lambda>k.
     andthen
       (if c = 0x10 then procdump
        else if c = 0x15 then for_each [0..<erase_count (c_buf k) (c_w k) (c_e k)] (\<lambda>_. cons_erase)
        else if c = 0x08 \<or> c = 0x7f then (if c_e k \<noteq> c_w k then cons_erase else ret ())
        else if c \<noteq> 0 \<and> c_e k - c_r k < of_nat INPUT_BUF then cons_store (if c = 0x0d then NEWLINE else c)
        else ret ()) (
     release Lk_cons)))"

text \<open>The receive loop of \<open>uartintr\<close> takes the bytes that are waiting when it starts.\<close>

fun uartintr_loop :: "nat \<Rightarrow> (unit, 'x con_state_scheme) kop" where
  "uartintr_loop 0 = ret ()"
| "uartintr_loop (Suc n) =
     bind uartgetc (\<lambda>c.
     if c = - 1 then ret ()
     else andthen (consoleintr (of_int c)) (uartintr_loop n))"

definition uartintr :: "(unit, 'x con_state_scheme) kop" where
  "uartintr =
     bind (gets (\<lambda>s. length (uart_in s))) (\<lambda>n.
     andthen (uartintr_loop (n + 1)) (
     andthen (acquire Lk_uart) (
     andthen uartstart (
     release Lk_uart))))"

definition consoleinit :: "(unit, 'x con_state_scheme) kop" where
  "consoleinit =
     andthen (initlock Lk_cons ''cons'') (
     andthen uartinit (
     modify (\<lambda>s. s\<lparr>devsw := (devsw s)(CONSOLE := Dev_console)\<rparr>)))"

end
