(* ===== verification/Ring.thy ===== *)
theory Ring
  imports Xv6_Prelude
begin

text \<open>
  The interface of a bounded queue kept in a circular buffer. The kernel has three of them, each with its own
  representation of the indices: the pipe, the transmit buffer of the UART and the input buffer of the console.
  The locale states what the code around them relies on; the lemmas on sequences of operations are proved once.
\<close>

datatype 'b ring_op = Put 'b | Pop

locale bounded_queue =
  fixes ok :: "'q \<Rightarrow> bool"
    and items :: "'q \<Rightarrow> 'b list"
    and cap :: nat
    and full :: "'q \<Rightarrow> bool"
    and empty :: "'q \<Rightarrow> bool"
    and put :: "'b \<Rightarrow> 'q \<Rightarrow> 'q"
    and front :: "'q \<Rightarrow> 'b"
    and pop :: "'q \<Rightarrow> 'q"
  assumes len_law: "ok q \<Longrightarrow> length (items q) \<le> cap"
    and full_law: "ok q \<Longrightarrow> full q \<longleftrightarrow> length (items q) = cap"
    and empty_law: "ok q \<Longrightarrow> empty q \<longleftrightarrow> items q = []"
    and put_law: "ok q \<Longrightarrow> length (items q) < cap \<Longrightarrow> ok (put b q) \<and> items (put b q) = items q @ [b]"
    and pop_law: "ok q \<Longrightarrow> items q \<noteq> [] \<Longrightarrow> ok (pop q) \<and> items q = front q # items (pop q)"
begin

lemma put_many:
  "ok q \<Longrightarrow> length (items q) + length bs \<le> cap \<Longrightarrow> ok (fold put bs q) \<and> items (fold put bs q) = items q @ bs"
proof (induction bs arbitrary: q)
  case (Cons b bs)
  then have "ok (put b q)" "items (put b q) = items q @ [b]" using put_law [of q b] by auto
  then show ?case using Cons.IH [of "put b q"] Cons.prems(2) by simp
qed simp

lemma pop_many: "ok q \<Longrightarrow> k \<le> length (items q) \<Longrightarrow> ok ((pop ^^ k) q) \<and> items ((pop ^^ k) q) = drop k (items q)"
proof (induction k)
  case (Suc k)
  then have k: "ok ((pop ^^ k) q)" "items ((pop ^^ k) q) = drop k (items q)" by simp_all
  then have "items ((pop ^^ k) q) \<noteq> []" using Suc.prems(2) by simp
  then have "ok (pop ((pop ^^ k) q))" "drop k (items q) = front ((pop ^^ k) q) # items (pop ((pop ^^ k) q))"
    using pop_law [OF k(1)] k(2) by simp_all
  then show ?case using drop_Suc [of k "items q"] by (simp add: drop_tl)
qed simp

lemma front_many: "ok q \<Longrightarrow> k < length (items q) \<Longrightarrow> front ((pop ^^ k) q) = items q ! k"
  using pop_many [of q k] pop_law [of "(pop ^^ k) q"] by (metis Cons_nth_drop_Suc list.inject list.distinct(1) order.strict_implies_order)

text \<open>A schedule of operations, each skipped when its guard fails: what comes out of the queue, in order, is what was
  in it followed by what went in.\<close>

fun run_ops :: "'b ring_op list \<Rightarrow> 'q \<Rightarrow> 'b list \<times> 'b list \<times> 'q" where
  "run_ops [] q = ([], [], q)"
| "run_ops (Put b # xs) q =
     (if full q then run_ops xs q else let (i, out, r) = run_ops xs (put b q) in (b # i, out, r))"
| "run_ops (Pop # xs) q =
     (if empty q then run_ops xs q else let (i, out, r) = run_ops xs (pop q) in (i, front q # out, r))"

lemma run_ops_fifo: "ok q \<Longrightarrow> run_ops xs q = (i, out, r) \<Longrightarrow> ok r \<and> items q @ i = out @ items r"
proof (induction xs q arbitrary: i out r rule: run_ops.induct)
  case (2 b xs q)
  show ?case
  proof (cases "full q")
    case False
    then have "ok (put b q)" "items (put b q) = items q @ [b]"
      using put_law [of q b] len_law [OF 2(3)] full_law [OF 2(3)] 2(3) by auto
    then show ?thesis using 2(2) [OF False] 2(4) False by (auto split: prod.splits)
  qed (use 2 in auto)
next
  case (3 xs q)
  show ?case
  proof (cases "empty q")
    case False
    then have "ok (pop q)" "items q = front q # items (pop q)" using pop_law [of q] empty_law [OF 3(3)] 3(3) by auto
    then show ?thesis using 3(2) [OF False] 3(4) False by (auto split: prod.splits)
  qed (use 3 in auto)
qed auto

end

text \<open>Indices of a ring: positions less than the capacity apart are different slots.\<close>

lemma ring_slots_differ:
  fixes i j :: nat
  assumes "i < c" and "j < c" and "(a + i) mod c = (a + j) mod c"
  shows "i = j"
proof -
  have le: "x = y" if "x \<le> y" "y < c" "(a + x) mod c = (a + y) mod c" for x y :: nat
  proof -
    have "(a + y) mod c = (a + x) mod c \<longleftrightarrow> c dvd a + y - (a + x)" by (rule mod_eq_dvd_iff_nat) (use that in simp)
    then have "c dvd y - x" using that(3) by simp
    then show ?thesis using that nat_dvd_not_less [of "y - x" c] by fastforce
  qed
  show ?thesis using le [of i j] le [of j i] assms by (cases "i \<le> j") auto
qed

end
