(* ===== verification/Vm_Bytes.thy ===== *)
theory Vm_Bytes
  imports Vm_Props
begin

text \<open>
  User memory as the pipes and the console see it: one byte at a time, up to the first address that cannot be accessed.
\<close>

text \<open>How many of the \<open>n\<close> bytes from a user address can be accessed before the first that cannot.\<close>

definition ureach :: "store \<Rightarrow> u64 \<Rightarrow> nat \<Rightarrow> nat \<Rightarrow> nat" where
  "ureach m root a n = length (takeWhile (\<lambda>i. uacc m root ((a + i) div 4096)) [0..<n])"

lemma ureach_0 [simp]: "ureach m root a 0 = 0"
  by (simp add: ureach_def)

lemma ureach_Suc: "ureach m root a (Suc n) = (if uacc m root (a div 4096) then Suc (ureach m root (a + 1) n) else 0)"
  unfolding ureach_def upt_conv_Cons [OF zero_less_Suc] map_Suc_upt [symmetric] by (simp add: takeWhile_map comp_def)

lemma ureach_le: "ureach m root a n \<le> n"
  unfolding ureach_def by (metis length_takeWhile_le length_upt minus_nat.diff_0)

lemma ureach_all: "urange m root a n \<Longrightarrow> ureach m root a n = n"
  by (induction n arbitrary: a) (auto simp: ureach_Suc urange_def)

lemma urange_1: "urange m root a 1 \<longleftrightarrow> uacc m root (a div 4096)"
  unfolding urange_def by (metis add.right_neutral add_Suc_right less_Suc_eq_le nle_le One_nat_def less_Suc_eq)

lemma uacc_next:
  assumes "uacc m root (unat (va :: u64) div 4096)"
  shows "unat (va + 1) = unat va + 1"
proof -
  have "unat va div 4096 < 67108864" using assms by (simp add: uacc_def)
  then have "unat va + 1 < 2 ^ 64" by simp
  then show ?thesis by (simp add: unat_word_ariths)
qed

lemma copyin_1:
  assumes "user_space s root I fs" and "\<And>j. uacc (mem s) root j \<Longrightarrow> j \<in> I"
  obtains bs where "copyin root va 1 s = Ok (if uacc (mem s) root (unat va div 4096) then 0 else - 1, bs) s"
    and "uacc (mem s) root (unat va div 4096) \<Longrightarrow> bs = [ubyte (mem s) root (unat va)]"
proof -
  have "map (ubyte (mem s) root) [unat va..<unat va + 1] = [ubyte (mem s) root (unat va)]" by simp
  then show ?thesis using that copyin_spec [OF assms, where va = va and n = 1, unfolded urange_1] by metis
qed

lemma user_space_same:
  "mem t = mem s \<Longrightarrow> kend t = kend s \<Longrightarrow> freelist t = freelist s \<Longrightarrow> lk_free Lk_kmem (hw t) = lk_free Lk_kmem (hw s) \<Longrightarrow>
    intr_ok (hw t) = intr_ok (hw s) \<Longrightarrow> user_space t root I fs = user_space s root I fs"
  by (simp add: user_space_def addr_space_def kmem_pages_def)

lemma copyout_1:
  assumes us: "user_space s root I fs" "\<And>j. uacc (mem s) root j \<Longrightarrow> j \<in> I" and hw: "lock_cycle (hw s) = hw s"
  shows "\<exists>t. copyout root va [c] s = Ok (if uacc (mem s) root (unat va div 4096) then 0 else - 1) t \<and>
    t = s\<lparr>mem := mem t, freelist := freelist t\<rparr> \<and> user_space t root I fs \<and> uacc (mem t) root = uacc (mem s) root \<and>
    (\<forall>b. b div 4096 \<in> I \<longrightarrow> ubyte (mem t) root b =
      (if uacc (mem s) root (unat va div 4096) \<and> b = unat va then c else ubyte (mem s) root b))"
proof (cases "uacc (mem s) root (unat va div 4096)")
  case False
  then have "copyout root va [c] s = Ok (- 1) s"
    using walkaddr_user [OF us, of va] by (simp add: copyout.simps [of root va] Let_def bind_apply)
  then show ?thesis using us(1) False by (intro exI [of _ s]) simp
next
  case True
  then have ur: "urange (mem s) root (unat va) (length [c])" using urange_1 [of "mem s" root "unat va"] by simp
  obtain t where t: "copyout root va [c] s = Ok 0 t" "user_space t root I fs" "kmem_only s t"
    "\<forall>j. upte (mem t) root j = upte (mem s) root j" and
    b: "\<forall>a. a div 4096 \<in> I \<longrightarrow> ubyte (mem t) root a =
      (if unat va \<le> a \<and> a < unat va + length [c] then [c] ! (a - unat va) else ubyte (mem s) root a)"
    using copyout_spec [OF us, where va = va and src = "[c]"] ur by auto
  have e: "t = s\<lparr>mem := mem t, freelist := freelist t\<rparr>" using t(3) hw by (auto simp: kmem_only_def hw_quiet_def)
  have "uacc (mem t) root = uacc (mem s) root" using t(4) by (simp add: fun_eq_iff uacc_def)
  then show ?thesis using e t(1,2) b True by (intro exI [of _ t]) auto
qed

end
