(* ===== verification/Console_Props.thy ===== *)
theory Console_Props
  imports Console Ring Vm_Bytes Fs_Alloc
begin

text \<open>
  What the code of \<open>Console\<close> does with the transmit buffer of the UART: it is a bounded queue between \<open>uartputc\<close> and
  \<open>uartstart\<close>, and bytes leave through the transmit register in the order in which they were written.
\<close>

section \<open>The transmit buffer\<close>

abbreviation uart_len :: "'x con_state_scheme \<Rightarrow> nat" where
  "uart_len s \<equiv> (uart_tx_w s + UART_TX_BUF_SIZE - uart_tx_r s) mod UART_TX_BUF_SIZE"

definition uart_ok :: "'x con_state_scheme \<Rightarrow> bool" where
  "uart_ok s \<longleftrightarrow> uart_tx_w s < UART_TX_BUF_SIZE \<and> uart_tx_r s < UART_TX_BUF_SIZE"

definition uart_items :: "'x con_state_scheme \<Rightarrow> byte list" where
  "uart_items s = map (\<lambda>i. uart_tx_buf s ((uart_tx_r s + i) mod UART_TX_BUF_SIZE)) [0..<uart_len s]"

abbreviation uart_full :: "'x con_state_scheme \<Rightarrow> bool" where
  "uart_full s \<equiv> (uart_tx_w s + 1) mod UART_TX_BUF_SIZE = uart_tx_r s"

abbreviation uart_put :: "byte \<Rightarrow> 'x con_state_scheme \<Rightarrow> 'x con_state_scheme" where
  "uart_put c s \<equiv> s\<lparr>uart_tx_buf := (uart_tx_buf s)(uart_tx_w s := c), uart_tx_w := (uart_tx_w s + 1) mod UART_TX_BUF_SIZE\<rparr>"

abbreviation uart_pop :: "'x con_state_scheme \<Rightarrow> 'x con_state_scheme" where
  "uart_pop s \<equiv> s\<lparr>uart_tx_r := (uart_tx_r s + 1) mod UART_TX_BUF_SIZE\<rparr>"

lemma ring_len:
  fixes w r c :: nat
  assumes "w < c" and "r < c"
  shows "(w + c - r) mod c = (if r \<le> w then w - r else w + c - r)"
proof (cases "r \<le> w")
  case True
  then have "w + c - r = (w - r) + c" by simp
  then show ?thesis using True assms by (metis less_imp_diff_less mod_add_self2 mod_less)
qed (use assms in simp)

lemma ring_next: "(w :: nat) < c \<Longrightarrow> (w + 1) mod c = (if w + 1 = c then 0 else w + 1)"
  by auto

lemma ring_len_put:
  fixes w r c :: nat
  assumes "w < c" and "r < c" and "(w + c - r) mod c < c - 1"
  shows "((w + 1) mod c + c - r) mod c = Suc ((w + c - r) mod c)" and "(r + (w + c - r) mod c) mod c = w"
proof -
  note L = ring_len [OF assms(1,2)]
  show "((w + 1) mod c + c - r) mod c = Suc ((w + c - r) mod c)"
  proof (cases "w + 1 = c")
    case True
    then have r: "r \<le> w" "r \<noteq> 0" using assms(2,3) L by auto
    have "((w + 1) mod c + c - r) mod c = c - r" using True r assms by simp
    then show ?thesis unfolding L using True r by simp
  next
    case False
    then have w: "w + 1 < c" "(w + 1) mod c = w + 1" using assms(1) by simp_all
    show ?thesis unfolding w(2) ring_len [OF w(1) assms(2)] L using assms(2,3) unfolding L by auto
  qed
  have "r + (w - r) = w" if "r \<le> w" using that by simp
  moreover have "r + (w + c - r) = w + c" using assms(2) by simp
  ultimately show "(r + (w + c - r) mod c) mod c = w" unfolding L using assms(1) by (cases "r \<le> w") simp_all
qed

lemma ring_len_pop:
  fixes w r c :: nat
  assumes "w < c" and "r < c" and "0 < (w + c - r) mod c"
  shows "(w + c - (r + 1) mod c) mod c = (w + c - r) mod c - 1"
proof -
  note L = ring_len [OF assms(1,2)]
  show ?thesis
  proof (cases "r + 1 = c")
    case True
    then have "\<not> r \<le> w" using assms(1,3) L by auto
    then show ?thesis unfolding L using True assms(1) by simp
  next
    case False
    then have r: "r + 1 < c" "(r + 1) mod c = r + 1" using assms(2) by simp_all
    show ?thesis unfolding r(2) ring_len [OF assms(1) r(1)] L using assms(3) unfolding L by auto
  qed
qed

lemma uart_put_items:
  assumes "uart_ok s" and "length (uart_items s) < 31"
  shows "uart_ok (uart_put b s) \<and> uart_items (uart_put b s) = uart_items s @ [b]"
proof -
  have wr: "uart_tx_w s < 32" "uart_tx_r s < 32" using assms(1) by (simp_all add: uart_ok_def)
  define k where "k = uart_len s"
  have k: "k < 31" using assms(2) by (simp add: uart_items_def k_def)
  have k1: "uart_len (uart_put b s) = Suc k"
    using ring_len_put(1) [OF wr] k by (simp add: k_def)
  have slot: "uart_tx_w s = (uart_tx_r s + k) mod 32" using ring_len_put(2) [OF wr] k by (simp add: k_def)
  have "(uart_tx_r s + i) mod 32 \<noteq> uart_tx_w s" if "i < k" for i
    using ring_slots_differ [of i 32 k "uart_tx_r s"] that k slot by auto
  then have "map (\<lambda>i. uart_tx_buf (uart_put b s) ((uart_tx_r s + i) mod 32)) [0..<k] = uart_items s"
    by (simp add: uart_items_def k_def [symmetric])
  moreover have "uart_items (uart_put b s) = map (\<lambda>i. uart_tx_buf (uart_put b s) ((uart_tx_r s + i) mod 32)) [0..<Suc k]"
    unfolding uart_items_def k1 by simp
  ultimately show ?thesis using wr slot by (simp add: uart_ok_def)
qed

lemma uart_pop_items:
  assumes "uart_ok s" and "uart_items s \<noteq> []"
  shows "uart_ok (uart_pop s) \<and> uart_items s = uart_tx_buf s (uart_tx_r s) # uart_items (uart_pop s)"
proof -
  have wr: "uart_tx_w s < 32" "uart_tx_r s < 32" using assms(1) by (simp_all add: uart_ok_def)
  define k where "k = uart_len s"
  have k: "0 < k" using assms(2) by (simp add: uart_items_def k_def)
  have k1: "uart_len (uart_pop s) = k - 1"
    using ring_len_pop [OF wr] k by (simp add: k_def)
  have slot: "((uart_tx_r s + 1) mod 32 + i) mod 32 = (uart_tx_r s + Suc i) mod 32" for i
    by (simp add: mod_add_left_eq)
  have "[0..<k] = 0 # map Suc [0..<k - 1]" using k by (simp add: upt_conv_Cons map_Suc_upt)
  then have "uart_items s = uart_tx_buf s (uart_tx_r s mod 32) # map (\<lambda>i. uart_tx_buf s ((uart_tx_r s + Suc i) mod 32)) [0..<k - 1]"
    unfolding uart_items_def k_def [symmetric] by (simp add: comp_def)
  moreover have "uart_items (uart_pop s) = map (\<lambda>i. uart_tx_buf s ((uart_tx_r s + Suc i) mod 32)) [0..<k - 1]"
    unfolding uart_items_def k1 using slot by simp
  ultimately show ?thesis using wr by (simp add: uart_ok_def)
qed

interpretation uq: bounded_queue uart_ok uart_items 31 uart_full "\<lambda>s. uart_tx_w s = uart_tx_r s" uart_put
  "\<lambda>s. uart_tx_buf s (uart_tx_r s)" uart_pop
proof unfold_locales
  fix s :: "'x con_state_scheme" assume s: "uart_ok s"
  have l: "length (uart_items s) < 32" by (simp add: uart_items_def)
  then show "length (uart_items s) \<le> 31" by simp
  have wr: "uart_tx_w s < 32" "uart_tx_r s < 32" using s by (simp_all add: uart_ok_def)
  note L = ring_len [OF wr] ring_next [OF wr(1)]
  show "uart_full s \<longleftrightarrow> length (uart_items s) = 31" unfolding L(2) uart_items_def length_map length_upt L(1) using wr by auto
  show "uart_tx_w s = uart_tx_r s \<longleftrightarrow> uart_items s = []" unfolding uart_items_def map_is_Nil_conv upt_eq_Nil_conv L(1) using wr by auto
qed (use uart_put_items uart_pop_items in blast)+

section \<open>Sending\<close>

text \<open>The bytes sent and the bytes to be sent, in order.\<close>

definition uart_out :: "'x con_state_scheme \<Rightarrow> byte list" where
  "uart_out s = uart_thr s @ uart_items s"

text \<open>What the transmit side may change.\<close>

definition uart_frame :: "'x con_state_scheme \<Rightarrow> 'x con_state_scheme \<Rightarrow> bool" where
  "uart_frame s t \<longleftrightarrow> hw t = hw s \<and> mem t = mem s \<and> kend t = kend s \<and> freelist t = freelist s \<and> panicked t = panicked s \<and>
     uart_idle t = uart_idle s \<and> cons t = cons s \<and> (procs t = procs s \<or> procs t = woken Ch_uart_tx_r [0..<NPROC] (procs s))"

lemma woken_twice: "woken ch is (woken ch is P) = woken ch is P"
  by (auto simp: woken_def fun_eq_iff)

lemma uart_frame_refl: "uart_frame s s"
  by (simp add: uart_frame_def)

lemma uart_frame_trans: "uart_frame s t \<Longrightarrow> uart_frame t u \<Longrightarrow> uart_frame s u"
  by (auto simp: uart_frame_def woken_twice)

lemma uart_frame_proc:
  "uart_frame s t \<Longrightarrow> p_pagetable (procs t i) = p_pagetable (procs s i) \<and> p_killed (procs t i) = p_killed (procs s i)"
  by (auto simp: uart_frame_def woken_def split: if_splits)

lemma uartstart_loop_spec:
  assumes "uart_ok s" and "plocks_free (hw s)" and "intr_ok (hw s)" and "lock_cycle (hw s) = hw s" and "length (uart_items s) < fuel"
  shows "\<exists>t k. uartstart_loop fuel s = Ok () t \<and> uart_frame s t \<and> uart_ok t \<and> k \<le> length (uart_items s) \<and>
    uart_thr t = uart_thr s @ take k (uart_items s) \<and> uart_items t = drop k (uart_items s) \<and>
    (\<forall>i<k. uart_idle s (uart_polls s + i)) \<and> (k < length (uart_items s) \<longrightarrow> \<not> uart_idle s (uart_polls s + k)) \<and>
    uart_polls s \<le> uart_polls t"
  using assms
proof (induction fuel arbitrary: s)
  case (Suc fuel)
  show ?case
  proof (cases "uart_tx_w s = uart_tx_r s")
    case True
    then have "uart_items s = []" using uq.empty_law [OF Suc.prems(1)] by simp
    then show ?thesis using True Suc.prems by (intro exI [of _ s] exI [of _ 0]) (simp add: uart_frame_refl)
  next
    case False
    then have ne: "uart_items s \<noteq> []" using uq.empty_law [OF Suc.prems(1)] by simp
    define s1 where "s1 = s\<lparr>uart_polls := uart_polls s + 1\<rparr>"
    have it1: "uart_items s1 = uart_items s" by (simp add: s1_def uart_items_def)
    show ?thesis
    proof (cases "uart_idle s (uart_polls s)")
      case idle: False
      have "uartstart_loop (Suc fuel) s = Ok () s1"
        using False idle by (simp add: uart_tx_idle_def s1_def bind_apply andthen_apply)
      moreover have "uart_frame s s1" "uart_ok s1" "uart_thr s1 = uart_thr s" "uart_polls s \<le> uart_polls s1"
        using Suc.prems(1) by (simp_all add: s1_def uart_frame_def uart_ok_def)
      ultimately show ?thesis using it1 idle by (intro exI [of _ s1] exI [of _ 0]) simp
    next
      case idle: True
      let ?c = "uart_tx_buf s (uart_tx_r s)"
      define s2 where "s2 = s1\<lparr>uart_tx_r := (uart_tx_r s + 1) mod UART_TX_BUF_SIZE, procs := woken Ch_uart_tx_r [0..<NPROC] (procs s),
        uart_thr := uart_thr s @ [?c]\<rparr>"
      have run: "uartstart_loop (Suc fuel) s = uartstart_loop fuel s2"
        using False idle Suc.prems(2-4)
        by (simp add: uart_tx_idle_def s1_def s2_def bind_apply andthen_apply wakeup_run)
      have pp: "uart_ok (uart_pop s)" "uart_items s = ?c # uart_items (uart_pop s)"
        using uq.pop_law [OF Suc.prems(1) ne] by simp_all
      have it2: "uart_items s2 = uart_items (uart_pop s)" "uart_ok s2" "uart_frame s s2" "uart_thr s2 = uart_thr s @ [?c]"
        "uart_polls s2 = uart_polls s + 1" "uart_idle s2 = uart_idle s"
        using pp(1) by (simp_all add: s2_def s1_def uart_items_def uart_ok_def uart_frame_def)
      have h2: "hw s2 = hw s" by (simp add: s2_def s1_def)
      have len: "length (uart_items s2) < fuel" using Suc.prems(5) pp(2) it2(1) by simp
      obtain t k where t: "uartstart_loop fuel s2 = Ok () t" "uart_frame s2 t" "uart_ok t" "k \<le> length (uart_items s2)"
        "uart_thr t = uart_thr s2 @ take k (uart_items s2)" "uart_items t = drop k (uart_items s2)"
        "\<forall>i<k. uart_idle s2 (uart_polls s2 + i)" "k < length (uart_items s2) \<longrightarrow> \<not> uart_idle s2 (uart_polls s2 + k)"
        "uart_polls s2 \<le> uart_polls t"
        using Suc.IH [OF it2(2)] Suc.prems(2-4) len unfolding h2 by blast
      have "\<forall>i<Suc k. uart_idle s (uart_polls s + i)" using t(7) idle it2(5,6) by (auto simp: less_Suc_eq_0_disj)
      then show ?thesis
        using run t it2 pp(2) uart_frame_trans [OF it2(3) t(2)] by (intro exI [of _ t] exI [of _ "Suc k"]) auto
    qed
  qed
qed simp

lemma uartputc_spec:
  assumes ok: "uart_ok s" and lk: "lk_free Lk_uart (hw s)" "plocks_free (hw s)" "intr_ok (hw s)" "lock_cycle (hw s) = hw s" and pk: "\<not> panicked s"
    and room: "\<not> uart_full s"
  shows "\<exists>t. uartputc c s = Ok () t \<and> uart_frame s t \<and> uart_ok t \<and> uart_out t = uart_out s @ [c] \<and>
    length (uart_items t) \<le> length (uart_items s) + 1 \<and>
    ((\<forall>i. uart_idle s i) \<longrightarrow> uart_items t = []) \<and> ((\<forall>i. \<not> uart_idle s i) \<longrightarrow> uart_items t = uart_items s @ [c])"
proof -
  define s1 where "s1 = uart_put c (s\<lparr>hw := held Lk_uart (hw s)\<rparr>)"
  have l: "length (uart_items s) < 31" using room uq.full_law [OF ok] uq.len_law [OF ok] by simp
  have it: "uart_ok s1" "uart_items s1 = uart_items s @ [c]"
    using uq.put_law [OF ok l, of c] by (simp_all add: s1_def uart_ok_def uart_items_def)
  have h1: "plocks_free (hw s1)" "intr_ok (hw s1)" "lock_cycle (hw s1) = hw s1" using lk(2) by (simp_all add: s1_def plocks_free_def)
  have "length (uart_items s1) < 33" using l it(2) by simp
  then obtain t k where t: "uartstart s1 = Ok () t" "uart_frame s1 t" "uart_ok t" "k \<le> length (uart_items s1)"
    "uart_thr t = uart_thr s1 @ take k (uart_items s1)" "uart_items t = drop k (uart_items s1)"
    "\<forall>i<k. uart_idle s1 (uart_polls s1 + i)" "k < length (uart_items s1) \<longrightarrow> \<not> uart_idle s1 (uart_polls s1 + k)"
    using uartstart_loop_spec [OF it(1) h1, of 33] by (auto simp: uartstart_def)
  have id: "uart_idle s1 = uart_idle s" "uart_thr s1 = uart_thr s" "hw s1 = held Lk_uart (hw s)" by (simp_all add: s1_def)
  define u where "u = t\<lparr>hw := hw s\<rparr>"
  have ht: "hw t = held Lk_uart (hw s)" using t(2) id(3) by (simp add: uart_frame_def)
  then have run: "uartputc c s = Ok () u"
    using lk pk room t(1) by (simp add: uartputc_def uartputc_loop_def s1_def u_def)
  have u: "uart_items u = uart_items t" "uart_thr u = uart_thr t" "uart_ok u = uart_ok t" by (simp_all add: u_def uart_items_def uart_ok_def)
  have "uart_frame s u" using t(2) by (simp add: uart_frame_def u_def s1_def)
  moreover have "uart_out u = uart_out s @ [c]" unfolding uart_out_def u using t(5,6) it(2) id(2) by (simp del: take_append drop_append)
  moreover have "length (uart_items u) \<le> length (uart_items s) + 1" using t(6) u(1) it(2) by simp
  moreover have "(\<forall>i. uart_idle s i) \<longrightarrow> uart_items u = []" using t(4,6,8) id(1) u(1) by auto
  moreover have "(\<forall>i. \<not> uart_idle s i) \<longrightarrow> uart_items u = uart_items s @ [c]" using t(6,7) id(1) u(1) it(2) by (cases k) auto
  ultimately show ?thesis using run t(3) u(3) by blast
qed

lemma uartputc_full:
  assumes "uart_full s" and "lk_free Lk_uart (hw s)" and "lk_free (Lk_proc p) (hw s)" and "intr_ok (hw s)"
    and "cpu_proc (mycpu (hw s)) = Some p" and "noff (mycpu (hw s)) \<noteq> 0" and "\<not> panicked s"
  shows "uartputc c s = Panic ''sched locks''"
  using assms by (simp add: uartputc_def uartputc_loop_def sleep_def sched_def kop)

section \<open>The console\<close>

definition con_hw :: "nat \<Rightarrow> hw \<Rightarrow> bool" where
  "con_hw p h \<longleftrightarrow> lk_free Lk_cons h \<and> lk_free Lk_uart h \<and> plocks_free h \<and> intr_ok h \<and> cpu_proc (mycpu h) = Some p \<and> p < NPROC"

definition ucon :: "nat \<Rightarrow> u64 \<Rightarrow> nat set \<Rightarrow> u64 list \<Rightarrow> 'x con_state_scheme \<Rightarrow> bool" where
  "ucon p root I fs s \<longleftrightarrow> p_pagetable (procs s p) = root \<and> user_space s root I fs \<and> (\<forall>j. uacc (mem s) root j \<longrightarrow> j \<in> I) \<and> \<not> panicked s \<and> uart_ok s"

lemma consolewrite_loop_spec:
  assumes h: "con_hw p h" and "hw s = held Lk_cons h" and "ucon p root I fs s" and "a = unat (va + of_nat i)" and "r = ureach (mem s) root a n"
  shows "(consolewrite_loop (Usr va) i n s = Panic ''sched locks'' \<and> 31 \<le> length (uart_items s) + r \<and> \<not> ((\<forall>j. uart_idle s j) \<and> uart_items s = []) \<or>
    (\<exists>t. consolewrite_loop (Usr va) i n s = Ok (int (i + r)) (t\<lparr>hw := lock_cycle h\<rparr>) \<and> uart_frame s t \<and> uart_ok t \<and>
       uart_out t = uart_out s @ map (ubyte (mem s) root) [a..<a + r])) \<and>
    ((\<forall>j. \<not> uart_idle s j) \<and> 31 < length (uart_items s) + r \<longrightarrow> consolewrite_loop (Usr va) i n s = Panic ''sched locks'')"
  using assms(2-)
proof (induction n arbitrary: i s a r)
  case 0
  have "length (uart_items s) \<le> 31" using 0 uq.len_law [of s] by (simp add: ucon_def)
  then show ?case using 0 h by (auto simp: con_hw_def uart_frame_refl ucon_def intro!: exI [of _ s])
next
  case (Suc n)
  let ?acc = "uacc (mem s) root (a div 4096)" and ?b = "ubyte (mem s) root a"
  have us: "p_pagetable (procs s p) = root" "user_space s root I fs" "\<And>j. uacc (mem s) root j \<Longrightarrow> j \<in> I" "\<not> panicked s" "uart_ok s"
    using Suc.prems(2) by (auto simp: ucon_def)
  have l: "length (uart_items s) \<le> 31" using uq.len_law [OF us(5)] .
  obtain bs where c: "copyin root (va + of_nat i) 1 s = Ok (if ?acc then 0 else - 1, bs) s" "?acc \<Longrightarrow> bs = [?b]"
    using copyin_1 [OF us(2,3), of "va + of_nat i"] unfolding Suc.prems(3) by blast
  have cp: "curproc s = Ok p s" using h Suc.prems(1) by (simp add: con_hw_def)
  have ec: "either_copyin (Usr va) i 1 s = Ok (if ?acc then 0 else - 1, bs) s" using c(1) cp us(1) by (simp add: either_copyin_def)
  show ?case
  proof (cases ?acc)
    case False
    have r: "r = 0" using False Suc.prems(4) by (simp add: ureach_Suc)
    have "consolewrite_loop (Usr va) i (Suc n) s = Ok (int i) (s\<lparr>hw := lock_cycle h\<rparr>)"
      using ec False h Suc.prems(1) by (simp add: con_hw_def)
    then show ?thesis using r l us(5) by (auto simp: uart_frame_refl intro!: exI [of _ s])
  next
    case True
    have step: "consolewrite_loop (Usr va) i (Suc n) s = andthen (uartputc ?b) (consolewrite_loop (Usr va) (i + 1) n) s"
      using ec c(2) True by simp
    define r' where "r' = ureach (mem s) root (a + 1) n"
    have r: "r = Suc r'" using True Suc.prems(4) by (simp add: ureach_Suc r'_def)
    have hh: "lk_free Lk_uart (hw s)" "plocks_free (hw s)" "intr_ok (hw s)" "lock_cycle (hw s) = hw s" "lk_free (Lk_proc p) (hw s)"
      "cpu_proc (mycpu (hw s)) = Some p" "noff (mycpu (hw s)) \<noteq> 0"
      using h Suc.prems(1) by (simp_all add: con_hw_def plocks_free_def)
    show ?thesis
    proof (cases "uart_full s")
      case full: True
      have "length (uart_items s) = 31" using uq.full_law [OF us(5)] full by simp
      then show ?thesis using step uartputc_full [OF full hh(1,5,3,6,7) us(4), of ?b] by auto
    next
      case nfull: False
      obtain t where t: "uartputc ?b s = Ok () t" "uart_frame s t" "uart_ok t" "uart_out t = uart_out s @ [?b]"
        and len: "length (uart_items t) \<le> length (uart_items s) + 1"
        and t2: "(\<forall>i. uart_idle s i) \<longrightarrow> uart_items t = []" "(\<forall>i. \<not> uart_idle s i) \<longrightarrow> uart_items t = uart_items s @ [?b]"
        using uartputc_spec [OF us(5) hh(1-4) us(4) nfull] by blast
      have m: "mem t = mem s" "hw t = held Lk_cons h" "uart_idle t = uart_idle s" using t(2) Suc.prems(1) by (simp_all add: uart_frame_def)
      have ut: "ucon p root I fs t"
        using t(2,3) us uart_frame_proc [OF t(2), of p] user_space_same [of t s root I fs] by (simp add: ucon_def uart_frame_def)
      have a1: "a + 1 = unat (va + of_nat (i + 1))"
        using uacc_next [of "mem s" root "va + of_nat i"] True unfolding Suc.prems(3) by (simp add: ac_simps)
      note IH = Suc.IH [OF m(2) ut a1 refl, unfolded m(1,3), folded r'_def]
      have bs: "map (ubyte (mem s) root) [a..<a + r] = ?b # map (ubyte (mem s) root) [a + 1..<a + 1 + r']"
        unfolding r by (simp add: upt_conv_Cons del: upt_Suc)
      have run: "consolewrite_loop (Usr va) i (Suc n) s = consolewrite_loop (Usr va) (i + 1) n t" using step t(1) by simp
      show ?thesis
      proof (intro conjI impI)
        assume "(\<forall>j. \<not> uart_idle s j) \<and> 31 < length (uart_items s) + r"
        then show "consolewrite_loop (Usr va) i (Suc n) s = Panic ''sched locks''" using IH t2(2) r run by simp
      next
        show "consolewrite_loop (Usr va) i (Suc n) s = Panic ''sched locks'' \<and> 31 \<le> length (uart_items s) + r \<and>
            \<not> ((\<forall>j. uart_idle s j) \<and> uart_items s = []) \<or>
          (\<exists>t. consolewrite_loop (Usr va) i (Suc n) s = Ok (int (i + r)) (t\<lparr>hw := lock_cycle h\<rparr>) \<and> uart_frame s t \<and> uart_ok t \<and>
             uart_out t = uart_out s @ map (ubyte (mem s) root) [a..<a + r])"
        proof (cases "consolewrite_loop (Usr va) (i + 1) n t = Panic ''sched locks''")
          case True
          then show ?thesis using IH len t2(1) r run by auto
        next
          case False
          then obtain u where u: "consolewrite_loop (Usr va) (i + 1) n t = Ok (int (i + 1 + r')) (u\<lparr>hw := lock_cycle h\<rparr>)" "uart_frame t u"
            "uart_ok u" "uart_out u = uart_out t @ map (ubyte (mem s) root) [a + 1..<a + 1 + r']" using IH by blast
          then show ?thesis using run r bs t(4) uart_frame_trans [OF t(2) u(2)] by (intro disjI2 exI [of _ u]) simp
        qed
      qed
    qed
  qed
qed

text \<open>C19: Bytes written to the console leave through the UART in the order in which they were written. \<open>consolewrite\<close> of \<open>n\<close> bytes
  of user memory appends to what the UART has sent and still has to send the bytes up to the first address that cannot be
  read, and returns their number; the bytes before them are not reordered or lost. But it runs with the lock of the
  console, so when the transmit buffer fills up it cannot sleep: it panics in \<open>sched\<close>. That happens whenever more bytes are written than the
  buffer has room for while the UART is busy, and does not happen when the UART is always ready.\<close>

theorem consolewrite_in_order:
  assumes "con_hw p (hw s)" and "ucon p root I fs s" and "r = ureach (mem s) root (unat va) (nat n)"
  shows "(consolewrite (Usr va) n s = Panic ''sched locks'' \<and> 31 \<le> length (uart_items s) + r \<and> \<not> ((\<forall>j. uart_idle s j) \<and> uart_items s = []) \<or>
    (\<exists>t. consolewrite (Usr va) n s = Ok (int r) t \<and> uart_ok t \<and> mem t = mem s \<and>
       uart_out t = uart_out s @ map (ubyte (mem s) root) [unat va..<unat va + r])) \<and>
    ((\<forall>j. \<not> uart_idle s j) \<and> 31 < length (uart_items s) + r \<longrightarrow> consolewrite (Usr va) n s = Panic ''sched locks'')"
proof -
  let ?s = "s\<lparr>hw := held Lk_cons (hw s)\<rparr>"
  have run: "consolewrite (Usr va) n s = consolewrite_loop (Usr va) 0 (nat n) ?s" using assms(1) by (simp add: consolewrite_def con_hw_def)
  have u: "ucon p root I fs ?s"
    using assms(1,2) by (simp add: ucon_def uart_ok_def con_hw_def user_space_def addr_space_def kmem_pages_def)
  have it: "uart_items (t\<lparr>hw := g\<rparr>) = uart_items t" "uart_out (t\<lparr>hw := g\<rparr>) = uart_out t" "uart_ok (t\<lparr>hw := g\<rparr>) = uart_ok t" for t :: "'a con_state_scheme" and g
    by (simp_all add: uart_items_def uart_out_def uart_ok_def)
  note L = consolewrite_loop_spec [OF assms(1) _ u refl refl, where va = va and i = 0 and n = "nat n"]
  show ?thesis using L assms(3) unfolding run by (auto simp: it uart_frame_def)
qed


text \<open>The machine of \<open>fs_st0\<close> with a console, and the same with one page of user memory for process 0 and a UART that is
  always ready or never.\<close>

definition con_st0 :: con_state where
  "con_st0 = fs_state.extend fs_st0
     \<lparr>uart_in = [], uart_idle = (\<lambda>_. True), uart_polls = 0, uart_ctl = [], uart_tx_buf = (\<lambda>_. 0), uart_tx_w = 0, uart_tx_r = 0,
       cons = \<lparr>c_buf = (\<lambda>_. 0), c_r = 0, c_w = 0, c_e = 0\<rparr>, devsw = (\<lambda>_. Dev_none)\<rparr>"

lemmas con_st0_defs = con_st0_def fs_state.extend_def fs_st0_def log_state.extend_def log_st0_def
  disk_state.extend_def bcache_st0_def disk_st0_def sl_state.extend_def sl_st0_def proc_state.extend_def proc_st0_def

definition ucon_st0 :: "'x kmem_state_scheme \<Rightarrow> bool \<Rightarrow> con_state" where
  "ucon_st0 u b = con_st0\<lparr>kend := kend u, mem := mem u, freelist := freelist u,
     procs := (procs con_st0)(0 := (procs con_st0 0)\<lparr>p_pagetable := 0x87ff0000\<rparr>), uart_idle := (\<lambda>_. b)\<rparr>"

lemma con_st0_sel [simp]: "hw con_st0 = hw_p" "uart_thr con_st0 = []" "panicked con_st0 = False" "uart_tx_w con_st0 = 0" "uart_tx_r con_st0 = 0"
  by (simp_all add: con_st0_defs)

theorem consolewrite_in_order_witness:
  "\<exists>u t. consolewrite (Usr 0) 40 (ucon_st0 (u :: kmem_state) False) = Panic ''sched locks'' \<and>
     consolewrite (Usr 0) 40 (ucon_st0 u True) = Ok 40 t \<and> uart_out t = map (ubyte (mem u) 0x87ff0000) [0..<40]"
proof -
  obtain u gs where u: "user_space (u :: kmem_state) 0x87ff0000 {..<1} gs" "\<And>j. uacc (mem u) 0x87ff0000 j \<longleftrightarrow> j = 0"
    by (rule vm0_space) blast
  have "urange (mem u) 0x87ff0000 0 40" unfolding urange_def using u(2) by simp
  then have r: "40 = ureach (mem (ucon_st0 u b)) 0x87ff0000 (unat (0 :: u64)) (nat 40)" for b by (simp add: ureach_all ucon_st0_def)
  have h: "con_hw 0 (hw (ucon_st0 u b))" for b by (simp add: ucon_st0_def con_hw_def)
  have us: "ucon 0 0x87ff0000 {..<1} gs (ucon_st0 u b)" for b
    using u by (simp add: ucon_st0_def ucon_def uart_ok_def user_space_def addr_space_def kmem_pages_def)
  have o: "uart_items (ucon_st0 u b) = []" "uart_out (ucon_st0 u b) = []" "mem (ucon_st0 u b) = mem u" "uart_idle (ucon_st0 u b) j = b" for b j
    by (simp_all add: ucon_st0_def uart_items_def uart_out_def)
  have "consolewrite (Usr 0) 40 (ucon_st0 u False) = Panic ''sched locks''"
    using consolewrite_in_order [OF h us r, of False] by (simp add: o)
  moreover obtain t where "consolewrite (Usr 0) 40 (ucon_st0 u True) = Ok 40 t" "uart_out t = map (ubyte (mem u) 0x87ff0000) [0..<40]"
    using consolewrite_in_order [OF h us r, of True] by (auto simp: o)
  ultimately show ?thesis by blast
qed

end
