(* ===== verification/Pipe.thy ===== *)
theory Pipe
  imports Console
begin

text \<open>
  \<open>kernel/pipe.c\<close> without \<open>pipealloc\<close>, which is in \<open>File\<close> with the file table it fills, and the data of \<open>kernel/file.h\<close>.
  A pipe lives in a page from \<open>kalloc\<close> and is found by the address of the page. The loops run with the lock of the pipe held; where they sleep,
  \<open>pipewrite_resume\<close> and \<open>piperead_resume\<close> go on after the wakeup.
\<close>

section \<open>Data\<close>

abbreviation (input) PIPESIZE :: nat where "PIPESIZE \<equiv> 512"

record pipe =
  pi_data :: "nat \<Rightarrow> byte"
  nread :: u32
  nwrite :: u32
  readopen :: bool
  writeopen :: bool

datatype ftype = FD_NONE | FD_PIPE | FD_INODE | FD_DEVICE

record file_struct =
  f_type :: ftype
  f_ref :: u32
  f_readable :: bool
  f_writable :: bool
  f_pipe :: u64
  f_ip :: "nat option"
  f_off :: u32
  f_major :: u16

record file_state = con_state +
  pipes :: "u64 \<Rightarrow> pipe"
  files :: "nat \<Rightarrow> file_struct"

definition on_pipe :: "u64 \<Rightarrow> (pipe \<Rightarrow> pipe) \<Rightarrow> (unit, 'x file_state_scheme) kop" where
  "on_pipe pi f = modify (\<lambda>s. s\<lparr>pipes := (pipes s)(pi := f (pipes s pi))\<rparr>)"

section \<open>Code\<close>

definition pipeclose :: "u64 \<Rightarrow> bool \<Rightarrow> (unit, 'x file_state_scheme) kop" where
  "pipeclose pi writable =
     andthen (acquire (Lk_pipe pi)) (
     andthen
       (if writable then andthen (on_pipe pi (\<lambda>x. x\<lparr>writeopen := False\<rparr>)) (wakeup (Ch_pipe_nread pi))
        else andthen (on_pipe pi (\<lambda>x. x\<lparr>readopen := False\<rparr>)) (wakeup (Ch_pipe_nwrite pi))) (
     bind (gets (\<lambda>s. pipes s pi)) (\<lambda>x.
     if \<not> readopen x \<and> \<not> writeopen x then andthen (release (Lk_pipe pi)) (kfree pi)
     else release (Lk_pipe pi))))"

definition pipe_full :: "pipe \<Rightarrow> bool" where
  "pipe_full x \<longleftrightarrow> nwrite x = nread x + of_nat PIPESIZE"

definition pipe_put :: "byte \<Rightarrow> pipe \<Rightarrow> pipe" where
  "pipe_put c x = x\<lparr>pi_data := (pi_data x)(unat (nwrite x) mod PIPESIZE := c), nwrite := nwrite x + 1\<rparr>"

text \<open>\<open>pipewrite_loop pi addr i k\<close>: \<open>i\<close> bytes are written, \<open>k\<close> are left.\<close>

fun pipewrite_loop :: "u64 \<Rightarrow> u64 \<Rightarrow> nat \<Rightarrow> nat \<Rightarrow> (int, 'x file_state_scheme) kop" where
  "pipewrite_loop pi addr i 0 =
     andthen (wakeup (Ch_pipe_nread pi)) (andthen (release (Lk_pipe pi)) (ret (int i)))"
| "pipewrite_loop pi addr i (Suc k) =
     bind curproc (\<lambda>pr.
     bind (gets (\<lambda>s. pipes s pi)) (\<lambda>x.
     bind (gets (\<lambda>s. procs s pr)) (\<lambda>p.
     if pipe_full x then
       if \<not> readopen x \<or> p_killed p then andthen (release (Lk_pipe pi)) (ret (- 1))
       else andthen (wakeup (Ch_pipe_nread pi)) (sleep (Ch_pipe_nwrite pi) (Lk_pipe pi))
     else
       bind (copyin (p_pagetable p) (addr + of_nat i) 1) (\<lambda>r.
       if fst r = - 1 then
         andthen (wakeup (Ch_pipe_nread pi)) (andthen (release (Lk_pipe pi)) (ret (int i)))
       else andthen (on_pipe pi (pipe_put (hd (snd r)))) (pipewrite_loop pi addr (i + 1) k)))))"

definition pipewrite :: "u64 \<Rightarrow> u64 \<Rightarrow> int \<Rightarrow> (int, 'x file_state_scheme) kop" where
  "pipewrite pi addr n = andthen (acquire (Lk_pipe pi)) (pipewrite_loop pi addr 0 (nat n))"

definition pipewrite_resume :: "u64 \<Rightarrow> u64 \<Rightarrow> nat \<Rightarrow> nat \<Rightarrow> bool \<Rightarrow> (int, 'x file_state_scheme) kop" where
  "pipewrite_resume pi addr i k ie = andthen (sleep_resume (Lk_pipe pi) ie) (pipewrite_loop pi addr i k)"

fun piperead_loop :: "u64 \<Rightarrow> u64 \<Rightarrow> nat \<Rightarrow> nat \<Rightarrow> (int, 'x file_state_scheme) kop" where
  "piperead_loop pi addr i 0 = ret (int i)"
| "piperead_loop pi addr i (Suc k) =
     bind (gets (\<lambda>s. pipes s pi)) (\<lambda>x.
     if nread x = nwrite x then ret (int i)
     else
       let ch = pi_data x (unat (nread x) mod PIPESIZE) in
       andthen (on_pipe pi (\<lambda>x. x\<lparr>nread := nread x + 1\<rparr>)) (
       bind curproc (\<lambda>pr.
       bind (gets (\<lambda>s. p_pagetable (procs s pr))) (\<lambda>pt.
       bind (copyout pt (addr + of_nat i) [ch]) (\<lambda>r.
       if r = - 1 then ret (int i)
       else piperead_loop pi addr (i + 1) k)))))"

definition piperead_body :: "u64 \<Rightarrow> u64 \<Rightarrow> int \<Rightarrow> (int, 'x file_state_scheme) kop" where
  "piperead_body pi addr n =
     bind curproc (\<lambda>pr.
     bind (gets (\<lambda>s. pipes s pi)) (\<lambda>x.
     if nread x = nwrite x \<and> writeopen x then
       bind (gets (\<lambda>s. p_killed (procs s pr))) (\<lambda>killed.
       if killed then andthen (release (Lk_pipe pi)) (ret (- 1))
       else sleep (Ch_pipe_nread pi) (Lk_pipe pi))
     else
       bind (piperead_loop pi addr 0 (nat n)) (\<lambda>i.
       andthen (wakeup (Ch_pipe_nwrite pi)) (
       andthen (release (Lk_pipe pi)) (
       ret i)))))"

definition piperead :: "u64 \<Rightarrow> u64 \<Rightarrow> int \<Rightarrow> (int, 'x file_state_scheme) kop" where
  "piperead pi addr n = andthen (acquire (Lk_pipe pi)) (piperead_body pi addr n)"

definition piperead_resume :: "u64 \<Rightarrow> u64 \<Rightarrow> int \<Rightarrow> bool \<Rightarrow> (int, 'x file_state_scheme) kop" where
  "piperead_resume pi addr n ie = andthen (sleep_resume (Lk_pipe pi) ie) (piperead_body pi addr n)"

end
