(* ===== verification/Pipe_Fifo.thy ===== *)
theory Pipe_Fifo
  imports Pipe Console_Props
begin

text \<open>
  What the code of \<open>Pipe\<close> does: the bytes in a pipe are a bounded queue, \<open>pipewrite\<close> appends bytes of the writer's memory
  to it and \<open>piperead\<close> moves bytes from its front to the reader's memory.
\<close>

section \<open>The queue in a pipe\<close>

definition pipe_ok :: "pipe \<Rightarrow> bool" where
  "pipe_ok x \<longleftrightarrow> unat (nwrite x - nread x) \<le> PIPESIZE"

definition pipe_items :: "pipe \<Rightarrow> byte list" where
  "pipe_items x = map (\<lambda>i. pi_data x ((unat (nread x) + i) mod PIPESIZE)) [0..<unat (nwrite x - nread x)]"

abbreviation pipe_front :: "pipe \<Rightarrow> byte" where
  "pipe_front x \<equiv> pi_data x (unat (nread x) mod PIPESIZE)"

abbreviation pipe_pop :: "pipe \<Rightarrow> pipe" where
  "pipe_pop x \<equiv> x\<lparr>nread := nread x + 1\<rparr>"

lemma unat_add_mod_512: "unat (a + b :: u32) mod 512 = (unat a + unat b) mod 512"
  by (simp add: unat_word_ariths mod_mod_cancel)

lemma pipe_full_items: "pipe_ok x \<Longrightarrow> pipe_full x \<longleftrightarrow> length (pipe_items x) = PIPESIZE"
proof -
  have "nwrite x = nread x + 512 \<longleftrightarrow> nwrite x - nread x = 512" by (auto simp: algebra_simps)
  also have "\<dots> \<longleftrightarrow> unat (nwrite x - nread x) = 512" using unsigned_word_eqI [of "nwrite x - nread x" 512] by auto
  finally show ?thesis by (simp add: pipe_full_def pipe_items_def)
qed

lemma pipe_put_items:
  assumes "pipe_ok x" and "length (pipe_items x) < PIPESIZE"
  shows "pipe_ok (pipe_put b x) \<and> pipe_items (pipe_put b x) = pipe_items x @ [b]"
proof -
  define k where "k = unat (nwrite x - nread x)"
  have k: "k < 512" using assms(2) by (simp add: pipe_items_def k_def)
  have e: "nwrite x + 1 - nread x = (nwrite x - nread x) + 1" by simp
  have "unat (w + 1 :: u32) = Suc (unat w)" if "unat w < 512" for w using that by (simp add: unat_word_ariths)
  then have k1: "unat (nwrite x + 1 - nread x) = Suc k" using k unfolding e k_def by blast
  have slot: "unat (nwrite x) mod 512 = (unat (nread x) + k) mod 512"
    using unat_add_mod_512 [of "nread x" "nwrite x - nread x"] by (simp add: k_def)
  have "(unat (nread x) + i) mod 512 \<noteq> unat (nwrite x) mod 512" if "i < k" for i
    using ring_slots_differ [of i 512 k "unat (nread x)"] that k slot by auto
  then show ?thesis using k k1 slot by (simp add: pipe_ok_def pipe_items_def pipe_put_def k_def [symmetric])
qed

lemma pipe_pop_items:
  assumes "pipe_ok x" and "pipe_items x \<noteq> []"
  shows "pipe_ok (pipe_pop x) \<and> pipe_items x = pipe_front x # pipe_items (pipe_pop x)"
proof -
  define k where "k = unat (nwrite x - nread x)"
  have k: "0 < k" "k \<le> 512" using assms by (simp_all add: pipe_items_def pipe_ok_def k_def)
  then have "nwrite x - nread x \<noteq> 0" by (auto simp: k_def)
  then have "unat (nwrite x - nread x - 1) = k - 1" by (simp add: unat_minus_one k_def)
  then have k1: "unat (nwrite x - (nread x + 1)) = k - 1" by (simp add: diff_diff_eq)
  have "unat (nread x + 1) mod 512 = (unat (nread x) + 1) mod 512" using unat_add_mod_512 [of "nread x" 1] by simp
  then have slot: "(unat (nread x + 1) + i) mod 512 = (unat (nread x) + Suc i) mod 512" for i
    by (metis add_Suc_right add_Suc_shift mod_add_left_eq plus_1_eq_Suc add.commute)
  have "[0..<k] = 0 # map Suc [0..<k - 1]" using k(1) by (simp add: upt_conv_Cons map_Suc_upt)
  then have "pipe_items x = pipe_front x # map (\<lambda>i. pi_data x ((unat (nread x) + Suc i) mod 512)) [0..<k - 1]"
    unfolding pipe_items_def k_def [symmetric] by (simp add: comp_def)
  moreover have "pipe_items (pipe_pop x) = map (\<lambda>i. pi_data x ((unat (nread x) + Suc i) mod 512)) [0..<k - 1]"
    unfolding pipe_items_def by (simp add: k1 slot)
  ultimately show ?thesis using k k1 by (simp add: pipe_ok_def)
qed

interpretation pq: bounded_queue pipe_ok pipe_items PIPESIZE pipe_full "\<lambda>x. nread x = nwrite x" pipe_put pipe_front pipe_pop
proof unfold_locales
  fix x assume x: "pipe_ok x"
  then show "length (pipe_items x) \<le> PIPESIZE" by (simp add: pipe_ok_def pipe_items_def)
  show "pipe_full x \<longleftrightarrow> length (pipe_items x) = PIPESIZE" using x by (rule pipe_full_items)
  show "nread x = nwrite x \<longleftrightarrow> pipe_items x = []" by (auto simp: pipe_items_def unat_eq_0)
qed (use pipe_put_items pipe_pop_items in blast)+

section \<open>The loop of \<open>pipewrite\<close>\<close>

text \<open>The process, its locks and its memory while it is inside a pipe operation.\<close>

definition pipe_hw :: "u64 \<Rightarrow> nat \<Rightarrow> hw \<Rightarrow> bool" where
  "pipe_hw pi p h \<longleftrightarrow> lk_free (Lk_pipe pi) h \<and> plocks_free h \<and> intr_ok h \<and> cpu_proc (mycpu h) = Some p \<and> noff (mycpu h) = 0 \<and> p < NPROC"

definition upipe :: "nat \<Rightarrow> u64 \<Rightarrow> nat set \<Rightarrow> u64 list \<Rightarrow> 'x file_state_scheme \<Rightarrow> bool" where
  "upipe p root I fs s \<longleftrightarrow> p_pagetable (procs s p) = root \<and> user_space s root I fs \<and> (\<forall>j. uacc (mem s) root j \<longrightarrow> j \<in> I)"

lemma on_pipe_apply [simp, kop]: "on_pipe pi f s = Ok () (s\<lparr>pipes := (pipes s)(pi := f (pipes s pi))\<rparr>)"
  by (simp add: on_pipe_def)

lemma pipe_curproc:
  "pipe_hw pi p h \<Longrightarrow> hw s = held (Lk_pipe pi) h \<Longrightarrow> curproc s = Ok p s"
  by (simp add: pipe_hw_def)

lemma pipe_wakeup:
  "pipe_hw pi p h \<Longrightarrow> hw s = held (Lk_pipe pi) h \<Longrightarrow> wakeup ch s = Ok () (s\<lparr>procs := woken ch [0..<NPROC] (procs s)\<rparr>)"
  by (simp add: pipe_hw_def wakeup_run plocks_free_def)

lemma pipe_release:
  "pipe_hw pi p h \<Longrightarrow> hw s = held (Lk_pipe pi) h \<Longrightarrow> release (Lk_pipe pi) s = Ok () (s\<lparr>hw := lock_cycle h\<rparr>)"
  by (simp add: pipe_hw_def)

lemma pipe_sleep:
  "pipe_hw pi p h \<Longrightarrow> hw s = held (Lk_pipe pi) h \<Longrightarrow> sleep ch (Lk_pipe pi) s = Switch (s\<lparr>hw := held (Lk_proc p) h,
    procs := (procs s)(p := (procs s p)\<lparr>p_chan := ch, p_state := SLEEPING\<rparr>)\<rparr>)"
  by (simp add: pipe_hw_def plocks_free_def sleep_run)

definition asleep_on :: "chan \<Rightarrow> nat \<Rightarrow> (nat \<Rightarrow> proc) \<Rightarrow> nat \<Rightarrow> proc" where
  "asleep_on ch p P = P(p := (P p)\<lparr>p_chan := ch, p_state := SLEEPING\<rparr>)"

lemma pipewrite_loop_spec:
  assumes "pipe_hw pi p h" and "hw s = held (Lk_pipe pi) h" and "upipe p root I fs s" and "pipe_ok (pipes s pi)"
    and "room = PIPESIZE - length (pipe_items (pipes s pi))" and "a = unat (addr + of_nat i)"
    and "w = min room (ureach (mem s) root a k)"
    and "t = s\<lparr>pipes := (pipes s)(pi := fold pipe_put (map (ubyte (mem s) root) [a..<a + w]) (pipes s pi))\<rparr>"
  shows "pipewrite_loop pi addr i k s =
    (if w = k \<or> w < room then
       Ok (int (i + w)) (t\<lparr>hw := lock_cycle h, procs := woken (Ch_pipe_nread pi) [0..<NPROC] (procs s)\<rparr>)
     else if \<not> readopen (pipes s pi) \<or> p_killed (procs s p) then Ok (- 1) (t\<lparr>hw := lock_cycle h\<rparr>)
     else Switch (t\<lparr>hw := held (Lk_proc p) h,
       procs := asleep_on (Ch_pipe_nwrite pi) p (woken (Ch_pipe_nread pi) [0..<NPROC] (procs s))\<rparr>))"
  using assms(2-)
proof (induction k arbitrary: i s room a w t)
  case 0
  note P = pipe_wakeup [OF assms(1)] pipe_release [OF assms(1)]
  show ?case using 0 by (simp add: P)
next
  case (Suc k)
  note P = pipe_curproc [OF assms(1)] pipe_wakeup [OF assms(1)] pipe_release [OF assms(1)] pipe_sleep [OF assms(1)]
  let ?x = "pipes s pi" and ?acc = "uacc (mem s) root (a div 4096)"
  show ?case
  proof (cases "pipe_full ?x")
    case True
    then have w: "room = 0" "w = 0" using Suc.prems(3,4,6) pq.full_law [OF Suc.prems(3)] by simp_all
    show ?thesis using True w Suc.prems by (simp add: P asleep_on_def)
  next
    case False
    then have len: "length (pipe_items ?x) < 512" using pq.full_law [OF Suc.prems(3)] pq.len_law [OF Suc.prems(3)] by simp
    have us: "p_pagetable (procs s p) = root" "user_space s root I fs" "\<And>j. uacc (mem s) root j \<Longrightarrow> j \<in> I"
      using Suc.prems(2) by (auto simp: upipe_def)
    obtain bs where c: "copyin root (addr + of_nat i) 1 s = Ok (if ?acc then 0 else - 1, bs) s"
      "?acc \<Longrightarrow> bs = [ubyte (mem s) root a]"
      using copyin_1 [OF us(2,3), of "addr + of_nat i"] unfolding Suc.prems(5) by blast
    show ?thesis
    proof (cases ?acc)
      case False
      have w: "w = 0" "w < room" using False len Suc.prems(4,6) by (simp_all add: ureach_Suc)
      show ?thesis using c(1) False \<open>\<not> pipe_full ?x\<close> w Suc.prems(1,7) us(1) by (simp add: P)
    next
      case True
      let ?b = "ubyte (mem s) root a" and ?s = "s\<lparr>pipes := (pipes s)(pi := pipe_put (ubyte (mem s) root a) ?x)\<rparr>"
      have pp: "pipe_ok (pipe_put ?b ?x)" "pipe_items (pipe_put ?b ?x) = pipe_items ?x @ [?b]"
        using pq.put_law [OF Suc.prems(3) len] by simp_all
      have a1: "a + 1 = unat (addr + of_nat (i + 1))"
        using uacc_next [of "mem s" root "addr + of_nat i"] True unfolding Suc.prems(5) by (simp add: ac_simps)
      define v where "v = min (room - 1) (ureach (mem s) root (a + 1) k)"
      have w: "w = Suc v" using True len Suc.prems(4,6) by (auto simp: ureach_Suc v_def)
      have up: "upipe p root I fs ?s" using Suc.prems(2) by (simp add: upipe_def user_space_same [of ?s s])
      have run: "pipewrite_loop pi addr i (Suc k) s = pipewrite_loop pi addr (i + 1) k ?s"
        using c True \<open>\<not> pipe_full ?x\<close> Suc.prems(1) us(1) by (simp add: P)
      have ih: "pipewrite_loop pi addr (i + 1) k ?s =
        (let t' = ?s\<lparr>pipes := (pipes ?s)(pi := fold pipe_put (map (ubyte (mem s) root) [a + 1..<a + 1 + v]) (pipes ?s pi))\<rparr> in
        (if v = k \<or> v < room - 1 then
           Ok (int (i + 1 + v)) (t'\<lparr>hw := lock_cycle h, procs := woken (Ch_pipe_nread pi) [0..<NPROC] (procs ?s)\<rparr>)
         else if \<not> readopen (pipes ?s pi) \<or> p_killed (procs ?s p) then Ok (- 1) (t'\<lparr>hw := lock_cycle h\<rparr>)
         else Switch (t'\<lparr>hw := held (Lk_proc p) h,
           procs := asleep_on (Ch_pipe_nwrite pi) p (woken (Ch_pipe_nread pi) [0..<NPROC] (procs ?s))\<rparr>)))"
        unfolding Let_def
        by (rule Suc.IH [of ?s "room - 1" "a + 1" "i + 1"])
           (use Suc.prems(1,4) up pp a1 v_def in \<open>simp_all add: fun_upd_same del: fun_upd_apply fun_upd_upd\<close>)
      have bs: "map (ubyte (mem s) root) [a..<a + w] = ?b # map (ubyte (mem s) root) [a + 1..<a + 1 + v]"
        unfolding w by (simp add: upt_conv_Cons del: upt_Suc)
      have cond: "(w = Suc k \<or> w < room) = (v = k \<or> v < room - 1)" using w len Suc.prems(4) by auto
      have ro: "readopen (pipe_put ?b ?x) = readopen ?x" by (simp add: pipe_put_def)
      show ?thesis unfolding run ih Let_def Suc.prems(7) bs cond using ro w by simp
    qed
  qed
qed

section \<open>The loop of \<open>piperead\<close>\<close>

lemma pipes_mem_swap:
  "s\<lparr>pipes := P, mem := m, freelist := f\<rparr> = (s :: 'x file_state_scheme)\<lparr>mem := m, freelist := f, pipes := P\<rparr>"
  by (rule file_state.equality) simp_all

lemma piperead_loop_spec:
  assumes "pipe_hw pi p h" and "hw s = held (Lk_pipe pi) h" and "upipe p root I fs s" and "pipe_ok (pipes s pi)"
    and "q = pipe_items (pipes s pi)" and "a = unat (addr + of_nat i)" and "n = min k (length q)" and "r = ureach (mem s) root a n"
  shows "\<exists>t. piperead_loop pi addr i k s = Ok (int (i + r)) t \<and>
    t = s\<lparr>mem := mem t, freelist := freelist t, pipes := (pipes s)(pi := (pipe_pop ^^ min (r + 1) n) (pipes s pi))\<rparr> \<and>
    upipe p root I fs t \<and> uacc (mem t) root = uacc (mem s) root \<and>
    (\<forall>b. b div 4096 \<in> I \<longrightarrow> ubyte (mem t) root b = (if a \<le> b \<and> b < a + r then q ! (b - a) else ubyte (mem s) root b))"
  using assms(2-)
proof (induction k arbitrary: i s q a n r)
  case 0
  then show ?case by (intro exI [of _ s]) (auto simp: fun_upd_idem)
next
  case (Suc k)
  let ?x = "pipes s pi"
  show ?case
  proof (cases "nread ?x = nwrite ?x")
    case True
    then have "q = []" using pq.empty_law [OF Suc.prems(3)] Suc.prems(4) by simp
    then show ?thesis using Suc.prems True by (intro exI [of _ s]) (auto simp: fun_upd_idem)
  next
    case False
    then have ne: "pipe_items ?x \<noteq> []" using pq.empty_law [OF Suc.prems(3)] by simp
    have pp: "pipe_ok (pipe_pop ?x)" "q = pipe_front ?x # pipe_items (pipe_pop ?x)"
      using pq.pop_law [OF Suc.prems(3) ne] Suc.prems(4) by simp_all
    define s1 where "s1 = s\<lparr>pipes := (pipes s)(pi := pipe_pop ?x)\<rparr>"
    have us: "user_space s1 root I fs" "\<And>j. uacc (mem s1) root j \<Longrightarrow> j \<in> I" "p_pagetable (procs s1 p) = root"
      using Suc.prems(2) by (simp_all add: upipe_def s1_def user_space_same [of s1 s, unfolded s1_def])
    have h1: "hw s1 = held (Lk_pipe pi) h" "lock_cycle (hw s1) = hw s1" using Suc.prems(1) by (simp_all add: s1_def)
    have m1: "mem s1 = mem s" by (simp add: s1_def)
    obtain t where t: "copyout root (addr + of_nat i) [pipe_front ?x] s1 = Ok (if uacc (mem s) root (a div 4096) then 0 else - 1) t"
      "t = s1\<lparr>mem := mem t, freelist := freelist t\<rparr>" "user_space t root I fs" "uacc (mem t) root = uacc (mem s) root"
      and tb: "\<And>b. b div 4096 \<in> I \<Longrightarrow> ubyte (mem t) root b =
        (if uacc (mem s) root (a div 4096) \<and> b = a then pipe_front ?x else ubyte (mem s) root b)"
      using copyout_1 [OF us(1,2) h1(2), of "addr + of_nat i" "pipe_front ?x", unfolded m1 Suc.prems(5) [symmetric]] by blast
    have run: "piperead_loop pi addr i (Suc k) s =
      (if uacc (mem s) root (a div 4096) then piperead_loop pi addr (i + 1) k t else Ok (int i) t)"
      using False t(1) us(3) pipe_curproc [OF assms(1) h1(1)] by (simp add: s1_def)
    obtain m f where te: "t = s1\<lparr>mem := m, freelist := f\<rparr>" using t(2) by blast
    have "procs t = procs s1" by (simp add: te)
    then have ut: "upipe p root I fs t" unfolding upipe_def using t(3,4) us m1 by auto
    show ?thesis
    proof (cases "uacc (mem s) root (a div 4096)")
      case False
      have n: "r = 0" "min (r + 1) n = 1" using False Suc.prems(6,7) pp(2) by (simp_all add: ureach_Suc)
      have "t = s\<lparr>mem := mem t, freelist := freelist t, pipes := (pipes s)(pi := pipe_pop ?x)\<rparr>" using t(2) by (simp add: s1_def pipes_mem_swap)
      then show ?thesis using run False n ut t(4) tb by (intro exI [of _ t]) (auto simp del: fun_upd_apply piperead_loop.simps)
    next
      case True
      have pt: "pipes t pi = pipe_pop ?x" "hw t = held (Lk_pipe pi) h" by (subst t(2), simp add: s1_def Suc.prems(1))+
      have a1: "a + 1 = unat (addr + of_nat (i + 1))"
        using uacc_next [of "mem s" root "addr + of_nat i"] True unfolding Suc.prems(5) by (simp add: ac_simps)
      define q' n' r' where "q' = pipe_items (pipe_pop ?x)" and "n' = min k (length q')" and "r' = ureach (mem s) root (a + 1) n'"
      have n: "n = Suc n'" "r = Suc r'" "q = pipe_front ?x # q'"
        using pp(2) Suc.prems(6,7) True by (simp_all add: ureach_Suc q'_def n'_def r'_def)
      have qt: "pipe_ok (pipes t pi)" "q' = pipe_items (pipes t pi)" "r' = ureach (mem t) root (a + 1) n'"
        using pp(1) pt(1) t(4) by (simp_all add: q'_def r'_def ureach_def)
      obtain u where u: "piperead_loop pi addr (i + 1) k t = Ok (int (i + 1 + r')) u"
        "u = t\<lparr>mem := mem u, freelist := freelist u, pipes := (pipes t)(pi := (pipe_pop ^^ min (r' + 1) n') (pipes t pi))\<rparr>"
        "upipe p root I fs u" "uacc (mem u) root = uacc (mem t) root"
        and ub: "\<And>b. b div 4096 \<in> I \<Longrightarrow> ubyte (mem u) root b =
          (if a + 1 \<le> b \<and> b < a + 1 + r' then q' ! (b - (a + 1)) else ubyte (mem t) root b)"
        using Suc.IH [OF pt(2) ut qt(1,2) a1 n'_def qt(3)] by blast
      have upds: "(s1\<lparr>mem := m, freelist := f\<rparr>)\<lparr>mem := m', freelist := f', pipes := (pipes (s1\<lparr>mem := m, freelist := f\<rparr>))(pi := y)\<rparr> =
        s\<lparr>mem := m', freelist := f', pipes := (pipes s)(pi := y)\<rparr>" for m f m' f' y
        by (simp add: s1_def pipes_mem_swap)
      show ?thesis
      proof (intro exI [of _ u] conjI allI impI)
        show "piperead_loop pi addr i (Suc k) s = Ok (int (i + r)) u" using run True u(1) n by simp
        have "min (r + 1) n = Suc (min (r' + 1) n')" using n by simp
        then have "(pipe_pop ^^ min (r' + 1) n') (pipe_pop ?x) = (pipe_pop ^^ min (r + 1) n) ?x"
          by (simp only: funpow_Suc_right comp_def)
        then show "u = s\<lparr>mem := mem u, freelist := freelist u, pipes := (pipes s)(pi := (pipe_pop ^^ min (r + 1) n) ?x)\<rparr>"
          using u(2) pt(1) by (simp only: te upds)
        show "upipe p root I fs u" by (rule u(3))
        show "uacc (mem u) root = uacc (mem s) root" using u(4) t(4) by simp
        fix b assume b: "b div 4096 \<in> I"
        have "q ! (b - a) = q' ! (b - (a + 1))" if "a + 1 \<le> b" using that n(3) by (simp add: nth_Cons')
        then show "ubyte (mem u) root b = (if a \<le> b \<and> b < a + r then q ! (b - a) else ubyte (mem s) root b)"
          using ub [OF b] tb [OF b] True n by (cases "b = a") auto
      qed
    qed
  qed
qed

section \<open>The operations\<close>

lemma pipes_hw_swap: "s\<lparr>hw := h, pipes := P\<rparr> = (s :: 'x file_state_scheme)\<lparr>pipes := P, hw := h\<rparr>"
  by (rule file_state.equality) simp_all

lemma pipe_enter:
  assumes "pipe_hw pi p (hw s)" and "upipe p root I fs s"
  shows "acquire (Lk_pipe pi) s = Ok () (s\<lparr>hw := held (Lk_pipe pi) (hw s)\<rparr>)"
    and "upipe p root I fs (s\<lparr>hw := held (Lk_pipe pi) (hw s)\<rparr>)"
  using assms by (simp_all add: pipe_hw_def upipe_def user_space_same [of "s\<lparr>hw := held (Lk_pipe pi) (hw s)\<rparr>" s]
      user_space_def addr_space_def kmem_pages_def)

lemma pipewrite_spec:
  fixes s :: "'x file_state_scheme"
  assumes "pipe_hw pi p (hw s)" and "upipe p root I fs s" and "pipe_ok (pipes s pi)"
    and "q = pipe_items (pipes s pi)" and "a = unat addr" and "w = min (PIPESIZE - length q) (ureach (mem s) root a (nat n))"
  shows "\<exists>t y. t = s\<lparr>pipes := (pipes s)(pi := y)\<rparr> \<and> pipe_ok y \<and> pipe_items y = q @ map (ubyte (mem s) root) [a..<a + w] \<and>
      pipewrite pi addr n s =
        (if w = nat n \<or> length q + w < PIPESIZE then
           Ok (int w) (t\<lparr>hw := lock_cycle (hw s), procs := woken (Ch_pipe_nread pi) [0..<NPROC] (procs s)\<rparr>)
         else if \<not> readopen (pipes s pi) \<or> p_killed (procs s p) then Ok (- 1) (t\<lparr>hw := lock_cycle (hw s)\<rparr>)
         else Switch (t\<lparr>hw := held (Lk_proc p) (hw s),
           procs := asleep_on (Ch_pipe_nwrite pi) p (woken (Ch_pipe_nread pi) [0..<NPROC] (procs s))\<rparr>))"
proof -
  note E = pipe_enter [OF assms(1,2)]
  let ?s = "s\<lparr>hw := held (Lk_pipe pi) (hw s)\<rparr>" and ?bs = "map (ubyte (mem s) root) [a..<a + w]"
  have L: "length q \<le> 512" using pq.len_law [OF assms(3)] assms(4) by simp
  have y: "pipe_ok (fold pipe_put ?bs (pipes s pi))" "pipe_items (fold pipe_put ?bs (pipes s pi)) = q @ ?bs"
    using pq.put_many [OF assms(3), of ?bs] assms(4,6) L by simp_all
  have c: "w < 512 - length q \<longleftrightarrow> length q + w < 512" by auto
  show ?thesis
    unfolding pipewrite_def
    using pipewrite_loop_spec [OF assms(1) _ E(2) _ refl refl refl refl, of addr 0 "nat n"] E(1) y assms(3-6) c
    by (intro exI [of _ "s\<lparr>pipes := (pipes s)(pi := fold pipe_put ?bs (pipes s pi))\<rparr>"] exI [of _ "fold pipe_put ?bs (pipes s pi)"])
       (simp add: pipes_hw_swap)
qed

lemma piperead_empty:
  assumes "pipe_hw pi p (hw s)" and "upipe p root I fs s" and "pipe_ok (pipes s pi)" and "pipe_items (pipes s pi) = []"
    and "writeopen (pipes s pi)"
  shows "piperead pi addr n s =
      (if p_killed (procs s p) then Ok (- 1) (s\<lparr>hw := lock_cycle (hw s)\<rparr>)
       else Switch (s\<lparr>hw := held (Lk_proc p) (hw s), procs := asleep_on (Ch_pipe_nread pi) p (procs s)\<rparr>))"
proof -
  note E = pipe_enter [OF assms(1,2)]
  note P = pipe_curproc [OF assms(1)] pipe_release [OF assms(1)] pipe_sleep [OF assms(1)]
  have "nread (pipes s pi) = nwrite (pipes s pi)" using pq.empty_law [OF assms(3)] assms(4) by simp
  then show ?thesis unfolding piperead_def piperead_body_def using E(1) assms(5) by (simp add: P asleep_on_def)
qed

lemma piperead_spec:
  fixes s :: "'x file_state_scheme"
  assumes "pipe_hw pi p (hw s)" and "upipe p root I fs s" and "pipe_ok (pipes s pi)"
    and "q = pipe_items (pipes s pi)" and "a = unat addr" and "r = ureach (mem s) root a (min (nat n) (length q))"
    and "q \<noteq> [] \<or> \<not> writeopen (pipes s pi)"
  shows "\<exists>t y. t = s\<lparr>mem := mem t, freelist := freelist t, pipes := (pipes s)(pi := y)\<rparr> \<and>
      pipe_ok y \<and> pipe_items y = drop (min (r + 1) (min (nat n) (length q))) q \<and> user_space t root I fs \<and>
      (\<forall>b. b div 4096 \<in> I \<longrightarrow> ubyte (mem t) root b = (if a \<le> b \<and> b < a + r then q ! (b - a) else ubyte (mem s) root b)) \<and>
      piperead pi addr n s = Ok (int r) (t\<lparr>hw := lock_cycle (hw s), procs := woken (Ch_pipe_nwrite pi) [0..<NPROC] (procs s)\<rparr>)"
proof -
  note E = pipe_enter [OF assms(1,2)]
  note P = pipe_curproc [OF assms(1)] pipe_wakeup [OF assms(1)] pipe_release [OF assms(1)]
  let ?s = "s\<lparr>hw := held (Lk_pipe pi) (hw s)\<rparr>" and ?k = "min (r + 1) (min (nat n) (length q))"
  let ?y = "(pipe_pop ^^ ?k) (pipes s pi)"
  have y: "pipe_ok ?y" "pipe_items ?y = drop ?k q" using pq.pop_many [OF assms(3), of ?k] assms(4) by simp_all
  have ne: "\<not> (nread (pipes s pi) = nwrite (pipes s pi) \<and> writeopen (pipes s pi))" using pq.empty_law [OF assms(3)] assms(4,7) by simp
  obtain u where u: "piperead_loop pi addr 0 (nat n) ?s = Ok (int r) u"
    "u = ?s\<lparr>mem := mem u, freelist := freelist u, pipes := (pipes s)(pi := ?y)\<rparr>" "upipe p root I fs u"
    and ub: "\<forall>b. b div 4096 \<in> I \<longrightarrow> ubyte (mem u) root b = (if a \<le> b \<and> b < a + r then q ! (b - a) else ubyte (mem s) root b)"
    using piperead_loop_spec [OF assms(1) _ E(2) _ refl refl refl refl, of addr 0 "nat n"] assms(3-6) by auto
  obtain m f where ue: "u = ?s\<lparr>mem := m, freelist := f, pipes := (pipes s)(pi := ?y)\<rparr>" using u(2) by blast
  define t where "t = s\<lparr>mem := m, freelist := f, pipes := (pipes s)(pi := ?y)\<rparr>"
  have hu: "hw u = held (Lk_pipe pi) (hw s)" "procs u = procs s" "mem u = mem t" by (simp_all add: ue t_def)
  have run: "piperead pi addr n s = Ok (int r) (u\<lparr>hw := lock_cycle (hw s), procs := woken (Ch_pipe_nwrite pi) [0..<NPROC] (procs s)\<rparr>)"
    unfolding piperead_def piperead_body_def using E(1) ne u(1) hu by (auto simp: P)
  have eq: "u\<lparr>hw := lock_cycle (hw s), procs := P\<rparr> = t\<lparr>hw := lock_cycle (hw s), procs := P\<rparr>" for P
    by (simp add: ue t_def pipes_hw_swap [symmetric])
  have us: "user_space t root I fs"
  proof -
    have "user_space u root I fs" using u(3) by (simp add: upipe_def)
    moreover have "user_space t root I fs = user_space u root I fs"
      by (rule user_space_same) (use assms(1,2) in \<open>simp_all add: ue t_def pipe_hw_def upipe_def user_space_def addr_space_def kmem_pages_def\<close>)
    ultimately show ?thesis by simp
  qed
  have te: "t = s\<lparr>mem := mem t, freelist := freelist t, pipes := (pipes s)(pi := ?y)\<rparr>" by (simp add: t_def)
  show ?thesis using te y us ub run unfolding hu(3) eq by blast
qed

section \<open>Properties\<close>

text \<open>C9: A pipe is a queue of at most 512 bytes. \<open>pipewrite\<close> appends to it, in order, the bytes of the caller's memory: as
  many of the \<open>n\<close> as fit and as can be read. It returns their number and wakes the readers, unless the queue is full first: then
  it returns -1 when there is no reader or the process is killed, and otherwise sleeps, having woken the readers. \<open>piperead\<close>
  on an empty pipe with a writer sleeps, or returns -1 when the process is killed; otherwise it stores the front of the queue in the
  caller's memory and nothing else there, removes it, returns the number of bytes and wakes the writers. A byte whose
  address cannot be written is removed and lost. Neither panics, and neither changes another pipe.\<close>

theorem pipe_is_fifo:
  fixes s :: "'x file_state_scheme"
  assumes "pipe_hw pi p (hw s)" and "upipe p root I fs s" and "pipe_ok (pipes s pi)"
    and "q = pipe_items (pipes s pi)" and "a = unat addr" and "w = min (PIPESIZE - length q) (ureach (mem s) root a (nat n))"
    and "r = ureach (mem s) root a (min (nat n) (length q))"
  shows "(\<exists>t y. t = s\<lparr>pipes := (pipes s)(pi := y)\<rparr> \<and> pipe_ok y \<and> pipe_items y = q @ map (ubyte (mem s) root) [a..<a + w] \<and>
      pipewrite pi addr n s =
        (if w = nat n \<or> length q + w < PIPESIZE then
           Ok (int w) (t\<lparr>hw := lock_cycle (hw s), procs := woken (Ch_pipe_nread pi) [0..<NPROC] (procs s)\<rparr>)
         else if \<not> readopen (pipes s pi) \<or> p_killed (procs s p) then Ok (- 1) (t\<lparr>hw := lock_cycle (hw s)\<rparr>)
         else Switch (t\<lparr>hw := held (Lk_proc p) (hw s),
           procs := asleep_on (Ch_pipe_nwrite pi) p (woken (Ch_pipe_nread pi) [0..<NPROC] (procs s))\<rparr>))) \<and>
    (q = [] \<and> writeopen (pipes s pi) \<longrightarrow> piperead pi addr n s =
        (if p_killed (procs s p) then Ok (- 1) (s\<lparr>hw := lock_cycle (hw s)\<rparr>)
         else Switch (s\<lparr>hw := held (Lk_proc p) (hw s), procs := asleep_on (Ch_pipe_nread pi) p (procs s)\<rparr>))) \<and>
    (q \<noteq> [] \<or> \<not> writeopen (pipes s pi) \<longrightarrow> (\<exists>t y. t = s\<lparr>mem := mem t, freelist := freelist t, pipes := (pipes s)(pi := y)\<rparr> \<and>
      pipe_ok y \<and> pipe_items y = drop (min (r + 1) (min (nat n) (length q))) q \<and> user_space t root I fs \<and>
      (\<forall>b. b div 4096 \<in> I \<longrightarrow> ubyte (mem t) root b = (if a \<le> b \<and> b < a + r then q ! (b - a) else ubyte (mem s) root b)) \<and>
      piperead pi addr n s = Ok (int r) (t\<lparr>hw := lock_cycle (hw s), procs := woken (Ch_pipe_nwrite pi) [0..<NPROC] (procs s)\<rparr>)))"
proof (intro conjI impI)
  show "piperead pi addr n s =
        (if p_killed (procs s p) then Ok (- 1) (s\<lparr>hw := lock_cycle (hw s)\<rparr>)
         else Switch (s\<lparr>hw := held (Lk_proc p) (hw s), procs := asleep_on (Ch_pipe_nread pi) p (procs s)\<rparr>))"
    if q: "q = [] \<and> writeopen (pipes s pi)"
  proof (rule piperead_empty [OF assms(1-3)])
    show "pipe_items (pipes s pi) = []" using q assms(4) by simp
  qed (use q in blast)
qed (rule pipewrite_spec [OF assms(1-6)], rule piperead_spec [OF assms(1-5,7)])

text \<open>The machine of \<open>con_st0\<close> with no pipe in use, and the same with one page of user memory for process 0.\<close>

definition file_st0 :: file_state where
  "file_st0 = con_state.extend con_st0
     \<lparr>pipes = (\<lambda>_. \<lparr>pi_data = (\<lambda>_. 0), nread = 0, nwrite = 0, readopen = True, writeopen = True\<rparr>),
       files = (\<lambda>_. \<lparr>f_type = FD_NONE, f_ref = 0, f_readable = False, f_writable = False, f_pipe = 0, f_ip = None, f_off = 0, f_major = 0\<rparr>)\<rparr>"

definition user_st0 :: "'x kmem_state_scheme \<Rightarrow> file_state" where
  "user_st0 u = file_st0\<lparr>kend := kend u, mem := mem u, freelist := freelist u,
     procs := (procs file_st0)(0 := (procs file_st0 0)\<lparr>p_pagetable := 0x87ff0000\<rparr>)\<rparr>"

lemmas file_st0_defs = file_st0_def con_state.extend_def con_st0_defs

lemma file_st0_sel [simp]:
  "hw file_st0 = hw_p" "pipes file_st0 pi = \<lparr>pi_data = (\<lambda>_. 0), nread = 0, nwrite = 0, readopen = True, writeopen = True\<rparr>"
  "uart_thr file_st0 = []" "procs file_st0 0 = proc0\<lparr>p_pid := 1, p_state := RUNNING\<rparr>"
  by (simp_all add: file_st0_defs)

lemma user_st0_facts:
  assumes "user_space u 0x87ff0000 {..<1} gs" and "\<And>j. uacc (mem u) 0x87ff0000 j \<longleftrightarrow> j = 0"
  shows "pipe_hw pi 0 (hw (user_st0 u))" and "upipe 0 0x87ff0000 {..<1} gs (user_st0 u)" and "mem (user_st0 u) = mem u"
    and "pipes (user_st0 u) = pipes file_st0" and "user_space (user_st0 u) 0x87ff0000 {..<1} gs"
proof -
  show "pipe_hw pi 0 (hw (user_st0 u))" by (simp add: user_st0_def pipe_hw_def)
  show m: "mem (user_st0 u) = mem u" "pipes (user_st0 u) = pipes file_st0" by (simp_all add: user_st0_def)
  have "user_space (user_st0 u) 0x87ff0000 {..<1} gs = user_space u 0x87ff0000 {..<1} gs"
    using assms(1) by (simp add: user_st0_def user_space_def addr_space_def kmem_pages_def)
  then show "user_space (user_st0 u) 0x87ff0000 {..<1} gs" using assms(1) by simp
  then show "upipe 0 0x87ff0000 {..<1} gs (user_st0 u)" using m assms(2) by (simp add: upipe_def user_st0_def)
qed

theorem pipe_is_fifo_witness:
  "\<exists>u t v. pipewrite 0x87ff7000 5 3 (user_st0 (u :: kmem_state)) = Ok 3 t \<and> pipe_items (pipes t 0x87ff7000) = map (ubyte (mem u) 0x87ff0000) [5..<8] \<and>
    piperead 0x87ff7000 100 9 t = Ok 3 v \<and> pipe_items (pipes v 0x87ff7000) = []"
proof -
  obtain u gs where u: "user_space (u :: kmem_state) 0x87ff0000 {..<1} gs" "\<And>j. uacc (mem u) 0x87ff0000 j \<longleftrightarrow> j = 0"
    by (rule vm0_space) blast
  note F = user_st0_facts [OF u]
  have "urange (mem u) 0x87ff0000 a 3" if "a < 4000" for a unfolding urange_def using that u(2) by simp
  then have ur: "ureach (mem u) 0x87ff0000 5 3 = 3" "ureach (mem u) 0x87ff0000 100 3 = 3" by (simp_all add: ureach_all)
  have ok: "pipe_ok (pipes (user_st0 u) 0x87ff7000)" and it: "pipe_items (pipes (user_st0 u) 0x87ff7000) = []"
    by (simp_all add: F(4) pipe_ok_def pipe_items_def)
  have w: "3 = min (PIPESIZE - length ([] :: byte list)) (ureach (mem (user_st0 u)) 0x87ff0000 5 (nat 3))"
    and a: "5 = unat (5 :: u64)" "100 = unat (100 :: u64)" by (simp_all add: F(3) ur)
  obtain y where y: "pipe_ok y" "pipe_items y = map (ubyte (mem u) 0x87ff0000) [5..<8]"
    and run: "pipewrite 0x87ff7000 5 3 (user_st0 u) = Ok 3 ((user_st0 u)\<lparr>pipes := (pipes (user_st0 u))(0x87ff7000 := y),
      hw := lock_cycle (hw (user_st0 u)), procs := woken (Ch_pipe_nread 0x87ff7000) [0..<NPROC] (procs (user_st0 u))\<rparr>)"
    using pipe_is_fifo [OF F(1,2) ok it [symmetric] a(1) w refl, THEN conjunct1] F(3) by auto
  define t where "t = (user_st0 u)\<lparr>pipes := (pipes (user_st0 u))(0x87ff7000 := y),
      hw := lock_cycle (hw (user_st0 u)), procs := woken (Ch_pipe_nread 0x87ff7000) [0..<NPROC] (procs (user_st0 u))\<rparr>"
  have pt: "pipes t 0x87ff7000 = y" "mem t = mem u" by (simp_all add: t_def F(3))
  have ht: "pipe_hw 0x87ff7000 0 (hw t)" using F(1) [of "0x87ff7000"] by (simp add: t_def pipe_hw_def plocks_free_def)
  have "user_space t 0x87ff0000 {..<1} gs" using F(5) by (simp add: t_def user_space_same [of t "user_st0 u", unfolded t_def])
  then have ut: "upipe 0 0x87ff0000 {..<1} gs t"
    using F(2) pt(2) F(3) by (auto simp: upipe_def t_def woken_def)
  have r: "3 = ureach (mem t) 0x87ff0000 100 (min (nat 9) (length (pipe_items y)))" using ur(2) pt(2) y(2) by (simp add: numeral_3_eq_3)
  have okt: "pipe_ok (pipes t 0x87ff7000)" and itt: "pipe_items y = pipe_items (pipes t 0x87ff7000)" "pipe_items y \<noteq> []"
    using y pt(1) by simp_all
  obtain v where "piperead 0x87ff7000 100 9 t = Ok 3 v" "pipe_items (pipes v 0x87ff7000) = []"
  proof -
    have dr: "min (3 + 1) (min (nat 9) (length (pipe_items y))) = 3" using y(2) by simp
    obtain v z where z: "v = t\<lparr>mem := mem v, freelist := freelist v, pipes := (pipes t)(0x87ff7000 := z)\<rparr>" "pipe_items z = drop 3 (pipe_items y)"
      and run: "piperead 0x87ff7000 100 9 t = Ok (int 3) (v\<lparr>hw := lock_cycle (hw t), procs := woken (Ch_pipe_nwrite 0x87ff7000) [0..<NPROC] (procs t)\<rparr>)"
      using pipe_is_fifo [OF ht ut okt itt(1) a(2) refl r, THEN conjunct2, THEN conjunct2, THEN mp, OF disjI1 [OF itt(2)]]
      unfolding dr by blast
    have "pipes v 0x87ff7000 = z" by (subst z(1)) simp
    then have "pipe_items (pipes v 0x87ff7000) = []" using z(2) y(2) by simp
    then show ?thesis using that [of "v\<lparr>hw := lock_cycle (hw t), procs := woken (Ch_pipe_nwrite 0x87ff7000) [0..<NPROC] (procs t)\<rparr>"] run by simp
  qed
  then show ?thesis using run y(2) pt(1) unfolding t_def [symmetric] by blast
qed

end
