(* ===== verification/File.thy ===== *)
theory File
  imports Pipe
begin

text \<open>
  \<open>kernel/file.c\<close> and \<open>pipealloc\<close> of \<open>kernel/pipe.c\<close>: the table of open files. The functions of the device switch are
  those \<open>consoleinit\<close> installs. A file structure is an index into \<open>files\<close>.
\<close>

section \<open>Code\<close>

definition on_file :: "nat \<Rightarrow> (file_struct \<Rightarrow> file_struct) \<Rightarrow> (unit, 'x file_state_scheme) kop" where
  "on_file f g = modify (\<lambda>s. s\<lparr>files := (files s)(f := g (files s f))\<rparr>)"

definition fileinit :: "(unit, 'x file_state_scheme) kop" where
  "fileinit = initlock Lk_ftable ''ftable''"

fun filealloc_scan :: "nat list \<Rightarrow> (nat option, 'x file_state_scheme) kop" where
  "filealloc_scan [] = andthen (release Lk_ftable) (ret None)"
| "filealloc_scan (f # fs) =
     bind (gets (\<lambda>s. f_ref (files s f))) (\<lambda>r.
     if r = 0 then
       andthen (on_file f (\<lambda>x. x\<lparr>f_ref := 1\<rparr>)) (
       andthen (release Lk_ftable) (
       ret (Some f)))
     else filealloc_scan fs)"

definition filealloc :: "(nat option, 'x file_state_scheme) kop" where
  "filealloc = andthen (acquire Lk_ftable) (filealloc_scan [0..<NFILE])"

definition filedup :: "nat \<Rightarrow> (nat, 'x file_state_scheme) kop" where
  "filedup f =
     andthen (acquire Lk_ftable) (
     bind (gets (\<lambda>s. f_ref (files s f))) (\<lambda>r.
     andthen (panic_if (sint r < 1) ''filedup'') (
     andthen (on_file f (\<lambda>x. x\<lparr>f_ref := f_ref x + 1\<rparr>)) (
     andthen (release Lk_ftable) (
     ret f)))))"

text \<open>Dropping the reference to an inode that may be null; a null pointer faults.\<close>

definition iput_opt :: "nat option \<Rightarrow> (unit, 'x file_state_scheme) kop" where
  "iput_opt p = (case p of None \<Rightarrow> panic ''kerneltrap'' | Some ip \<Rightarrow> iput ip)"

definition fileclose :: "nat \<Rightarrow> (unit, 'x file_state_scheme) kop" where
  "fileclose f =
     andthen (acquire Lk_ftable) (
     bind (gets (\<lambda>s. f_ref (files s f))) (\<lambda>r.
     andthen (panic_if (sint r < 1) ''fileclose'') (
     andthen (on_file f (\<lambda>x. x\<lparr>f_ref := f_ref x - 1\<rparr>)) (
     if sint (r - 1) > 0 then release Lk_ftable
     else
       bind (gets (\<lambda>s. files s f)) (\<lambda>ff.
       andthen (on_file f (\<lambda>x. x\<lparr>f_ref := 0, f_type := FD_NONE\<rparr>)) (
       andthen (release Lk_ftable) (
       if f_type ff = FD_PIPE then pipeclose (f_pipe ff) (f_writable ff)
       else if f_type ff = FD_INODE \<or> f_type ff = FD_DEVICE then
         andthen begin_op (
         andthen (iput_opt (f_ip ff)) (
         end_op))
       else ret ())))))))"

definition pipealloc :: "((nat \<times> nat) option, 'x file_state_scheme) kop" where
  "pipealloc =
     bind filealloc (\<lambda>f0.
     case f0 of
       None \<Rightarrow> ret None
     | Some f0 \<Rightarrow>
         bind filealloc (\<lambda>f1.
         case f1 of
           None \<Rightarrow> andthen (fileclose f0) (ret None)
         | Some f1 \<Rightarrow>
             bind kalloc (\<lambda>pi.
             if pi = 0 then andthen (fileclose f0) (andthen (fileclose f1) (ret None))
             else
               andthen (on_pipe pi (\<lambda>x. x\<lparr>readopen := True, writeopen := True, nwrite := 0, nread := 0\<rparr>)) (
               andthen (initlock (Lk_pipe pi) ''pipe'') (
               andthen (on_file f0 (\<lambda>x. x\<lparr>f_type := FD_PIPE, f_readable := True, f_writable := False, f_pipe := pi\<rparr>)) (
               andthen (on_file f1 (\<lambda>x. x\<lparr>f_type := FD_PIPE, f_readable := False, f_writable := True, f_pipe := pi\<rparr>)) (
               ret (Some (f0, f1)))))))))"

text \<open>An inode of a file that may be null: \<open>ilock\<close> panics on it.\<close>

definition ino_of :: "nat option \<Rightarrow> nat" where
  "ino_of p = (case p of None \<Rightarrow> 0 | Some ip \<Rightarrow> ip)"

definition filestat :: "nat \<Rightarrow> u64 \<Rightarrow> (int, 'x file_state_scheme) kop" where
  "filestat f addr =
     bind curproc (\<lambda>p.
     bind (gets (\<lambda>s. files s f)) (\<lambda>ff.
     if f_type ff = FD_INODE \<or> f_type ff = FD_DEVICE then
       andthen (ilock (f_ip ff)) (
       bind (stati (ino_of (f_ip ff))) (\<lambda>st.
       andthen (iunlock (f_ip ff)) (
       bind (gets (\<lambda>s. p_pagetable (procs s p))) (\<lambda>pt.
       bind (copyout pt addr st) (\<lambda>r.
       ret (if r < 0 then - 1 else 0))))))
     else ret (- 1)))"

definition dev_read :: "devfn \<Rightarrow> u64 \<Rightarrow> int \<Rightarrow> (int, 'x file_state_scheme) kop" where
  "dev_read d addr n = (case d of Dev_none \<Rightarrow> ret (- 1) | Dev_console \<Rightarrow> consoleread True addr n)"

definition dev_write :: "devfn \<Rightarrow> u64 \<Rightarrow> int \<Rightarrow> (int, 'x file_state_scheme) kop" where
  "dev_write d addr n = (case d of Dev_none \<Rightarrow> ret (- 1) | Dev_console \<Rightarrow> consolewrite (Usr addr) n)"

definition bad_major :: "u16 \<Rightarrow> bool" where
  "bad_major m \<longleftrightarrow> sint m < 0 \<or> sint m \<ge> int NDEV"

definition fileread :: "nat \<Rightarrow> u64 \<Rightarrow> int \<Rightarrow> (int, 'x file_state_scheme) kop" where
  "fileread f addr n =
     bind (gets (\<lambda>s. files s f)) (\<lambda>ff.
     if \<not> f_readable ff then ret (- 1)
     else if f_type ff = FD_PIPE then piperead (f_pipe ff) addr n
     else if f_type ff = FD_DEVICE then
       if bad_major (f_major ff) then ret (- 1)
       else bind (gets (\<lambda>s. devsw s (unat (f_major ff)))) (\<lambda>d. dev_read d addr n)
     else if f_type ff = FD_INODE then
       andthen (ilock (f_ip ff)) (
       bind (readi (ino_of (f_ip ff)) True addr (f_off ff) (of_int n)) (\<lambda>r.
       andthen (if sint (fst r) > 0 then on_file f (\<lambda>x. x\<lparr>f_off := f_off x + fst r\<rparr>) else ret ()) (
       andthen (iunlock (f_ip ff)) (
       ret (sint (fst r))))))
     else panic ''fileread'')"

definition filewrite_chunk :: "nat \<Rightarrow> u64 \<Rightarrow> int \<Rightarrow> int \<Rightarrow> (int, 'x file_state_scheme) kop" where
  "filewrite_chunk f addr i n1 =
     andthen begin_op (
     bind (gets (\<lambda>s. files s f)) (\<lambda>ff.
     andthen (ilock (f_ip ff)) (
     bind (gets (\<lambda>s. f_off (files s f))) (\<lambda>off.
     bind (writei (ino_of (f_ip ff)) (Usr (addr + of_int i)) off (of_int n1)) (\<lambda>r.
     andthen (if r > 0 then on_file f (\<lambda>x. x\<lparr>f_off := f_off x + of_int r\<rparr>) else ret ()) (
     andthen (iunlock (f_ip ff)) (
     andthen end_op (
     ret r))))))))"

abbreviation (input) write_max :: int where "write_max \<equiv> 3072"

function filewrite_loop :: "nat \<Rightarrow> u64 \<Rightarrow> int \<Rightarrow> int \<Rightarrow> (int, 'x file_state_scheme) kop" where
  "filewrite_loop f addr n i s =
     (if i < n then
        (let n1 = min (n - i) write_max in
         bind (filewrite_chunk f addr i n1) (\<lambda>r.
         if r < 0 then ret i
         else andthen (panic_if (r \<noteq> n1) ''short filewrite'') (filewrite_loop f addr n (i + r)))) s
      else ret i s)"
  by pat_completeness auto
termination
  by (relation "measure (\<lambda>(f, addr, n, i, s). nat (n - i))") (auto split: if_splits)

declare filewrite_loop.simps [simp del]

definition filewrite :: "nat \<Rightarrow> u64 \<Rightarrow> int \<Rightarrow> (int, 'x file_state_scheme) kop" where
  "filewrite f addr n =
     bind (gets (\<lambda>s. files s f)) (\<lambda>ff.
     if \<not> f_writable ff then ret (- 1)
     else if f_type ff = FD_PIPE then pipewrite (f_pipe ff) addr n
     else if f_type ff = FD_DEVICE then
       if bad_major (f_major ff) then ret (- 1)
       else bind (gets (\<lambda>s. devsw s (unat (f_major ff)))) (\<lambda>d. dev_write d addr n)
     else if f_type ff = FD_INODE then
       bind (filewrite_loop f addr n 0) (\<lambda>i. ret (if i = n then n else - 1))
     else panic ''filewrite'')"

end
