(* ===== verification/Proc_Life.thy ===== *)
theory Proc_Life
  imports File
begin

text \<open>
  The life of a process: \<open>userinit\<close>, \<open>fork\<close> and \<open>exit\<close> of \<open>kernel/proc.c\<close>, and \<open>exec\<close> with \<open>loadseg\<close> of
  \<open>kernel/exec.c\<close>. A null \<open>initproc\<close>, parent or current directory faults when it is used, which panics in
  \<open>kerneltrap\<close>. The arguments of \<open>exec\<close> are the strings, without their final zero bytes.
\<close>

record sys_state = file_state +
  ticks :: u32
  forkret_first :: bool

section \<open>Memory helpers\<close>

definition the_ptr :: "nat option \<Rightarrow> (nat, 's) kop" where
  "the_ptr p = (case p of None \<Rightarrow> panic ''kerneltrap'' | Some i \<Rightarrow> ret i)"

definition tf_write :: "nat \<Rightarrow> u64 \<Rightarrow> u64 \<Rightarrow> (unit, 'x proc_state_scheme) kop" where
  "tf_write i off v = bind (gets (\<lambda>s. p_trapframe (procs s i))) (\<lambda>tf. mem_write64 (tf + off) v)"

definition tf_read :: "nat \<Rightarrow> u64 \<Rightarrow> (u64, 'x proc_state_scheme) kop" where
  "tf_read i off = bind (gets (\<lambda>s. p_trapframe (procs s i))) (\<lambda>tf. mem_read64 (tf + off))"

abbreviation (input) TF_EPC :: u64 where "TF_EPC \<equiv> 24"
abbreviation (input) TF_SP :: u64 where "TF_SP \<equiv> 48"
abbreviation (input) TF_A0 :: u64 where "TF_A0 \<equiv> 112"
abbreviation (input) TF_A1 :: u64 where "TF_A1 \<equiv> 120"
abbreviation (input) TF_A7 :: u64 where "TF_A7 \<equiv> 168"

section \<open>The first process\<close>

definition initcode :: "byte list" where
  "initcode =
    [0x17, 0x05, 0x00, 0x00, 0x13, 0x05, 0x45, 0x02, 0x97, 0x05, 0x00, 0x00, 0x93,
     0x85, 0x35, 0x02, 0x93, 0x08, 0x70, 0x00, 0x73, 0x00, 0x00, 0x00, 0x93, 0x08,
     0x20, 0x00, 0x73, 0x00, 0x00, 0x00, 0xef, 0xf0, 0x9f, 0xff, 0x2f, 0x69, 0x6e,
     0x69, 0x74, 0x00, 0x00, 0x24, 0x00, 0x00, 0x00, 0x00, 0x00, 0x00, 0x00, 0x00]"

definition userinit :: "(unit, 'x sys_state_scheme) kop" where
  "userinit =
     bind allocproc (\<lambda>r.
     andthen (modify (\<lambda>s. s\<lparr>initproc := r\<rparr>)) (
     bind (the_ptr r) (\<lambda>p.
     bind (gets (\<lambda>s. p_pagetable (procs s p))) (\<lambda>pt.
     andthen (uvminit pt initcode) (
     andthen (on_proc p (\<lambda>x. x\<lparr>p_sz := PGSIZE\<rparr>)) (
     andthen (tf_write p TF_EPC 0) (
     andthen (tf_write p TF_SP PGSIZE) (
     andthen (on_proc p (\<lambda>x. x\<lparr>p_name := safestrcpy (p_name x) (cstr (bytes_of ''initcode'')) 16\<rparr>)) (
     bind (namei [SLASH]) (\<lambda>ip.
     andthen (on_proc p (\<lambda>x. x\<lparr>p_cwd := ip\<rparr>)) (
     andthen (on_proc p (\<lambda>x. x\<lparr>p_state := RUNNABLE\<rparr>)) (
     release (Lk_proc p)))))))))))))"

section \<open>Fork\<close>

definition fork_file :: "nat \<Rightarrow> nat \<Rightarrow> nat \<Rightarrow> (unit, 'x sys_state_scheme) kop" where
  "fork_file p np i =
     bind (gets (\<lambda>s. p_ofile (procs s p) i)) (\<lambda>f.
     case f of
       None \<Rightarrow> ret ()
     | Some f \<Rightarrow>
         bind (filedup f) (\<lambda>f.
         on_proc np (\<lambda>x. x\<lparr>p_ofile := (p_ofile x)(i := Some f)\<rparr>)))"

definition fork_copy :: "nat \<Rightarrow> nat \<Rightarrow> (int, 'x sys_state_scheme) kop" where
  "fork_copy p np =
     bind (gets (\<lambda>s. procs s p)) (\<lambda>x.
     andthen (on_proc np (\<lambda>y. y\<lparr>p_sz := p_sz x\<rparr>)) (
     andthen (on_proc np (\<lambda>y. y\<lparr>p_parent := Some p\<rparr>)) (
     bind (gets (\<lambda>s. read_bytes (mem s) (p_trapframe x) 288)) (\<lambda>tf.
     bind (gets (\<lambda>s. p_trapframe (procs s np))) (\<lambda>ntf.
     andthen (modify (\<lambda>s. s\<lparr>mem := write_bytes (mem s) ntf tf\<rparr>)) (
     andthen (tf_write np TF_A0 0) (
     andthen (for_each [0..<NOFILE] (fork_file p np)) (
     bind (the_ptr (p_cwd x)) (\<lambda>cwd.
     bind (idup cwd) (\<lambda>ip.
     andthen (on_proc np (\<lambda>y. y\<lparr>p_cwd := Some ip\<rparr>)) (
     andthen (on_proc np (\<lambda>y. y\<lparr>p_name := safestrcpy (p_name y) (p_name x) 16\<rparr>)) (
     bind (gets (\<lambda>s. p_pid (procs s np))) (\<lambda>pid.
     andthen (on_proc np (\<lambda>y. y\<lparr>p_state := RUNNABLE\<rparr>)) (
     andthen (release (Lk_proc np)) (
     ret (sint pid))))))))))))))))"

definition fork :: "(int, 'x sys_state_scheme) kop" where
  "fork =
     bind curproc (\<lambda>p.
     bind allocproc (\<lambda>r.
     case r of
       None \<Rightarrow> ret (- 1)
     | Some np \<Rightarrow>
         bind (gets (\<lambda>s. procs s p)) (\<lambda>x.
         bind (gets (\<lambda>s. p_pagetable (procs s np))) (\<lambda>npt.
         bind (uvmcopy (p_pagetable x) npt (p_sz x)) (\<lambda>c.
         if c < 0 then
           andthen (freeproc np) (
           andthen (release (Lk_proc np)) (
           ret (- 1)))
         else fork_copy p np)))))"

section \<open>Exit\<close>

definition exit_close :: "nat \<Rightarrow> nat \<Rightarrow> (unit, 'x sys_state_scheme) kop" where
  "exit_close p fd =
     bind (gets (\<lambda>s. p_ofile (procs s p) fd)) (\<lambda>f.
     case f of
       None \<Rightarrow> ret ()
     | Some f \<Rightarrow>
         andthen (fileclose f) (
         on_proc p (\<lambda>x. x\<lparr>p_ofile := (p_ofile x)(fd := None)\<rparr>)))"

fun exit_children :: "nat \<Rightarrow> nat \<Rightarrow> nat list \<Rightarrow> (unit, 'x sys_state_scheme) kop" where
  "exit_children p count [] = ret ()"
| "exit_children p count (c # cs) =
     bind (gets (\<lambda>s. procs s c)) (\<lambda>x.
     if p_parent x = Some p then
       bind (gets (\<lambda>s. p_pid (procs s p))) (\<lambda>pid.
       andthen (info_with_color (''proc %d exit, child %d, pid %d, name %s, state %s'' @ [CHR 0x0A])
         [Pint pid, Pint (of_nat count), Pint (p_pid x), Pstr (Some (name_bytes (p_name x))), Pstr (Some (bytes_of (state_name (p_state x))))]) (
       exit_children p (count + 1) cs))
     else exit_children p count cs)"

definition exit_zombie :: "nat \<Rightarrow> u32 \<Rightarrow> ('a, 'x sys_state_scheme) kop" where
  "exit_zombie p status =
     bind (gets (\<lambda>s. p_parent (procs s p))) (\<lambda>op.
     andthen (release (Lk_proc p)) (
     bind (the_ptr op) (\<lambda>parent.
     andthen (acquire (Lk_proc parent)) (
     andthen (acquire (Lk_proc p)) (
     bind (gets (\<lambda>s. p_parent (procs s p))) (\<lambda>pp.
     bind (the_ptr pp) (\<lambda>pp.
     bind (gets (\<lambda>s. procs s pp)) (\<lambda>y.
     bind (gets (\<lambda>s. p_pid (procs s p))) (\<lambda>pid.
     andthen (info_with_color (''proc %d exit, parent pid %d, name %s, state %s'' @ [CHR 0x0A])
       [Pint pid, Pint (p_pid y), Pstr (Some (name_bytes (p_name y))), Pstr (Some (bytes_of (state_name (p_state y))))]) (
     andthen (exit_children p 0 [0..<NPROC]) (
     andthen (reparent p) (
     andthen (wakeup1 parent) (
     andthen (on_proc p (\<lambda>x. x\<lparr>p_xstate := status\<rparr>)) (
     andthen (on_proc p (\<lambda>x. x\<lparr>p_state := ZOMBIE\<rparr>)) (
     andthen (release (Lk_proc parent)) (
     sched))))))))))))))))"

definition exit :: "u32 \<Rightarrow> ('a, 'x sys_state_scheme) kop" where
  "exit status =
     bind curproc (\<lambda>p.
     bind (gets initproc) (\<lambda>ip.
     andthen (panic_if (ip = Some p) ''init exiting'') (
     andthen (for_each [0..<NOFILE] (exit_close p)) (
     andthen begin_op (
     bind (gets (\<lambda>s. p_cwd (procs s p))) (\<lambda>cwd.
     andthen (iput_opt cwd) (
     andthen end_op (
     andthen (on_proc p (\<lambda>x. x\<lparr>p_cwd := None\<rparr>)) (
     bind (the_ptr ip) (\<lambda>init.
     andthen (acquire (Lk_proc init)) (
     andthen (wakeup1 init) (
     andthen (release (Lk_proc init)) (
     andthen (acquire (Lk_proc p)) (
     exit_zombie p status))))))))))))))"

text \<open>What the code does if the scheduler ever ran a zombie.\<close>

definition exit_resume :: "('a, 'x sys_state_scheme) kop" where
  "exit_resume = panic ''zombie exit''"

section \<open>Exec\<close>

abbreviation (input) ELF_MAGIC :: u32 where "ELF_MAGIC \<equiv> 0x464C457F"

fun loadseg_loop :: "u64 \<Rightarrow> u64 \<Rightarrow> nat \<Rightarrow> u32 \<Rightarrow> u32 \<Rightarrow> nat list \<Rightarrow> (int, 'x sys_state_scheme) kop" where
  "loadseg_loop pagetable va ip offset sz [] = ret 0"
| "loadseg_loop pagetable va ip offset sz (k # ks) =
     (let i = of_nat (4096 * k) :: u32; n = (if sz - i < 4096 then sz - i else 4096) in
      bind (walkaddr pagetable (va + ucast i)) (\<lambda>pa.
      andthen (panic_if (pa = 0) ''loadseg: address should exist'') (
      bind (readi ip False pa (offset + i) n) (\<lambda>r.
      andthen (modify (\<lambda>s. s\<lparr>mem := write_bytes (mem s) pa (snd r)\<rparr>)) (
      if fst r \<noteq> n then ret (- 1)
      else loadseg_loop pagetable va ip offset sz ks)))))"

text \<open>The loop visits the multiples of the page size below \<open>sz\<close>.\<close>

definition loadseg :: "u64 \<Rightarrow> u64 \<Rightarrow> nat \<Rightarrow> u32 \<Rightarrow> u32 \<Rightarrow> (int, 'x sys_state_scheme) kop" where
  "loadseg pagetable va ip offset sz =
     andthen (panic_if (va mod PGSIZE \<noteq> 0) ''loadseg: va must be page aligned'') (
     loadseg_loop pagetable va ip offset sz [0..<(unat sz + 4095) div 4096])"

text \<open>The program headers: whether all segments were loaded, and the size reached.\<close>

fun exec_segments :: "nat \<Rightarrow> u64 \<Rightarrow> nat \<Rightarrow> u32 \<Rightarrow> u64 \<Rightarrow> (bool \<times> u64, 'x sys_state_scheme) kop" where
  "exec_segments ip pagetable 0 off sz = ret (True, sz)"
| "exec_segments ip pagetable (Suc k) off sz =
     bind (readi ip False 0 off 56) (\<lambda>r.
     let ph = snd r; type = rd32 ph 0; offset = rd64 ph 8; vaddr = rd64 ph 16; filesz = rd64 ph 32; memsz = rd64 ph 40 in
     if fst r \<noteq> 56 then ret (False, sz)
     else if type \<noteq> 1 then exec_segments ip pagetable k (off + 56) sz
     else if memsz < filesz then ret (False, sz)
     else if vaddr + memsz < vaddr then ret (False, sz)
     else
       bind (uvmalloc pagetable sz (vaddr + memsz)) (\<lambda>sz1.
       if sz1 = 0 then ret (False, sz)
       else if vaddr mod PGSIZE \<noteq> 0 then ret (False, sz1)
       else
         bind (loadseg pagetable vaddr ip (ucast offset) (ucast filesz)) (\<lambda>l.
         if l < 0 then ret (False, sz1)
         else exec_segments ip pagetable k (off + 56) sz1)))"

fun exec_args :: "u64 \<Rightarrow> u64 \<Rightarrow> byte list list \<Rightarrow> u64 \<Rightarrow> u64 list \<Rightarrow> ((u64 \<times> u64 list) option, 'x sys_state_scheme) kop" where
  "exec_args pagetable stackbase [] sp ustack = ret (Some (sp, ustack @ [0]))"
| "exec_args pagetable stackbase (a # as) sp ustack =
     (if length ustack \<ge> MAXARG then ret None
      else
        let sp = sp - of_nat (length a + 1); sp = sp - sp mod 16 in
        if sp < stackbase then ret None
        else
          bind (copyout pagetable sp (a @ [0])) (\<lambda>r.
          if r < 0 then ret None
          else exec_args pagetable stackbase as sp (ustack @ [sp])))"

definition exec_bad :: "u64 \<Rightarrow> u64 \<Rightarrow> nat option \<Rightarrow> (int, 'x sys_state_scheme) kop" where
  "exec_bad pagetable sz ip =
     andthen (if pagetable \<noteq> 0 then proc_freepagetable pagetable sz else ret ()) (
     andthen
       (case ip of
          None \<Rightarrow> ret ()
        | Some ip \<Rightarrow> andthen (iunlockput ip) end_op) (
     ret (- 1)))"

definition last_elem :: "byte list \<Rightarrow> byte list" where
  "last_elem path = rev (takeWhile (\<lambda>c. c \<noteq> SLASH) (rev path))"

definition exec_commit :: "nat \<Rightarrow> byte list \<Rightarrow> u64 \<Rightarrow> u64 \<Rightarrow> u64 \<Rightarrow> u64 \<Rightarrow> u64 \<Rightarrow> nat \<Rightarrow> (int, 'x sys_state_scheme) kop" where
  "exec_commit p path pagetable sz sp ent oldsz argc =
     andthen (tf_write p TF_A1 sp) (
     andthen (on_proc p (\<lambda>x. x\<lparr>p_name := safestrcpy (p_name x) (cstr (last_elem path)) 16\<rparr>)) (
     bind (gets (\<lambda>s. p_pagetable (procs s p))) (\<lambda>oldpagetable.
     andthen (on_proc p (\<lambda>x. x\<lparr>p_pagetable := pagetable\<rparr>)) (
     andthen (on_proc p (\<lambda>x. x\<lparr>p_sz := sz\<rparr>)) (
     andthen (tf_write p TF_EPC ent) (
     andthen (tf_write p TF_SP sp) (
     andthen (proc_freepagetable oldpagetable oldsz) (
     ret (int argc)))))))))"

definition exec_stack :: "nat \<Rightarrow> byte list \<Rightarrow> byte list list \<Rightarrow> u64 \<Rightarrow> u64 \<Rightarrow> u64 \<Rightarrow> (int, 'x sys_state_scheme) kop" where
  "exec_stack p path argv pagetable sz ent =
     bind (gets (\<lambda>s. p_sz (procs s p))) (\<lambda>oldsz.
     let sz = PGROUNDUP sz in
     bind (uvmalloc pagetable sz (sz + 2 * PGSIZE)) (\<lambda>sz1.
     if sz1 = 0 then exec_bad pagetable sz None
     else
       andthen (uvmclear pagetable (sz1 - 2 * PGSIZE)) (
       let stackbase = sz1 - PGSIZE in
       bind (exec_args pagetable stackbase argv sz1 []) (\<lambda>r.
       case r of
         None \<Rightarrow> exec_bad pagetable sz1 None
       | Some (sp, ustack) \<Rightarrow>
           let sp = sp - of_nat (8 * length ustack); sp = sp - sp mod 16 in
           if sp < stackbase then exec_bad pagetable sz1 None
           else
             bind (copyout pagetable sp (concat (map (le_bytes 8) ustack))) (\<lambda>c.
             if c < 0 then exec_bad pagetable sz1 None
             else exec_commit p path pagetable sz1 sp ent oldsz (length ustack - 1))))))"

definition exec :: "byte list \<Rightarrow> byte list list \<Rightarrow> (int, 'x sys_state_scheme) kop" where
  "exec path argv =
     bind curproc (\<lambda>p.
     andthen begin_op (
     bind (namei path) (\<lambda>r.
     case r of
       None \<Rightarrow> andthen end_op (ret (- 1))
     | Some ip \<Rightarrow>
         andthen (ilock (Some ip)) (
         bind (readi ip False 0 0 64) (\<lambda>r.
         let elf = snd r in
         if fst r \<noteq> 64 then exec_bad 0 0 (Some ip)
         else if rd32 elf 0 \<noteq> ELF_MAGIC then exec_bad 0 0 (Some ip)
         else
           bind (proc_pagetable p) (\<lambda>pagetable.
           if pagetable = 0 then exec_bad 0 0 (Some ip)
           else
             bind (exec_segments ip pagetable (unat (rd16 elf 56)) (ucast (rd64 elf 32)) 0) (\<lambda>r.
             if \<not> fst r then exec_bad pagetable (snd r) (Some ip)
             else
               andthen (iunlockput ip) (
               andthen end_op (
               exec_stack p path argv pagetable (snd r) (rd64 elf 24)))))))))) "

end
