(* ===== verification/Sysproc.thy ===== *)
theory Sysproc
  imports Proc_Life
begin

text \<open>
  The fetching of system call arguments (\<open>kernel/syscall.c\<close>) and the system calls of \<open>kernel/sysproc.c\<close>. A system call
  returns the 64-bit value for \<open>a0\<close>. \<open>argint\<close> and \<open>argaddr\<close> cannot fail, so the tests of their results are gone. The
  address of a process's saved context, which \<open>sys_yield\<close> prints, is the parameter \<open>ctx_addr\<close>. \<open>p->name\<close> is the memory
  from the name field on, so what a system call stores past its 16 bytes stays visible.
\<close>

record sysp_state = sys_state +
  ctx_addr :: "nat \<Rightarrow> u64"

section \<open>Arguments\<close>

definition fetchaddr :: "u64 \<Rightarrow> (u64 option, 'x sysp_state_scheme) kop" where
  "fetchaddr addr =
     bind curproc (\<lambda>i.
     bind (gets (\<lambda>s. procs s i)) (\<lambda>p.
     if addr \<ge> p_sz p \<or> addr + 8 > p_sz p then ret None
     else
       bind (copyin (p_pagetable p) addr 8) (\<lambda>r.
       ret (if fst r \<noteq> 0 then None else Some (of_bytes (snd r))))))"

text \<open>The string fetched, without its zero byte; its length is the result of the C function.\<close>

definition fetchstr :: "u64 \<Rightarrow> nat \<Rightarrow> (byte list option, 'x sysp_state_scheme) kop" where
  "fetchstr addr maxn =
     bind curproc (\<lambda>i.
     bind (gets (\<lambda>s. p_pagetable (procs s i))) (\<lambda>pt.
     bind (copyinstr pt addr maxn) (\<lambda>r.
     ret (if fst r < 0 then None else Some (takeWhile (\<lambda>c. c \<noteq> 0) (snd r))))))"

definition argraw :: "nat \<Rightarrow> (u64, 'x sysp_state_scheme) kop" where
  "argraw n =
     bind curproc (\<lambda>i.
     if n \<le> 5 then tf_read i (TF_A0 + 8 * of_nat n) else panic ''argraw'')"

definition argint :: "nat \<Rightarrow> (u32, 'x sysp_state_scheme) kop" where
  "argint n = bind (argraw n) (\<lambda>v. ret (ucast v))"

definition argaddr :: "nat \<Rightarrow> (u64, 'x sysp_state_scheme) kop" where
  "argaddr n = argraw n"

definition argstr :: "nat \<Rightarrow> nat \<Rightarrow> (byte list option, 'x sysp_state_scheme) kop" where
  "argstr n maxn = bind (argaddr n) (\<lambda>addr. fetchstr addr maxn)"

section \<open>Process system calls\<close>

definition ret_int :: "int \<Rightarrow> (u64, 's) kop" where
  "ret_int r = ret (of_int r)"

definition sys_exit :: "(u64, 'x sysp_state_scheme) kop" where
  "sys_exit = bind (argint 0) (\<lambda>n. exit n)"

definition sys_getpid :: "(u64, 'x sysp_state_scheme) kop" where
  "sys_getpid = bind curproc (\<lambda>i. bind (gets (\<lambda>s. p_pid (procs s i))) (\<lambda>pid. ret_int (sint pid)))"

definition sys_fork :: "(u64, 'x sysp_state_scheme) kop" where
  "sys_fork = bind fork ret_int"

definition sys_wait :: "(u64, 'x sysp_state_scheme) kop" where
  "sys_wait =
     bind (argaddr 0) (\<lambda>p.
     bind (argint 1) (\<lambda>flags.
     bind (wait p flags) ret_int))"

definition sys_sbrk :: "(u64, 'x sysp_state_scheme) kop" where
  "sys_sbrk =
     bind (argint 0) (\<lambda>n.
     bind curproc (\<lambda>i.
     bind (gets (\<lambda>s. ucast (p_sz (procs s i)) :: u32)) (\<lambda>addr.
     bind (growproc n) (\<lambda>r.
     if r < 0 then ret_int (- 1) else ret_int (sint addr)))))"

text \<open>The comparison of \<open>ticks - ticks0\<close> with \<open>n\<close> is unsigned.\<close>

definition sys_sleep_loop :: "u32 \<Rightarrow> u32 \<Rightarrow> (u64, 'x sysp_state_scheme) kop" where
  "sys_sleep_loop n ticks0 =
     bind (gets ticks) (\<lambda>t.
     if t - ticks0 < n then
       bind curproc (\<lambda>i.
       bind (gets (\<lambda>s. p_killed (procs s i))) (\<lambda>killed.
       if killed then andthen (release Lk_ticks) (ret_int (- 1))
       else sleep Ch_ticks Lk_ticks))
     else andthen (release Lk_ticks) (ret 0))"

definition sys_sleep :: "(u64, 'x sysp_state_scheme) kop" where
  "sys_sleep =
     bind (argint 0) (\<lambda>n.
     andthen (acquire Lk_ticks) (
     bind (gets ticks) (\<lambda>ticks0.
     sys_sleep_loop n ticks0)))"

definition sys_sleep_resume :: "u32 \<Rightarrow> u32 \<Rightarrow> bool \<Rightarrow> (u64, 'x sysp_state_scheme) kop" where
  "sys_sleep_resume n ticks0 ie = andthen (sleep_resume Lk_ticks ie) (sys_sleep_loop n ticks0)"

definition sys_kill :: "(u64, 'x sysp_state_scheme) kop" where
  "sys_kill = bind (argint 0) (\<lambda>pid. bind (kill pid) ret_int)"

definition sys_uptime :: "(u64, 'x sysp_state_scheme) kop" where
  "sys_uptime =
     andthen (acquire Lk_ticks) (
     bind (gets ticks) (\<lambda>xticks.
     andthen (release Lk_ticks) (
     ret (ucast xticks))))"

definition name_store :: "cptr \<Rightarrow> byte list \<Rightarrow> cptr" where
  "name_store nm bs = (\<lambda>i. if i < length bs then bs ! i else if i = length bs then 0 else nm i)"

definition sys_rename :: "(u64, 'x sysp_state_scheme) kop" where
  "sys_rename =
     bind (argstr 0 MAXPATH) (\<lambda>r.
     case r of
       None \<Rightarrow> ret_int (- 1)
     | Some name \<Rightarrow>
         bind curproc (\<lambda>i.
         andthen (on_proc i (\<lambda>p. p\<lparr>p_name := name_store (p_name p) name\<rparr>)) (
         ret 0)))"

definition sys_yield :: "(u64, 'x sysp_state_scheme) kop" where
  "sys_yield =
     bind curproc (\<lambda>i.
     bind (gets (\<lambda>s. ctx_addr s i)) (\<lambda>a.
     andthen (printf (''Save the context of the process to the memory region from address %p to %p'' @ [CHR 0x0A]) [Pptr a, Pptr (a + 112)]) (
     bind (gets (\<lambda>s. p_pid (procs s i))) (\<lambda>pid.
     bind (tf_read i TF_EPC) (\<lambda>epc.
     andthen (printf (''Current running process pid is %d and user pc is %p'' @ [CHR 0x0A]) [Pint pid, Pptr epc]) (
     andthen (modify (\<lambda>s. s\<lparr>next_flag := True\<rparr>)) (
     yield)))))))"

definition sys_yield_resume :: "bool \<Rightarrow> (u64, 'x sysp_state_scheme) kop" where
  "sys_yield_resume ie = andthen (yield_resume ie) (ret 0)"

end
