(* ===== verification/Sysfile.thy ===== *)
theory Sysfile
  imports Sysproc
begin

text \<open>
  \<open>kernel/sysfile.c\<close>: the file system calls. The jumps to \<open>bad\<close> are the definitions with that suffix. \<open>sys_exec\<close> keeps the
  pages of the argument strings together with the strings fetched into them.
\<close>

abbreviation (input) O_WRONLY :: u32 where "O_WRONLY \<equiv> 1"
abbreviation (input) O_RDWR :: u32 where "O_RDWR \<equiv> 2"
abbreviation (input) O_CREATE :: u32 where "O_CREATE \<equiv> 0x200"
abbreviation (input) O_TRUNC :: u32 where "O_TRUNC \<equiv> 0x400"

section \<open>Descriptors\<close>

definition argfd :: "nat \<Rightarrow> ((nat \<times> nat) option, 'x sysp_state_scheme) kop" where
  "argfd n =
     bind (argint n) (\<lambda>fd.
     if sint fd < 0 \<or> sint fd \<ge> int NOFILE then ret None
     else
       bind curproc (\<lambda>i.
       bind (gets (\<lambda>s. p_ofile (procs s i) (unat fd))) (\<lambda>f.
       case f of None \<Rightarrow> ret None | Some f \<Rightarrow> ret (Some (unat fd, f)))))"

fun fdalloc_scan :: "nat \<Rightarrow> nat \<Rightarrow> nat list \<Rightarrow> (int, 'x sysp_state_scheme) kop" where
  "fdalloc_scan i f [] = ret (- 1)"
| "fdalloc_scan i f (fd # fds) =
     bind (gets (\<lambda>s. p_ofile (procs s i) fd)) (\<lambda>x.
     if x = None then
       andthen (on_proc i (\<lambda>p. p\<lparr>p_ofile := (p_ofile p)(fd := Some f)\<rparr>)) (
       ret (int fd))
     else fdalloc_scan i f fds)"

definition fdalloc :: "nat \<Rightarrow> (int, 'x sysp_state_scheme) kop" where
  "fdalloc f = bind curproc (\<lambda>i. fdalloc_scan i f [0..<NOFILE])"

definition clear_fd :: "nat \<Rightarrow> nat \<Rightarrow> (unit, 'x sysp_state_scheme) kop" where
  "clear_fd i fd = on_proc i (\<lambda>p. p\<lparr>p_ofile := (p_ofile p)(fd := None)\<rparr>)"

definition sys_dup :: "(u64, 'x sysp_state_scheme) kop" where
  "sys_dup =
     bind (argfd 0) (\<lambda>r.
     case r of
       None \<Rightarrow> ret_int (- 1)
     | Some (_, f) \<Rightarrow>
         bind (fdalloc f) (\<lambda>fd.
         if fd < 0 then ret_int (- 1)
         else andthen (filedup f) (ret_int fd)))"

definition sys_read :: "(u64, 'x sysp_state_scheme) kop" where
  "sys_read =
     bind (argfd 0) (\<lambda>r.
     case r of
       None \<Rightarrow> ret_int (- 1)
     | Some (_, f) \<Rightarrow>
         bind (argint 2) (\<lambda>n.
         bind (argaddr 1) (\<lambda>p.
         bind (fileread f p (sint n)) ret_int)))"

definition sys_write :: "(u64, 'x sysp_state_scheme) kop" where
  "sys_write =
     bind (argfd 0) (\<lambda>r.
     case r of
       None \<Rightarrow> ret_int (- 1)
     | Some (_, f) \<Rightarrow>
         bind (argint 2) (\<lambda>n.
         bind (argaddr 1) (\<lambda>p.
         bind (filewrite f p (sint n)) ret_int)))"

definition sys_close :: "(u64, 'x sysp_state_scheme) kop" where
  "sys_close =
     bind (argfd 0) (\<lambda>r.
     case r of
       None \<Rightarrow> ret_int (- 1)
     | Some (fd, f) \<Rightarrow>
         bind curproc (\<lambda>i.
         andthen (clear_fd i fd) (
         andthen (fileclose f) (
         ret 0))))"

definition sys_fstat :: "(u64, 'x sysp_state_scheme) kop" where
  "sys_fstat =
     bind (argfd 0) (\<lambda>r.
     case r of
       None \<Rightarrow> ret_int (- 1)
     | Some (_, f) \<Rightarrow> bind (argaddr 1) (\<lambda>st. bind (filestat f st) ret_int))"

section \<open>Links\<close>

definition sys_link_bad :: "nat \<Rightarrow> (u64, 'x sysp_state_scheme) kop" where
  "sys_link_bad ip =
     andthen (ilock (Some ip)) (
     andthen (on_ino ip (\<lambda>i. i\<lparr>i_nlink := i_nlink i - 1\<rparr>)) (
     andthen (iupdate ip) (
     andthen (iunlockput ip) (
     andthen end_op (
     ret_int (- 1))))))"

definition link_into :: "nat \<Rightarrow> byte list \<Rightarrow> (u64, 'x sysp_state_scheme) kop" where
  "link_into ip new =
     bind (nameiparent new (replicate DIRSIZ 0)) (\<lambda>r.
     case r of
       (None, name) \<Rightarrow> sys_link_bad ip
     | (Some dp, name) \<Rightarrow>
         andthen (ilock (Some dp)) (
         bind (gets (\<lambda>s. i_dev (inodes s dp) \<noteq> i_dev (inodes s ip))) (\<lambda>other.
         bind (if other then ret (- 1) else bind (gets (\<lambda>s. i_inum (inodes s ip))) (\<lambda>inum. dirlink dp name inum)) (\<lambda>l.
         if l < 0 then andthen (iunlockput dp) (sys_link_bad ip)
         else
           andthen (iunlockput dp) (
           andthen (iput ip) (
           andthen end_op (
           ret 0)))))))"

definition sys_link :: "(u64, 'x sysp_state_scheme) kop" where
  "sys_link =
     bind (argstr 0 MAXPATH) (\<lambda>r0.
     case r0 of
       None \<Rightarrow> ret_int (- 1)
     | Some old \<Rightarrow>
       bind (argstr 1 MAXPATH) (\<lambda>r1.
       case r1 of
         None \<Rightarrow> ret_int (- 1)
       | Some new \<Rightarrow>
         andthen begin_op (
         bind (namei old) (\<lambda>r.
         case r of
           None \<Rightarrow> andthen end_op (ret_int (- 1))
         | Some ip \<Rightarrow>
           andthen (ilock (Some ip)) (
           bind (gets (\<lambda>s. i_type (inodes s ip))) (\<lambda>t.
           if t = T_DIR then andthen (iunlockput ip) (andthen end_op (ret_int (- 1)))
           else
             andthen (on_ino ip (\<lambda>i. i\<lparr>i_nlink := i_nlink i + 1\<rparr>)) (
             andthen (iupdate ip) (
             andthen (iunlock (Some ip)) (
             link_into ip new)))))))))"

text \<open>The offset is a signed int compared with the unsigned size; as an unsigned number it counts the same way.\<close>

function isdirempty_loop :: "nat \<Rightarrow> u32 \<Rightarrow> (bool, 'x sysp_state_scheme) kop" where
  "isdirempty_loop dp off s =
     (if off < i_size (inodes s dp) then
        (bind (readi dp False 0 off 16) (\<lambda>r.
         andthen (panic_if (fst r \<noteq> 16) ''isdirempty: readi'') (
         if rd16 (snd r) 0 \<noteq> 0 then ret False
         else isdirempty_loop dp (off + 16)))) s
      else ret True s)"
  by pat_completeness auto
termination
  by (relation "measure (\<lambda>(dp, off, s). 2 ^ 32 - unat off)")
    (auto dest!: readi_no_wrap split: if_splits)

declare isdirempty_loop.simps [simp del]

definition isdirempty :: "nat \<Rightarrow> (bool, 'x sysp_state_scheme) kop" where
  "isdirempty dp = isdirempty_loop dp 32"

definition sys_unlink_bad :: "nat \<Rightarrow> (u64, 'x sysp_state_scheme) kop" where
  "sys_unlink_bad dp = andthen (iunlockput dp) (andthen end_op (ret_int (- 1)))"

definition unlink_entry :: "nat \<Rightarrow> nat \<Rightarrow> u32 \<Rightarrow> (u64, 'x sysp_state_scheme) kop" where
  "unlink_entry dp ip off =
     bind (writei dp (Kbuf (replicate 16 0)) off 16) (\<lambda>w.
     andthen (panic_if (w \<noteq> 16) ''unlink: writei'') (
     bind (gets (\<lambda>s. i_type (inodes s ip))) (\<lambda>t.
     andthen
       (if t = T_DIR then andthen (on_ino dp (\<lambda>i. i\<lparr>i_nlink := i_nlink i - 1\<rparr>)) (iupdate dp) else ret ()) (
     andthen (iunlockput dp) (
     andthen (on_ino ip (\<lambda>i. i\<lparr>i_nlink := i_nlink i - 1\<rparr>)) (
     andthen (iupdate ip) (
     andthen (iunlockput ip) (
     andthen end_op (
     ret 0)))))))))"

definition sys_unlink :: "(u64, 'x sysp_state_scheme) kop" where
  "sys_unlink =
     bind (argstr 0 MAXPATH) (\<lambda>r.
     case r of
       None \<Rightarrow> ret_int (- 1)
     | Some path \<Rightarrow>
       andthen begin_op (
       bind (nameiparent path (replicate DIRSIZ 0)) (\<lambda>r.
       case r of
         (None, name) \<Rightarrow> andthen end_op (ret_int (- 1))
       | (Some dp, name) \<Rightarrow>
         andthen (ilock (Some dp)) (
         if namecmp name (bytes_of ''.'') = 0 \<or> namecmp name (bytes_of ''..'') = 0 then sys_unlink_bad dp
         else
           bind (dirlookup dp name) (\<lambda>r.
           case r of
             None \<Rightarrow> sys_unlink_bad dp
           | Some (ip, off) \<Rightarrow>
             andthen (ilock (Some ip)) (
             bind (gets (\<lambda>s. inodes s ip)) (\<lambda>i.
             andthen (panic_if (sint (i_nlink i) < 1) ''unlink: nlink < 1'') (
             bind (if i_type i = T_DIR then isdirempty ip else ret True) (\<lambda>e.
             if \<not> e then andthen (iunlockput ip) (sys_unlink_bad dp)
             else unlink_entry dp ip off))))))))) "

section \<open>Creation and opening\<close>

definition create_dots :: "nat \<Rightarrow> nat \<Rightarrow> (unit, 'x sysp_state_scheme) kop" where
  "create_dots dp ip =
     andthen (on_ino dp (\<lambda>i. i\<lparr>i_nlink := i_nlink i + 1\<rparr>)) (
     andthen (iupdate dp) (
     bind (gets (\<lambda>s. i_inum (inodes s ip))) (\<lambda>inum.
     bind (dirlink ip (bytes_of ''.'') inum) (\<lambda>r.
     andthen (panic_if (r < 0) ''create dots'') (
     bind (gets (\<lambda>s. i_inum (inodes s dp))) (\<lambda>dinum.
     bind (dirlink ip (bytes_of ''..'') dinum) (\<lambda>r.
     panic_if (r < 0) ''create dots'')))))))"

definition create :: "byte list \<Rightarrow> u16 \<Rightarrow> u16 \<Rightarrow> u16 \<Rightarrow> (nat option, 'x sysp_state_scheme) kop" where
  "create path type major minor =
     bind (nameiparent path (replicate DIRSIZ 0)) (\<lambda>r.
     case r of
       (None, name) \<Rightarrow> ret None
     | (Some dp, name) \<Rightarrow>
       andthen (ilock (Some dp)) (
       bind (dirlookup dp name) (\<lambda>r.
       case r of
         Some (ip, _) \<Rightarrow>
           andthen (iunlockput dp) (
           andthen (ilock (Some ip)) (
           bind (gets (\<lambda>s. i_type (inodes s ip))) (\<lambda>t.
           if type = T_FILE \<and> (t = T_FILE \<or> t = T_DEVICE) then ret (Some ip)
           else andthen (iunlockput ip) (ret None))))
       | None \<Rightarrow>
           bind (gets (\<lambda>s. i_dev (inodes s dp))) (\<lambda>dev.
           bind (ialloc dev type) (\<lambda>ip.
           andthen (ilock (Some ip)) (
           andthen (on_ino ip (\<lambda>i. i\<lparr>i_major := major, i_minor := minor, i_nlink := 1\<rparr>)) (
           andthen (iupdate ip) (
           andthen (if type = T_DIR then create_dots dp ip else ret ()) (
           bind (gets (\<lambda>s. i_inum (inodes s ip))) (\<lambda>inum.
           bind (dirlink dp name inum) (\<lambda>r.
           andthen (panic_if (r < 0) ''create: dirlink'') (
           andthen (iunlockput dp) (
           ret (Some ip)))))))))))))) "

definition open_fail :: "nat \<Rightarrow> (u64, 'x sysp_state_scheme) kop" where
  "open_fail ip = andthen (iunlockput ip) (andthen end_op (ret_int (- 1)))"

definition open_fill :: "nat \<Rightarrow> nat \<Rightarrow> u32 \<Rightarrow> (unit, 'x sysp_state_scheme) kop" where
  "open_fill f ip omode =
     bind (gets (\<lambda>s. inodes s ip)) (\<lambda>i.
     andthen
       (if i_type i = T_DEVICE then on_file f (\<lambda>x. x\<lparr>f_type := FD_DEVICE, f_major := i_major i\<rparr>)
        else on_file f (\<lambda>x. x\<lparr>f_type := FD_INODE, f_off := 0\<rparr>)) (
     andthen (on_file f (\<lambda>x. x\<lparr>f_ip := Some ip, f_readable := (omode AND O_WRONLY = 0),
       f_writable := (omode AND O_WRONLY \<noteq> 0 \<or> omode AND O_RDWR \<noteq> 0)\<rparr>)) (
     if omode AND O_TRUNC \<noteq> 0 \<and> i_type i = T_FILE then itrunc ip else ret ())))"

definition open_inode :: "nat \<Rightarrow> u32 \<Rightarrow> (u64, 'x sysp_state_scheme) kop" where
  "open_inode ip omode =
     bind (gets (\<lambda>s. inodes s ip)) (\<lambda>i.
     if i_type i = T_DEVICE \<and> bad_major (i_major i) then open_fail ip
     else
       bind filealloc (\<lambda>r.
       case r of
         None \<Rightarrow> open_fail ip
       | Some f \<Rightarrow>
           bind (fdalloc f) (\<lambda>fd.
           if fd < 0 then andthen (fileclose f) (open_fail ip)
           else
             andthen (open_fill f ip omode) (
             andthen (iunlock (Some ip)) (
             andthen end_op (
             ret_int fd))))))"

definition sys_open :: "(u64, 'x sysp_state_scheme) kop" where
  "sys_open =
     bind (argstr 0 MAXPATH) (\<lambda>r.
     case r of
       None \<Rightarrow> ret_int (- 1)
     | Some path \<Rightarrow>
       bind (argint 1) (\<lambda>omode.
       andthen begin_op (
       if omode AND O_CREATE \<noteq> 0 then
         bind (create path T_FILE 0 0) (\<lambda>r.
         case r of
           None \<Rightarrow> andthen end_op (ret_int (- 1))
         | Some ip \<Rightarrow> open_inode ip omode)
       else
         bind (namei path) (\<lambda>r.
         case r of
           None \<Rightarrow> andthen end_op (ret_int (- 1))
         | Some ip \<Rightarrow>
             andthen (ilock (Some ip)) (
             bind (gets (\<lambda>s. i_type (inodes s ip))) (\<lambda>t.
             if t = T_DIR \<and> omode \<noteq> 0 then open_fail ip
             else open_inode ip omode))))))"

definition create_and_drop :: "byte list option \<Rightarrow> u16 \<Rightarrow> u16 \<Rightarrow> u16 \<Rightarrow> (u64, 'x sysp_state_scheme) kop" where
  "create_and_drop path type major minor =
     (case path of
        None \<Rightarrow> andthen end_op (ret_int (- 1))
      | Some path \<Rightarrow>
          bind (create path type major minor) (\<lambda>r.
          case r of
            None \<Rightarrow> andthen end_op (ret_int (- 1))
          | Some ip \<Rightarrow>
              andthen (iunlockput ip) (
              andthen end_op (
              ret 0))))"

definition sys_mkdir :: "(u64, 'x sysp_state_scheme) kop" where
  "sys_mkdir = andthen begin_op (bind (argstr 0 MAXPATH) (\<lambda>path. create_and_drop path T_DIR 0 0))"

definition sys_mknod :: "(u64, 'x sysp_state_scheme) kop" where
  "sys_mknod =
     andthen begin_op (
     bind (argstr 0 MAXPATH) (\<lambda>path.
     bind (argint 1) (\<lambda>major.
     bind (argint 2) (\<lambda>minor.
     create_and_drop path T_DEVICE (ucast major) (ucast minor)))))"

definition sys_chdir :: "(u64, 'x sysp_state_scheme) kop" where
  "sys_chdir =
     bind curproc (\<lambda>p.
     andthen begin_op (
     bind (argstr 0 MAXPATH) (\<lambda>path.
     bind (case path of None \<Rightarrow> ret None | Some path \<Rightarrow> namei path) (\<lambda>r.
     case r of
       None \<Rightarrow> andthen end_op (ret_int (- 1))
     | Some ip \<Rightarrow>
         andthen (ilock (Some ip)) (
         bind (gets (\<lambda>s. i_type (inodes s ip))) (\<lambda>t.
         if t \<noteq> T_DIR then andthen (iunlockput ip) (andthen end_op (ret_int (- 1)))
         else
           andthen (iunlock (Some ip)) (
           bind (gets (\<lambda>s. p_cwd (procs s p))) (\<lambda>cwd.
           andthen (iput_opt cwd) (
           andthen end_op (
           andthen (on_proc p (\<lambda>x. x\<lparr>p_cwd := Some ip\<rparr>)) (
           ret 0)))))))))))"

section \<open>Exec and pipe\<close>

text \<open>The argument loop of \<open>sys_exec\<close>: the pages allocated so far with their strings, and whether all of \<open>argv\<close> was fetched.\<close>

fun exec_fetch :: "u64 \<Rightarrow> nat \<Rightarrow> nat \<Rightarrow> (u64 \<times> byte list) list \<Rightarrow> (bool \<times> (u64 \<times> byte list) list, 'x sysp_state_scheme) kop" where
  "exec_fetch uargv i 0 args = ret (False, args)"
| "exec_fetch uargv i (Suc k) args =
     bind (fetchaddr (uargv + of_nat (8 * i))) (\<lambda>r.
     case r of
       None \<Rightarrow> ret (False, args)
     | Some uarg \<Rightarrow>
         if uarg = 0 then ret (True, args)
         else
           bind kalloc (\<lambda>page.
           if page = 0 then ret (False, args)
           else
             bind (fetchstr uarg 4096) (\<lambda>str.
             case str of
               None \<Rightarrow> ret (False, args @ [(page, [])])
             | Some str \<Rightarrow>
                 andthen (modify (\<lambda>s. s\<lparr>mem := write_bytes (mem s) page (str @ [0])\<rparr>)) (
                 exec_fetch uargv (i + 1) k (args @ [(page, str)])))))"

definition sys_exec :: "(u64, 'x sysp_state_scheme) kop" where
  "sys_exec =
     bind (argstr 0 MAXPATH) (\<lambda>r.
     case r of
       None \<Rightarrow> ret_int (- 1)
     | Some path \<Rightarrow>
       bind (argaddr 1) (\<lambda>uargv.
       bind (exec_fetch uargv 0 MAXARG []) (\<lambda>r.
       bind (if fst r then exec path (map snd (snd r)) else ret (- 1)) (\<lambda>v.
       andthen (for_each (map fst (snd r)) kfree) (
       ret_int v)))))"

definition pipe_fail :: "nat \<Rightarrow> nat \<Rightarrow> (u64, 'x sysp_state_scheme) kop" where
  "pipe_fail rf wfl = andthen (fileclose rf) (andthen (fileclose wfl) (ret_int (- 1)))"

definition sys_pipe :: "(u64, 'x sysp_state_scheme) kop" where
  "sys_pipe =
     bind curproc (\<lambda>i.
     bind (argaddr 0) (\<lambda>fdarray.
     bind pipealloc (\<lambda>r.
     case r of
       None \<Rightarrow> ret_int (- 1)
     | Some (rf, wfl) \<Rightarrow>
       bind (fdalloc rf) (\<lambda>fd0.
       if fd0 < 0 then pipe_fail rf wfl
       else
         bind (fdalloc wfl) (\<lambda>fd1.
         if fd1 < 0 then andthen (clear_fd i (nat fd0)) (pipe_fail rf wfl)
         else
           bind (gets (\<lambda>s. p_pagetable (procs s i))) (\<lambda>pt.
           bind (copyout pt fdarray (le_bytes 4 (of_int fd0 :: u32))) (\<lambda>c0.
           bind (if c0 < 0 then ret (- 1) else copyout pt (fdarray + 4) (le_bytes 4 (of_int fd1 :: u32))) (\<lambda>c1.
           if c1 < 0 then
             andthen (clear_fd i (nat fd0)) (
             andthen (clear_fd i (nat fd1)) (
             pipe_fail rf wfl))
           else ret 0))))))))"

end
