(* ===== verification/Trap.thy ===== *)
theory Trap
  imports Sysfile
begin

text \<open>
  The system call dispatcher (\<open>kernel/syscall.c\<close>), traps and interrupts (\<open>kernel/trap.c\<close>), the interrupt controller
  (\<open>kernel/plic.c\<close>) and \<open>forkret\<close> of \<open>kernel/proc.c\<close>.

  The addresses the linker gives to assembly code are parameters (\<open>ksyms\<close>). The PLIC answers the claims of the hart from
  \<open>plic_in\<close>, zero when there is none, and \<open>plic_wr\<close> keeps the stores to it, newest first. The jump through the trampoline
  at the end of \<open>usertrapret\<close> is its result: the address jumped to and the page table given to it. Where \<open>usertrap\<close> or
  \<open>kerneltrap\<close> yields, the outcome is \<open>Switch\<close> and the continuation is \<open>usertrap_resume\<close> or \<open>kerneltrap_resume\<close>.
\<close>

record ksyms =
  k_kernelvec :: u64
  k_usertrap :: u64
  k_uservec_off :: u64
  k_userret_off :: u64

record trap_state = sysp_state +
  syms :: ksyms
  plic_in :: "u32 list"
  plic_wr :: "(u64 \<times> u32) list"

section \<open>System calls\<close>

definition syscalls :: "nat \<Rightarrow> (u64, 'x sysp_state_scheme) kop option" where
  "syscalls n =
     (if n = 1 then Some sys_fork else if n = 2 then Some sys_exit else if n = 3 then Some sys_wait
      else if n = 4 then Some sys_pipe else if n = 5 then Some sys_read else if n = 6 then Some sys_kill
      else if n = 7 then Some sys_exec else if n = 8 then Some sys_fstat else if n = 9 then Some sys_chdir
      else if n = 10 then Some sys_dup else if n = 11 then Some sys_getpid else if n = 12 then Some sys_sbrk
      else if n = 13 then Some sys_sleep else if n = 14 then Some sys_uptime else if n = 15 then Some sys_open
      else if n = 16 then Some sys_write else if n = 17 then Some sys_mknod else if n = 18 then Some sys_unlink
      else if n = 19 then Some sys_link else if n = 20 then Some sys_mkdir else if n = 21 then Some sys_close
      else if n = 22 then Some sys_rename else if n = 23 then Some sys_yield else None)"

definition syscall_unknown :: "nat \<Rightarrow> u32 \<Rightarrow> (unit, 'x sysp_state_scheme) kop" where
  "syscall_unknown p num =
     bind (gets (\<lambda>s. procs s p)) (\<lambda>x.
     andthen (printf (''%d %s: unknown sys call %d'' @ [CHR 0x0A]) [Pint (p_pid x), Pstr (Some (name_bytes (p_name x))), Pint num]) (
     tf_write p TF_A0 (- 1)))"

definition syscall :: "(unit, 'x sysp_state_scheme) kop" where
  "syscall =
     bind curproc (\<lambda>p.
     bind (tf_read p TF_A7) (\<lambda>a7.
     let num = ucast a7 :: u32 in
     if sint num > 0 \<and> sint num < 24 then
       case syscalls (nat (sint num)) of
         Some f \<Rightarrow> bind f (\<lambda>v. tf_write p TF_A0 v)
       | None \<Rightarrow> syscall_unknown p num
     else syscall_unknown p num))"

section \<open>Interrupt controller\<close>

definition plic_write :: "u64 \<Rightarrow> u32 \<Rightarrow> (unit, 'x trap_state_scheme) kop" where
  "plic_write a v = modify (\<lambda>s. s\<lparr>plic_wr := (a, v) # plic_wr s\<rparr>)"

abbreviation (input) UART0_IRQ :: u32 where "UART0_IRQ \<equiv> 10"
abbreviation (input) VIRTIO0_IRQ :: u32 where "VIRTIO0_IRQ \<equiv> 1"

definition PLIC_SCLAIM :: "nat \<Rightarrow> u64" where
  "PLIC_SCLAIM hart = PLIC + 0x201004 + of_nat hart * 0x2000"

definition plicinit :: "(unit, 'x trap_state_scheme) kop" where
  "plicinit =
     andthen (plic_write (PLIC + 40) 1) (
     plic_write (PLIC + 4) 1)"

definition plicinithart :: "(unit, 'x trap_state_scheme) kop" where
  "plicinithart =
     bind (gets (\<lambda>s. cpuid (hw s))) (\<lambda>hart.
     andthen (plic_write (PLIC + 0x2080 + of_nat hart * 0x100) (push_bit 10 1 OR push_bit 1 1)) (
     plic_write (PLIC + 0x201000 + of_nat hart * 0x2000) 0))"

definition plic_claim :: "(u32, 'x trap_state_scheme) kop" where
  "plic_claim =
     bind (gets plic_in) (\<lambda>q.
     case q of
       [] \<Rightarrow> ret 0
     | irq # q \<Rightarrow> andthen (modify (\<lambda>s. s\<lparr>plic_in := q\<rparr>)) (ret irq))"

definition plic_complete :: "u32 \<Rightarrow> (unit, 'x trap_state_scheme) kop" where
  "plic_complete irq = bind (gets (\<lambda>s. cpuid (hw s))) (\<lambda>hart. plic_write (PLIC_SCLAIM hart) irq)"

section \<open>Traps\<close>

definition on_csr :: "(csrs \<Rightarrow> csrs) \<Rightarrow> (unit, 'x kstate_scheme) kop" where
  "on_csr f = on_hart (\<lambda>h. h\<lparr>csr := f (csr h)\<rparr>)"

definition trapinit :: "(unit, 'x trap_state_scheme) kop" where
  "trapinit = initlock Lk_ticks ''time''"

definition trapinithart :: "(unit, 'x trap_state_scheme) kop" where
  "trapinithart = bind (gets (\<lambda>s. k_kernelvec (syms s))) (\<lambda>v. on_csr (\<lambda>c. c\<lparr>stvec := v\<rparr>))"

definition clockintr :: "(unit, 'x trap_state_scheme) kop" where
  "clockintr =
     andthen (acquire Lk_ticks) (
     andthen (modify (\<lambda>s. s\<lparr>ticks := ticks s + 1\<rparr>)) (
     andthen (wakeup Ch_ticks) (
     release Lk_ticks)))"

definition devintr :: "(nat, 'x trap_state_scheme) kop" where
  "devintr =
     bind (gets (\<lambda>s. scause (csr (hw s)))) (\<lambda>sc.
     if sc AND 0x8000000000000000 \<noteq> 0 \<and> sc AND 0xff = 9 then
       bind plic_claim (\<lambda>irq.
       andthen
         (if irq = UART0_IRQ then uartintr
          else if irq = VIRTIO0_IRQ then virtio_disk_intr
          else if irq \<noteq> 0 then printf (''unexpected interrupt irq=%d'' @ [CHR 0x0A]) [Pint irq]
          else ret ()) (
       andthen (if irq \<noteq> 0 then plic_complete irq else ret ()) (
       ret 1)))
     else if sc = 0x8000000000000001 then
       bind (gets (\<lambda>s. cpuid (hw s))) (\<lambda>hart.
       andthen (if hart = 0 then clockintr else ret ()) (
       andthen (on_csr (\<lambda>c. c\<lparr>sip := sip c AND NOT 2\<rparr>)) (
       ret 2)))
     else ret 0)"

definition usertrapret :: "(u64 \<times> u64, 'x trap_state_scheme) kop" where
  "usertrapret =
     bind curproc (\<lambda>p.
     andthen (on_hart intr_off) (
     bind (gets syms) (\<lambda>k.
     andthen (on_csr (\<lambda>c. c\<lparr>stvec := TRAMPOLINE + k_uservec_off k\<rparr>)) (
     bind (gets (\<lambda>s. satp (csr (hw s)))) (\<lambda>sp.
     andthen (tf_write p 0 sp) (
     bind (gets (\<lambda>s. p_kstack (procs s p))) (\<lambda>ks.
     andthen (tf_write p 8 (ks + PGSIZE)) (
     andthen (tf_write p 16 (k_usertrap k)) (
     bind (gets (\<lambda>s. tp (hw s))) (\<lambda>hartid.
     andthen (tf_write p 32 (of_nat hartid)) (
     andthen (on_csr (\<lambda>c. c\<lparr>sstatus := (sstatus c AND NOT SSTATUS_SPP) OR SSTATUS_SPIE\<rparr>)) (
     bind (tf_read p TF_EPC) (\<lambda>epc.
     andthen (on_csr (\<lambda>c. c\<lparr>sepc := epc\<rparr>)) (
     bind (gets (\<lambda>s. p_pagetable (procs s p))) (\<lambda>pt.
     ret (TRAMPOLINE + k_userret_off k, MAKE_SATP pt))))))))))))))))"

text \<open>\<open>usertrap\<close> up to the test of \<open>killed\<close>: the device number.\<close>

definition usertrap_handle :: "nat \<Rightarrow> (nat, 'x trap_state_scheme) kop" where
  "usertrap_handle p =
     bind (gets (\<lambda>s. csr (hw s))) (\<lambda>c.
     if scause c = 8 then
       bind (gets (\<lambda>s. p_killed (procs s p))) (\<lambda>killed.
       if killed then exit (- 1)
       else
         bind (tf_read p TF_EPC) (\<lambda>epc.
         andthen (tf_write p TF_EPC (epc + 4)) (
         andthen (on_hart intr_on) (
         andthen syscall (
         ret 0)))))
     else
       bind devintr (\<lambda>which.
       if which \<noteq> 0 then ret which
       else
         bind (gets (\<lambda>s. p_pid (procs s p))) (\<lambda>pid.
         andthen (printf (''usertrap(): unexpected scause %p pid=%d'' @ [CHR 0x0A]) [Pptr (scause c), Pint pid]) (
         bind (gets (\<lambda>s. csr (hw s))) (\<lambda>c.
         andthen (printf (''            sepc=%p stval=%p'' @ [CHR 0x0A]) [Pptr (sepc c), Pptr (stval c)]) (
         andthen (on_proc p (\<lambda>x. x\<lparr>p_killed := True\<rparr>)) (
         ret 0)))))))"

definition usertrap :: "(u64 \<times> u64, 'x trap_state_scheme) kop" where
  "usertrap =
     bind (gets (\<lambda>s. sstatus (csr (hw s)))) (\<lambda>x.
     andthen (panic_if (x AND SSTATUS_SPP \<noteq> 0) ''usertrap: not from user mode'') (
     bind (gets (\<lambda>s. k_kernelvec (syms s))) (\<lambda>v.
     andthen (on_csr (\<lambda>c. c\<lparr>stvec := v\<rparr>)) (
     bind curproc (\<lambda>p.
     bind (gets (\<lambda>s. sepc (csr (hw s)))) (\<lambda>epc.
     andthen (tf_write p TF_EPC epc) (
     bind (usertrap_handle p) (\<lambda>which.
     bind (gets (\<lambda>s. p_killed (procs s p))) (\<lambda>killed.
     if killed then exit (- 1)
     else if which = 2 then yield
     else usertrapret)))))))))"

definition usertrap_resume :: "bool \<Rightarrow> (u64 \<times> u64, 'x trap_state_scheme) kop" where
  "usertrap_resume ie = andthen (yield_resume ie) usertrapret"

definition kerneltrap_restore :: "u64 \<Rightarrow> u64 \<Rightarrow> (unit, 'x trap_state_scheme) kop" where
  "kerneltrap_restore epc st = on_csr (\<lambda>c. c\<lparr>sepc := epc, sstatus := st\<rparr>)"

definition kerneltrap :: "(unit, 'x trap_state_scheme) kop" where
  "kerneltrap =
     bind (gets (\<lambda>s. csr (hw s))) (\<lambda>c.
     andthen (panic_if (sstatus c AND SSTATUS_SPP = 0) ''kerneltrap: not from supervisor mode'') (
     andthen (panic_if (csr_intr_get c) ''kerneltrap: interrupts enabled'') (
     bind devintr (\<lambda>which.
     if which = 0 then
       andthen (printf (''scause %p'' @ [CHR 0x0A]) [Pptr (scause c)]) (
       bind (gets (\<lambda>s. csr (hw s))) (\<lambda>c.
       andthen (printf (''sepc=%p stval=%p'' @ [CHR 0x0A]) [Pptr (sepc c), Pptr (stval c)]) (
       panic ''kerneltrap'')))
     else
       bind myproc (\<lambda>op.
       bind (gets (\<lambda>s. case op of None \<Rightarrow> False | Some p \<Rightarrow> p_state (procs s p) = RUNNING)) (\<lambda>run.
       if which = 2 \<and> run then yield
       else kerneltrap_restore (sepc c) (sstatus c)))))))"

definition kerneltrap_resume :: "bool \<Rightarrow> u64 \<Rightarrow> u64 \<Rightarrow> (unit, 'x trap_state_scheme) kop" where
  "kerneltrap_resume ie epc st = andthen (yield_resume ie) (kerneltrap_restore epc st)"

definition forkret :: "(u64 \<times> u64, 'x trap_state_scheme) kop" where
  "forkret =
     bind curproc (\<lambda>p.
     andthen (release (Lk_proc p)) (
     bind (gets forkret_first) (\<lambda>first.
     andthen
       (if first then andthen (modify (\<lambda>s. s\<lparr>forkret_first := False\<rparr>)) (fsinit ROOTDEV) else ret ()) (
     usertrapret))))"

section \<open>Booting\<close>

text \<open>\<open>main\<close> on hart 0 up to the scheduler, and on the other harts once hart 0 has started.\<close>

definition main_hart0 :: "(unit, 'x trap_state_scheme) kop" where
  "main_hart0 =
     andthen (printf [CHR 0x0A] []) (
     andthen (printf (''xv6 kernel is booting'' @ [CHR 0x0A]) []) (
     andthen (printf [CHR 0x0A] []) (
     andthen kinit (
     andthen kvminit (
     andthen kvminithart (
     andthen procinit (
     andthen trapinit (
     andthen trapinithart (
     andthen plicinit (
     andthen plicinithart (
     andthen binit (
     andthen iinit (
     andthen fileinit (
     andthen virtio_disk_init (
     userinit)))))))))))))))"

definition main_other :: "(unit, 'x trap_state_scheme) kop" where
  "main_other =
     bind (gets (\<lambda>s. cpuid (hw s))) (\<lambda>hart.
     andthen (printf (''hart %d starting'' @ [CHR 0x0A]) [Pint (of_nat hart)]) (
     andthen kvminithart (
     andthen trapinithart (
     plicinithart))))"

section \<open>Machine mode\<close>

text \<open>
  \<open>kernel/start.c\<close>: the machine-mode registers, the timer scratch area of the hart and the words of the CLINT.
\<close>

record mregs =
  mstatus :: u64
  mepc :: u64
  m_satp :: u64
  medeleg :: u64
  mideleg :: u64
  m_sie :: u64
  pmpaddr0 :: u64
  pmpcfg0 :: u64
  mhartid :: u64
  m_tp :: u64
  mscratch :: u64
  mtvec :: u64
  mie :: u64
  mtime :: u64
  mtimecmp :: "u64 \<Rightarrow> u64"
  mscratch0 :: "nat \<Rightarrow> u64"

definition CLINT_MTIMECMP :: "u64 \<Rightarrow> u64" where
  "CLINT_MTIMECMP hartid = CLINT + 0x4000 + 8 * hartid"

definition timerinit :: "u64 \<Rightarrow> u64 \<Rightarrow> mregs \<Rightarrow> mregs" where
  "timerinit timervec mscratch0_addr m =
     (let id = mhartid m; interval = 1000000;
          m = m\<lparr>mtimecmp := (mtimecmp m)(id := mtime m + interval)\<rparr>;
          m = m\<lparr>mscratch0 := (mscratch0 m)(32 * unat id + 4 := CLINT_MTIMECMP id, 32 * unat id + 5 := interval)\<rparr>;
          m = m\<lparr>mscratch := mscratch0_addr + 8 * (32 * id)\<rparr>;
          m = m\<lparr>mtvec := timervec\<rparr>;
          m = m\<lparr>mstatus := mstatus m OR 8\<rparr>
      in m\<lparr>mie := mie m OR 0x80\<rparr>)"

definition start :: "u64 \<Rightarrow> u64 \<Rightarrow> u64 \<Rightarrow> mregs \<Rightarrow> mregs" where
  "start main_addr timervec mscratch0_addr m =
     (let m = m\<lparr>mstatus := (mstatus m AND NOT 0x1800) OR 0x800\<rparr>;
          m = m\<lparr>mepc := main_addr\<rparr>;
          m = m\<lparr>m_satp := 0\<rparr>;
          m = m\<lparr>medeleg := 0xffff, mideleg := 0xffff\<rparr>;
          m = m\<lparr>m_sie := m_sie m OR 0x200 OR 0x20 OR 2\<rparr>;
          m = m\<lparr>pmpaddr0 := 0x1fffffffffffff, pmpcfg0 := 0x1f\<rparr>;
          m = timerinit timervec mscratch0_addr m
      in m\<lparr>m_tp := mhartid m\<rparr>)"

definition start_console :: "nat \<Rightarrow> (unit, 'x trap_state_scheme) kop" where
  "start_console hart = (if hart = 0 then andthen consoleinit printfinit else ret ())"

end
