(* ===== verification/Ulib.thy ===== *)
theory Ulib
  imports Printf
begin

text \<open>
  User programs and the library they are linked with: \<open>user/ulib.c\<close>, \<open>user/printf.c\<close> and the system call stubs of
  \<open>user/user.h\<close>.

  A program is a resumption: it has returned a value, has exited with a status, or makes a system call and goes on
  with the answer of the kernel. The answer is what \<open>a0\<close> holds and the bytes the kernel stored through the pointer
  argument of the call, if it has one. A loop that may run for ever takes fuel, and running out of it is \<open>Nofuel\<close>.
  A string argument is the bytes up to its terminator. \<open>urun\<close> runs a program against a kernel, which is any function from calls to answers
  with a state of its own.
\<close>

section \<open>Programs\<close>

datatype ucall =
    U_fork
  | U_wait bool int
  | U_pipe
  | U_write int "byte list"
  | U_read int nat
  | U_close int
  | U_kill int
  | U_exec "byte list" "byte list list"
  | U_open "byte list" int
  | U_mknod "byte list" int int
  | U_unlink "byte list"
  | U_fstat int
  | U_link "byte list" "byte list"
  | U_mkdir "byte list"
  | U_chdir "byte list"
  | U_dup int
  | U_getpid
  | U_sbrk int
  | U_sleep int
  | U_uptime
  | U_rename "byte list"
  | U_yield

record uret =
  r_a0 :: int
  r_buf :: "byte list"

datatype 'a uprog = Done 'a | Exits int | Nofuel | Call ucall "uret \<Rightarrow> 'a uprog"

primrec ubind :: "'a uprog \<Rightarrow> ('a \<Rightarrow> 'b uprog) \<Rightarrow> 'b uprog" where
  "ubind (Done a) f = f a"
| "ubind (Exits n) f = Exits n"
| "ubind Nofuel f = Nofuel"
| "ubind (Call c k) f = Call c (\<lambda>r. ubind (k r) f)"

abbreviation uthen :: "'a uprog \<Rightarrow> 'b uprog \<Rightarrow> 'b uprog" where
  "uthen m n \<equiv> ubind m (\<lambda>_. n)"

abbreviation sys :: "ucall \<Rightarrow> int uprog" where
  "sys c \<equiv> Call c (\<lambda>r. Done (r_a0 r))"

abbreviation sys_buf :: "ucall \<Rightarrow> (int \<times> byte list) uprog" where
  "sys_buf c \<equiv> Call c (\<lambda>r. Done (r_a0 r, r_buf r))"

fun ufor :: "'x list \<Rightarrow> ('x \<Rightarrow> unit uprog) \<Rightarrow> unit uprog" where
  "ufor [] f = Done ()"
| "ufor (x # xs) f = uthen (f x) (ufor xs f)"

datatype 'a uend = Returned 'a | Exited int | Running

primrec urun :: "'a uprog \<Rightarrow> (ucall \<Rightarrow> 'w \<Rightarrow> uret \<times> 'w) \<Rightarrow> 'w \<Rightarrow> 'a uend \<times> 'w" where
  "urun (Done a) h w = (Returned a, w)"
| "urun (Exits n) h w = (Exited n, w)"
| "urun Nofuel h w = (Running, w)"
| "urun (Call c k) h w = urun (k (fst (h c w))) h (snd (h c w))"

lemma urun_bind:
  "urun (ubind m f) h w = (case urun m h w of (Returned a, w') \<Rightarrow> urun (f a) h w' | (Exited n, w') \<Rightarrow> (Exited n, w') | (Running, w') \<Rightarrow> (Running, w'))"
  by (induction m arbitrary: w) auto

lemma ubind_assoc: "ubind (ubind m f) g = ubind m (\<lambda>a. ubind (f a) g)"
  by (induction m) auto

lemma ubind_Done [simp]: "ubind m Done = m"
  by (induction m) auto

section \<open>Strings\<close>

text \<open>\<open>strcpy\<close> into a buffer: the buffer with the string and its terminator at its front.\<close>

fun u_strcpy :: "byte list \<Rightarrow> byte list \<Rightarrow> byte list" where
  "u_strcpy s [] = 0 # tl s"
| "u_strcpy s (c # t) = c # u_strcpy (tl s) t"

fun u_strcmp :: "byte list \<Rightarrow> byte list \<Rightarrow> int" where
  "u_strcmp [] [] = 0"
| "u_strcmp [] (d # q) = - uint d"
| "u_strcmp (c # p) [] = uint c"
| "u_strcmp (c # p) (d # q) = (if c = d then u_strcmp p q else uint c - uint d)"

text \<open>The length of the C string at the front of a buffer.\<close>

fun u_strlen :: "byte list \<Rightarrow> nat" where
  "u_strlen [] = 0"
| "u_strlen (c # s) = (if c = 0 then 0 else Suc (u_strlen s))"

definition u_memset :: "byte list \<Rightarrow> nat \<Rightarrow> byte \<Rightarrow> nat \<Rightarrow> byte list" where
  "u_memset d off c n = blk_put d off (replicate n c)"

text \<open>\<open>strchr\<close> returns a pointer into the string: what is left of it from the character on.\<close>

fun u_strchr :: "byte list \<Rightarrow> byte \<Rightarrow> byte list option" where
  "u_strchr [] c = None"
| "u_strchr (x # s) c = (if x = c then Some (x # s) else u_strchr s c)"

definition is_digit :: "byte \<Rightarrow> bool" where
  "is_digit c \<longleftrightarrow> 48 \<le> c \<and> c \<le> 57"

fun atoi_loop :: "u32 \<Rightarrow> byte list \<Rightarrow> u32" where
  "atoi_loop n [] = n"
| "atoi_loop n (c # s) = (if is_digit c then atoi_loop (n * 10 + ucast c - 48) s else n)"

definition atoi :: "byte list \<Rightarrow> int" where
  "atoi s = sint (atoi_loop 0 s)"

definition u_memmove :: "store \<Rightarrow> u64 \<Rightarrow> u64 \<Rightarrow> nat \<Rightarrow> store" where
  "u_memmove m dst src n =
     (if src > dst then copy_fwd m dst src n else copy_bwd m (dst + of_nat n) (src + of_nat n) n)"

fun u_memcmp :: "store \<Rightarrow> u64 \<Rightarrow> u64 \<Rightarrow> nat \<Rightarrow> int" where
  "u_memcmp m s1 s2 0 = 0"
| "u_memcmp m s1 s2 (Suc n) =
     (if m s1 \<noteq> m s2 then uint (m s1) - uint (m s2) else u_memcmp m (s1 + 1) (s2 + 1) n)"

definition u_memcpy :: "store \<Rightarrow> u64 \<Rightarrow> u64 \<Rightarrow> nat \<Rightarrow> store" where
  "u_memcpy m dst src n = u_memmove m dst src n"

text \<open>\<open>gets\<close> with \<open>n\<close> characters of room left.\<close>

fun gets_loop :: "nat \<Rightarrow> byte list \<Rightarrow> byte list uprog" where
  "gets_loop 0 buf = Done buf"
| "gets_loop (Suc n) buf =
     ubind (sys_buf (U_read 0 1)) (\<lambda>(cc, d).
     if cc < 1 then Done buf
     else
       let c = hd d in
       if c = 10 \<or> c = 13 then Done (buf @ [c]) else gets_loop n (buf @ [c]))"

definition u_gets :: "int \<Rightarrow> byte list uprog" where
  "u_gets n = gets_loop (nat (n - 1)) []"

definition u_stat :: "byte list \<Rightarrow> (int \<times> byte list) uprog" where
  "u_stat n =
     ubind (sys (U_open n 0)) (\<lambda>fd.
     if fd < 0 then Done (- 1, [])
     else
       ubind (sys_buf (U_fstat fd)) (\<lambda>r.
       uthen (sys (U_close fd)) (
       Done r)))"

section \<open>Output\<close>

definition u_putc :: "int \<Rightarrow> byte \<Rightarrow> unit uprog" where
  "u_putc fd c = uthen (sys (U_write fd [c])) (Done ())"

definition u_digits :: "byte list" where
  "u_digits = bytes_of ''0123456789ABCDEF''"

function u_printint_digits :: "nat \<Rightarrow> u32 \<Rightarrow> byte list" where
  "u_printint_digits base x =
     (if base < 2 then []
      else u_digits ! (unat x mod base) #
        (if unat x div base \<noteq> 0 then u_printint_digits base (of_nat (unat x div base)) else []))"
  by pat_completeness auto
termination
proof (relation "measure (\<lambda>(base, x). unat x)", simp)
  fix base :: nat and x :: u32
  assume a: "\<not> base < 2" and b: "unat x div base \<noteq> 0"
  then have "0 < unat x" by (metis div_0 gr0I)
  then have d: "unat x div base < unat x" using a by (intro div_less_dividend) auto
  have "unat x < 2 ^ LENGTH(32)" by (rule unsigned_less)
  then have "unat (of_nat (unat x div base) :: u32) = unat x div base" using d by (intro unat_of_nat_small) linarith
  then show "((base, of_nat (unat x div base)), base, x) \<in> measure (\<lambda>(base, x). unat x)" using d by simp
qed

declare u_printint_digits.simps [simp del]

definition u_printint :: "u32 \<Rightarrow> nat \<Rightarrow> bool \<Rightarrow> byte list" where
  "u_printint xx base sg =
     (let neg = sg \<and> sint xx < 0; x = (if neg then - xx else xx)
      in rev (u_printint_digits base x @ (if neg then [45] else [])))"

fun u_printptr_digits :: "nat \<Rightarrow> u64 \<Rightarrow> byte list" where
  "u_printptr_digits 0 x = []"
| "u_printptr_digits (Suc n) x = u_digits ! unat (drop_bit 60 x) # u_printptr_digits n (push_bit 4 x)"

definition u_printptr :: "u64 \<Rightarrow> byte list" where
  "u_printptr x = bytes_of ''0x'' @ u_printptr_digits 16 x"

datatype uarg = Uint u32 | Ulong u64 | Ustr "byte list option"

text \<open>The characters \<open>vprintf\<close> passes to \<open>putc\<close>, in order; \<open>None\<close> when a directive has no argument of its type.\<close>

fun vprintf_out :: "byte list \<Rightarrow> uarg list \<Rightarrow> byte list option" where
  "vprintf_out [] ap = Some []"
| "vprintf_out (c # fmt) ap =
     (if c \<noteq> 37 then map_option ((#) c) (vprintf_out fmt ap)
      else (case fmt of
          [] \<Rightarrow> Some []
        | d # fmt' \<Rightarrow>
            if d = 100 then
              (case ap of Uint x # as \<Rightarrow> map_option ((@) (u_printint x 10 True)) (vprintf_out fmt' as) | _ \<Rightarrow> None)
            else if d = 108 then
              (case ap of Ulong x # as \<Rightarrow> map_option ((@) (u_printint (ucast x) 10 False)) (vprintf_out fmt' as) | _ \<Rightarrow> None)
            else if d = 120 then
              (case ap of Uint x # as \<Rightarrow> map_option ((@) (u_printint x 16 False)) (vprintf_out fmt' as) | _ \<Rightarrow> None)
            else if d = 112 then
              (case ap of Ulong x # as \<Rightarrow> map_option ((@) (u_printptr x)) (vprintf_out fmt' as) | _ \<Rightarrow> None)
            else if d = 115 then
              (case ap of
                 Ustr s # as \<Rightarrow> map_option ((@) (case s of None \<Rightarrow> bytes_of ''(null)'' | Some t \<Rightarrow> t)) (vprintf_out fmt' as)
               | _ \<Rightarrow> None)
            else if d = 99 then
              (case ap of Uint x # as \<Rightarrow> map_option ((#) (ucast x)) (vprintf_out fmt' as) | _ \<Rightarrow> None)
            else if d = 37 then map_option ((#) 37) (vprintf_out fmt' ap)
            else map_option (\<lambda>r. 37 # d # r) (vprintf_out fmt' ap)))"

definition u_fprintf :: "int \<Rightarrow> string \<Rightarrow> uarg list \<Rightarrow> unit uprog" where
  "u_fprintf fd fmt ap = (case vprintf_out (bytes_of fmt) ap of Some cs \<Rightarrow> ufor cs (u_putc fd) | None \<Rightarrow> Nofuel)"

definition u_printf :: "string \<Rightarrow> uarg list \<Rightarrow> unit uprog" where
  "u_printf fmt ap = u_fprintf 1 fmt ap"

section \<open>Files behind \<open>read\<close> and \<open>write\<close>\<close>

text \<open>
  A kernel with one file to read and one to write: \<open>read\<close> returns at least one byte while there are any and it is asked for any, and as many
  of the bytes asked for as \<open>f_sz\<close> says for this call.
\<close>

record fio =
  f_in :: "byte list"
  f_out :: "byte list"
  f_sz :: "nat \<Rightarrow> nat"
  f_no :: nat

definition fio_call :: "ucall \<Rightarrow> fio \<Rightarrow> uret \<times> fio" where
  "fio_call c w =
     (case c of
        U_read fd n \<Rightarrow>
          let k = min n (max 1 (f_sz w (f_no w))); d = take k (f_in w)
          in (\<lparr>r_a0 = int (length d), r_buf = d\<rparr>, w\<lparr>f_in := drop k (f_in w), f_no := Suc (f_no w)\<rparr>)
      | U_write fd d \<Rightarrow> (\<lparr>r_a0 = int (length d), r_buf = []\<rparr>, w\<lparr>f_out := f_out w @ d\<rparr>)
      | _ \<Rightarrow> (\<lparr>r_a0 = 0, r_buf = []\<rparr>, w))"

lemma fio_write: "fio_call (U_write fd d) w = (\<lparr>r_a0 = int (length d), r_buf = []\<rparr>, w\<lparr>f_out := f_out w @ d\<rparr>)"
  by (simp add: fio_call_def)

lemma fio_read:
  "\<exists>d. fio_call (U_read fd n) w =
      (\<lparr>r_a0 = int (length d), r_buf = d\<rparr>, w\<lparr>f_in := drop (length d) (f_in w), f_no := Suc (f_no w)\<rparr>) \<and>
    take (length d) (f_in w) = d \<and> length d \<le> n \<and> (d = [] \<longrightarrow> f_in w = [] \<or> n = 0)"
proof -
  define k where "k = min n (max 1 (f_sz w (f_no w)))"
  define d where "d = take k (f_in w)"
  have k: "drop k (f_in w) = drop (length d) (f_in w)" by (simp add: d_def min_def)
  have "fio_call (U_read fd n) w = (\<lparr>r_a0 = int (length d), r_buf = d\<rparr>, w\<lparr>f_in := drop k (f_in w), f_no := Suc (f_no w)\<rparr>)"
    by (simp add: fio_call_def Let_def d_def k_def)
  then have "fio_call (U_read fd n) w = (\<lparr>r_a0 = int (length d), r_buf = d\<rparr>, w\<lparr>f_in := drop (length d) (f_in w), f_no := Suc (f_no w)\<rparr>)"
    by (simp only: k)
  moreover have "take (length d) (f_in w) = d" by (simp add: d_def min_def)
  moreover have "length d \<le> n" and "d = [] \<longrightarrow> f_in w = [] \<or> n = 0" by (auto simp: d_def k_def)
  ultimately show ?thesis by blast
qed

end
