(* ===== verification/Sh.thy ===== *)
theory Sh
  imports Ulib
begin

text \<open>
  The shell, \<open>user/sh.c\<close>: the parser, the interpreter of parsed commands and the main loop.

  The parser works on a line without its terminator; a \<open>char *\<close> into the line is a position, and the position after the
  last character is where the terminator is. A parsed command holds, like the code's, positions of the beginning and the end of its words.
  \<open>nulterminate\<close> stores the terminators into the buffer, which is the line and its own terminator. \<open>panic\<close> ends the parser
  with its message. Memory for the nodes is taken to be there.

  \<open>parseexec\<close> fills in an \<open>execcmd\<close> that redirections found on the way already point to; the model keeps the redirections apart and puts them
  around the command at the end. The mutual recursion of the parser takes fuel; the loops are recursive functions
  that end because every turn reads a token.
\<close>

section \<open>Commands\<close>

datatype cmd =
    EXEC "(nat \<times> nat) list"
  | REDIR cmd nat nat int int
  | PIPE cmd cmd
  | LIST cmd cmd
  | BACK cmd

abbreviation (input) MAXARGS :: nat where "MAXARGS \<equiv> 10"
abbreviation (input) RD_ONLY :: int where "RD_ONLY \<equiv> 0"
abbreviation (input) WR_CREATE_TRUNC :: int where "WR_CREATE_TRUNC \<equiv> 0x601"
abbreviation (input) WR_CREATE :: int where "WR_CREATE \<equiv> 0x201"

section \<open>Tokens\<close>

definition whitespace :: "byte list" where
  "whitespace = [32, 9, 13, 10, 11]"

definition symbols :: "byte list" where
  "symbols = bytes_of ''<|>&;()''"

definition at :: "byte list \<Rightarrow> nat \<Rightarrow> byte" where
  "at l s = (if s < length l then l ! s else 0)"

function skip_ws :: "byte list \<Rightarrow> nat \<Rightarrow> nat" where
  "skip_ws l s = (if s < length l \<and> u_strchr whitespace (at l s) \<noteq> None then skip_ws l (s + 1) else s)"
  by pat_completeness auto
termination
  by (relation "measure (\<lambda>(l, s). length l - s)") auto

declare skip_ws.simps [simp del]

function skip_word :: "byte list \<Rightarrow> nat \<Rightarrow> nat" where
  "skip_word l s =
     (if s < length l \<and> u_strchr whitespace (at l s) = None \<and> u_strchr symbols (at l s) = None then skip_word l (s + 1) else s)"
  by pat_completeness auto
termination
  by (relation "measure (\<lambda>(l, s). length l - s)") auto

declare skip_word.simps [simp del]

text \<open>\<open>gettoken\<close> returns the token, its beginning and end, and the new position.\<close>

definition gettoken :: "byte list \<Rightarrow> nat \<Rightarrow> byte \<times> nat \<times> nat \<times> nat" where
  "gettoken l ps =
     (let s = skip_ws l ps; c = at l s;
          (ret, eq) =
            (if c = 0 then (0, s)
             else if c \<in> {124, 40, 41, 59, 38, 60} then (c, s + 1)
             else if c = 62 then (if at l (s + 1) = 62 then (43, s + 2) else (62, s + 1))
             else (97, skip_word l s))
      in (ret, s, eq, skip_ws l eq))"

definition peek :: "byte list \<Rightarrow> nat \<Rightarrow> string \<Rightarrow> bool \<times> nat" where
  "peek l ps toks = (let s = skip_ws l ps in (at l s \<noteq> 0 \<and> u_strchr (bytes_of toks) (at l s) \<noteq> None, s))"

abbreviation after_token :: "byte list \<Rightarrow> nat \<Rightarrow> nat" where
  "after_token l s \<equiv> snd (snd (snd (gettoken l s)))"

section \<open>Progress\<close>

lemma skip_ws_ge: "s \<le> skip_ws l s"
  by (induction l s rule: skip_ws.induct) (subst skip_ws.simps, auto)

lemma skip_ws_le: "s \<le> length l \<Longrightarrow> skip_ws l s \<le> length l"
  by (induction l s rule: skip_ws.induct) (subst skip_ws.simps, auto)

lemma skip_ws_stop: "skip_ws l s < length l \<Longrightarrow> u_strchr whitespace (at l (skip_ws l s)) = None"
proof (induction l s rule: skip_ws.induct)
  case (1 l s)
  then show ?case by (cases "s < length l \<and> u_strchr whitespace (at l s) \<noteq> None") (auto simp: skip_ws.simps [of l s])
qed

lemma skip_word_ge: "s \<le> skip_word l s"
  by (induction l s rule: skip_word.induct) (subst skip_word.simps, auto)

lemma skip_word_le: "s \<le> length l \<Longrightarrow> skip_word l s \<le> length l"
  by (induction l s rule: skip_word.induct) (subst skip_word.simps, auto)

lemma skip_ws_idem: "skip_ws l (skip_ws l s) = skip_ws l s"
proof (induction l s rule: skip_ws.induct)
  case (1 l s)
  then show ?case by (cases "s < length l \<and> u_strchr whitespace (at l s) \<noteq> None") (auto simp: skip_ws.simps [of l s])
qed

lemma at_pos: "at l s \<noteq> 0 \<Longrightarrow> s < length l"
  by (auto simp: at_def split: if_splits)

lemma gettoken_parts:
  "gettoken l ps = (t, q, eq, n) \<Longrightarrow> q = skip_ws l ps \<and> n = skip_ws l eq \<and> (t = 0 \<longleftrightarrow> at l q = 0) \<and>
    (at l q = 0 \<longrightarrow> eq = q) \<and> (at l q \<noteq> 0 \<longrightarrow> q < eq \<or> t = 97 \<and> eq = skip_word l q)"
  by (auto simp: gettoken_def Let_def split: if_splits)

lemma skip_word_progress:
  "u_strchr whitespace (at l s) = None \<Longrightarrow> u_strchr symbols (at l s) = None \<Longrightarrow> at l s \<noteq> 0 \<Longrightarrow> s < skip_word l s"
  using skip_word_ge [of "s + 1" l] at_pos [of l s] by (subst skip_word.simps) simp

lemma symbols_chars: "u_strchr symbols c = None \<longleftrightarrow> c \<notin> {60, 124, 62, 38, 59, 40, 41}"
  by (simp add: symbols_def bytes_of_def)

lemma gettoken_progress:
  assumes "gettoken l ps = (t, q, eq, n)"
  shows "ps \<le> q" and "q \<le> eq" and "eq \<le> n" and "t \<noteq> 0 \<Longrightarrow> q < eq" and "ps \<le> length l \<Longrightarrow> n \<le> length l"
    and "ps \<le> length l \<Longrightarrow> eq \<le> length l"
proof -
  note d = gettoken_parts [OF assms]
  have q: "q = skip_ws l ps" using d by simp
  show "ps \<le> q" using q skip_ws_ge by simp
  have lt: "q < eq" if "at l q \<noteq> 0"
  proof (cases "u_strchr symbols (at l q)")
    case None
    have "u_strchr whitespace (at l q) = None" using skip_ws_stop [of l ps] at_pos [OF that] q by simp
    then show ?thesis using d that skip_word_progress [of l q] None by auto
  next
    case (Some r)
    then have "at l q \<in> {60, 124, 62, 38, 59, 40, 41}" using symbols_chars [of "at l q"] by simp
    then show ?thesis using assms that q by (auto simp: gettoken_def Let_def split: if_splits)
  qed
  then show "q \<le> eq" using d by (cases "at l q = 0") auto
  show "t \<noteq> 0 \<Longrightarrow> q < eq" using lt d by auto
  show "eq \<le> n" using d skip_ws_ge by simp
  assume le: "ps \<le> length l"
  have ql: "q \<le> length l" using q skip_ws_le [OF le] by simp
  have nx: "s + 1 \<le> length l" if "at l s \<noteq> 0" for s using at_pos [OF that] by simp
  show "eq \<le> length l"
    using assms ql nx [of q] nx [of "q + 1"] skip_word_le [OF ql] q by (auto simp: gettoken_def Let_def split: if_splits)
  then show "n \<le> length l" using d skip_ws_le by simp
qed

lemma peek_progress:
  assumes "peek l ps toks = (b, s)"
  shows "ps \<le> s" and "ps \<le> length l \<Longrightarrow> s \<le> length l" and "b \<Longrightarrow> s < after_token l s" and "b \<Longrightarrow> s < length l" and "skip_ws l s = s"
proof -
  have s: "s = skip_ws l ps" and b: "b \<Longrightarrow> at l s \<noteq> 0" using assms by (auto simp: peek_def Let_def)
  show "ps \<le> s" and "ps \<le> length l \<Longrightarrow> s \<le> length l" using s skip_ws_ge skip_ws_le by auto
  show i: "skip_ws l s = s" using s skip_ws_idem by simp
  show "s < length l" if b using at_pos [OF b [OF that]] .
  obtain t q eq n where g: "gettoken l s = (t, q, eq, n)" by (cases "gettoken l s")
  show "b \<Longrightarrow> s < after_token l s"
    using gettoken_progress(3,4) [OF g] gettoken_parts [OF g] b i g by auto
qed

lemma token_shorter: "fst (peek l ps toks) \<Longrightarrow> length l - after_token l (snd (peek l ps toks)) < length l - ps"
  using peek_progress [of l ps toks True "snd (peek l ps toks)"] by (cases "peek l ps toks") auto

lemma turn_shorter:
  assumes "fst (peek l ps toks)" and "s1 = after_token l (snd (peek l ps toks))" and "(t2, q, eq, s2) = gettoken l s1"
  shows "length l - s2 < length l - ps"
  using token_shorter [OF assms(1)] gettoken_progress [OF assms(3) [symmetric]] assms(2) by simp

section \<open>The parser\<close>

datatype 'a parse = Parsed 'a nat | Syntax string | Leftovers nat | Outoffuel

definition pbind :: "'a parse \<Rightarrow> ('a \<Rightarrow> nat \<Rightarrow> 'b parse) \<Rightarrow> 'b parse" where
  "pbind m f = (case m of Parsed a s \<Rightarrow> f a s | Syntax e \<Rightarrow> Syntax e | Leftovers s \<Rightarrow> Leftovers s | Outoffuel \<Rightarrow> Outoffuel)"

type_synonym redirs = "(nat \<times> nat \<times> int \<times> int) list"

definition redir_of :: "byte \<Rightarrow> nat \<Rightarrow> nat \<Rightarrow> redirs" where
  "redir_of tok q eq =
     (if tok = 60 then [(q, eq, RD_ONLY, 0)]
      else if tok = 62 then [(q, eq, WR_CREATE_TRUNC, 1)]
      else if tok = 43 then [(q, eq, WR_CREATE, 1)]
      else [])"

function parseredirs_loop :: "byte list \<Rightarrow> nat \<Rightarrow> redirs \<Rightarrow> redirs parse" where
  "parseredirs_loop l ps rs =
     (let s = snd (peek l ps ''<>'') in
      if fst (peek l ps ''<>'') then
        (case gettoken l (after_token l s) of (tok, q, eq, s2) \<Rightarrow>
          if tok \<noteq> 97 then Syntax ''missing file for redirection''
          else parseredirs_loop l s2 (rs @ redir_of (fst (gettoken l s)) q eq))
      else Parsed rs s)"
  by pat_completeness auto
termination
  by (relation "measure (\<lambda>(l, s, rs). length l - s)") (auto intro: turn_shorter)

declare parseredirs_loop.simps [simp del]

definition add_redirs :: "redirs \<Rightarrow> cmd \<Rightarrow> cmd" where
  "add_redirs rs c = fold (\<lambda>(q, eq, mode, fd) c. REDIR c q eq mode fd) rs c"

definition parseredirs :: "cmd \<Rightarrow> byte list \<Rightarrow> nat \<Rightarrow> cmd parse" where
  "parseredirs c l ps =
     pbind (parseredirs_loop l ps []) (\<lambda>rs s. Parsed (add_redirs rs c) s)"

function parse_backs :: "byte list \<Rightarrow> nat \<Rightarrow> cmd \<Rightarrow> cmd \<times> nat" where
  "parse_backs l ps c =
     (if fst (peek l ps ''&'') then parse_backs l (after_token l (snd (peek l ps ''&''))) (BACK c)
      else (c, snd (peek l ps ''&'')))"
  by pat_completeness auto
termination
  by (relation "measure (\<lambda>(l, s, c). length l - s)") (simp_all add: token_shorter)

declare parse_backs.simps [simp del]

text \<open>The loop of \<open>parseexec\<close>: the words and redirections found so far.\<close>

lemma redirs_progress: "parseredirs_loop l ps rs = Parsed rs' s \<Longrightarrow> ps \<le> s"
proof (induction l ps rs rule: parseredirs_loop.induct)
  case (1 l ps rs)
  obtain tok q eq s2 where g: "gettoken l (after_token l (snd (peek l ps ''<>''))) = (tok, q, eq, s2)" by (cases "gettoken l (after_token l (snd (peek l ps ''<>'')))")
  obtain b s1 where p: "peek l ps ''<>'' = (b, s1)" by (cases "peek l ps ''<>''")
  have "ps \<le> s1" and b: "b \<Longrightarrow> s1 < after_token l s1" using peek_progress [OF p] by auto
  moreover have "after_token l s1 \<le> s2" using gettoken_progress [OF g] p by simp
  ultimately show ?case
    using "1.prems" "1.IH" [OF refl _ g [symmetric] refl refl] g p
    by (simp add: parseredirs_loop.simps [of l ps rs] Let_def split: if_splits)
qed

lemma args_shorter:
  assumes "(tok, q, eq, s1) = gettoken l (snd (peek l ps toks))" and "tok \<noteq> 0" and "parseredirs_loop l s1 rs = Parsed rs' s2"
  shows "length l - s2 < length l - ps"
proof -
  note gt = assms(1) [symmetric]
  have "ps \<le> snd (peek l ps toks)" using peek_progress(1) [of l ps toks] by (cases "peek l ps toks") auto
  moreover have "at l q \<noteq> 0" using gettoken_parts [OF gt] assms(2) by blast
  then have "q < length l" by (rule at_pos)
  ultimately show ?thesis using gettoken_progress [OF gt] assms(2) redirs_progress [OF assms(3)] by simp
qed

function parse_args :: "byte list \<Rightarrow> nat \<Rightarrow> (nat \<times> nat) list \<Rightarrow> redirs \<Rightarrow> ((nat \<times> nat) list \<times> redirs) parse" where
  "parse_args l ps args rs =
     (let s = snd (peek l ps ''|)&;'') in
      if fst (peek l ps ''|)&;'') then Parsed (args, rs) s
      else
        (case gettoken l s of (tok, q, eq, s1) \<Rightarrow>
          if tok = 0 then Parsed (args, rs) s1
          else if tok \<noteq> 97 then Syntax ''syntax''
          else if Suc (length args) \<ge> MAXARGS then Syntax ''too many args''
          else
            (case parseredirs_loop l s1 rs of
               Parsed rs' s2 \<Rightarrow> parse_args l s2 (args @ [(q, eq)]) rs'
             | Syntax e \<Rightarrow> Syntax e
             | Leftovers s \<Rightarrow> Leftovers s
             | Outoffuel \<Rightarrow> Outoffuel)))"
  by pat_completeness auto
termination
  by (relation "measure (\<lambda>(l, s, args, rs). length l - s)") (auto intro: args_shorter)

declare parse_args.simps [simp del]

fun parseline :: "nat \<Rightarrow> byte list \<Rightarrow> nat \<Rightarrow> cmd parse"
  and parsepipe :: "nat \<Rightarrow> byte list \<Rightarrow> nat \<Rightarrow> cmd parse"
  and parseexec :: "nat \<Rightarrow> byte list \<Rightarrow> nat \<Rightarrow> cmd parse"
  and parseblock :: "nat \<Rightarrow> byte list \<Rightarrow> nat \<Rightarrow> cmd parse" where
  "parseline 0 l ps = Outoffuel"
| "parseline (Suc n) l ps =
     pbind (parsepipe n l ps) (\<lambda>c s.
     case parse_backs l s c of (c, s) \<Rightarrow>
       let s' = snd (peek l s '';'') in
       if fst (peek l s '';'') then pbind (parseline n l (after_token l s')) (\<lambda>d s. Parsed (LIST c d) s)
       else Parsed c s')"
| "parsepipe 0 l ps = Outoffuel"
| "parsepipe (Suc n) l ps =
     pbind (parseexec n l ps) (\<lambda>c s.
     let s' = snd (peek l s ''|'') in
     if fst (peek l s ''|'') then pbind (parsepipe n l (after_token l s')) (\<lambda>d s. Parsed (PIPE c d) s)
     else Parsed c s')"
| "parseexec 0 l ps = Outoffuel"
| "parseexec (Suc n) l ps =
     (let s = snd (peek l ps ''('') in
      if fst (peek l ps ''('') then parseblock n l s
      else
        pbind (parseredirs_loop l s []) (\<lambda>rs s.
        pbind (parse_args l s [] rs) (\<lambda>(args, rs) s.
        Parsed (add_redirs rs (EXEC args)) s)))"
| "parseblock 0 l ps = Outoffuel"
| "parseblock (Suc n) l ps =
     (let s = snd (peek l ps ''('') in
      if \<not> fst (peek l ps ''('') then Syntax ''parseblock''
      else
        pbind (parseline n l (after_token l s)) (\<lambda>c s.
        let s' = snd (peek l s '')'') in
        if \<not> fst (peek l s '')'') then Syntax ''syntax - missing )''
        else parseredirs c l (after_token l s')))"

section \<open>The buffer after parsing\<close>

text \<open>\<open>nulterminate\<close> on the buffer of the line.\<close>

fun nulterminate :: "cmd \<Rightarrow> byte list \<Rightarrow> byte list" where
  "nulterminate (EXEC args) buf = fold (\<lambda>(q, eq) buf. buf[eq := 0]) args buf"
| "nulterminate (REDIR c file efile mode fd) buf = (nulterminate c buf)[efile := 0]"
| "nulterminate (PIPE left right) buf = nulterminate right (nulterminate left buf)"
| "nulterminate (LIST left right) buf = nulterminate right (nulterminate left buf)"
| "nulterminate (BACK c) buf = nulterminate c buf"

definition parsecmd :: "nat \<Rightarrow> byte list \<Rightarrow> (cmd \<times> byte list) parse" where
  "parsecmd fuel l =
     pbind (parseline fuel l 0) (\<lambda>c s.
     let s' = snd (peek l s []) in
     if s' \<noteq> length l then Leftovers s'
     else Parsed (c, nulterminate c (l @ [0])) s')"

text \<open>The C string at a position of a buffer.\<close>

definition cstr_at :: "byte list \<Rightarrow> nat \<Rightarrow> byte list" where
  "cstr_at buf q = take (u_strlen (drop q buf)) (drop q buf)"

section \<open>Running commands\<close>

definition sh_panic :: "string \<Rightarrow> 'a uprog" where
  "sh_panic s = uthen (u_fprintf 2 (''%s'' @ [CHR 0x0A]) [Ustr (Some (bytes_of s))]) (Exits 1)"

definition fork1 :: "int uprog" where
  "fork1 = ubind (sys U_fork) (\<lambda>pid. if pid = - 1 then sh_panic ''fork'' else Done pid)"

text \<open>The child of a \<open>fork1\<close> runs its command; should that return, it goes on like the parent.\<close>

definition in_child :: "unit uprog \<Rightarrow> unit uprog \<Rightarrow> unit uprog" where
  "in_child child parent = ubind fork1 (\<lambda>pid. if pid = 0 then uthen child parent else parent)"

fun runcmd :: "byte list \<Rightarrow> cmd \<Rightarrow> unit uprog" where
  "runcmd buf (EXEC args) =
     (case map (\<lambda>(q, eq). cstr_at buf q) args of
        [] \<Rightarrow> Exits 1
      | path # argv \<Rightarrow>
          uthen (sys (U_exec path (path # argv))) (
          uthen (u_fprintf 2 (''exec %s failed'' @ [CHR 0x0A]) [Ustr (Some path)]) (
          Exits 0)))"
| "runcmd buf (REDIR c file efile mode fd) =
     uthen (sys (U_close fd)) (
     ubind (sys (U_open (cstr_at buf file) mode)) (\<lambda>r.
     if r < 0 then
       uthen (u_fprintf 2 (''open %s failed'' @ [CHR 0x0A]) [Ustr (Some (cstr_at buf file))]) (
       Exits 1)
     else uthen (runcmd buf c) (Exits 0)))"
| "runcmd buf (LIST left right) =
     in_child (runcmd buf left) (
     uthen (sys (U_wait False 0)) (
     uthen (runcmd buf right) (
     Exits 0)))"
| "runcmd buf (PIPE left right) =
     ubind (sys_buf U_pipe) (\<lambda>(r, p).
     if r < 0 then sh_panic ''pipe''
     else
       let p0 = sint (rd32 p 0); p1 = sint (rd32 p 4) in
       in_child
         (uthen (sys (U_close 1)) (uthen (sys (U_dup p1)) (uthen (sys (U_close p0)) (uthen (sys (U_close p1)) (runcmd buf left))))) (
       in_child
         (uthen (sys (U_close 0)) (uthen (sys (U_dup p0)) (uthen (sys (U_close p0)) (uthen (sys (U_close p1)) (runcmd buf right))))) (
       uthen (sys (U_close p0)) (
       uthen (sys (U_close p1)) (
       uthen (sys (U_wait False 0)) (
       uthen (sys (U_wait False 0)) (
       Exits 0)))))))"
| "runcmd buf (BACK c) = in_child (runcmd buf c) (Exits 0)"

definition getcmd :: "(int \<times> byte list) uprog" where
  "getcmd =
     uthen (u_fprintf 2 ''$ '' []) (
     ubind (u_gets 100) (\<lambda>buf.
     if buf = [] \<or> hd buf = 0 then Done (- 1, buf) else Done (0, buf)))"

text \<open>The line in the buffer: the C string \<open>gets\<close> has read.\<close>

definition sh_child :: "byte list \<Rightarrow> unit uprog" where
  "sh_child line =
     (case parsecmd (4 * length line + 4) line of
        Parsed (c, buf) _ \<Rightarrow> runcmd buf c
      | Syntax e \<Rightarrow> sh_panic e
      | Leftovers s \<Rightarrow>
          uthen (u_fprintf 2 (''leftovers: %s'' @ [CHR 0x0A]) [Ustr (Some (drop s line))]) (
          sh_panic ''syntax'')
      | Outoffuel \<Rightarrow> Nofuel)"

fun sh_open3 :: "nat \<Rightarrow> unit uprog" where
  "sh_open3 0 = Nofuel"
| "sh_open3 (Suc fuel) =
     ubind (sys (U_open (bytes_of ''console'') 2)) (\<lambda>fd.
     if fd \<ge> 3 then uthen (sys (U_close fd)) (Done ())
     else if fd \<ge> 0 then sh_open3 fuel
     else Done ())"

fun sh_loop :: "nat \<Rightarrow> unit uprog" where
  "sh_loop 0 = Nofuel"
| "sh_loop (Suc fuel) =
     ubind getcmd (\<lambda>(r, buf).
     if r < 0 then Done ()
     else
       let line = cstr_at buf 0 in
       if at line 0 = 99 \<and> at line 1 = 100 \<and> at line 2 = 32 then
         let dir = butlast (drop 3 line) in
         ubind (sys (U_chdir dir)) (\<lambda>c.
         uthen (if c < 0 then u_fprintf 2 (''cannot cd %s'' @ [CHR 0x0A]) [Ustr (Some dir)] else Done ()) (
         sh_loop fuel))
       else in_child (sh_child line) (uthen (sys (U_wait False 0)) (sh_loop fuel)))"

definition sh_main :: "nat \<Rightarrow> unit uprog" where
  "sh_main fuel = uthen (sh_open3 fuel) (uthen (sh_loop fuel) (Exits 0))"

end
