(* ===== verification/Sh_Props.thy ===== *)
theory Sh_Props
  imports Sh
begin

text \<open>
  What the parser of the shell does: it ends on every line, what it returns is well formed, the words of the command
  are the strings in the buffer, and it reads back every command that is printed with brackets.
\<close>

section \<open>Well-formed commands\<close>

definition word_char :: "byte \<Rightarrow> bool" where
  "word_char c \<longleftrightarrow> c \<noteq> 0 \<and> u_strchr whitespace c = None \<and> u_strchr symbols c = None"

definition word_at :: "byte list \<Rightarrow> nat \<Rightarrow> nat \<Rightarrow> bool" where
  "word_at l q eq \<longleftrightarrow> q < eq \<and> eq \<le> length l \<and> (\<forall>i. q \<le> i \<longrightarrow> i < eq \<longrightarrow> word_char (at l i)) \<and> \<not> word_char (at l eq)"

definition redir_ok :: "byte list \<Rightarrow> nat \<times> nat \<times> int \<times> int \<Rightarrow> bool" where
  "redir_ok l = (\<lambda>(q, eq, mode, fd). word_at l q eq \<and> (mode, fd) \<in> {(RD_ONLY, 0), (WR_CREATE_TRUNC, 1), (WR_CREATE, 1)})"

fun cmd_ok :: "byte list \<Rightarrow> cmd \<Rightarrow> bool" where
  "cmd_ok l (EXEC args) \<longleftrightarrow> length args < MAXARGS \<and> (\<forall>(q, eq)\<in>set args. word_at l q eq)"
| "cmd_ok l (REDIR c q eq mode fd) \<longleftrightarrow> redir_ok l (q, eq, mode, fd) \<and> cmd_ok l c"
| "cmd_ok l (PIPE a b) \<longleftrightarrow> cmd_ok l a \<and> cmd_ok l b"
| "cmd_ok l (LIST a b) \<longleftrightarrow> cmd_ok l a \<and> cmd_ok l b"
| "cmd_ok l (BACK c) \<longleftrightarrow> cmd_ok l c"

lemma skip_word_word:
  "0 \<notin> set l \<Longrightarrow> (\<forall>i. s \<le> i \<longrightarrow> i < skip_word l s \<longrightarrow> word_char (at l i)) \<and> \<not> word_char (at l (skip_word l s))"
proof (induction l s rule: skip_word.induct)
  case (1 l s)
  show ?case
  proof (cases "s < length l \<and> u_strchr whitespace (at l s) = None \<and> u_strchr symbols (at l s) = None")
    case True
    have "at l s \<noteq> 0" using True "1.prems" by (auto simp: at_def dest: nth_mem)
    then have "word_char (at l s)" using True by (simp add: word_char_def)
    moreover have e: "skip_word l s = skip_word l (s + 1)" using True by (simp add: skip_word.simps [of l s])
    ultimately have "word_char (at l i)" if "s \<le> i" "i < skip_word l s" for i
      using "1.IH" [OF True "1.prems"] that by (cases "i = s") auto
    then show ?thesis using "1.IH" [OF True "1.prems"] e by simp
  next
    case False
    then show ?thesis by (auto simp: skip_word.simps [of l s] word_char_def at_def)
  qed
qed

lemma gettoken_word:
  assumes "gettoken l ps = (97, q, eq, n)" and "0 \<notin> set l" and "ps \<le> length l"
  shows "word_at l q eq"
proof -
  have "eq = skip_word l q" and "q < eq" and "eq \<le> length l"
    using assms(1) gettoken_progress(4,6) [OF assms(1)] assms(3) by (auto simp: gettoken_def Let_def split: if_splits)
  then show ?thesis using skip_word_word [OF assms(2), of q] by (simp add: word_at_def)
qed

lemma redir_of_ok: "word_at l q eq \<Longrightarrow> \<forall>r\<in>set (redir_of tok q eq). redir_ok l r"
  by (simp add: redir_of_def redir_ok_def)

lemma redirs_result:
  assumes "0 \<notin> set l" and "ps \<le> length l" and "\<forall>r\<in>set rs. redir_ok l r"
  shows "case parseredirs_loop l ps rs of
      Parsed rs' s \<Rightarrow> ps \<le> s \<and> s \<le> length l \<and> (\<forall>r\<in>set rs'. redir_ok l r)
    | Syntax e \<Rightarrow> True | _ \<Rightarrow> False"
  using assms
proof (induction l ps rs rule: parseredirs_loop.induct)
  case (1 l ps rs)
  let ?t = "''<>''"
  obtain b s where p: "peek l ps ?t = (b, s)" by (cases "peek l ps ?t")
  obtain tok q eq s2 where g: "gettoken l (after_token l s) = (tok, q, eq, s2)" by (cases "gettoken l (after_token l s)")
  obtain t0 q0 e0 where g0: "gettoken l s = (t0, q0, e0, after_token l s)" by (cases "gettoken l s") auto
  note P = peek_progress [OF p] and G0 = gettoken_progress [OF g0] and G = gettoken_progress [OF g]
  have le: "s \<le> length l" "after_token l s \<le> length l" "s2 \<le> length l" using P G0 G "1.prems"(2) by auto
  show ?case
  proof (cases "b \<and> tok = 97")
    case True
    have w: "word_at l q eq" using gettoken_word g True "1.prems"(1) le(2) by blast
    have pb: "fst (peek l ps ?t)" "s = snd (peek l ps ?t)" using p True by simp_all
    have IH: "case parseredirs_loop l s2 (rs @ redir_of (fst (gettoken l s)) q eq) of
        Parsed rs' s' \<Rightarrow> s2 \<le> s' \<and> s' \<le> length l \<and> (\<forall>r\<in>set rs'. redir_ok l r) | Syntax e \<Rightarrow> True | _ \<Rightarrow> False"
      by (rule "1.IH" [OF pb(2,1) g [symmetric] refl refl])
         (use True "1.prems" le(3) redir_of_ok [OF w] in auto)
    have "ps \<le> s2" using P G0 G by auto
    then show ?thesis using IH p g True unfolding parseredirs_loop.simps [of l ps rs] by (auto simp: Let_def split: parse.splits)
  next
    case False
    then show ?thesis using p g P "1.prems" unfolding parseredirs_loop.simps [of l ps rs] by (auto simp: Let_def split: parse.splits)
  qed
qed

lemma backs_result:
  "ps \<le> length l \<Longrightarrow> cmd_ok l c \<Longrightarrow> parse_backs l ps c = (c', s) \<Longrightarrow> ps \<le> s \<and> s \<le> length l \<and> cmd_ok l c'"
proof (induction l ps c rule: parse_backs.induct)
  case (1 l ps c)
  obtain b s1 where p: "peek l ps ''&'' = (b, s1)" by (cases "peek l ps ''&''")
  obtain t q e where g: "gettoken l s1 = (t, q, e, after_token l s1)" by (cases "gettoken l s1") auto
  note P = peek_progress [OF p] and G = gettoken_progress [OF g]
  show ?case
    using 1 P G p unfolding parse_backs.simps [of l ps c] by (auto split: if_splits)
qed

lemma args_result:
  assumes "0 \<notin> set l" and "ps \<le> length l" and "\<forall>r\<in>set rs. redir_ok l r" and "\<forall>(q, eq)\<in>set args. word_at l q eq" and "length args < MAXARGS"
  shows "case parse_args l ps args rs of
      Parsed (args', rs') s \<Rightarrow> ps \<le> s \<and> s \<le> length l \<and> (\<forall>r\<in>set rs'. redir_ok l r) \<and> (\<forall>(q, eq)\<in>set args'. word_at l q eq) \<and> length args' < MAXARGS
    | Syntax e \<Rightarrow> True | _ \<Rightarrow> False"
  using assms
proof (induction l ps args rs rule: parse_args.induct)
  case (1 l ps args rs)
  let ?t = "''|)&;''"
  obtain b s where p: "peek l ps ?t = (b, s)" by (cases "peek l ps ?t")
  obtain tok q eq s1 where g: "gettoken l s = (tok, q, eq, s1)" by (cases "gettoken l s")
  note P = peek_progress [OF p] and G = gettoken_progress [OF g]
  have le: "s \<le> length l" "s1 \<le> length l" "ps \<le> s1" using P G "1.prems"(2) by auto
  note R = redirs_result [OF "1.prems"(1) le(2) "1.prems"(3)]
  show ?case
  proof (cases "\<not> b \<and> tok = 97 \<and> \<not> MAXARGS \<le> Suc (length args) \<and> (\<exists>rs' s2. parseredirs_loop l s1 rs = Parsed rs' s2)")
    case True
    then obtain rs' s2 where r: "parseredirs_loop l s1 rs = Parsed rs' s2" by blast
    have w: "word_at l q eq" using gettoken_word g True "1.prems"(1) le(1) by blast
    have pb: "\<not> fst (peek l ps ?t)" "s = snd (peek l ps ?t)" using p True by simp_all
    have IH: "case parse_args l s2 (args @ [(q, eq)]) rs' of
      Parsed (args', rs') s \<Rightarrow> s2 \<le> s \<and> s \<le> length l \<and> (\<forall>r\<in>set rs'. redir_ok l r) \<and> (\<forall>(q, eq)\<in>set args'. word_at l q eq) \<and> length args' < MAXARGS
      | Syntax e \<Rightarrow> True | _ \<Rightarrow> False"
      by (rule "1.IH" [OF pb(2,1) g [symmetric] refl refl])
         (use True "1.prems" r R w in auto)
    have "ps \<le> s2" using R r le by auto
    then show ?thesis using IH p g True r unfolding parse_args.simps [of l ps args rs] by (auto simp: Let_def split: parse.splits)
  next
    case False
    then show ?thesis using p g P le R "1.prems" unfolding parse_args.simps [of l ps args rs] by (auto simp: Let_def split: parse.splits)
  qed
qed

lemma add_redirs_ok: "\<forall>r\<in>set rs. redir_ok l r \<Longrightarrow> cmd_ok l c \<Longrightarrow> cmd_ok l (add_redirs rs c)"
  unfolding add_redirs_def by (induction rs arbitrary: c) auto

definition parse_ok :: "byte list \<Rightarrow> nat \<Rightarrow> cmd parse \<Rightarrow> bool" where
  "parse_ok l ps r = (case r of Parsed c s \<Rightarrow> ps \<le> s \<and> s \<le> length l \<and> cmd_ok l c | Leftovers _ \<Rightarrow> False | _ \<Rightarrow> True)"

lemma parse_ok_bind:
  assumes "parse_ok l ps m" and "\<And>c s. m = Parsed c s \<Longrightarrow> ps \<le> s \<Longrightarrow> s \<le> length l \<Longrightarrow> cmd_ok l c \<Longrightarrow> parse_ok l ps (f c s)"
  shows "parse_ok l ps (pbind m f)"
  using assms by (cases m) (auto simp: parse_ok_def pbind_def)

lemma parse_ok_from: "parse_ok l s r \<Longrightarrow> ps \<le> s \<Longrightarrow> parse_ok l ps r"
  by (auto simp: parse_ok_def split: parse.splits)

lemma peek_pos:
  assumes "ps \<le> length l"
  shows "ps \<le> snd (peek l ps t)" and "snd (peek l ps t) \<le> length l"
    and "fst (peek l ps t) \<Longrightarrow> snd (peek l ps t) < after_token l (snd (peek l ps t))"
    and "after_token l (snd (peek l ps t)) \<le> length l" and "snd (peek l ps t) \<le> after_token l (snd (peek l ps t))"
proof -
  obtain b s where p: "peek l ps t = (b, s)" by (cases "peek l ps t")
  obtain u q e where g: "gettoken l s = (u, q, e, after_token l s)" by (cases "gettoken l s") auto
  note P = peek_progress [OF p] and G = gettoken_progress [OF g]
  show "ps \<le> snd (peek l ps t)" and "snd (peek l ps t) \<le> length l"
    and "fst (peek l ps t) \<Longrightarrow> snd (peek l ps t) < after_token l (snd (peek l ps t))"
    and "after_token l (snd (peek l ps t)) \<le> length l" and "snd (peek l ps t) \<le> after_token l (snd (peek l ps t))"
    using P G p assms by auto
qed

lemma parseredirs_ok: "0 \<notin> set l \<Longrightarrow> ps \<le> length l \<Longrightarrow> cmd_ok l c \<Longrightarrow> parse_ok l ps (parseredirs c l ps)"
  using redirs_result [of l ps "[]"] add_redirs_ok
  by (auto simp: parseredirs_def pbind_def parse_ok_def split: parse.splits)

lemma parse_result:
  assumes "0 \<notin> set l"
  shows "ps \<le> length l \<Longrightarrow> parse_ok l ps (parseline n l ps)"
    and "ps \<le> length l \<Longrightarrow> parse_ok l ps (parsepipe n l ps)"
    and "ps \<le> length l \<Longrightarrow> parse_ok l ps (parseexec n l ps)"
    and "ps \<le> length l \<Longrightarrow> parse_ok l ps (parseblock n l ps)"
  using assms
proof (induction n l ps and n l ps and n l ps and n l ps rule: parseline_parsepipe_parseexec_parseblock.induct)
  case (2 n l ps)
  show ?case
    unfolding parseline.simps
  proof (rule parse_ok_bind [OF "2.IH"(1) [OF "2.prems"]])
    fix c s assume c: "parsepipe n l ps = Parsed c s" "ps \<le> s" "s \<le> length l" "cmd_ok l c"
    obtain c1 s1 where b: "parse_backs l s c = (c1, s1)" by (cases "parse_backs l s c")
    note B = backs_result [OF c(3,4) b] and P = peek_pos [of s1 l "'';''"]
    show "parse_ok l ps (case parse_backs l s c of (c, s) \<Rightarrow>
       let s' = snd (peek l s '';'') in
       if fst (peek l s '';'') then pbind (parseline n l (after_token l s')) (\<lambda>d s. Parsed (LIST c d) s)
       else Parsed c s')"
    proof (cases "fst (peek l s1 '';'')")
      case True
      have "parse_ok l (after_token l (snd (peek l s1 '';''))) (parseline n l (after_token l (snd (peek l s1 '';''))))"
        by (rule "2.IH"(2) [OF b [symmetric] refl True]) (use B P "2.prems" in auto)
      then show ?thesis using True b B P c by (auto simp: Let_def parse_ok_def pbind_def split: parse.splits)
    next
      case False
      then show ?thesis using b B P c by (auto simp: Let_def parse_ok_def)
    qed
  qed
next
  case (4 n l ps)
  show ?case
    unfolding parsepipe.simps
  proof (rule parse_ok_bind [OF "4.IH"(1) [OF "4.prems"]])
    fix c s assume c: "parseexec n l ps = Parsed c s" "ps \<le> s" "s \<le> length l" "cmd_ok l c"
    note P = peek_pos [of s l "''|''"]
    show "parse_ok l ps (let s' = snd (peek l s ''|'') in
       if fst (peek l s ''|'') then pbind (parsepipe n l (after_token l s')) (\<lambda>d s. Parsed (PIPE c d) s)
       else Parsed c s')"
    proof (cases "fst (peek l s ''|'')")
      case True
      have "parse_ok l (after_token l (snd (peek l s ''|''))) (parsepipe n l (after_token l (snd (peek l s ''|''))))"
        by (rule "4.IH"(2) [OF refl True]) (use P c "4.prems" in auto)
      then show ?thesis using True P c by (auto simp: Let_def parse_ok_def pbind_def split: parse.splits)
    next
      case False
      then show ?thesis using P c by (auto simp: Let_def parse_ok_def)
    qed
  qed
next
  case (6 n l ps)
  let ?s = "snd (peek l ps ''('')"
  note P = peek_pos [OF "6.prems"(1), of "''(''"]
  show ?case
  proof (cases "fst (peek l ps ''('')")
    case True
    have "parse_ok l ?s (parseblock n l ?s)" using "6.IH" [OF refl True P(2) "6.prems"(2)] .
    then show ?thesis using True P(1) parse_ok_from by (simp add: Let_def)
  next
    case False
    have R: "case parseredirs_loop l ?s [] of Parsed rs' s \<Rightarrow> ?s \<le> s \<and> s \<le> length l \<and> (\<forall>r\<in>set rs'. redir_ok l r) | Syntax e \<Rightarrow> True | _ \<Rightarrow> False"
      using redirs_result [OF "6.prems"(2) P(2), of "[]"] by simp
    show ?thesis
    proof (cases "parseredirs_loop l ?s []")
      case (Parsed rs s)
      have A: "case parse_args l s [] rs of
        Parsed (args', rs') s' \<Rightarrow> s \<le> s' \<and> s' \<le> length l \<and> (\<forall>r\<in>set rs'. redir_ok l r) \<and> (\<forall>(q, eq)\<in>set args'. word_at l q eq) \<and> length args' < MAXARGS
        | Syntax e \<Rightarrow> True | _ \<Rightarrow> False"
        by (rule args_result) (use R Parsed "6.prems"(2) in auto)
      then show ?thesis using False Parsed R P(1) add_redirs_ok
        by (auto simp: Let_def pbind_def parse_ok_def split: parse.splits prod.splits)
    qed (use False R in \<open>auto simp: Let_def pbind_def parse_ok_def\<close>)
  qed
next
  case (8 n l ps)
  let ?s = "snd (peek l ps ''('')"
  note P = peek_pos [OF "8.prems"(1), of "''(''"]
  show ?case
  proof (cases "fst (peek l ps ''('')")
    case True
    have "parse_ok l (after_token l ?s) (parseline n l (after_token l ?s))"
      using "8.IH" [OF refl _ P(4) "8.prems"(2)] True by blast
    then have *: "parse_ok l ps (parseline n l (after_token l ?s))" using P by (auto intro: parse_ok_from)
    have "parse_ok l ps (pbind (parseline n l (after_token l ?s)) (\<lambda>c s.
        let s' = snd (peek l s '')'') in
        if \<not> fst (peek l s '')'') then Syntax ''syntax - missing )'' else parseredirs c l (after_token l s')))"
    proof (rule parse_ok_bind [OF *])
      fix c s assume c: "ps \<le> s" "s \<le> length l" "cmd_ok l c"
      note Q = peek_pos [OF c(2), of "'')''"]
      show "parse_ok l ps (let s' = snd (peek l s '')'') in
        if \<not> fst (peek l s '')'') then Syntax ''syntax - missing )'' else parseredirs c l (after_token l s'))"
        using parseredirs_ok [OF "8.prems"(2) Q(4) c(3)] Q c(1) parse_ok_from [of l "after_token l (snd (peek l s '')''))" _ ps]
        by (auto simp: Let_def parse_ok_def [of l ps "Syntax e" for e])
    qed
    then show ?thesis using True by (simp add: Let_def)
  qed (simp add: Let_def parse_ok_def)
qed (simp_all add: parse_ok_def)

lemma parse_fuel:
  assumes "0 \<notin> set l"
  shows "ps \<le> length l \<Longrightarrow> 4 * (length l - ps) + 4 \<le> n \<Longrightarrow> parseline n l ps \<noteq> Outoffuel"
    and "ps \<le> length l \<Longrightarrow> 4 * (length l - ps) + 3 \<le> n \<Longrightarrow> parsepipe n l ps \<noteq> Outoffuel"
    and "ps \<le> length l \<Longrightarrow> 4 * (length l - ps) + 2 \<le> n \<Longrightarrow> parseexec n l ps \<noteq> Outoffuel"
    and "ps \<le> length l \<Longrightarrow> 4 * (length l - ps) + 1 \<le> n \<Longrightarrow> parseblock n l ps \<noteq> Outoffuel"
  using assms
proof (induction n l ps and n l ps and n l ps and n l ps rule: parseline_parsepipe_parseexec_parseblock.induct)
  case (2 n l ps)
  have pp: "parsepipe n l ps \<noteq> Outoffuel" by (rule "2.IH"(1)) (use "2.prems" in auto)
  show ?case
  proof (cases "parsepipe n l ps")
    case (Parsed c s)
    have c: "ps \<le> s" "s \<le> length l" "cmd_ok l c" using parse_result(2) [OF "2.prems"(3,1), of n] Parsed by (auto simp: parse_ok_def)
    obtain c1 s1 where b: "parse_backs l s c = (c1, s1)" by (cases "parse_backs l s c")
    have s1: "ps \<le> s1" "s1 \<le> length l" using backs_result [OF c(2,3) b] c(1) by auto
    note P = peek_pos [OF s1(2), of "'';''"]
    have "parseline n l (after_token l (snd (peek l s1 '';''))) \<noteq> Outoffuel" if t: "fst (peek l s1 '';'')"
      by (rule "2.IH"(2) [OF b [symmetric] refl t]) (use P P(3) [OF t] s1 "2.prems" in auto)
    then show ?thesis using Parsed b by (auto simp: pbind_def Let_def split: parse.splits)
  qed (use pp in \<open>simp_all add: pbind_def\<close>)
next
  case (4 n l ps)
  have pe: "parseexec n l ps \<noteq> Outoffuel" by (rule "4.IH"(1)) (use "4.prems" in auto)
  show ?case
  proof (cases "parseexec n l ps")
    case (Parsed c s)
    have c: "ps \<le> s" "s \<le> length l" using parse_result(3) [OF "4.prems"(3,1), of n] Parsed by (auto simp: parse_ok_def)
    note P = peek_pos [OF c(2), of "''|''"]
    have "parsepipe n l (after_token l (snd (peek l s ''|''))) \<noteq> Outoffuel" if t: "fst (peek l s ''|'')"
      by (rule "4.IH"(2) [OF refl t]) (use P P(3) [OF t] c "4.prems" in auto)
    then show ?thesis using Parsed by (auto simp: pbind_def Let_def split: parse.splits)
  qed (use pe in \<open>simp_all add: pbind_def\<close>)
next
  case (6 n l ps)
  let ?s = "snd (peek l ps ''('')"
  note P = peek_pos [OF "6.prems"(1), of "''(''"]
  have "parseblock n l ?s \<noteq> Outoffuel" if t: "fst (peek l ps ''('')"
    by (rule "6.IH" [OF refl t]) (use P "6.prems" in auto)
  moreover have "parse_args l s [] rs \<noteq> Outoffuel" if "parseredirs_loop l ?s [] = Parsed rs s" for rs s
  proof -
    have "s \<le> length l \<and> (\<forall>r\<in>set rs. redir_ok l r)" using redirs_result [OF "6.prems"(3) P(2), of "[]"] that by auto
    then show ?thesis using args_result [OF "6.prems"(3), of s rs "[]"] by (auto split: parse.splits)
  qed
  moreover have "parseredirs_loop l ?s [] \<noteq> Outoffuel" using redirs_result [OF "6.prems"(3) P(2), of "[]"] by auto
  ultimately show ?case by (auto simp: pbind_def Let_def split: parse.splits)
next
  case (8 n l ps)
  let ?s = "snd (peek l ps ''('')"
  note P = peek_pos [OF "8.prems"(1), of "''(''"]
  show ?case
  proof (cases "fst (peek l ps ''('')")
    case True
    have pl: "parseline n l (after_token l ?s) \<noteq> Outoffuel"
      by (rule "8.IH" [OF refl]) (use True P P(3) [OF True] "8.prems" in auto)
    have "parseredirs c l s \<noteq> Outoffuel" if "s \<le> length l" for c s
      using redirs_result [OF "8.prems"(3) that, of "[]"] by (auto simp: parseredirs_def pbind_def split: parse.splits)
    moreover have "after_token l (snd (peek l s '')'')) \<le> length l" if "parseline n l (after_token l ?s) = Parsed c s" for c s
      using parse_result(1) [OF "8.prems"(3) P(4), of n] that peek_pos(4) by (auto simp: parse_ok_def)
    ultimately show ?thesis using True pl by (auto simp: pbind_def Let_def split: parse.splits)
  qed (simp add: Let_def)
qed simp_all

section \<open>Words of a command\<close>

text \<open>A command with its words: what the interpreter sees.\<close>

datatype wcmd =
    Wexec "byte list list"
  | Wredir wcmd "byte list" int int
  | Wpipe wcmd wcmd
  | Wlist wcmd wcmd
  | Wback wcmd

fun words_of :: "(nat \<Rightarrow> nat \<Rightarrow> byte list) \<Rightarrow> cmd \<Rightarrow> wcmd" where
  "words_of f (EXEC args) = Wexec (map (\<lambda>(q, eq). f q eq) args)"
| "words_of f (REDIR c q eq mode fd) = Wredir (words_of f c) (f q eq) mode fd"
| "words_of f (PIPE a b) = Wpipe (words_of f a) (words_of f b)"
| "words_of f (LIST a b) = Wlist (words_of f a) (words_of f b)"
| "words_of f (BACK c) = Wback (words_of f c)"

definition text_of :: "byte list \<Rightarrow> nat \<Rightarrow> nat \<Rightarrow> byte list" where
  "text_of l q eq = take (eq - q) (drop q l)"

text \<open>The positions at which \<open>nulterminate\<close> stores.\<close>

fun ends :: "cmd \<Rightarrow> nat set" where
  "ends (EXEC args) = snd ` set args"
| "ends (REDIR c q eq mode fd) = insert eq (ends c)"
| "ends (PIPE a b) = ends a \<union> ends b"
| "ends (LIST a b) = ends a \<union> ends b"
| "ends (BACK c) = ends c"

lemma nth_upd: "j < length xs \<Longrightarrow> xs[i := x] ! j = (if i = j then x else xs ! j)"
  by (cases "i < length xs") (auto simp: nth_list_update)

lemma fold_upd_length: "length (fold (\<lambda>(q, eq) buf. buf[eq := 0]) args buf) = length buf"
  by (induction args arbitrary: buf) auto

lemma fold_upd: "i < length buf \<Longrightarrow> fold (\<lambda>(q, eq) buf. buf[eq := 0]) args buf ! i = (if i \<in> snd ` set args then 0 else buf ! i)"
  by (induction args arbitrary: buf) (simp, force simp: nth_upd split: prod.splits)

lemma length_nulterminate [simp]: "length (nulterminate c buf) = length buf"
  by (induction c arbitrary: buf) (simp_all add: fold_upd_length)

lemma nth_nulterminate: "i < length buf \<Longrightarrow> nulterminate c buf ! i = (if i \<in> ends c then 0 else buf ! i)"
  by (induction c arbitrary: buf) (auto simp: fold_upd nth_upd)

lemma ends_ok: "cmd_ok l c \<Longrightarrow> e \<in> ends c \<Longrightarrow> e \<le> length l \<and> \<not> word_char (at l e)"
  by (induction c) (fastforce simp: word_at_def redir_ok_def)+

lemma u_strlen_at: "k < length s \<Longrightarrow> s ! k = 0 \<Longrightarrow> \<forall>i<k. s ! i \<noteq> 0 \<Longrightarrow> u_strlen s = k"
proof (induction s arbitrary: k)
  case (Cons c s)
  then show ?case by (cases k) (auto simp: All_less_Suc2)
qed simp

lemma words_read_back:
  assumes "0 \<notin> set l" and "cmd_ok l c" and "\<And>q eq. word_at l q eq \<Longrightarrow> eq \<in> E \<Longrightarrow> cstr_at buf q = text_of l q eq" and "ends c \<subseteq> E"
  shows "words_of (\<lambda>q eq. cstr_at buf q) c = words_of (text_of l) c"
  using assms(2,4)
proof (induction c)
  case (EXEC args)
  have "cstr_at buf q = text_of l q eq" if "(q, eq) \<in> set args" for q eq
    using that EXEC by (intro assms(3)) (auto intro: rev_image_eqI)
  then show ?case by auto
qed (auto simp: redir_ok_def intro!: assms(3))

lemma cstr_terminated:
  assumes "word_at l q eq" and "eq \<in> E" and "length buf = length l + 1" and "\<And>e. e \<in> E \<Longrightarrow> \<not> word_char (at l e)"
    and "\<And>i. i \<le> length l \<Longrightarrow> buf ! i = (if i \<in> E then 0 else at l i)"
  shows "cstr_at buf q = text_of l q eq"
proof -
  have w: "q < eq" "eq \<le> length l" "\<And>i. q \<le> i \<Longrightarrow> i < eq \<Longrightarrow> word_char (at l i)" using assms(1) by (auto simp: word_at_def)
  have b: "buf ! i = l ! i" "buf ! i \<noteq> 0" if "q \<le> i" "i < eq" for i
    using assms(4) [of i] assms(5) [of i] w(3) [OF that] that w(2) by (auto simp: at_def word_char_def split: if_splits)
  have "u_strlen (drop q buf) = eq - q"
    by (rule u_strlen_at) (use assms(2,3) assms(5) [of eq] b(2) w in auto)
  moreover have "take (eq - q) (drop q buf) = take (eq - q) (drop q l)"
    by (rule nth_equalityI) (use b(1) w assms(3) in auto)
  ultimately show ?thesis by (simp add: cstr_at_def text_of_def)
qed

text \<open>C17: The parser of the shell ends on every line: with four units of fuel for every character and four more it never runs out, for
  any bytes without a terminator among them.\<close>

theorem parsecmd_terminates:
  assumes "0 \<notin> set l" and "4 * length l + 4 \<le> fuel"
  shows "parsecmd fuel l \<noteq> Outoffuel"
proof -
  have "parseline fuel l 0 \<noteq> Outoffuel" using parse_fuel(1) [OF assms(1), of 0 fuel] assms(2) by simp
  then show ?thesis by (auto simp: parsecmd_def pbind_def Let_def split: parse.splits)
qed

lemma parsecmd_words:
  assumes "0 \<notin> set l" and "parsecmd fuel l = Parsed (c, buf) s"
  shows "s = length l \<and> cmd_ok l c \<and> length buf = length l + 1 \<and> words_of (\<lambda>q eq. cstr_at buf q) c = words_of (text_of l) c"
proof -
  obtain s1 where p: "parseline fuel l 0 = Parsed c s1" and s: "s = length l" and buf: "buf = nulterminate c (l @ [0])"
    using assms(2) by (auto simp: parsecmd_def pbind_def Let_def split: parse.splits if_splits)
  have ok: "cmd_ok l c" using parse_result(1) [OF assms(1), of 0 fuel] p by (auto simp: parse_ok_def)
  have nth: "buf ! i = (if i \<in> ends c then 0 else at l i)" if "i \<le> length l" for i
    using that unfolding buf by (subst nth_nulterminate) (auto simp: nth_append at_def)
  have "cstr_at buf q = text_of l q eq" if "word_at l q eq" "eq \<in> ends c" for q eq
    by (rule cstr_terminated [OF that]) (use ends_ok [OF ok] nth buf in auto)
  then show ?thesis using s ok words_read_back [OF assms(1) ok, of "ends c" buf] buf by simp
qed

text \<open>C18: A line the parser accepts is read to its end, and the command it returns is well typed: a simple command has fewer than ten
  words, a redirection opens its file for reading on descriptor 0 or for writing on descriptor 1, and every word is a maximal run of
  ordinary characters of the line. After \<open>nulterminate\<close> the C strings in the buffer at the beginnings of the words are exactly these words.\<close>

theorem parsecmd_typed:
  assumes "0 \<notin> set l" and "parsecmd fuel l = Parsed (c, buf) s"
  shows "s = length l \<and> cmd_ok l c \<and> length buf = length l + 1 \<and> words_of (\<lambda>q eq. cstr_at buf q) c = words_of (text_of l) c"
  by (rule parsecmd_words [OF assms])

section \<open>Printing and reading back\<close>

lemma parse_mono:
  shows "parseline n l ps \<noteq> Outoffuel \<Longrightarrow> n \<le> m \<Longrightarrow> parseline m l ps = parseline n l ps"
    and "parsepipe n l ps \<noteq> Outoffuel \<Longrightarrow> n \<le> m \<Longrightarrow> parsepipe m l ps = parsepipe n l ps"
    and "parseexec n l ps \<noteq> Outoffuel \<Longrightarrow> n \<le> m \<Longrightarrow> parseexec m l ps = parseexec n l ps"
    and "parseblock n l ps \<noteq> Outoffuel \<Longrightarrow> n \<le> m \<Longrightarrow> parseblock m l ps = parseblock n l ps"
proof (induction n l ps and n l ps and n l ps and n l ps arbitrary: m and m and m and m rule: parseline_parsepipe_parseexec_parseblock.induct)
  case (2 n l ps)
  obtain k where k: "m = Suc k" "n \<le> k" using "2.prems"(2) by (cases m) auto
  have p: "parsepipe n l ps \<noteq> Outoffuel" using "2.prems"(1) by (auto simp: pbind_def)
  then have pk: "parsepipe k l ps = parsepipe n l ps" using "2.IH"(1) k(2) by blast
  show ?case
  proof (cases "parsepipe n l ps")
    case (Parsed c s)
    obtain c1 s1 where b: "parse_backs l s c = (c1, s1)" by (cases "parse_backs l s c")
    show ?thesis
    proof (cases "fst (peek l s1 '';'')")
      case True
      have "parseline n l (after_token l (snd (peek l s1 '';''))) \<noteq> Outoffuel"
        using "2.prems"(1) Parsed b True by (auto simp: pbind_def Let_def)
      then show ?thesis using "2.IH"(2) [OF b [symmetric] refl True _ k(2)] Parsed b True pk by (simp add: k(1) pbind_def Let_def)
    qed (use Parsed b pk in \<open>simp add: k(1) pbind_def Let_def\<close>)
  qed (use p pk in \<open>simp_all add: k(1) pbind_def\<close>)
next
  case (4 n l ps)
  obtain k where k: "m = Suc k" "n \<le> k" using "4.prems"(2) by (cases m) auto
  have p: "parseexec n l ps \<noteq> Outoffuel" using "4.prems"(1) by (auto simp: pbind_def)
  then have pk: "parseexec k l ps = parseexec n l ps" using "4.IH"(1) k(2) by blast
  show ?case
  proof (cases "parseexec n l ps")
    case (Parsed c s)
    show ?thesis
    proof (cases "fst (peek l s ''|'')")
      case True
      have "parsepipe n l (after_token l (snd (peek l s ''|''))) \<noteq> Outoffuel"
        using "4.prems"(1) Parsed True by (auto simp: pbind_def Let_def)
      then show ?thesis using "4.IH"(2) [OF refl True _ k(2)] Parsed True pk by (simp add: k(1) pbind_def Let_def)
    qed (use Parsed pk in \<open>simp add: k(1) pbind_def Let_def\<close>)
  qed (use p pk in \<open>simp_all add: k(1) pbind_def\<close>)
next
  case (6 n l ps)
  obtain k where k: "m = Suc k" "n \<le> k" using "6.prems"(2) by (cases m) auto
  show ?case
  proof (cases "fst (peek l ps ''('')")
    case True
    then show ?thesis using "6.IH" [OF refl True _ k(2)] "6.prems"(1) by (simp add: k(1) Let_def)
  qed (simp add: k(1) Let_def)
next
  case (8 n l ps)
  obtain k where k: "m = Suc k" "n \<le> k" using "8.prems"(2) by (cases m) auto
  show ?case
  proof (cases "fst (peek l ps ''('')")
    case True
    have "parseline n l (after_token l (snd (peek l ps ''(''))) \<noteq> Outoffuel"
      using "8.prems"(1) True by (auto simp: pbind_def Let_def)
    then show ?thesis using "8.IH" [OF refl _ _ k(2)] True by (simp add: k(1) pbind_def Let_def)
  qed (simp add: k(1) Let_def)
qed simp_all

fun show_cmd :: "wcmd \<Rightarrow> byte list" where
  "show_cmd (Wexec ws) = concat (map (\<lambda>w. w @ [32]) ws)"
| "show_cmd (Wredir c f mode fd) = 40 # show_cmd c @ 41 # (if mode = RD_ONLY then [60] else if mode = WR_CREATE then [62, 62] else [62]) @ f"
| "show_cmd (Wpipe a b) = 40 # show_cmd a @ [41, 124, 40] @ show_cmd b @ [41]"
| "show_cmd (Wlist a b) = 40 # show_cmd a @ [41, 59, 40] @ show_cmd b @ [41]"
| "show_cmd (Wback a) = 40 # show_cmd a @ [41, 38]"

definition is_word :: "byte list \<Rightarrow> bool" where
  "is_word w \<longleftrightarrow> w \<noteq> [] \<and> (\<forall>c\<in>set w. word_char c)"

fun wcmd_ok :: "wcmd \<Rightarrow> bool" where
  "wcmd_ok (Wexec ws) \<longleftrightarrow> length ws < MAXARGS \<and> (\<forall>w\<in>set ws. is_word w)"
| "wcmd_ok (Wredir c f mode fd) \<longleftrightarrow> wcmd_ok c \<and> is_word f \<and> (mode, fd) \<in> {(RD_ONLY, 0), (WR_CREATE_TRUNC, 1), (WR_CREATE, 1)}"
| "wcmd_ok (Wpipe a b) \<longleftrightarrow> wcmd_ok a \<and> wcmd_ok b"
| "wcmd_ok (Wlist a b) \<longleftrightarrow> wcmd_ok a \<and> wcmd_ok b"
| "wcmd_ok (Wback a) \<longleftrightarrow> wcmd_ok a"

text \<open>A substring of the line.\<close>

definition sub_at :: "byte list \<Rightarrow> nat \<Rightarrow> byte list \<Rightarrow> bool" where
  "sub_at l p xs \<longleftrightarrow> p + length xs \<le> length l \<and> take (length xs) (drop p l) = xs"

lemma sub_at_Nil [simp]: "sub_at l p [] \<longleftrightarrow> p \<le> length l"
  by (simp add: sub_at_def)

lemma sub_at_append: "sub_at l p (xs @ ys) \<longleftrightarrow> sub_at l p xs \<and> sub_at l (p + length xs) ys"
proof
  assume a: "sub_at l p (xs @ ys)"
  then have "take (length xs) (drop p l) @ take (length ys) (drop (p + length xs) l) = xs @ ys" "p + length xs + length ys \<le> length l"
    by (simp_all add: sub_at_def take_add add.commute add.left_commute)
  then show "sub_at l p xs \<and> sub_at l (p + length xs) ys" by (auto simp: sub_at_def)
next
  assume "sub_at l p xs \<and> sub_at l (p + length xs) ys"
  then show "sub_at l p (xs @ ys)" by (auto simp: sub_at_def take_add add.commute add.left_commute)
qed

lemma sub_at_Cons: "sub_at l p (x # xs) \<longleftrightarrow> p < length l \<and> at l p = x \<and> sub_at l (p + 1) xs"
proof -
  have "sub_at l p [x] \<longleftrightarrow> p < length l \<and> at l p = x"
    by (cases "p < length l") (auto simp: sub_at_def at_def take_Suc_conv_app_nth hd_drop_conv_nth take_Suc)
  then show ?thesis using sub_at_append [of l p "[x]" xs] by auto
qed

abbreviation nows :: "byte list \<Rightarrow> nat \<Rightarrow> bool" where
  "nows l s \<equiv> u_strchr whitespace (at l s) = None"

lemma whitespace_chars: "u_strchr whitespace c = None \<longleftrightarrow> c \<notin> {32, 9, 13, 10, 11}"
  by (auto simp: whitespace_def)

lemma skip_ws_here: "nows l s \<Longrightarrow> skip_ws l s = s"
  by (simp add: skip_ws.simps)

lemma peek_here: "nows l s \<Longrightarrow> peek l s t = (at l s \<noteq> 0 \<and> u_strchr (bytes_of t) (at l s) \<noteq> None, s)"
  by (simp add: peek_def skip_ws_here Let_def)

lemma token_here:
  assumes "at l s = c" and "c \<in> {124, 40, 41, 59, 38, 60}" and "nows l (s + 1)"
  shows "gettoken l s = (c, s, s + 1, s + 1)" and "nows l s"
proof -
  show ws: "nows l s" unfolding assms(1) using assms(2) by (elim insertE emptyE) (simp_all add: whitespace_def)
  have "c \<noteq> 0" using assms(2) by auto
  then show "gettoken l s = (c, s, s + 1, s + 1)"
    unfolding gettoken_def Let_def skip_ws_here [OF ws] assms(1) using assms(2) skip_ws_here [OF assms(3)] by simp
qed

lemma peek_char:
  assumes "nows l s"
  shows "fst (peek l s t) \<longleftrightarrow> at l s \<noteq> 0 \<and> u_strchr (bytes_of t) (at l s) \<noteq> None" and "snd (peek l s t) = s"
  by (simp_all add: peek_here [OF assms])

lemma block_run:
  assumes "at l p = 40" and "nows l (p + 1)" and "\<And>n. n0 \<le> n \<Longrightarrow> parseline n l (p + 1) = Parsed c s" and "at l s = 41" and "nows l (s + 1)"
    and "n0 + 2 \<le> n"
  shows "parseexec n l p = parseredirs c l (s + 1)"
proof -
  obtain k where k: "n = Suc (Suc k)" "n0 \<le> k" using assms(6) by (cases n; cases "n - 1") auto
  note t = token_here [OF assms(1) _ assms(2)] token_here [OF assms(4) _ assms(5)]
  have ws: "nows l p" "nows l s" using t by simp_all
  have g: "after_token l p = p + 1" "after_token l s = s + 1" using t by simp_all
  show ?thesis
    using assms(3) [OF k(2)] g by (simp add: k(1) Let_def peek_char [OF ws(1)] peek_char [OF ws(2)] assms(1,4) bytes_of_def pbind_def)
qed

lemma no_redirs:
  assumes "nows l s" and "at l s \<notin> {60, 62}"
  shows "parseredirs_loop l s rs = Parsed rs s" and "parseredirs c l s = Parsed c s"
proof -
  have "\<not> fst (peek l s ''<>'')" "snd (peek l s ''<>'') = s" using assms(2) by (auto simp: peek_char [OF assms(1)] bytes_of_def)
  then show "parseredirs_loop l s rs = Parsed rs s" for rs by (simp add: parseredirs_loop.simps Let_def)
  then show "parseredirs c l s = Parsed c s" by (simp add: parseredirs_def pbind_def add_redirs_def)
qed

lemma pipe_end:
  assumes "\<And>n. n0 \<le> n \<Longrightarrow> parseexec n l p = Parsed c s" and "nows l s" and "at l s \<noteq> 124" and "n0 + 1 \<le> n"
  shows "parsepipe n l p = Parsed c s"
proof -
  obtain k where k: "n = Suc k" "n0 \<le> k" using assms(4) by (cases n) auto
  show ?thesis using assms(1) [OF k(2)] assms(3) by (simp add: k(1) pbind_def Let_def peek_char [OF assms(2)] bytes_of_def)
qed

lemma no_backs: "nows l s \<Longrightarrow> at l s \<noteq> 38 \<Longrightarrow> parse_backs l s c = (c, s)"
  by (simp add: parse_backs.simps peek_char bytes_of_def)

lemma line_end:
  assumes "\<And>n. n0 \<le> n \<Longrightarrow> parsepipe n l p = Parsed c s" and "nows l s" and "at l s \<notin> {38, 59}" and "n0 + 1 \<le> n"
  shows "parseline n l p = Parsed c s"
proof -
  obtain k where k: "n = Suc k" "n0 \<le> k" using assms(4) by (cases n) auto
  have b: "parse_backs l s c = (c, s)" using no_backs [OF assms(2)] assms(3) by simp
  show ?thesis using assms(1) [OF k(2)] assms(3) b by (simp add: k(1) pbind_def Let_def peek_char [OF assms(2)] bytes_of_def)
qed

text \<open>What may follow a printed command.\<close>

definition stop :: "byte list \<Rightarrow> nat \<Rightarrow> bool" where
  "stop l s \<longleftrightarrow> at l s = 0 \<or> at l s = 41"

lemma stop_char: "stop l s \<Longrightarrow> nows l s" "stop l s \<Longrightarrow> at l s \<notin> {38, 59, 60, 62, 124}" "stop l s \<Longrightarrow> \<not> word_char (at l s)"
  by (auto simp: stop_def whitespace_def word_char_def symbols_def bytes_of_def)

lemma block_line:
  assumes "at l p = 40" and "nows l (p + 1)" and "\<And>n. n0 \<le> n \<Longrightarrow> parseline n l (p + 1) = Parsed c s" and "at l s = 41" and "nows l (s + 1)"
    and "at l (s + 1) \<notin> {60, 62}"
  shows "n0 + 2 \<le> n \<Longrightarrow> parseexec n l p = Parsed c (s + 1)" and "at l (s + 1) \<noteq> 124 \<Longrightarrow> n0 + 3 \<le> n \<Longrightarrow> parsepipe n l p = Parsed c (s + 1)"
    and "at l (s + 1) \<notin> {38, 59, 124} \<Longrightarrow> n0 + 4 \<le> n \<Longrightarrow> parseline n l p = Parsed c (s + 1)"
proof -
  show e: "n0 + 2 \<le> n \<Longrightarrow> parseexec n l p = Parsed c (s + 1)" for n
    using block_run [OF assms(1-5)] no_redirs(2) [OF assms(5,6)] by simp
  show pp: "at l (s + 1) \<noteq> 124 \<Longrightarrow> n0 + 3 \<le> n \<Longrightarrow> parsepipe n l p = Parsed c (s + 1)" for n
    using pipe_end [of "n0 + 2", OF e assms(5)] by simp
  show "at l (s + 1) \<notin> {38, 59, 124} \<Longrightarrow> n0 + 4 \<le> n \<Longrightarrow> parseline n l p = Parsed c (s + 1)"
    using line_end [of "n0 + 3", OF pp assms(5)] by simp
qed

lemma is_word_at:
  assumes "sub_at l p w" and "is_word w"
  shows "word_char (at l p)" and "\<And>i. p \<le> i \<Longrightarrow> i < p + length w \<Longrightarrow> word_char (at l i)" and "text_of l p (p + length w) = w"
proof -
  have "word_char (at l i)" if "p \<le> i" "i < p + length w" for i
  proof -
    have "l ! i = w ! (i - p)"
    proof -
      have "take (length w) (drop p l) ! (i - p) = l ! i" using that assms(1) [unfolded sub_at_def, THEN conjunct1] by simp
      then show ?thesis using assms(1) [unfolded sub_at_def, THEN conjunct2] by simp
    qed
    moreover have "i < length l" using that assms(1) by (simp add: sub_at_def)
    ultimately show ?thesis using that assms(2) by (auto simp: is_word_def at_def)
  qed
  then show "\<And>i. p \<le> i \<Longrightarrow> i < p + length w \<Longrightarrow> word_char (at l i)" and "word_char (at l p)" using assms(2) by (auto simp: is_word_def)
  show "text_of l p (p + length w) = w" using assms(1) by (simp add: sub_at_def text_of_def)
qed

lemma skip_word_to:
  "s \<le> e \<Longrightarrow> e \<le> length l \<Longrightarrow> (\<And>i. s \<le> i \<Longrightarrow> i < e \<Longrightarrow> word_char (at l i)) \<Longrightarrow> \<not> word_char (at l e) \<Longrightarrow> at l e \<noteq> 0 \<or> e = length l \<Longrightarrow> skip_word l s = e"
proof (induction l s rule: skip_word.induct)
  case (1 l s)
  show ?case
  proof (cases "s = e")
    case True
    then show ?thesis using "1.prems"(4,5) by (subst skip_word.simps) (auto simp: word_char_def)
  next
    case False
    then have se: "s < e" using "1.prems"(1) by simp
    have w: "word_char (at l s)" using "1.prems"(3) se by blast
    then have c: "s < length l \<and> u_strchr whitespace (at l s) = None \<and> u_strchr symbols (at l s) = None" using se "1.prems"(2) by (simp add: word_char_def)
    have "skip_word l (s + 1) = e" by (rule "1.IH" [OF c]) (use se "1.prems" in auto)
    then show ?thesis using c by (simp add: skip_word.simps [of l s])
  qed
qed

lemma word_token:
  assumes "sub_at l p w" and "is_word w" and "\<not> word_char (at l (p + length w))" and "at l (p + length w) \<noteq> 0 \<or> p + length w = length l"
  shows "gettoken l p = (97, p, p + length w, skip_ws l (p + length w))"
proof -
  note W = is_word_at [OF assms(1,2)]
  have sw: "skip_word l p = p + length w" by (rule skip_word_to) (use W assms in \<open>auto simp: sub_at_def\<close>)
  have c: "at l p \<noteq> 0" "nows l p" "u_strchr symbols (at l p) = None" using W(1) by (auto simp: word_char_def)
  have "at l p \<notin> {124, 40, 41, 59, 38, 60, 62}" using c(3) symbols_chars by auto
  then show ?thesis unfolding gettoken_def Let_def skip_ws_here [OF c(2)] using c(1) sw by simp
qed

abbreviation spaced :: "byte list list \<Rightarrow> byte list" where
  "spaced ws \<equiv> concat (map (\<lambda>w. w @ [32]) ws)"

lemma word_char_not: "word_char c \<Longrightarrow> c \<notin> {0, 32, 9, 13, 10, 11, 60, 124, 62, 38, 59, 40, 41}"
  using whitespace_chars [of c] symbols_chars [of c] by (simp add: word_char_def)

lemma words_start:
  assumes "sub_at l p (spaced ws)" and "\<forall>w\<in>set ws. is_word w" and "stop l (p + length (spaced ws))"
  shows "nows l p" and "at l p \<notin> {60, 62, 40}"
proof -
  have "nows l p \<and> at l p \<notin> {60, 62, 40}"
  proof (cases ws)
    case Nil
    then show ?thesis using assms(3) stop_char [of l p] by (auto simp: stop_def)
  next
    case (Cons w vs)
    then have "word_char (at l p)" using assms(1,2) is_word_at(1) [of l p w] by (auto simp: sub_at_append)
    then show ?thesis using word_char_not [of "at l p"] by (simp add: word_char_def)
  qed
  then show "nows l p" and "at l p \<notin> {60, 62, 40}" by auto
qed

lemma args_run:
  "sub_at l p (spaced ws) \<Longrightarrow> \<forall>w\<in>set ws. is_word w \<Longrightarrow> stop l (p + length (spaced ws)) \<Longrightarrow> p + length (spaced ws) = length l \<or> at l (p + length (spaced ws)) \<noteq> 0 \<Longrightarrow>
    length args + length ws < MAXARGS \<Longrightarrow>
    \<exists>ps. parse_args l p args [] = Parsed (args @ ps, []) (p + length (spaced ws)) \<and> map (\<lambda>(q, eq). text_of l q eq) ps = ws"
proof (induction ws arbitrary: p args)
  case Nil
  then have st: "stop l p" by simp
  note S = stop_char [OF st]
  have "parse_args l p args [] = Parsed (args, []) p"
  proof (cases "at l p = 0")
    case True
    then have "gettoken l p = (0, p, p, p)" by (simp add: gettoken_def skip_ws_here [OF S(1)] Let_def)
    then show ?thesis using True by (simp add: parse_args.simps peek_char [OF S(1)] Let_def)
  next
    case False
    then have "at l p = 41" using st by (simp add: stop_def)
    then show ?thesis by (simp add: parse_args.simps peek_char [OF S(1)] Let_def bytes_of_def)
  qed
  then show ?case by (intro exI [of _ "[]"]) simp
next
  case (Cons w ws)
  let ?e = "p + length w"
  have w: "sub_at l p w" "is_word w" "at l ?e = 32" "?e < length l" and rest: "sub_at l (?e + 1) (spaced ws)"
    using Cons.prems(1,2) by (auto simp: sub_at_append sub_at_Cons)
  have st: "stop l (?e + 1 + length (spaced ws))" and en: "?e + 1 + length (spaced ws) = length l \<or> at l (?e + 1 + length (spaced ws)) \<noteq> 0"
    using Cons.prems(3,4) by (auto simp: add.assoc)
  note W = words_start [OF rest _ st]
  have ns: "nows l (?e + 1)" "at l (?e + 1) \<notin> {60, 62}" using W Cons.prems(2) by auto
  have "skip_ws l ?e = skip_ws l (?e + 1)" using w(3,4) by (subst skip_ws.simps) (simp add: whitespace_def)
  then have sk: "skip_ws l ?e = ?e + 1" using skip_ws_here [OF ns(1)] by simp
  have "\<not> word_char 32" by (simp add: word_char_def whitespace_def)
  then have tok: "gettoken l p = (97, p, ?e, ?e + 1)" using word_token [OF w(1,2)] w(3) sk by simp
  have wc: "word_char (at l p)" using is_word_at(1) [OF w(1,2)] .
  then have pk: "nows l p" "\<not> fst (peek l p ''|)&;'')" "snd (peek l p ''|)&;'') = p"
    using word_char_not [OF wc] by (auto simp: peek_char word_char_def bytes_of_def)
  have run: "parse_args l p args [] = parse_args l (?e + 1) (args @ [(p, ?e)]) []"
    using pk(2,3) tok Cons.prems(5) no_redirs(1) [OF ns] by (subst parse_args.simps) (simp add: Let_def)
  obtain ps where "parse_args l (?e + 1) (args @ [(p, ?e)]) [] = Parsed ((args @ [(p, ?e)]) @ ps, []) (?e + 1 + length (spaced ws))"
    "map (\<lambda>(q, eq). text_of l q eq) ps = ws"
    using Cons.IH [OF rest _ st en, of "args @ [(p, ?e)]"] Cons.prems(2,5) by auto
  then show ?case using run is_word_at(3) [OF w(1,2)] by (intro exI [of _ "(p, ?e) # ps"]) (simp add: add.assoc)
qed

lemma exec_run:
  assumes "sub_at l p (spaced ws)" and "\<forall>w\<in>set ws. is_word w" and "stop l (p + length (spaced ws))"
    and "p + length (spaced ws) = length l \<or> at l (p + length (spaced ws)) \<noteq> 0" and "length ws < MAXARGS"
  shows "\<exists>c. (\<forall>n\<ge>3. parseline n l p = Parsed c (p + length (spaced ws))) \<and> words_of (text_of l) c = Wexec ws"
proof -
  note W = words_start [OF assms(1-3)] and S = stop_char [OF assms(3)]
  obtain ps where a: "parse_args l p [] [] = Parsed (ps, []) (p + length (spaced ws))" "map (\<lambda>(q, eq). text_of l q eq) ps = ws"
    using args_run [OF assms(1-4), of "[]"] assms(5) by auto
  have nr: "parseredirs_loop l p [] = Parsed [] p" using no_redirs(1) [OF W(1)] W(2) by simp
  have "parseexec n l p = Parsed (EXEC ps) (p + length (spaced ws))" if "1 \<le> n" for n
    using that nr a(1) W(2) by (cases n) (auto simp: Let_def peek_char [OF W(1)] bytes_of_def pbind_def add_redirs_def)
  then have "parsepipe n l p = Parsed (EXEC ps) (p + length (spaced ws))" if "2 \<le> n" for n
    using that pipe_end [of 1 l p] S by simp
  then have "\<forall>n\<ge>3. parseline n l p = Parsed (EXEC ps) (p + length (spaced ws))" using line_end [of 2 l p] S by simp
  then show ?thesis using a(2) by (intro exI [of _ "EXEC ps"]) simp
qed

definition reads :: "byte list \<Rightarrow> nat \<Rightarrow> wcmd \<Rightarrow> bool" where
  "reads l p a \<longleftrightarrow> (\<exists>c n0. (\<forall>n\<ge>n0. parseline n l p = Parsed c (p + length (show_cmd a))) \<and> words_of (text_of l) c = a)"

lemma show_start:
  assumes "wcmd_ok a" and "sub_at l p (show_cmd a)" and "stop l (p + length (show_cmd a))"
  shows "nows l p"
proof (cases a)
  case (Wexec ws)
  then show ?thesis using words_start(1) [of l p ws] assms by simp
qed (use assms(2) in \<open>auto simp: sub_at_Cons whitespace_def\<close>)

lemma bracket:
  assumes "wcmd_ok a" and "sub_at l p (40 # show_cmd a @ 41 # xs)"
    and IH: "\<And>p. sub_at l p (show_cmd a) \<Longrightarrow> stop l (p + length (show_cmd a)) \<Longrightarrow>
      p + length (show_cmd a) = length l \<or> at l (p + length (show_cmd a)) \<noteq> 0 \<Longrightarrow> reads l p a"
  obtains c n0 s where "s = p + 1 + length (show_cmd a)" and "\<And>n. n0 \<le> n \<Longrightarrow> parseline n l (p + 1) = Parsed c s" and "words_of (text_of l) c = a"
    and "at l p = 40" and "nows l (p + 1)" and "at l s = 41" and "sub_at l (s + 1) xs"
proof -
  let ?s = "p + 1 + length (show_cmd a)"
  have s: "at l p = 40" "sub_at l (p + 1) (show_cmd a)" "at l ?s = 41" "sub_at l (?s + 1) xs"
    using assms(2) by (auto simp: sub_at_Cons sub_at_append)
  have st: "stop l ?s" using s(3) by (simp add: stop_def)
  have "reads l (p + 1) a" using IH [OF s(2)] st s(3) by simp
  then obtain c n0 where "\<forall>n\<ge>n0. parseline n l (p + 1) = Parsed c ?s" "words_of (text_of l) c = a" by (auto simp: reads_def)
  then show ?thesis using that [of ?s n0 c] s show_start [OF assms(1) s(2) st] by blast
qed

lemma redir_token:
  assumes "sub_at l s ((if mode = RD_ONLY then [60] else if mode = WR_CREATE then [62, 62] else [62]) @ f)" and "is_word f"
    and "stop l e" and "e = length l \<or> at l e \<noteq> 0" and "e = s + length ((if mode = RD_ONLY then [60] else if mode = WR_CREATE then [62, 62] else [62 :: byte]) @ f)"
    and "(mode, fd) \<in> {(RD_ONLY, 0), (WR_CREATE_TRUNC, 1), (WR_CREATE, 1)}"
  shows "\<exists>q. parseredirs c l s = Parsed (REDIR c q e mode fd) e \<and> text_of l q e = f" and "nows l s"
proof -
  define op where "op = (if mode = RD_ONLY then [60] else if mode = WR_CREATE then [62, 62] else [62 :: byte])"
  define q where "q = s + length op"
  have f: "sub_at l q f" "e = q + length f" using assms(1,5) by (auto simp: op_def [symmetric] sub_at_append q_def)
  note W = is_word_at [OF f(1) assms(2)]
  have wc: "nows l q" "at l q \<notin> {60, 62}" using word_char_not [OF W(1)] W(1) by (auto simp: word_char_def)
  have o: "sub_at l s op" using assms(1) by (simp add: op_def [symmetric] sub_at_append)
  have at: "mode = RD_ONLY \<Longrightarrow> at l s = 60" "mode = WR_CREATE_TRUNC \<Longrightarrow> at l s = 62 \<and> q = s + 1" "mode = WR_CREATE \<Longrightarrow> at l s = 62 \<and> at l (s + 1) = 62 \<and> q = s + 2"
    "mode = RD_ONLY \<Longrightarrow> q = s + 1"
    using o by (auto simp: op_def q_def sub_at_Cons split: if_splits)
  have c: "at l s \<in> {60, 62}" using at assms(6) by auto
  then show ns: "nows l s" by (auto simp: whitespace_def)
  have t1: "gettoken l s = ((if mode = RD_ONLY then 60 else if mode = WR_CREATE then 43 else 62), s, q, q)"
    unfolding gettoken_def Let_def skip_ws_here [OF ns] using at assms(6) wc skip_ws_here [OF wc(1)] by auto
  have t2: "gettoken l q = (97, q, e, e)"
    using word_token [OF f(1) assms(2)] stop_char [OF assms(3)] assms(4) skip_ws_here [of l e] by (auto simp: f(2))
  have p1: "fst (peek l s ''<>'')" "snd (peek l s ''<>'') = s" using c by (auto simp: peek_char [OF ns] bytes_of_def)
  have n: "parseredirs_loop l e rs = Parsed rs e" for rs using no_redirs(1) stop_char [OF assms(3)] by blast
  have "parseredirs_loop l s [] = Parsed [(q, e, mode, fd)] e"
    using p1 t1 t2 n assms(6) by (subst parseredirs_loop.simps) (auto simp: Let_def redir_of_def)
  then have "parseredirs c l s = Parsed (REDIR c q e mode fd) e" by (simp add: parseredirs_def pbind_def add_redirs_def)
  then show "\<exists>q. parseredirs c l s = Parsed (REDIR c q e mode fd) e \<and> text_of l q e = f" using W(3) f(2) by blast
qed

lemma reads_back:
  "wcmd_ok a \<Longrightarrow> sub_at l p (show_cmd a) \<Longrightarrow> stop l (p + length (show_cmd a)) \<Longrightarrow>
    p + length (show_cmd a) = length l \<or> at l (p + length (show_cmd a)) \<noteq> 0 \<Longrightarrow> reads l p a"
proof (induction a arbitrary: p)
  case (Wexec ws)
  then show ?case using exec_run [of l p ws] by (auto simp: reads_def)
next
  case (Wredir a f mode fd)
  let ?op = "(if mode = RD_ONLY then [60] else if mode = WR_CREATE then [62, 62] else [62 :: byte]) @ f" and ?e = "p + length (show_cmd (Wredir a f mode fd))"
  have ok: "wcmd_ok a" "is_word f" "(mode, fd) \<in> {(RD_ONLY, 0), (WR_CREATE_TRUNC, 1), (WR_CREATE, 1)}" using Wredir.prems(1) by auto
  obtain c n0 s where c: "s = p + 1 + length (show_cmd a)" "\<And>n. n0 \<le> n \<Longrightarrow> parseline n l (p + 1) = Parsed c s" "words_of (text_of l) c = a"
    "at l p = 40" "nows l (p + 1)" "at l s = 41" "sub_at l (s + 1) ?op"
    by (rule bracket [OF ok(1), of l p ?op]) (use Wredir.prems(2) Wredir.IH [OF ok(1)] in auto)
  have e: "?e = s + 1 + length ?op" by (simp add: c(1))
  obtain q where q: "parseredirs c l (s + 1) = Parsed (REDIR c q ?e mode fd) ?e" "text_of l q ?e = f" and ns: "nows l (s + 1)"
    using redir_token(1) [OF c(7) ok(2) Wredir.prems(3,4) e ok(3), of c] redir_token(2) [OF c(7) ok(2) Wredir.prems(3,4) e ok(3)] by blast
  have x: "parseexec n l p = Parsed (REDIR c q ?e mode fd) ?e" if "n0 + 2 \<le> n" for n
    using block_run [OF c(4,5,2,6) ns that] q(1) by simp
  note S = stop_char [OF Wredir.prems(3)]
  have y: "parsepipe n l p = Parsed (REDIR c q ?e mode fd) ?e" if "n0 + 3 \<le> n" for n
    using pipe_end [of "n0 + 2", OF x S(1)] S(2) that by simp
  have "parseline n l p = Parsed (REDIR c q ?e mode fd) ?e" if "n0 + 4 \<le> n" for n
    using line_end [of "n0 + 3", OF y S(1)] S(2) that by simp
  then show ?case using q(2) c(3) unfolding reads_def by (intro exI [of _ "REDIR c q ?e mode fd"] exI [of _ "n0 + 4"]) simp
next
  case (Wpipe a b)
  let ?e = "p + length (show_cmd (Wpipe a b))"
  have ok: "wcmd_ok a" "wcmd_ok b" using Wpipe.prems(1) by auto
  note S = stop_char [OF Wpipe.prems(3)]
  obtain c n0 s where c: "s = p + 1 + length (show_cmd a)" "\<And>n. n0 \<le> n \<Longrightarrow> parseline n l (p + 1) = Parsed c s" "words_of (text_of l) c = a"
    "at l p = 40" "nows l (p + 1)" "at l s = 41" "sub_at l (s + 1) (124 # 40 # show_cmd b @ 41 # [])"
    by (rule bracket [OF ok(1), of l p "124 # 40 # show_cmd b @ 41 # []"]) (use Wpipe.prems(2) Wpipe.IH(1) [OF ok(1)] in auto)
  have bar: "at l (s + 1) = 124" and rest: "sub_at l (s + 2) (40 # show_cmd b @ 41 # [])" using c(7) by (auto simp: sub_at_Cons)
  obtain d m0 r where d: "r = s + 2 + 1 + length (show_cmd b)" "\<And>n. m0 \<le> n \<Longrightarrow> parseline n l (s + 2 + 1) = Parsed d r" "words_of (text_of l) d = b"
    "at l (s + 2) = 40" "nows l (s + 2 + 1)" "at l r = 41" "sub_at l (r + 1) []"
    by (rule bracket [OF ok(2) rest]) (use Wpipe.IH(2) [OF ok(2)] in auto)
  have e: "?e = r + 1" by (simp add: c(1) d(1))
  have ns: "nows l (s + 2)" "nows l (s + 1)" using d(4) bar by (simp_all add: whitespace_def)
  have x: "parseexec n l p = Parsed c (s + 1)" if "n0 + 2 \<le> n" for n
    using block_line(1) [OF c(4,5,2,6) ns(2) _ that] bar by simp
  have y: "parsepipe n l (s + 2) = Parsed d ?e" if "m0 + 3 \<le> n" for n
    using block_line(2) [of l "s + 2" m0 d r n, OF d(4,5,2,6)] S that unfolding e by simp
  have t: "after_token l (s + 1) = s + 2" using token_here(1) [OF bar] ns(1) by simp
  have z: "parsepipe n l p = Parsed (PIPE c d) ?e" if "n0 + m0 + 4 \<le> n" for n
  proof -
    obtain k where k: "n = Suc k" using \<open>n0 + m0 + 4 \<le> n\<close> by (cases n) auto
    show ?thesis using x [of k] y [of k] that t bar ns(2) by (simp add: k pbind_def Let_def peek_char bytes_of_def)
  qed
  have "parseline n l p = Parsed (PIPE c d) ?e" if "n0 + m0 + 5 \<le> n" for n
    using line_end [of "n0 + m0 + 4", OF z S(1)] S(2) that by simp
  then show ?case using c(3) d(3) unfolding reads_def by (intro exI [of _ "PIPE c d"] exI [of _ "n0 + m0 + 5"]) simp
next
  case (Wlist a b)
  let ?e = "p + length (show_cmd (Wlist a b))"
  have ok: "wcmd_ok a" "wcmd_ok b" using Wlist.prems(1) by auto
  note S = stop_char [OF Wlist.prems(3)]
  obtain c n0 s where c: "s = p + 1 + length (show_cmd a)" "\<And>n. n0 \<le> n \<Longrightarrow> parseline n l (p + 1) = Parsed c s" "words_of (text_of l) c = a"
    "at l p = 40" "nows l (p + 1)" "at l s = 41" "sub_at l (s + 1) (59 # 40 # show_cmd b @ 41 # [])"
    by (rule bracket [OF ok(1), of l p "59 # 40 # show_cmd b @ 41 # []"]) (use Wlist.prems(2) Wlist.IH(1) [OF ok(1)] in auto)
  have semi: "at l (s + 1) = 59" and rest: "sub_at l (s + 2) (40 # show_cmd b @ 41 # [])" using c(7) by (auto simp: sub_at_Cons)
  obtain d m0 r where d: "r = s + 2 + 1 + length (show_cmd b)" "\<And>n. m0 \<le> n \<Longrightarrow> parseline n l (s + 2 + 1) = Parsed d r" "words_of (text_of l) d = b"
    "at l (s + 2) = 40" "nows l (s + 2 + 1)" "at l r = 41" "sub_at l (r + 1) []"
    by (rule bracket [OF ok(2) rest]) (use Wlist.IH(2) [OF ok(2)] in auto)
  have e: "?e = r + 1" by (simp add: c(1) d(1))
  have ns: "nows l (s + 2)" "nows l (s + 1)" using d(4) semi by (simp_all add: whitespace_def)
  have x: "parsepipe n l p = Parsed c (s + 1)" if "n0 + 3 \<le> n" for n
    using block_line(2) [OF c(4,5,2,6) ns(2) _ _ that] semi by simp
  have y: "parseline n l (s + 2) = Parsed d ?e" if "m0 + 4 \<le> n" for n
    using block_line(3) [of l "s + 2" m0 d r n, OF d(4,5,2,6)] S that unfolding e by simp
  have t: "after_token l (s + 1) = s + 2" using token_here(1) [OF semi] ns(1) by simp
  have b: "parse_backs l (s + 1) c = (c, s + 1)" using no_backs [OF ns(2)] semi by simp
  have "parseline n l p = Parsed (LIST c d) ?e" if "n0 + m0 + 5 \<le> n" for n
  proof -
    obtain k where k: "n = Suc k" using \<open>n0 + m0 + 5 \<le> n\<close> by (cases n) auto
    show ?thesis using x [of k] y [of k] that t b semi ns(2) by (simp add: k pbind_def Let_def peek_char bytes_of_def)
  qed
  then show ?case using c(3) d(3) unfolding reads_def by (intro exI [of _ "LIST c d"] exI [of _ "n0 + m0 + 5"]) simp
next
  case (Wback a)
  let ?e = "p + length (show_cmd (Wback a))"
  have ok: "wcmd_ok a" using Wback.prems(1) by auto
  note S = stop_char [OF Wback.prems(3)]
  obtain c n0 s where c: "s = p + 1 + length (show_cmd a)" "\<And>n. n0 \<le> n \<Longrightarrow> parseline n l (p + 1) = Parsed c s" "words_of (text_of l) c = a"
    "at l p = 40" "nows l (p + 1)" "at l s = 41" "sub_at l (s + 1) [38]"
    by (rule bracket [OF ok, of l p "[38]"]) (use Wback.prems(2) Wback.IH [OF ok] in auto)
  have amp: "at l (s + 1) = 38" using c(7) by (auto simp: sub_at_Cons)
  have e: "?e = s + 2" by (simp add: c(1))
  have ns: "nows l (s + 1)" using amp by (simp add: whitespace_def)
  have x: "parsepipe n l p = Parsed c (s + 1)" if "n0 + 3 \<le> n" for n
    using block_line(2) [OF c(4,5,2,6) ns _ _ that] amp by simp
  have t: "after_token l (s + 1) = s + 2" using token_here(1) [OF amp] S(1) e by simp
  have "parse_backs l (s + 1) c = parse_backs l ?e (BACK c)"
    using t amp e ns by (subst parse_backs.simps) (simp add: peek_char bytes_of_def)
  then have b: "parse_backs l (s + 1) c = (BACK c, ?e)" using no_backs [OF S(1)] S(2) by simp
  have "parseline n l p = Parsed (BACK c) ?e" if "n0 + 4 \<le> n" for n
  proof -
    obtain k where k: "n = Suc k" using \<open>n0 + 4 \<le> n\<close> by (cases n) auto
    show ?thesis using x [of k] that b S(1,2) by (simp add: k pbind_def Let_def peek_char bytes_of_def)
  qed
  then show ?case using c(3) unfolding reads_def by (intro exI [of _ "BACK c"] exI [of _ "n0 + 4"]) simp
qed

lemma show_no_nul: "wcmd_ok a \<Longrightarrow> 0 \<notin> set (show_cmd a)"
proof (induction a)
  case (Wexec ws)
  then show ?case by (auto simp: is_word_def word_char_def)
qed (auto simp: is_word_def word_char_def)

lemma show_parses:
  assumes "wcmd_ok a" and "4 * length (show_cmd a) + 4 \<le> fuel"
  shows "\<exists>c buf. parsecmd fuel (show_cmd a) = Parsed (c, buf) (length (show_cmd a)) \<and> words_of (\<lambda>q eq. cstr_at buf q) c = a"
proof -
  let ?l = "show_cmd a"
  note z = show_no_nul [OF assms(1)]
  have en: "at ?l (length ?l) = 0" by (simp add: at_def)
  have "reads ?l 0 a" using reads_back [OF assms(1), of ?l 0] en by (simp add: sub_at_def stop_def)
  then obtain c n0 where c: "\<forall>n\<ge>n0. parseline n ?l 0 = Parsed c (length ?l)" "words_of (text_of ?l) c = a" by (auto simp: reads_def)
  have "parseline fuel ?l 0 \<noteq> Outoffuel" using parse_fuel(1) [OF z, of 0 fuel] assms(2) by simp
  then have p: "parseline fuel ?l 0 = Parsed c (length ?l)" using parse_mono(1) [of fuel ?l 0 "max fuel n0"] c(1) by simp
  have "nows ?l (length ?l)" using en by (simp add: whitespace_def)
  then have run: "parsecmd fuel ?l = Parsed (c, nulterminate c (?l @ [0])) (length ?l)" using p by (simp add: parsecmd_def pbind_def Let_def peek_char)
  then show ?thesis using parsecmd_words [OF z run] c(2) by auto
qed

text \<open>C16: Reading back: every command printed with brackets around its parts is parsed to the same command, with the same words in
  the buffer, by the parser with the fuel of C35.\<close>

theorem parsecmd_show:
  assumes "wcmd_ok a" and "4 * length (show_cmd a) + 4 \<le> fuel"
  shows "\<exists>c buf. parsecmd fuel (show_cmd a) = Parsed (c, buf) (length (show_cmd a)) \<and> words_of (\<lambda>q eq. cstr_at buf q) c = a"
  by (rule show_parses [OF assms])

text \<open>The line \<open>(ls )|((wc )>f)\<close>.\<close>

definition sh_ex :: wcmd where
  "sh_ex = Wpipe (Wexec [bytes_of ''ls'']) (Wredir (Wexec [bytes_of ''wc'']) (bytes_of ''f'') WR_CREATE_TRUNC 1)"

lemma sh_ex_ok: "wcmd_ok sh_ex" and sh_ex_length: "length (show_cmd sh_ex) = 15"
  by (simp_all add: sh_ex_def bytes_of_def is_word_def word_char_def whitespace_def symbols_def)

theorem parsecmd_terminates_witness: "parsecmd 24 (bytes_of ''a;(b'') \<noteq> Outoffuel"
  by (rule parsecmd_terminates) (simp_all add: bytes_of_def)

theorem parsecmd_typed_witness:
  "\<exists>c buf. parsecmd 64 (show_cmd sh_ex) = Parsed (c, buf) 15 \<and> cmd_ok (show_cmd sh_ex) c \<and> length buf = 16 \<and>
     words_of (\<lambda>q eq. cstr_at buf q) c = words_of (text_of (show_cmd sh_ex)) c"
proof -
  obtain c buf where r: "parsecmd 64 (show_cmd sh_ex) = Parsed (c, buf) 15"
    using show_parses [OF sh_ex_ok, of 64] by (auto simp: sh_ex_length)
  show ?thesis using parsecmd_typed [OF show_no_nul [OF sh_ex_ok] r] r by (auto simp: sh_ex_length)
qed

theorem parsecmd_show_witness:
  "\<exists>c buf. parsecmd 64 (show_cmd sh_ex) = Parsed (c, buf) 15 \<and> words_of (\<lambda>q eq. cstr_at buf q) c = sh_ex"
  using parsecmd_show [OF sh_ex_ok, of 64] by (simp add: sh_ex_length)

end
