(* ===== verification/Grep.thy ===== *)
theory Grep
  imports Ulib
begin

text \<open>
  \<open>user/grep.c\<close>: the matcher, the loop over the lines of a file and the main program. The buffer is the bytes that are in
  it; \<open>strchr\<close> on it stops at a zero byte. The loop over \<open>read\<close> takes fuel.
\<close>

section \<open>The matcher\<close>

function matchhere :: "byte list \<Rightarrow> byte list \<Rightarrow> bool"
  and matchstar :: "byte \<Rightarrow> byte list \<Rightarrow> byte list \<Rightarrow> bool" where
  "matchhere re line =
     (case re of
        [] \<Rightarrow> True
      | c # re' \<Rightarrow>
          if re' \<noteq> [] \<and> hd re' = 42 then matchstar c (tl re') line
          else if c = 36 \<and> re' = [] then line = []
          else (case line of [] \<Rightarrow> False | t # line' \<Rightarrow> (c = 46 \<or> c = t) \<and> matchhere re' line'))"
| "matchstar c re line =
     (matchhere re line \<or> (case line of [] \<Rightarrow> False | t # line' \<Rightarrow> (t = c \<or> c = 46) \<and> matchstar c re line'))"
  by pat_completeness auto
termination
  by (relation "measures [\<lambda>x. (case x of Inl (re, line) \<Rightarrow> length re | Inr (c, re, line) \<Rightarrow> length re),
      \<lambda>x. (case x of Inl (re, line) \<Rightarrow> length line | Inr (c, re, line) \<Rightarrow> length line),
      \<lambda>x. (case x of Inl _ \<Rightarrow> 0 | Inr _ \<Rightarrow> 1)]") auto

declare matchhere.simps [simp del] matchstar.simps [simp del]

fun match_any :: "byte list \<Rightarrow> byte list \<Rightarrow> bool" where
  "match_any re [] = matchhere re []"
| "match_any re (t # line) = (matchhere re (t # line) \<or> match_any re line)"

definition match :: "byte list \<Rightarrow> byte list \<Rightarrow> bool" where
  "match re line = (if re \<noteq> [] \<and> hd re = 94 then matchhere (tl re) line else match_any re line)"

section \<open>The program\<close>

text \<open>The line at the front of the buffer, when \<open>strchr\<close> finds its end, and what follows it.\<close>

fun next_line :: "byte list \<Rightarrow> (byte list \<times> byte list) option" where
  "next_line [] = None"
| "next_line (c # p) =
     (if c = 0 then None
      else if c = 10 then Some ([], p)
      else map_option (\<lambda>(l, r). (c # l, r)) (next_line p))"

lemma next_line_parts: "next_line p = Some (l, r) \<Longrightarrow> p = l @ 10 # r"
  by (induction p arbitrary: l) (auto split: if_splits)

function grep_lines :: "byte list \<Rightarrow> byte list \<Rightarrow> byte list uprog" where
  "grep_lines pattern p =
     (case next_line p of
        None \<Rightarrow> Done p
      | Some (l, r) \<Rightarrow>
          uthen (if match pattern l then sys (U_write 1 (l @ [10])) else Done 0) (
          grep_lines pattern r))"
  by pat_completeness auto
termination
  by (relation "measure (\<lambda>(re, p). length p)") (auto dest!: next_line_parts)

declare grep_lines.simps [simp del]

fun grep_loop :: "nat \<Rightarrow> byte list \<Rightarrow> int \<Rightarrow> byte list \<Rightarrow> unit uprog" where
  "grep_loop 0 pattern fd buf = Nofuel"
| "grep_loop (Suc fuel) pattern fd buf =
     ubind (sys_buf (U_read fd (1024 - length buf - 1))) (\<lambda>(n, d).
     if n > 0 then ubind (grep_lines pattern (buf @ take (nat n) d)) (grep_loop fuel pattern fd)
     else Done ())"

definition grep :: "nat \<Rightarrow> byte list \<Rightarrow> int \<Rightarrow> unit uprog" where
  "grep fuel pattern fd = grep_loop fuel pattern fd []"

definition grep_main :: "nat \<Rightarrow> byte list list \<Rightarrow> unit uprog" where
  "grep_main fuel argv =
     (case tl argv of
        [] \<Rightarrow> uthen (u_fprintf 2 (''usage: grep pattern [file ...]'' @ [CHR 0x0A]) []) (Exits 1)
      | pattern # files \<Rightarrow>
          if files = [] then uthen (grep fuel pattern 0) (Exits 0)
          else
            uthen (ufor files (\<lambda>f.
              ubind (sys (U_open f 0)) (\<lambda>fd.
              if fd < 0 then uthen (u_printf (''grep: cannot open %s'' @ [CHR 0x0A]) [Ustr (Some f)]) (Exits 1)
              else uthen (grep fuel pattern fd) (uthen (sys (U_close fd)) (Done ()))))) (
            Exits 0))"

section \<open>What a pattern means\<close>

text \<open>A pattern is a sequence of characters, each possibly starred, and a mark whether it is tied to the end of the line.\<close>

fun items :: "byte list \<Rightarrow> (byte \<times> bool) list \<times> bool" where
  "items [] = ([], False)"
| "items [c] = (if c = 36 then ([], True) else ([(c, False)], False))"
| "items (c # d # re) =
     (if d = 42 then let (xs, e) = items re in ((c, True) # xs, e)
      else let (xs, e) = items (d # re) in ((c, False) # xs, e))"

definition char_ok :: "byte \<Rightarrow> byte \<Rightarrow> bool" where
  "char_ok c t \<longleftrightarrow> c = 46 \<or> c = t"

fun lang :: "(byte \<times> bool) list \<Rightarrow> byte list set" where
  "lang [] = {[]}"
| "lang ((c, False) # xs) = {t # w |t w. char_ok c t \<and> w \<in> lang xs}"
| "lang ((c, True) # xs) = {u @ w |u w. (\<forall>t\<in>set u. char_ok c t) \<and> w \<in> lang xs}"

text \<open>The reference: some part of the line is in the language of the pattern; from its beginning or up to its end where the pattern says so.\<close>

definition line_matches :: "byte list \<Rightarrow> byte list \<Rightarrow> bool" where
  "line_matches re line \<longleftrightarrow>
     (let anchored = (re \<noteq> [] \<and> hd re = 94); (xs, tied) = items (if anchored then tl re else re)
      in \<exists>pre mid post. line = pre @ mid @ post \<and> mid \<in> lang xs \<and> (anchored \<longrightarrow> pre = []) \<and> (tied \<longrightarrow> post = []))"

abbreviation here :: "byte list \<Rightarrow> byte list \<Rightarrow> bool" where
  "here re line \<equiv> (\<exists>mid post. line = mid @ post \<and> mid \<in> lang (fst (items re)) \<and> (snd (items re) \<longrightarrow> post = []))"

lemma here_star:
  assumes "items re' = (xs, e)" and "items re = ((c, True) # xs, e)"
  shows "here re line \<longleftrightarrow> (\<exists>u rest. line = u @ rest \<and> (\<forall>t\<in>set u. char_ok c t) \<and> here re' rest)"
  (is "?L \<longleftrightarrow> ?R")
proof
  assume ?L
  then obtain mid post where m: "line = mid @ post" "mid \<in> lang ((c, True) # xs)" "e \<longrightarrow> post = []"
    using assms by (simp del: lang.simps) blast
  from m(2) obtain u w where u: "mid = u @ w" "\<forall>t\<in>set u. char_ok c t" "w \<in> lang xs" by auto
  then have "line = u @ (w @ post)" and "here re' (w @ post)" using m assms(1) by auto
  then show ?R using u(2) by blast
next
  assume ?R
  then obtain u w post where u: "line = u @ (w @ post)" "\<forall>t\<in>set u. char_ok c t" "w \<in> lang xs" "e \<longrightarrow> post = []"
    using assms(1) by (simp del: lang.simps) blast
  then have "line = (u @ w) @ post" and "u @ w \<in> lang ((c, True) # xs)" by auto
  then have "line = (u @ w) @ post \<and> u @ w \<in> lang (fst (items re)) \<and> (snd (items re) \<longrightarrow> post = [])"
    using u(4) assms(2) by simp
  then show ?L by (rule exI [of _ "u @ w", OF exI])
qed

lemma star_unroll:
  "(\<exists>u rest. line = u @ rest \<and> (\<forall>t\<in>set u. P t) \<and> Q rest) \<longleftrightarrow>
    Q line \<or> (case line of [] \<Rightarrow> False | t # line' \<Rightarrow> P t \<and> (\<exists>u rest. line' = u @ rest \<and> (\<forall>t\<in>set u. P t) \<and> Q rest))"
  (is "?L \<longleftrightarrow> ?R")
proof
  assume ?L
  then obtain u rest where u: "line = u @ rest" "\<forall>t\<in>set u. P t" "Q rest" by blast
  then show ?R by (cases u) auto
next
  assume ?R
  then show ?L
  proof
    assume "Q line"
    then show ?L by (intro exI [of _ "[]"] exI [of _ line]) simp
  next
    assume "case line of [] \<Rightarrow> False | t # line' \<Rightarrow> P t \<and> (\<exists>u rest. line' = u @ rest \<and> (\<forall>t\<in>set u. P t) \<and> Q rest)"
    then obtain t u rest where "line = t # u @ rest" "P t" "\<forall>t\<in>set u. P t" "Q rest" by (auto split: list.splits)
    then show ?L by (intro exI [of _ "t # u"] exI [of _ rest]) simp
  qed
qed

lemma matchhere_cases:
  "matchhere [] line \<longleftrightarrow> True"
  "matchhere (c # 42 # re) line \<longleftrightarrow> matchstar c re line"
  "matchhere [36] line \<longleftrightarrow> line = []"
  by (subst matchhere.simps, simp)+

lemma matchhere_char:
  assumes "\<not> (re \<noteq> [] \<and> hd re = 42)" and "\<not> (c = 36 \<and> re = [])"
  shows "matchhere (c # re) line \<longleftrightarrow> (case line of [] \<Rightarrow> False | t # line' \<Rightarrow> char_ok c t \<and> matchhere re line')"
  using assms by (subst matchhere.simps) (auto simp: char_ok_def split: list.split)

lemma matchstar_cases:
  "matchstar c re [] \<longleftrightarrow> matchhere re []"
  "matchstar c re (t # line) \<longleftrightarrow> matchhere re (t # line) \<or> char_ok c t \<and> matchstar c re line"
  using matchstar.simps [of c re "[]"] matchstar.simps [of c re "t # line"] by (auto simp: char_ok_def)

lemma matcher_correct:
  shows "matchhere re line \<longleftrightarrow> here re line"
    and "matchstar c re line \<longleftrightarrow> (\<exists>u rest. line = u @ rest \<and> (\<forall>t\<in>set u. char_ok c t) \<and> here re rest)"
proof (induction re line and c re line rule: matchhere_matchstar.induct)
  case (1 re line)
  show ?case
  proof (cases re)
    case Nil
    then show ?thesis by (simp add: matchhere_cases)
  next
    case (Cons c re')
    consider (star) "re' \<noteq> []" "hd re' = 42" | (dollar) "c = 36" "re' = []" | (char) "\<not> (re' \<noteq> [] \<and> hd re' = 42)" "\<not> (c = 36 \<and> re' = [])" by blast
    then show ?thesis
    proof cases
      case star
      obtain xs e where i: "items (tl re') = (xs, e)" by (cases "items (tl re')")
      then have "items re = ((c, True) # xs, e)" using Cons star by (cases re') auto
      from here_star [OF i this] "1.IH"(1) [OF Cons] star show ?thesis
        by (cases re') (simp_all only: Cons matchhere_cases list.sel refl simp_thms)
    next
      case dollar
      then show ?thesis using Cons by (auto simp: matchhere_cases)
    next
      case char
      obtain xs e where i: "items re' = (xs, e)" by (cases "items re'")
      have it: "items re = ((c, False) # xs, e)" using char Cons i by (cases re') auto
      have "here re line \<longleftrightarrow> (case line of [] \<Rightarrow> False | t # line' \<Rightarrow> char_ok c t \<and> here re' line')"
        by (cases line) (auto simp: it i Cons_eq_append_conv)
      moreover have "matchhere re line \<longleftrightarrow> (case line of [] \<Rightarrow> False | t # line' \<Rightarrow> char_ok c t \<and> matchhere re' line')"
        using matchhere_char [OF char] Cons by simp
      moreover have "matchhere re' line' \<longleftrightarrow> here re' line'" if "line = t # line'" "char_ok c t" for t line'
        using "1.IH"(2) [OF Cons] char that by (auto simp: char_ok_def)
      ultimately show ?thesis by (cases line) auto
    qed
  qed
next
  case (2 c re line)
  have step: "matchstar c re line' \<longleftrightarrow> (\<exists>u rest. line' = u @ rest \<and> (\<forall>t\<in>set u. char_ok c t) \<and> here re rest)"
    if "line = t # line'" "char_ok c t" "\<not> matchhere re line" for t line'
    using "2.IH"(2) that by (auto simp: char_ok_def)
  show ?case
    unfolding star_unroll [of line "char_ok c" "here re"]
    using "2.IH"(1) step by (subst matchstar.simps, cases line) (simp_all add: char_ok_def, blast)
qed

lemma match_any_correct: "match_any re line \<longleftrightarrow> (\<exists>pre rest. line = pre @ rest \<and> matchhere re rest)"
proof (induction line)
  case (Cons t line)
  have "(\<exists>pre rest. t # line = pre @ rest \<and> matchhere re rest) \<longleftrightarrow>
      matchhere re (t # line) \<or> (\<exists>pre rest. line = pre @ rest \<and> matchhere re rest)"
    by (auto simp: Cons_eq_append_conv)
  then show ?case using Cons by simp
qed simp

lemma match_correct: "match re line \<longleftrightarrow> line_matches re line"
proof (cases "re \<noteq> [] \<and> hd re = 94")
  case True
  then show ?thesis by (simp add: match_def line_matches_def matcher_correct split_beta)
next
  case False
  then show ?thesis
    by (simp add: match_def line_matches_def match_any_correct matcher_correct split_beta) blast
qed

section \<open>The lines of an input\<close>

text \<open>The lines of an input, each up to its newline, and what follows the last newline.\<close>

fun lines_of :: "byte list \<Rightarrow> byte list list" where
  "lines_of [] = []"
| "lines_of (c # p) = (if c = 10 then [] # lines_of p else (case lines_of p of [] \<Rightarrow> [] | l # ls \<Rightarrow> (c # l) # ls))"

fun last_part :: "byte list \<Rightarrow> byte list" where
  "last_part [] = []"
| "last_part (c # p) = (if 10 \<in> set (c # p) then last_part p else c # p)"

definition grep_out :: "byte list \<Rightarrow> byte list \<Rightarrow> byte list" where
  "grep_out re p = concat (map (\<lambda>l. l @ [10]) (filter (line_matches re) (lines_of p)))"

lemma no_newline [simp]:
  assumes "10 \<notin> set p"
  shows "last_part p = p" and "lines_of p = []"
  using assms by (induction p) auto

lemma last_part_line [simp]: "last_part (l @ 10 # r) = last_part r"
  by (induction l) simp_all

lemma lines_of_line [simp]: "10 \<notin> set l \<Longrightarrow> lines_of (l @ 10 # r) = l # lines_of r"
  by (induction l) auto

lemma last_part_clean: "10 \<notin> set (last_part p)" "set (last_part p) \<subseteq> set p" "length (last_part p) \<le> length p"
  by (induction p) auto

lemma lines_of_newline: "10 \<in> set p \<Longrightarrow> lines_of p \<noteq> []"
  by (induction p) (auto split: list.split)

lemma lines_of_append: "lines_of (p @ q) = lines_of p @ lines_of (last_part p @ q)"
proof (induction p)
  case (Cons c p)
  show ?case
  proof (cases "10 \<in> set (c # p)")
    case True
    then show ?thesis using Cons.IH lines_of_newline [of p] by (auto split: list.split)
  next
    case False
    from no_newline [OF this] show ?thesis by (simp only: append_Nil)
  qed
qed simp

lemma next_line_None: "0 \<notin> set p \<Longrightarrow> next_line p = None \<longleftrightarrow> 10 \<notin> set p"
  by (induction p) auto

lemma next_line_clean: "next_line p = Some (l, r) \<Longrightarrow> 10 \<notin> set l"
  by (induction p arbitrary: l) (auto split: if_splits)

lemma grep_lines_spec:
  assumes "0 \<notin> set p"
  shows "urun (grep_lines re p) fio_call w = (Returned (last_part p), w\<lparr>f_out := f_out w @ grep_out re p\<rparr>)"
  using assms
proof (induction re p arbitrary: w rule: grep_lines.induct)
  case (1 re p)
  show ?case
  proof (cases "next_line p")
    case None
    then have "10 \<notin> set p" using next_line_None [OF "1.prems"] by simp
    then show ?thesis using None by (simp add: grep_lines.simps [of re p] grep_out_def)
  next
    case (Some lr)
    obtain l r where lr: "lr = (l, r)" by (cases lr)
    note p = next_line_parts [OF Some [unfolded lr]] and l = next_line_clean [OF Some [unfolded lr]]
    have r: "0 \<notin> set r" using "1.prems" p by simp
    have "grep_lines re p = uthen (if match re l then sys (U_write 1 (l @ [10])) else Done 0) (grep_lines re r)"
      using Some lr by (subst grep_lines.simps) simp
    moreover have "lines_of p = l # lines_of r" and "last_part p = last_part r" using p l by simp_all
    ultimately show ?thesis
      using "1.IH" [OF Some lr [symmetric] r] by (simp add: urun_bind fio_write match_correct grep_out_def)
  qed
qed

lemma long_part:
  assumes "10 \<notin> set p" and "\<forall>l\<in>set (lines_of (p @ q)). length l \<le> n" and "n < length p"
  shows "lines_of (p @ q) = []"
proof (cases "10 \<in> set q")
  case True
  obtain q1 q2 where q: "q = q1 @ 10 # q2" "10 \<notin> set q1" using split_list_first [OF True] by blast
  have "lines_of ((p @ q1) @ 10 # q2) = (p @ q1) # lines_of q2" using q assms(1) by (intro lines_of_line) simp
  then show ?thesis using assms q by simp
qed (use assms in simp)

lemma grep_loop_spec:
  assumes "length (f_in w) < fuel" and "10 \<notin> set buf" and "0 \<notin> set (buf @ f_in w)" and "length buf \<le> 1023"
    and "\<forall>l\<in>set (lines_of (buf @ f_in w)). length l \<le> 1022"
  shows "\<exists>w'. urun (grep_loop fuel re fd buf) fio_call w = (Returned (), w') \<and> f_out w' = f_out w @ grep_out re (buf @ f_in w)"
  using assms
proof (induction fuel arbitrary: buf w)
  case (Suc fuel)
  define k where "k = min (1024 - length buf - 1) (max 1 (f_sz w (f_no w)))"
  define d where "d = take k (f_in w)"
  define w1 where "w1 = w\<lparr>f_in := drop k (f_in w), f_no := Suc (f_no w)\<rparr>"
  have rd: "fio_call (U_read fd (1024 - length buf - 1)) w = (\<lparr>r_a0 = int (length d), r_buf = d\<rparr>, w1)"
    by (simp add: fio_call_def k_def d_def w1_def Let_def)
  have split_in: "f_in w = d @ f_in w1" by (simp add: d_def w1_def)
  show ?case
  proof (cases "d = []")
    case True
    then have "f_in w = [] \<or> 1022 < length buf" by (auto simp: d_def k_def)
    then have "grep_out re (buf @ f_in w) = []"
      using Suc.prems(2) long_part [OF Suc.prems(2,5)] by (auto simp: grep_out_def)
    then show ?thesis using True rd by (simp add: w1_def)
  next
    case False
    define w2 where "w2 = w1\<lparr>f_out := f_out w @ grep_out re (buf @ d)\<rparr>"
    have f: "f_in w2 = f_in w1" "f_out w2 = f_out w @ grep_out re (buf @ d)" by (simp_all add: w2_def)
    have nz: "0 \<notin> set (buf @ d)" using Suc.prems(3) split_in by simp
    have run: "urun (grep_lines re (buf @ d)) fio_call w1 = (Returned (last_part (buf @ d)), w2)"
      using grep_lines_spec [OF nz, of re w1] by (simp add: w2_def w1_def)
    have all: "lines_of (buf @ f_in w) = lines_of (buf @ d) @ lines_of (last_part (buf @ d) @ f_in w1)"
      using lines_of_append [of "buf @ d" "f_in w1"] split_in by simp
    have "length d \<le> 1023 - length buf" by (simp add: d_def k_def)
    then have len: "length (last_part (buf @ d)) \<le> 1023"
      using last_part_clean(3) [of "buf @ d"] Suc.prems(4) by simp
    have "length (f_in w1) < fuel" using Suc.prems(1) False split_in by (cases d) simp_all
    moreover have "0 \<notin> set (last_part (buf @ d) @ f_in w1)"
      using nz last_part_clean(2) [of "buf @ d"] Suc.prems(3) split_in by auto
    moreover have "\<forall>l\<in>set (lines_of (last_part (buf @ d) @ f_in w1)). length l \<le> 1022"
      using Suc.prems(5) unfolding all by simp
    ultimately obtain w' where "urun (grep_loop fuel re fd (last_part (buf @ d))) fio_call w2 = (Returned (), w')"
      "f_out w' = f_out w2 @ grep_out re (last_part (buf @ d) @ f_in w1)"
      using Suc.IH [of w2 "last_part (buf @ d)"] last_part_clean(1) len f by auto
    moreover have "grep_out re (buf @ f_in w) = grep_out re (buf @ d) @ grep_out re (last_part (buf @ d) @ f_in w1)"
      unfolding grep_out_def all by simp
    ultimately show ?thesis using False rd run f by (simp add: urun_bind)
  qed
qed simp

text \<open>
  C12: \<open>grep\<close>, reading a file through reads of any sizes, writes exactly those of its lines that match the pattern, in their order and unchanged,
  and returns, for any file without zero bytes whose lines fit in the buffer. A line matches when a part of it is in the language of the pattern, at the
  beginning or the end of the line where the pattern is tied to them; bytes after the last newline are no line.
\<close>

theorem grep_prints_matches:
  assumes "length (f_in w) < fuel" and "0 \<notin> set (f_in w)" and "\<forall>l\<in>set (lines_of (f_in w)). length l \<le> 1022"
  shows "\<exists>w'. urun (grep fuel re fd) fio_call w = (Returned (), w') \<and>
    f_out w' = f_out w @ concat (map (\<lambda>l. l @ [10]) (filter (line_matches re) (lines_of (f_in w))))"
  using grep_loop_spec [of w fuel "[]" re fd] assms by (simp add: grep_def grep_out_def)

definition grep_w0 :: fio where
  "grep_w0 = \<lparr>f_in = [97, 98, 10, 99, 10, 98], f_out = [], f_sz = (\<lambda>n. n), f_no = 0\<rparr>"

theorem grep_prints_matches_witness:
  "\<exists>w'. urun (grep 7 [97, 42, 98, 36] 0) fio_call grep_w0 = (Returned (), w') \<and> f_out w' = [97, 98, 10]"
proof -
  have "match [97, 42, 98, 36] [97, 98]" and "\<not> match [97, 42, 98, 36] [99]"
    by (simp_all only: match_def list.sel match_any.simps matchhere_cases matchstar_cases)
      (simp_all add: matchhere_cases matchhere_char char_ok_def)
  then have "line_matches [97, 42, 98, 36] [97, 98]" and "\<not> line_matches [97, 42, 98, 36] [99]"
    by (simp_all only: match_correct not_True_eq_False not_False_eq_True)
  moreover have "lines_of (f_in grep_w0) = [[97, 98], [99]]" and "f_out grep_w0 = []"
    and "length (f_in grep_w0) < 7" and "0 \<notin> set (f_in grep_w0)"
    by (simp_all add: grep_w0_def)
  ultimately show ?thesis using grep_prints_matches [of grep_w0 7 "[97, 42, 98, 36]" 0] by simp
qed

end
