(* ===== verification/Umalloc.thy ===== *)
theory Umalloc
  imports Ulib
begin

text \<open>
  \<open>user/umalloc.c\<close>: the memory allocator of user programs, with its circular list of free blocks in the order of their addresses.

  A block begins with a \<open>Header\<close> of 16 bytes, whose fields are the maps \<open>h_ptr\<close> and \<open>h_size\<close> from the address of the header; \<open>base\<close> is the
  address of the static \<open>Header\<close> of that name. User addresses are below \<open>2^38\<close> and a size is less than \<open>2^32\<close> units of 16
  bytes, so that the sum of an address and a size does not wrap around in 64 bits: addresses are \<open>nat\<close>. A size is an
  \<open>uint\<close>, and the additions to it are modulo \<open>2^32\<close>. The walks along the list take fuel.
\<close>

section \<open>The program\<close>

record uheap =
  h_ptr :: "nat \<Rightarrow> nat"
  h_size :: "nat \<Rightarrow> nat"
  h_freep :: nat

abbreviation set_ptr :: "nat \<Rightarrow> nat \<Rightarrow> uheap \<Rightarrow> uheap" where
  "set_ptr a p h \<equiv> h\<lparr>h_ptr := (h_ptr h)(a := p)\<rparr>"

abbreviation set_size :: "nat \<Rightarrow> nat \<Rightarrow> uheap \<Rightarrow> uheap" where
  "set_size a n h \<equiv> h\<lparr>h_size := (h_size h)(a := n)\<rparr>"

fun free_find :: "nat \<Rightarrow> uheap \<Rightarrow> nat \<Rightarrow> nat \<Rightarrow> nat option" where
  "free_find 0 h bp p = None"
| "free_find (Suc fuel) h bp p =
     (if p < bp \<and> bp < h_ptr h p then Some p
      else if p \<ge> h_ptr h p \<and> (p < bp \<or> bp < h_ptr h p) then Some p
      else free_find fuel h bp (h_ptr h p))"

definition free_link :: "nat \<Rightarrow> nat \<Rightarrow> uheap \<Rightarrow> uheap" where
  "free_link bp p h =
     (let h = (if bp + 16 * h_size h bp = h_ptr h p
               then set_ptr bp (h_ptr h (h_ptr h p)) (set_size bp ((h_size h bp + h_size h (h_ptr h p)) mod 2 ^ 32) h)
               else set_ptr bp (h_ptr h p) h);
          h = (if p + 16 * h_size h p = bp
               then set_ptr p (h_ptr h bp) (set_size p ((h_size h p + h_size h bp) mod 2 ^ 32) h)
               else set_ptr p bp h)
      in h\<lparr>h_freep := p\<rparr>)"

definition u_free :: "nat \<Rightarrow> nat \<Rightarrow> uheap \<Rightarrow> uheap option" where
  "u_free fuel ap h =
     (let bp = ap - 16 in map_option (\<lambda>p. free_link bp p h) (free_find fuel h bp (h_freep h)))"

text \<open>The argument of \<open>sbrk\<close> is an \<open>int\<close>: the product is cut to 32 bits.\<close>

definition morecore :: "nat \<Rightarrow> nat \<Rightarrow> uheap \<Rightarrow> (nat \<times> uheap) uprog" where
  "morecore fuel nu h =
     (let nu = (if nu < 4096 then 4096 else nu) in
      ubind (sys (U_sbrk (sint (of_nat (nu * 16) :: u32)))) (\<lambda>p.
      if p = - 1 then Done (0, h)
      else
        let hp = nat p in
        (case u_free fuel (hp + 16) (set_size hp nu h) of
           None \<Rightarrow> Nofuel
         | Some h \<Rightarrow> Done (h_freep h, h))))"

definition malloc_take :: "nat \<Rightarrow> nat \<Rightarrow> nat \<Rightarrow> uheap \<Rightarrow> nat \<times> uheap" where
  "malloc_take nunits prevp p h =
     (if h_size h p = nunits then (p + 16, (set_ptr prevp (h_ptr h p) h)\<lparr>h_freep := prevp\<rparr>)
      else
        let h = set_size p (h_size h p - nunits) h;
            q = p + 16 * h_size h p;
            h = set_size q nunits h
        in (q + 16, h\<lparr>h_freep := prevp\<rparr>))"

fun malloc_loop :: "nat \<Rightarrow> nat \<Rightarrow> nat \<Rightarrow> nat \<Rightarrow> uheap \<Rightarrow> (nat \<times> uheap) uprog" where
  "malloc_loop 0 nunits prevp p h = Nofuel"
| "malloc_loop (Suc fuel) nunits prevp p h =
     (if h_size h p \<ge> nunits then Done (malloc_take nunits prevp p h)
      else if p = h_freep h then
        ubind (morecore fuel nunits h) (\<lambda>(p, h).
        if p = 0 then Done (0, h)
        else malloc_loop fuel nunits p (h_ptr h p) h)
      else malloc_loop fuel nunits p (h_ptr h p) h)"

definition malloc :: "nat \<Rightarrow> nat \<Rightarrow> nat \<Rightarrow> uheap \<Rightarrow> (nat \<times> uheap) uprog" where
  "malloc fuel base nbytes h =
     (let nunits = (nbytes + 16 - 1) div 16 + 1;
          h = (if h_freep h = 0 then set_size base 0 ((set_ptr base base h)\<lparr>h_freep := base\<rparr>) else h);
          prevp = h_freep h
      in malloc_loop fuel nunits prevp (h_ptr h prevp) h)"

section \<open>The free list\<close>

primrec lseg :: "(nat \<Rightarrow> nat) \<Rightarrow> nat \<Rightarrow> nat list \<Rightarrow> nat \<Rightarrow> bool" where
  "lseg f a [] e \<longleftrightarrow> a = e"
| "lseg f a (x # xs) e \<longleftrightarrow> a = x \<and> lseg f (f x) xs e"

definition before :: "(nat \<Rightarrow> nat) \<Rightarrow> nat \<Rightarrow> nat \<Rightarrow> bool" where
  "before sz a b \<longleftrightarrow> a + 16 * sz a < b"

definition block :: "nat \<Rightarrow> nat \<Rightarrow> nat set" where
  "block a n = {a..<a + 16 * n}"

definition avail :: "(nat \<Rightarrow> nat) \<Rightarrow> nat list \<Rightarrow> nat set" where
  "avail sz xs = (\<Union>a\<in>set xs. block a (sz a))"

text \<open>
  The list is \<open>base\<close>, of size zero, and the free blocks above it, apart from each other and below the end of the heap; \<open>freep\<close> is one of its nodes.
\<close>

definition heap_list :: "nat \<Rightarrow> nat \<Rightarrow> uheap \<Rightarrow> nat list \<Rightarrow> bool" where
  "heap_list base lim h bs \<longleftrightarrow>
     0 < base \<and> h_size h base = 0 \<and> base < lim \<and> lim \<le> 2 ^ 36 \<and>
     lseg (h_ptr h) base (base # bs) base \<and> sorted_wrt (before (h_size h)) (base # bs) \<and>
     (\<forall>b\<in>set bs. 0 < h_size h b \<and> b + 16 * h_size h b \<le> lim) \<and> h_freep h \<in> set (base # bs)"

definition heap_ok :: "nat \<Rightarrow> nat \<Rightarrow> uheap \<Rightarrow> nat set \<Rightarrow> bool" where
  "heap_ok base lim h F \<longleftrightarrow> (\<exists>bs. heap_list base lim h bs \<and> F = avail (h_size h) bs)"

lemma lseg_append: "lseg f a (xs @ ys) e \<longleftrightarrow> (\<exists>m. lseg f a xs m \<and> lseg f m ys e)"
  by (induction xs arbitrary: a) auto

lemma lseg_upd [simp]: "x \<notin> set xs \<Longrightarrow> lseg (f(x := y)) a xs e \<longleftrightarrow> lseg f a xs e"
  by (induction xs arbitrary: a) auto

lemma lseg_split: "lseg f a (xs @ x # ys) e \<longleftrightarrow> lseg f a xs x \<and> lseg f (f x) ys e"
  by (auto simp: lseg_append)

lemma before_upd: "before (sz(x := n)) a b \<longleftrightarrow> (if a = x then x + 16 * n < b else before sz a b)"
  by (simp add: before_def)

lemma before_less: "before sz a b \<Longrightarrow> a < b"
  by (simp add: before_def)

lemma sorted_before_upd [simp]:
  "x \<notin> set xs \<Longrightarrow> sorted_wrt (before (sz(x := n))) xs \<longleftrightarrow> sorted_wrt (before sz) xs"
  by (induction xs) (auto simp: before_upd)

lemma avail_upd [simp]: "x \<notin> set xs \<Longrightarrow> avail (sz(x := n)) xs = avail sz xs"
  unfolding avail_def by (rule SUP_cong) auto

lemma avail_simps [simp]:
  "avail sz [] = {}" "avail sz (x # xs) = block x (sz x) \<union> avail sz xs" "avail sz (xs @ ys) = avail sz xs \<union> avail sz ys"
  by (auto simp: avail_def)

section \<open>Finding the place of a block\<close>

lemma find_above:
  assumes "lseg (h_ptr h) a (a # cs) base" and "sorted_wrt (before (h_size h)) (a # cs)" and "a < bp" and "bp \<notin> set cs"
    and "base \<le> a" and "length cs < fuel"
  shows "\<exists>us p vs. a # cs = us @ p # vs \<and> free_find fuel h bp a = Some p \<and> p < bp \<and> (\<forall>v\<in>set vs. bp < v)"
  using assms
proof (induction cs arbitrary: a fuel)
  case Nil
  then show ?case by (cases fuel) (auto intro: exI [of _ "[]"])
next
  case (Cons c cs)
  then obtain f where fuel: "fuel = Suc f" by (cases fuel) auto
  have c: "h_ptr h a = c" "a < c" and cs: "\<forall>v\<in>set cs. c < v" using Cons.prems by (auto intro: before_less)
  show ?case
  proof (cases "bp < c")
    case True
    then have "free_find fuel h bp a = Some a" using fuel c Cons.prems by simp
    moreover have "\<forall>v\<in>set (c # cs). bp < v" using True cs by auto
    ultimately show ?thesis using Cons.prems(3) by (intro exI [of _ "[]"] exI [of _ a] exI [of _ "c # cs"]) auto
  next
    case False
    then have "c < bp" using Cons.prems(4) by auto
    then obtain us p vs where "c # cs = us @ p # vs" "free_find f h bp c = Some p" "p < bp" "\<forall>v\<in>set vs. bp < v"
      using Cons.IH [of c f] Cons.prems c fuel by auto
    moreover have "free_find fuel h bp a = free_find f h bp c" using fuel c False by simp
    ultimately show ?thesis by (intro exI [of _ "a # us"] exI [of _ p] exI [of _ vs]) auto
  qed
qed

lemma find_below:
  assumes "lseg (h_ptr h) a (a # cs) base" and "sorted_wrt (before (h_size h)) (a # cs)" and "bp < a" and "base < bp"
    and "length cs < fuel"
  shows "free_find fuel h bp a = free_find (fuel - Suc (length cs)) h bp base"
  using assms
proof (induction cs arbitrary: a fuel)
  case Nil
  then show ?case by (cases fuel) auto
next
  case (Cons c cs)
  then obtain f where fuel: "fuel = Suc f" by (cases fuel) auto
  have c: "h_ptr h a = c" "a < c" using Cons.prems by (auto intro: before_less)
  have "free_find fuel h bp a = free_find f h bp c" using fuel c Cons.prems by simp
  also have "\<dots> = free_find (f - Suc (length cs)) h bp base"
    using Cons.IH [of c f] Cons.prems c fuel by auto
  finally show ?case using fuel by simp
qed

lemma free_find_spec:
  assumes hl: "heap_list base lim h bs" and bp: "base < bp" "bp \<notin> set bs" and fuel: "2 * Suc (length bs) \<le> fuel"
  shows "\<exists>us p vs. base # bs = us @ p # vs \<and> free_find fuel h bp (h_freep h) = Some p \<and> p < bp \<and> (\<forall>v\<in>set vs. bp < v)"
proof -
  have l: "lseg (h_ptr h) base (base # bs) base" and so: "sorted_wrt (before (h_size h)) (base # bs)"
    and fp: "h_freep h \<in> set (base # bs)" using hl by (auto simp: heap_list_def)
  obtain as cs where split: "base # bs = as @ h_freep h # cs" using split_list [OF fp] by blast
  have lc: "lseg (h_ptr h) (h_freep h) (h_freep h # cs) base"
    using l unfolding split lseg_split by simp
  have sc: "sorted_wrt (before (h_size h)) (h_freep h # cs)"
    using so unfolding split sorted_wrt_append by simp
  have ge: "base \<le> h_freep h" using so fp by (auto dest: before_less intro: less_imp_le)
  have len: "length cs \<le> length bs" using arg_cong [OF split, of length] by simp
  have notin: "bp \<notin> set (base # bs)" using bp by simp
  show ?thesis
  proof (cases "h_freep h < bp")
    case True
    have "bp \<notin> set cs" using notin unfolding split by simp
    then obtain us p vs where f: "h_freep h # cs = us @ p # vs" "free_find fuel h bp (h_freep h) = Some p" "p < bp" "\<forall>v\<in>set vs. bp < v"
      using find_above [OF lc sc True _ ge, of fuel] fuel len by auto
    then have "base # bs = (as @ us) @ p # vs" unfolding split by simp
    then show ?thesis using f by blast
  next
    case False
    then have "bp < h_freep h" using notin fp by (metis linorder_neqE_nat)
    then have "free_find fuel h bp (h_freep h) = free_find (fuel - Suc (length cs)) h bp base"
      using find_below [OF lc sc _ bp(1), of fuel] fuel len by simp
    moreover have "length bs < fuel - Suc (length cs)" using fuel len by simp
    ultimately show ?thesis using find_above [OF l so bp(1) bp(2) order.refl] by simp
  qed
qed


section \<open>Linking a block\<close>

lemma block_join: "block a m \<union> block (a + 16 * m) n = block a (m + n)"
  by (auto simp: block_def)

lemma block_0 [simp]: "block a 0 = {}"
  by (simp add: block_def)

lemma sorted_before_join:
  assumes "sorted_wrt (before sz) (us @ [p])" and "sorted_wrt (before sz) (p # ws)"
  shows "sorted_wrt (before sz) (us @ p # ws)"
proof -
  have "before sz u w" if "u \<in> set us" "w \<in> set ws" for u w
    using assms that unfolding sorted_wrt_append by (fastforce simp: before_def)
  then show ?thesis using assms unfolding sorted_wrt_append by auto
qed

text \<open>The first test of \<open>free\<close>: the block in front of the list that follows its place, joined with its first block when they touch.\<close>

definition link_right :: "nat \<Rightarrow> nat \<Rightarrow> uheap \<Rightarrow> uheap" where
  "link_right bp p h =
     (if bp + 16 * h_size h bp = h_ptr h p
      then set_ptr bp (h_ptr h (h_ptr h p)) (set_size bp ((h_size h bp + h_size h (h_ptr h p)) mod 2 ^ 32) h)
      else set_ptr bp (h_ptr h p) h)"

definition link_left :: "nat \<Rightarrow> nat \<Rightarrow> uheap \<Rightarrow> uheap" where
  "link_left bp p h =
     (if p + 16 * h_size h p = bp
      then set_ptr p (h_ptr h bp) (set_size p ((h_size h p + h_size h bp) mod 2 ^ 32) h)
      else set_ptr p bp h)"

lemma free_link_steps: "free_link bp p h = (link_left bp p (link_right bp p h))\<lparr>h_freep := p\<rparr>"
  by (simp add: free_link_def link_left_def link_right_def Let_def)

lemma link_right_spec:
  assumes l: "lseg (h_ptr h) (h_ptr h p) vs base" and so: "sorted_wrt (before (h_size h)) vs" and p: "p \<noteq> bp" "base < bp"
    and vs: "\<forall>v\<in>set vs. bp + 16 * h_size h bp \<le> v \<and> v + 16 * h_size h v \<le> lim"
    and bp: "0 < h_size h bp" "bp + 16 * h_size h bp \<le> lim" and lim: "lim \<le> 2 ^ 36"
  shows "\<exists>ws. set ws \<subseteq> set vs \<and> lseg (h_ptr (link_right bp p h)) (h_ptr (link_right bp p h) bp) ws base \<and>
    sorted_wrt (before (h_size (link_right bp p h))) (bp # ws) \<and>
    block bp (h_size (link_right bp p h) bp) \<union> avail (h_size (link_right bp p h)) ws = block bp (h_size h bp) \<union> avail (h_size h) vs \<and>
    0 < h_size (link_right bp p h) bp \<and> bp + 16 * h_size (link_right bp p h) bp \<le> lim"
proof (cases "bp + 16 * h_size h bp = h_ptr h p")
  case True
  then obtain q ws where vs_eq: "vs = q # ws" using l p by (cases vs) auto
  have q: "q = bp + 16 * h_size h bp" "h_ptr h p = q" using True l vs_eq by auto
  have "16 * (h_size h bp + h_size h q) < 16 * 2 ^ 32" using vs vs_eq lim q p by auto
  then have m: "(h_size h bp + h_size h q) mod 2 ^ 32 = h_size h bp + h_size h q" by simp
  have nin: "bp \<notin> set ws" using vs vs_eq bp by auto
  have lr: "link_right bp p h = set_ptr bp (h_ptr h q) (set_size bp (h_size h bp + h_size h q) h)"
    using True q m by (simp add: link_right_def)
  have "sorted_wrt (before ((h_size h)(bp := h_size h bp + h_size h q))) (bp # ws)"
    using so nin vs_eq q by (simp add: before_upd) (auto simp: before_def)
  moreover have "block bp (h_size h bp + h_size h q) \<union> avail (h_size h) ws = block bp (h_size h bp) \<union> avail (h_size h) vs"
    unfolding vs_eq using block_join [of bp "h_size h bp" "h_size h q"] q by auto
  ultimately show ?thesis
    unfolding lr using l vs_eq q nin bp vs by (intro exI [of _ ws]) auto
next
  case False
  have nin: "bp \<notin> set vs" using vs bp by auto
  have lt: "\<forall>v\<in>set vs. bp + 16 * h_size h bp < v"
  proof (cases vs)
    case (Cons v vs')
    then have "bp + 16 * h_size h bp < v" using False l vs by (auto simp: le_less)
    then show ?thesis using so Cons by (fastforce simp: before_def)
  qed simp
  then show ?thesis
    using False l so nin bp by (intro exI [of _ vs]) (simp add: link_right_def before_def)
qed

lemma link_left_spec:
  assumes l: "lseg (h_ptr h) (h_ptr h bp) ws base" and so: "sorted_wrt (before (h_size h)) (bp # ws)"
    and p: "p + 16 * h_size h p \<le> bp" "p \<notin> set ws" "p \<noteq> bp" "0 < p"
    and bp: "bp + 16 * h_size h bp \<le> lim" "0 < h_size h bp" and lim: "lim \<le> 2 ^ 36"
    and ws: "\<forall>v\<in>set ws. 0 < h_size h v \<and> v + 16 * h_size h v \<le> lim" and base: "p = base \<longrightarrow> h_size h p = 0"
  shows "\<exists>ys. set ys \<subseteq> insert bp (set ws) \<and> lseg (h_ptr (link_left bp p h)) (h_ptr (link_left bp p h) p) ys base \<and>
    sorted_wrt (before (h_size (link_left bp p h))) (p # ys) \<and>
    block p (h_size (link_left bp p h) p) \<union> avail (h_size (link_left bp p h)) ys =
      block p (h_size h p) \<union> block bp (h_size h bp) \<union> avail (h_size h) ws \<and>
    (\<forall>v\<in>set ys. 0 < h_size (link_left bp p h) v \<and> v + 16 * h_size (link_left bp p h) v \<le> lim) \<and>
    h_size h p \<le> h_size (link_left bp p h) p \<and> (h_size (link_left bp p h) p = h_size h p \<or> p + 16 * h_size h p = bp \<and> p + 16 * h_size (link_left bp p h) p \<le> lim)"
proof (cases "p + 16 * h_size h p = bp")
  case True
  have "16 * (h_size h p + h_size h bp) < 16 * 2 ^ 32" using True bp lim p by auto
  then have m: "(h_size h p + h_size h bp) mod 2 ^ 32 = h_size h p + h_size h bp" by simp
  have ll: "link_left bp p h = set_ptr p (h_ptr h bp) (set_size p (h_size h p + h_size h bp) h)"
    using True m by (simp add: link_left_def)
  have "sorted_wrt (before ((h_size h)(p := h_size h p + h_size h bp))) (p # ws)"
    using so p True by (simp add: before_upd) (auto simp: before_def)
  moreover have "block p (h_size h p + h_size h bp) = block p (h_size h p) \<union> block bp (h_size h bp)"
    using block_join [of p "h_size h p" "h_size h bp"] True by simp
  ultimately show ?thesis
    unfolding ll using l p ws bp True by (intro exI [of _ ws]) auto
next
  case False
  have "\<forall>v\<in>set ws. p + 16 * h_size h p < v" using so p False by (fastforce simp: before_def)
  then show ?thesis
    using False l so p bp ws by (intro exI [of _ "bp # ws"]) (auto simp: link_left_def before_def)
qed


lemma link_other:
  "a \<noteq> bp \<Longrightarrow> h_ptr (link_right bp p h) a = h_ptr h a" "a \<noteq> bp \<Longrightarrow> h_size (link_right bp p h) a = h_size h a"
  "a \<noteq> p \<Longrightarrow> h_ptr (link_left bp p h) a = h_ptr h a" "a \<noteq> p \<Longrightarrow> h_size (link_left bp p h) a = h_size h a"
  by (simp_all add: link_right_def link_left_def)

lemma lseg_cong: "\<forall>x\<in>set xs. f x = g x \<Longrightarrow> lseg f a xs e \<longleftrightarrow> lseg g a xs e"
  by (induction xs arbitrary: a) auto

lemma sorted_before_cong: "\<forall>x\<in>set xs. f x = g x \<Longrightarrow> sorted_wrt (before f) xs \<longleftrightarrow> sorted_wrt (before g) xs"
  by (induction xs) (auto simp: before_def)

lemma avail_cong: "\<forall>x\<in>set xs. f x = g x \<Longrightarrow> avail f xs = avail g xs"
  by (induction xs) auto

lemma in_avail: "b \<in> set xs \<Longrightarrow> 0 < sz b \<Longrightarrow> b \<in> avail sz xs"
  by (auto simp: avail_def block_def)

lemma heap_node_ge: "heap_list base lim h bs \<Longrightarrow> x \<in> set (base # bs) \<Longrightarrow> base \<le> x"
  by (auto simp: heap_list_def dest: before_less intro: less_imp_le)

text \<open>A block that is apart from the free ones: the node in front of it ends before it, and it ends before the nodes behind.\<close>

lemma block_place:
  assumes hl: "heap_list base lim h bs" and split: "base # bs = us @ p # vs" and bp: "p < bp" "\<forall>v\<in>set vs. bp < v" "base < bp" "0 < n"
    and apart: "block bp n \<inter> avail (h_size h) bs = {}"
  shows "bp \<notin> set (base # bs)" and "p + 16 * h_size h p \<le> bp" and "\<forall>v\<in>set vs. bp + 16 * n \<le> v"
proof -
  have pos: "0 < h_size h b" if "b \<in> set bs" for b using hl that by (simp add: heap_list_def)
  have in_bs: "b \<in> set bs" if "b \<in> set (base # bs)" "b \<noteq> base" for b using that by simp
  have bpin: "bp \<in> block bp n" using bp(4) by (simp add: block_def)
  show "bp \<notin> set (base # bs)" using bpin apart bp(3) pos in_avail [of bp bs "h_size h"] by auto
  show "p + 16 * h_size h p \<le> bp"
  proof (rule ccontr)
    assume "\<not> p + 16 * h_size h p \<le> bp"
    then have "bp \<in> block p (h_size h p)" using bp(1) by (simp add: block_def)
    moreover have "p \<in> set (base # bs)" unfolding split by simp
    moreover have "p \<noteq> base" using calculation(1) hl by (auto simp: heap_list_def)
    ultimately have "bp \<in> avail (h_size h) bs" using in_bs by (auto simp: avail_def)
    then show False using bpin apart by auto
  qed
  show "\<forall>v\<in>set vs. bp + 16 * n \<le> v"
  proof (rule ballI, rule ccontr)
    fix v assume v: "v \<in> set vs" and "\<not> bp + 16 * n \<le> v"
    then have "v \<in> block bp n" using bp(2) by (force simp: block_def)
    moreover have "v \<in> set (base # bs)" unfolding split using v by simp
    then have "v \<in> set bs" using bp(2,3) v by auto
    then have "v \<in> avail (h_size h) bs" using in_avail pos by blast
    ultimately show False using apart by auto
  qed
qed

text \<open>The list with everything behind a node replaced.\<close>

lemma heap_list_rejoin:
  assumes hl: "heap_list base lim h bs" and split: "base # bs = us @ p # vs"
    and us: "\<And>u. u \<in> set us \<Longrightarrow> h_ptr h2 u = h_ptr h u \<and> h_size h2 u = h_size h u"
    and ys: "lseg (h_ptr h2) (h_ptr h2 p) ys base" "sorted_wrt (before (h_size h2)) (p # ys)"
      "\<forall>v\<in>set ys. 0 < h_size h2 v \<and> v + 16 * h_size h2 v \<le> lim"
    and p: "if p = base then h_size h2 p = 0 else 0 < h_size h2 p \<and> p + 16 * h_size h2 p \<le> lim"
  shows "\<exists>bs'. base # bs' = us @ p # ys \<and> heap_list base lim (h2\<lparr>h_freep := p\<rparr>) bs'"
proof -
  have l: "lseg (h_ptr h) base (us @ p # vs) base" and so: "sorted_wrt (before (h_size h)) (us @ p # vs)"
    using hl unfolding heap_list_def split [symmetric] by auto
  have "lseg (h_ptr h2) base us p = lseg (h_ptr h) base us p" using us by (intro lseg_cong) simp
  then have l2: "lseg (h_ptr h2) base (us @ p # ys) base" using l ys(1) unfolding lseg_split by simp
  have "sorted_wrt (before (h_size h2)) (us @ [p])"
    using so us sorted_before_cong [of us "h_size h2" "h_size h"] unfolding sorted_wrt_append by (simp add: before_def)
  then have so2: "sorted_wrt (before (h_size h2)) (us @ p # ys)" using ys(2) by (rule sorted_before_join)
  obtain bs' where bs': "us @ p # ys = base # bs'" using split by (cases us) auto
  have nb: "base \<notin> set bs'" using so2 unfolding bs' by (auto dest: before_less)
  have b2: "0 < h_size h2 b \<and> b + 16 * h_size h2 b \<le> lim" if b: "b \<in> set bs'" for b
  proof -
    have "b \<in> set (us @ p # ys)" "b \<noteq> base" using b nb unfolding bs' by auto
    then consider "b \<in> set us" "b \<in> set bs" | "b = p" "p \<noteq> base" | "b \<in> set ys"
      using split by (cases us) auto
    then show ?thesis
    proof cases
      case 1
      then show ?thesis using hl us by (simp add: heap_list_def)
    qed (use p ys(3) in auto)
  qed
  have base2: "h_size h2 base = 0" using p us hl split by (cases us) (auto simp: heap_list_def split: if_splits)
  have "p \<in> set (base # bs')" unfolding bs' [symmetric] by simp
  then have "heap_list base lim (h2\<lparr>h_freep := p\<rparr>) bs'"
    using l2 so2 base2 b2 hl unfolding bs' by (simp add: heap_list_def)
  then show ?thesis using bs' by metis
qed

lemma free_link_spec:
  assumes hl: "heap_list base lim h bs" and split: "base # bs = us @ p # vs" and bp: "p < bp" "\<forall>v\<in>set vs. bp < v" "base < bp"
    and n: "0 < h_size h bp" "bp + 16 * h_size h bp \<le> lim"
    and apart: "block bp (h_size h bp) \<inter> avail (h_size h) bs = {}"
  shows "\<exists>bs'. heap_list base lim (free_link bp p h) bs' \<and>
    avail (h_size (free_link bp p h)) bs' = avail (h_size h) bs \<union> block bp (h_size h bp)"
proof -
  note place = block_place [OF hl split bp n(1) apart]
  define h1 where "h1 = link_right bp p h"
  define h2 where "h2 = link_left bp p h1"
  have l: "lseg (h_ptr h) base (us @ p # vs) base" and so: "sorted_wrt (before (h_size h)) (us @ p # vs)"
    and base: "0 < base" "h_size h base = 0" "lim \<le> 2 ^ 36" "base < lim"
    and bs: "\<And>b. b \<in> set (us @ p # vs) \<Longrightarrow> b \<noteq> base \<Longrightarrow> 0 < h_size h b \<and> b + 16 * h_size h b \<le> lim"
    using hl unfolding heap_list_def split [symmetric] by auto
  have "0 < p" using heap_node_ge [OF hl, of p] base(1) unfolding split by simp
  moreover have "bp \<notin> set us" "bp \<notin> set vs" using place(1) unfolding split by auto
  moreover have "p \<notin> set us" "p \<notin> set vs" using so by (auto simp: sorted_wrt_append dest: before_less)
  ultimately have dist: "0 < p" "bp \<notin> set us" "bp \<notin> set vs" "p \<notin> set us" "p \<notin> set vs" "p \<noteq> bp" "base \<notin> set vs"
    using bp by auto
  obtain ws where ws: "set ws \<subseteq> set vs" "lseg (h_ptr h1) (h_ptr h1 bp) ws base" "sorted_wrt (before (h_size h1)) (bp # ws)"
    "block bp (h_size h1 bp) \<union> avail (h_size h1) ws = block bp (h_size h bp) \<union> avail (h_size h) vs"
    "0 < h_size h1 bp" "bp + 16 * h_size h1 bp \<le> lim"
    using link_right_spec [of h p vs base bp lim] l so dist bp place(3) bs n base unfolding h1_def lseg_split sorted_wrt_append by auto
  have h1: "h_ptr h1 a = h_ptr h a" "h_size h1 a = h_size h a" if "a \<noteq> bp" for a
    using that by (simp_all add: h1_def link_other)
  have h2: "h_ptr h2 a = h_ptr h1 a" "h_size h2 a = h_size h1 a" if "a \<noteq> p" for a
    using that by (simp_all add: h2_def link_other)
  have wsv: "\<forall>v\<in>set ws. 0 < h_size h1 v \<and> v + 16 * h_size h1 v \<le> lim"
  proof
    fix v assume "v \<in> set ws"
    then have "v \<in> set (us @ p # vs)" "v \<noteq> base" "v \<noteq> bp" using ws(1) dist by auto
    then show "0 < h_size h1 v \<and> v + 16 * h_size h1 v \<le> lim" using bs h1 by simp
  qed
  have pws: "p \<notin> set ws" using ws(1) dist(5) by blast
  obtain ys where ys: "set ys \<subseteq> insert bp (set ws)" "lseg (h_ptr h2) (h_ptr h2 p) ys base" "sorted_wrt (before (h_size h2)) (p # ys)"
    "block p (h_size h2 p) \<union> avail (h_size h2) ys = block p (h_size h1 p) \<union> block bp (h_size h1 bp) \<union> avail (h_size h1) ws"
    "\<forall>v\<in>set ys. 0 < h_size h2 v \<and> v + 16 * h_size h2 v \<le> lim"
    "h_size h1 p \<le> h_size h2 p" "h_size h2 p = h_size h1 p \<or> p + 16 * h_size h1 p = bp \<and> p + 16 * h_size h2 p \<le> lim"
    using link_left_spec [of h1 bp ws base p lim] ws wsv pws dist place(2) base h1 unfolding h2_def by auto
  have us: "h_ptr h2 u = h_ptr h u" "h_size h2 u = h_size h u" if "u \<in> set us" for u
    using that h1 h2 dist by (metis, metis)
  have p2: "if p = base then h_size h2 p = 0 else 0 < h_size h2 p \<and> p + 16 * h_size h2 p \<le> lim"
    using ys(6,7) bs [of p] h1(2) [of p] dist(6) base(2) bp(3) by auto
  obtain bs' where bs': "base # bs' = us @ p # ys" "heap_list base lim (h2\<lparr>h_freep := p\<rparr>) bs'"
    using heap_list_rejoin [OF hl split _ ys(2,3,5) p2] us by blast
  have "avail (h_size h2) bs' = avail (h_size h) bs \<union> block bp (h_size h bp)"
  proof -
    have "avail (h_size h2) bs' = avail (h_size h2) (us @ p # ys)" using bs' unfolding bs'(1) [symmetric] by (simp add: heap_list_def)
    also have "\<dots> = avail (h_size h) us \<union> block p (h_size h p) \<union> (block bp (h_size h bp) \<union> avail (h_size h) vs)"
      using avail_cong [of us "h_size h2" "h_size h"] us ys(4) ws(4) h1(2) [of p] dist(6) by auto
    also have "\<dots> = avail (h_size h) (us @ p # vs) \<union> block bp (h_size h bp)" by auto
    also have "\<dots> = avail (h_size h) bs \<union> block bp (h_size h bp)" unfolding split [symmetric] using base(2) by simp
    finally show ?thesis .
  qed
  then show ?thesis using bs'(2) unfolding free_link_steps h1_def [symmetric] h2_def [symmetric] by auto
qed


lemma heap_list_length:
  assumes "heap_list base lim h bs"
  shows "length bs < lim"
proof -
  have so: "sorted_wrt (before (h_size h)) (base # bs)" and lt: "set (base # bs) \<subseteq> {..<lim}"
    using assms by (auto simp: heap_list_def)
  have "sorted_wrt (<) (base # bs)" using so by (rule sorted_wrt_mono_rel [rotated]) (rule before_less)
  then have "distinct (base # bs)" by (simp only: strict_sorted_iff)
  then have "length (base # bs) \<le> lim" using lt card_mono [OF _ lt] distinct_card [of "base # bs"] by simp
  then show ?thesis by simp
qed

lemma u_free_spec:
  assumes hl: "heap_list base lim h bs" and bp: "base < bp" and n: "0 < h_size h bp" "bp + 16 * h_size h bp \<le> lim"
    and apart: "block bp (h_size h bp) \<inter> avail (h_size h) bs = {}" and fuel: "2 * lim \<le> fuel"
  shows "\<exists>h' bs'. u_free fuel (bp + 16) h = Some h' \<and> heap_list base lim h' bs' \<and>
    avail (h_size h') bs' = avail (h_size h) bs \<union> block bp (h_size h bp) \<and>
    (\<forall>a. a \<notin> set (base # bs) \<longrightarrow> a \<noteq> bp \<longrightarrow> h_size h' a = h_size h a)"
proof -
  have nin: "bp \<notin> set bs"
  proof
    assume "bp \<in> set bs"
    then have "bp \<in> avail (h_size h) bs" using in_avail n(1) by blast
    moreover have "bp \<in> block bp (h_size h bp)" using n(1) by (simp add: block_def)
    ultimately show False using apart by auto
  qed
  have "2 * Suc (length bs) \<le> fuel" using heap_list_length [OF hl] fuel by simp
  from free_find_spec [OF hl bp nin this] obtain us p vs
    where split: "base # bs = us @ p # vs" and f: "free_find fuel h bp (h_freep h) = Some p" and p: "p < bp" "\<forall>v\<in>set vs. bp < v"
    by blast
  obtain bs' where "heap_list base lim (free_link bp p h) bs'"
    "avail (h_size (free_link bp p h)) bs' = avail (h_size h) bs \<union> block bp (h_size h bp)"
    using free_link_spec [OF hl split p bp n apart] by blast
  moreover have "\<forall>a. a \<notin> set (base # bs) \<longrightarrow> a \<noteq> bp \<longrightarrow> h_size (free_link bp p h) a = h_size h a"
    unfolding split by (auto simp: free_link_steps link_other)
  moreover have "u_free fuel (bp + 16) h = Some (free_link bp p h)" using f by (simp add: u_free_def)
  ultimately show ?thesis by blast
qed

section \<open>Taking a block\<close>

text \<open>Free bytes in a row are in one block.\<close>

lemma sorted_before_cases:
  assumes "sorted_wrt (before sz) xs" and "a \<in> set xs" and "b \<in> set xs"
  shows "a = b \<or> before sz a b \<or> before sz b a"
  using assms by (induction xs) auto

lemma block_in_one:
  assumes so: "sorted_wrt (before sz) bs" and sub: "block a n \<subseteq> avail sz bs" and n: "0 < n"
  shows "\<exists>b\<in>set bs. b \<le> a \<and> a + 16 * n \<le> b + 16 * sz b"
proof -
  have "a \<in> avail sz bs" using sub n by (auto simp: block_def)
  then obtain b where b: "b \<in> set bs" "b \<le> a" "a < b + 16 * sz b" by (auto simp: avail_def block_def)
  have "a + 16 * n \<le> b + 16 * sz b"
  proof (rule ccontr)
    assume "\<not> a + 16 * n \<le> b + 16 * sz b"
    then have "b + 16 * sz b \<in> avail sz bs" using sub b by (auto simp: block_def)
    then obtain c where c: "c \<in> set bs" "c \<le> b + 16 * sz b" "b + 16 * sz b < c + 16 * sz c" by (auto simp: avail_def block_def)
    then show False using sorted_before_cases [OF so b(1) c(1)] b by (auto simp: before_def)
  qed
  then show ?thesis using b by blast
qed

lemma block_apart:
  assumes so: "sorted_wrt (before sz) (xs @ q # ys)"
  shows "avail sz (xs @ ys) \<inter> block q (sz q) = {}"
  using so unfolding sorted_wrt_append by (fastforce simp: avail_def block_def before_def)

lemma node_not_inside:
  assumes so: "sorted_wrt (before sz) xs" and "q \<in> set xs" and "q < a" and "a < q + 16 * sz q"
  shows "a \<notin> set xs"
  using sorted_before_cases [OF so, of q a] assms by (auto simp: before_def)

lemma node_split:
  assumes hl: "heap_list base lim h bs" and pr: "prevp \<in> set (base # bs)" and q: "h_ptr h prevp = q" "q \<noteq> base"
  obtains us vs where "base # bs = us @ prevp # q # vs" and "lseg (h_ptr h) (h_ptr h q) vs base"
    and "sorted_wrt (before (h_size h)) (prevp # q # vs)"
    and "prevp \<notin> set us" "prevp \<notin> set vs" "prevp \<noteq> q" "q \<notin> set us" "q \<notin> set vs"
    and "\<forall>v\<in>set (q # vs). 0 < h_size h v \<and> v + 16 * h_size h v \<le> lim"
    and "if prevp = base then h_size h prevp = 0 else 0 < h_size h prevp \<and> prevp + 16 * h_size h prevp \<le> lim"
    and "avail (h_size h) bs = avail (h_size h) ((us @ [prevp]) @ vs) \<union> block q (h_size h q)"
    and "avail (h_size h) ((us @ [prevp]) @ vs) \<inter> block q (h_size h q) = {}"
proof -
  have l: "lseg (h_ptr h) base (base # bs) base" and so: "sorted_wrt (before (h_size h)) (base # bs)" and b0: "h_size h base = 0"
    and bs: "\<And>b. b \<in> set bs \<Longrightarrow> 0 < h_size h b \<and> b + 16 * h_size h b \<le> lim"
    using hl unfolding heap_list_def by auto
  obtain us vs' where "base # bs = us @ prevp # vs'" using split_list [OF pr] by blast
  moreover have "lseg (h_ptr h) q vs' base" using l q(1) unfolding calculation lseg_split by simp
  ultimately obtain vs where split: "base # bs = us @ prevp # q # vs" using q(2) by (cases vs') auto
  have sv: "sorted_wrt (before (h_size h)) (prevp # q # vs)" using so unfolding split sorted_wrt_append by simp
  show thesis
  proof (rule that [OF split _ sv])
    show "lseg (h_ptr h) (h_ptr h q) vs base" using l q(1) unfolding split lseg_split by simp
    show "\<forall>v\<in>set (q # vs). 0 < h_size h v \<and> v + 16 * h_size h v \<le> lim"
    proof
      fix v assume v: "v \<in> set (q # vs)"
      then have "prevp < v" using sv by (auto dest: before_less)
      then have "v \<noteq> base" using heap_node_ge [OF hl pr] by simp
      moreover have "v \<in> set (base # bs)" unfolding split using v by auto
      ultimately show "0 < h_size h v \<and> v + 16 * h_size h v \<le> lim" using bs by auto
    qed
    have "avail (h_size h) bs = avail (h_size h) (base # bs)" using b0 by simp
    then show "avail (h_size h) bs = avail (h_size h) ((us @ [prevp]) @ vs) \<union> block q (h_size h q)" unfolding split by auto
    show "avail (h_size h) ((us @ [prevp]) @ vs) \<inter> block q (h_size h q) = {}"
      using so unfolding split by (intro block_apart) simp
    show "if prevp = base then h_size h prevp = 0 else 0 < h_size h prevp \<and> prevp + 16 * h_size h prevp \<le> lim"
      using b0 bs pr by auto
  qed (use so split in \<open>auto simp: sorted_wrt_append dest: before_less\<close>)
qed

text \<open>What \<open>malloc\<close> gives: a block of the free bytes, which are the free bytes without it afterwards.\<close>

definition takes :: "nat \<Rightarrow> nat \<Rightarrow> nat \<Rightarrow> nat set \<Rightarrow> uheap \<Rightarrow> nat \<Rightarrow> uheap \<Rightarrow> bool" where
  "takes base lim nunits F h a h' \<longleftrightarrow>
     base < a \<and> block a nunits \<subseteq> F \<and> h_size h' a = nunits \<and> heap_ok base lim h' (F - block a nunits) \<and>
     (\<forall>x. x \<notin> F \<longrightarrow> h_size h' x = h_size h x)"

lemma take_exact:
  assumes hl: "heap_list base lim h bs" and pr: "prevp \<in> set (base # bs)" and q: "h_ptr h prevp = q" "q \<noteq> base" and nu: "h_size h q = nunits"
  shows "takes base lim nunits (avail (h_size h) bs) h q ((set_ptr prevp (h_ptr h q) h)\<lparr>h_freep := prevp\<rparr>)"
proof -
  obtain us vs where n: "base # bs = us @ prevp # q # vs" "lseg (h_ptr h) (h_ptr h q) vs base" "sorted_wrt (before (h_size h)) (prevp # q # vs)"
    "prevp \<notin> set us" "prevp \<notin> set vs" "\<forall>v\<in>set (q # vs). 0 < h_size h v \<and> v + 16 * h_size h v \<le> lim"
    "if prevp = base then h_size h prevp = 0 else 0 < h_size h prevp \<and> prevp + 16 * h_size h prevp \<le> lim"
    "avail (h_size h) bs = avail (h_size h) ((us @ [prevp]) @ vs) \<union> block q (h_size h q)"
    "avail (h_size h) ((us @ [prevp]) @ vs) \<inter> block q (h_size h q) = {}"
    using node_split [OF hl pr q] by metis
  let ?h = "set_ptr prevp (h_ptr h q) h"
  have "\<exists>bs'. base # bs' = us @ prevp # vs \<and> heap_list base lim (?h\<lparr>h_freep := prevp\<rparr>) bs'"
    by (rule heap_list_rejoin [OF hl n(1)]) (use n(2-6) n(7) in \<open>simp_all, auto\<close>)
  then obtain bs' where bs': "base # bs' = us @ prevp # vs" "heap_list base lim (?h\<lparr>h_freep := prevp\<rparr>) bs'" by blast
  have "avail (h_size h) bs' = avail (h_size h) (base # bs')" using hl by (simp add: heap_list_def)
  then have "avail (h_size h) bs' = avail (h_size h) ((us @ [prevp]) @ vs)" unfolding bs'(1) by simp
  then have "avail (h_size h) bs' = avail (h_size h) bs - block q nunits" using n(8,9) nu by auto
  moreover have "base < q" using heap_node_ge [OF hl, of q] n(1) q(2) by (cases "q = base") auto
  ultimately show ?thesis using bs'(2) n(8) nu by (auto simp: takes_def heap_ok_def)
qed

lemma take_part:
  assumes hl: "heap_list base lim h bs" and pr: "prevp \<in> set (base # bs)" and q: "h_ptr h prevp = q" "q \<noteq> base" and nu: "0 < nunits" "nunits < h_size h q"
  defines "m \<equiv> h_size h q - nunits"
  shows "takes base lim nunits (avail (h_size h) bs) h (q + 16 * m) ((set_size (q + 16 * m) nunits (set_size q m h))\<lparr>h_freep := prevp\<rparr>)"
proof -
  obtain us vs where n: "base # bs = us @ prevp # q # vs" "lseg (h_ptr h) (h_ptr h q) vs base" "sorted_wrt (before (h_size h)) (prevp # q # vs)"
    "prevp \<notin> set us" "prevp \<noteq> q" "q \<notin> set us" "q \<notin> set vs" "\<forall>v\<in>set (q # vs). 0 < h_size h v \<and> v + 16 * h_size h v \<le> lim"
    "if prevp = base then h_size h prevp = 0 else 0 < h_size h prevp \<and> prevp + 16 * h_size h prevp \<le> lim"
    "avail (h_size h) bs = avail (h_size h) ((us @ [prevp]) @ vs) \<union> block q (h_size h q)"
    "avail (h_size h) ((us @ [prevp]) @ vs) \<inter> block q (h_size h q) = {}"
    using node_split [OF hl pr q] by metis
  let ?a = "q + 16 * m"
  let ?h = "set_size ?a nunits (set_size q m h)"
  have "?a \<notin> set (base # bs)"
    using hl n(1) nu m_def by (intro node_not_inside [of "h_size h" _ q]) (auto simp: heap_list_def)
  then have a: "?a \<notin> set us" "?a \<noteq> prevp" "?a \<noteq> q" "?a \<notin> set vs" unfolding n(1) by auto
  have m: "0 < m" "m < h_size h q" "m + nunits = h_size h q" using nu m_def by auto
  have size: "h_size ?h v = h_size h v" if "v \<in> set (us @ prevp # vs)" for v
    using that a n(5-7) by auto
  have "\<exists>bs'. base # bs' = us @ prevp # q # vs \<and> heap_list base lim (?h\<lparr>h_freep := prevp\<rparr>) bs'"
  proof (rule heap_list_rejoin [OF hl n(1)])
    show "h_ptr ?h u = h_ptr h u \<and> h_size ?h u = h_size h u" if "u \<in> set us" for u using that size by simp
    show "lseg (h_ptr ?h) (h_ptr ?h prevp) (q # vs) base" using n(2) q(1) by simp
    show "sorted_wrt (before (h_size ?h)) (prevp # q # vs)"
      using n(3,5,7) a m by (auto simp: before_upd) (auto simp: before_def)
    show "\<forall>v\<in>set (q # vs). 0 < h_size ?h v \<and> v + 16 * h_size ?h v \<le> lim"
      using n(8) size m a by auto
    show "if prevp = base then h_size ?h prevp = 0 else 0 < h_size ?h prevp \<and> prevp + 16 * h_size ?h prevp \<le> lim"
      using n(9) size [of prevp] by (simp split: if_splits)
  qed
  then have bs': "heap_list base lim (?h\<lparr>h_freep := prevp\<rparr>) bs"
    unfolding n(1) [symmetric] by simp
  have "avail (h_size ?h) (base # bs) = avail (h_size ?h) ((us @ [prevp]) @ vs) \<union> block q m" unfolding n(1) using a by auto
  moreover have "avail (h_size ?h) ((us @ [prevp]) @ vs) = avail (h_size h) ((us @ [prevp]) @ vs)" using size by (intro avail_cong) auto
  moreover have "avail (h_size ?h) (base # bs) = avail (h_size ?h) bs" using bs' by (simp add: heap_list_def)
  moreover have qm: "block q (h_size h q) = block q m \<union> block ?a nunits" "block q m \<inter> block ?a nunits = {}"
    using m block_join [of q m nunits] by (auto simp: block_def)
  ultimately have "avail (h_size ?h) bs = avail (h_size h) bs - block ?a nunits" using n(10,11) by auto
  moreover have "q \<in> avail (h_size h) bs" "?a \<in> avail (h_size h) bs" using n(10) m nu by (auto simp: block_def)
  moreover have "base < ?a" using heap_node_ge [OF hl, of q] n(1) q(2) by (cases "q = base") auto
  ultimately show ?thesis using bs' n(10) qm by (auto simp: takes_def heap_ok_def)
qed

lemma malloc_take_spec:
  assumes "heap_list base lim h bs" and "prevp \<in> set (base # bs)" and "h_ptr h prevp = q" "q \<noteq> base" and "0 < nunits" "nunits \<le> h_size h q"
  shows "\<exists>a h'. malloc_take nunits prevp q h = (a + 16, h') \<and> takes base lim nunits (avail (h_size h) bs) h a h'"
proof (cases "h_size h q = nunits")
  case True
  then show ?thesis using take_exact [OF assms(1-4) True] by (auto simp: malloc_take_def)
next
  case False
  then show ?thesis using take_part [OF assms(1-5)] assms(6) by (auto simp: malloc_take_def Let_def)
qed


section \<open>The loop of \<open>malloc\<close>\<close>

definition grow :: "nat \<Rightarrow> nat \<Rightarrow> uheap \<Rightarrow> (nat \<times> uheap) uprog" where
  "grow fuel nunits h =
     ubind (morecore fuel nunits h) (\<lambda>(p, h). if p = 0 then Done (0, h) else malloc_loop fuel nunits p (h_ptr h p) h)"

lemma scan:
  assumes "lseg (h_ptr h) p (ys @ [h_freep h]) e" and "h_freep h \<notin> set ys" and "h_ptr h prevp = p" and "length ys < fuel"
  shows "(\<exists>pr q. q \<in> insert (h_freep h) (set ys) \<and> pr \<in> insert prevp (set ys) \<and> h_ptr h pr = q \<and> nunits \<le> h_size h q \<and>
        malloc_loop fuel nunits prevp p h = Done (malloc_take nunits pr q h)) \<or>
    (\<forall>q\<in>insert (h_freep h) (set ys). h_size h q < nunits) \<and> malloc_loop fuel nunits prevp p h = grow (fuel - Suc (length ys)) nunits h"
  using assms
proof (induction ys arbitrary: p prevp fuel)
  case Nil
  then obtain f where "fuel = Suc f" by (cases fuel) auto
  then show ?case using Nil by (auto simp: grow_def)
next
  case (Cons y ys)
  then obtain f where fuel: "fuel = Suc f" by (cases fuel) auto
  have y: "p = y" "h_freep h \<noteq> y" using Cons.prems by auto
  show ?case
  proof (cases "nunits \<le> h_size h y")
    case True
    then show ?thesis using y fuel Cons.prems by auto
  next
    case False
    then have "malloc_loop fuel nunits prevp p h = malloc_loop f nunits y (h_ptr h y) h" using y fuel by simp
    then show ?thesis using Cons.IH [of "h_ptr h y" y f] Cons.prems fuel False y(1) by (auto simp: not_le)
  qed
qed

lemma malloc_scan:
  assumes hl: "heap_list base lim h bs" and fuel: "length bs < fuel" and nu: "0 < nunits"
  shows "(\<exists>a h'. malloc_loop fuel nunits (h_freep h) (h_ptr h (h_freep h)) h = Done (a + 16, h') \<and>
        takes base lim nunits (avail (h_size h) bs) h a h') \<or>
    (\<forall>b\<in>set bs. h_size h b < nunits) \<and>
      malloc_loop fuel nunits (h_freep h) (h_ptr h (h_freep h)) h = grow (fuel - Suc (length bs)) nunits h"
proof -
  have l: "lseg (h_ptr h) base (base # bs) base" and so: "sorted_wrt (before (h_size h)) (base # bs)"
    and fp: "h_freep h \<in> set (base # bs)" and b0: "h_size h base = 0" using hl by (auto simp: heap_list_def)
  obtain us vs where split: "base # bs = us @ h_freep h # vs" using split_list [OF fp] by blast
  have "lseg (h_ptr h) base us (h_freep h)" "lseg (h_ptr h) (h_ptr h (h_freep h)) vs base" using l unfolding split lseg_split by auto
  then have walk: "lseg (h_ptr h) (h_ptr h (h_freep h)) ((vs @ us) @ [h_freep h]) (h_ptr h (h_freep h))" by (auto simp: lseg_append)
  have nin: "h_freep h \<notin> set (vs @ us)" using so unfolding split by (auto simp: sorted_wrt_append dest: before_less)
  have len: "length (vs @ us) = length bs" using arg_cong [OF split, of length] by simp
  have nodes: "insert (h_freep h) (set (vs @ us)) = set (base # bs)" unfolding split by auto
  consider pr q where "q \<in> set (base # bs)" "pr \<in> set (base # bs)" "h_ptr h pr = q" "nunits \<le> h_size h q"
      "malloc_loop fuel nunits (h_freep h) (h_ptr h (h_freep h)) h = Done (malloc_take nunits pr q h)"
    | "\<forall>q\<in>set (base # bs). h_size h q < nunits"
      "malloc_loop fuel nunits (h_freep h) (h_ptr h (h_freep h)) h = grow (fuel - Suc (length bs)) nunits h"
    using scan [OF walk nin refl, of fuel nunits] fuel unfolding len nodes by blast
  then show ?thesis
  proof cases
    case 1
    then have "q \<noteq> base" using b0 nu by auto
    then show ?thesis using malloc_take_spec [OF hl 1(2,3) _ nu 1(4)] 1(5) by auto
  qed auto
qed

text \<open>A kernel that gives memory up to a limit.\<close>

record ubrk =
  b_end :: nat
  b_max :: nat

definition sbrk_call :: "ucall \<Rightarrow> ubrk \<Rightarrow> uret \<times> ubrk" where
  "sbrk_call c w =
     (case c of
        U_sbrk n \<Rightarrow>
          if 0 \<le> n \<and> int (b_end w) + n \<le> int (b_max w)
          then (\<lparr>r_a0 = int (b_end w), r_buf = []\<rparr>, w\<lparr>b_end := b_end w + nat n\<rparr>)
          else (\<lparr>r_a0 = - 1, r_buf = []\<rparr>, w)
      | _ \<Rightarrow> (\<lparr>r_a0 = 0, r_buf = []\<rparr>, w))"

lemma sint_u32_small: "n < 2 ^ 31 \<Longrightarrow> sint (of_nat n :: u32) = int n"
  by (simp add: signed_of_nat signed_take_bit_int_eq_self)

lemma heap_list_grow:
  assumes hl: "heap_list base lim h bs" and n: "lim + 16 * n \<le> 2 ^ 36"
  shows "heap_list base (lim + 16 * n) (set_size lim n h) bs" and "avail (h_size (set_size lim n h)) bs = avail (h_size h) bs"
    and "block lim n \<inter> avail (h_size h) bs = {}"
proof -
  have lt: "\<forall>b\<in>set (base # bs). b < lim" "\<forall>b\<in>set bs. b + 16 * h_size h b \<le> lim" using hl by (auto simp: heap_list_def)
  then have nin: "lim \<notin> set (base # bs)" by auto
  then show "avail (h_size (set_size lim n h)) bs = avail (h_size h) bs" by simp
  show "heap_list base (lim + 16 * n) (set_size lim n h) bs"
    using hl n nin lt unfolding heap_list_def by (simp del: sorted_wrt.simps add: trans_le_add1)
  show "block lim n \<inter> avail (h_size h) bs = {}" using lt(2) by (fastforce simp: avail_def block_def)
qed


lemma morecore_spec:
  assumes hl: "heap_list base (b_end w) h bs" and nu: "nunits * 16 < 2 ^ 31" and mx: "b_max w \<le> 2 ^ 36" and fuel: "2 ^ 37 \<le> fuel"
  shows "urun (morecore fuel nunits h) sbrk_call w = (Returned (0, h), w) \<or>
    (\<exists>n h1 bs1. urun (morecore fuel nunits h) sbrk_call w = (Returned (h_freep h1, h1), w\<lparr>b_end := b_end w + 16 * n\<rparr>) \<and>
      nunits \<le> n \<and> 0 < n \<and> b_end w + 16 * n \<le> b_max w \<and> heap_list base (b_end w + 16 * n) h1 bs1 \<and>
      avail (h_size h1) bs1 = avail (h_size h) bs \<union> block (b_end w) n \<and>
      (\<forall>x. x \<notin> avail (h_size h) bs \<union> block (b_end w) n \<longrightarrow> h_size h1 x = h_size h x))"
proof -
  define n where "n = (if nunits < 4096 then 4096 else nunits)"
  have n: "nunits \<le> n" "0 < n" "n * 16 < 2 ^ 31" using nu by (auto simp: n_def)
  have mc: "morecore fuel nunits h =
      Call (U_sbrk (int (n * 16))) (\<lambda>r. if r_a0 r = - 1 then Done (0, h)
        else (case u_free fuel (nat (r_a0 r) + 16) (set_size (nat (r_a0 r)) n h) of None \<Rightarrow> Nofuel | Some h \<Rightarrow> Done (h_freep h, h)))"
    unfolding morecore_def Let_def n_def [symmetric] sint_u32_small [OF n(3)] by (simp only: ubind.simps)
  show ?thesis
  proof (cases "b_end w + 16 * n \<le> b_max w")
    case False
    then have "sbrk_call (U_sbrk (int (n * 16))) w = (\<lparr>r_a0 = - 1, r_buf = []\<rparr>, w)" by (simp add: sbrk_call_def)
    then show ?thesis unfolding mc by (simp del: of_nat_mult)
  next
    case True
    let ?lim = "b_end w + 16 * n"
    let ?h = "set_size (b_end w) n h"
    have sb: "sbrk_call (U_sbrk (int (n * 16))) w = (\<lparr>r_a0 = int (b_end w), r_buf = []\<rparr>, w\<lparr>b_end := ?lim\<rparr>)"
      using True by (simp add: sbrk_call_def nat_mult_distrib mult.commute)
    have lim: "?lim \<le> 2 ^ 36" using True mx by simp
    note g = heap_list_grow [OF hl lim]
    have be: "base < b_end w" using hl by (simp add: heap_list_def)
    have ap: "block (b_end w) (h_size ?h (b_end w)) \<inter> avail (h_size ?h) bs = {}" using g(2,3) by simp
    have bl: "0 < h_size ?h (b_end w)" "b_end w + 16 * h_size ?h (b_end w) \<le> ?lim" "2 * ?lim \<le> fuel" using n lim fuel by simp_all
    obtain h1 bs1 where h1: "u_free fuel (b_end w + 16) ?h = Some h1" "heap_list base ?lim h1 bs1"
      "avail (h_size h1) bs1 = avail (h_size h) bs \<union> block (b_end w) n"
      "\<forall>a. a \<notin> set (base # bs) \<longrightarrow> a \<noteq> b_end w \<longrightarrow> h_size h1 a = h_size ?h a"
      using u_free_spec [OF g(1) be bl(1,2) ap bl(3)] g(2) by auto
    have "h_size h1 x = h_size h x" if x: "x \<notin> avail (h_size h) bs \<union> block (b_end w) n" for x
    proof (cases "x = base")
      case True
      then show ?thesis using hl h1(2) by (simp add: heap_list_def)
    next
      case False
      have "x \<noteq> b_end w" using x n(2) by (auto simp: block_def)
      moreover have "x \<notin> set bs" using x in_avail [of x bs "h_size h"] hl by (auto simp: heap_list_def)
      ultimately show ?thesis using h1(4) False by simp
    qed
    moreover have "urun (morecore fuel nunits h) sbrk_call w = (Returned (h_freep h1, h1), w\<lparr>b_end := ?lim\<rparr>)"
      unfolding mc using sb h1(1) by (simp del: of_nat_mult)
    ultimately show ?thesis using n True h1(2,3) by blast
  qed
qed

lemma heap_freep: "heap_list base lim h bs \<Longrightarrow> 0 < h_freep h"
  using heap_node_ge [of base lim h bs "h_freep h"] by (simp add: heap_list_def)

lemma grow_spec:
  assumes hl: "heap_list base (b_end w) h bs" and nu: "0 < nunits" "nunits * 16 < 2 ^ 31" and mx: "b_max w \<le> 2 ^ 36" and fuel: "2 ^ 37 \<le> fuel"
  shows "urun (grow fuel nunits h) sbrk_call w = (Returned (0, h), w) \<or>
    (\<exists>n a h'. urun (grow fuel nunits h) sbrk_call w = (Returned (a + 16, h'), w\<lparr>b_end := b_end w + 16 * n\<rparr>) \<and> b_end w + 16 * n \<le> b_max w \<and>
      takes base (b_end w + 16 * n) nunits (avail (h_size h) bs \<union> block (b_end w) n) h a h')"
proof -
  consider "urun (morecore fuel nunits h) sbrk_call w = (Returned (0, h), w)"
    | n h1 bs1 where "urun (morecore fuel nunits h) sbrk_call w = (Returned (h_freep h1, h1), w\<lparr>b_end := b_end w + 16 * n\<rparr>)"
      "nunits \<le> n" "0 < n" "b_end w + 16 * n \<le> b_max w" "heap_list base (b_end w + 16 * n) h1 bs1"
      "avail (h_size h1) bs1 = avail (h_size h) bs \<union> block (b_end w) n"
      "\<forall>x. x \<notin> avail (h_size h) bs \<union> block (b_end w) n \<longrightarrow> h_size h1 x = h_size h x"
    using morecore_spec [OF hl nu(2) mx fuel] by blast
  then show ?thesis
  proof cases
    case 1
    then show ?thesis by (simp add: grow_def urun_bind)
  next
    case 2
    have so: "sorted_wrt (before (h_size h1)) bs1" using 2(5) by (simp add: heap_list_def)
    obtain b where "b \<in> set bs1" "n \<le> h_size h1 b"
      using block_in_one [OF so, of "b_end w" n] 2(3,6) by fastforce
    then have big: "\<not> (\<forall>b\<in>set bs1. h_size h1 b < nunits)" using 2(2) by (meson leD order.trans)
    have "length bs1 < fuel" using heap_list_length [OF 2(5)] 2(4) mx fuel by simp
    then obtain a h' where take: "malloc_loop fuel nunits (h_freep h1) (h_ptr h1 (h_freep h1)) h1 = Done (a + 16, h')"
      "takes base (b_end w + 16 * n) nunits (avail (h_size h1) bs1) h1 a h'"
      using malloc_scan [OF 2(5) _ nu(1)] big by blast
    have "urun (grow fuel nunits h) sbrk_call w = (Returned (a + 16, h'), w\<lparr>b_end := b_end w + 16 * n\<rparr>)"
      using 2(1) take(1) heap_freep [OF 2(5)] by (simp add: grow_def urun_bind)
    moreover have "takes base (b_end w + 16 * n) nunits (avail (h_size h) bs \<union> block (b_end w) n) h a h'"
      using take(2) 2(7) unfolding 2(6) by (simp add: takes_def)
    ultimately show ?thesis using 2(4) by blast
  qed
qed


text \<open>Before the first call of \<open>malloc\<close> the list is not there yet.\<close>

definition heap_inv :: "nat \<Rightarrow> nat \<Rightarrow> uheap \<Rightarrow> nat set \<Rightarrow> bool" where
  "heap_inv base lim h F \<longleftrightarrow>
     (if h_freep h = 0 then F = {} \<and> 0 < base \<and> base < lim \<and> lim \<le> 2 ^ 36 else heap_ok base lim h F)"

lemma heap_inv_ok: "heap_ok base lim h F \<Longrightarrow> heap_inv base lim h F \<and> h_freep h \<noteq> 0"
  using heap_freep by (auto simp: heap_inv_def heap_ok_def)

lemma block_new: "block e n = {e..<e + 16 * n}"
  by (simp add: block_def)

lemma malloc_spec:
  assumes inv: "heap_inv base (b_end w) h F" and mx: "b_end w \<le> b_max w" "b_max w \<le> 2 ^ 36" and nb: "nbytes + 32 \<le> 2 ^ 31" and fuel: "2 ^ 38 \<le> fuel"
  shows "\<exists>h0 h' w'. (\<forall>x. x \<noteq> base \<longrightarrow> h_size h0 x = h_size h x) \<and> b_end w \<le> b_end w' \<and> b_end w' \<le> b_max w' \<and> b_max w' = b_max w \<and>
    (urun (malloc fuel base nbytes h) sbrk_call w = (Returned (0, h0), w) \<and> heap_ok base (b_end w) h0 F \<or>
     (\<exists>a. urun (malloc fuel base nbytes h) sbrk_call w = (Returned (a + 16, h'), w') \<and>
       takes base (b_end w') ((nbytes + 15) div 16 + 1) (F \<union> {b_end w..<b_end w'}) h0 a h'))"
proof -
  define nu where "nu = (nbytes + 15) div 16 + 1"
  define h0 where "h0 = (if h_freep h = 0 then set_size base 0 ((set_ptr base base h)\<lparr>h_freep := base\<rparr>) else h)"
  have nu: "0 < nu" "nu * 16 < 2 ^ 31" using nb by (auto simp: nu_def)
  have ok: "heap_ok base (b_end w) h0 F"
    using inv by (auto simp: heap_inv_def h0_def heap_ok_def heap_list_def avail_def intro: exI [of _ "[]"] split: if_splits)
  then obtain bs where hl: "heap_list base (b_end w) h0 bs" and F: "F = avail (h_size h0) bs" by (auto simp: heap_ok_def)
  have sz: "\<forall>x. x \<noteq> base \<longrightarrow> h_size h0 x = h_size h x" by (simp add: h0_def)
  have m: "malloc fuel base nbytes h = malloc_loop fuel nu (h_freep h0) (h_ptr h0 (h_freep h0)) h0"
    by (simp add: malloc_def Let_def h0_def nu_def add.commute)
  have len: "length bs < b_end w" by (rule heap_list_length [OF hl])
  then have f1: "length bs < fuel" and f2: "2 ^ 37 \<le> fuel - Suc (length bs)" using mx fuel by simp_all
  consider a h' where "malloc fuel base nbytes h = Done (a + 16, h')" "takes base (b_end w) nu F h0 a h'"
    | "malloc fuel base nbytes h = grow (fuel - Suc (length bs)) nu h0"
    using malloc_scan [OF hl f1 nu(1)] unfolding m F by blast
  then show ?thesis
  proof cases
    case 1
    then show ?thesis using sz mx unfolding nu_def by (intro exI [of _ h0] exI [of _ h'] exI [of _ w]) simp
  next
    case 2
    consider "urun (malloc fuel base nbytes h) sbrk_call w = (Returned (0, h0), w)"
      | n a h' where "urun (malloc fuel base nbytes h) sbrk_call w = (Returned (a + 16, h'), w\<lparr>b_end := b_end w + 16 * n\<rparr>)"
        "b_end w + 16 * n \<le> b_max w" "takes base (b_end w + 16 * n) nu (F \<union> block (b_end w) n) h0 a h'"
      using grow_spec [OF hl nu mx(2) f2] unfolding 2 F by blast
    then show ?thesis
    proof cases
      case 1
      then show ?thesis using sz mx ok by (intro exI [of _ h0] exI [of _ h0] exI [of _ w]) simp
    next
      case (2 n a h')
      then show ?thesis using sz unfolding block_new nu_def
        by (intro exI [of _ h0] exI [of _ h'] exI [of _ "w\<lparr>b_end := b_end w + 16 * n\<rparr>"]) simp
    qed
  qed
qed

section \<open>Programs that allocate and free\<close>

datatype aop = Malloc nat | Free nat

text \<open>
  A program that calls \<open>malloc\<close> and \<open>free\<close>: the blocks it holds are what \<open>malloc\<close> returned and the number of bytes asked for. It frees
  only blocks that it holds.
\<close>

fun run_aops :: "nat \<Rightarrow> nat \<Rightarrow> aop list \<Rightarrow> (nat \<times> nat) list \<Rightarrow> uheap \<Rightarrow> ubrk \<Rightarrow> ((nat \<times> nat) list \<times> uheap \<times> ubrk) option" where
  "run_aops fuel base [] live h w = Some (live, h, w)"
| "run_aops fuel base (Malloc n # ops) live h w =
     (case urun (malloc fuel base n h) sbrk_call w of
        (Returned (r, h'), w') \<Rightarrow> run_aops fuel base ops (if r = 0 then live else (r, n) # live) h' w'
      | _ \<Rightarrow> None)"
| "run_aops fuel base (Free i # ops) live h w =
     (if i < length live then
        (case u_free fuel (fst (live ! i)) h of
           None \<Rightarrow> None
         | Some h' \<Rightarrow> run_aops fuel base ops (take i live @ drop (Suc i) live) h' w)
      else run_aops fuel base ops live h w)"

abbreviation blk :: "uheap \<Rightarrow> nat \<times> nat \<Rightarrow> nat set" where
  "blk h x \<equiv> block (fst x - 16) (h_size h (fst x - 16))"

definition held_ok :: "nat \<Rightarrow> nat \<Rightarrow> uheap \<Rightarrow> nat set \<Rightarrow> nat \<times> nat \<Rightarrow> bool" where
  "held_ok base lim h F x \<longleftrightarrow>
     base + 16 < fst x \<and> snd x + 16 \<le> 16 * h_size h (fst x - 16) \<and> fst x - 16 + 16 * h_size h (fst x - 16) \<le> lim \<and> blk h x \<inter> F = {}"

definition live_ok :: "nat \<Rightarrow> nat set \<Rightarrow> (nat \<times> nat) list \<Rightarrow> uheap \<Rightarrow> ubrk \<Rightarrow> bool" where
  "live_ok base F live h w \<longleftrightarrow>
     b_end w \<le> b_max w \<and> b_max w \<le> 2 ^ 36 \<and> (live \<noteq> [] \<longrightarrow> h_freep h \<noteq> 0) \<and> heap_inv base (b_end w) h F \<and>
     (\<forall>x\<in>set live. held_ok base (b_end w) h F x) \<and> sorted_wrt (\<lambda>x y. blk h x \<inter> blk h y = {}) live"

lemma live_frame:
  assumes held: "\<forall>x\<in>set live. held_ok base (b_end w) h F x" "sorted_wrt (\<lambda>x y. blk h x \<inter> blk h y = {}) live"
    and h': "heap_ok base (b_end w') h' F'" and w': "b_end w \<le> b_end w'" "b_end w' \<le> b_max w'" "b_max w' \<le> 2 ^ 36"
    and keep: "\<And>x. x \<in> set live \<Longrightarrow> h_size h' (fst x - 16) = h_size h (fst x - 16)" "\<And>x. x \<in> set live \<Longrightarrow> blk h x \<inter> F' = {}"
  shows "live_ok base F' live h' w'"
proof -
  have "held_ok base (b_end w') h' F' x" if "x \<in> set live" for x
    using held(1) keep [OF that] that w'(1) unfolding held_ok_def by fastforce
  moreover have "sorted_wrt (\<lambda>x y. blk h' x \<inter> blk h' y = {}) live"
    using held(2) by (rule sorted_wrt_mono_rel [rotated]) (simp add: keep(1))
  ultimately show ?thesis using heap_inv_ok [OF h'] w' unfolding live_ok_def by blast
qed

lemma heap_inv_below:
  assumes "heap_inv base lim h F"
  shows "F \<subseteq> {..<lim}"
  using assms by (fastforce simp: heap_inv_def heap_ok_def heap_list_def avail_def block_def split: if_splits)

lemma held_header:
  assumes "held_ok base lim h F x"
  shows "fst x - 16 \<noteq> base" and "fst x - 16 \<in> blk h x" and "blk h x \<inter> (F \<union> {lim..<e}) = {}" and "fst x - 16 + 16 = fst x"
  using assms by (force simp: held_ok_def block_def)+

lemma live_malloc:
  assumes ok: "live_ok base F live h w" and nb: "n + 32 \<le> 2 ^ 31" and fuel: "2 ^ 38 \<le> fuel"
  shows "\<exists>r h' w' F'. urun (malloc fuel base n h) sbrk_call w = (Returned (r, h'), w') \<and> live_ok base F' (if r = 0 then live else (r, n) # live) h' w'"
proof -
  have inv: "heap_inv base (b_end w) h F" and held: "\<forall>x\<in>set live. held_ok base (b_end w) h F x" "sorted_wrt (\<lambda>x y. blk h x \<inter> blk h y = {}) live"
    and mx: "b_end w \<le> b_max w" "b_max w \<le> 2 ^ 36" using ok by (auto simp: live_ok_def)
  note head = held_header [OF bspec [OF held(1)]]
  let ?nu = "(n + 15) div 16 + 1"
  obtain h0 h' w' where sz: "\<forall>x. x \<noteq> base \<longrightarrow> h_size h0 x = h_size h x" and w': "b_end w \<le> b_end w'" "b_end w' \<le> b_max w'" "b_max w' = b_max w"
    and r: "urun (malloc fuel base n h) sbrk_call w = (Returned (0, h0), w) \<and> heap_ok base (b_end w) h0 F \<or>
     (\<exists>a. urun (malloc fuel base n h) sbrk_call w = (Returned (a + 16, h'), w') \<and> takes base (b_end w') ?nu (F \<union> {b_end w..<b_end w'}) h0 a h')"
    using malloc_spec [OF inv mx nb fuel] by blast
  from r show ?thesis
  proof
    assume f: "urun (malloc fuel base n h) sbrk_call w = (Returned (0, h0), w) \<and> heap_ok base (b_end w) h0 F"
    have "live_ok base F live h0 w"
      by (rule live_frame [OF held]) (use f mx sz head(1) held(1) in \<open>auto simp: held_ok_def\<close>)
    then show ?thesis using f by auto
  next
    assume "\<exists>a. urun (malloc fuel base n h) sbrk_call w = (Returned (a + 16, h'), w') \<and> takes base (b_end w') ?nu (F \<union> {b_end w..<b_end w'}) h0 a h'"
    then obtain a where run: "urun (malloc fuel base n h) sbrk_call w = (Returned (a + 16, h'), w')"
      and t: "base < a" "block a ?nu \<subseteq> F \<union> {b_end w..<b_end w'}" "h_size h' a = ?nu"
        "heap_ok base (b_end w') h' (F \<union> {b_end w..<b_end w'} - block a ?nu)"
        "\<forall>x. x \<notin> F \<union> {b_end w..<b_end w'} \<longrightarrow> h_size h' x = h_size h0 x"
      by (auto simp: takes_def)
    have keep: "h_size h' (fst x - 16) = h_size h (fst x - 16)" if "x \<in> set live" for x
      using head(1-3) [OF that] t(5) sz by (metis disjoint_iff)
    have live: "live_ok base (F \<union> {b_end w..<b_end w'} - block a ?nu) live h' w'"
    proof (rule live_frame [OF held t(4) w'(1,2)])
      show "blk h x \<inter> (F \<union> {b_end w..<b_end w'} - block a ?nu) = {}" if "x \<in> set live" for x
        using head(3) [OF that, of "b_end w'"] by blast
    qed (use w' mx keep in simp_all)
    have "F \<union> {b_end w..<b_end w'} \<subseteq> {..<b_end w'}" using heap_inv_below [OF inv] w'(1) by auto
    moreover have "a + 16 * ?nu - 1 \<in> block a ?nu" by (simp add: block_def)
    ultimately have lim: "a + 16 * ?nu \<le> b_end w'" using t(2) by fastforce
    have new: "held_ok base (b_end w') h' (F \<union> {b_end w..<b_end w'} - block a ?nu) (a + 16, n)"
      using t(1,3) lim by (auto simp: held_ok_def)
    have apart: "\<forall>x\<in>set live. blk h' (a + 16, n) \<inter> blk h' x = {}"
    proof
      fix x assume x: "x \<in> set live"
      show "blk h' (a + 16, n) \<inter> blk h' x = {}"
        using t(2) head(3) [OF x, of "b_end w'"] by (auto simp: t(3) keep [OF x])
    qed
    have "h_freep h' \<noteq> 0" using heap_inv_ok [OF t(4)] by simp
    then have "live_ok base (F \<union> {b_end w..<b_end w'} - block a ?nu) ((a + 16, n) # live) h' w'"
      using live new apart by (simp add: live_ok_def)
    then show ?thesis using run by auto
  qed
qed

lemma live_free:
  assumes ok: "live_ok base F (as @ x # cs) h w" and fuel: "2 ^ 37 \<le> fuel"
  shows "\<exists>h'. u_free fuel (fst x) h = Some h' \<and> live_ok base (F \<union> blk h x) (as @ cs) h' w"
proof -
  have held: "\<forall>y\<in>set (as @ x # cs). held_ok base (b_end w) h F y" "sorted_wrt (\<lambda>x y. blk h x \<inter> blk h y = {}) (as @ x # cs)"
    and mx: "b_end w \<le> b_max w" "b_max w \<le> 2 ^ 36" and "heap_ok base (b_end w) h F"
    using ok by (auto simp: live_ok_def heap_inv_def)
  then obtain bs where hl: "heap_list base (b_end w) h bs" and F: "F = avail (h_size h) bs" by (auto simp: heap_ok_def)
  have x: "held_ok base (b_end w) h F x" using held(1) by simp
  have head: "fst y - 16 \<noteq> base" "fst y - 16 \<in> blk h y" "blk h y \<inter> F = {}" "blk h y \<inter> blk h x = {}" if "y \<in> set (as @ cs)" for y
  proof -
    have y: "held_ok base (b_end w) h F y" using that held(1) by auto
    show "fst y - 16 \<noteq> base" "fst y - 16 \<in> blk h y" "blk h y \<inter> F = {}" using held_header(1-3) [OF y] by blast+
    show "blk h y \<inter> blk h x = {}" using that held(2) unfolding sorted_wrt_append by auto
  qed
  let ?bp = "fst x - 16"
  have bp: "base < ?bp" "0 < h_size h ?bp" "?bp + 16 * h_size h ?bp \<le> b_end w" "block ?bp (h_size h ?bp) \<inter> avail (h_size h) bs = {}" "2 * b_end w \<le> fuel"
    using x mx fuel F by (auto simp: held_ok_def)
  obtain h' bs' where h': "u_free fuel (?bp + 16) h = Some h'" "heap_list base (b_end w) h' bs'" "avail (h_size h') bs' = F \<union> blk h x"
    "\<forall>a. a \<notin> set (base # bs) \<longrightarrow> a \<noteq> ?bp \<longrightarrow> h_size h' a = h_size h a"
    using u_free_spec [OF hl bp] F by auto
  have keep: "h_size h' (fst y - 16) = h_size h (fst y - 16)" if y: "y \<in> set (as @ cs)" for y
  proof -
    have "fst y - 16 \<notin> set bs"
      using head(2,3) [OF y] in_avail [of "fst y - 16" bs "h_size h"] hl F by (auto simp: heap_list_def)
    moreover have "fst y - 16 \<noteq> ?bp" using head(2,4) [OF y] bp(2) by (auto simp: block_def)
    ultimately show ?thesis using h'(4) head(1) [OF y] by simp
  qed
  have "live_ok base (F \<union> blk h x) (as @ cs) h' w"
  proof (rule live_frame [of "as @ cs" base w h F])
    show "heap_ok base (b_end w) h' (F \<union> blk h x)" using h'(2,3) by (auto simp: heap_ok_def)
    show "blk h y \<inter> (F \<union> blk h x) = {}" if "y \<in> set (as @ cs)" for y using head(3,4) [OF that] by auto
  qed (use held mx keep in \<open>auto simp: sorted_wrt_append\<close>)
  then show ?thesis using h'(1) held_header(4) [OF x] by simp
qed


lemma live_run:
  assumes "live_ok base F live h w" and "\<forall>n. Malloc n \<in> set ops \<longrightarrow> n + 32 \<le> 2 ^ 31" and "2 ^ 38 \<le> fuel"
  shows "\<exists>live' h' w' F'. run_aops fuel base ops live h w = Some (live', h', w') \<and> live_ok base F' live' h' w'"
  using assms
proof (induction ops arbitrary: live h w F)
  case Nil
  then show ?case by auto
next
  case (Cons a ops)
  show ?case
  proof (cases a)
    case (Malloc n)
    then have "n + 32 \<le> 2 ^ 31" using Cons.prems(2) by simp
    then obtain r h' w' F' where "urun (malloc fuel base n h) sbrk_call w = (Returned (r, h'), w')"
      "live_ok base F' (if r = 0 then live else (r, n) # live) h' w'"
      using live_malloc [OF Cons.prems(1) _ Cons.prems(3)] by blast
    then show ?thesis using Cons.IH Cons.prems(2,3) Malloc by simp
  next
    case (Free i)
    show ?thesis
    proof (cases "i < length live")
      case True
      then have "live_ok base F (take i live @ live ! i # drop (Suc i) live) h w"
        using Cons.prems(1) by (simp add: id_take_nth_drop [symmetric])
      moreover have "2 ^ 37 \<le> fuel" using Cons.prems(3) by simp
      ultimately obtain h' where "u_free fuel (fst (live ! i)) h = Some h'"
        "live_ok base (F \<union> blk h (live ! i)) (take i live @ drop (Suc i) live) h' w"
        using live_free by blast
      then show ?thesis using Cons.IH Cons.prems(2,3) Free True by simp
    next
      case False
      then show ?thesis using Cons.IH [OF Cons.prems(1)] Cons.prems(2,3) Free by simp
    qed
  qed
qed

lemma live_bytes:
  assumes ok: "live_ok base F live h w"
  shows "sorted_wrt (\<lambda>(r, n) (r', n'). {r - 16..<r + n} \<inter> {r' - 16..<r' + n'} = {}) live"
    and "\<forall>(r, n)\<in>set live. base + 16 < r \<and> r + n \<le> b_end w"
proof -
  have held: "\<forall>x\<in>set live. held_ok base (b_end w) h F x" and so: "sorted_wrt (\<lambda>x y. blk h x \<inter> blk h y = {}) live"
    using ok by (auto simp: live_ok_def)
  have sub: "{fst x - 16..<fst x + snd x} \<subseteq> blk h x" if "x \<in> set live" for x
    using held that by (force simp: held_ok_def block_def)
  show "sorted_wrt (\<lambda>(r, n) (r', n'). {r - 16..<r + n} \<inter> {r' - 16..<r' + n'} = {}) live"
    using so
  proof (rule sorted_wrt_mono_rel [rotated])
    fix x y assume "x \<in> set live" "y \<in> set live" "blk h x \<inter> blk h y = {}"
    then have "{fst x - 16..<fst x + snd x} \<inter> {fst y - 16..<fst y + snd y} = {}" using sub by blast
    then show "(case x of (r, n) \<Rightarrow> \<lambda>(r', n'). {r - 16..<r + n} \<inter> {r' - 16..<r' + n'} = {}) y" by (simp add: split_beta)
  qed
  show "\<forall>(r, n)\<in>set live. base + 16 < r \<and> r + n \<le> b_end w"
    using held by (force simp: held_ok_def)
qed


definition heap0 :: uheap where
  "heap0 = \<lparr>h_ptr = (\<lambda>_. 0), h_size = (\<lambda>_. 0), h_freep = 0\<rparr>"

definition brk0 :: ubrk where
  "brk0 = \<lparr>b_end = 0x3000, b_max = 0x80000\<rparr>"


end
