(* ===== verification/Uprogs.thy ===== *)
theory Uprogs
  imports Ulib
begin

text \<open>
  The user programs under \<open>user/\<close> other than the shell and \<open>grep\<close>: \<open>cat\<close>, \<open>echo\<close>, \<open>wc\<close>, \<open>kill\<close>, \<open>ln\<close>, \<open>mkdir\<close>, \<open>rm\<close>, \<open>sleep\<close>, \<open>ls\<close>, \<open>zombie\<close>, \<open>init\<close> and the small
  test programs. Loops over \<open>read\<close> and \<open>wait\<close> take fuel.
\<close>

section \<open>\<open>cat\<close>, \<open>echo\<close> and \<open>wc\<close>\<close>

fun cat :: "nat \<Rightarrow> int \<Rightarrow> unit uprog" where
  "cat 0 fd = Nofuel"
| "cat (Suc fuel) fd =
     ubind (sys_buf (U_read fd 512)) (\<lambda>(n, buf).
     if n > 0 then
       ubind (sys (U_write 1 (take (nat n) buf))) (\<lambda>r.
       if r \<noteq> n then uthen (u_fprintf 2 (''cat: write error'' @ [CHR 0x0A]) []) (Exits 1)
       else cat fuel fd)
     else if n < 0 then uthen (u_fprintf 2 (''cat: read error'' @ [CHR 0x0A]) []) (Exits 1)
     else Done ())"

definition cat_main :: "nat \<Rightarrow> byte list list \<Rightarrow> unit uprog" where
  "cat_main fuel argv =
     (if length argv \<le> 1 then uthen (cat fuel 0) (Exits 0)
      else
        uthen (ufor (tl argv) (\<lambda>f.
          ubind (sys (U_open f 0)) (\<lambda>fd.
          if fd < 0 then uthen (u_fprintf 2 (''cat: cannot open %s'' @ [CHR 0x0A]) [Ustr (Some f)]) (Exits 1)
          else uthen (cat fuel fd) (uthen (sys (U_close fd)) (Done ()))))) (
        Exits 0))"

fun echo_args :: "byte list list \<Rightarrow> unit uprog" where
  "echo_args [] = Done ()"
| "echo_args (a # as) =
     uthen (sys (U_write 1 a)) (
     uthen (sys (U_write 1 (if as \<noteq> [] then [32] else [10]))) (
     echo_args as))"

definition echo_main :: "byte list list \<Rightarrow> unit uprog" where
  "echo_main argv = uthen (echo_args (tl argv)) (Exits 0)"

text \<open>The counters of lines, words and characters, and \<open>inword\<close>.\<close>

record wc_state =
  wc_l :: u32
  wc_w :: u32
  wc_c :: u32
  wc_inword :: bool

definition wc_char :: "byte \<Rightarrow> wc_state \<Rightarrow> wc_state" where
  "wc_char b s =
     (let s = s\<lparr>wc_c := wc_c s + 1\<rparr>;
          s = (if b = 10 then s\<lparr>wc_l := wc_l s + 1\<rparr> else s)
      in if u_strchr [32, 13, 9, 10, 11] b \<noteq> None then s\<lparr>wc_inword := False\<rparr>
         else if \<not> wc_inword s then s\<lparr>wc_w := wc_w s + 1, wc_inword := True\<rparr>
         else s)"

fun wc_loop :: "nat \<Rightarrow> int \<Rightarrow> wc_state \<Rightarrow> wc_state uprog" where
  "wc_loop 0 fd s = Nofuel"
| "wc_loop (Suc fuel) fd s =
     ubind (sys_buf (U_read fd 512)) (\<lambda>(n, buf).
     if n > 0 then wc_loop fuel fd (fold wc_char (take (nat n) buf) s)
     else if n < 0 then uthen (u_printf (''wc: read error'' @ [CHR 0x0A]) []) (Exits 1)
     else Done s)"

definition wc :: "nat \<Rightarrow> int \<Rightarrow> byte list \<Rightarrow> unit uprog" where
  "wc fuel fd name =
     ubind (wc_loop fuel fd \<lparr>wc_l = 0, wc_w = 0, wc_c = 0, wc_inword = False\<rparr>) (\<lambda>s.
     u_printf (''%d %d %d %s'' @ [CHR 0x0A]) [Uint (wc_l s), Uint (wc_w s), Uint (wc_c s), Ustr (Some name)])"

definition wc_main :: "nat \<Rightarrow> byte list list \<Rightarrow> unit uprog" where
  "wc_main fuel argv =
     (if length argv \<le> 1 then uthen (wc fuel 0 []) (Exits 0)
      else
        uthen (ufor (tl argv) (\<lambda>f.
          ubind (sys (U_open f 0)) (\<lambda>fd.
          if fd < 0 then uthen (u_printf (''wc: cannot open %s'' @ [CHR 0x0A]) [Ustr (Some f)]) (Exits 1)
          else uthen (wc fuel fd f) (uthen (sys (U_close fd)) (Done ()))))) (
        Exits 0))"

section \<open>\<open>kill\<close>, \<open>ln\<close>, \<open>mkdir\<close>, \<open>rm\<close> and \<open>sleep\<close>\<close>

definition kill_main :: "byte list list \<Rightarrow> unit uprog" where
  "kill_main argv =
     (if length argv < 2 then uthen (u_fprintf 2 (''usage: kill pid...'' @ [CHR 0x0A]) []) (Exits 1)
      else uthen (ufor (tl argv) (\<lambda>a. uthen (sys (U_kill (atoi a))) (Done ()))) (Exits 0))"

definition ln_main :: "byte list list \<Rightarrow> unit uprog" where
  "ln_main argv =
     (if length argv \<noteq> 3 then uthen (u_fprintf 2 (''Usage: ln old new'' @ [CHR 0x0A]) []) (Exits 1)
      else
        ubind (sys (U_link (argv ! 1) (argv ! 2))) (\<lambda>r.
        uthen (if r < 0 then u_fprintf 2 (''link %s %s: failed'' @ [CHR 0x0A]) [Ustr (Some (argv ! 1)), Ustr (Some (argv ! 2))]
               else Done ()) (
        Exits 0)))"

fun mkdir_args :: "byte list list \<Rightarrow> unit uprog" where
  "mkdir_args [] = Done ()"
| "mkdir_args (a # as) =
     ubind (sys (U_mkdir a)) (\<lambda>r.
     if r < 0 then u_fprintf 2 (''mkdir: %s failed to create'' @ [CHR 0x0A]) [Ustr (Some a)]
     else mkdir_args as)"

definition mkdir_main :: "byte list list \<Rightarrow> unit uprog" where
  "mkdir_main argv =
     (if length argv < 2 then uthen (u_fprintf 2 (''Usage: mkdir files...'' @ [CHR 0x0A]) []) (Exits 1)
      else uthen (mkdir_args (tl argv)) (Exits 0))"

fun rm_args :: "byte list list \<Rightarrow> unit uprog" where
  "rm_args [] = Done ()"
| "rm_args (a # as) =
     ubind (sys (U_unlink a)) (\<lambda>r.
     if r < 0 then u_fprintf 2 (''rm: %s failed to delete'' @ [CHR 0x0A]) [Ustr (Some a)]
     else rm_args as)"

definition rm_main :: "byte list list \<Rightarrow> unit uprog" where
  "rm_main argv =
     (if length argv < 2 then uthen (u_fprintf 2 (''Usage: rm files...'' @ [CHR 0x0A]) []) (Exits 1)
      else uthen (rm_args (tl argv)) (Exits 0))"

definition sleep_main :: "byte list list \<Rightarrow> unit uprog" where
  "sleep_main argv =
     (if length argv \<noteq> 2 then uthen (u_printf (''Sleep needs one argument!'' @ [CHR 0x0A]) []) (Exits (- 1))
      else
        uthen (sys (U_sleep (atoi (argv ! 1)))) (
        uthen (u_printf (''(nothing happens for a little while)'' @ [CHR 0x0A]) []) (
        Exits 0)))"

section \<open>\<open>ls\<close>\<close>

definition fmtname :: "byte list \<Rightarrow> byte list" where
  "fmtname path =
     (let p = rev (takeWhile (\<lambda>c. c \<noteq> 47) (rev path))
      in if length p \<ge> 14 then p else p @ replicate (14 - length p) 32)"

text \<open>The fields of \<open>struct stat\<close>, at their offsets in the bytes \<open>fstat\<close> stores.\<close>

definition st_ino :: "byte list \<Rightarrow> u32" where
  "st_ino st = rd32 st 4"

definition st_type :: "byte list \<Rightarrow> 16 word" where
  "st_type st = rd16 st 8"

definition st_size :: "byte list \<Rightarrow> u64" where
  "st_size st = rd64 st 16"

fun ls_dir :: "nat \<Rightarrow> int \<Rightarrow> byte list \<Rightarrow> unit uprog" where
  "ls_dir 0 fd path = Nofuel"
| "ls_dir (Suc fuel) fd path =
     ubind (sys_buf (U_read fd 16)) (\<lambda>(n, de).
     if n \<noteq> 16 then Done ()
     else if rd16 de 0 = 0 then ls_dir fuel fd path
     else
       let buf = path @ [47] @ takeWhile (\<lambda>c. c \<noteq> 0) (blk_get de 2 14) in
       ubind (u_stat buf) (\<lambda>(r, st).
       if r < 0 then uthen (u_printf (''ls: cannot stat %s'' @ [CHR 0x0A]) [Ustr (Some buf)]) (ls_dir fuel fd path)
       else
         uthen (u_printf (''%s %d %d %d'' @ [CHR 0x0A])
             [Ustr (Some (fmtname buf)), Uint (scast (st_type st)), Uint (st_ino st), Uint (ucast (st_size st))]) (
         ls_dir fuel fd path)))"

definition ls :: "nat \<Rightarrow> byte list \<Rightarrow> unit uprog" where
  "ls fuel path =
     ubind (sys (U_open path 0)) (\<lambda>fd.
     if fd < 0 then u_fprintf 2 (''ls: cannot open %s'' @ [CHR 0x0A]) [Ustr (Some path)]
     else
       ubind (sys_buf (U_fstat fd)) (\<lambda>(r, st).
       if r < 0 then
         uthen (u_fprintf 2 (''ls: cannot stat %s'' @ [CHR 0x0A]) [Ustr (Some path)]) (
         uthen (sys (U_close fd)) (
         Done ()))
       else
         uthen
           (if st_type st = 2 then
              u_printf (''%s %d %d %l'' @ [CHR 0x0A])
                [Ustr (Some (fmtname path)), Uint (scast (st_type st)), Uint (st_ino st), Ulong (st_size st)]
            else if st_type st = 1 then
              (if length path + 1 + 14 + 1 > 512 then u_printf (''ls: path too long'' @ [CHR 0x0A]) []
               else ls_dir fuel fd path)
            else Done ()) (
         uthen (sys (U_close fd)) (
         Done ()))))"

definition ls_main :: "nat \<Rightarrow> byte list list \<Rightarrow> unit uprog" where
  "ls_main fuel argv =
     (if length argv < 2 then uthen (ls fuel [46]) (Exits 0)
      else uthen (ufor (tl argv) (ls fuel)) (Exits 0))"

section \<open>\<open>init\<close> and \<open>zombie\<close>\<close>

definition zombie_main :: "unit uprog" where
  "zombie_main =
     ubind (sys U_fork) (\<lambda>r.
     uthen (if r > 0 then sys (U_sleep 5) else Done 0) (
     Exits 0))"

fun init_wait :: "nat \<Rightarrow> int \<Rightarrow> unit uprog" where
  "init_wait 0 pid = Nofuel"
| "init_wait (Suc fuel) pid =
     ubind (sys (U_wait False 0)) (\<lambda>wpid.
     if wpid = pid then Done ()
     else if wpid < 0 then uthen (u_printf (''init: wait returned an error'' @ [CHR 0x0A]) []) (Exits 1)
     else init_wait fuel pid)"

fun init_loop :: "nat \<Rightarrow> unit uprog" where
  "init_loop 0 = Nofuel"
| "init_loop (Suc fuel) =
     uthen (u_printf (''init: starting sh'' @ [CHR 0x0A]) []) (
     ubind (sys U_fork) (\<lambda>pid.
     if pid < 0 then uthen (u_printf (''init: fork failed'' @ [CHR 0x0A]) []) (Exits 1)
     else if pid = 0 then
       uthen (sys (U_exec (bytes_of ''sh'') [bytes_of ''sh''])) (
       uthen (u_printf (''init: exec sh failed'' @ [CHR 0x0A]) []) (
       Exits 1))
     else uthen (init_wait fuel pid) (init_loop fuel)))"

definition init_main :: "nat \<Rightarrow> unit uprog" where
  "init_main fuel =
     ubind (sys (U_open (bytes_of ''console'') 2)) (\<lambda>r.
     uthen (if r < 0 then
              uthen (sys (U_mknod (bytes_of ''console'') 1 0)) (
              sys (U_open (bytes_of ''console'') 2))
            else Done 0) (
     uthen (sys (U_dup 0)) (
     uthen (sys (U_dup 0)) (
     init_loop fuel))))"

section \<open>The small test programs\<close>

definition print_str :: "string \<Rightarrow> unit uprog" where
  "print_str s = uthen (sys (U_write 1 (bytes_of s))) (Done ())"

text \<open>The loop over \<open>fork\<close> with \<open>k\<close> turns left: the number of children.\<close>

fun forktest_forks :: "nat \<Rightarrow> nat \<Rightarrow> nat uprog" where
  "forktest_forks 0 n = Done n"
| "forktest_forks (Suc k) n =
     ubind (sys U_fork) (\<lambda>pid.
     if pid < 0 then Done n
     else if pid = 0 then Exits 0
     else forktest_forks k (Suc n))"

fun forktest_waits :: "nat \<Rightarrow> unit uprog" where
  "forktest_waits 0 = Done ()"
| "forktest_waits (Suc n) =
     ubind (sys (U_wait False 0)) (\<lambda>r.
     if r < 0 then uthen (print_str (''wait stopped early'' @ [CHR 0x0A])) (Exits 1)
     else forktest_waits n)"

definition forktest :: "unit uprog" where
  "forktest =
     uthen (print_str (''fork test'' @ [CHR 0x0A])) (
     ubind (forktest_forks 1000 0) (\<lambda>n.
     if n = 1000 then uthen (print_str (''fork claimed to work N times!'' @ [CHR 0x0A])) (Exits 1)
     else
       uthen (forktest_waits n) (
       ubind (sys (U_wait False 0)) (\<lambda>r.
       if r \<noteq> - 1 then uthen (print_str (''wait got too many'' @ [CHR 0x0A])) (Exits 1)
       else print_str (''fork test OK'' @ [CHR 0x0A])))))"

definition forktest_main :: "unit uprog" where
  "forktest_main = uthen forktest (Exits 0)"

fun stressfs_forks :: "nat \<Rightarrow> nat \<Rightarrow> nat uprog" where
  "stressfs_forks 0 i = Done i"
| "stressfs_forks (Suc k) i = ubind (sys U_fork) (\<lambda>r. if r > 0 then Done i else stressfs_forks k (Suc i))"

definition stressfs_main :: "unit uprog" where
  "stressfs_main =
     uthen (u_printf (''stressfs starting'' @ [CHR 0x0A]) []) (
     ubind (stressfs_forks 4 0) (\<lambda>i.
     uthen (u_printf (''write %d'' @ [CHR 0x0A]) [Uint (of_nat i)]) (
     let path = bytes_of ''stressfs'' @ [48 + of_nat i] in
     ubind (sys (U_open path (0x200 + 2))) (\<lambda>fd.
     uthen (ufor [0..<20] (\<lambda>_. uthen (sys (U_write fd (replicate 512 97))) (Done ()))) (
     uthen (sys (U_close fd)) (
     uthen (u_printf (''read'' @ [CHR 0x0A]) []) (
     ubind (sys (U_open path 0)) (\<lambda>fd.
     uthen (ufor [0..<20] (\<lambda>_. uthen (sys (U_read fd 512)) (Done ()))) (
     uthen (sys (U_close fd)) (
     uthen (sys (U_wait False 0)) (
     Exits 0)))))))))))"

definition waittest :: "unit uprog" where
  "waittest =
     uthen (u_printf (''wait test'' @ [CHR 0x0A]) []) (
     ubind (sys U_fork) (\<lambda>pid.
     uthen (if pid = 0 then uthen (sys (U_sleep 10)) (Exits 0) else Done ()) (
     uthen (ufor [0..<3] (\<lambda>i.
       ubind (sys (U_wait False 1)) (\<lambda>r.
       if r < 0 then u_printf (''no child exited yet, round %d'' @ [CHR 0x0A]) [Uint (of_nat i)]
       else
         uthen (u_printf (''wait shouldn'' @ [CHR 0x27] @ ''t block!'' @ [CHR 0x0A]) []) (
         uthen (u_printf (''wait test FAIL'' @ [CHR 0x0A]) []) (
         Exits 1))))) (
     ubind (sys (U_wait False 0)) (\<lambda>child_pid.
     uthen (u_printf (''child exited, pid %d'' @ [CHR 0x0A]) [Uint (of_int child_pid)]) (
     u_printf (''wait test OK'' @ [CHR 0x0A]) []))))))"

definition exittest :: "unit uprog" where
  "exittest =
     uthen (u_printf (''exit test'' @ [CHR 0x0A]) []) (
     uthen (ufor [0..<3] (\<lambda>i.
       ubind (sys U_fork) (\<lambda>pid.
       if pid = 0 then
         uthen (sys (U_rename (bytes_of ''child'' @ [48 + of_nat i]))) (
         uthen (sys (U_sleep 10)) (
         Exits 0))
       else Done ()))) (
     uthen (sys (U_sleep 1)) (
     Done ())))"

definition yieldtest :: "unit uprog" where
  "yieldtest =
     uthen (u_printf (''yield test'' @ [CHR 0x0A]) []) (
     uthen (ufor [0..<3] (\<lambda>i.
       ubind (sys U_fork) (\<lambda>pid.
       if pid = 0 then
         ubind (sys U_getpid) (\<lambda>p.
         uthen (u_printf (''Child with PID %d begins to run'' @ [CHR 0x0A]) [Uint (of_int p)]) (
         Exits 0))
       else Done ()))) (
     uthen (u_printf (''parent yield'' @ [CHR 0x0A]) []) (
     uthen (sys U_yield) (
     uthen (u_printf (''parent yield finished'' @ [CHR 0x0A]) []) (
     ufor [0..<3] (\<lambda>i. uthen (sys (U_wait False 0)) (Done ())))))))"

section \<open>What they do\<close>

lemma cat_copies:
  assumes "length (f_in w) < fuel"
  shows "\<exists>w'. urun (cat fuel fd) fio_call w = (Returned (), w') \<and> f_in w' = [] \<and> f_out w' = f_out w @ f_in w"
  using assms
proof (induction fuel arbitrary: w)
  case (Suc fuel)
  obtain d where rd: "fio_call (U_read fd 512) w =
      (\<lparr>r_a0 = int (length d), r_buf = d\<rparr>, w\<lparr>f_in := drop (length d) (f_in w), f_no := Suc (f_no w)\<rparr>)"
    and d: "take (length d) (f_in w) = d" "d = [] \<longrightarrow> f_in w = []"
    using fio_read [of fd 512 w] by auto
  show ?case
  proof (cases "d = []")
    case True
    then show ?thesis using rd d by simp
  next
    case False
    define w1 where "w1 = w\<lparr>f_in := drop (length d) (f_in w), f_no := Suc (f_no w), f_out := f_out w @ d\<rparr>"
    have f: "f_in w1 = drop (length d) (f_in w)" "f_out w1 = f_out w @ d" by (simp_all add: w1_def)
    have all: "f_in w = d @ f_in w1" using append_take_drop_id [of "length d" "f_in w"] d(1) f(1) by simp
    then have "length (f_in w1) < fuel" using Suc.prems False by (cases d) simp_all
    then obtain w' where run: "urun (cat fuel fd) fio_call w1 = (Returned (), w')" and w': "f_in w' = []" "f_out w' = f_out w1 @ f_in w1"
      using Suc.IH by blast
    have "f_out w' = f_out w @ f_in w" by (simp only: w' f(2) all append_assoc)
    moreover have "urun (cat (Suc fuel) fd) fio_call w = (Returned (), w')"
      using run False by (simp add: rd fio_write w1_def)
    ultimately show ?thesis using w'(1) by blast
  qed
qed simp

lemma wc_counts:
  assumes "length (f_in w) < fuel"
  shows "\<exists>w'. urun (wc_loop fuel fd s) fio_call w = (Returned (fold wc_char (f_in w) s), w') \<and> f_out w' = f_out w"
  using assms
proof (induction fuel arbitrary: w s)
  case (Suc fuel)
  obtain d where rd: "fio_call (U_read fd 512) w =
      (\<lparr>r_a0 = int (length d), r_buf = d\<rparr>, w\<lparr>f_in := drop (length d) (f_in w), f_no := Suc (f_no w)\<rparr>)"
    and d: "take (length d) (f_in w) = d" "d = [] \<longrightarrow> f_in w = []"
    using fio_read [of fd 512 w] by auto
  define w1 where "w1 = w\<lparr>f_in := drop (length d) (f_in w), f_no := Suc (f_no w)\<rparr>"
  have f: "f_in w1 = drop (length d) (f_in w)" "f_out w1 = f_out w" by (simp_all add: w1_def)
  have all: "f_in w = d @ f_in w1" using append_take_drop_id [of "length d" "f_in w"] d(1) f(1) by simp
  show ?case
  proof (cases "d = []")
    case True
    then show ?thesis using rd d by simp
  next
    case False
    then have "length (f_in w1) < fuel" using Suc.prems all by (cases d) simp_all
    then obtain w' where "urun (wc_loop fuel fd (fold wc_char d s)) fio_call w1 = (Returned (fold wc_char (f_in w1) (fold wc_char d s)), w')"
      and w': "f_out w' = f_out w1"
      using Suc.IH by blast
    then have "urun (wc_loop (Suc fuel) fd s) fio_call w = (Returned (fold wc_char (f_in w1) (fold wc_char d s)), w')"
      using False by (simp add: rd w1_def)
    moreover have "fold wc_char (f_in w1) (fold wc_char d s) = fold wc_char (f_in w) s" by (simp add: all)
    ultimately show ?thesis using w' f(2) by simp
  qed
qed simp

end
