(* ===== verification/Spec2Isabelle.thy ===== *)
theory Spec2Isabelle
  imports Vm_Props Fs_Dir Console_Props Pipe_Fifo Trap Sh_Props Grep Umalloc Uprogs
begin

text \<open>
  A verification development of the xv6 kernel for RISC-V (\<open>src/kernel\<close>) and of its user programs (\<open>src/user\<close>).

  \<^bold>\<open>The program.\<close> The kernel runs user processes in address spaces of their own. At the bottom are the registers of a
  hart, spinlocks, string routines and the allocator of physical pages; on these stand the page tables and the table of
  processes with \<open>sleep\<close> and \<open>wakeup\<close>. The disk driver, the buffer cache and the log give transactions on blocks, on which the file system
  builds inodes, directories and path names. Pipes, the console and open files are above it, then \<open>fork\<close>, \<open>exit\<close> and \<open>exec\<close>,
  the system calls and the traps that lead to them. User programs reach all this by system calls only.

  \<^bold>\<open>How it is modelled.\<close> A kernel function is a kernel operation (\<open>kop\<close> of \<open>Xv6_Prelude\<close>): from a state it gives \<open>Ok\<close> with a value and a new
  state, \<open>Panic\<close> with the message of the call of \<open>panic\<close>, \<open>Spin\<close> when it waits for a lock that nobody on this
  hart will release, or \<open>Switch\<close> when it gives up the processor in \<open>swtch\<close>. What a process does when it is chosen again is an operation of its own, with
  the suffix \<open>_resume\<close>. Operations are put together with \<open>bind\<close> and \<open>andthen\<close>, in the order of the calls of the source.
  The state is a chain of records, one per layer, so that an operation of a layer works on the state of every layer above it: \<open>kstate\<close> (the hart and the
  locks), \<open>kmem_state\<close> (memory and the free list), \<open>vm_state\<close>, \<open>io_state\<close>, \<open>proc_state\<close>, \<open>sl_state\<close>, \<open>disk_state\<close>, \<open>log_state\<close>,
  \<open>fs_state\<close>, \<open>con_state\<close>, \<open>file_state\<close>, \<open>sys_state\<close>, \<open>sysp_state\<close>, \<open>trap_state\<close>. Machine words keep their width. Memory is a map
  from 64-bit addresses to bytes; page tables, the free list and trap frames lie in it as the code lays them out. Locks, buffers, inodes, files and
  processes are entries of tables, and a pointer to one is its index. Interleaving is between operations; the spinlocks have a model of the interleaved
  atomic steps of several harts besides (\<open>lock_step\<close>).

  \<^bold>\<open>Theories and sources.\<close>
  \<^item> \<open>Xv6_Prelude\<close>: operations, bytes and words in memory and in blocks, shared lemmas. \<open>Riscv\<close>: \<open>riscv.h\<close>, \<open>memlayout.h\<close>, \<open>param.h\<close>.
  \<^item> \<open>Spinlock\<close>: \<open>spinlock.c\<close>. \<open>Kstring\<close>: \<open>string.c\<close>. \<open>Kalloc\<close>: \<open>kalloc.c\<close>. \<open>Printf\<close>: \<open>printf.c\<close>.
  \<^item> \<open>Vm\<close>: \<open>vm.c\<close>; \<open>Vm_Tree\<close> has the page table as a tree, \<open>Vm_Spec\<close> user memory as a map from page numbers, \<open>Vm_Copy\<close> and \<open>Vm_Props\<close>
    the laws of its operations, \<open>Vm_Bytes\<close> user memory one byte at a time.
  \<^item> \<open>Proc\<close>: \<open>proc.c\<close> below the file system. \<open>Sleeplock\<close>: \<open>sleeplock.c\<close>.
  \<^item> \<open>Virtio\<close>: \<open>virtio_disk.c\<close> and the device. \<open>Bio\<close>: \<open>bio.c\<close>. \<open>Log\<close>: \<open>log.c\<close>.
  \<^item> \<open>Fs\<close>: \<open>fs.c\<close>; its laws are in \<open>Fs_Alloc\<close> (blocks), \<open>Fs_Inode\<close> (inodes), \<open>Fs_File\<close> (contents), \<open>Fs_Dir\<close> (directories)
    and \<open>Fs_Path\<close> (path names).
  \<^item> \<open>Console\<close>: \<open>console.c\<close>, \<open>uart.c\<close>, laws in \<open>Console_Props\<close>. \<open>Pipe\<close>: \<open>pipe.c\<close>, laws in \<open>Pipe_Fifo\<close>. \<open>File\<close>: \<open>file.c\<close>.
  \<^item> \<open>Proc_Life\<close>: \<open>userinit\<close>, \<open>fork\<close>, \<open>exit\<close> of \<open>proc.c\<close> and \<open>exec.c\<close>. \<open>Sysproc\<close>: \<open>sysproc.c\<close> and the arguments of system calls. \<open>Sysfile\<close>: \<open>sysfile.c\<close>.
    \<open>Trap\<close>: \<open>syscall.c\<close>, \<open>trap.c\<close>, \<open>plic.c\<close>, \<open>main.c\<close>, \<open>start.c\<close>.
  \<^item> \<open>Ulib\<close>: \<open>user/ulib.c\<close>, \<open>user/printf.c\<close>, and user programs as resumptions that make system calls. \<open>Sh\<close>: \<open>user/sh.c\<close>, laws in \<open>Sh_Props\<close>. \<open>Grep\<close>: \<open>user/grep.c\<close>.
    \<open>Umalloc\<close>: \<open>user/umalloc.c\<close>. \<open>Uprogs\<close>: the other programs.

  \<^bold>\<open>Interfaces.\<close> Three locales carry lemmas that are proved once for every provider.
  \<^item> \<open>page_allocator\<close> (\<open>Kalloc\<close>): allocating and freeing pages of a list; interpreted by \<open>kalloc\<close> and \<open>kfree\<close>.
  \<^item> \<open>block_tx\<close> (\<open>Block_Tx\<close>): what the file system relies on inside a transaction: \<open>bread\<close>, changing a held block, \<open>log_write\<close>, \<open>brelse\<close>. Interpreted in \<open>Log\<close>
    on the buffer cache and the log; every law of the file system rests on it.
  \<^item> \<open>bounded_queue\<close> (\<open>Ring\<close>): a queue in a circular buffer; interpreted by the pipe and by the transmit buffer of the UART.

  \<^bold>\<open>What is proved.\<close>
  \<^item> Concurrency: at most one hart is inside a critical section, in every interleaving; the sequential \<open>acquire\<close> is a
    sequence of those steps; \<open>sleep\<close>, \<open>wakeup\<close> and sleep locks hand over.
  \<^item> Memory: page allocation, mapping, growing, copying and freeing of address spaces against an abstract map; \<open>copyin\<close>, \<open>copyout\<close>, \<open>copyinstr\<close>, and that they
    touch no byte outside the user range.
  \<^item> Disk: the driver writes and reads back; the buffer cache implements a store of blocks; a transaction is atomic under a crash at any block write and durable once
    \<open>end_op\<close> has returned; recovery is idempotent.
  \<^item> File system: the block allocator, reference counts of inodes, freeing of an inode, contents of files, directories as maps, path names against a reference.
  \<^item> Streams: a pipe and the console's transmit buffer are bounded queues, with the bytes in order.
  \<^item> User programs: the shell's parser ends, gives well-formed commands and reads back what a printer writes; \<open>grep\<close> prints the lines that match a reference
    semantics of patterns; the blocks \<open>malloc\<close> hands out never overlap.
  \<^item> Defects of the code that the model shows are theorems too: reference counts after recovery, the reservation of the log, \<open>wait\<close> that does not free a
    zombie, \<open>kill\<close> of an unused slot, \<open>consolewrite\<close> that sleeps with a lock held.

  \<^bold>\<open>Fuel.\<close> Loops are recursive functions with a termination proof wherever their length is bounded by the data. Fuel is used for
  \<open>freewalk\<close> (3, the depth of a table), the scans of the list of buffers (\<open>NBUF + 1\<close>, the number of nodes), \<open>uartstart\<close> (33, one more than the
  ring has slots), the parser of the shell (proved: four times the length of the line plus four is enough), loops of user programs over \<open>read\<close> and \<open>wait\<close> (proved
  for \<open>cat\<close>, \<open>wc\<close> and \<open>grep\<close>: more than the length of the input is enough) and \<open>malloc\<close> (proved: \<open>2^38\<close> is enough for a heap below \<open>2^36\<close>, since it bounds the number of blocks).
  Out of fuel is an outcome of its own (\<open>Spin\<close>, \<open>Nofuel\<close>, \<open>Outoffuel\<close>, \<open>None\<close>), never a result.

  \<^bold>\<open>Not modelled.\<close> Assembly (\<open>entry.S\<close>, \<open>kernelvec.S\<close>, \<open>swtch.S\<close>, \<open>trampoline.S\<close>, \<open>initcode.S\<close> and the stubs \<open>usys.pl\<close> generates): its effect is the
  outcome \<open>Switch\<close>, the entry and exit of the trap handlers and the bytes of \<open>initcode\<close>. The answers of devices are parameters: the transmit-idle bit, received bytes, the claims of the
  PLIC, the status of a disk request. \<open>ramdisk.c\<close> is not part of the build and uses flags that do not exist. \<open>usertests.c\<close> and \<open>grind.c\<close> drive the system calls and
  have no behaviour of their own; \<open>sysinfotest.c\<close> and \<open>trace.c\<close> call system calls this kernel does not have. \<open>mkfs.c\<close> runs on the host. The scripts that build and grade are not part of the system.
\<close>

end
